(* ===== verification/Prelude.thy ===== *)
theory Prelude
  imports Main "HOL-Library.Word" "HOL-Library.Monad_Syntax" "HOL-Library.Multiset"
begin

unbundle bit_operations_syntax

text \<open>
  Shared vocabulary of the development: the machine types of the C sources, memory
  accesses that can fault, and the generic facts on words, lists and options that the
  component theories use.

  A C object reached through a pointer is a list of its elements and a position in it.
  \<^term>\<open>load\<close> and \<^term>\<open>store\<close> return \<^term>\<open>None\<close> outside the object, so a model
  that returns \<^term>\<open>Some\<close> makes no access out of bounds.
\<close>

section \<open>Machine types\<close>

type_synonym u8 = "8 word"
type_synonym u16 = "16 word"
type_synonym u32 = "32 word"
type_synonym u64 = "64 word"

text \<open>Rules that turn word arithmetic into arithmetic on natural numbers.\<close>

named_theorems unat_rules

text \<open>Equations of the accesses inside an object.\<close>

named_theorems mem_rules

section \<open>Memory accesses\<close>

definition load :: "'a list \<Rightarrow> nat \<Rightarrow> 'a option" where
  "load xs i = (if i < length xs then Some (xs ! i) else None)"

definition store :: "'a list \<Rightarrow> nat \<Rightarrow> 'a \<Rightarrow> 'a list option" where
  "store xs i v = (if i < length xs then Some (xs[i := v]) else None)"

text \<open>
  \<open>memcpy(dst + d, src + s, n)\<close> and \<open>memmove\<close> inside one object. Both fault unless the two
  ranges lie inside their objects.
\<close>

definition memcpy :: "'a list \<Rightarrow> nat \<Rightarrow> 'a list \<Rightarrow> nat \<Rightarrow> nat \<Rightarrow> 'a list option" where
  "memcpy dst d src s n =
     (if d + n \<le> length dst \<and> s + n \<le> length src
      then Some (take d dst @ take n (drop s src) @ drop (d + n) dst) else None)"

definition memmove :: "'a list \<Rightarrow> nat \<Rightarrow> nat \<Rightarrow> nat \<Rightarrow> 'a list option" where
  "memmove m d s n = memcpy m d m s n"

lemma load_Some_iff: "load xs i = Some v \<longleftrightarrow> i < length xs \<and> xs ! i = v"
  by (auto simp: load_def)

lemma load_None_iff: "load xs i = None \<longleftrightarrow> length xs \<le> i"
  by (auto simp: load_def)

lemma load_in [mem_rules]: "i < length xs \<Longrightarrow> load xs i = Some (xs ! i)"
  by (simp add: load_def)

lemma load_SomeD: "load xs i = Some v \<Longrightarrow> i < length xs"
  by (simp add: load_Some_iff)

lemma load_append_at [mem_rules]: "load (xs @ y # ys) (length xs) = Some y"
  by (simp add: load_def)

lemma load_code [simp]:
  "load [] i = None" "load (x # xs) 0 = Some x" "load (x # xs) (Suc i) = load xs i"
  by (auto simp: load_def)

lemma load_numeral [simp]: "load (x # xs) (numeral k) = load xs (pred_numeral k)"
  by (simp add: numeral_eq_Suc)

lemma load_append: "load (xs @ ys) i = (if i < length xs then load xs i else load ys (i - length xs))"
  by (auto simp: load_def nth_append)

lemma load_drop: "n \<le> length xs \<Longrightarrow> load (drop n xs) i = load xs (n + i)"
  by (auto simp: load_def)

lemma store_in [mem_rules]: "i < length xs \<Longrightarrow> store xs i v = Some (xs[i := v])"
  by (simp add: store_def)

lemma store_Some_iff: "store xs i v = Some ys \<longleftrightarrow> i < length xs \<and> ys = xs[i := v]"
  by (auto simp: store_def)

lemma memcpy_in [mem_rules]:
  "d + n \<le> length dst \<Longrightarrow> s + n \<le> length src \<Longrightarrow>
     memcpy dst d src s n = Some (take d dst @ take n (drop s src) @ drop (d + n) dst)"
  by (simp add: memcpy_def)

lemma memcpy_Some_iff:
  "memcpy dst d src s n = Some ys \<longleftrightarrow>
     d + n \<le> length dst \<and> s + n \<le> length src
     \<and> ys = take d dst @ take n (drop s src) @ drop (d + n) dst"
  by (auto simp: memcpy_def)

lemma memcpy_length: "memcpy dst d src s n = Some ys \<Longrightarrow> length ys = length dst"
  by (auto simp: memcpy_Some_iff)

lemma take_list_update_Suc:
  "i < length xs \<Longrightarrow> take (Suc i) (xs[i := v]) = take i xs @ [v]"
  by (simp add: take_Suc_conv_app_nth)

section \<open>C strings\<close>

text \<open>\<open>strlen\<close> faults when the object holds no terminator.\<close>

fun strlen :: "u8 list \<Rightarrow> nat option" where
  "strlen [] = None"
| "strlen (c # cs) = (if c = 0 then Some 0 else map_option Suc (strlen cs))"

lemma strlen_append [simp]: "0 \<notin> set s \<Longrightarrow> strlen (s @ 0 # rest) = Some (length s)"
  by (induction s) auto

lemma strlen_SomeD:
  "strlen xs = Some n \<Longrightarrow> n < length xs \<and> xs ! n = 0 \<and> 0 \<notin> set (take n xs)"
proof (induction xs arbitrary: n)
  case Nil
  then show ?case by simp
next
  case (Cons c cs)
  then show ?case by (cases n) (auto split: if_splits)
qed

section \<open>Words as natural numbers\<close>

lemma unat_take_bit [unat_rules]: "unat (take_bit n w) = unat w mod 2 ^ n" for w :: "'a::len word"
proof -
  have "unat (take_bit n w) = take_bit n (unat w)"
    by transfer (simp add: take_bit_take_bit min.commute flip: nat_take_bit_eq)
  then show ?thesis by (simp add: take_bit_eq_mod)
qed

lemma unat_and_mask: "unat (w AND mask n) = unat w mod 2 ^ n" for w :: "'a::len word"
  by (simp add: unat_take_bit flip: take_bit_eq_mask)

lemma or_eq_add:
  fixes a b :: "'a::len word"
  assumes "unat a < 2 ^ n" "unat b mod 2 ^ n = 0"
  shows "a OR b = a + b"
proof -
  have a: "take_bit n a = a"
    using assms(1) by (metis unat_take_bit mod_less word_unat_eq_iff)
  have b: "take_bit n b = 0"
    using assms(2) by (metis unat_take_bit unat_0 word_unat_eq_iff)
  have "\<not> bit a k \<or> \<not> bit b k" for k
  proof (cases "k < n")
    case True
    then show ?thesis using b by (metis bit_0_eq bit_take_bit_iff bot_apply bot_bool_def)
  next
    case False
    then show ?thesis using a by (metis bit_take_bit_iff)
  qed
  then show ?thesis by (simp add: disjunctive_add)
qed

lemma unat_or_disj:
  fixes a b :: "'a::len word"
  assumes "unat a < 2 ^ n" "unat b mod 2 ^ n = 0" 
  shows "unat (a OR b) = unat a + unat b"
proof (cases "n < LENGTH('a)")
  case True
  have "unat b \<le> 2^LENGTH('a) - 2^n"
  proof -
    obtain k where k: "unat b = k * 2^n" using assms(2) by (metis mod_0_imp_dvd dvdE mult.commute)
    have "k * 2^n < 2^(LENGTH('a) - n) * 2^n"
      using True k unsigned_less[of b] by (metis less_imp_le_nat le_add_diff_inverse2 power_add)
    then have "k < 2^(LENGTH('a) - n)" by simp
    then have "k \<le> 2^(LENGTH('a) - n) - 1" by simp
    then have "k * 2^n \<le> (2^(LENGTH('a) - n) - 1) * 2^n" by simp
    also have "\<dots> = 2^LENGTH('a) - 2^n" using True by (simp add: diff_mult_distrib flip: power_add)
    finally show ?thesis using k by simp
  qed
  moreover have "(2::nat)^n \<le> 2^LENGTH('a)" using True by simp
  ultimately have "unat a + unat b < 2^LENGTH('a)" using assms(1) by linarith
  then show ?thesis using or_eq_add[OF assms] by (simp add: unat_add_lem[THEN iffD1])
next
  case False
  then have "unat b < 2^n" by (meson less_le_trans linorder_not_less power_increasing unsigned_less one_le_numeral)
  then have "b = 0" using assms(2) by (simp add: unat_eq_zero)
  then show ?thesis by simp
qed
lemma unat_and_3F [unat_rules]: "unat (w AND 0x3F) = unat w mod 64" for w :: "'a::len word"
  using unat_and_mask [of w 6] by (simp add: mask_eq_exp_minus_1)

lemma unat_and_3FF [unat_rules]: "unat (w AND 0x3FF) = unat w mod 1024" for w :: "'a::len word"
  using unat_and_mask [of w 10] by (simp add: mask_eq_exp_minus_1)

lemma unat_and_FF [unat_rules]: "unat (w AND 0xFF) = unat w mod 256" for w :: "'a::len word"
  using unat_and_mask [of w 8] by (simp add: mask_eq_exp_minus_1)

lemma unat_drop_bit [unat_rules]: "unat (drop_bit n w) = unat w div 2 ^ n" for w :: "'a::len word"
  unfolding unat_drop_bit_eq by (simp add: drop_bit_eq_div)

lemma unat_push_bit:
  "unat w * 2 ^ n < 2 ^ LENGTH('a) \<Longrightarrow> unat (push_bit n w) = unat w * 2 ^ n" for w :: "'a::len word"
  unfolding unsigned_push_bit_eq by (simp add: push_bit_eq_mult take_bit_eq_mod)

lemma unat_lt2p: "unat w < 2 ^ LENGTH('a)" for w :: "'a::len word"
  by simp

lemma unat_add_no_wrap:
  "unat a + unat b < 2 ^ LENGTH('a) \<Longrightarrow> unat (a + b) = unat a + unat b" for a b :: "'a::len word"
  by (simp add: unat_add_lem [THEN iffD1])

end
