(* ===== verification/ListH.thy ===== *)
theory ListH
  imports Prelude
begin

text \<open>
  The circular doubly linked lists of \<^verbatim>\<open>list.h\<close>, on an explicit store of \<open>prev\<close> and \<open>next\<close>
  pointers, and their refinement to lists of nodes. A pointer that may be \<open>NULL\<close> is an option;
  following \<open>NULL\<close> is \<^term>\<open>None\<close>.
\<close>

section \<open>Definitions\<close>

record links =
  prev_at :: "nat \<Rightarrow> nat option"
  next_at :: "nat \<Rightarrow> nat option"

definition set_prev :: "links \<Rightarrow> nat \<Rightarrow> nat option \<Rightarrow> links" where
  "set_prev s el v = s\<lparr>prev_at := (prev_at s)(el := v)\<rparr>"

definition set_next :: "links \<Rightarrow> nat \<Rightarrow> nat option \<Rightarrow> links" where
  "set_next s el v = s\<lparr>next_at := (next_at s)(el := v)\<rparr>"

definition init_list_head :: "links \<Rightarrow> nat \<Rightarrow> links" where
  "init_list_head s head = set_next (set_prev s head (Some head)) head (Some head)"

text \<open>\<open>__list_add\<close>: insert \<open>el\<close> between \<open>prev\<close> and \<open>next\<close>.\<close>

definition list_add_between :: "links \<Rightarrow> nat \<Rightarrow> nat \<Rightarrow> nat \<Rightarrow> links" where
  "list_add_between s el prev nxt =
     set_prev (set_next (set_prev (set_next s prev (Some el)) el (Some prev)) el (Some nxt)) nxt (Some el)"

definition list_add :: "links \<Rightarrow> nat \<Rightarrow> nat \<Rightarrow> links option" where
  "list_add s el head = do { nxt \<leftarrow> next_at s head; Some (list_add_between s el head nxt) }"

definition list_add_tail :: "links \<Rightarrow> nat \<Rightarrow> nat \<Rightarrow> links option" where
  "list_add_tail s el head = do { prev \<leftarrow> prev_at s head; Some (list_add_between s el prev head) }"

definition list_del :: "links \<Rightarrow> nat \<Rightarrow> links option" where
  "list_del s el =
     do { prev \<leftarrow> prev_at s el; nxt \<leftarrow> next_at s el;
          let s = set_prev (set_next s prev (Some nxt)) nxt (Some prev);
              s = set_next (set_prev s el None) el None in
          Some s }"

definition list_empty :: "links \<Rightarrow> nat \<Rightarrow> bool" where
  "list_empty s el = (next_at s el = Some el)"

text \<open>The nodes that \<open>list_for_each\<close> visits, at most \<open>fuel\<close> of them.\<close>

fun walk_from :: "links \<Rightarrow> nat \<Rightarrow> nat \<Rightarrow> nat \<Rightarrow> nat list option" where
  "walk_from s head el 0 = (if el = head then Some [] else None)"
| "walk_from s head el (Suc fuel) =
     (if el = head then Some []
      else do { nxt \<leftarrow> next_at s el; r \<leftarrow> walk_from s head nxt fuel; Some (el # r) })"

definition list_for_each :: "links \<Rightarrow> nat \<Rightarrow> nat \<Rightarrow> nat list option" where
  "list_for_each s head fuel = do { el \<leftarrow> next_at s head; walk_from s head el fuel }"

section \<open>What a list is\<close>

fun path :: "links \<Rightarrow> nat \<Rightarrow> nat list \<Rightarrow> bool" where
  "path s a [] = True"
| "path s a (y # ys) = (next_at s a = Some y \<and> prev_at s y = Some a \<and> path s y ys)"

definition is_list :: "links \<Rightarrow> nat \<Rightarrow> nat list \<Rightarrow> bool" where
  "is_list s head xs =
     (path s head xs \<and> next_at s (last (head # xs)) = Some head \<and> prev_at s head = Some (last (head # xs))
      \<and> distinct (head # xs))"

text \<open>Nothing changes outside the nodes of \<open>A\<close>.\<close>

definition same_outside :: "nat set \<Rightarrow> links \<Rightarrow> links \<Rightarrow> bool" where
  "same_outside A s s' = (\<forall>x. x \<notin> A \<longrightarrow> prev_at s' x = prev_at s x \<and> next_at s' x = next_at s x)"

lemmas link_defs = set_prev_def set_next_def list_add_between_def

lemma path_append:
  "path s a (xs @ y # ys) =
     (path s a xs \<and> next_at s (last (a # xs)) = Some y \<and> prev_at s y = Some (last (a # xs)) \<and> path s y ys)"
  by (induction xs arbitrary: a) auto

lemma path_frame:
  "path s a xs \<Longrightarrow> (\<And>x. x \<in> set (butlast (a # xs)) \<Longrightarrow> next_at s' x = next_at s x) \<Longrightarrow>
     (\<And>x. x \<in> set xs \<Longrightarrow> prev_at s' x = prev_at s x) \<Longrightarrow> path s' a xs"
proof (induction xs arbitrary: a)
  case (Cons y ys)
  then have "path s' y ys" by (intro Cons.IH) auto
  then show ?case using Cons.prems by auto
qed simp

lemma last_not_butlast: "distinct xs \<Longrightarrow> xs \<noteq> [] \<Longrightarrow> last xs \<notin> set (butlast xs)"
  by (metis append_butlast_last_id distinct_append disjoint_iff list.set_intros(1))

lemma last_mem: "last (a # xs) \<in> insert a (set xs)"
  by (metis last_in_set list.distinct(1) list.simps(15))

lemma is_list_outside:
  assumes "is_list s head xs" "same_outside A s s'" "A \<inter> set (head # xs) = {}"
  shows "is_list s' head xs"
proof -
  have out: "next_at s' x = next_at s x" "prev_at s' x = prev_at s x" if "x \<in> set (head # xs)" for x
    using assms(2,3) that unfolding same_outside_def by (metis disjoint_iff)+
  have "path s' head xs"
    using assms(1) unfolding is_list_def
    by (intro path_frame [of s head xs s']) (use out in \<open>auto simp del: butlast.simps dest!: in_set_butlastD\<close>)
  then show ?thesis
    using assms(1) out(1) [of "last (head # xs)"] out(2) [of head] last_mem [of head xs] by (simp add: is_list_def)
qed

lemma add_between_list:
  assumes "is_list s head (xs @ ys)" "el \<notin> set (head # xs @ ys)"
  shows "is_list (list_add_between s el (last (head # xs)) (hd (ys @ [head]))) head (xs @ el # ys)"
proof -
  define p where "p = last (head # xs)"
  define n where "n = hd (ys @ [head])"
  define t where "t = list_add_between s el p n"
  have d: "distinct (head # xs)" "distinct ys" "set (head # xs) \<inter> set ys = {}"
    using assms(1) by (auto simp: is_list_def)
  have p: "p \<in> set (head # xs)" "p \<notin> set (butlast (head # xs))" "p \<noteq> el"
    using last_mem [of head xs] last_not_butlast [OF d(1)] assms(2) by (auto simp: p_def)
  have n: "n \<notin> set xs" "n \<noteq> el" using d assms(2) by (cases ys; auto simp: n_def)+
  have nxt: "next_at t x = (if x = el then Some n else if x = p then Some el else next_at s x)" for x
    using p(3) by (simp add: t_def link_defs)
  have prv: "prev_at t x = (if x = n then Some el else if x = el then Some p else prev_at s x)" for x
    by (simp add: t_def link_defs)
  have "path s head xs"
    using assms(1) by (cases ys) (auto simp: is_list_def path_append)
  then have px: "path t head xs"
  proof (rule path_frame)
    fix x assume "x \<in> set (butlast (head # xs))"
    with in_set_butlastD [OF this] show "next_at t x = next_at s x"
      using p(2) assms(2) by (auto simp: nxt simp del: butlast.simps)
  next
    fix x assume "x \<in> set xs"
    then show "prev_at t x = prev_at s x" using n(1) assms(2) by (auto simp: prv)
  qed
  have lp: "(if xs = [] then head else last xs) = p" by (simp add: p_def)
  have link: "next_at t (last (head # xs)) = Some el" "prev_at t el = Some (last (head # xs))"
    using p n unfolding p_def [symmetric] by (auto simp: nxt prv)
  have "path t el ys \<and> next_at t (last (el # ys)) = Some head \<and> prev_at t head = Some (last (el # ys))"
  proof (cases ys)
    case Nil
    then have "n = head" by (simp add: n_def)
    with Nil show ?thesis unfolding nxt prv by simp
  next
    case (Cons y vs)
    then have y: "n = y" "path s y vs" by (use assms(1) Cons in \<open>auto simp: n_def is_list_def path_append\<close>)
    have "path t y vs"
    proof (rule path_frame [OF y(2)])
      fix x assume "x \<in> set (butlast (y # vs))"
      then have "x \<in> set ys" using Cons in_set_butlastD by metis
      then have "x \<noteq> el" "x \<noteq> p" using assms(2) p(1) d(3) by auto
      then show "next_at t x = next_at s x" by (simp add: nxt)
    next
      fix x assume "x \<in> set vs"
      then show "prev_at t x = prev_at s x" unfolding prv using assms(2) d(2) Cons y(1) by auto
    qed
    moreover have "last ys \<noteq> el" "last ys \<noteq> p" "last (head # xs @ ys) = last ys"
      using assms(2) p(1) d(3) Cons last_in_set [of ys] by auto
    moreover have "head \<noteq> n" "head \<noteq> el" using d(3) assms(2) Cons y(1) by auto
    ultimately show ?thesis
      using assms(1) y(1) Cons by (auto simp: nxt prv is_list_def)
  qed
  then show ?thesis
    using px link d assms(2) unfolding p_def [symmetric] n_def [symmetric] t_def [symmetric]
    by (auto simp: is_list_def path_append p_def)
qed

lemma list_del_spec:
  assumes "is_list s head (xs @ el # ys)"
  shows "\<exists>s'. list_del s el = Some s' \<and> is_list s' head (xs @ ys)
    \<and> prev_at s' el = None \<and> next_at s' el = None \<and> same_outside (set (head # xs @ el # ys)) s s'"
proof -
  define p where "p = last (head # xs)"
  define n where "n = hd (ys @ [head])"
  have d: "distinct (head # xs)" "distinct ys" "set (head # xs) \<inter> set ys = {}" "el \<notin> set (head # xs @ ys)"
    using assms by (auto simp: is_list_def)
  have p: "p \<in> set (head # xs)" "p \<notin> set (butlast (head # xs))" "p \<noteq> el"
    using last_mem [of head xs] last_not_butlast [OF d(1)] d(4) by (auto simp: p_def)
  have n: "n \<notin> set xs" "n \<noteq> el" "n \<in> set (head # ys)" using d by (cases ys; auto simp: n_def)+
  have old: "path s head xs" "prev_at s el = Some p" "next_at s el = Some n"
    using assms by (cases ys; auto simp: is_list_def path_append p_def n_def)+
  define s' where "s' = set_next (set_prev (set_prev (set_next s p (Some n)) n (Some p)) el None) el None"
  have lp: "(if xs = [] then head else last xs) = p" by (simp add: p_def)
  have del: "list_del s el = Some s'" by (simp add: list_del_def old s'_def Let_def)
  have nxt: "next_at s' x = (if x = el then None else if x = p then Some n else next_at s x)" for x
    using p(3) by (simp add: s'_def link_defs)
  have prv: "prev_at s' x = (if x = el then None else if x = n then Some p else prev_at s x)" for x
    using n(2) by (simp add: s'_def link_defs)
  have px: "path s' head xs"
  proof (rule path_frame [OF old(1)])
    fix x assume "x \<in> set (butlast (head # xs))"
    with in_set_butlastD [OF this] show "next_at s' x = next_at s x"
      using p(2) d(4) by (auto simp: nxt simp del: butlast.simps)
  next
    fix x assume "x \<in> set xs"
    then show "prev_at s' x = prev_at s x" using n(1) d(4) by (auto simp: prv)
  qed
  have "is_list s' head (xs @ ys)"
  proof (cases ys)
    case Nil
    then show ?thesis using px p n d lp by (auto simp: is_list_def nxt prv n_def split: if_splits)
  next
    case (Cons y vs)
    then have y: "n = y" "path s y vs" by (use assms Cons in \<open>auto simp: n_def is_list_def path_append\<close>)
    have "path s' y vs"
    proof (rule path_frame [OF y(2)])
      fix x assume "x \<in> set (butlast (y # vs))"
      then have "x \<in> set ys" using Cons in_set_butlastD by metis
      then have "x \<noteq> el" "x \<noteq> p" using d p(1) by auto
      then show "next_at s' x = next_at s x" by (simp add: nxt)
    next
      fix x assume "x \<in> set vs"
      then show "prev_at s' x = prev_at s x" using d Cons y(1) by (auto simp: prv)
    qed
    moreover have "last ys \<noteq> el" "last ys \<noteq> p"
      using d p(1) Cons last_in_set [of ys] by auto
    moreover have "head \<noteq> n" "head \<noteq> el" using d Cons y(1) by auto
    ultimately show ?thesis
      using assms y(1) Cons px p n d lp by (auto simp: nxt prv is_list_def path_append split: if_splits)
  qed
  moreover have "same_outside (set (head # xs @ el # ys)) s s'"
    using p(1) n(3) by (auto simp: same_outside_def nxt prv)
  ultimately show ?thesis using del by (auto simp: nxt prv)
qed

lemma walk_path:
  "path s a xs \<Longrightarrow> next_at s (last (a # xs)) = Some head \<Longrightarrow> head \<notin> set xs \<Longrightarrow> length xs \<le> fuel \<Longrightarrow>
     do { el \<leftarrow> next_at s a; walk_from s head el fuel } = Some xs"
proof (induction xs arbitrary: a fuel)
  case Nil
  then show ?case by (cases fuel) auto
next
  case (Cons y ys)
  then obtain f where f: "fuel = Suc f" by (cases fuel) auto
  with Cons.prems Cons.IH [of y f] have "do { el \<leftarrow> next_at s y; walk_from s head el f } = Some ys" by auto
  then obtain n where "next_at s y = Some n" "walk_from s head n f = Some ys"
    by (auto split: Option.bind_splits)
  with Cons.prems f show ?case by auto
qed

section \<open>Properties\<close>

text \<open>
  C13: The operations of \<^verbatim>\<open>list.h\<close> implement lists of nodes. \<^verbatim>\<open>init_list_head\<close> makes an empty list; on
  any well-linked circular list, empty or not, \<^verbatim>\<open>list_add\<close> and \<^verbatim>\<open>list_add_tail\<close> insert a node that is not
  on it at the front and at the back, \<^verbatim>\<open>list_del\<close> unlinks a node wherever it stands and clears its
  pointers, \<^verbatim>\<open>list_empty\<close> decides emptiness and \<^verbatim>\<open>list_for_each\<close> visits the nodes in order; no
  link of a node of another list is written.
\<close>

theorem list_operations_refine:
  assumes "is_list s head xs"
  shows "(\<forall>new. new \<notin> set (head # xs) \<longrightarrow>
        (\<exists>s'. list_add s new head = Some s' \<and> is_list s' head (new # xs) \<and> same_outside (insert new (set (head # xs))) s s')
      \<and> (\<exists>s'. list_add_tail s new head = Some s' \<and> is_list s' head (xs @ [new]) \<and> same_outside (insert new (set (head # xs))) s s'))
    \<and> (\<forall>as el bs. xs = as @ el # bs \<longrightarrow> (\<exists>s'. list_del s el = Some s' \<and> is_list s' head (as @ bs)
        \<and> prev_at s' el = None \<and> next_at s' el = None \<and> same_outside (set (head # xs)) s s'))
    \<and> list_empty s head = (xs = [])
    \<and> (\<forall>fuel \<ge> length xs. list_for_each s head fuel = Some xs)
    \<and> (\<forall>new. is_list (init_list_head s new) new [] \<and> same_outside {new} s (init_list_head s new))"
proof (intro conjI allI impI)
  fix new assume new: "new \<notin> set (head # xs)"
  have out: "same_outside (insert new A) s (list_add_between s new a b)" if "a \<in> A" "b \<in> A" for a b A
    using that by (auto simp: same_outside_def link_defs)
  have nx: "next_at s head = Some (hd (xs @ [head]))" using assms by (cases xs) (auto simp: is_list_def)
  have pv: "prev_at s head = Some (last (head # xs))" using assms by (simp add: is_list_def)
  show "\<exists>s'. list_add s new head = Some s' \<and> is_list s' head (new # xs) \<and> same_outside (insert new (set (head # xs))) s s'"
    using add_between_list [of s head "[]" xs new] assms new out [of head "set (head # xs)" "hd (xs @ [head])"] nx
    by (cases xs) (simp_all add: list_add_def)
  show "\<exists>s'. list_add_tail s new head = Some s' \<and> is_list s' head (xs @ [new]) \<and> same_outside (insert new (set (head # xs))) s s'"
    using add_between_list [of s head xs "[]" new] assms new out [OF _ list.set_intros(1), of _ head xs] last_mem [of head xs]
    unfolding list_add_tail_def pv by (simp del: last.simps)
next
  fix as el bs assume "xs = as @ el # bs"
  then show "\<exists>s'. list_del s el = Some s' \<and> is_list s' head (as @ bs) \<and> prev_at s' el = None \<and> next_at s' el = None
      \<and> same_outside (set (head # xs)) s s'"
    using list_del_spec [of s head as el bs] assms by blast
next
  show "list_empty s head = (xs = [])" using assms by (cases xs) (auto simp: list_empty_def is_list_def)
  show "list_for_each s head fuel = Some xs" if "length xs \<le> fuel" for fuel
    using walk_path [of s head xs head fuel] assms that by (simp add: list_for_each_def is_list_def)
  show "is_list (init_list_head s new) new []" "same_outside {new} s (init_list_head s new)" for new
    by (simp_all add: is_list_def init_list_head_def same_outside_def link_defs)
qed

definition no_links :: links where
  "no_links = \<lparr>prev_at = (\<lambda>_. None), next_at = (\<lambda>_. None)\<rparr>"

text \<open>The first node of a new list, and the last one leaving it.\<close>

theorem list_operations_refine_witness:
  "(\<exists>s'. list_add (init_list_head no_links 0) 1 0 = Some s' \<and> is_list s' 0 [1] \<and> list_for_each s' 0 1 = Some [1])
    \<and> list_empty (init_list_head no_links 0) 0"
proof -
  have empty: "is_list (init_list_head no_links 0) 0 []" by (simp add: is_list_def init_list_head_def link_defs no_links_def)
  then obtain s' where s': "list_add (init_list_head no_links 0) 1 0 = Some s'" "is_list s' 0 [1]"
    using list_operations_refine [OF empty, THEN conjunct1, rule_format, of 1] by auto
  then show ?thesis using list_operations_refine [OF empty] list_operations_refine [OF s'(2)] by simp
qed

end
