(* ===== verification/GcMark.thy ===== *)
theory GcMark
  imports Prelude
begin

text \<open>
  What each kind of heap object of \<^verbatim>\<open>quickjs.c\<close> hands to a mark function: the \<^verbatim>\<open>gc_mark\<close> methods of
  the classes, \<^verbatim>\<open>async_func_mark\<close>, \<^verbatim>\<open>js_mark_module_def\<close>, \<^verbatim>\<open>JS_MarkContext\<close> and \<^verbatim>\<open>mark_children\<close>. An object
  is a number and the heap maps it to its contents. A mark function is called on one object after
  the other, so each definition gives the list of the objects in the order of the calls.
\<close>

section \<open>Values and frames\<close>

text \<open>
  Only values with the tags \<^verbatim>\<open>JS_TAG_OBJECT\<close> and \<^verbatim>\<open>JS_TAG_FUNCTION_BYTECODE\<close> are marked; the others are
  one constructor.
\<close>

datatype js_value = JSObjectVal nat | JSFunctionBytecodeVal nat | JSOtherVal

definition JS_MarkValue :: "js_value \<Rightarrow> nat list" where
  "JS_MarkValue v = (case v of JSObjectVal p \<Rightarrow> [p] | JSFunctionBytecodeVal p \<Rightarrow> [p] | JSOtherVal \<Rightarrow> [])"

definition JS_MarkValues :: "js_value list \<Rightarrow> nat list" where
  "JS_MarkValues vs = concat (map JS_MarkValue vs)"

abbreviation opt_list :: "'a option \<Rightarrow> 'a list" where
  "opt_list x \<equiv> (case x of None \<Rightarrow> [] | Some y \<Rightarrow> [y])"

text \<open>\<open>arg_buf\<close> are the values from \<^verbatim>\<open>arg_buf\<close> up to \<^verbatim>\<open>cur_sp\<close>, unknown while the function runs.\<close>

record async_state =
  cur_func :: js_value
  this_val :: js_value
  arg_buf :: "js_value list option"

definition async_func_mark :: "async_state \<Rightarrow> nat list" where
  "async_func_mark s =
     JS_MarkValue (cur_func s) @ JS_MarkValue (this_val s)
     @ (case arg_buf s of None \<Rightarrow> [] | Some vs \<Rightarrow> JS_MarkValues vs)"

section \<open>Classes\<close>

datatype generator_state = GenSuspendedStart | GenSuspendedYield | GenSuspendedYieldStar | GenExecuting | GenCompleted

datatype async_generator_state =
    AGenSuspendedStart | AGenSuspendedYield | AGenSuspendedYieldStar | AGenExecuting
  | AGenAwaitingReturn | AGenCompleted

record generator_data =
  gen_state :: generator_state
  gen_func :: async_state

record async_request =
  req_result :: js_value
  req_promise :: js_value
  req_resolving_funcs :: "js_value \<times> js_value"

record async_generator_data =
  agen_state :: async_generator_state
  agen_func :: async_state
  agen_queue :: "async_request list"

text \<open>\<open>var_refs\<close> has as many entries as the byte code has closure variables.\<close>

record js_func =
  function_bytecode :: "nat option"
  var_refs :: "nat option list option"
  home_object :: "nat option"

record map_state =
  is_weak :: bool
  map_records :: "(js_value \<times> js_value) list"

record promise_reaction =
  reaction_funcs :: "js_value \<times> js_value"
  reaction_handler :: js_value

record promise_data =
  fulfill_reactions :: "promise_reaction list"
  reject_reactions :: "promise_reaction list"
  promise_result :: js_value

record finrec_data =
  finrec_cb :: js_value
  finrec_entries :: "(js_value \<times> js_value) list"

text \<open>
  The data of an object by its class, \<open>None\<close> for a null data pointer. \<open>NoGcMark\<close> is a class
  without a \<^verbatim>\<open>gc_mark\<close> method.
\<close>

datatype class_data =
    NoGcMark
  | ArrayValues "js_value list"
  | ObjectData js_value
  | CFunction "nat option"
  | BytecodeFunction js_func
  | BoundFunction js_value js_value "js_value list"
  | CFunctionData "js_value list option"
  | ForInIterator js_value
  | TypedArray "nat option"
  | MapState "map_state option"
  | MapIterator "js_value option"
  | ArrayIterator "js_value option"
  | IteratorWrap "(js_value \<times> js_value) option"
  | IteratorHelper "(js_value \<times> js_value \<times> js_value \<times> js_value) option"
  | RegExpStringIterator "(js_value \<times> js_value) option"
  | Generator "generator_data option"
  | Proxy "(js_value \<times> js_value) option"
  | Promise "promise_data option"
  | PromiseFunction "js_value option"
  | AsyncFunctionResolve "nat option"
  | AsyncFromSyncIterator "(js_value \<times> js_value) option"
  | AsyncGenerator "async_generator_data option"
  | FinRec "finrec_data option"
  | CallSite "(js_value \<times> js_value \<times> js_value) option"

definition js_array_mark :: "js_value list \<Rightarrow> nat list" where
  "js_array_mark values = JS_MarkValues values"

definition js_object_data_mark :: "js_value \<Rightarrow> nat list" where
  "js_object_data_mark object_data = JS_MarkValue object_data"

definition js_c_function_mark :: "nat option \<Rightarrow> nat list" where
  "js_c_function_mark realm = opt_list realm"

definition js_bytecode_function_mark :: "(nat \<Rightarrow> bool) \<Rightarrow> js_func \<Rightarrow> nat list" where
  "js_bytecode_function_mark is_detached f =
     opt_list (home_object f)
     @ (case function_bytecode f of
          None \<Rightarrow> []
        | Some b \<Rightarrow> (case var_refs f of
              None \<Rightarrow> []
            | Some refs \<Rightarrow> filter is_detached (concat (map opt_list refs))) @ [b])"

definition js_bound_function_mark :: "js_value \<Rightarrow> js_value \<Rightarrow> js_value list \<Rightarrow> nat list" where
  "js_bound_function_mark func_obj this argv = JS_MarkValue func_obj @ JS_MarkValue this @ JS_MarkValues argv"

definition js_c_function_data_mark :: "js_value list option \<Rightarrow> nat list" where
  "js_c_function_data_mark s = (case s of None \<Rightarrow> [] | Some values \<Rightarrow> JS_MarkValues values)"

definition js_for_in_iterator_mark :: "js_value \<Rightarrow> nat list" where
  "js_for_in_iterator_mark obj = JS_MarkValue obj"

definition js_typed_array_mark :: "nat option \<Rightarrow> nat list" where
  "js_typed_array_mark buffer = opt_list buffer"

definition js_map_mark :: "map_state option \<Rightarrow> nat list" where
  "js_map_mark s = (case s of
       None \<Rightarrow> []
     | Some s \<Rightarrow> concat (map (\<lambda>(key, val). (if is_weak s then [] else JS_MarkValue key) @ JS_MarkValue val) (map_records s)))"

definition js_map_iterator_mark :: "js_value option \<Rightarrow> nat list" where
  "js_map_iterator_mark it = JS_MarkValues (opt_list it)"

definition js_array_iterator_mark :: "js_value option \<Rightarrow> nat list" where
  "js_array_iterator_mark it = JS_MarkValues (opt_list it)"

definition js_iterator_wrap_mark :: "(js_value \<times> js_value) option \<Rightarrow> nat list" where
  "js_iterator_wrap_mark it = (case it of
       None \<Rightarrow> [] | Some (wrapped_iter, wrapped_next) \<Rightarrow> JS_MarkValue wrapped_iter @ JS_MarkValue wrapped_next)"

definition js_iterator_helper_mark :: "(js_value \<times> js_value \<times> js_value \<times> js_value) option \<Rightarrow> nat list" where
  "js_iterator_helper_mark it = (case it of
       None \<Rightarrow> []
     | Some (obj, func, nxt, inner) \<Rightarrow> JS_MarkValue obj @ JS_MarkValue func @ JS_MarkValue nxt @ JS_MarkValue inner)"

definition js_regexp_string_iterator_mark :: "(js_value \<times> js_value) option \<Rightarrow> nat list" where
  "js_regexp_string_iterator_mark it = (case it of
       None \<Rightarrow> [] | Some (regexp, str) \<Rightarrow> JS_MarkValue regexp @ JS_MarkValue str)"

definition js_generator_mark :: "generator_data option \<Rightarrow> nat list" where
  "js_generator_mark s = (case s of
       None \<Rightarrow> []
     | Some s \<Rightarrow> if gen_state s = GenCompleted then [] else async_func_mark (gen_func s))"

definition js_proxy_mark :: "(js_value \<times> js_value) option \<Rightarrow> nat list" where
  "js_proxy_mark s = (case s of
       None \<Rightarrow> [] | Some (target, handler) \<Rightarrow> JS_MarkValue target @ JS_MarkValue handler)"

definition js_promise_mark :: "promise_data option \<Rightarrow> nat list" where
  "js_promise_mark s = (case s of
       None \<Rightarrow> []
     | Some s \<Rightarrow>
         concat (map (\<lambda>rd. JS_MarkValue (fst (reaction_funcs rd)) @ JS_MarkValue (snd (reaction_funcs rd))
                           @ JS_MarkValue (reaction_handler rd))
                  (fulfill_reactions s @ reject_reactions s))
         @ JS_MarkValue (promise_result s))"

definition js_promise_resolve_function_mark :: "js_value option \<Rightarrow> nat list" where
  "js_promise_resolve_function_mark s = JS_MarkValues (opt_list s)"

definition js_async_function_resolve_mark :: "nat option \<Rightarrow> nat list" where
  "js_async_function_resolve_mark s = opt_list s"

definition js_async_from_sync_iterator_mark :: "(js_value \<times> js_value) option \<Rightarrow> nat list" where
  "js_async_from_sync_iterator_mark s = (case s of
       None \<Rightarrow> [] | Some (sync_iter, next_method) \<Rightarrow> JS_MarkValue sync_iter @ JS_MarkValue next_method)"

definition js_async_generator_mark :: "async_generator_data option \<Rightarrow> nat list" where
  "js_async_generator_mark s = (case s of
       None \<Rightarrow> []
     | Some s \<Rightarrow>
         concat (map (\<lambda>req. JS_MarkValue (req_result req) @ JS_MarkValue (req_promise req)
                           @ JS_MarkValue (fst (req_resolving_funcs req)) @ JS_MarkValue (snd (req_resolving_funcs req)))
                  (agen_queue s))
         @ (if agen_state s \<noteq> AGenCompleted \<and> agen_state s \<noteq> AGenAwaitingReturn
            then async_func_mark (agen_func s) else []))"

definition js_finrec_mark :: "finrec_data option \<Rightarrow> nat list" where
  "js_finrec_mark frd = (case frd of
       None \<Rightarrow> []
     | Some frd \<Rightarrow>
         JS_MarkValue (finrec_cb frd)
         @ concat (map (\<lambda>(held_val, token). JS_MarkValue held_val @ JS_MarkValue token) (finrec_entries frd)))"

definition js_callsite_mark :: "(js_value \<times> js_value \<times> js_value) option \<Rightarrow> nat list" where
  "js_callsite_mark csd = (case csd of
       None \<Rightarrow> []
     | Some (filename, func, func_name) \<Rightarrow> JS_MarkValue filename @ JS_MarkValue func @ JS_MarkValue func_name)"

text \<open>The \<^verbatim>\<open>gc_mark\<close> method that the class table names.\<close>

fun gc_mark :: "(nat \<Rightarrow> bool) \<Rightarrow> class_data \<Rightarrow> nat list" where
  "gc_mark det NoGcMark = []"
| "gc_mark det (ArrayValues values) = js_array_mark values"
| "gc_mark det (ObjectData v) = js_object_data_mark v"
| "gc_mark det (CFunction realm) = js_c_function_mark realm"
| "gc_mark det (BytecodeFunction f) = js_bytecode_function_mark det f"
| "gc_mark det (BoundFunction f this argv) = js_bound_function_mark f this argv"
| "gc_mark det (CFunctionData s) = js_c_function_data_mark s"
| "gc_mark det (ForInIterator obj) = js_for_in_iterator_mark obj"
| "gc_mark det (TypedArray buffer) = js_typed_array_mark buffer"
| "gc_mark det (MapState s) = js_map_mark s"
| "gc_mark det (MapIterator it) = js_map_iterator_mark it"
| "gc_mark det (ArrayIterator it) = js_array_iterator_mark it"
| "gc_mark det (IteratorWrap it) = js_iterator_wrap_mark it"
| "gc_mark det (IteratorHelper it) = js_iterator_helper_mark it"
| "gc_mark det (RegExpStringIterator it) = js_regexp_string_iterator_mark it"
| "gc_mark det (Generator s) = js_generator_mark s"
| "gc_mark det (Proxy s) = js_proxy_mark s"
| "gc_mark det (Promise s) = js_promise_mark s"
| "gc_mark det (PromiseFunction s) = js_promise_resolve_function_mark s"
| "gc_mark det (AsyncFunctionResolve s) = js_async_function_resolve_mark s"
| "gc_mark det (AsyncFromSyncIterator s) = js_async_from_sync_iterator_mark s"
| "gc_mark det (AsyncGenerator s) = js_async_generator_mark s"
| "gc_mark det (FinRec s) = js_finrec_mark s"
| "gc_mark det (CallSite s) = js_callsite_mark s"

section \<open>Modules and contexts\<close>

text \<open>An export of type \<^verbatim>\<open>JS_EXPORT_TYPE_LOCAL\<close> may have a variable reference.\<close>

datatype export_entry = ExportLocal "nat option" | ExportIndirect

record module_def =
  export_entries :: "export_entry list"
  module_ns :: js_value
  func_obj :: js_value
  eval_exception :: js_value
  meta_obj :: js_value
  module_promise :: js_value
  module_resolving_funcs :: "js_value \<times> js_value"

definition js_mark_module_def :: "module_def \<Rightarrow> nat list" where
  "js_mark_module_def m =
     concat (map (\<lambda>me. case me of ExportLocal r \<Rightarrow> opt_list r | ExportIndirect \<Rightarrow> []) (export_entries m))
     @ JS_MarkValue (module_ns m) @ JS_MarkValue (func_obj m) @ JS_MarkValue (eval_exception m)
     @ JS_MarkValue (meta_obj m) @ JS_MarkValue (module_promise m)
     @ JS_MarkValue (fst (module_resolving_funcs m)) @ JS_MarkValue (snd (module_resolving_funcs m))"

record js_context =
  loaded_modules :: "module_def list"
  global_obj :: js_value
  global_var_obj :: js_value
  throw_type_error :: js_value
  eval_obj :: js_value
  array_proto_values :: js_value
  native_error_proto :: "js_value list"
  error_ctor :: js_value
  error_prepare_stack :: js_value
  class_proto :: "js_value list"
  iterator_ctor :: js_value
  async_iterator_proto :: js_value
  promise_ctor :: js_value
  array_ctor :: js_value
  regexp_ctor :: js_value
  function_ctor :: js_value
  function_proto :: js_value
  array_shape :: "nat option"

definition JS_MarkContext :: "js_context \<Rightarrow> nat list" where
  "JS_MarkContext ctx =
     concat (map js_mark_module_def (loaded_modules ctx))
     @ JS_MarkValues ([global_obj ctx, global_var_obj ctx, throw_type_error ctx, eval_obj ctx, array_proto_values ctx]
         @ native_error_proto ctx @ [error_ctor ctx, error_prepare_stack ctx] @ class_proto ctx
         @ [iterator_ctor ctx, async_iterator_proto ctx, promise_ctor ctx, array_ctor ctx, regexp_ctor ctx,
            function_ctor ctx, function_proto ctx])
     @ opt_list (array_shape ctx)"

section \<open>Heap objects\<close>

text \<open>The slot of a property, by the kind in its flags. A slot without an atom is deleted.\<close>

datatype js_property =
    PropNormal js_value
  | PropGetSet "nat option" "nat option"
  | PropVarRef nat
  | PropAutoInit nat

datatype gc_object =
    JSObject nat "(bool \<times> js_property) list" class_data
  | JSFunctionBytecode "js_value list" "nat option" "nat option list list option"
  | JSVarRef bool js_value
  | JSAsyncFunctionData bool async_state "js_value \<times> js_value"
  | JSShape "nat option"
  | JSContext js_context

type_synonym heap = "nat \<Rightarrow> gc_object"

definition is_detached :: "heap \<Rightarrow> nat \<Rightarrow> bool" where
  "is_detached h p = (case h p of JSVarRef d _ \<Rightarrow> d | _ \<Rightarrow> False)"

definition js_autoinit_mark :: "nat \<Rightarrow> nat list" where
  "js_autoinit_mark realm = [realm]"

fun mark_property :: "heap \<Rightarrow> js_property \<Rightarrow> nat list" where
  "mark_property h (PropGetSet getter setter) = opt_list getter @ opt_list setter"
| "mark_property h (PropVarRef var_ref) = (if is_detached h var_ref then [var_ref] else [])"
| "mark_property h (PropAutoInit realm) = js_autoinit_mark realm"
| "mark_property h (PropNormal v) = JS_MarkValue v"

text \<open>A failed assertion is \<^term>\<open>None\<close>.\<close>

definition mark_children :: "heap \<Rightarrow> nat \<Rightarrow> nat list option" where
  "mark_children h gp = (case h gp of
       JSObject shape props cls \<Rightarrow>
         Some (shape # concat (map (\<lambda>(has_atom, pr). if has_atom then mark_property h pr else []) props)
               @ gc_mark (is_detached h) cls)
     | JSFunctionBytecode cpool realm ic \<Rightarrow>
         Some (JS_MarkValues cpool @ opt_list realm
               @ (case ic of None \<Rightarrow> [] | Some caches \<Rightarrow> concat (map (\<lambda>shapes. concat (map opt_list shapes)) caches)))
     | JSVarRef detached v \<Rightarrow> (if detached then Some (JS_MarkValue v) else None)
     | JSAsyncFunctionData is_active s resolving_funcs \<Rightarrow>
         Some ((if is_active then async_func_mark s else [])
               @ JS_MarkValue (fst resolving_funcs) @ JS_MarkValue (snd resolving_funcs))
     | JSShape proto \<Rightarrow> Some (opt_list proto)
     | JSContext ctx \<Rightarrow> Some (JS_MarkContext ctx))"

end
