(* ===== verification/Gc.thy ===== *)
theory Gc
  imports GcMark
begin

text \<open>
  The first two phases of the cycle collector of \<^verbatim>\<open>quickjs.c\<close>: the pass that subtracts the references
  between heap objects and the scan that keeps the objects still referenced. The collector lists are
  lists of objects (theory \<open>ListH\<close> shows that the linked lists implement them). A failed assertion
  is \<^term>\<open>None\<close>.
\<close>

section \<open>Definitions\<close>

subsection \<open>The collector\<close>

record gc_state =
  ref_count :: "nat \<Rightarrow> int"
  mark :: "nat \<Rightarrow> bool"
  gc_obj_list :: "nat list"
  tmp_obj_list :: "nat list"

definition add_gc_object :: "gc_state \<Rightarrow> nat \<Rightarrow> gc_state" where
  "add_gc_object st p = st\<lparr>mark := (mark st)(p := False), gc_obj_list := gc_obj_list st @ [p]\<rparr>"

text \<open>\<open>list_del\<close> takes a node out of the list it is on.\<close>

definition unlink :: "gc_state \<Rightarrow> nat \<Rightarrow> gc_state" where
  "unlink st p = st\<lparr>gc_obj_list := remove1 p (gc_obj_list st), tmp_obj_list := remove1 p (tmp_obj_list st)\<rparr>"

definition remove_gc_object :: "gc_state \<Rightarrow> nat \<Rightarrow> gc_state" where
  "remove_gc_object st p = unlink st p"

definition add_ref :: "gc_state \<Rightarrow> nat \<Rightarrow> int \<Rightarrow> gc_state" where
  "add_ref st p d = st\<lparr>ref_count := (ref_count st)(p := ref_count st p + d)\<rparr>"

definition set_mark :: "gc_state \<Rightarrow> nat \<Rightarrow> bool \<Rightarrow> gc_state" where
  "set_mark st p b = st\<lparr>mark := (mark st)(p := b)\<rparr>"

definition move_to_tmp :: "gc_state \<Rightarrow> nat \<Rightarrow> gc_state" where
  "move_to_tmp st p = (let st = unlink st p in st\<lparr>tmp_obj_list := tmp_obj_list st @ [p]\<rparr>)"

definition gc_decref_child :: "nat \<Rightarrow> gc_state \<Rightarrow> gc_state" where
  "gc_decref_child p st =
     (if ref_count st p \<le> 0 then st
      else let st = add_ref st p (-1) in
           if ref_count st p = 0 \<and> mark st p then move_to_tmp st p else st)"

text \<open>The node after \<open>el\<close> on the list as it stands, or none at its end.\<close>

definition next_on :: "nat list \<Rightarrow> nat \<Rightarrow> nat option" where
  "next_on xs el = (case dropWhile (\<lambda>x. x \<noteq> el) xs of _ # y # _ \<Rightarrow> Some y | _ \<Rightarrow> None)"

abbreviation first_on :: "nat list \<Rightarrow> nat option" where
  "first_on xs \<equiv> (case xs of [] \<Rightarrow> None | x # _ \<Rightarrow> Some x)"

text \<open>\<open>list_for_each_safe\<close>: the successor is taken before the body, which may unlink \<open>el\<close>.\<close>

fun decref_loop :: "heap \<Rightarrow> nat \<Rightarrow> nat option \<Rightarrow> gc_state \<Rightarrow> gc_state option" where
  "decref_loop h fuel None st = Some st"
| "decref_loop h 0 (Some el) st = None"
| "decref_loop h (Suc fuel) (Some el) st =
     (let el1 = next_on (gc_obj_list st) el in
      if mark st el then None
      else do { children \<leftarrow> mark_children h el;
                let st = set_mark (fold gc_decref_child children st) el True;
                    st = (if ref_count st el = 0 then move_to_tmp st el else st) in
                decref_loop h fuel el1 st })"

definition gc_decref :: "heap \<Rightarrow> gc_state \<Rightarrow> gc_state option" where
  "gc_decref h st =
     (let st = st\<lparr>tmp_obj_list := []\<rparr> in
      decref_loop h (length (gc_obj_list st)) (first_on (gc_obj_list st)) st)"

definition gc_scan_incref_child :: "nat \<Rightarrow> gc_state \<Rightarrow> gc_state" where
  "gc_scan_incref_child p st =
     (let st = add_ref st p 1 in
      if ref_count st p = 1
      then let st = unlink st p in set_mark (st\<lparr>gc_obj_list := gc_obj_list st @ [p]\<rparr>) p False
      else st)"

definition gc_scan_incref_child2 :: "nat \<Rightarrow> gc_state \<Rightarrow> gc_state" where
  "gc_scan_incref_child2 p st = add_ref st p 1"

text \<open>\<open>list_for_each\<close>: the successor is taken after the body, which may append to the list.\<close>

fun scan_loop :: "heap \<Rightarrow> nat \<Rightarrow> nat option \<Rightarrow> gc_state \<Rightarrow> gc_state option" where
  "scan_loop h fuel None st = Some st"
| "scan_loop h 0 (Some el) st = None"
| "scan_loop h (Suc fuel) (Some el) st =
     (if ref_count st el \<le> 0 then None
      else do { children \<leftarrow> mark_children h el;
                let st = fold gc_scan_incref_child children (set_mark st el False) in
                scan_loop h fuel (next_on (gc_obj_list st) el) st })"

fun restore_loop :: "heap \<Rightarrow> nat list \<Rightarrow> gc_state \<Rightarrow> gc_state option" where
  "restore_loop h [] st = Some st"
| "restore_loop h (el # els) st =
     do { children \<leftarrow> mark_children h el;
          restore_loop h els (fold gc_scan_incref_child2 children st) }"

definition gc_scan :: "heap \<Rightarrow> gc_state \<Rightarrow> gc_state option" where
  "gc_scan h st =
     do { st \<leftarrow> scan_loop h (length (gc_obj_list st) + length (tmp_obj_list st)) (first_on (gc_obj_list st)) st;
          restore_loop h (tmp_obj_list st) st }"

section \<open>References between heap objects\<close>

definition children :: "heap \<Rightarrow> nat \<Rightarrow> nat list" where
  "children h q = (case mark_children h q of None \<Rightarrow> [] | Some cs \<Rightarrow> cs)"

definition refs :: "heap \<Rightarrow> nat list \<Rightarrow> nat \<Rightarrow> int" where
  "refs h qs p = int (sum_list (map (\<lambda>q. count_list (children h q) p) qs))"

text \<open>
  What a collection relies on: no object is marked, the references of the objects stay on the list,
  and every reference count is positive and covers the references from the listed objects.
\<close>

definition gc_ok :: "heap \<Rightarrow> gc_state \<Rightarrow> bool" where
  "gc_ok h st =
     (distinct (gc_obj_list st)
      \<and> (\<forall>q\<in>set (gc_obj_list st). \<not> mark st q \<and> mark_children h q \<noteq> None
           \<and> set (children h q) \<subseteq> set (gc_obj_list st))
      \<and> (\<forall>p\<in>set (gc_obj_list st). 0 < ref_count st p \<and> refs h (gc_obj_list st) p \<le> ref_count st p))"

text \<open>Reachable from an object that is referenced from outside the heap.\<close>

inductive gc_live :: "heap \<Rightarrow> gc_state \<Rightarrow> nat \<Rightarrow> bool" for h st where
  gc_root: "p \<in> set (gc_obj_list st) \<Longrightarrow> refs h (gc_obj_list st) p < ref_count st p \<Longrightarrow> gc_live h st p"
| gc_child: "gc_live h st q \<Longrightarrow> p \<in> set (children h q) \<Longrightarrow> gc_live h st p"

lemma refs_simps [simp]:
  "refs h [] p = 0" "refs h (q # qs) p = int (count_list (children h q) p) + refs h qs p"
  by (auto simp: refs_def)

lemma refs_append: "refs h (xs @ ys) p = refs h xs p + refs h ys p"
  by (simp add: refs_def)

lemma refs_nonneg: "0 \<le> refs h qs p"
  by (simp add: refs_def)

lemma refs_pos: "0 < refs h qs p \<longleftrightarrow> (\<exists>q\<in>set qs. p \<in> set (children h q))"
proof (induction qs)
  case (Cons q qs)
  have "0 < count_list (children h q) p \<longleftrightarrow> p \<in> set (children h q)"
    using count_list_0_iff [of "children h q" p] by auto
  with Cons refs_nonneg [of h qs p] show ?case by auto
qed simp

lemma refs_filter: "refs h (filter P qs) p + refs h (filter (\<lambda>q. \<not> P q) qs) p = refs h qs p"
  by (induction qs) auto

lemma refs_perm: "distinct xs \<Longrightarrow> distinct ys \<Longrightarrow> set xs = set ys \<Longrightarrow> refs h xs p = refs h ys p"
  by (simp add: refs_def sum_list_distinct_conv_sum_set)

lemma next_on_split: "el \<notin> set xs \<Longrightarrow> next_on (xs @ el # ys) el = first_on ys"
  by (induction xs) (auto simp: next_on_def)

lemma remove1_id: "x \<notin> set xs \<Longrightarrow> remove1 x xs = xs"
  by (rule remove1_idem)

section \<open>The first pass\<close>

text \<open>
  The objects on both lists are \<open>L\<close>. Those in \<open>D\<close> have been visited and \<open>r\<close> is what is left
  of the reference counts.
\<close>

definition dec_inv :: "nat list \<Rightarrow> gc_state \<Rightarrow> nat set \<Rightarrow> (nat \<Rightarrow> int) \<Rightarrow> gc_state \<Rightarrow> bool" where
  "dec_inv L st0 D r st =
     (ref_count st = (\<lambda>p. if p \<in> set L then r p else ref_count st0 p)
      \<and> (\<forall>p. mark st p = (p \<in> D \<or> p \<notin> set L \<and> mark st0 p))
      \<and> gc_obj_list st = filter (\<lambda>p. \<not> (p \<in> D \<and> r p = 0)) L
      \<and> distinct (tmp_obj_list st) \<and> set (tmp_obj_list st) = {p \<in> D. r p = 0})"

lemma move_to_tmp_simps [simp]:
  "gc_obj_list (move_to_tmp st p) = remove1 p (gc_obj_list st)"
  "tmp_obj_list (move_to_tmp st p) = remove1 p (tmp_obj_list st) @ [p]"
  "ref_count (move_to_tmp st p) = ref_count st" "mark (move_to_tmp st p) = mark st"
  by (simp_all add: move_to_tmp_def unlink_def Let_def)

lemma add_ref_simps [simp]:
  "gc_obj_list (add_ref st p d) = gc_obj_list st" "tmp_obj_list (add_ref st p d) = tmp_obj_list st"
  "ref_count (add_ref st p d) = (ref_count st)(p := ref_count st p + d)" "mark (add_ref st p d) = mark st"
  by (simp_all add: add_ref_def)

lemma set_mark_simps [simp]:
  "gc_obj_list (set_mark st p b) = gc_obj_list st" "tmp_obj_list (set_mark st p b) = tmp_obj_list st"
  "ref_count (set_mark st p b) = ref_count st" "mark (set_mark st p b) = (mark st)(p := b)"
  by (simp_all add: set_mark_def)

lemma remove1_filter_distinct:
  "distinct xs \<Longrightarrow> remove1 x (filter P xs) = filter (\<lambda>y. P y \<and> y \<noteq> x) xs"
  by (simp add: distinct_remove1_removeAll removeAll_filter_not_eq) (rule filter_cong; auto)

lemma dec_step:
  assumes "dec_inv L st0 D r st" and "distinct L" "D \<subseteq> set L" "p \<in> set L" "0 < r p"
  shows "dec_inv L st0 D (r(p := r p - 1)) (gc_decref_child p st)"
proof -
  note i = assms(1) [unfolded dec_inv_def]
  have rc: "ref_count st p = r p" using i assms(4) by simp
  have mk: "mark st p = (p \<in> D)" using i assms(4) by simp
  have tmp: "p \<notin> set (tmp_obj_list st)" using i assms(5) by simp
  show ?thesis
  proof (cases "r p = 1 \<and> p \<in> D")
    case True
    have st: "gc_decref_child p st = move_to_tmp (add_ref st p (-1)) p"
      using True rc mk by (simp add: gc_decref_child_def Let_def)
    have "remove1 p (gc_obj_list st) = filter (\<lambda>q. \<not> (q \<in> D \<and> (r(p := r p - 1)) q = 0)) L"
      using i True assms(2) by (simp add: remove1_filter_distinct) (rule filter_cong; auto)
    then show ?thesis
      using i True tmp assms(4) unfolding dec_inv_def st
      by (auto simp: remove1_idem fun_eq_iff)
  next
    case False
    then have st: "gc_decref_child p st = add_ref st p (-1)"
      using rc mk assms(5) by (auto simp: gc_decref_child_def Let_def)
    have "filter (\<lambda>q. \<not> (q \<in> D \<and> r q = 0)) L = filter (\<lambda>q. \<not> (q \<in> D \<and> (r(p := r p - 1)) q = 0)) L"
      using False assms(5) by (intro filter_cong) auto
    then show ?thesis
      using i False assms(4,5) unfolding dec_inv_def st by (auto simp: fun_eq_iff)
  qed
qed

lemma dec_fold:
  assumes "distinct L" "D \<subseteq> set L"
  shows "dec_inv L st0 D r st \<Longrightarrow> set cs \<subseteq> set L \<Longrightarrow> (\<And>p. p \<in> set L \<Longrightarrow> int (count_list cs p) \<le> r p) \<Longrightarrow>
    dec_inv L st0 D (\<lambda>p. r p - int (count_list cs p)) (fold gc_decref_child cs st)"
proof (induction cs arbitrary: r st)
  case (Cons c cs)
  have c: "c \<in> set L" using Cons.prems(2) by simp
  have "0 < r c" using Cons.prems(3) [OF c] by simp
  from dec_step [OF Cons.prems(1) assms c this]
  have "dec_inv L st0 D (r(c := r c - 1)) (gc_decref_child c st)" .
  from Cons.IH [OF this] Cons.prems(2,3)
  have "dec_inv L st0 D (\<lambda>p. (r(c := r c - 1)) p - int (count_list cs p)) (fold gc_decref_child (c # cs) st)"
    by (fastforce split: if_splits)
  moreover have "(\<lambda>p. (r(c := r c - 1)) p - int (count_list cs p)) = (\<lambda>p. r p - int (count_list (c # cs) p))"
    by (auto simp: fun_eq_iff)
  ultimately show ?case by simp
qed simp

lemma dec_visit:
  assumes "dec_inv L st0 D r st" "distinct L" "D \<subseteq> set L" "el \<in> set L" "el \<notin> D"
  defines "st1 \<equiv> set_mark st el True"
  shows "dec_inv L st0 (insert el D) r (if ref_count st1 el = 0 then move_to_tmp st1 el else st1)"
proof -
  note i = assms(1) [unfolded dec_inv_def]
  have rc: "ref_count st el = r el" using i assms(4) by simp
  have tmp: "el \<notin> set (tmp_obj_list st)" using i assms(5) by simp
  show ?thesis
  proof (cases "r el = 0")
    case True
    have "remove1 el (gc_obj_list st) = filter (\<lambda>q. \<not> (q \<in> insert el D \<and> r q = 0)) L"
      using i True assms(2) by (simp add: remove1_filter_distinct) (rule filter_cong; auto)
    then show ?thesis
      using i True tmp rc assms(4) unfolding dec_inv_def st1_def by (auto simp: remove1_idem)
  next
    case False
    have "filter (\<lambda>q. \<not> (q \<in> D \<and> r q = 0)) L = filter (\<lambda>q. \<not> (q \<in> insert el D \<and> r q = 0)) L"
      using False by (intro filter_cong) auto
    then show ?thesis
      using i False rc assms(4) unfolding dec_inv_def st1_def by auto
  qed
qed


definition heap_closed :: "heap \<Rightarrow> nat list \<Rightarrow> bool" where
  "heap_closed h L = (\<forall>q\<in>set L. mark_children h q \<noteq> None \<and> set (children h q) \<subseteq> set L)"

lemma heap_closedD:
  assumes "heap_closed h L" "q \<in> set L"
  shows "mark_children h q = Some (children h q)" "set (children h q) \<subseteq> set L"
  using assms by (auto simp: heap_closed_def children_def)

lemma decref_loop_spec:
  assumes "distinct L" "heap_closed h L"
  shows "dec_inv L st0 (set done) r st \<Longrightarrow> L = done @ R \<Longrightarrow> (\<And>p. p \<in> set L \<Longrightarrow> refs h R p \<le> r p) \<Longrightarrow>
    (\<And>p. p \<in> set L \<Longrightarrow> \<not> mark st0 p) \<Longrightarrow> length R \<le> fuel \<Longrightarrow>
    \<exists>st'. decref_loop h fuel (first_on R) st = Some st'
      \<and> dec_inv L st0 (set L) (\<lambda>p. r p - refs h R p) st'"
proof (induction R arbitrary: "done" r st fuel)
  case Nil
  then show ?case by simp
next
  case (Cons el R)
  obtain f where f: "fuel = Suc f" using Cons.prems(5) by (cases fuel) auto
  note i = Cons.prems(1) [unfolded dec_inv_def]
  have el: "el \<in> set L" "el \<notin> set done" "set done \<subseteq> set L" "el \<notin> set R" "set R \<inter> set done = {}"
    using Cons.prems(2) assms(1) by auto
  let ?P = "\<lambda>p. \<not> (p \<in> set done \<and> r p = 0)"
  have "filter ?P R = R" using el(5) by (intro filter_True) auto
  then have "gc_obj_list st = filter ?P done @ el # R"
    using i Cons.prems(2) el(2) by simp
  then have nxt: "next_on (gc_obj_list st) el = first_on R"
    using el(2) by (simp add: next_on_split)
  have mk: "\<not> mark st el" using i el(1,2) by simp
  note ch = heap_closedD [OF assms(2) el(1)]
  let ?r = "\<lambda>p. r p - int (count_list (children h el) p)"
  have "int (count_list (children h el) p) \<le> r p" if "p \<in> set L" for p
    using Cons.prems(3) [OF that] refs_nonneg [of h R p] by simp
  note fold = dec_fold [OF assms(1) el(3) Cons.prems(1) ch(2) this]
  define st1 where "st1 = set_mark (fold gc_decref_child (children h el) st) el True"
  define st2 where "st2 = (if ref_count st1 el = 0 then move_to_tmp st1 el else st1)"
  have "dec_inv L st0 (insert el (set done)) ?r st2"
    unfolding st2_def st1_def using dec_visit [OF fold assms(1) el(3,1,2)] by simp
  then have inv: "dec_inv L st0 (set (done @ [el])) ?r st2" by simp
  have "refs h R p \<le> ?r p" if "p \<in> set L" for p using Cons.prems(3) [OF that] by simp
  from Cons.IH [OF inv _ this Cons.prems(4)] Cons.prems(2,5) f
  obtain st' where "decref_loop h f (first_on R) st2 = Some st'"
    "dec_inv L st0 (set L) (\<lambda>p. ?r p - refs h R p) st'" by auto
  moreover have "decref_loop h fuel (first_on (el # R)) st = decref_loop h f (first_on R) st2"
    by (simp add: f nxt mk ch(1) st1_def st2_def Let_def)
  moreover have "(\<lambda>p. ?r p - refs h R p) = (\<lambda>p. r p - refs h (el # R) p)" by auto
  ultimately show ?case by (metis (no_types, lifting))
qed

lemma gc_decref_spec:
  assumes "gc_ok h st"
  defines "L \<equiv> gc_obj_list st"
  shows "\<exists>st'. gc_decref h st = Some st'
    \<and> dec_inv L st (set L) (\<lambda>p. ref_count st p - refs h L p) st'"
proof -
  have ok: "distinct L" "heap_closed h L" "\<And>p. p \<in> set L \<Longrightarrow> \<not> mark st p"
    "\<And>p. p \<in> set L \<Longrightarrow> refs h L p \<le> ref_count st p"
    using assms by (auto simp: gc_ok_def heap_closed_def)
  have inv: "dec_inv L st (set []) (ref_count st) (st\<lparr>tmp_obj_list := []\<rparr>)"
    by (auto simp: dec_inv_def L_def fun_eq_iff ok(3) [unfolded L_def])
  from decref_loop_spec [OF ok(1,2) inv, of L "length L"] ok(3,4)
  show ?thesis by (simp add: gc_decref_def Let_def L_def)
qed

section \<open>The scan\<close>

text \<open>
  The front part \<open>S\<close> of the list has been scanned: the counts are the references from outside
  together with those from \<open>S\<close>.
\<close>

definition scan_inv :: "heap \<Rightarrow> nat list \<Rightarrow> (nat \<Rightarrow> int) \<Rightarrow> nat set \<Rightarrow> nat list \<Rightarrow> (nat \<Rightarrow> int) \<Rightarrow> gc_state \<Rightarrow> bool" where
  "scan_inv h L rc0 V S r st =
     (ref_count st = (\<lambda>p. if p \<in> set L then r p else rc0 p)
      \<and> (\<forall>p\<in>set L. 0 \<le> r p)
      \<and> distinct (gc_obj_list st) \<and> set (gc_obj_list st) = {p \<in> set L. 0 < r p}
      \<and> distinct (tmp_obj_list st) \<and> set (tmp_obj_list st) = {p \<in> set L. r p = 0}
      \<and> (\<exists>T. gc_obj_list st = S @ T)
      \<and> (\<forall>p\<in>set L. 0 < r p \<longrightarrow> p \<in> V)
      \<and> (\<forall>p\<in>set S. \<not> mark st p) \<and> (\<forall>p\<in>set L. r p = 0 \<longrightarrow> mark st p))"

lemma unlink_simps [simp]:
  "gc_obj_list (unlink st p) = remove1 p (gc_obj_list st)" "tmp_obj_list (unlink st p) = remove1 p (tmp_obj_list st)"
  "ref_count (unlink st p) = ref_count st" "mark (unlink st p) = mark st"
  by (simp_all add: unlink_def)

lemma scan_incref_step:
  assumes "scan_inv h L rc0 V S r st" and "p \<in> set L" "p \<in> V" "distinct L"
  shows "scan_inv h L rc0 V S (r(p := r p + 1)) (gc_scan_incref_child p st)"
proof -
  note i = assms(1) [unfolded scan_inv_def]
  have rc: "ref_count st p = r p" "0 \<le> r p" using i assms(2) by auto
  obtain T where T: "gc_obj_list st = S @ T" using i by blast
  show ?thesis
  proof (cases "r p = 0")
    case True
    define st1 where "st1 = gc_scan_incref_child p st"
    have nin: "p \<notin> set (gc_obj_list st)" using i True by simp
    have st1: "ref_count st1 = (ref_count st)(p := 1)" "mark st1 = (mark st)(p := False)"
      "gc_obj_list st1 = gc_obj_list st @ [p]" "tmp_obj_list st1 = remove1 p (tmp_obj_list st)"
      using True rc nin by (simp_all add: st1_def gc_scan_incref_child_def Let_def remove1_idem)
    have "\<exists>T. gc_obj_list st1 = S @ T" using T st1(3) by simp
    moreover have "set (tmp_obj_list st1) = {q \<in> set L. (r(p := r p + 1)) q = 0}"
      using i True by (auto simp: st1(4))
    moreover have "set (gc_obj_list st1) = {q \<in> set L. 0 < (r(p := r p + 1)) q}"
      using i True assms(2) by (auto simp: st1(3))
    moreover have "distinct (gc_obj_list st1)" "distinct (tmp_obj_list st1)"
      using i nin by (auto simp: st1)
    moreover have "ref_count st1 = (\<lambda>q. if q \<in> set L then (r(p := r p + 1)) q else rc0 q)"
      using i True assms(2) by (auto simp: st1(1))
    ultimately show ?thesis
      using i assms(2,3) True unfolding scan_inv_def st1_def [symmetric] by (auto simp: st1(2))
  next
    case False
    then have st: "gc_scan_incref_child p st = add_ref st p 1"
      using rc by (simp add: gc_scan_incref_child_def Let_def)
    show ?thesis
      using i False rc assms(2,3) unfolding scan_inv_def st by (auto simp: fun_eq_iff)
  qed
qed

lemma scan_incref_fold:
  assumes "distinct L"
  shows "scan_inv h L rc0 V S r st \<Longrightarrow> set cs \<subseteq> set L \<inter> V \<Longrightarrow>
    scan_inv h L rc0 V S (\<lambda>p. r p + int (count_list cs p)) (fold gc_scan_incref_child cs st)"
proof (induction cs arbitrary: r st)
  case (Cons c cs)
  have "c \<in> set L" "c \<in> V" "set cs \<subseteq> set L \<inter> V" using Cons.prems(2) by auto
  from Cons.IH [OF scan_incref_step [OF Cons.prems(1) this(1,2) assms] this(3)]
  have "scan_inv h L rc0 V S (\<lambda>p. (r(c := r c + 1)) p + int (count_list cs p)) (fold gc_scan_incref_child (c # cs) st)"
    by simp
  moreover have "(\<lambda>p. (r(c := r c + 1)) p + int (count_list cs p)) = (\<lambda>p. r p + int (count_list (c # cs) p))"
    by (auto simp: fun_eq_iff)
  ultimately show ?case by (simp only:)
qed simp

lemma scan_loop_spec:
  assumes "distinct L" "heap_closed h L" and "\<And>q. q \<in> V \<Longrightarrow> set (children h q) \<subseteq> V"
  shows "scan_inv h L rc0 V S r st \<Longrightarrow> gc_obj_list st = S @ T \<Longrightarrow> length L \<le> length S + fuel \<Longrightarrow>
    \<exists>st' S'. scan_loop h fuel (first_on T) st = Some st' \<and> gc_obj_list st' = S'
      \<and> scan_inv h L rc0 V S' (\<lambda>p. r p - refs h S p + refs h S' p) st'"
proof (induction fuel arbitrary: S T r st)
  case 0
  note i = 0(1) [unfolded scan_inv_def]
  have "length (S @ T) \<le> length L"
    using i 0(2) assms(1) card_mono [of "set L" "set (S @ T)"] distinct_card [of "S @ T"] distinct_card [of L] by simp
  with 0(3) have "length S + length T \<le> length S + 0" by (metis add.right_neutral le_trans length_append)
  then have "T = []" by simp
  with 0 show ?case by auto
next
  case (Suc fuel)
  show ?case
  proof (cases T)
    case Nil
    with Suc.prems show ?thesis by auto
  next
    case (Cons el T')
    note i = Suc.prems(1) [unfolded scan_inv_def]
    have el: "el \<in> set L" "0 < r el" "el \<in> V" "el \<notin> set S"
      using i Suc.prems(2) Cons by auto
    note ch = heap_closedD [OF assms(2) el(1)]
    let ?r = "\<lambda>p. r p + int (count_list (children h el) p)"
    have "scan_inv h L rc0 V (S @ [el]) r (set_mark st el False)"
      using Suc.prems(1,2) Cons el by (auto simp: scan_inv_def)
    from scan_incref_fold [OF assms(1) this] ch(2) assms(3) [OF el(3)]
    have inv: "scan_inv h L rc0 V (S @ [el]) ?r (fold gc_scan_incref_child (children h el) (set_mark st el False))" (is "scan_inv _ _ _ _ _ _ ?st")
      by simp
    then obtain T2 where T2: "gc_obj_list ?st = (S @ [el]) @ T2" by (auto simp: scan_inv_def)
    have nxt: "next_on (gc_obj_list ?st) el = first_on T2"
      using el(4) by (simp add: T2 next_on_split)
    have "scan_loop h (Suc fuel) (first_on T) st = scan_loop h fuel (first_on T2) ?st"
      using i el(1,2) by (simp add: Cons ch(1) nxt)
    moreover from Suc.IH [OF inv T2] Suc.prems(3)
    obtain st' where "scan_loop h fuel (first_on T2) ?st = Some st'"
      "scan_inv h L rc0 V (gc_obj_list st') (\<lambda>p. ?r p - refs h (S @ [el]) p + refs h (gc_obj_list st') p) st'" by auto
    moreover have "(\<lambda>p. ?r p - refs h (S @ [el]) p + refs h (gc_obj_list st') p)
        = (\<lambda>p. r p - refs h S p + refs h (gc_obj_list st') p)"
      by (simp add: refs_append)
    ultimately show ?thesis by simp
  qed
qed


lemma fold_incref2:
  "fold gc_scan_incref_child2 cs st = st\<lparr>ref_count := \<lambda>p. ref_count st p + int (count_list cs p)\<rparr>"
  by (induction cs arbitrary: st) (auto simp: gc_scan_incref_child2_def add_ref_def fun_eq_iff)

lemma restore_loop_spec:
  assumes "heap_closed h L"
  shows "set els \<subseteq> set L \<Longrightarrow> restore_loop h els st = Some (st\<lparr>ref_count := \<lambda>p. ref_count st p + refs h els p\<rparr>)"
proof (induction els arbitrary: st)
  case (Cons el els)
  then show ?case
    using heap_closedD(1) [OF assms, of el] by (simp add: fold_incref2 algebra_simps)
qed simp

lemma refs_split:
  assumes "distinct L" "distinct A" "distinct B" "set A \<union> set B = set L" "set A \<inter> set B = {}"
  shows "refs h A p + refs h B p = refs h L p"
  using refs_perm [of "A @ B" L h p] assms by (auto simp: refs_append)

section \<open>The phases in sequence\<close>

text \<open>What a reference from outside reaches is on the list.\<close>

lemma live_listed:
  assumes "gc_ok h st"
  shows "{p. gc_live h st p} \<subseteq> set (gc_obj_list st)"
proof
  have closed: "heap_closed h (gc_obj_list st)" using assms by (auto simp: gc_ok_def heap_closed_def)
  fix p assume "p \<in> {p. gc_live h st p}"
  then have "gc_live h st p" by simp
  then show "p \<in> set (gc_obj_list st)" by induction (use heap_closedD(2) [OF closed] in auto)
qed

text \<open>After the scan loop the collector's list holds the live objects.\<close>

lemma scan_lists_live:
  assumes ok: "gc_ok h st" and s: "scan_inv h (gc_obj_list st) (ref_count st) {p. gc_live h st p} (gc_obj_list st2)
      (\<lambda>p. ref_count st p - refs h (gc_obj_list st) p + refs h (gc_obj_list st2) p) st2"
  shows "set (gc_obj_list st2) = {p. gc_live h st p}"
proof
  note s = s [unfolded scan_inv_def]
  show "set (gc_obj_list st2) \<subseteq> {p. gc_live h st p}" using s by auto
  show "{p. gc_live h st p} \<subseteq> set (gc_obj_list st2)"
  proof
    fix p assume "p \<in> {p. gc_live h st p}"
    then have "gc_live h st p" by simp
    then show "p \<in> set (gc_obj_list st2)"
    proof induction
      case (gc_root p)
      then show ?case using s refs_nonneg [of h "gc_obj_list st2" p] by auto
    next
      case (gc_child q p)
      then have "p \<in> set (gc_obj_list st)" using live_listed [OF ok] by (auto intro: gc_live.gc_child)
      moreover from this have "0 \<le> ref_count st p - refs h (gc_obj_list st) p" using ok by (simp add: gc_ok_def)
      moreover have "0 < refs h (gc_obj_list st2) p" using gc_child refs_pos by blast
      ultimately show ?case using s by auto
    qed
  qed
qed

lemma decref_and_scan_loop:
  assumes "gc_ok h st"
  shows "\<exists>st1 st2. gc_decref h st = Some st1
    \<and> scan_loop h (length (gc_obj_list st1) + length (tmp_obj_list st1)) (first_on (gc_obj_list st1)) st1 = Some st2
    \<and> scan_inv h (gc_obj_list st) (ref_count st) {p. gc_live h st p} (gc_obj_list st2)
        (\<lambda>p. ref_count st p - refs h (gc_obj_list st) p + refs h (gc_obj_list st2) p) st2"
proof -
  define L where "L = gc_obj_list st"
  define V where "V = {p. gc_live h st p}"
  define r where "r = (\<lambda>p. ref_count st p - refs h L p)"
  have ok: "distinct L" "heap_closed h L" "\<And>p. p \<in> set L \<Longrightarrow> 0 \<le> r p"
    using assms by (auto simp: gc_ok_def heap_closed_def L_def r_def)
  have V_closed: "set (children h q) \<subseteq> V" if "q \<in> V" for q
    using that by (auto simp: V_def intro: gc_child)
  obtain st1 where 1: "gc_decref h st = Some st1" "dec_inv L st (set L) r st1"
    using gc_decref_spec [OF assms] unfolding L_def [symmetric] r_def by blast
  note d = 1(2) [unfolded dec_inv_def]
  have inv: "scan_inv h L (ref_count st) V [] r st1"
    using d ok by (auto simp: scan_inv_def V_def L_def r_def order.order_iff_strict intro!: gc_root)
  have "length (gc_obj_list st1) + length (tmp_obj_list st1) = length L"
    using d ok(1) sum_length_filter_compl [of "\<lambda>p. r p \<noteq> 0" L]
      distinct_card [of "tmp_obj_list st1"] distinct_card [of "filter (\<lambda>p. \<not> r p \<noteq> 0) L"]
    by (auto cong: filter_cong)
  with scan_loop_spec [OF ok(1,2) V_closed inv, of "gc_obj_list st1" "length L"]
  obtain st2 where "scan_loop h (length (gc_obj_list st1) + length (tmp_obj_list st1)) (first_on (gc_obj_list st1)) st1 = Some st2"
    "scan_inv h L (ref_count st) V (gc_obj_list st2) (\<lambda>p. r p + refs h (gc_obj_list st2) p) st2" by auto
  then show ?thesis using 1(1) unfolding L_def V_def r_def by blast
qed

section \<open>Properties\<close>

text \<open>
  C4: The first two phases of a collection keep exactly the objects that can be reached from a
  reference outside the heap. On a heap whose reference counts cover the references between its
  objects, no assertion fails and both phases end; afterwards the objects reachable from one with
  more references than the heap accounts for are on the collector's list, unmarked, every other
  object is on the list to be freed, and every reference count is what it was before.
\<close>

theorem gc_keeps_reachable:
  assumes "gc_ok h st"
  shows "\<exists>st'. do { st1 \<leftarrow> gc_decref h st; gc_scan h st1 } = Some st'
    \<and> distinct (gc_obj_list st') \<and> set (gc_obj_list st') = {p. gc_live h st p}
    \<and> distinct (tmp_obj_list st') \<and> set (tmp_obj_list st') = set (gc_obj_list st) - {p. gc_live h st p}
    \<and> ref_count st' = ref_count st
    \<and> (\<forall>p. gc_live h st p \<longrightarrow> \<not> mark st' p)"
proof -
  define L where "L = gc_obj_list st"
  have ok: "distinct L" "heap_closed h L" using assms by (auto simp: gc_ok_def heap_closed_def L_def)
  obtain st1 st2 where 1: "gc_decref h st = Some st1"
    and 2: "scan_loop h (length (gc_obj_list st1) + length (tmp_obj_list st1)) (first_on (gc_obj_list st1)) st1 = Some st2"
    and inv: "scan_inv h L (ref_count st) {p. gc_live h st p} (gc_obj_list st2) (\<lambda>p. ref_count st p - refs h L p + refs h (gc_obj_list st2) p) st2"
    using decref_and_scan_loop [OF assms] unfolding L_def by blast
  note s = inv [unfolded scan_inv_def]
  have live: "set (gc_obj_list st2) = {p. gc_live h st p}" by (rule scan_lists_live [OF assms inv [unfolded L_def]])
  have rest: "set (tmp_obj_list st2) = set L - {p. gc_live h st p}" using s live by fastforce
  define st3 where "st3 = st2\<lparr>ref_count := \<lambda>p. ref_count st2 p + refs h (tmp_obj_list st2) p\<rparr>"
  have "gc_scan h st1 = Some st3"
    unfolding gc_scan_def 2 st3_def using restore_loop_spec [OF ok(2)] rest by simp
  moreover have "ref_count st3 = ref_count st"
  proof
    fix p
    have "refs h (gc_obj_list st2) p + refs h (tmp_obj_list st2) p = refs h L p"
      using s live rest live_listed [OF assms] by (intro refs_split ok(1)) (auto simp: L_def)
    moreover have "\<not> 0 < refs h (tmp_obj_list st2) p" if "p \<notin> set L"
      using that heap_closedD(2) [OF ok(2)] rest by (auto simp: refs_pos)
    then have "refs h (tmp_obj_list st2) p = 0" if "p \<notin> set L" using that refs_nonneg [of h "tmp_obj_list st2" p] by force
    ultimately show "ref_count st3 p = ref_count st p" using s by (auto simp: st3_def)
  qed
  ultimately show ?thesis using 1 s live rest by (auto simp: st3_def L_def)
qed


text \<open>Object 0 is held from outside and holds its shape 1; objects 2 and 3 only hold each other.\<close>

definition demo_heap :: heap where
  "demo_heap p =
     (if p = 0 then JSObject 1 [(True, PropNormal JSOtherVal)] NoGcMark
      else if p = 2 then JSObject 1 [(False, PropGetSet (Some 0) None)] (ArrayValues [JSOtherVal, JSObjectVal 3])
      else if p = 3 then JSVarRef True (JSObjectVal 2)
      else JSShape None)"

lemma demo_children:
  "mark_children demo_heap 0 = Some [1]" "mark_children demo_heap 2 = Some [1, 3]"
  "mark_children demo_heap 3 = Some [2]" "mark_children demo_heap (Suc 0) = Some []"
  by (simp_all add: mark_children_def demo_heap_def JS_MarkValue_def JS_MarkValues_def js_array_mark_def)

definition demo_gc :: gc_state where
  "demo_gc = \<lparr>ref_count = (\<lambda>p. if p = 1 then 2 else 1), mark = (\<lambda>_. False),
              gc_obj_list = [0, 1, 2, 3], tmp_obj_list = []\<rparr>"

lemma demo_live: "gc_live demo_heap demo_gc p \<longleftrightarrow> p = 0 \<or> p = 1"
proof
  assume "gc_live demo_heap demo_gc p"
  then show "p = 0 \<or> p = 1"
    by induction (auto simp: demo_gc_def demo_children refs_def children_def split: if_splits)
next
  have 0: "gc_live demo_heap demo_gc 0"
    by (rule gc_root) (auto simp: demo_gc_def demo_children refs_def children_def)
  then have "gc_live demo_heap demo_gc 1"
    by (rule gc_child) (auto simp: demo_children children_def)
  with 0 show "p = 0 \<or> p = 1 \<Longrightarrow> gc_live demo_heap demo_gc p" by auto
qed

theorem gc_keeps_reachable_witness:
  "\<exists>st'. do { st1 \<leftarrow> gc_decref demo_heap demo_gc; gc_scan demo_heap st1 } = Some st'
     \<and> set (gc_obj_list st') = {0, 1} \<and> set (tmp_obj_list st') = {2, 3} \<and> ref_count st' = ref_count demo_gc"
proof -
  have "gc_ok demo_heap demo_gc"
    by (auto simp: gc_ok_def demo_gc_def demo_children refs_def children_def)
  moreover have "{p. gc_live demo_heap demo_gc p} = {0, 1}" by (auto simp: demo_live)
  ultimately show ?thesis
    using gc_keeps_reachable [of demo_heap demo_gc] by (auto simp: demo_gc_def)
qed

end
