(* ===== verification/Limbs.thy ===== *)
theory Limbs
  imports Prelude
begin

text \<open>
  Multi-limb arithmetic of \<^verbatim>\<open>libbf.c\<close> for 64-bit limbs. The limb arrays of a call live in one
  memory, a partial map from addresses to limbs, and an array is the address of its first limb:
  an access outside the mapped cells faults, and arrays may overlap. The value of an array is a
  number in base \<open>2 ^ 64\<close>, its least significant limb first.
\<close>

section \<open>Memory and loops\<close>

type_synonym limb = u64
type_synonym dlimb = "128 word"
type_synonym limb_mem = "nat \<Rightarrow> limb option"

definition put :: "limb_mem \<Rightarrow> nat \<Rightarrow> limb \<Rightarrow> limb_mem option" where
  "put m p v = (case m p of None \<Rightarrow> None | Some _ \<Rightarrow> Some (m(p \<mapsto> v)))"

text \<open>\<^verbatim>\<open>for(i = a; i < n; i++)\<close> and \<^verbatim>\<open>for(i = n - 1; i >= 0; i--)\<close> without a break.\<close>

function for_up :: "(nat \<Rightarrow> 's \<Rightarrow> 's option) \<Rightarrow> nat \<Rightarrow> nat \<Rightarrow> 's \<Rightarrow> 's option" where
  "for_up body i n s = (if i < n then do { s \<leftarrow> body i s; for_up body (Suc i) n s } else Some s)"
  by pat_completeness auto

termination for_up
  by (relation "measure (\<lambda>(body, i, n, s). n - i)") auto

declare for_up.simps [simp del]

primrec for_down :: "(nat \<Rightarrow> 's \<Rightarrow> 's option) \<Rightarrow> nat \<Rightarrow> 's \<Rightarrow> 's option" where
  "for_down body 0 s = Some s"
| "for_down body (Suc i) s = do { s \<leftarrow> body i s; for_down body i s }"

section \<open>Addition and subtraction\<close>

definition c_bool :: "bool \<Rightarrow> limb" where
  "c_bool b = (if b then 1 else 0)"

definition mp_add :: "limb_mem \<Rightarrow> nat \<Rightarrow> nat \<Rightarrow> nat \<Rightarrow> nat \<Rightarrow> limb \<Rightarrow> (limb_mem \<times> limb) option" where
  "mp_add m res op1 op2 n carry =
     for_up (\<lambda>i (m, k). do {
         v \<leftarrow> m (op1 + i);
         w \<leftarrow> m (op2 + i);
         let a = v + w; let k1 = c_bool (a < v); let a = a + k; let k = c_bool (a < k) OR k1;
         m \<leftarrow> put m (res + i) a;
         Some (m, k) }) 0 n (m, carry)"

function mp_add_ui_loop :: "nat \<Rightarrow> nat \<Rightarrow> nat \<Rightarrow> limb_mem \<Rightarrow> limb \<Rightarrow> (limb_mem \<times> limb) option" where
  "mp_add_ui_loop tab i n m k =
     (if i < n then
        if k = 0 then Some (m, k)
        else do { v \<leftarrow> m (tab + i);
                  let a = v + k; let k = c_bool (a < k);
                  m \<leftarrow> put m (tab + i) a;
                  mp_add_ui_loop tab (Suc i) n m k }
      else Some (m, k))"
  by pat_completeness auto

termination mp_add_ui_loop
  by (relation "measure (\<lambda>(tab, i, n, m, k). n - i)") auto

definition mp_add_ui :: "limb_mem \<Rightarrow> nat \<Rightarrow> limb \<Rightarrow> nat \<Rightarrow> (limb_mem \<times> limb) option" where
  "mp_add_ui m tab b n = mp_add_ui_loop tab 0 n m b"

definition mp_sub :: "limb_mem \<Rightarrow> nat \<Rightarrow> nat \<Rightarrow> nat \<Rightarrow> nat \<Rightarrow> limb \<Rightarrow> (limb_mem \<times> limb) option" where
  "mp_sub m res op1 op2 n carry =
     for_up (\<lambda>i (m, k). do {
         v \<leftarrow> m (op1 + i);
         w \<leftarrow> m (op2 + i);
         let a = v - w; let k1 = c_bool (a > v); let v = a - k; let k = c_bool (v > a) OR k1;
         m \<leftarrow> put m (res + i) v;
         Some (m, k) }) 0 n (m, carry)"

definition mp_neg :: "limb_mem \<Rightarrow> nat \<Rightarrow> nat \<Rightarrow> nat \<Rightarrow> limb \<Rightarrow> (limb_mem \<times> limb) option" where
  "mp_neg m res op2 n carry =
     for_up (\<lambda>i (m, k). do {
         let v = 0;
         w \<leftarrow> m (op2 + i);
         let a = v - w; let k1 = c_bool (a > v); let v = a - k; let k = c_bool (v > a) OR k1;
         m \<leftarrow> put m (res + i) v;
         Some (m, k) }) 0 n (m, carry)"

function mp_sub_ui_loop :: "nat \<Rightarrow> nat \<Rightarrow> nat \<Rightarrow> limb_mem \<Rightarrow> limb \<Rightarrow> (limb_mem \<times> limb) option" where
  "mp_sub_ui_loop tab i n m k =
     (if i < n then
        do { v \<leftarrow> m (tab + i);
             let a = v - k; let k = c_bool (a > v);
             m \<leftarrow> put m (tab + i) a;
             if k = 0 then Some (m, k) else mp_sub_ui_loop tab (Suc i) n m k }
      else Some (m, k))"
  by pat_completeness auto

termination mp_sub_ui_loop
  by (relation "measure (\<lambda>(tab, i, n, m, k). n - i)") auto

definition mp_sub_ui :: "limb_mem \<Rightarrow> nat \<Rightarrow> limb \<Rightarrow> nat \<Rightarrow> (limb_mem \<times> limb) option" where
  "mp_sub_ui m tab b n = mp_sub_ui_loop tab 0 n m b"

declare mp_add_ui_loop.simps [simp del] mp_sub_ui_loop.simps [simp del]

section \<open>Shift, comparison and multiplication\<close>

text \<open>A failed assertion is \<^term>\<open>None\<close>.\<close>

definition mp_shr :: "limb_mem \<Rightarrow> nat \<Rightarrow> nat \<Rightarrow> nat \<Rightarrow> nat \<Rightarrow> limb \<Rightarrow> (limb_mem \<times> limb) option" where
  "mp_shr m tab_r tab n shift high =
     (if \<not> (1 \<le> shift \<and> shift < 64) then None
      else do { (m, l) \<leftarrow> for_down (\<lambda>i (m, l). do {
                    a \<leftarrow> m (tab + i);
                    m \<leftarrow> put m (tab_r + i) (drop_bit shift a OR push_bit (64 - shift) l);
                    Some (m, a) }) n (m, high);
                Some (m, l AND (push_bit shift 1 - 1)) })"

fun mp_scan_nz :: "limb_mem \<Rightarrow> nat \<Rightarrow> nat \<Rightarrow> limb option" where
  "mp_scan_nz m tab 0 = Some 0"
| "mp_scan_nz m tab (Suc n) = do { v \<leftarrow> m tab; if v \<noteq> 0 then Some 1 else mp_scan_nz m (Suc tab) n }"

primrec mp_cmp :: "limb_mem \<Rightarrow> nat \<Rightarrow> nat \<Rightarrow> nat \<Rightarrow> int option" where
  "mp_cmp m taba tabb 0 = Some 0"
| "mp_cmp m taba tabb (Suc i) = do {
     a \<leftarrow> m (taba + i);
     b \<leftarrow> m (tabb + i);
     if a \<noteq> b then if a < b then Some (-1) else Some 1
     else mp_cmp m taba tabb i }"

abbreviation wide :: "limb \<Rightarrow> dlimb" where
  "wide \<equiv> ucast"

definition mp_mul1 :: "limb_mem \<Rightarrow> nat \<Rightarrow> nat \<Rightarrow> nat \<Rightarrow> limb \<Rightarrow> limb \<Rightarrow> (limb_mem \<times> limb) option" where
  "mp_mul1 m tabr taba n b l =
     for_up (\<lambda>i (m, l). do {
         x \<leftarrow> m (taba + i);
         let t = wide x * wide b + wide l;
         m \<leftarrow> put m (tabr + i) (ucast t);
         Some (m, ucast (drop_bit 64 t)) }) 0 n (m, l)"

definition mp_add_mul1 :: "limb_mem \<Rightarrow> nat \<Rightarrow> nat \<Rightarrow> nat \<Rightarrow> limb \<Rightarrow> (limb_mem \<times> limb) option" where
  "mp_add_mul1 m tabr taba n b =
     for_up (\<lambda>i (m, l). do {
         x \<leftarrow> m (taba + i);
         y \<leftarrow> m (tabr + i);
         let t = wide x * wide b + wide l + wide y;
         m \<leftarrow> put m (tabr + i) (ucast t);
         Some (m, ucast (drop_bit 64 t)) }) 0 n (m, 0)"

definition mp_sub_mul1 :: "limb_mem \<Rightarrow> nat \<Rightarrow> nat \<Rightarrow> nat \<Rightarrow> limb \<Rightarrow> (limb_mem \<times> limb) option" where
  "mp_sub_mul1 m tabr taba n b =
     for_up (\<lambda>i (m, l). do {
         y \<leftarrow> m (tabr + i);
         x \<leftarrow> m (taba + i);
         let t = wide y - wide x * wide b - wide l;
         m \<leftarrow> put m (tabr + i) (ucast t);
         Some (m, ucast (- drop_bit 64 t)) }) 0 n (m, 0)"

definition mp_mul_basecase :: "limb_mem \<Rightarrow> nat \<Rightarrow> nat \<Rightarrow> nat \<Rightarrow> nat \<Rightarrow> nat \<Rightarrow> limb_mem option" where
  "mp_mul_basecase m result op1 op1_size op2 op2_size = do {
     b \<leftarrow> m op2;
     (m, r) \<leftarrow> mp_mul1 m result op1 op1_size b 0;
     m \<leftarrow> put m (result + op1_size) r;
     for_up (\<lambda>i m. do {
         b \<leftarrow> m (op2 + i);
         (m, r) \<leftarrow> mp_add_mul1 m (result + i) op1 op1_size b;
         put m (result + i + op1_size) r }) 1 op2_size m }"

section \<open>Values of arrays\<close>

text \<open>The base, and the value of the \<open>n\<close> limbs at \<open>p\<close>.\<close>

definition BASE :: nat where
  "BASE = 2 ^ 64"

primrec mval :: "limb_mem \<Rightarrow> nat \<Rightarrow> nat \<Rightarrow> nat" where
  "mval m p 0 = 0"
| "mval m p (Suc n) = mval m p n + unat (the (m (p + n))) * BASE ^ n"

definition mapped :: "limb_mem \<Rightarrow> nat \<Rightarrow> nat \<Rightarrow> bool" where
  "mapped m p n = (\<forall>j<n. m (p + j) \<noteq> None)"

text \<open>Memories that differ at most in the \<open>n\<close> cells at \<open>p\<close> and have the same cells.\<close>

definition only :: "nat \<Rightarrow> nat \<Rightarrow> limb_mem \<Rightarrow> limb_mem \<Rightarrow> bool" where
  "only p n m m' = (dom m' = dom m \<and> (\<forall>q. q < p \<or> p + n \<le> q \<longrightarrow> m' q = m q))"

definition cells_apart :: "nat \<Rightarrow> nat \<Rightarrow> nat \<Rightarrow> nat \<Rightarrow> bool" where
  "cells_apart p n q k = (p + n \<le> q \<or> q + k \<le> p)"

lemma for_up_inv:
  assumes "\<And>i s. a \<le> i \<Longrightarrow> i < n \<Longrightarrow> P i s \<Longrightarrow> \<exists>s'. body i s = Some s' \<and> P (Suc i) s'"
  shows "a \<le> i \<Longrightarrow> i \<le> n \<Longrightarrow> P i s \<Longrightarrow> \<exists>s'. for_up body i n s = Some s' \<and> P n s'"
proof (induction "n - i" arbitrary: i s)
  case 0
  then show ?case by (simp add: for_up.simps)
next
  case (Suc d)
  then have "i < n" by simp
  from assms [OF Suc.prems(1) this Suc.prems(3)]
  obtain s' where s': "body i s = Some s'" "P (Suc i) s'" by blast
  from Suc.hyps(1) [of "Suc i" s'] Suc.hyps(2) Suc.prems s' \<open>i < n\<close> show ?case
    by (subst for_up.simps) auto
qed

lemma for_down_inv:
  assumes "\<And>i s. i < n \<Longrightarrow> P (Suc i) s \<Longrightarrow> \<exists>s'. body i s = Some s' \<and> P i s'"
  shows "i \<le> n \<Longrightarrow> P i s \<Longrightarrow> \<exists>s'. for_down body i s = Some s' \<and> P 0 s'"
proof (induction i arbitrary: s)
  case (Suc i)
  with assms [of i s] obtain s' where "body i s = Some s'" "P i s'" by auto
  with Suc.IH [of s'] Suc.prems show ?case by simp
qed simp

lemma limb_less: "unat v < BASE" for v :: limb
  using unsigned_less [of v] by (simp add: BASE_def)

lemma mval_cong: "(\<And>j. j < n \<Longrightarrow> m (p + j) = m' (p + j)) \<Longrightarrow> mval m p n = mval m' p n"
  by (induction n) auto

lemma mval_split: "mval m p (a + b) = mval m p a + BASE ^ a * mval m (p + a) b"
  by (induction b) (auto simp: power_add algebra_simps)

lemma mval_less: "mval m p n < BASE ^ n"
proof (induction n)
  case (Suc n)
  have "unat (the (m (p + n))) + 1 \<le> BASE" using limb_less [of "the (m (p + n))"] by simp
  then have "(unat (the (m (p + n))) + 1) * BASE ^ n \<le> BASE * BASE ^ n" by (rule mult_le_mono1)
  with Suc show ?case by (simp add: algebra_simps)
qed simp

lemma mval_put [simp]: "p + n \<le> q \<or> q < p \<Longrightarrow> mval (m(q \<mapsto> v)) p n = mval m p n"
  by (rule mval_cong) auto

lemma mapped_put [simp]: "mapped m p n \<Longrightarrow> mapped (m(q \<mapsto> v)) p n"
  by (auto simp: mapped_def)

lemma put_mapped: "m p \<noteq> None \<Longrightarrow> put m p v = Some (m(p \<mapsto> v))"
  by (auto simp: put_def)

lemma upd_eq_iff [simp]: "m(p \<mapsto> v) = m(p \<mapsto> w) \<longleftrightarrow> v = w"
  by (auto dest: map_upd_eqD1)

lemma only_refl [simp]: "only p n m m"
  by (simp add: only_def)

lemma only_mval: "only p n m m' \<Longrightarrow> cells_apart p n q k \<Longrightarrow> mval m' q k = mval m q k"
  by (rule mval_cong) (auto simp: only_def cells_apart_def)

lemma only_mapped: "only p n m m' \<Longrightarrow> mapped m' q k = mapped m q k"
  unfolding only_def mapped_def dom_def by (metis (mono_tags, lifting) mem_Collect_eq)

lemma only_at: "only p n m m' \<Longrightarrow> q < p \<or> p + n \<le> q \<Longrightarrow> m' q = m q"
  unfolding only_def by blast

lemma only_put:
  "only p n m m' \<Longrightarrow> p \<le> q \<Longrightarrow> q < p + k \<Longrightarrow> n \<le> k \<Longrightarrow> m q \<noteq> None \<Longrightarrow> only p k m (m'(q \<mapsto> v))"
  by (auto simp: only_def)

lemma only_trans:
  "only p n m m' \<Longrightarrow> only q k m' m'' \<Longrightarrow> r \<le> p \<Longrightarrow> r \<le> q \<Longrightarrow> p + n \<le> r + l \<Longrightarrow> q + k \<le> r + l \<Longrightarrow> only r l m m''"
  by (auto simp: only_def)

lemma mappedD: "mapped m p n \<Longrightarrow> j < n \<Longrightarrow> \<exists>v. m (p + j) = Some v"
  by (auto simp: mapped_def)


lemma mapped_sub:
  assumes "mapped m p n" "p \<le> q" "q + k \<le> p + n"
  shows "mapped m q k"
  unfolding mapped_def
proof (intro allI impI)
  fix j assume "j < k"
  with assms(2,3) have "q - p + j < n" "q + j = p + (q - p + j)" by auto
  with assms(1) show "m (q + j) \<noteq> None" unfolding mapped_def by metis
qed

section \<open>One limb\<close>

lemma unat_plus_limb: "unat (v + w) = (if unat v + unat w < BASE then unat v + unat w else unat v + unat w - BASE)"
  for v w :: limb
  using limb_less [of v] limb_less [of w] by (auto simp: unat_word_ariths mod_if BASE_def)

lemma unat_minus_limb: "unat (v - w) = (if unat w \<le> unat v then unat v - unat w else unat v + BASE - unat w)"
  for v w :: limb
  using limb_less [of v] limb_less [of w] by (simp add: unat_sub_if_size word_size BASE_def)

lemma unat_c_bool [simp]: "unat (c_bool b) = of_bool b"
  by (simp add: c_bool_def)

lemma c_bool_or: "c_bool b OR c_bool c = c_bool (b \<or> c)"
  by (simp add: c_bool_def)

lemma add_limb:
  fixes v w k :: limb
  assumes "unat k \<le> 1"
  shows "unat (v + w + k) + BASE * unat (c_bool (v + w + k < k) OR c_bool (v + w < v)) = unat v + unat w + unat k"
  using assms limb_less [of v] limb_less [of w]
  by (auto simp: c_bool_or word_less_nat_alt unat_plus_limb)

lemma sub_limb:
  fixes v w k :: limb
  assumes "unat k \<le> 1"
  shows "unat (v - w - k) + unat w + unat k = unat v + BASE * unat (c_bool (v - w < v - w - k) OR c_bool (v < v - w))"
  using assms limb_less [of v] limb_less [of w] limb_less [of k]
  by (auto simp: c_bool_or word_less_nat_alt unat_minus_limb)

lemma carry_le [simp]: "unat (c_bool b OR c_bool c) \<le> Suc 0"
  by (simp add: c_bool_or)

section \<open>Operations on arrays\<close>

text \<open>
  The arrays of an operation. The result may start at or before an operand, since the loops go
  upwards, or lie cells_apart from it.
\<close>

definition operand :: "nat \<Rightarrow> nat \<Rightarrow> nat \<Rightarrow> bool" where
  "operand res op n = (res \<le> op \<or> op + n \<le> res)"

lemma step_value:
  fixes X :: nat
  assumes "X + BASE ^ i * k = A" "a + BASE * k' = D + k"
  shows "X + a * BASE ^ i + BASE ^ Suc i * k' = A + D * BASE ^ i"
proof -
  have "(a + BASE * k') * BASE ^ i = (D + k) * BASE ^ i" using assms(2) by simp
  then show ?thesis using assms(1) by (simp add: algebra_simps)
qed

lemma limb_loop:
  assumes "\<And>i m' k. i < n \<Longrightarrow> only res i m m' \<Longrightarrow> R i (mval m' res i) k \<Longrightarrow> m' (res + i) \<noteq> None \<Longrightarrow>
      \<exists>a k'. body i (m', k) = Some (m'(res + i \<mapsto> a), k') \<and> R (Suc i) (mval m' res i + unat a * BASE ^ i) k'"
    and "mapped m res n" "R 0 0 k"
  shows "\<exists>m' k'. for_up body 0 n (m, k) = Some (m', k') \<and> only res n m m' \<and> R n (mval m' res n) k'"
proof -
  have "\<exists>s'. for_up body 0 n (m, k) = Some s' \<and> (case s' of (m', k) \<Rightarrow> only res n m m' \<and> R n (mval m' res n) k)"
  proof (rule for_up_inv [where P = "\<lambda>i (m', k). only res i m m' \<and> R i (mval m' res i) k" and a = 0])
    fix i s assume i: "i < n" and s: "case s of (m', k) \<Rightarrow> only res i m m' \<and> R i (mval m' res i) k"
    obtain m' k where mk: "s = (m', k)" "only res i m m'" "R i (mval m' res i) k" using s by (cases s) auto
    have r: "m (res + i) \<noteq> None" using assms(2) i by (auto simp: mapped_def)
    then have "m' (res + i) \<noteq> None" using only_at [OF mk(2), of "res + i"] by simp
    from assms(1) [OF i mk(2,3) this] r only_put [OF mk(2), of "res + i" "Suc i"]
    show "\<exists>s'. body i s = Some s' \<and> (case s' of (m', k) \<Rightarrow> only res (Suc i) m m' \<and> R (Suc i) (mval m' res (Suc i)) k)"
      by (fastforce simp: mk(1))
  qed (use assms(3) in auto)
  then show ?thesis by fastforce
qed

lemma operand_at:
  assumes "mapped m op n" "operand res op n" "i < n" "only res i m m'"
  obtains v where "m' (op + i) = Some v" "m (op + i) = Some v"
  using mappedD [OF assms(1,3)] only_at [OF assms(4), of "op + i"] assms(2,3) by (auto simp: operand_def)

lemma mp_add_spec:
  assumes "mapped m op1 n" "mapped m op2 n" "mapped m res n" "operand res op1 n" "operand res op2 n"
    and "unat carry \<le> 1"
  shows "\<exists>m' k. mp_add m res op1 op2 n carry = Some (m', k) \<and> only res n m m' \<and> unat k \<le> 1
    \<and> mval m' res n + BASE ^ n * unat k = mval m op1 n + mval m op2 n + unat carry"
  unfolding mp_add_def
proof (rule limb_loop [where R = "\<lambda>i X k. unat k \<le> 1 \<and> X + BASE ^ i * unat k = mval m op1 i + mval m op2 i + unat carry"])
  fix i m' and k :: limb
  let ?X = "mval m' res i"
  assume i: "i < n" and only: "only res i m m'" and r: "m' (res + i) \<noteq> None"
    and R: "unat k \<le> 1 \<and> ?X + BASE ^ i * unat k = mval m op1 i + mval m op2 i + unat carry"
  from operand_at [OF assms(1,4) i only] obtain v where v: "m' (op1 + i) = Some v" "m (op1 + i) = Some v" .
  from operand_at [OF assms(2,5) i only] obtain w where w: "m' (op2 + i) = Some w" "m (op2 + i) = Some w" .
  have "?X + unat (v + w + k) * BASE ^ i + BASE ^ Suc i * unat (c_bool (v + w + k < k) OR c_bool (v + w < v))
      = (mval m op1 i + mval m op2 i + unat carry) + (unat v + unat w) * BASE ^ i"
    by (rule step_value [OF conjunct2 [OF R]]) (use add_limb R in simp)
  then show "\<exists>a (k' :: limb). (case (m', k) of (m, k) \<Rightarrow> do {
         v \<leftarrow> m (op1 + i);
         w \<leftarrow> m (op2 + i);
         let a = v + w; let k1 = c_bool (a < v); let a = a + k; let k = c_bool (a < k) OR k1;
         m \<leftarrow> put m (res + i) a;
         Some (m, k) }) = Some (m'(res + i \<mapsto> a), k')
      \<and> unat k' \<le> 1 \<and> ?X + unat a * BASE ^ i + BASE ^ Suc i * unat k' = mval m op1 (Suc i) + mval m op2 (Suc i) + unat carry"
    using v w r by (simp add: Let_def put_mapped algebra_simps)
qed (use assms in auto)


lemma mp_sub_spec:
  assumes "mapped m op1 n" "mapped m op2 n" "mapped m res n" "operand res op1 n" "operand res op2 n"
    and "unat carry \<le> 1"
  shows "\<exists>m' k. mp_sub m res op1 op2 n carry = Some (m', k) \<and> only res n m m' \<and> unat k \<le> 1
    \<and> mval m' res n + mval m op2 n + unat carry = mval m op1 n + BASE ^ n * unat k"
  unfolding mp_sub_def
proof (rule limb_loop [where R = "\<lambda>i X k. unat k \<le> 1 \<and> X + mval m op2 i + unat carry = mval m op1 i + BASE ^ i * unat k"])
  fix i m' and k :: limb
  let ?X = "mval m' res i"
  assume i: "i < n" and only: "only res i m m'" and r: "m' (res + i) \<noteq> None"
    and R: "unat k \<le> 1 \<and> ?X + mval m op2 i + unat carry = mval m op1 i + BASE ^ i * unat k"
  from operand_at [OF assms(1,4) i only] obtain v where v: "m' (op1 + i) = Some v" "m (op1 + i) = Some v" .
  from operand_at [OF assms(2,5) i only] obtain w where w: "m' (op2 + i) = Some w" "m (op2 + i) = Some w" .
  have "?X + mval m op2 i + unat carry + (unat (v - w - k) + unat w + unat k) * BASE ^ i
      = mval m op1 i + BASE ^ i * unat k + (unat v + BASE * unat (c_bool (v - w < v - w - k) OR c_bool (v < v - w))) * BASE ^ i"
    using sub_limb [of k v w] R by simp
  then show "\<exists>a (k' :: limb). (case (m', k) of (m, k) \<Rightarrow> do {
         v \<leftarrow> m (op1 + i);
         w \<leftarrow> m (op2 + i);
         let a = v - w; let k1 = c_bool (a > v); let v = a - k; let k = c_bool (v > a) OR k1;
         m \<leftarrow> put m (res + i) v;
         Some (m, k) }) = Some (m'(res + i \<mapsto> a), k')
      \<and> unat k' \<le> 1 \<and> ?X + unat a * BASE ^ i + mval m op2 (Suc i) + unat carry = mval m op1 (Suc i) + BASE ^ Suc i * unat k'"
    using v w r by - (rule exI [of _ "v - w - k"], simp add: Let_def put_mapped algebra_simps)
qed (use assms in auto)

lemma mp_neg_spec:
  assumes "mapped m op2 n" "mapped m res n" "operand res op2 n" "unat carry \<le> 1"
  shows "\<exists>m' k. mp_neg m res op2 n carry = Some (m', k) \<and> only res n m m' \<and> unat k \<le> 1
    \<and> mval m' res n + mval m op2 n + unat carry = BASE ^ n * unat k"
  unfolding mp_neg_def
proof (rule limb_loop [where R = "\<lambda>i X k. unat k \<le> 1 \<and> X + mval m op2 i + unat carry = BASE ^ i * unat k"])
  fix i m' and k :: limb
  let ?X = "mval m' res i"
  assume i: "i < n" and only: "only res i m m'" and r: "m' (res + i) \<noteq> None"
    and R: "unat k \<le> 1 \<and> ?X + mval m op2 i + unat carry = BASE ^ i * unat k"
  from operand_at [OF assms(1,3) i only] obtain w where w: "m' (op2 + i) = Some w" "m (op2 + i) = Some w" .
  define a k' where "a = 0 - w - k" and "k' = c_bool (0 - w < 0 - w - k) OR c_bool (0 < 0 - w)"
  have "unat a + unat w + unat k = BASE * unat k'"
    using sub_limb [of k 0 w] R by (simp add: a_def k'_def)
  then have "(unat a + unat w + unat k) * BASE ^ i = BASE * unat k' * BASE ^ i" by simp
  then have "?X + unat a * BASE ^ i + mval m op2 (Suc i) + unat carry = BASE ^ Suc i * unat k'"
    using R w by (simp add: algebra_simps)
  then show "\<exists>a (k' :: limb). (case (m', k) of (m, k) \<Rightarrow> do {
         let v = 0;
         w \<leftarrow> m (op2 + i);
         let a = v - w; let k1 = c_bool (a > v); let v = a - k; let k = c_bool (v > a) OR k1;
         m \<leftarrow> put m (res + i) v;
         Some (m, k) }) = Some (m'(res + i \<mapsto> a), k')
      \<and> unat k' \<le> 1 \<and> ?X + unat a * BASE ^ i + mval m op2 (Suc i) + unat carry = BASE ^ Suc i * unat k'"
    using w r by - (rule exI [of _ a], simp add: Let_def put_mapped a_def k'_def)
qed (use assms in auto)

lemma mp_add_ui_loop_spec:
  assumes "mapped m0 tab n"
  shows "i \<le> n \<Longrightarrow> only tab i m0 m \<Longrightarrow> mval m tab i + BASE ^ i * unat k = mval m0 tab i + unat b \<Longrightarrow>
    \<exists>m' k'. mp_add_ui_loop tab i n m k = Some (m', k') \<and> only tab n m0 m'
      \<and> mval m' tab n + BASE ^ n * unat k' = mval m0 tab n + unat b"
proof (induction "n - i" arbitrary: i m k)
  case 0
  then show ?case by (simp add: mp_add_ui_loop.simps)
next
  case (Suc d)
  then have i: "i < n" by simp
  show ?case
  proof (cases "k = 0")
    case True
    have same: "m (tab + j) = m0 (tab + j)" if "i \<le> j" for j
      using only_at [OF Suc.prems(2)] that by simp
    have "mval m (tab + i) (n - i) = mval m0 (tab + i) (n - i)"
      by (rule mval_cong) (simp add: same add.assoc)
    then have "mval m tab n = mval m0 tab n + unat b"
      using Suc.prems(3) True i mval_split [of m tab i "n - i"] mval_split [of m0 tab i "n - i"] by simp
    moreover have "only tab n m0 m" using Suc.prems(2) i by (auto simp: only_def)
    ultimately show ?thesis using i True by (subst mp_add_ui_loop.simps) simp
  next
    case False
    obtain v where v: "m (tab + i) = Some v" "m0 (tab + i) = Some v"
      using mappedD [OF assms i] only_at [OF Suc.prems(2), of "tab + i"] by auto
    let ?a = "v + k" and ?k = "c_bool (v + k < k)"
    have eq: "unat ?a + BASE * unat ?k = unat v + unat k"
      using limb_less [of v] limb_less [of k] by (auto simp: word_less_nat_alt unat_plus_limb)
    have "mval (m(tab + i \<mapsto> ?a)) tab (Suc i) + BASE ^ Suc i * unat ?k = mval m0 tab (Suc i) + unat b"
      using step_value [OF Suc.prems(3), of "unat ?a" "unat ?k" "unat v"] eq v by (simp add: algebra_simps)
    moreover have "only tab (Suc i) m0 (m(tab + i \<mapsto> ?a))"
      using only_put [OF Suc.prems(2)] v by simp
    ultimately have "\<exists>m' k'. mp_add_ui_loop tab (Suc i) n (m(tab + i \<mapsto> ?a)) ?k = Some (m', k') \<and> only tab n m0 m'
      \<and> mval m' tab n + BASE ^ n * unat k' = mval m0 tab n + unat b"
      using Suc.hyps(1) [of "Suc i"] Suc.hyps(2) i by simp
    then show ?thesis
      using i False v by (subst mp_add_ui_loop.simps) (simp add: put_mapped Let_def)
  qed
qed

lemma mp_add_ui_spec:
  "mapped m tab n \<Longrightarrow> \<exists>m' k. mp_add_ui m tab b n = Some (m', k) \<and> only tab n m m'
     \<and> mval m' tab n + BASE ^ n * unat k = mval m tab n + unat b"
  unfolding mp_add_ui_def using mp_add_ui_loop_spec [of m tab n 0 m b b] by simp

lemma mp_sub_ui_loop_spec:
  assumes "mapped m0 tab n"
  shows "i < n \<Longrightarrow> only tab i m0 m \<Longrightarrow> mval m tab i + unat b = mval m0 tab i + BASE ^ i * unat k \<Longrightarrow>
    \<exists>m' k'. mp_sub_ui_loop tab i n m k = Some (m', k') \<and> only tab n m0 m'
      \<and> mval m' tab n + unat b = mval m0 tab n + BASE ^ n * unat k'"
proof (induction "n - i" arbitrary: i m k)
  case (Suc d)
  note i = Suc.prems(1)
  obtain v where v: "m (tab + i) = Some v" "m0 (tab + i) = Some v"
    using mappedD [OF assms i] only_at [OF Suc.prems(2), of "tab + i"] by auto
  define a where "a = v - k"
  define k1 where "k1 = c_bool (a > v)"
  define m1 where "m1 = m(tab + i \<mapsto> a)"
  have eq: "unat a + unat k = unat v + BASE * unat k1"
    using limb_less [of v] limb_less [of k] by (auto simp: a_def k1_def word_less_nat_alt unat_minus_limb)
  have "(unat a + unat k) * BASE ^ i = (unat v + BASE * unat k1) * BASE ^ i" by (simp only: eq)
  then have val: "mval m1 tab (Suc i) + unat b = mval m0 tab (Suc i) + BASE ^ Suc i * unat k1"
    using Suc.prems(3) v by (simp add: m1_def algebra_simps)
  have only: "only tab (Suc i) m0 m1"
    using only_put [OF Suc.prems(2)] v by (simp add: m1_def)
  have step: "mp_sub_ui_loop tab i n m k = (if k1 = 0 then Some (m1, k1) else mp_sub_ui_loop tab (Suc i) n m1 k1)"
    using i v by (subst mp_sub_ui_loop.simps) (simp add: put_mapped Let_def a_def k1_def m1_def)
  show ?case
  proof (cases "k1 \<noteq> 0 \<and> Suc i < n")
    case True
    with Suc.hyps(1) [of "Suc i" m1 k1] Suc.hyps(2) val only show ?thesis by (simp add: step)
  next
    case False
    have same: "m1 (tab + j) = m0 (tab + j)" if "Suc i \<le> j" for j
      using only_at [OF only] that by simp
    have "mval m1 (tab + Suc i) (n - Suc i) = mval m0 (tab + Suc i) (n - Suc i)"
      by (rule mval_cong) (simp only: add.assoc same le_add1)
    then have "mval m1 tab n + unat b = mval m0 tab n + BASE ^ Suc i * unat k1"
      using val i mval_split [of m1 tab "Suc i" "n - Suc i"] mval_split [of m0 tab "Suc i" "n - Suc i"] by simp
    moreover have "BASE ^ Suc i * unat k1 = BASE ^ n * unat k1" using False i by (cases "n = Suc i") auto
    moreover have "only tab n m0 m1" using only i by (auto simp: only_def)
    moreover have "mp_sub_ui_loop tab i n m k = Some (m1, k1)"
      unfolding step using False i by (subst mp_sub_ui_loop.simps) auto
    ultimately show ?thesis by simp
  qed
qed simp

lemma mp_sub_ui_spec:
  "mapped m tab n \<Longrightarrow> 0 < n \<Longrightarrow> \<exists>m' k. mp_sub_ui m tab b n = Some (m', k) \<and> only tab n m m'
     \<and> mval m' tab n + unat b = mval m tab n + BASE ^ n * unat k"
  unfolding mp_sub_ui_def using mp_sub_ui_loop_spec [of m tab n 0 m b b] by simp


section \<open>Double limbs\<close>

lemma dlimb_B: "2 ^ 128 = BASE * BASE" "2 ^ 64 = BASE" "340282366920938463463374607431768211456 = BASE * BASE"
  by (simp_all add: BASE_def)

lemma dlimb_less: "unat t < BASE * BASE" for t :: dlimb
proof -
  have "unat t < 2 ^ LENGTH(128)" by (rule unsigned_less)
  then show ?thesis by (simp add: BASE_def)
qed

lemma unat_wide [simp]: "unat (wide x) = unat x"
proof -
  have "unat x < 2 ^ 128" using limb_less [of x] by (simp add: BASE_def)
  then show ?thesis by (simp add: unsigned_ucast_eq take_bit_nat_eq_self_iff)
qed

lemma dlimb_low: "unat (ucast t :: limb) = unat t mod BASE" for t :: dlimb
  by (simp add: unsigned_ucast_eq take_bit_eq_mod BASE_def)

lemma dlimb_high: "unat (ucast (drop_bit 64 t) :: limb) = unat t div BASE" for t :: dlimb
proof -
  have "unat t div BASE < BASE" using dlimb_less [of t] by (rule less_mult_imp_div_less)
  then show ?thesis by (simp add: unsigned_ucast_eq take_bit_eq_mod unat_drop_bit BASE_def)
qed

lemma limb_mult_le: "unat x * unat b + unat l + unat y < BASE * BASE" for x b l y :: limb
proof -
  have "unat x \<le> BASE - 1" "unat b \<le> BASE - 1" using limb_less [of x] limb_less [of b] by linarith+
  then have "unat x * unat b \<le> (BASE - 1) * (BASE - 1)" by (rule mult_le_mono)
  moreover have "(BASE - 1) * (BASE - 1) + 2 * (BASE - 1) < BASE * BASE" by (simp add: BASE_def)
  ultimately show ?thesis using limb_less [of l] limb_less [of y] by linarith
qed

lemma unat_mult_wide: "unat (wide x * wide b) = unat x * unat b"
  using limb_mult_le [of x b 0 0] by (simp add: unat_word_ariths dlimb_B [symmetric])

lemma unat_mul_add: "unat (wide x * wide b + wide l + wide y) = unat x * unat b + unat l + unat y"
proof -
  have "unat (wide x * wide b + wide l) = unat x * unat b + unat l"
    using limb_mult_le [of x b l 0] by (subst unat_add_no_wrap) (simp_all add: unat_mult_wide dlimb_B [symmetric])
  then show ?thesis
    using limb_mult_le [of x b l y] by (subst unat_add_no_wrap) (simp_all add: dlimb_B [symmetric])
qed

lemma mul_add_limb:
  "unat (ucast (wide x * wide b + wide l + wide y) :: limb)
     + BASE * unat (ucast (drop_bit 64 (wide x * wide b + wide l + wide y)) :: limb) = unat x * unat b + unat l + unat y"
  by (subst dlimb_high, subst dlimb_low) (simp add: unat_mul_add)

lemma mul_sub_limb:
  fixes x b l y :: limb
  defines "t \<equiv> wide y - wide x * wide b - wide l"
  shows "unat (ucast t :: limb) + unat x * unat b + unat l = unat y + BASE * unat (ucast (- drop_bit 64 t) :: limb)"
proof -
  let ?p = "unat x * unat b + unat l"
  have p: "?p + BASE \<le> BASE * BASE"
  proof -
    have "unat x \<le> BASE - 1" "unat b \<le> BASE - 1" using limb_less [of x] limb_less [of b] by linarith+
    then have "unat x * unat b \<le> (BASE - 1) * (BASE - 1)" by (rule mult_le_mono)
    moreover have "(BASE - 1) * (BASE - 1) + (BASE - 1) + BASE \<le> BASE * BASE" by (simp add: BASE_def)
    ultimately show ?thesis using limb_less [of l] by linarith
  qed
  have t: "unat t = (if ?p \<le> unat y then unat y - ?p else unat y + BASE * BASE - ?p)"
  proof -
    have e: "t = wide y - (wide x * wide b + wide l)" by (simp add: t_def)
    have "unat (wide x * wide b + wide l) = ?p" using unat_mul_add [of x b l 0] by simp
    then show ?thesis
      unfolding e by (simp add: unat_sub_if_size word_size dlimb_B [symmetric])
  qed
  show ?thesis
  proof (cases "?p \<le> unat y")
    case True
    then have "unat t < BASE" using t limb_less [of y] by simp
    then have "drop_bit 64 t = 0"
      by (simp add: word_unat_eq_iff unat_drop_bit BASE_def)
    then show ?thesis using True t \<open>unat t < BASE\<close> by (simp add: dlimb_low)
  next
    case False
    let ?h = "unat t div BASE"
    have ge: "BASE \<le> unat t" using False t p by simp
    note lt = dlimb_less [of t]
    have h: "0 < ?h" "?h < BASE" using ge lt by (simp_all add: div_greater_zero_iff BASE_def less_mult_imp_div_less)
    have d: "unat (drop_bit 64 t) = ?h" by (simp add: unat_drop_bit BASE_def)
    have "unat (- drop_bit 64 t) = BASE * BASE - ?h"
      using h d unat_sub_if_size [of 0 "drop_bit 64 t"] by (simp add: word_size dlimb_B)
    moreover have "(BASE * BASE - ?h) mod BASE = BASE - ?h"
    proof -
      have "BASE * BASE - ?h = (BASE - ?h) + (BASE - 1) * BASE" using h by (simp add: BASE_def algebra_simps)
      then have "(BASE * BASE - ?h) mod BASE = (BASE - ?h) mod BASE" by (simp only: mod_mult_self1)
      then show ?thesis using h by simp
    qed
    ultimately have n: "unat (ucast (- drop_bit 64 t) :: limb) = BASE - ?h" by (simp add: dlimb_low)
    have "unat t mod BASE + BASE * ?h = unat t" by simp
    moreover have "BASE * (BASE - ?h) + BASE * ?h = BASE * BASE" using h by (simp flip: distrib_left)
    moreover have "unat t + ?p = unat y + BASE * BASE" using False t p by simp
    ultimately show ?thesis unfolding n unfolding dlimb_low by linarith
  qed
qed

lemma mp_mul1_spec:
  assumes "mapped m taba n" "mapped m tabr n" "operand tabr taba n"
  shows "\<exists>m' k. mp_mul1 m tabr taba n b l = Some (m', k) \<and> only tabr n m m'
    \<and> mval m' tabr n + BASE ^ n * unat k = mval m taba n * unat b + unat l"
  unfolding mp_mul1_def
proof (rule limb_loop [where R = "\<lambda>i X k. X + BASE ^ i * unat k = mval m taba i * unat b + unat l"])
  fix i m' and k :: limb
  let ?X = "mval m' tabr i"
  assume i: "i < n" and only: "only tabr i m m'" and r: "m' (tabr + i) \<noteq> None"
    and R: "?X + BASE ^ i * unat k = mval m taba i * unat b + unat l"
  from operand_at [OF assms(1,3) i only] obtain x where x: "m' (taba + i) = Some x" "m (taba + i) = Some x" .
  let ?t = "wide x * wide b + wide k"
  have "?X + unat (ucast ?t :: limb) * BASE ^ i + BASE ^ Suc i * unat (ucast (drop_bit 64 ?t) :: limb)
      = (mval m taba i * unat b + unat l) + (unat x * unat b) * BASE ^ i"
    by (rule step_value [OF R]) (use mul_add_limb [of x b k 0] in simp)
  then show "\<exists>a (k' :: limb). (case (m', k) of (m, l) \<Rightarrow> do {
         x \<leftarrow> m (taba + i);
         let t = wide x * wide b + wide l;
         m \<leftarrow> put m (tabr + i) (ucast t);
         Some (m, ucast (drop_bit 64 t)) }) = Some (m'(tabr + i \<mapsto> a), k')
      \<and> ?X + unat a * BASE ^ i + BASE ^ Suc i * unat k' = mval m taba (Suc i) * unat b + unat l"
    using x r by (simp add: Let_def put_mapped algebra_simps)
qed (use assms in auto)

lemma mp_add_mul1_spec:
  assumes "mapped m taba n" "mapped m tabr n" "operand tabr taba n"
  shows "\<exists>m' k. mp_add_mul1 m tabr taba n b = Some (m', k) \<and> only tabr n m m'
    \<and> mval m' tabr n + BASE ^ n * unat k = mval m tabr n + mval m taba n * unat b"
  unfolding mp_add_mul1_def
proof (rule limb_loop [where R = "\<lambda>i X k. X + BASE ^ i * unat k = mval m tabr i + mval m taba i * unat b"])
  fix i m' and k :: limb
  let ?X = "mval m' tabr i"
  assume i: "i < n" and only: "only tabr i m m'" and r: "m' (tabr + i) \<noteq> None"
    and R: "?X + BASE ^ i * unat k = mval m tabr i + mval m taba i * unat b"
  from operand_at [OF assms(1,3) i only] obtain x where x: "m' (taba + i) = Some x" "m (taba + i) = Some x" .
  have "operand tabr tabr n" by (simp add: operand_def)
  from operand_at [OF assms(2) this i only] obtain y where y: "m' (tabr + i) = Some y" "m (tabr + i) = Some y" .
  let ?t = "wide x * wide b + wide k + wide y"
  have "?X + unat (ucast ?t :: limb) * BASE ^ i + BASE ^ Suc i * unat (ucast (drop_bit 64 ?t) :: limb)
      = (mval m tabr i + mval m taba i * unat b) + (unat x * unat b + unat y) * BASE ^ i"
    by (rule step_value [OF R]) (use mul_add_limb [of x b k y] in simp)
  then show "\<exists>a (k' :: limb). (case (m', k) of (m, l) \<Rightarrow> do {
         x \<leftarrow> m (taba + i);
         y \<leftarrow> m (tabr + i);
         let t = wide x * wide b + wide l + wide y;
         m \<leftarrow> put m (tabr + i) (ucast t);
         Some (m, ucast (drop_bit 64 t)) }) = Some (m'(tabr + i \<mapsto> a), k')
      \<and> ?X + unat a * BASE ^ i + BASE ^ Suc i * unat k' = mval m tabr (Suc i) + mval m taba (Suc i) * unat b"
    using x y r by (simp add: Let_def put_mapped algebra_simps)
qed (use assms in auto)

lemma mp_sub_mul1_spec:
  assumes "mapped m taba n" "mapped m tabr n" "operand tabr taba n"
  shows "\<exists>m' k. mp_sub_mul1 m tabr taba n b = Some (m', k) \<and> only tabr n m m'
    \<and> mval m' tabr n + mval m taba n * unat b = mval m tabr n + BASE ^ n * unat k"
  unfolding mp_sub_mul1_def
proof (rule limb_loop [where R = "\<lambda>i X k. X + mval m taba i * unat b = mval m tabr i + BASE ^ i * unat k"])
  fix i m' and k :: limb
  let ?X = "mval m' tabr i"
  assume i: "i < n" and only: "only tabr i m m'" and r: "m' (tabr + i) \<noteq> None"
    and R: "?X + mval m taba i * unat b = mval m tabr i + BASE ^ i * unat k"
  from operand_at [OF assms(1,3) i only] obtain x where x: "m' (taba + i) = Some x" "m (taba + i) = Some x" .
  have "operand tabr tabr n" by (simp add: operand_def)
  from operand_at [OF assms(2) this i only] obtain y where y: "m' (tabr + i) = Some y" "m (tabr + i) = Some y" .
  define t where "t = wide y - wide x * wide b - wide k"
  define a k' where "a = (ucast t :: limb)" and "k' = (ucast (- drop_bit 64 t) :: limb)"
  have "(unat a + unat x * unat b + unat k) * BASE ^ i = (unat y + BASE * unat k') * BASE ^ i"
    using mul_sub_limb [of y x b k] by (simp add: a_def k'_def t_def)
  then have "?X + unat a * BASE ^ i + mval m taba (Suc i) * unat b = mval m tabr (Suc i) + BASE ^ Suc i * unat k'"
    using R x y by (simp add: algebra_simps)
  then show "\<exists>a (k' :: limb). (case (m', k) of (m, l) \<Rightarrow> do {
         y \<leftarrow> m (tabr + i);
         x \<leftarrow> m (taba + i);
         let t = wide y - wide x * wide b - wide l;
         m \<leftarrow> put m (tabr + i) (ucast t);
         Some (m, ucast (- drop_bit 64 t)) }) = Some (m'(tabr + i \<mapsto> a), k')
      \<and> ?X + unat a * BASE ^ i + mval m taba (Suc i) * unat b = mval m tabr (Suc i) + BASE ^ Suc i * unat k'"
    using x y r by - (rule exI [of _ a], simp add: Let_def put_mapped a_def k'_def t_def)
qed (use assms in auto)


lemma mval_front: "mval m p (Suc n) = unat (the (m p)) + BASE * mval m (Suc p) n"
  using mval_split [of m p 1 n] by simp

lemma cells_apart_operand: "cells_apart p n q k \<Longrightarrow> p \<le> r \<Longrightarrow> r + l \<le> p + n \<Longrightarrow> l \<le> k \<Longrightarrow> operand r q l"
  by (auto simp: cells_apart_def operand_def)

lemma cells_apart_within: "cells_apart p n q k \<Longrightarrow> p \<le> p' \<Longrightarrow> p' + n' \<le> p + n \<Longrightarrow> q \<le> q' \<Longrightarrow> q' + k' \<le> q + k \<Longrightarrow> cells_apart p' n' q' k'"
  by (auto simp: cells_apart_def)

lemma mp_mul_basecase_spec:
  assumes "mapped m op1 n" "mapped m op2 k" "mapped m result (n + k)" "0 < k"
    and "cells_apart result (n + k) op1 n" "cells_apart result (n + k) op2 k"
  shows "\<exists>m'. mp_mul_basecase m result op1 n op2 k = Some m' \<and> only result (n + k) m m'
    \<and> mval m' result (n + k) = mval m op1 n * mval m op2 k"
proof -
  define P where "P = (\<lambda>i m'. only result (n + i) m m' \<and> mval m' result (n + i) = mval m op1 n * mval m op2 i)"
  obtain b where b: "m op2 = Some b" using mappedD [OF assms(2,4)] by auto
  have cell: "m (result + j) \<noteq> None" if "j < n + k" for j using assms(3) that by (simp add: mapped_def)
  have "operand result op1 n" using assms(5) by (rule cells_apart_operand) auto
  from mp_mul1_spec [OF assms(1) mapped_sub [OF assms(3)] this]
  obtain m1 r where 1: "mp_mul1 m result op1 n b 0 = Some (m1, r)" "only result n m m1"
    "mval m1 result n + BASE ^ n * unat r = mval m op1 n * unat b" by fastforce
  let ?m = "m1(result + n \<mapsto> r)"
  have start: "P 1 ?m"
    using 1 b only_put [OF 1(2), of "result + n" "n + 1"] cell [of n] assms(4) by (simp add: P_def algebra_simps)
  have "\<exists>m'. for_up (\<lambda>i m. do {
         b \<leftarrow> m (op2 + i);
         (m, r) \<leftarrow> mp_add_mul1 m (result + i) op1 n b;
         put m (result + i + n) r }) 1 k ?m = Some m' \<and> P k m'"
  proof (rule for_up_inv [where P = P and a = 1])
    fix i m'
    assume i: "1 \<le> i" "i < k" and "P i m'"
    then have only: "only result (n + i) m m'" and val: "mval m' result (n + i) = mval m op1 n * mval m op2 i"
      by (auto simp: P_def)
    obtain b where b: "m (op2 + i) = Some b" using mappedD [OF assms(2) i(2)] by auto
    have b': "m' (op2 + i) = Some b" using only_at [OF only, of "op2 + i"] assms(6) i b by (auto simp: cells_apart_def)
    have op1: "mval m' op1 n = mval m op1 n" "mapped m' op1 n"
      using only_mval [OF only cells_apart_within [OF assms(5)]] only_mapped [OF only] assms(1) i by auto
    have res: "mapped m' (result + i) n"
      using only_mapped [OF only] mapped_sub [OF assms(3), of "result + i" n] i by simp
    have "operand (result + i) op1 n" using assms(5) by (rule cells_apart_operand) (use i in auto)
    from mp_add_mul1_spec [OF op1(2) res this, of b]
    obtain m2 r where 2: "mp_add_mul1 m' (result + i) op1 n b = Some (m2, r)" "only (result + i) n m' m2"
      "mval m2 (result + i) n + BASE ^ n * unat r = mval m' (result + i) n + mval m op1 n * unat b"
      unfolding op1(1) by blast
    let ?m2 = "m2(result + i + n \<mapsto> r)"
    have "m2 (result + i + n) \<noteq> None"
      using cell [of "i + n"] i only_at [OF 2(2), of "result + i + n"] only_at [OF only, of "result + i + n"]
      by (simp add: add.assoc)
    moreover have "only result (n + Suc i) m ?m2"
      using only_put [OF only_trans [OF only 2(2), of result "n + Suc i"], of "result + i + n"] cell [of "i + n"] i
      by (simp add: add.assoc)
    moreover have "mval ?m2 result (n + Suc i) = mval m op1 n * mval m op2 (Suc i)"
    proof -
      have "mval ?m2 result (Suc (i + n)) = mval m2 result (i + n) + unat r * BASE ^ (i + n)"
        by (simp add: add.assoc)
      then have "mval ?m2 result (n + Suc i) = mval m2 result (i + n) + unat r * BASE ^ (i + n)"
        by (simp only: add_Suc_right add.commute [of n i])
      also have "\<dots> = mval m2 result i + BASE ^ i * (mval m2 (result + i) n + BASE ^ n * unat r)"
        unfolding mval_split by (simp add: power_add algebra_simps)
      also have "mval m2 result i = mval m' result i"
        by (rule only_mval [OF 2(2)]) (simp add: cells_apart_def)
      also have "mval m' result i + BASE ^ i * (mval m2 (result + i) n + BASE ^ n * unat r)
          = mval m' result (i + n) + BASE ^ i * (mval m op1 n * unat b)"
        unfolding 2(3) mval_split by (simp add: algebra_simps)
      finally have "mval ?m2 result (n + Suc i) = mval m' result (i + n) + BASE ^ i * (mval m op1 n * unat b)" .
      moreover have "mval m' result (i + n) = mval m op1 n * mval m op2 i" using val by (simp only: add.commute)
      moreover have "mval m op2 (Suc i) = mval m op2 i + unat b * BASE ^ i" using b by simp
      ultimately show ?thesis by (simp only:) (simp add: algebra_simps)
    qed
    ultimately show "\<exists>s'. do {
         b \<leftarrow> m' (op2 + i);
         (m, r) \<leftarrow> mp_add_mul1 m' (result + i) op1 n b;
         put m (result + i + n) r } = Some s' \<and> P (Suc i) s'"
      using b' 2(1) by (simp add: P_def put_mapped)
  qed (use start assms(4) in auto)
  moreover have "m1 (result + n) \<noteq> None"
    using cell [of n] assms(4) only_at [OF 1(2), of "result + n"] by simp
  ultimately show ?thesis
    using 1(1) b by (auto simp: mp_mul_basecase_def put_mapped P_def)
qed

lemma shift_limb:
  fixes a l :: limb
  assumes "1 \<le> s" "s < 64"
  shows "unat (drop_bit s a OR push_bit (64 - s) l) * 2 ^ s + unat a mod 2 ^ s = unat a + (unat l mod 2 ^ s) * BASE"
proof -
  have BASE: "BASE = 2 ^ (64 - s) * 2 ^ s" using assms by (simp add: BASE_def flip: power_add)
  have push: "unat (push_bit (64 - s) l) = (unat l mod 2 ^ s) * 2 ^ (64 - s)"
    unfolding unsigned_push_bit_eq mult_mod_left using BASE
    by (simp add: push_bit_eq_mult take_bit_eq_mod BASE_def mult.commute)
  have drop: "unat (drop_bit s a) = unat a div 2 ^ s" by (simp add: unat_drop_bit)
  have "unat (drop_bit s a) < 2 ^ (64 - s)"
    using limb_less [of a] unfolding drop BASE by (rule less_mult_imp_div_less)
  then have "unat (drop_bit s a OR push_bit (64 - s) l) = unat a div 2 ^ s + (unat l mod 2 ^ s) * 2 ^ (64 - s)"
    using push drop by (subst unat_or_disj [of _ "64 - s"]) auto
  then show ?thesis by (simp add: BASE algebra_simps)
qed

lemma mp_shr_spec:
  assumes "mapped m tab n" "mapped m tab_r n" "tab \<le> tab_r \<or> tab_r + n \<le> tab" "1 \<le> s" "s < 64" "unat high < 2 ^ s"
  shows "\<exists>m' r. mp_shr m tab_r tab n s high = Some (m', r) \<and> only tab_r n m m'
    \<and> unat r < 2 ^ s \<and> mval m' tab_r n * 2 ^ s + unat r = mval m tab n + unat high * BASE ^ n"
proof -
  define P where "P = (\<lambda>i (m', l :: limb). only (tab_r + i) (n - i) m m'
     \<and> mval m' (tab_r + i) (n - i) * 2 ^ s + unat l mod 2 ^ s = mval m (tab + i) (n - i) + unat high * BASE ^ (n - i))"
  have "\<exists>s'. for_down (\<lambda>i (m, l). do {
      a \<leftarrow> m (tab + i);
      m \<leftarrow> put m (tab_r + i) (drop_bit s a OR push_bit (64 - s) l);
      Some (m, a) }) n (m, high) = Some s' \<and> P 0 s'"
  proof (rule for_down_inv [where P = P and n = n])
    fix i st assume i: "i < n" and "P (Suc i) st"
    then obtain m' l where st: "st = (m', l)" "only (tab_r + Suc i) (n - Suc i) m m'"
      "mval m' (tab_r + Suc i) (n - Suc i) * 2 ^ s + unat l mod 2 ^ s
         = mval m (tab + Suc i) (n - Suc i) + unat high * BASE ^ (n - Suc i)"
      by (cases st) (auto simp: P_def)
    have n: "n - i = Suc (n - Suc i)" using i by simp
    obtain a where a: "m (tab + i) = Some a" using mappedD [OF assms(1) i] by auto
    have a': "m' (tab + i) = Some a" using only_at [OF st(2), of "tab + i"] assms(3) a i by auto
    have r: "m (tab_r + i) \<noteq> None" "m' (tab_r + i) \<noteq> None"
      using assms(2) i only_mapped [OF st(2), of tab_r n] by (auto simp: mapped_def)
    define v where "v = drop_bit s a OR push_bit (64 - s) l"
    have "only (tab_r + i) (n - i) m m'" using st(2) i by (auto simp: only_def)
    then have "only (tab_r + i) (n - i) m (m'(tab_r + i \<mapsto> v))"
      using r i by (intro only_put) auto
    moreover have "mval (m'(tab_r + i \<mapsto> v)) (tab_r + i) (n - i) * 2 ^ s + unat a mod 2 ^ s
        = mval m (tab + i) (n - i) + unat high * BASE ^ (n - i)"
    proof -
      have "mval (m'(tab_r + i \<mapsto> v)) (tab_r + i) (n - i) * 2 ^ s + unat a mod 2 ^ s
          = unat v * 2 ^ s + unat a mod 2 ^ s + BASE * (mval m' (tab_r + Suc i) (n - Suc i) * 2 ^ s)"
        unfolding n mval_front by (simp add: algebra_simps)
      also have "\<dots> = unat a + BASE * (mval m' (tab_r + Suc i) (n - Suc i) * 2 ^ s + unat l mod 2 ^ s)"
        unfolding v_def shift_limb [OF assms(4,5)] by (simp add: algebra_simps)
      finally show ?thesis unfolding st(3) unfolding n mval_front a option.sel by (simp add: algebra_simps)
    qed
    ultimately show "\<exists>s'. (case st of (m, l) \<Rightarrow> do {
        a \<leftarrow> m (tab + i);
        m \<leftarrow> put m (tab_r + i) (drop_bit s a OR push_bit (64 - s) l);
        Some (m, a) }) = Some s' \<and> P i s'"
      using a' r by (simp add: st(1) P_def put_mapped v_def)
  qed (use assms(6) in \<open>auto simp: P_def\<close>)
  then obtain m' l where "for_down (\<lambda>i (m, l). do {
      a \<leftarrow> m (tab + i);
      m \<leftarrow> put m (tab_r + i) (drop_bit s a OR push_bit (64 - s) l);
      Some (m, a) }) n (m, high) = Some (m', l)" "P 0 (m', l)" by auto
  moreover have "unat (l AND (push_bit s 1 - 1)) = unat l mod 2 ^ s"
    using unat_and_mask [of l s] by (simp add: mask_eq_decr_exp push_bit_of_1)
  ultimately show ?thesis
    using assms(4,5) by (auto simp: mp_shr_def P_def)
qed

lemma mp_cmp_spec:
  assumes "mapped m taba n" "mapped m tabb n"
  shows "mp_cmp m taba tabb n = Some (sgn (int (mval m taba n) - int (mval m tabb n)))"
  using assms
proof (induction n)
  case (Suc n)
  obtain a b where ab: "m (taba + n) = Some a" "m (tabb + n) = Some b"
    using mappedD [OF Suc.prems(1)] mappedD [OF Suc.prems(2)] by blast
  have less: "mval m p n + unat x * BASE ^ n < mval m q n + unat y * BASE ^ n" if "x < y" for p q and x y :: limb
  proof -
    have "unat x + 1 \<le> unat y" using that by (simp add: word_less_nat_alt)
    then have "(unat x + 1) * BASE ^ n \<le> unat y * BASE ^ n" by (rule mult_le_mono1)
    then show ?thesis using mval_less [of m p n] by simp
  qed
  have "mapped m taba n" "mapped m tabb n" using Suc.prems by (auto simp: mapped_def)
  note IH = Suc.IH [OF this]
  consider "a < b" | "b < a" | "a = b" by (rule linorder_cases)
  then show ?case
  proof cases
    case 1
    then have "mval m taba (Suc n) < mval m tabb (Suc n)" using less [OF 1, of taba tabb] ab by simp
    then show ?thesis using 1 ab by (auto simp del: mval.simps)
  next
    case 2
    then have "mval m tabb (Suc n) < mval m taba (Suc n)" using less [OF 2, of tabb taba] ab by simp
    then show ?thesis using 2 ab by (auto simp del: mval.simps)
  next
    case 3
    then show ?thesis using ab IH by simp
  qed
qed simp

lemma mp_scan_nz_spec:
  "mapped m tab n \<Longrightarrow> mp_scan_nz m tab n = Some (if mval m tab n = 0 then 0 else 1)"
proof (induction n arbitrary: tab)
  case (Suc n)
  obtain v where v: "m tab = Some v" using mappedD [OF Suc.prems, of 0] by auto
  have "mapped m (Suc tab) n" using Suc.prems by (rule mapped_sub) auto
  from Suc.IH [OF this] show ?case
    by (auto simp: v mval_front BASE_def unat_eq_0 simp del: mval.simps)
qed simp


section \<open>Properties\<close>

text \<open>
  C39: \<^verbatim>\<open>mp_add\<close>, \<^verbatim>\<open>mp_sub\<close> and \<^verbatim>\<open>mp_neg\<close> compute exactly: the result limbs and the returned carry or
  borrow are the sum, the difference or the negation of the operands as numbers in base \<open>2 ^ 64\<close>.
  No access leaves the arrays, only the result is written, and the result may be the operand itself
  or start below it.
\<close>

theorem limb_addition_exact:
  assumes "mapped m op1 n" "mapped m op2 n" "mapped m res n" "operand res op1 n" "operand res op2 n"
    and "unat carry \<le> 1"
  shows "(\<exists>m' k. mp_add m res op1 op2 n carry = Some (m', k) \<and> only res n m m' \<and> unat k \<le> 1
        \<and> mval m' res n + BASE ^ n * unat k = mval m op1 n + mval m op2 n + unat carry)
    \<and> (\<exists>m' k. mp_sub m res op1 op2 n carry = Some (m', k) \<and> only res n m m' \<and> unat k \<le> 1
        \<and> mval m' res n + mval m op2 n + unat carry = mval m op1 n + BASE ^ n * unat k)
    \<and> (\<exists>m' k. mp_neg m res op2 n carry = Some (m', k) \<and> only res n m m' \<and> unat k \<le> 1
        \<and> mval m' res n + mval m op2 n + unat carry = BASE ^ n * unat k)"
  using mp_add_spec [OF assms] mp_sub_spec [OF assms] mp_neg_spec [OF assms(2,3,5,6)] by blast

definition demo_limbs :: limb_mem where
  "demo_limbs = [0 \<mapsto> 0xFFFFFFFFFFFFFFFF, 1 \<mapsto> 0xFFFFFFFFFFFFFFFF, 2 \<mapsto> 7, 3 \<mapsto> 0x8000000000000000, 4 \<mapsto> 0, 5 \<mapsto> 0, 6 \<mapsto> 0, 7 \<mapsto> 0, 8 \<mapsto> 0]"

lemma demo_mapped:
  "mapped demo_limbs 0 2" "mapped demo_limbs 2 2" "mapped demo_limbs 4 4" "mapped demo_limbs 0 4" "mapped demo_limbs 4 3"
  by (simp_all add: mapped_def demo_limbs_def numeral_eq_Suc All_less_Suc)

lemma mval_two: "mval m p 2 = unat (the (m p)) + unat (the (m (p + 1))) * BASE"
  by (simp add: numeral_2_eq_2)

lemma demo_mval:
  "mval demo_limbs 0 2 = 2 ^ 128 - 1" "mval demo_limbs 2 2 = 2 ^ 127 + 7"
  by (simp_all add: mval_two demo_limbs_def BASE_def)

theorem limb_addition_exact_witness:
  "\<exists>m' k. mp_add demo_limbs 0 0 2 2 1 = Some (m', k) \<and> mval m' 0 2 + BASE ^ 2 * unat k = 2 ^ 128 + 2 ^ 127 + 7"
proof -
  have "operand 0 0 2" "operand 0 2 2" "unat (1 :: limb) \<le> 1" by (simp_all add: operand_def)
  from limb_addition_exact [OF demo_mapped(1,2,1) this] show ?thesis by (auto simp: demo_mval)
qed

text \<open>
  C16: \<^verbatim>\<open>mp_mul_basecase\<close> stores the exact product. The result has as many limbs as the operands
  together, nothing else is written, and no access leaves the arrays.
\<close>

theorem mp_mul_basecase_product:
  assumes "mapped m op1 n" "mapped m op2 k" "mapped m result (n + k)" "0 < k"
    and "cells_apart result (n + k) op1 n" "cells_apart result (n + k) op2 k"
  shows "\<exists>m'. mp_mul_basecase m result op1 n op2 k = Some m' \<and> only result (n + k) m m'
    \<and> mval m' result (n + k) = mval m op1 n * mval m op2 k"
  using assms by (rule mp_mul_basecase_spec)

theorem mp_mul_basecase_product_witness:
  "\<exists>m'. mp_mul_basecase demo_limbs 4 0 2 2 2 = Some m' \<and> mval m' 4 4 = (2 ^ 128 - 1) * (2 ^ 127 + 7)"
proof -
  have "mapped demo_limbs 4 (2 + 2)" "0 < (2 :: nat)" "cells_apart 4 (2 + 2) 0 2" "cells_apart 4 (2 + 2) 2 2"
    using demo_mapped(3) by (simp_all add: cells_apart_def)
  from mp_mul_basecase_product [OF demo_mapped(1,2) this] show ?thesis by (auto simp: demo_mval)
qed

text \<open>
  \<^verbatim>\<open>mp_shr\<close> divides a number with one extra leading limb by a power of two and returns the
  remainder, in place or towards higher addresses; \<^verbatim>\<open>mp_cmp\<close> compares the numbers.
\<close>

theorem mp_shr_and_cmp:
  assumes "mapped m tab n" "mapped m tab_r n" "tab \<le> tab_r \<or> tab_r + n \<le> tab" "1 \<le> shift" "shift < 64"
    and "unat high < 2 ^ shift"
  shows "(\<exists>m' r. mp_shr m tab_r tab n shift high = Some (m', r) \<and> only tab_r n m m'
        \<and> mval m' tab_r n = (mval m tab n + unat high * BASE ^ n) div 2 ^ shift
        \<and> unat r = (mval m tab n + unat high * BASE ^ n) mod 2 ^ shift)
    \<and> mp_cmp m tab tab_r n = Some (sgn (int (mval m tab n) - int (mval m tab_r n)))"
proof -
  obtain m' r where r: "mp_shr m tab_r tab n shift high = Some (m', r)" "only tab_r n m m'" "unat r < 2 ^ shift"
    "mval m' tab_r n * 2 ^ shift + unat r = mval m tab n + unat high * BASE ^ n"
    using mp_shr_spec [OF assms] by blast
  have "mval m' tab_r n = (mval m tab n + unat high * BASE ^ n) div 2 ^ shift"
    "unat r = (mval m tab n + unat high * BASE ^ n) mod 2 ^ shift"
    using r(3) by (simp_all flip: r(4))
  then show ?thesis using r(1,2) mp_cmp_spec [OF assms(1,2)] by blast
qed

theorem mp_shr_and_cmp_witness:
  "\<exists>m' r. mp_shr demo_limbs 2 2 2 3 0 = Some (m', r) \<and> mval m' 2 2 = 2 ^ 124 \<and> unat r = 7"
  using mp_shr_and_cmp [of demo_limbs 2 2 2 3 0] by (auto simp: demo_mapped demo_mval)

end
