(* ===== verification/LimbDiv.thy ===== *)
theory LimbDiv
  imports Limbs
begin

text \<open>
  Division of limb arrays in \<^verbatim>\<open>libbf.c\<close>: the division of a double limb by a normalised limb with a
  precomputed reciprocal, the division of an array by one limb and the base case of the division
  of two arrays.
\<close>

section \<open>Definitions\<close>

definition join :: "limb \<Rightarrow> limb \<Rightarrow> dlimb" where
  "join a1 a0 = push_bit 64 (wide a1) OR wide a0"

definition udiv1norm_init :: "limb \<Rightarrow> limb" where
  "udiv1norm_init d = (let a1 = - d - 1; a0 = - 1 in ucast (join a1 a0 div wide d))"

text \<open>The quotient and the remainder.\<close>

definition udiv1norm :: "limb \<Rightarrow> limb \<Rightarrow> limb \<Rightarrow> limb \<Rightarrow> limb \<times> limb" where
  "udiv1norm a1 a0 d d_inv =
     (let n1m = signed_drop_bit 63 a0;
          n_adj = a0 + (n1m AND d);
          a = wide d_inv * wide (a1 - n1m) + wide n_adj;
          q = ucast (drop_bit 64 a) + a1;
          a = join a1 a0;
          a = a - wide q * wide d - wide d;
          ah = ucast (drop_bit 64 a);
          q = q + (1 + ah);
          r = ucast a + (ah AND d)
      in (q, r))"

definition UDIV1NORM_THRESHOLD :: nat where
  "UDIV1NORM_THRESHOLD = 3"

definition mp_div1norm :: "limb_mem \<Rightarrow> nat \<Rightarrow> nat \<Rightarrow> nat \<Rightarrow> limb \<Rightarrow> limb \<Rightarrow> (limb_mem \<times> limb) option" where
  "mp_div1norm m tabr taba n b r =
     (if UDIV1NORM_THRESHOLD \<le> n then
        let b_inv = udiv1norm_init b in
        for_down (\<lambda>i (m, r). do {
            x \<leftarrow> m (taba + i);
            let (q, r) = udiv1norm r x b b_inv;
            m \<leftarrow> put m (tabr + i) q;
            Some (m, r) }) n (m, r)
      else
        for_down (\<lambda>i (m, r). do {
            x \<leftarrow> m (taba + i);
            let a1 = join r x;
            m \<leftarrow> put m (tabr + i) (ucast (a1 div wide b));
            Some (m, ucast (a1 mod wide b)) }) n (m, r))"

text \<open>The leading quotient limb: 0 if the leading limbs of the dividend are below the divisor, else 1.\<close>

primrec lead_digit :: "limb_mem \<Rightarrow> nat \<Rightarrow> nat \<Rightarrow> nat \<Rightarrow> limb option" where
  "lead_digit m a tabb 0 = Some 1"
| "lead_digit m a tabb (Suc j) = do {
     x \<leftarrow> m (a + j);
     y \<leftarrow> m (tabb + j);
     if x \<noteq> y then Some (if x < y then 0 else 1) else lead_digit m a tabb j }"

text \<open>The loop that adds the divisor back while the partial remainder is negative.\<close>

partial_function (option) add_back :: "nat \<Rightarrow> nat \<Rightarrow> nat \<Rightarrow> limb_mem \<Rightarrow> limb \<Rightarrow> (limb_mem \<times> limb) option" where
  "add_back a tabb nb m q =
     Option.bind (mp_add m a a tabb nb 0) (\<lambda>(m, c).
       if c \<noteq> 0 then
         Option.bind (m (a + nb)) (\<lambda>v.
         Option.bind (put m (a + nb) (v + 1)) (\<lambda>m.
           if v + 1 = 0 then Some (m, q - 1) else add_back a tabb nb m (q - 1)))
       else add_back a tabb nb m (q - 1))"

text \<open>One round: the quotient limb at \<open>i\<close> is estimated, multiplied out and corrected.\<close>

definition guess_digit :: "limb_mem \<Rightarrow> nat \<Rightarrow> nat \<Rightarrow> limb \<Rightarrow> limb \<Rightarrow> limb option" where
  "guess_digit m a nb b1 b1_inv = do {
     hi \<leftarrow> m (a + nb);
     if b1 \<le> hi then Some (- 1)
     else if b1_inv \<noteq> 0 then do {
       lo \<leftarrow> m (a + nb - 1);
       Some (fst (udiv1norm hi lo b1 b1_inv)) }
     else do {
       lo \<leftarrow> m (a + nb - 1);
       let al = join hi lo;
       Some (ucast (al div wide b1)) } }"

definition divnorm_round :: "nat \<Rightarrow> nat \<Rightarrow> nat \<Rightarrow> nat \<Rightarrow> limb \<Rightarrow> limb \<Rightarrow> nat \<Rightarrow> limb_mem \<Rightarrow> limb_mem option" where
  "divnorm_round tabq taba tabb nb b1 b1_inv i m = do {
     q \<leftarrow> guess_digit m (taba + i) nb b1 b1_inv;
     (m, r) \<leftarrow> mp_sub_mul1 m (taba + i) tabb nb q;
     v \<leftarrow> m (taba + i + nb);
     let a = v - r;
     m \<leftarrow> put m (taba + i + nb) a;
     (m, q) \<leftarrow> (if a > v then add_back (taba + i) tabb nb m q else Some (m, q));
     put m (tabq + i) q }"

definition DIVNORM_LARGE_THRESHOLD :: nat where
  "DIVNORM_LARGE_THRESHOLD = 50"

text \<open>\<open>mp_divnorm_large\<close> is an argument: it takes over from the stated length on.\<close>

definition mp_divnorm ::
  "(limb_mem \<Rightarrow> nat \<Rightarrow> nat \<Rightarrow> nat \<Rightarrow> nat \<Rightarrow> nat \<Rightarrow> (limb_mem \<times> int) option)
   \<Rightarrow> limb_mem \<Rightarrow> nat \<Rightarrow> nat \<Rightarrow> nat \<Rightarrow> nat \<Rightarrow> nat \<Rightarrow> (limb_mem \<times> int) option" where
  "mp_divnorm mp_divnorm_large m tabq taba na tabb nb = do {
     b1 \<leftarrow> m (tabb + nb - 1);
     if nb = 1 then do {
       (m, r) \<leftarrow> mp_div1norm m tabq taba na b1 0;
       m \<leftarrow> put m taba r;
       Some (m, 0) }
     else
       let n = na - nb in
       if DIVNORM_LARGE_THRESHOLD \<le> min n nb then mp_divnorm_large m tabq taba na tabb nb
       else do {
         let b1_inv = (if UDIV1NORM_THRESHOLD \<le> n then udiv1norm_init b1 else 0);
         q \<leftarrow> lead_digit m (taba + n) tabb nb;
         m \<leftarrow> put m (tabq + n) q;
         m \<leftarrow> (if q \<noteq> 0 then map_option fst (mp_sub m (taba + n) (taba + n) tabb nb 0) else Some m);
         m \<leftarrow> for_down (divnorm_round tabq taba tabb nb b1 b1_inv) n m;
         Some (m, 0) } }"

section \<open>Division of a double limb\<close>

abbreviation BI :: int where
  "BI \<equiv> int BASE"

lemma udiv_core:
  fixes d v k a1 a0 s t q1 :: int
  assumes vd: "(BI + v) * d = BI * BI - k" and k: "1 \<le> k" "k \<le> d" and d: "BI \<le> 2 * d" "d < BI"
    and a: "0 \<le> a1" "a1 < d" "0 \<le> a0" "a0 < BI" and s: "s = of_bool (BI \<le> 2 * a0)"
    and t: "t = v * (a1 + s) + (a0 + s * (d - BI))" and q1: "q1 = t div BI + a1"
  shows "0 \<le> a1 * BI + a0 - q1 * d" "a1 * BI + a0 - q1 * d < 2 * d"
proof -
  define \<rho> where "\<rho> = t mod BI"
  have BI: "0 < BI" by (simp add: BASE_def)
  have \<rho>: "0 \<le> \<rho>" "\<rho> \<le> BI - 1" using BI by (simp_all add: \<rho>_def)
  have q: "BI * q1 = t - \<rho> + a1 * BI"
    using mult_div_mod_eq [of BI t] by (simp add: q1 \<rho>_def algebra_simps)
  define E where "E = BI * (a1 * BI + a0 - q1 * d)"
  have "E = a1 * BI * BI + a0 * BI - d * (BI * q1)" by (simp add: E_def algebra_simps)
  also have "\<dots> = a1 * BI * BI + a0 * BI - d * (v * (a1 + s) + (a0 + s * (d - BI)) - \<rho> + a1 * BI)"
    unfolding q t ..
  also have "\<dots> = a1 * BI * BI + a0 * BI - d * a0 - s * d * d + 2 * s * d * BI - (a1 + s) * ((BI + v) * d) + d * \<rho>"
    by (simp add: algebra_simps)
  also have "\<dots> = (a1 + s) * k + (BI - d) * (a0 - s * (BI - d)) + d * \<rho>"
    unfolding vd using s by (auto simp: algebra_simps)
  finally have E: "E = (a1 + s) * k + (BI - d) * (a0 - s * (BI - d)) + d * \<rho>" .
  have \<rho>d: "0 \<le> d * \<rho>" "d * \<rho> \<le> d * (BI - 1)"
    using \<rho> k by (simp_all add: mult_left_mono)
  have "0 \<le> E \<and> E < BI * (2 * d)"
  proof (cases "BI \<le> 2 * a0")
    case False
    then have s0: "s = 0" using s by simp
    have "a1 * k \<le> (d - 1) * d" using a k by (intro mult_mono) auto
    moreover have "(BI - d) * a0 \<le> (BI - d) * d" using False d a by (intro mult_left_mono) auto
    moreover have "0 \<le> a1 * k" "0 \<le> (BI - d) * a0" using a k d by simp_all
    ultimately have "0 \<le> E" "E \<le> (d - 1) * d + (BI - d) * d + d * (BI - 1)"
      using \<rho>d unfolding E s0 by simp_all
    moreover have "(d - 1) * d + (BI - d) * d + d * (BI - 1) = BI * (2 * d) - 2 * d" by (simp add: algebra_simps)
    ultimately show ?thesis using k by simp
  next
    case True
    then have s1: "s = 1" using s by simp
    have "(a1 + 1) * k \<le> d * d" using a k by (intro mult_mono) auto
    moreover have "(BI - d) * (a0 - (BI - d)) \<le> (BI - d) * (d - 1)" using d a by (intro mult_left_mono) auto
    moreover have "0 \<le> (a1 + 1) * k" "0 \<le> (BI - d) * (a0 - (BI - d))" using a k d True by simp_all
    ultimately have "0 \<le> E" "E \<le> d * d + (BI - d) * (d - 1) + d * (BI - 1)"
      using \<rho>d unfolding E s1 by simp_all
    moreover have "d * d + (BI - d) * (d - 1) + d * (BI - 1) = BI * (2 * d) - BI" by (simp add: algebra_simps)
    ultimately show ?thesis using BI by simp
  qed
  then show "0 \<le> a1 * BI + a0 - q1 * d" "a1 * BI + a0 - q1 * d < 2 * d"
    using BI by (simp_all add: E_def zero_le_mult_iff)
qed

lemma unat_join: "unat (join a1 a0) = unat a1 * BASE + unat a0"
proof -
  have "unat (push_bit 64 (wide a1)) = unat a1 * BASE"
    using limb_less [of a1] by (subst unat_push_bit) (simp_all add: BASE_def)
  moreover have "unat (wide a0) < 2 ^ 64" using limb_less [of a0] by (simp add: BASE_def)
  moreover have "(unat a1 * BASE) mod 2 ^ 64 = 0" by (simp add: BASE_def)
  ultimately show ?thesis
    unfolding join_def by (subst or.commute) (simp add: unat_or_disj [of _ 64])
qed

lemma sign_mask: "signed_drop_bit 63 a = (if BASE \<le> 2 * unat a then - 1 else 0)" for a :: limb
proof -
  have "bit a 63 \<longleftrightarrow> BASE \<le> 2 * unat a"
  proof -
    have "unat a div 2 ^ 63 = of_bool (BASE \<le> 2 * unat a)"
      using limb_less [of a] by (auto simp: BASE_def div_eq_0_iff intro!: div_nat_eqI)
    moreover have "bit a 63 = bit (unat a) 63" by (simp add: bit_unsigned_iff)
    ultimately show ?thesis by (simp add: bit_iff_odd)
  qed
  moreover have "signed_drop_bit 63 a = (if bit a 63 then - 1 else 0)"
    by (rule bit_word_eqI) (auto simp: bit_signed_drop_bit_iff not_le)
  ultimately show ?thesis by simp
qed


lemma unat_minus_one_limb: "unat (- 1 :: limb) = BASE - 1"
  by (simp add: BASE_def unsigned_minus_1_eq_mask mask_eq_exp_minus_1)

text \<open>The reciprocal of a normalised divisor.\<close>

lemma udiv1norm_init_spec:
  assumes "BASE \<le> 2 * unat d"
  obtains k where "(BI + int (unat (udiv1norm_init d))) * int (unat d) = BI * BI - k" "1 \<le> k" "k \<le> int (unat d)"
proof -
  let ?d = "unat d"
  have d: "?d < BASE" "0 < ?d" using limb_less [of d] assms by (auto simp: BASE_def)
  have a1: "unat (- d - 1) = BASE - 1 - ?d"
  proof -
    have e: "- d - 1 = - 1 - d" by simp
    show ?thesis unfolding e using d unat_minus_limb [of "- 1" d] by (simp add: unat_minus_one_limb)
  qed
  define X where "X = (BASE - 1 - ?d) * BASE + (BASE - 1)"
  have X: "X + ?d * BASE + 1 = BASE * BASE"
  proof -
    have "X + ?d * BASE + 1 = (BASE - 1 - ?d + ?d) * BASE + (BASE - 1 + 1)" by (simp add: X_def algebra_simps)
    also have "\<dots> = (BASE - 1) * BASE + BASE" using d by simp
    also have "\<dots> = BASE * BASE" by (simp add: BASE_def)
    finally show ?thesis .
  qed
  have "X < BASE * ?d"
  proof -
    have "BASE * BASE \<le> BASE * (2 * ?d)" using assms by (rule mult_le_mono2)
    moreover have "BASE * (2 * ?d) = 2 * (BASE * ?d)" "?d * BASE = BASE * ?d" by simp_all
    ultimately show ?thesis using X by linarith
  qed
  then have "X div ?d < BASE" by (rule less_mult_imp_div_less)
  moreover have "unat (join (- d - 1) (- 1)) = X" by (simp only: unat_join a1 unat_minus_one_limb X_def)
  ultimately have v: "unat (udiv1norm_init d) = X div ?d"
    by (simp add: udiv1norm_init_def Let_def dlimb_low unat_div)
  define k where "k = int (X mod ?d) + 1"
  have "(BI + int (X div ?d)) * int ?d = BI * BI - k"
  proof -
    have "X div ?d * ?d + X mod ?d = X" by simp
    then have "int (X div ?d) * int ?d + int (X mod ?d) = int X" by (metis of_nat_add of_nat_mult)
    moreover have "int X + int ?d * BI + 1 = BI * BI" using X by (metis of_nat_add of_nat_mult of_nat_1)
    ultimately show ?thesis by (simp add: k_def algebra_simps)
  qed
  moreover have "1 \<le> k" by (simp add: k_def)
  moreover have "k \<le> int ?d"
  proof -
    have "X mod ?d < ?d" using d by simp
    then show ?thesis unfolding k_def by linarith
  qed
  ultimately show ?thesis using that v by simp
qed

lemma adjust_limb:
  fixes a1 a0 d :: limb
  assumes "BASE \<le> 2 * unat d" "unat a1 < unat d" and n1m: "n1m = (signed_drop_bit 63 a0 :: limb)"
  defines "s \<equiv> of_bool (BASE \<le> 2 * unat a0) :: int"
  shows "int (unat (a1 - n1m)) = int (unat a1) + s"
    and "int (unat (a0 + (n1m AND d))) = int (unat a0) + s * (int (unat d) - BI)"
  using assms limb_less [of d] limb_less [of a0] unat_plus_limb [of a1 1] unat_plus_limb [of a0 d]
  by (auto simp: sign_mask simp del: of_nat_unat)

lemma quot_rem: "n = q * d + r \<Longrightarrow> r < d \<Longrightarrow> n div d = q \<and> n mod d = r" for n :: nat
  by auto

lemma unat_minus_dlimb: "unat (v - w) = (if unat w \<le> unat v then unat v - unat w else unat v + BASE * BASE - unat w)"
  for v w :: dlimb
  by (simp add: unat_sub_if_size word_size dlimb_B)

lemma udiv1norm_spec:
  fixes a1 a0 d :: limb
  assumes "BASE \<le> 2 * unat d" "unat a1 < unat d"
  defines "N \<equiv> unat a1 * BASE + unat a0"
  shows "unat (fst (udiv1norm a1 a0 d (udiv1norm_init d))) = N div unat d"
    and "unat (snd (udiv1norm a1 a0 d (udiv1norm_init d))) = N mod unat d"
proof -
  note of_nat_unat [simp del]
  let ?v = "udiv1norm_init d" and ?D = "unat d"
  obtain k where k: "(BI + int (unat ?v)) * int ?D = BI * BI - k" "1 \<le> k" "k \<le> int ?D"
    using udiv1norm_init_spec [OF assms(1)] by blast
  define n1m where "n1m = signed_drop_bit 63 a0"
  define n_adj where "n_adj = a0 + (n1m AND d)"
  define s where "s = (of_bool (BASE \<le> 2 * unat a0) :: int)"
  note adj = adjust_limb [OF assms(1,2) n1m_def, folded s_def n_adj_def]
  define a where "a = wide ?v * wide (a1 - n1m) + wide n_adj"
  define t where "t = int (unat ?v) * (int (unat a1) + s) + (int (unat a0) + s * (int ?D - BI))"
  have a: "t = int (unat a)"
    using unat_mul_add [of ?v "a1 - n1m" n_adj 0] by (simp add: a_def t_def adj)
  define Q where "Q = unat a div BASE + unat a1"
  have q1: "int Q = t div BI + int (unat a1)" by (simp add: Q_def a zdiv_int)
  have s: "s = of_bool (BI \<le> 2 * int (unat a0))"
  proof -
    have "BASE \<le> 2 * unat a0 \<longleftrightarrow> BI \<le> 2 * int (unat a0)" by linarith
    then show ?thesis by (simp add: s_def)
  qed
  have bounds: "BI \<le> 2 * int ?D" "int ?D < BI" "0 \<le> int (unat a1)" "int (unat a1) < int ?D"
    "0 \<le> int (unat a0)" "int (unat a0) < BI"
    using assms(1,2) limb_less [of d] limb_less [of a0] by (simp_all flip: of_nat_le_iff of_nat_less_iff)
  note core = udiv_core [OF k bounds s t_def q1]
  have N: "int N = int (unat a1) * BI + int (unat a0)" by (simp add: N_def)
  have "int (Q * ?D) \<le> int N" "int N < int (Q * ?D + 2 * ?D)" using core by (simp_all add: N)
  then have le: "Q * ?D \<le> N" "N < Q * ?D + 2 * ?D" by linarith+
  have D: "?D < BASE" "0 < ?D" using limb_less [of d] assms(2) by auto
  have "N < ?D * BASE"
  proof -
    have "(unat a1 + 1) * BASE \<le> ?D * BASE" using assms(2) by (intro mult_le_mono1) simp
    then show ?thesis using limb_less [of a0] by (simp add: N_def)
  qed
  then have quot: "N div ?D < BASE" by (simp add: less_mult_imp_div_less mult.commute)
  have QN: "Q \<le> N div ?D" using le(1) D by (simp add: less_eq_div_iff_mult_less_eq)
  define q0 where "q0 = ucast (drop_bit 64 a) + a1"
  have q0: "unat q0 = Q"
    using unat_plus_limb [of "ucast (drop_bit 64 a)" a1] QN quot by (simp add: q0_def Q_def dlimb_high)
  define R where "R = N - Q * ?D"
  have R: "N = Q * ?D + R" "R < 2 * ?D" using le by (simp_all add: R_def)
  define a2 where "a2 = join a1 a0 - wide q0 * wide d - wide d"
  have "unat (join a1 a0 - wide q0 * wide d) = R"
    using le(1) by (simp add: unat_minus_dlimb unat_join unat_mult_wide q0 R_def N_def)
  then have a2: "unat a2 = (if ?D \<le> R then R - ?D else R + BASE * BASE - ?D)"
    unfolding a2_def by (subst unat_minus_dlimb) simp
  have res: "udiv1norm a1 a0 d ?v = (q0 + (1 + ucast (drop_bit 64 a2)), ucast a2 + (ucast (drop_bit 64 a2) AND d))"
    by (simp add: udiv1norm_def Let_def a2_def q0_def a_def n1m_def n_adj_def)
  show "unat (fst (udiv1norm a1 a0 d ?v)) = N div ?D" "unat (snd (udiv1norm a1 a0 d ?v)) = N mod ?D"
  proof -
    have "unat (fst (udiv1norm a1 a0 d ?v)) = N div ?D \<and> unat (snd (udiv1norm a1 a0 d ?v)) = N mod ?D"
    proof (cases "?D \<le> R")
      case True
      have N1: "N = (Q + 1) * ?D + (R - ?D)" "R - ?D < ?D" using R True by auto
      then have "N div ?D = Q + 1" "N mod ?D = R - ?D" using quot_rem [of N "Q + 1" ?D "R - ?D"] by simp_all
      moreover have "unat (ucast (drop_bit 64 a2) :: limb) = 0"
        using a2 True N1(2) D by (simp add: dlimb_high)
      then have "(ucast (drop_bit 64 a2) :: limb) = 0" by (simp add: unat_eq_0)
      moreover have "unat (ucast a2 :: limb) = R - ?D"
        using a2 True N1(2) D by (simp add: dlimb_low)
      moreover have "unat (q0 + 1) = Q + 1"
        using unat_plus_limb [of q0 1] q0 calculation(1) quot by simp
      ultimately show ?thesis by (simp add: res)
    next
      case False
      then have N0: "N div ?D = Q" "N mod ?D = R" using R quot_rem [of N Q ?D R] by simp_all
      have high: "unat a2 = (BASE - 1) * BASE + (R + BASE - ?D)" "R + BASE - ?D < BASE"
        using a2 False D by (simp_all add: algebra_simps BASE_def)
      then have "unat a2 div BASE = BASE - 1" "unat a2 mod BASE = R + BASE - ?D"
        by (simp_all add: high(1))
      then have "unat (ucast (drop_bit 64 a2) :: limb) = unat (- 1 :: limb)" "unat (ucast a2 :: limb) = R + BASE - ?D"
        by (simp_all add: dlimb_high dlimb_low [of a2] unat_minus_one_limb)
      moreover from this(1) have "(ucast (drop_bit 64 a2) :: limb) = - 1" by (simp only: word_unat_eq_iff)
      ultimately show ?thesis
        using unat_plus_limb [of "ucast a2" d] N0 q0 D by (simp add: res)
    qed
    then show "unat (fst (udiv1norm a1 a0 d ?v)) = N div ?D" "unat (snd (udiv1norm a1 a0 d ?v)) = N mod ?D" by auto
  qed
qed


section \<open>Division by one limb\<close>

lemma div_loop:
  assumes step: "\<And>i m r x. m (taba + i) = Some x \<Longrightarrow> m (tabr + i) \<noteq> None \<Longrightarrow> unat r < unat b \<Longrightarrow>
      \<exists>q r'. body i (m, r) = Some (m(tabr + i \<mapsto> q), r')
        \<and> unat q = (unat r * BASE + unat x) div unat b \<and> unat r' = (unat r * BASE + unat x) mod unat b"
    and "mapped m taba n" "mapped m tabr n" "taba \<le> tabr \<or> tabr + n \<le> taba" "unat r < unat (b :: limb)"
  shows "\<exists>m' r'. for_down body n (m, r) = Some (m', r') \<and> only tabr n m m' \<and> unat (r' :: limb) < unat b
    \<and> mval m' tabr n * unat b + unat r' = mval m taba n + unat (r :: limb) * BASE ^ n"
proof -
  define P where "P = (\<lambda>i (m', r' :: limb). only (tabr + i) (n - i) m m' \<and> unat r' < unat b
     \<and> mval m' (tabr + i) (n - i) * unat b + unat r' = mval m (taba + i) (n - i) + unat r * BASE ^ (n - i))"
  have "\<exists>s'. for_down body n (m, r) = Some s' \<and> P 0 s'"
  proof (rule for_down_inv [where P = P and n = n])
    fix i st assume i: "i < n" and "P (Suc i) st"
    then obtain m' l where st: "st = (m', l)" "only (tabr + Suc i) (n - Suc i) m m'" "unat l < unat b"
      "mval m' (tabr + Suc i) (n - Suc i) * unat b + unat l = mval m (taba + Suc i) (n - Suc i) + unat r * BASE ^ (n - Suc i)"
      by (cases st) (auto simp: P_def)
    have n: "n - i = Suc (n - Suc i)" using i by simp
    obtain x where x: "m (taba + i) = Some x" using mappedD [OF assms(2) i] by auto
    have x': "m' (taba + i) = Some x" using only_at [OF st(2), of "taba + i"] assms(4) x i by auto
    have w: "m (tabr + i) \<noteq> None" "m' (tabr + i) \<noteq> None"
      using assms(3) i only_mapped [OF st(2), of tabr n] by (auto simp: mapped_def)
    obtain q l' where q: "body i (m', l) = Some (m'(tabr + i \<mapsto> q), l')"
      "unat q = (unat l * BASE + unat x) div unat b" "unat l' = (unat l * BASE + unat x) mod unat b"
      using step [OF x' w(2) st(3)] by blast
    have ql: "unat q * unat b + unat l' = unat l * BASE + unat x" by (simp add: q)
    have "only (tabr + i) (n - i) m m'" using st(2) i by (auto simp: only_def)
    then have "only (tabr + i) (n - i) m (m'(tabr + i \<mapsto> q))"
      using w i by (intro only_put) auto
    moreover have "unat l' < unat b" using st(3) by (simp add: q(3))
    moreover have "mval (m'(tabr + i \<mapsto> q)) (tabr + i) (n - i) * unat b + unat l'
        = mval m (taba + i) (n - i) + unat r * BASE ^ (n - i)"
    proof -
      have "mval (m'(tabr + i \<mapsto> q)) (tabr + i) (n - i) * unat b + unat l'
          = unat q * unat b + unat l' + BASE * (mval m' (tabr + Suc i) (n - Suc i) * unat b)"
        unfolding n mval_front by (simp add: algebra_simps)
      also have "\<dots> = unat x + BASE * (mval m' (tabr + Suc i) (n - Suc i) * unat b + unat l)"
        unfolding ql by (simp add: algebra_simps)
      finally show ?thesis unfolding st(4) unfolding n mval_front x option.sel by (simp add: algebra_simps)
    qed
    ultimately show "\<exists>s'. body i st = Some s' \<and> P i s'"
      using q(1) by (simp add: st(1) P_def)
  qed (use assms(5) in \<open>auto simp: P_def\<close>)
  then show ?thesis by (force simp: P_def)
qed

lemma unat_join_div:
  assumes "unat r < unat b"
  shows "unat (ucast (join r x div wide b) :: limb) = (unat r * BASE + unat x) div unat b"
proof -
  have "(unat r + 1) * BASE \<le> unat b * BASE" using assms by (intro mult_le_mono1) simp
  then have "unat r * BASE + unat x < BASE * unat b" using limb_less [of x] by (simp add: algebra_simps)
  then have "(unat r * BASE + unat x) div unat b < BASE" by (rule less_mult_imp_div_less)
  then show ?thesis by (simp add: dlimb_low unat_div unat_join)
qed

lemma unat_join_mod:
  assumes "unat r < unat b"
  shows "unat (ucast (join r x mod wide b) :: limb) = (unat r * BASE + unat x) mod unat b"
proof -
  have "(unat r * BASE + unat x) mod unat b < unat b" using assms by simp
  then have "(unat r * BASE + unat x) mod unat b < BASE" using limb_less [of b] by simp
  then show ?thesis by (simp add: dlimb_low unat_mod unat_join)
qed

lemma mp_div1norm_spec:
  assumes "mapped m taba n" "mapped m tabr n" "taba \<le> tabr \<or> tabr + n \<le> taba" "unat r < unat b" "BASE \<le> 2 * unat b"
  shows "\<exists>m' r'. mp_div1norm m tabr taba n b r = Some (m', r') \<and> only tabr n m m' \<and> unat r' < unat b
    \<and> mval m' tabr n * unat b + unat r' = mval m taba n + unat r * BASE ^ n"
proof (cases "UDIV1NORM_THRESHOLD \<le> n")
  case True
  show ?thesis
    unfolding mp_div1norm_def Let_def if_P [OF True]
  proof (rule div_loop)
    fix i m and r x :: limb
    assume *: "m (taba + i) = Some x" "m (tabr + i) \<noteq> None" "unat r < unat b"
    note spec = udiv1norm_spec [OF assms(5) *(3), of x]
    show "\<exists>q r'. (case (m, r) of (m, r) \<Rightarrow> do {
            x \<leftarrow> m (taba + i);
            case udiv1norm r x b (udiv1norm_init b) of (q, r) \<Rightarrow> do {
            m \<leftarrow> put m (tabr + i) q;
            Some (m, r) } }) = Some (m(tabr + i \<mapsto> q), r')
        \<and> unat q = (unat r * BASE + unat x) div unat b \<and> unat r' = (unat r * BASE + unat x) mod unat b"
      using * spec by (cases "udiv1norm r x b (udiv1norm_init b)") (simp add: put_mapped)
  qed (use assms in auto)
next
  case False
  show ?thesis
    unfolding mp_div1norm_def Let_def if_not_P [OF False]
  proof (rule div_loop)
    fix i m and r x :: limb
    assume *: "m (taba + i) = Some x" "m (tabr + i) \<noteq> None" "unat r < unat b"
    show "\<exists>q (r' :: limb). (case (m, r) of (m, r) \<Rightarrow> do {
            x \<leftarrow> m (taba + i);
            m \<leftarrow> put m (tabr + i) (ucast (join r x div wide b));
            Some (m, ucast (join r x mod wide b)) }) = Some (m(tabr + i \<mapsto> q), r')
        \<and> unat q = (unat r * BASE + unat x) div unat b \<and> unat r' = (unat r * BASE + unat x) mod unat b"
      using * by (simp add: put_mapped unat_join_div unat_join_mod)
  qed (use assms in auto)
qed


section \<open>Division of arrays\<close>

lemma lead_digit_cmp: "lead_digit m a tabb k = map_option (\<lambda>c. if c < 0 then 0 else 1) (mp_cmp m a tabb k)"
  by (induction k) (auto split: Option.bind_splits)

lemma lead_digit_spec:
  "mapped m a k \<Longrightarrow> mapped m tabb k \<Longrightarrow> lead_digit m a tabb k = Some (if mval m a k < mval m tabb k then 0 else 1)"
  by (simp add: lead_digit_cmp mp_cmp_spec)

lemma add_back_spec:
  assumes "cells_apart a (Suc nb) tabb nb" "0 < mval m0 tabb nb"
  shows "mapped m0 tabb nb \<Longrightarrow> mapped m0 a (Suc nb) \<Longrightarrow> only a (Suc nb) m0 m \<Longrightarrow>
    mval m a (Suc nb) + unat q * mval m0 tabb nb = W + BASE ^ Suc nb \<Longrightarrow>
    \<exists>m' q'. add_back a tabb nb m q = Some (m', q') \<and> only a (Suc nb) m0 m'
      \<and> mval m' a (Suc nb) + unat q' * mval m0 tabb nb = W \<and> mval m' a (Suc nb) < mval m0 tabb nb"
proof (induction "unat q" arbitrary: m q rule: less_induct)
  case less
  let ?b = "mval m0 tabb nb"
  note [simp del] = mval.simps
  have b: "mval m tabb nb = ?b" "mapped m tabb nb" "mapped m a (Suc nb)"
    using only_mval [OF less.prems(3) assms(1)] only_mapped [OF less.prems(3)] less.prems(1,2) by auto
  have q: "0 < unat q" "unat (q - 1) = unat q - 1"
  proof -
    have "0 < unat q * ?b" using less.prems(4) mval_less [of m a "Suc nb"] by linarith
    then show "0 < unat q" by simp
    then show "unat (q - 1) = unat q - 1" by (simp add: unat_minus_limb)
  qed
  then have qb: "unat q * ?b = unat (q - 1) * ?b + ?b" by (cases "unat q") auto
  have op: "operand a a nb" "operand a tabb nb" using assms(1) by (auto simp: operand_def cells_apart_def)
  obtain m1 c where 1: "mp_add m a a tabb nb 0 = Some (m1, c)" "only a nb m m1" "unat c \<le> 1"
    "mval m1 a nb + BASE ^ nb * unat c = mval m a nb + ?b"
    using mp_add_spec [OF mapped_sub [OF b(3)] b(2) mapped_sub [OF b(3)] op, of 0] b(1) by fastforce
  obtain v where v: "m (a + nb) = Some v" "m1 (a + nb) = Some v"
    using mappedD [OF b(3), of nb] only_at [OF 1(2), of "a + nb"] by auto
  have V: "mval m a (Suc nb) = mval m a nb + unat v * BASE ^ nb" using v by (simp add: mval.simps)
  have only1: "only a (Suc nb) m0 m1" using less.prems(3) 1(2) by (rule only_trans) auto
  show ?case
  proof (cases "c = 0")
    case True
    have "mval m1 a (Suc nb) = mval m a (Suc nb) + ?b" using v 1(4) True V by (simp add: mval.simps)
    then have "mval m1 a (Suc nb) + unat (q - 1) * ?b = W + BASE ^ Suc nb" using less.prems(4) qb by linarith
    from less.hyps [OF _ less.prems(1,2) only1 this] q
    show ?thesis by (subst add_back.simps) (simp add: 1(1) True)
  next
    case False
    then have c: "unat c = 1" using 1(3) by (metis le_neq_implies_less less_one unat_eq_0)
    let ?m = "m1(a + nb \<mapsto> v + 1)"
    have only2: "only a (Suc nb) m0 ?m" using only_put [OF only1, of "a + nb"] less.prems(2) by (simp add: mapped_def)
    have v1: "unat (v + 1) + (if v + 1 = 0 then BASE else 0) = unat v + 1"
      using unat_plus_limb [of v 1] limb_less [of v] by (auto simp: unat_eq_0 [symmetric] split: if_splits)
    have "mval ?m a (Suc nb) + (if v + 1 = 0 then BASE ^ Suc nb else 0) = mval m1 a nb + (unat (v + 1) + (if v + 1 = 0 then BASE else 0)) * BASE ^ nb"
      by (simp add: mval.simps algebra_simps)
    also have "\<dots> = mval m a (Suc nb) + ?b" unfolding v1 using 1(4) c V by (simp add: algebra_simps)
    finally have m: "mval ?m a (Suc nb) + (if v + 1 = 0 then BASE ^ Suc nb else 0) = mval m a (Suc nb) + ?b" .
    have step: "add_back a tabb nb m q = (if v + 1 = 0 then Some (?m, q - 1) else add_back a tabb nb ?m (q - 1))"
      using False v by (subst add_back.simps) (simp add: 1(1) put_mapped)
    show ?thesis
    proof (cases "v + 1 = 0")
      case True
      then have "mval ?m a (Suc nb) + BASE ^ Suc nb = mval m a (Suc nb) + ?b" using m by simp
      then have "mval ?m a (Suc nb) + unat (q - 1) * ?b = W \<and> mval ?m a (Suc nb) < ?b"
        using less.prems(4) qb mval_less [of m a "Suc nb"] by linarith
      then show ?thesis using True only2 by (simp add: step)
    next
      case False
      then have "mval ?m a (Suc nb) = mval m a (Suc nb) + ?b" using m by simp
      then have "mval ?m a (Suc nb) + unat (q - 1) * ?b = W + BASE ^ Suc nb" using less.prems(4) qb by linarith
      from less.hyps [OF _ less.prems(1,2) only2 this] q False show ?thesis by (simp add: step)
    qed
  qed
qed

lemma quot_le:
  fixes W b :: nat
  assumes "b = bl + P * b1" "W = wl + P * h" "wl < P" "0 < b1"
  shows "W div b \<le> h div b1"
proof -
  have "W div b * (P * b1) \<le> W div b * b" by (simp add: assms(1))
  also have "\<dots> \<le> W" by simp
  also have "\<dots> < P * (h + 1)" using assms(2,3) by simp
  finally have "P * (W div b * b1) < P * (h + 1)" by (simp only: mult.left_commute mult.commute [of b1] mult.assoc)
  then have "W div b * b1 < h + 1" by (simp only: mult_less_cancel1)
  then have "W div b * b1 \<le> h" by simp
  then show ?thesis using assms(4) by (simp add: less_eq_div_iff_mult_less_eq)
qed

lemma guess_digit_spec:
  assumes "mapped m a (Suc nb)" "1 < nb" "m (tabb + nb - 1) = Some b1" "BASE \<le> 2 * unat b1"
    and "mval m a (Suc nb) < mval m tabb nb * BASE" and inv: "b1_inv = 0 \<or> b1_inv = udiv1norm_init b1"
  shows "\<exists>q. guess_digit m a nb b1 b1_inv = Some q \<and> mval m a (Suc nb) div mval m tabb nb \<le> unat q"
proof -
  let ?W = "mval m a (Suc nb)" and ?b = "mval m tabb nb"
  obtain k where k: "nb = Suc k" using assms(2) by (cases nb) auto
  obtain hi where hi: "m (a + nb) = Some hi" using mappedD [OF assms(1), of nb] by auto
  obtain lo where lo: "m (a + k) = Some lo" using mappedD [OF assms(1), of k] k by auto
  have b: "?b = mval m tabb k + BASE ^ k * unat b1" using assms(3) by (simp add: k mult.commute)
  have W: "?W = mval m a k + BASE ^ k * (unat hi * BASE + unat lo)" using hi lo by (simp add: k algebra_simps)
  have b1: "0 < unat b1" using assms(4) by (auto simp: BASE_def)
  have "?W div ?b < BASE" using assms(5) by (simp add: less_mult_imp_div_less mult.commute)
  then have "?W div ?b \<le> unat (- 1 :: limb)" by (simp add: unat_minus_one_limb)
  moreover have "?W div ?b \<le> (unat hi * BASE + unat lo) div unat b1"
    using quot_le [OF b W mval_less b1] .
  moreover have idx: "a + nb - 1 = a + k" using k by simp
  ultimately show ?thesis
    using hi lo inv udiv1norm_spec(1) [OF assms(4), of hi lo] unat_join_div [of hi b1 lo]
    by (auto simp: guess_digit_def word_le_nat_alt not_le simp del: mval.simps)
qed


text \<open>Memories that differ at most in the \<open>n\<close> cells at \<open>p\<close> and the \<open>k\<close> cells at \<open>q\<close>.\<close>

definition only2 :: "nat \<Rightarrow> nat \<Rightarrow> nat \<Rightarrow> nat \<Rightarrow> limb_mem \<Rightarrow> limb_mem \<Rightarrow> bool" where
  "only2 p n q k m m' =
     (dom m' = dom m \<and> (\<forall>x. (x < p \<or> p + n \<le> x) \<and> (x < q \<or> q + k \<le> x) \<longrightarrow> m' x = m x))"

lemma only2_mapped: "only2 p n q k m m' \<Longrightarrow> mapped m' x l = mapped m x l"
  unfolding only2_def mapped_def dom_def by (metis (mono_tags, lifting) mem_Collect_eq)

lemma only2_mval: "only2 p n q k m m' \<Longrightarrow> cells_apart p n x l \<Longrightarrow> cells_apart q k x l \<Longrightarrow> mval m' x l = mval m x l"
  by (rule mval_cong) (auto simp: only2_def cells_apart_def)

lemma only2_at: "only2 p n q k m m' \<Longrightarrow> x < p \<or> p + n \<le> x \<Longrightarrow> x < q \<or> q + k \<le> x \<Longrightarrow> m' x = m x"
  unfolding only2_def by blast

lemma only2_step:
  assumes "only2 p n q k m m'" "only a l m' m''" "p \<le> a \<and> a + l \<le> p + n \<or> q \<le> a \<and> a + l \<le> q + k"
  shows "only2 p n q k m m''"
  using assms unfolding only2_def only_def by (metis (no_types, lifting) order.strict_trans1 order.strict_trans2 order.trans)

text \<open>One round divides the window of \<open>nb + 1\<close> limbs at \<open>taba + i\<close>.\<close>

lemma divnorm_round_spec:
  assumes "mapped m (taba + i) (Suc nb)" "mapped m tabb nb" "m (tabq + i) \<noteq> None" "1 < nb"
    and "m (tabb + nb - 1) = Some b1" "BASE \<le> 2 * unat b1" "b1_inv = 0 \<or> b1_inv = udiv1norm_init b1"
    and "cells_apart (taba + i) (Suc nb) tabb nb" "cells_apart (taba + i) (Suc nb) (tabq + i) 1"
    and W: "mval m (taba + i) (Suc nb) < mval m tabb nb * BASE"
  defines "W \<equiv> mval m (taba + i) (Suc nb)" and "b \<equiv> mval m tabb nb"
  shows "\<exists>m1 q. divnorm_round tabq taba tabb nb b1 b1_inv i m = Some (m1(tabq + i \<mapsto> q))
    \<and> only (taba + i) (Suc nb) m m1 \<and> m1 (tabq + i) \<noteq> None
    \<and> mval m1 (taba + i) (Suc nb) + unat q * b = W \<and> mval m1 (taba + i) (Suc nb) < b"
proof -
  let ?a = "taba + i"
  have b0: "0 < b"
  proof -
    obtain k where "nb = Suc k" using assms(4) by (cases nb) auto
    then show ?thesis using assms(5,6) by (auto simp: b_def BASE_def)
  qed
  obtain q where q: "guess_digit m ?a nb b1 b1_inv = Some q" "W div b \<le> unat q"
    using guess_digit_spec [OF assms(1,4,5,6) W assms(7)] unfolding W_def b_def by blast
  have "operand ?a tabb nb" using assms(8) by (auto simp: operand_def cells_apart_def)
  from mp_sub_mul1_spec [OF assms(2) mapped_sub [OF assms(1)] this, of q]
  obtain m1 r where 1: "mp_sub_mul1 m ?a tabb nb q = Some (m1, r)" "only ?a nb m m1"
    "mval m1 ?a nb + b * unat q = mval m ?a nb + BASE ^ nb * unat r" unfolding b_def by auto
  obtain v where v: "m (?a + nb) = Some v" "m1 (?a + nb) = Some v"
    using mappedD [OF assms(1), of nb] only_at [OF 1(2), of "?a + nb"] by auto
  define m2 where "m2 = m1(?a + nb \<mapsto> v - r)"
  have only: "only ?a (Suc nb) m m2"
    unfolding m2_def by (rule only_put [OF 1(2)]) (use v in auto)
  have val: "mval m2 ?a (Suc nb) = mval m1 ?a nb + unat (v - r) * BASE ^ nb" by (simp add: m2_def)
  have W': "W = mval m ?a nb + unat v * BASE ^ nb" using v by (simp add: W_def)
  have "\<exists>m3 q3. (if v < v - r then add_back ?a tabb nb m2 q else Some (m2, q)) = Some (m3, q3)
      \<and> only ?a (Suc nb) m m3 \<and> mval m3 ?a (Suc nb) + unat q3 * b = W \<and> mval m3 ?a (Suc nb) < b"
  proof (cases "v < v - r")
    case False
    then have vr: "unat (v - r) + unat r = unat v"
      using unat_minus_limb [of v r] limb_less [of r] by (auto simp: word_less_nat_alt split: if_splits)
    have "mval m2 ?a (Suc nb) + unat q * b = mval m ?a nb + (unat (v - r) + unat r) * BASE ^ nb"
      using val 1(3) by (simp add: algebra_simps)
    then have eq: "mval m2 ?a (Suc nb) + unat q * b = W" unfolding vr using W' by simp
    have "unat q \<le> W div b" using eq b0 by (simp add: less_eq_div_iff_mult_less_eq)
    then have "unat q = W div b" using q(2) by simp
    with eq have "mval m2 ?a (Suc nb) + W div b * b = W" by simp
    then have "mval m2 ?a (Suc nb) < b" using mod_less_divisor [OF b0, of W] div_mult_mod_eq [of W b] by linarith
    then show ?thesis using False eq only by simp
  next
    case True
    then have vr: "unat (v - r) + unat r = unat v + BASE"
      using unat_minus_limb [of v r] limb_less [of r] by (auto simp: word_less_nat_alt split: if_splits)
    have "mval m2 ?a (Suc nb) + unat q * b = mval m ?a nb + (unat (v - r) + unat r) * BASE ^ nb"
      using val 1(3) by (simp add: algebra_simps)
    then have "mval m2 ?a (Suc nb) + unat q * b = W + BASE ^ Suc nb" unfolding vr using W' by (simp add: algebra_simps)
    from add_back_spec [OF assms(8) b0 [unfolded b_def] assms(2,1) only this [unfolded b_def]]
    show ?thesis using True unfolding b_def by simp
  qed
  then obtain m3 q3 where 3: "(if v < v - r then add_back ?a tabb nb m2 q else Some (m2, q)) = Some (m3, q3)"
    "only ?a (Suc nb) m m3" "mval m3 ?a (Suc nb) + unat q3 * b = W" "mval m3 ?a (Suc nb) < b" by blast
  have w: "m3 (tabq + i) \<noteq> None"
    using assms(3,9) only_at [OF 3(2), of "tabq + i"] by (auto simp: cells_apart_def)
  have "divnorm_round tabq taba tabb nb b1 b1_inv i m = Some (m3(tabq + i \<mapsto> q3))"
    using q(1) 1(1) v 3(1) w by (simp add: divnorm_round_def put_mapped m2_def Let_def cong: if_cong)
  then show ?thesis using 3 w by blast
qed


text \<open>The invariant of the rounds, when the quotient limbs from \<open>i\<close> on are done.\<close>

definition div_inv :: "limb_mem \<Rightarrow> nat \<Rightarrow> nat \<Rightarrow> nat \<Rightarrow> nat \<Rightarrow> nat \<Rightarrow> nat \<Rightarrow> limb_mem \<Rightarrow> bool" where
  "div_inv m0 tabq taba n tabb nb i m =
     (only2 taba (n + nb) tabq (Suc n) m0 m
      \<and> (\<forall>j<i. m (taba + j) = m0 (taba + j))
      \<and> mval m (taba + i) nb < mval m0 tabb nb
      \<and> mval m (taba + i + nb) (n - i) = 0
      \<and> mval m (tabq + i) (Suc n - i) * mval m0 tabb nb + mval m (taba + i) nb = mval m0 (taba + i) (n + nb - i))"

lemma div_inv_round:
  assumes "mapped m0 taba (n + nb)" "mapped m0 tabb nb" "mapped m0 tabq (Suc n)" "1 < nb"
    and "m0 (tabb + nb - 1) = Some b1" "BASE \<le> 2 * unat b1" "b1_inv = 0 \<or> b1_inv = udiv1norm_init b1"
    and ap: "cells_apart taba (n + nb) tabb nb" "cells_apart taba (n + nb) tabq (Suc n)" "cells_apart tabq (Suc n) tabb nb"
    and "i < n" "div_inv m0 tabq taba n tabb nb (Suc i) m"
  shows "\<exists>m'. divnorm_round tabq taba tabb nb b1 b1_inv i m = Some m' \<and> div_inv m0 tabq taba n tabb nb i m'"
proof -
  let ?a = "taba + i" and ?b = "mval m0 tabb nb"
  note inv = assms(12) [unfolded div_inv_def]
  then have o2: "only2 taba (n + nb) tabq (Suc n) m0 m" by blast
  have b: "mval m tabb nb = ?b" using o2 ap(1,3) by (rule only2_mval)
  have mp: "mapped m taba (n + nb)" "mapped m tabb nb" "mapped m tabq (Suc n)"
    using only2_mapped [OF o2] assms(1-3) by simp_all
  obtain x where x: "m ?a = Some x" "m0 ?a = Some x"
    using mappedD [OF assms(1), of i] inv assms(11) by auto
  have W: "mval m ?a (Suc nb) = unat x + BASE * mval m (Suc ?a) nb" unfolding mval_front using x by simp
  have "mval m ?a (Suc nb) < mval m tabb nb * BASE"
  proof -
    have "mval m (Suc ?a) nb + 1 \<le> ?b" using inv by simp
    then have "(mval m (Suc ?a) nb + 1) * BASE \<le> ?b * BASE" by (rule mult_le_mono1)
    then show ?thesis unfolding W b using limb_less [of x] by (simp add: algebra_simps)
  qed
  moreover have "m (tabb + nb - 1) = Some b1"
    by (rule trans [OF only2_at [OF o2]]) (use ap(1,3) assms(4,5) in \<open>auto simp: cells_apart_def\<close>)
  moreover have "m (tabq + i) \<noteq> None" using mp(3) assms(11) by (simp add: mapped_def)
  moreover have "mapped m ?a (Suc nb)" using mp(1) by (rule mapped_sub) (use assms(11) in auto)
  moreover have "cells_apart ?a (Suc nb) tabb nb" "cells_apart ?a (Suc nb) (tabq + i) 1"
    using ap(1,2) assms(11) by (auto simp: cells_apart_def)
  ultimately obtain m1 q where 1: "divnorm_round tabq taba tabb nb b1 b1_inv i m = Some (m1(tabq + i \<mapsto> q))"
    "only ?a (Suc nb) m m1" "m1 (tabq + i) \<noteq> None"
    "mval m1 ?a (Suc nb) + unat q * ?b = mval m ?a (Suc nb)" "mval m1 ?a (Suc nb) < ?b"
    using divnorm_round_spec [OF _ mp(2) _ assms(4) _ assms(6,7), of taba i tabq] unfolding b by blast
  let ?m = "m1(tabq + i \<mapsto> q)"
  have outside: "mval ?m p k = mval m1 p k" if "p + k \<le> tabq + i \<or> tabq + i < p" for p k
    using that by simp
  have win: "mval ?m ?a (Suc nb) = mval m1 ?a (Suc nb)"
    by (rule outside) (use ap(2) assms(11) in \<open>auto simp: cells_apart_def\<close>)
  have head: "unat (the (?m (?a + nb))) = 0" "mval ?m ?a nb = mval m1 ?a (Suc nb)"
  proof -
    have "mval ?m ?a nb + unat (the (?m (?a + nb))) * BASE ^ nb < BASE ^ nb"
      using win 1(5) mval_less [of m0 tabb nb] by simp
    then show zero: "unat (the (?m (?a + nb))) = 0" by (cases "unat (the (?m (?a + nb)))") auto
    show "mval ?m ?a nb = mval m1 ?a (Suc nb)" using win zero by (simp only: mval.simps)
  qed
  have "only2 taba (n + nb) tabq (Suc n) m0 m1"
    by (rule only2_step [OF o2 1(2)]) (use assms(11) in auto)
  then have only: "only2 taba (n + nb) tabq (Suc n) m0 ?m"
    by (rule only2_step [where a = "tabq + i" and l = 1]) (use 1(3) assms(11) in \<open>auto simp: only_def\<close>)
  have low: "?m (taba + j) = m0 (taba + j)" if "j < i" for j
  proof -
    have "?m (taba + j) = m1 (taba + j)" using ap(2) that assms(11) by (auto simp: cells_apart_def)
    also have "\<dots> = m (taba + j)" using only_at [OF 1(2)] that by simp
    also have "\<dots> = m0 (taba + j)" using inv that by simp
    finally show ?thesis .
  qed
  have upper: "mval ?m (?a + nb) (n - i) = 0"
  proof -
    have n: "n - i = Suc (n - Suc i)" using assms(11) by simp
    have "mval ?m (Suc (?a + nb)) (n - Suc i) = mval m1 (Suc (?a + nb)) (n - Suc i)"
      by (rule outside) (use ap(2) assms(11) in \<open>auto simp: cells_apart_def\<close>)
    also have "\<dots> = mval m (Suc (?a + nb)) (n - Suc i)"
      using 1(2) by (rule only_mval) (simp add: cells_apart_def)
    also have "\<dots> = 0" using inv by simp
    finally show ?thesis unfolding n mval_front using head(1) by simp
  qed
  have quot: "mval ?m (tabq + i) (Suc n - i) * ?b + mval ?m ?a nb = mval m0 ?a (n + nb - i)"
  proof -
    have n: "Suc n - i = Suc (n - i)" "n + nb - i = Suc (n + nb - Suc i)" using assms(11) by auto
    have "mval ?m (Suc (tabq + i)) (n - i) = mval m1 (Suc (tabq + i)) (n - i)" by (rule outside) simp
    also have "\<dots> = mval m (Suc (tabq + i)) (n - i)"
      using 1(2) by (rule only_mval) (use ap(2) assms(11) in \<open>auto simp: cells_apart_def\<close>)
    finally have hi: "mval ?m (Suc (tabq + i)) (n - i) = mval m (Suc (tabq + i)) (n - i)" .
    have "mval ?m (tabq + i) (Suc n - i) * ?b + mval ?m ?a nb
        = unat q * ?b + mval m1 ?a (Suc nb) + BASE * (mval m (Suc (tabq + i)) (n - i) * ?b)"
      unfolding n mval_front [of _ "tabq + i"] hi head(2) by (simp add: algebra_simps)
    also have "\<dots> = unat x + BASE * (mval m (Suc (tabq + i)) (n - i) * ?b + mval m (Suc ?a) nb)"
      using 1(4) W by (simp add: algebra_simps)
    also have "\<dots> = unat x + BASE * mval m0 (Suc ?a) (n + nb - Suc i)" using inv by simp
    finally show ?thesis unfolding n mval_front using x by simp
  qed
  show ?thesis
    using 1(1,5) only low head(2) upper quot by (auto simp: div_inv_def)
qed


lemma normalised: "m (tabb + nb - 1) = Some b1 \<Longrightarrow> 0 < nb \<Longrightarrow> BASE \<le> 2 * unat b1 \<Longrightarrow> BASE ^ nb \<le> 2 * mval m tabb nb"
proof -
  assume *: "m (tabb + nb - 1) = Some b1" "0 < nb" "BASE \<le> 2 * unat b1"
  then obtain k where k: "nb = Suc k" by (cases nb) auto
  have "BASE * BASE ^ k \<le> (2 * unat b1) * BASE ^ k" using *(3) by (rule mult_le_mono1)
  moreover have "mval m tabb nb = mval m tabb k + unat b1 * BASE ^ k" using *(1) k by simp
  moreover have "(2 * unat b1) * BASE ^ k = 2 * (unat b1 * BASE ^ k)" by simp
  ultimately show ?thesis unfolding k power_Suc by linarith
qed

lemma div_inv_start:
  assumes "mapped m taba (n + nb)" "mapped m tabb nb" "mapped m tabq (Suc n)" "1 < nb"
    and "m (tabb + nb - 1) = Some b1" "BASE \<le> 2 * unat b1"
    and ap: "cells_apart taba (n + nb) tabb nb" "cells_apart taba (n + nb) tabq (Suc n)" "cells_apart tabq (Suc n) tabb nb"
  shows "\<exists>q m1 m2. lead_digit m (taba + n) tabb nb = Some q \<and> put m (tabq + n) q = Some m1
    \<and> (if q \<noteq> 0 then map_option fst (mp_sub m1 (taba + n) (taba + n) tabb nb 0) else Some m1) = Some m2
    \<and> div_inv m tabq taba n tabb nb n m2"
proof -
  let ?b = "mval m tabb nb" and ?A = "mval m (taba + n) nb"
  have a: "mapped m (taba + n) nb" using assms(1) by (rule mapped_sub) auto
  define q where "q = (if ?A < ?b then 0 else 1 :: limb)"
  have lead: "lead_digit m (taba + n) tabb nb = Some q"
    using lead_digit_spec [OF a assms(2)] by (simp add: q_def)
  define m1 where "m1 = m(tabq + n \<mapsto> q)"
  have w: "m (tabq + n) \<noteq> None" using assms(3) by (simp add: mapped_def)
  then have put: "put m (tabq + n) q = Some m1" by (simp add: put_mapped m1_def)
  have only1: "only2 taba (n + nb) tabq (Suc n) m m1" using w by (auto simp: only2_def m1_def)
  have same: "mval m1 (taba + n) nb = ?A" "mval m1 tabb nb = ?b"
    unfolding m1_def by (rule mval_put; use ap in \<open>auto simp: cells_apart_def\<close>)+
  have A: "?A < 2 * ?b" using normalised [of m tabb nb b1] assms(4-6) mval_less [of m "taba + n" nb] by linarith
  have "\<exists>m2. (if q \<noteq> 0 then map_option fst (mp_sub m1 (taba + n) (taba + n) tabb nb 0) else Some m1) = Some m2
    \<and> only (taba + n) nb m1 m2 \<and> mval m2 (taba + n) nb + unat q * ?b = ?A"
  proof (cases "?A < ?b")
    case True
    then show ?thesis using same by (simp add: q_def)
  next
    case False
    have mp: "mapped m1 (taba + n) nb" "mapped m1 tabb nb"
      using only2_mapped [OF only1] a assms(2) by simp_all
    have "operand (taba + n) (taba + n) nb" "operand (taba + n) tabb nb"
      using ap(1) by (auto simp: operand_def cells_apart_def)
    from mp_sub_spec [OF mp(1,2,1) this, of 0]
    obtain m2 k where 2: "mp_sub m1 (taba + n) (taba + n) tabb nb 0 = Some (m2, k)" "only (taba + n) nb m1 m2"
      "mval m2 (taba + n) nb + ?b = ?A + BASE ^ nb * unat k" unfolding same by auto
    have "unat k = 0"
    proof (rule ccontr)
      assume "unat k \<noteq> 0"
      then have "BASE ^ nb * 1 \<le> BASE ^ nb * unat k" by (intro mult_le_mono2) simp
      then show False using 2(3) False mval_less [of m2 "taba + n" nb] by linarith
    qed
    then show ?thesis using 2 False by (simp add: q_def)
  qed
  then obtain m2 where 2: "(if q \<noteq> 0 then map_option fst (mp_sub m1 (taba + n) (taba + n) tabb nb 0) else Some m1) = Some m2"
    "only (taba + n) nb m1 m2" "mval m2 (taba + n) nb + unat q * ?b = ?A" by blast
  have "only2 taba (n + nb) tabq (Suc n) m m2" by (rule only2_step [OF only1 2(2)]) auto
  moreover have "m2 (taba + j) = m (taba + j)" if "j < n" for j
    using only_at [OF 2(2), of "taba + j"] that ap(2) by (auto simp: m1_def cells_apart_def)
  moreover have "mval m2 (taba + n) nb < ?b"
    using 2(3) A by (auto simp: q_def split: if_splits)
  moreover have "m2 (tabq + n) = Some q"
    using only_at [OF 2(2), of "tabq + n"] ap(2) by (auto simp: m1_def cells_apart_def)
  ultimately have "div_inv m tabq taba n tabb nb n m2"
    using 2(3) by (simp add: div_inv_def)
  then show ?thesis using lead put 2(1) by blast
qed

lemma mp_divnorm_spec:
  assumes "mapped m taba na" "mapped m tabb nb" "mapped m tabq (na - nb + 1)" "0 < nb" "nb \<le> na"
    and "m (tabb + nb - 1) = Some b1" "BASE \<le> 2 * unat b1" "min (na - nb) nb < DIVNORM_LARGE_THRESHOLD"
    and ap: "cells_apart taba na tabb nb" "cells_apart taba na tabq (na - nb + 1)" "cells_apart tabq (na - nb + 1) tabb nb"
  shows "\<exists>m'. mp_divnorm large m tabq taba na tabb nb = Some (m', 0)
    \<and> only2 taba na tabq (na - nb + 1) m m'
    \<and> mval m' tabq (na - nb + 1) = mval m taba na div mval m tabb nb
    \<and> mval m' taba nb = mval m taba na mod mval m tabb nb"
proof (cases "nb = 1")
  case True
  have b: "mval m tabb nb = unat b1" using assms(6) True by simp
  have sz: "na - nb + 1 = na" using True assms(5) by simp
  have b0: "unat (0 :: limb) < unat b1" using assms(7) by (auto simp: BASE_def)
  have "taba \<le> tabq \<or> tabq + na \<le> taba" using ap(2) [unfolded sz] by (auto simp: cells_apart_def)
  from mp_div1norm_spec [OF assms(1) assms(3) [unfolded sz] this b0 assms(7)]
  obtain m1 r where 1: "mp_div1norm m tabq taba na b1 0 = Some (m1, r)" "only tabq na m m1" "unat r < unat b1"
    "mval m1 tabq na * unat b1 + unat r = mval m taba na" by auto
  let ?m = "m1(taba \<mapsto> r)"
  have w: "m taba \<noteq> None" "m1 taba \<noteq> None"
    using assms(1,4,5) only_mapped [OF 1(2), of taba na] unfolding mapped_def
    by (metis add.right_neutral gr_zeroI less_le_trans not_less_zero)+
  have "only2 taba na tabq na m ?m"
    using 1(2) w assms(4,5) by (auto simp: only2_def only_def)
  moreover have "mval ?m tabq na = mval m1 tabq na"
    using ap(2) [unfolded sz] assms(4,5) by (intro mval_put) (auto simp: cells_apart_def)
  moreover have "mval m taba na div unat b1 = mval m1 tabq na \<and> mval m taba na mod unat b1 = unat r"
    by (rule quot_rem [OF 1(4) [symmetric] 1(3)])
  ultimately show ?thesis
    using True assms(6) 1(1) w unfolding b sz by (simp add: mp_divnorm_def put_mapped)
next
  case False
  define n where "n = na - nb"
  have na: "na = n + nb" "na - nb + 1 = Suc n" using assms(5) by (simp_all add: n_def)
  have nb: "1 < nb" using assms(4) False by simp
  note mp = assms(1) [unfolded na(1)] assms(2) assms(3) [unfolded na(2)]
  note ap' = ap [unfolded na(2), unfolded na(1)]
  define b1_inv where "b1_inv = (if UDIV1NORM_THRESHOLD \<le> n then udiv1norm_init b1 else 0)"
  have inv: "b1_inv = 0 \<or> b1_inv = udiv1norm_init b1" by (simp add: b1_inv_def)
  obtain q m1 m2 where start: "lead_digit m (taba + n) tabb nb = Some q" "put m (tabq + n) q = Some m1"
    "(if q \<noteq> 0 then map_option fst (mp_sub m1 (taba + n) (taba + n) tabb nb 0) else Some m1) = Some m2"
    "div_inv m tabq taba n tabb nb n m2"
    using div_inv_start [OF mp nb assms(6,7) ap'] by blast
  have "\<exists>m'. for_down (divnorm_round tabq taba tabb nb b1 b1_inv) n m2 = Some m' \<and> div_inv m tabq taba n tabb nb 0 m'"
    by (rule for_down_inv [where n = n and P = "div_inv m tabq taba n tabb nb"])
      (use div_inv_round [OF mp nb assms(6,7) inv ap'] start(4) in auto)
  then obtain m' where m': "for_down (divnorm_round tabq taba tabb nb b1 b1_inv) n m2 = Some m'"
    "div_inv m tabq taba n tabb nb 0 m'" by blast
  have "mp_divnorm large m tabq taba na tabb nb = Some (m', 0)"
  proof -
    have small: "\<not> DIVNORM_LARGE_THRESHOLD \<le> min n nb" using assms(8) by (simp only: n_def not_le)
    show ?thesis
      unfolding mp_divnorm_def assms(6) bind.bind_lunit if_not_P [OF False] n_def [symmetric] Let_def if_not_P [OF small]
        b1_inv_def [symmetric] start(1,2,3) m'(1) ..
  qed
  moreover have "mval m taba na div mval m tabb nb = mval m' tabq (Suc n) \<and> mval m taba na mod mval m tabb nb = mval m' taba nb"
    by (rule quot_rem) (use m'(2) in \<open>simp_all add: div_inv_def na(1)\<close>)
  ultimately show ?thesis using m'(2) unfolding na(2) by (auto simp: div_inv_def na(1))
qed


section \<open>Properties\<close>

text \<open>
  C38: \<^verbatim>\<open>udiv1norm\<close> divides a double limb by a normalised limb without a division instruction: with
  the reciprocal of \<^verbatim>\<open>udiv1norm_init\<close> it returns the exact quotient and remainder for every dividend
  whose high limb is below the divisor.
\<close>

theorem udiv1norm_exact:
  assumes "2 ^ 63 \<le> unat d" "unat a1 < unat d"
  shows "udiv1norm a1 a0 d (udiv1norm_init d) = (q, r) \<longleftrightarrow>
    unat q = (unat a1 * 2 ^ 64 + unat a0) div unat d \<and> unat r = (unat a1 * 2 ^ 64 + unat a0) mod unat d"
proof -
  have "BASE \<le> 2 * unat d" using assms(1) by (simp add: BASE_def)
  from udiv1norm_spec [OF this assms(2), of a0] show ?thesis
    by (cases "udiv1norm a1 a0 d (udiv1norm_init d)") (auto simp: BASE_def word_unat_eq_iff)
qed

theorem udiv1norm_exact_witness:
  "udiv1norm 1 5 (2 ^ 63 + 1) (udiv1norm_init (2 ^ 63 + 1)) = (2, 3)"
  using udiv1norm_exact [of "2 ^ 63 + 1" 1 5 2 3] by simp

text \<open>
  C9: The base case of the division of multi-limb numbers, \<^verbatim>\<open>mp_divnorm\<close>, is exact: for a normalised
  divisor it ends without an access outside its arrays and leaves the quotient in \<^verbatim>\<open>tabq\<close> and the
  remainder in the low limbs of \<^verbatim>\<open>taba\<close>; nothing else is written. The estimated quotient limbs are
  never too small, and the loop that adds the divisor back always ends.
\<close>

theorem mp_divnorm_exact:
  assumes "mapped m taba na" "mapped m tabb nb" "mapped m tabq (na - nb + 1)" "0 < nb" "nb \<le> na"
    and "m (tabb + nb - 1) = Some b1" "2 ^ 63 \<le> unat b1" "na - nb < 50 \<or> nb < 50"
    and "cells_apart taba na tabb nb" "cells_apart taba na tabq (na - nb + 1)" "cells_apart tabq (na - nb + 1) tabb nb"
  shows "\<exists>m'. mp_divnorm large m tabq taba na tabb nb = Some (m', 0)
    \<and> only2 taba na tabq (na - nb + 1) m m'
    \<and> mval m' tabq (na - nb + 1) = mval m taba na div mval m tabb nb
    \<and> mval m' taba nb = mval m taba na mod mval m tabb nb"
proof (rule mp_divnorm_spec)
  show "BASE \<le> 2 * unat b1" using assms(7) by (simp add: BASE_def)
  show "min (na - nb) nb < DIVNORM_LARGE_THRESHOLD" using assms(8) by (auto simp: DIVNORM_LARGE_THRESHOLD_def)
qed (use assms in auto)

theorem mp_divnorm_exact_witness:
  "\<exists>m'. mp_divnorm (\<lambda>_ _ _ _ _ _. None) demo_limbs 4 0 2 2 2 = Some (m', 0)
     \<and> mval m' 4 1 = 1 \<and> mval m' 0 2 = 2 ^ 127 - 8"
proof -
  have q: "mapped demo_limbs 4 1" by (rule mapped_sub [OF demo_mapped(3)]) auto
  have b: "demo_limbs (2 + 2 - 1) = Some (2 ^ 63)" by (simp add: demo_limbs_def)
  from mp_divnorm_exact [of demo_limbs 0 2 2 2 4 "2 ^ 63"] q b show ?thesis
    by (simp add: demo_mapped demo_mval cells_apart_def del: mval.simps One_nat_def) (auto simp del: mval.simps)
qed

end
