(* ===== verification/CStrings.thy ===== *)
theory CStrings
  imports Prelude
begin

text \<open>
  The string helpers at the head of \<^verbatim>\<open>cutils.c\<close>: bounded copy and concatenation, prefix and
  suffix tests. A \<open>char *\<close> is the list of bytes from the pointer to the end of its object;
  \<^term>\<open>None\<close> is an access outside it.
\<close>

section \<open>Definitions\<close>

text \<open>
  The copy loop: \<open>q\<close> is the offset of the write pointer, \<open>p\<close> that of the read pointer. The
  source is read before the room in the destination is tested.
\<close>

function pstrcpy_loop :: "u8 list \<Rightarrow> int \<Rightarrow> nat \<Rightarrow> u8 list \<Rightarrow> nat \<Rightarrow> u8 list option" where
  "pstrcpy_loop buf buf_size q str p =
     do { c \<leftarrow> load str p;
          if c = 0 \<or> buf_size - 1 \<le> int q then store buf q 0
          else do { buf' \<leftarrow> store buf q c;
                    pstrcpy_loop buf' buf_size (Suc q) str (Suc p) } }"
  by pat_completeness auto
termination
  by (relation "measure (\<lambda>(buf, n, q, str, p). length str - p)") (auto dest: load_SomeD)

declare pstrcpy_loop.simps [simp del]

definition js__pstrcpy :: "u8 list \<Rightarrow> int \<Rightarrow> u8 list \<Rightarrow> u8 list option" where
  "js__pstrcpy buf buf_size str =
     (if buf_size \<le> 0 then Some buf else pstrcpy_loop buf buf_size 0 str 0)"

definition js__pstrcat :: "u8 list \<Rightarrow> int \<Rightarrow> u8 list \<Rightarrow> u8 list option" where
  "js__pstrcat buf buf_size s =
     do { len \<leftarrow> strlen buf;
          if int len < buf_size
          then do { tail \<leftarrow> js__pstrcpy (drop len buf) (buf_size - int len) s;
                    Some (take len buf @ tail) }
          else Some buf }"

text \<open>
  The result is the returned flag and, when it is set, the offset stored through \<open>ptr\<close>.
\<close>

function strstart_loop :: "u8 list \<Rightarrow> u8 list \<Rightarrow> nat \<Rightarrow> (bool \<times> nat) option" where
  "strstart_loop str val i =
     do { q \<leftarrow> load val i;
          if q \<noteq> 0
          then do { p \<leftarrow> load str i;
                    if p \<noteq> q then Some (False, 0) else strstart_loop str val (Suc i) }
          else Some (True, i) }"
  by pat_completeness auto
termination
  by (relation "measure (\<lambda>(str, val, i). length val - i)") (auto dest: load_SomeD)

declare strstart_loop.simps [simp del]

definition js__strstart :: "u8 list \<Rightarrow> u8 list \<Rightarrow> (bool \<times> nat) option" where
  "js__strstart str val = strstart_loop str val 0"

definition js__has_suffix :: "u8 list \<Rightarrow> u8 list \<Rightarrow> bool option" where
  "js__has_suffix str suffix =
     do { len \<leftarrow> strlen str;
          slen \<leftarrow> strlen suffix;
          Some (slen \<le> len \<and> take slen (drop (len - slen) str) = take slen suffix) }"

section \<open>Lemmas\<close>

lemma pstrcpy_loop_copies:
  assumes "0 \<notin> set s" and "p \<le> length s" and "int q \<le> n - 1" and "n \<le> int (length buf)"
  shows "pstrcpy_loop buf n q (s @ 0 # rest) p =
           (let t = take (nat (n - 1) - q) (drop p s)
            in Some (take q buf @ t @ 0 # drop (Suc (q + length t)) buf))"
  using assms
proof (induction "length s - p" arbitrary: p q buf)
  case 0
  then have "p = length s" by simp
  with 0 show ?case
    by (subst pstrcpy_loop.simps) (simp add: mem_rules upd_conv_take_nth_drop)
next
  case (Suc k)
  then have p: "p < length s" by simp
  then have c: "load (s @ 0 # rest) p = Some (s ! p)" "s ! p \<noteq> 0"
    using Suc.prems(1) by (auto simp: load_def nth_append dest: nth_mem)
  show ?case
  proof (cases "n - 1 \<le> int q")
    case True
    with Suc.prems c show ?thesis
      by (subst pstrcpy_loop.simps) (simp add: mem_rules upd_conv_take_nth_drop)
  next
    case False
    then have q: "q < length buf" and q': "int (Suc q) \<le> n - 1"
      using Suc.prems by auto
    have m: "nat (n - 1) - q = Suc (nat (n - 1) - Suc q)"
      using q' by arith
    have d: "drop p s = s ! p # drop (Suc p) s"
      using p by (simp add: Cons_nth_drop_Suc)
    have "pstrcpy_loop buf n q (s @ 0 # rest) p
        = pstrcpy_loop (buf[q := s ! p]) n (Suc q) (s @ 0 # rest) (Suc p)"
      using False c q by (subst pstrcpy_loop.simps) (simp add: mem_rules)
    also have "\<dots> = (let t = take (nat (n - 1) - Suc q) (drop (Suc p) s)
       in Some (take (Suc q) (buf[q := s ! p]) @ t @ 0 # drop (Suc (Suc q + length t)) (buf[q := s ! p])))"
      using Suc.prems Suc.hyps(2) p q' by (intro Suc.hyps(1)) auto
    finally show ?thesis
      using q by (simp add: Let_def m d take_list_update_Suc)
  qed
qed

lemma strstart_loop_spec:
  assumes "0 \<notin> set v" and "0 \<notin> set s" and "i \<le> length v" and "i \<le> length s"
    and "take i v = take i s"
  shows "strstart_loop (s @ 0 # r1) (v @ 0 # r2) i
           = Some (if take (length v) s = v then (True, length v) else (False, 0))"
  using assms
proof (induction "length v - i" arbitrary: i)
  case 0
  then show ?case
    by (subst strstart_loop.simps) (auto simp: load_def nth_append)
next
  case (Suc k)
  then have i: "i < length v" by simp
  then have vi: "load (v @ 0 # r2) i = Some (v ! i)" "v ! i \<noteq> 0"
    using Suc.prems(1) by (auto simp: load_def nth_append dest: nth_mem)
  show ?case
  proof (cases "i < length s \<and> s ! i = v ! i")
    case True
    then have "take (Suc i) v = take (Suc i) s"
      using Suc.prems(5) i by (simp add: take_Suc_conv_app_nth)
    then have "strstart_loop (s @ 0 # r1) (v @ 0 # r2) (Suc i)
       = Some (if take (length v) s = v then (True, length v) else (False, 0))"
      using Suc True i by (intro Suc.hyps(1)) auto
    then show ?thesis
      using True vi by (subst strstart_loop.simps) (simp add: load_def nth_append)
  next
    case False
    then have "take (length v) s \<noteq> v"
      using i by (metis length_take min_less_iff_conj nth_take)
    moreover have "load (s @ 0 # r1) i \<noteq> Some (v ! i)" "\<exists>c. load (s @ 0 # r1) i = Some c"
      using False Suc.prems(4) vi(2) by (auto simp: load_def nth_append nth_Cons')
    ultimately show ?thesis
      using vi by (subst strstart_loop.simps) (auto simp: mem_rules)
  qed
qed

text \<open>
  The copy truncates to \<open>buf_size - 1\<close> bytes, terminates what it copied and leaves the rest of
  the buffer alone; concatenation does so behind the string already there.
\<close>

lemma js__pstrcpy_truncates:
  assumes "0 \<notin> set s" and "0 < n" and "n \<le> int (length buf)"
  shows "js__pstrcpy buf n (s @ 0 # rest) =
           (let t = take (nat n - 1) s in Some (t @ 0 # drop (Suc (length t)) buf))"
proof -
  have "nat n - 1 = nat (n - 1) - 0"
    using assms(2) by simp
  then show ?thesis
    using assms by (simp add: js__pstrcpy_def pstrcpy_loop_copies)
qed

lemma js__pstrcat_appends:
  assumes "0 \<notin> set d" and "0 \<notin> set s" and "int (length d) < n"
    and "n \<le> int (length (d @ 0 # room))"
  shows "js__pstrcat (d @ 0 # room) n (s @ 0 # rest) =
           (let t = take (nat n - 1 - length d) s in Some (d @ t @ 0 # drop (length t) room))"
proof -
  have "nat (n - int (length d)) - 1 = nat n - 1 - length d"
    using assms(3) by simp
  then show ?thesis
    using assms by (simp add: js__pstrcat_def js__pstrcpy_truncates Let_def)
qed

lemma js__strstart_iff_prefix:
  assumes "0 \<notin> set s" and "0 \<notin> set v"
  shows "js__strstart (s @ 0 # r1) (v @ 0 # r2) =
           Some (if take (length v) s = v then (True, length v) else (False, 0))"
  using assms by (simp add: js__strstart_def strstart_loop_spec)

lemma js__has_suffix_iff:
  assumes "0 \<notin> set s" and "0 \<notin> set v"
  shows "js__has_suffix (s @ 0 # r1) (v @ 0 # r2) = Some (\<exists>u. s = u @ v)"
proof -
  have "length v \<le> length s \<and> drop (length s - length v) s = v \<longleftrightarrow> (\<exists>u. s = u @ v)"
    by (metis append_eq_conv_conj append_take_drop_id diff_add_inverse2 diff_diff_cancel
        length_append length_drop le_add2)
  then show ?thesis
    using assms by (auto simp: js__has_suffix_def)
qed

section \<open>Properties\<close>

text \<open>
  \<^verbatim>\<open>js__pstrcat\<close> never writes beyond the \<open>n\<close> bytes it is told of: it keeps the string that is
  there, appends the longest prefix of the source that leaves room for the terminator, and
  terminates it.
\<close>

theorem pstrcat_truncates:
  assumes "0 \<notin> set d" and "0 \<notin> set s" and "int (length d) < n" and "n \<le> int (length (d @ 0 # room))"
  shows "js__pstrcat (d @ 0 # room) n (s @ 0 # rest) =
           (let t = take (nat n - 1 - length d) s in Some (d @ t @ 0 # drop (length t) room))"
  using assms by (rule js__pstrcat_appends)

theorem pstrcat_truncates_witness:
  "js__pstrcat [97, 0, 1, 1, 1] 4 [98, 99, 100, 0] = Some [97, 98, 99, 0, 1]"
  using pstrcat_truncates [of "[97]" "[98, 99, 100]" 4 "[1, 1, 1]" "[]"] by simp

text \<open>
  \<^verbatim>\<open>js__strstart\<close> answers whether the second string is a prefix of the first, with the position
  behind it, and \<^verbatim>\<open>js__has_suffix\<close> whether it is a suffix; neither reads past a terminator.
\<close>

theorem prefix_and_suffix:
  assumes "0 \<notin> set s" and "0 \<notin> set v"
  shows "js__strstart (s @ 0 # r1) (v @ 0 # r2)
           = Some (if \<exists>u. s = v @ u then (True, length v) else (False, 0))
     \<and> js__has_suffix (s @ 0 # r1) (v @ 0 # r2) = Some (\<exists>u. s = u @ v)"
proof -
  have "take (length v) s = v \<longleftrightarrow> (\<exists>u. s = v @ u)"
    by (metis append_eq_conv_conj append_take_drop_id)
  then show ?thesis
    using assms by (simp add: js__strstart_iff_prefix js__has_suffix_iff)
qed

theorem prefix_and_suffix_witness:
  "js__strstart [97, 98, 0] [97, 0] = Some (True, 1) \<and> js__has_suffix [97, 98, 0] [97, 0] = Some False"
  using prefix_and_suffix [of "[97, 98]" "[97]" "[]" "[]"] by (simp add: Cons_eq_append_conv)

end
