(* ===== verification/Endian.thy ===== *)
theory Endian
  imports Prelude
begin

text \<open>
  The unaligned accessors and byte swaps of \<^verbatim>\<open>cutils.h\<close>. They copy an integer to or from
  memory with \<open>memcpy\<close>; the model is the little-endian layout of the platforms the Swift
  package builds for, which is what \<^verbatim>\<open>is_be\<close> reports there.
\<close>

section \<open>Definitions\<close>

text \<open>The object representation of an integer: \<open>n\<close> bytes, least significant first.\<close>

primrec word_bytes :: "nat \<Rightarrow> 'a::len word \<Rightarrow> u8 list" where
  "word_bytes 0 w = []"
| "word_bytes (Suc n) w = ucast w # word_bytes n (drop_bit 8 w)"

primrec bytes_val :: "u8 list \<Rightarrow> nat" where
  "bytes_val [] = 0"
| "bytes_val (b # bs) = unat b + 256 * bytes_val bs"

definition load_bytes :: "u8 list \<Rightarrow> nat \<Rightarrow> nat \<Rightarrow> u8 list option" where
  "load_bytes m p n = (if p + n \<le> length m then Some (take n (drop p m)) else None)"

definition is_be :: u8 where
  "is_be = hd (word_bytes 2 (0x100 :: u16))"

definition get_u64 :: "u8 list \<Rightarrow> nat \<Rightarrow> u64 option" where
  "get_u64 tab p = map_option (\<lambda>bs. of_nat (bytes_val bs)) (load_bytes tab p 8)"

definition get_i64 :: "u8 list \<Rightarrow> nat \<Rightarrow> int option" where
  "get_i64 tab p = map_option (\<lambda>bs. sint (of_nat (bytes_val bs) :: u64)) (load_bytes tab p 8)"

definition put_u64 :: "u8 list \<Rightarrow> nat \<Rightarrow> u64 \<Rightarrow> u8 list option" where
  "put_u64 tab p v = memcpy tab p (word_bytes 8 v) 0 8"

definition get_u32 :: "u8 list \<Rightarrow> nat \<Rightarrow> u32 option" where
  "get_u32 tab p = map_option (\<lambda>bs. of_nat (bytes_val bs)) (load_bytes tab p 4)"

definition get_i32 :: "u8 list \<Rightarrow> nat \<Rightarrow> int option" where
  "get_i32 tab p = map_option (\<lambda>bs. sint (of_nat (bytes_val bs) :: u32)) (load_bytes tab p 4)"

definition put_u32 :: "u8 list \<Rightarrow> nat \<Rightarrow> u32 \<Rightarrow> u8 list option" where
  "put_u32 tab p v = memcpy tab p (word_bytes 4 v) 0 4"

definition get_u16 :: "u8 list \<Rightarrow> nat \<Rightarrow> u32 option" where
  "get_u16 tab p = map_option (\<lambda>bs. ucast (of_nat (bytes_val bs) :: u16)) (load_bytes tab p 2)"

definition get_i16 :: "u8 list \<Rightarrow> nat \<Rightarrow> int option" where
  "get_i16 tab p = map_option (\<lambda>bs. sint (of_nat (bytes_val bs) :: u16)) (load_bytes tab p 2)"

definition put_u16 :: "u8 list \<Rightarrow> nat \<Rightarrow> u16 \<Rightarrow> u8 list option" where
  "put_u16 tab p v = memcpy tab p (word_bytes 2 v) 0 2"

definition get_u8 :: "u8 list \<Rightarrow> nat \<Rightarrow> u32 option" where
  "get_u8 tab p = map_option ucast (load tab p)"

definition get_i8 :: "u8 list \<Rightarrow> nat \<Rightarrow> int option" where
  "get_i8 tab p = map_option sint (load tab p)"

definition put_u8 :: "u8 list \<Rightarrow> nat \<Rightarrow> u8 \<Rightarrow> u8 list option" where
  "put_u8 tab p v = store tab p v"

definition bswap16 :: "u16 \<Rightarrow> u16" where
  "bswap16 x = drop_bit 8 x OR push_bit 8 x"

definition bswap32 :: "u32 \<Rightarrow> u32" where
  "bswap32 v = (drop_bit 24 (v AND 0xff000000) OR drop_bit 8 (v AND 0x00ff0000))
     OR (push_bit 8 (v AND 0x0000ff00) OR push_bit 24 (v AND 0x000000ff))"

definition bswap64 :: "u64 \<Rightarrow> u64" where
  "bswap64 v =
     drop_bit (7 * 8) (v AND push_bit (7 * 8) 0xff) OR
     drop_bit (5 * 8) (v AND push_bit (6 * 8) 0xff) OR
     drop_bit (3 * 8) (v AND push_bit (5 * 8) 0xff) OR
     drop_bit (1 * 8) (v AND push_bit (4 * 8) 0xff) OR
     push_bit (1 * 8) (v AND push_bit (3 * 8) 0xff) OR
     push_bit (3 * 8) (v AND push_bit (2 * 8) 0xff) OR
     push_bit (5 * 8) (v AND push_bit (1 * 8) 0xff) OR
     push_bit (7 * 8) (v AND push_bit (0 * 8) 0xff)"

definition inplace_bswap16 :: "u8 list \<Rightarrow> nat \<Rightarrow> u8 list option" where
  "inplace_bswap16 tab p = do { v \<leftarrow> get_u16 tab p; put_u16 tab p (bswap16 (ucast v)) }"

definition inplace_bswap32 :: "u8 list \<Rightarrow> nat \<Rightarrow> u8 list option" where
  "inplace_bswap32 tab p = do { v \<leftarrow> get_u32 tab p; put_u32 tab p (bswap32 v) }"

section \<open>Lemmas\<close>

lemma length_word_bytes [simp]: "length (word_bytes n w) = n"
  by (induction n arbitrary: w) auto

lemma is_be_False: "is_be = 0"
  by code_simp

lemma unat_ucast_u8: "unat (ucast w :: u8) = unat w mod 256" for w :: "'a::len word"
  unfolding unsigned_ucast_eq by (simp add: take_bit_eq_mod)

lemma bytes_val_word_bytes: "bytes_val (word_bytes n w) = unat w mod 256 ^ n"
proof (induction n arbitrary: w)
  case 0
  then show ?case by simp
next
  case (Suc n)
  have "unat w mod 256 + 256 * (unat w div 256 mod 256 ^ n) = unat w mod (256 * 256 ^ n)"
    by (simp add: mod_mult2_eq)
  then show ?case
    using Suc by (simp add: unat_rules unat_ucast_u8)
qed

lemma bytes_val_less: "bytes_val bs < 256 ^ length bs"
proof (induction bs)
  case Nil
  then show ?case by simp
next
  case (Cons b bs)
  have "unat b < 256"
    using unat_lt2p [of b] by simp
  with Cons show ?case by simp
qed

lemma word_bytes_bytes_val:
  "length bs = n \<Longrightarrow> 8 * n \<le> LENGTH('a) \<Longrightarrow> word_bytes n (of_nat (bytes_val bs) :: 'a::len word) = bs"
proof (induction bs arbitrary: n)
  case Nil
  then show ?case by simp
next
  case (Cons b bs)
  then obtain k where n: "n = Suc k" "length bs = k"
    by (cases n) auto
  define v where "v = bytes_val (b # bs)"
  have "(256 :: nat) ^ n \<le> 2 ^ LENGTH('a)"
    using Cons.prems(2) power_increasing [of "8 * n" "LENGTH('a)" "2 :: nat"]
    by (simp add: power_mult)
  then have v: "v < 2 ^ LENGTH('a)"
    using bytes_val_less [of "b # bs"] Cons.prems(1) by (simp add: n v_def)
  have b: "unat b < 256"
    using unat_lt2p [of b] by simp
  have "unat (ucast (of_nat v :: 'a word) :: u8) = unat b"
    using v b by (simp add: unat_ucast_u8 unat_of_nat) (simp add: v_def)
  then have hd: "ucast (of_nat v :: 'a word) = b"
    by (simp add: word_unat_eq_iff)
  have "unat (drop_bit 8 (of_nat v :: 'a word)) = unat (of_nat (bytes_val bs) :: 'a word)"
    using v b by (simp add: unat_rules unat_of_nat) (simp add: v_def)
  then have "drop_bit 8 (of_nat v :: 'a word) = of_nat (bytes_val bs)"
    by (simp add: word_unat_eq_iff)
  with hd Cons n show ?case unfolding v_def [symmetric] by simp
qed

lemma bytes_val_word_bytes_full:
  "8 * n = LENGTH('a) \<Longrightarrow> of_nat (bytes_val (word_bytes n w)) = w" for w :: "'a::len word"
  using power_mult [of "2::nat" 8 n] unat_lt2p [of w]
  by (simp add: bytes_val_word_bytes word_unat_eq_iff unat_of_nat del: unsigned_less)

text \<open>A value stored is the value loaded, and a store elsewhere does not change it.\<close>

lemma load_bytes_memcpy:
  assumes "memcpy m p src 0 n = Some m'" and "length src = n"
  shows "load_bytes m' p n = Some src"
  using assms by (auto simp: load_bytes_def memcpy_Some_iff)

lemma get_put_u32: "put_u32 m p v = Some m' \<Longrightarrow> get_u32 m' p = Some v"
  using load_bytes_memcpy [of m p "word_bytes 4 v" 4 m']
  by (simp add: put_u32_def get_u32_def bytes_val_word_bytes_full)

lemma get_put_u16: "put_u16 m p v = Some m' \<Longrightarrow> get_u16 m' p = Some (ucast v)"
  using load_bytes_memcpy [of m p "word_bytes 2 v" 2 m']
  by (simp add: put_u16_def get_u16_def bytes_val_word_bytes_full)

lemma get_put_u64: "put_u64 m p v = Some m' \<Longrightarrow> get_u64 m' p = Some v"
  using load_bytes_memcpy [of m p "word_bytes 8 v" 8 m']
  by (simp add: put_u64_def get_u64_def bytes_val_word_bytes_full)

text \<open>The swaps reverse the representation, so each is its own inverse.\<close>

lemma nth_word_bytes: "i < n \<Longrightarrow> word_bytes n w ! i = ucast (drop_bit (8 * i) w)"
  by (induction n arbitrary: i w) (auto simp: nth_Cons' drop_bit_drop_bit algebra_simps)

text \<open>Where each bit of a swapped word comes from, by enumeration of the bits.\<close>

lemma less_32_cases:
  assumes "k < (32 :: nat)"
  shows "k = 0 \<or> k = 1 \<or> k = 2 \<or> k = 3 \<or> k = 4 \<or> k = 5 \<or> k = 6 \<or> k = 7
     \<or> k = 8 \<or> k = 9 \<or> k = 10 \<or> k = 11 \<or> k = 12 \<or> k = 13 \<or> k = 14
     \<or> k = 15 \<or> k = 16 \<or> k = 17 \<or> k = 18 \<or> k = 19 \<or> k = 20 \<or> k = 21
     \<or> k = 22 \<or> k = 23 \<or> k = 24 \<or> k = 25 \<or> k = 26 \<or> k = 27 \<or> k = 28
     \<or> k = 29 \<or> k = 30 \<or> k = 31"
  using assms by arith

lemma bit_bswap32: "k < 32 \<Longrightarrow> bit (bswap32 v) k \<longleftrightarrow> bit v (8 * (3 - k div 8) + k mod 8)"
  by (drule less_32_cases, elim disjE) (simp_all add: bswap32_def bit_simps flip: numeral_2_eq_2)

lemma bit_bswap16:
  assumes "k < 16"
  shows "bit (bswap16 v) k \<longleftrightarrow> bit v (8 * (1 - k div 8) + k mod 8)"
proof (cases "k < 8")
  case True
  then show ?thesis by (simp add: bswap16_def bit_simps)
next
  case False
  then have "k div 8 = 1" "k mod 8 = k - 8"
    using False assms le_mod_geq [of 8 k] by auto
  moreover have "\<not> bit v (8 + k)"
    using False bit_imp_le_length [of v "8 + k"] by auto
  ultimately show ?thesis
    using False assms by (simp add: bswap16_def bit_simps)
qed

lemma word_bytes_bswap16: "word_bytes 2 (bswap16 v) = rev (word_bytes 2 v)"
  by (rule nth_equalityI)
    (auto simp: nth_word_bytes rev_nth bit_simps bit_bswap16 intro!: bit_word_eqI)

lemma word_bytes_bswap32: "word_bytes 4 (bswap32 v) = rev (word_bytes 4 v)"
  by (rule nth_equalityI)
    (auto simp: nth_word_bytes rev_nth bit_simps bit_bswap32 intro!: bit_word_eqI)

lemma inplace_bswap32_rev:
  assumes "p + 4 \<le> length tab"
  shows "inplace_bswap32 tab p = Some (take p tab @ rev (take 4 (drop p tab)) @ drop (p + 4) tab)"
  using assms
  by (simp add: inplace_bswap32_def get_u32_def put_u32_def load_bytes_def memcpy_in
      word_bytes_bswap32 word_bytes_bytes_val)

lemma inplace_bswap16_rev:
  assumes "p + 2 \<le> length tab"
  shows "inplace_bswap16 tab p = Some (take p tab @ rev (take 2 (drop p tab)) @ drop (p + 2) tab)"
proof -
  have "ucast (ucast v :: u32) = v" for v :: u16
    by (rule bit_word_eqI) (simp add: bit_simps)
  then show ?thesis
    using assms
    by (simp add: inplace_bswap16_def get_u16_def put_u16_def load_bytes_def memcpy_in
        word_bytes_bswap16 word_bytes_bytes_val)
qed

section \<open>Properties\<close>

text \<open>
  C24: A value stored unaligned anywhere in a buffer is read back by the accessor of its width,
  and swapping it in place reverses its bytes and leaves the rest of the buffer alone.
\<close>

theorem unaligned_roundtrip:
  assumes "put_u16 m p a = Some m1" and "put_u32 m p b = Some m2" and "put_u64 m p c = Some m3"
  shows "get_u16 m1 p = Some (ucast a) \<and> get_u32 m2 p = Some b \<and> get_u64 m3 p = Some c
     \<and> inplace_bswap16 m p = Some (take p m @ rev (take 2 (drop p m)) @ drop (p + 2) m)
     \<and> inplace_bswap32 m p = Some (take p m @ rev (take 4 (drop p m)) @ drop (p + 4) m)"
proof -
  have "p + 8 \<le> length m"
    using assms(3) by (simp add: put_u64_def memcpy_Some_iff)
  with assms show ?thesis
    by (simp add: get_put_u16 get_put_u32 get_put_u64 inplace_bswap16_rev inplace_bswap32_rev)
qed

theorem unaligned_roundtrip_witness:
  "get_u16 [9, 0x34, 0x12, 9, 9, 9, 9, 9, 9] 1 = Some 0x1234 \<and> inplace_bswap16 [9, 1, 2, 9, 9, 9, 9, 9, 9] 1
     = Some [9, 2, 1, 9, 9, 9, 9, 9, 9]"
proof -
  let ?m = "[9, 1, 2, 9, 9, 9, 9, 9, 9]"
  have "put_u16 ?m 1 0x1234 = Some [9, 0x34, 0x12, 9, 9, 9, 9, 9, 9]"
    "put_u32 ?m 1 0 = Some [9, 0, 0, 0, 0, 9, 9, 9, 9]" "put_u64 ?m 1 0 = Some [9, 0, 0, 0, 0, 0, 0, 0, 0]"
    by code_simp+
  from unaligned_roundtrip [OF this] show ?thesis by simp
qed

end
