(* ===== verification/DynBuf.thy ===== *)
theory DynBuf
  imports Prelude Endian
begin

text \<open>
  The dynamic buffer package of \<^verbatim>\<open>cutils.c\<close> and \<^verbatim>\<open>cutils.h\<close>. Sizes are 64-bit words, so the
  additions \<open>s->size + len\<close> wrap as \<open>size_t\<close> does. The reallocation function of the buffer is
  a parameter \<open>rf\<close> of every operation that can grow it; the locale \<open>realloc_func\<close> states
  what the package relies on, and \<^term>\<open>None\<close> is the null pointer it returns on failure.
\<close>

section \<open>The reallocation function\<close>

type_synonym realloc_fn = "u8 list option \<Rightarrow> u64 \<Rightarrow> u8 list option"

abbreviation region :: "'a list option \<Rightarrow> 'a list" where
  "region p \<equiv> (case p of None \<Rightarrow> [] | Some xs \<Rightarrow> xs)"

text \<open>
  The default is \<open>realloc\<close>. The allocator grants a request of at most \<open>limit\<close> bytes and fails
  beyond; \<open>junk\<close> gives the indeterminate bytes of a grown object. A request of size zero
  releases the object.
\<close>

definition dbuf_default_realloc :: "nat \<Rightarrow> (nat \<Rightarrow> u8) \<Rightarrow> realloc_fn" where
  "dbuf_default_realloc limit junk ptr sz =
     (if sz = 0 \<or> limit < unat sz then None
      else Some (map (\<lambda>i. if i < length (region ptr) then region ptr ! i else junk i) [0..<unat sz]))"

section \<open>The buffer and its operations\<close>

record dynbuf =
  buf :: "u8 list option"
  dsize :: u64
  allocated_size :: u64
  derror :: bool

definition dbuf_init2 :: dynbuf where
  "dbuf_init2 = \<lparr>buf = None, dsize = 0, allocated_size = 0, derror = False\<rparr>"

definition dbuf_init :: dynbuf where
  "dbuf_init = dbuf_init2"

text \<open>
  Every operation returns the C result, \<open>0\<close> or \<open>-1\<close>, with the new buffer. The requested
  growth is three halves of the old size or the needed size, whichever is larger.
\<close>

definition dbuf_realloc :: "realloc_fn \<Rightarrow> dynbuf \<Rightarrow> u64 \<Rightarrow> int \<times> dynbuf" where
  "dbuf_realloc rf s new_size =
     (if allocated_size s < new_size then
        if derror s then (-1, s)
        else
          let size = allocated_size s * 3 div 2;
              new_size = (if new_size < size then size else new_size)
          in case rf (buf s) new_size of
               None \<Rightarrow> (-1, s\<lparr>derror := True\<rparr>)
             | Some new_buf \<Rightarrow> (0, s\<lparr>buf := Some new_buf, allocated_size := new_size\<rparr>)
      else (0, s))"

text \<open>Copying into the object behind the buffer pointer; a null pointer is the empty object.\<close>

definition buf_memcpy :: "dynbuf \<Rightarrow> nat \<Rightarrow> u8 list \<Rightarrow> nat \<Rightarrow> nat \<Rightarrow> dynbuf option" where
  "buf_memcpy s d src off n =
     (case memcpy (region (buf s)) d src off n of
        None \<Rightarrow> None
      | Some b \<Rightarrow> Some (s\<lparr>buf := (case buf s of None \<Rightarrow> None | Some _ \<Rightarrow> Some b)\<rparr>))"

definition dbuf_write ::
    "realloc_fn \<Rightarrow> dynbuf \<Rightarrow> u64 \<Rightarrow> u8 list \<Rightarrow> u64 \<Rightarrow> (int \<times> dynbuf) option" where
  "dbuf_write rf s offset data len =
     (let end = offset + len; (r, s) = dbuf_realloc rf s end in
      if r \<noteq> 0 then Some (-1, s)
      else do { s \<leftarrow> buf_memcpy s (unat offset) data 0 (unat len);
                Some (0, if dsize s < end then s\<lparr>dsize := end\<rparr> else s) })"

definition dbuf_put ::
    "realloc_fn \<Rightarrow> dynbuf \<Rightarrow> u8 list \<Rightarrow> u64 \<Rightarrow> (int \<times> dynbuf) option" where
  "dbuf_put rf s data len =
     (let (r, s) = (if allocated_size s < dsize s + len then dbuf_realloc rf s (dsize s + len)
                    else (0, s)) in
      if r \<noteq> 0 then Some (-1, s)
      else if 0 < len
      then do { s \<leftarrow> buf_memcpy s (unat (dsize s)) data 0 (unat len);
                Some (0, s\<lparr>dsize := dsize s + len\<rparr>) }
      else Some (0, s))"

definition dbuf_put_self ::
    "realloc_fn \<Rightarrow> dynbuf \<Rightarrow> u64 \<Rightarrow> u64 \<Rightarrow> (int \<times> dynbuf) option" where
  "dbuf_put_self rf s offset len =
     (let (r, s) = (if allocated_size s < dsize s + len then dbuf_realloc rf s (dsize s + len)
                    else (0, s)) in
      if r \<noteq> 0 then Some (-1, s)
      else do { s \<leftarrow> buf_memcpy s (unat (dsize s)) (region (buf s)) (unat offset) (unat len);
                Some (0, s\<lparr>dsize := dsize s + len\<rparr>) })"

definition dbuf_putc :: "realloc_fn \<Rightarrow> dynbuf \<Rightarrow> u8 \<Rightarrow> (int \<times> dynbuf) option" where
  "dbuf_putc rf s c = dbuf_put rf s [c] 1"

definition dbuf_putstr :: "realloc_fn \<Rightarrow> dynbuf \<Rightarrow> u8 list \<Rightarrow> (int \<times> dynbuf) option" where
  "dbuf_putstr rf s str = do { n \<leftarrow> strlen str; dbuf_put rf s str (of_nat n) }"

definition dbuf_put_u16 :: "realloc_fn \<Rightarrow> dynbuf \<Rightarrow> u16 \<Rightarrow> (int \<times> dynbuf) option" where
  "dbuf_put_u16 rf s val = dbuf_put rf s (word_bytes 2 val) 2"

definition dbuf_put_u32 :: "realloc_fn \<Rightarrow> dynbuf \<Rightarrow> u32 \<Rightarrow> (int \<times> dynbuf) option" where
  "dbuf_put_u32 rf s val = dbuf_put rf s (word_bytes 4 val) 4"

definition dbuf_put_u64 :: "realloc_fn \<Rightarrow> dynbuf \<Rightarrow> u64 \<Rightarrow> (int \<times> dynbuf) option" where
  "dbuf_put_u64 rf s val = dbuf_put rf s (word_bytes 8 val) 8"

text \<open>
  \<open>vsnprintf\<close> with the text \<open>txt\<close> it formats: at most \<open>n - 1\<close> bytes and a terminator are
  stored, and the length of the whole text is returned.
\<close>

definition vsnprintf :: "u8 list \<Rightarrow> nat \<Rightarrow> nat \<Rightarrow> u8 list \<Rightarrow> u8 list option" where
  "vsnprintf m off n txt =
     (if n = 0 then Some m
      else let t = take (n - 1) txt @ [0] in memcpy m off t 0 (length t))"

definition dbuf_printf ::
    "realloc_fn \<Rightarrow> dynbuf \<Rightarrow> u8 list \<Rightarrow> (int \<times> dynbuf) option" where
  "dbuf_printf rf s txt =
     (let len = length txt in
      if len < 128
      then do { b \<leftarrow> vsnprintf (replicate 128 0) 0 128 txt;
                dbuf_put rf s b (of_nat len) }
      else
        let (r, s) = dbuf_realloc rf s (dsize s + of_nat len + 1) in
        if r \<noteq> 0 then Some (-1, s)
        else do { b \<leftarrow> vsnprintf (region (buf s)) (unat (dsize s))
                          (unat (allocated_size s - dsize s)) txt;
                  Some (0, s\<lparr>buf := (case buf s of None \<Rightarrow> None | Some _ \<Rightarrow> Some b),
                             dsize := dsize s + of_nat len\<rparr>) })"

text \<open>
  Freeing resets every field, so a second call finds a null buffer and releases nothing. The
  second component is the pointer handed back to the allocator.
\<close>

definition dbuf_free :: "dynbuf \<Rightarrow> dynbuf \<times> u8 list option" where
  "dbuf_free s = (dbuf_init2, buf s)"

definition dbuf_error :: "dynbuf \<Rightarrow> bool" where
  "dbuf_error s = derror s"

definition dbuf_set_error :: "dynbuf \<Rightarrow> dynbuf" where
  "dbuf_set_error s = s\<lparr>derror := True\<rparr>"

section \<open>Abstraction and invariant\<close>

text \<open>The bytes a buffer holds, and what every operation keeps true of its fields.\<close>

definition dbuf_bytes :: "dynbuf \<Rightarrow> u8 list" where
  "dbuf_bytes s = take (unat (dsize s)) (region (buf s))"

definition dbuf_ok :: "dynbuf \<Rightarrow> bool" where
  "dbuf_ok s \<longleftrightarrow> length (region (buf s)) = unat (allocated_size s) \<and> dsize s \<le> allocated_size s"

text \<open>What an append of \<open>bs\<close> may do: it appends, or it fails, sets the error and keeps the bytes.\<close>

definition appends :: "dynbuf \<Rightarrow> u8 list \<Rightarrow> (int \<times> dynbuf) option \<Rightarrow> bool" where
  "appends s bs res \<longleftrightarrow>
     (case res of
        None \<Rightarrow> False
      | Some (r, s') \<Rightarrow> dbuf_ok s' \<and>
          (if r = 0 then dbuf_bytes s' = dbuf_bytes s @ bs \<and> derror s' = derror s
           else r = -1 \<and> dbuf_bytes s' = dbuf_bytes s \<and> derror s'))"

text \<open>A client that appends pieces without looking at the results.\<close>

primrec dbuf_puts :: "realloc_fn \<Rightarrow> dynbuf \<Rightarrow> u8 list list \<Rightarrow> dynbuf option" where
  "dbuf_puts rf s [] = Some s"
| "dbuf_puts rf s (c # cs) = do { (r, s) \<leftarrow> dbuf_put rf s c (of_nat (length c)); dbuf_puts rf s cs }"

section \<open>The interface of the reallocation function\<close>

locale realloc_func =
  fixes rf :: realloc_fn
  assumes rf_length: "rf p n = Some b \<Longrightarrow> length b = unat n"
    and rf_keeps: "rf p n = Some b \<Longrightarrow> i < length (region p) \<Longrightarrow> i < unat n \<Longrightarrow> b ! i = region p ! i"
begin

lemma rf_take:
  assumes "rf p n = Some b" and "k \<le> length (region p)" and "k \<le> unat n"
  shows "take k b = take k (region p)"
  using assms rf_length [OF assms(1)] rf_keeps [OF assms(1)] by (intro nth_equalityI) auto

lemma dbuf_realloc_ok:
  assumes "dbuf_ok s" and "dbuf_realloc rf s n = (r, s')"
  shows "dbuf_ok s'" and "dbuf_bytes s' = dbuf_bytes s" and "dsize s' = dsize s"
    and "r = 0 \<Longrightarrow> n \<le> allocated_size s' \<and> derror s' = derror s"
    and "r \<noteq> 0 \<Longrightarrow> r = -1 \<and> derror s'"
proof -
  define m where "m = (if n < allocated_size s * 3 div 2 then allocated_size s * 3 div 2 else n)"
  have m: "n \<le> m"
    by (auto simp: m_def)
  have grow: "dbuf_realloc rf s n =
     (if allocated_size s < n then if derror s then (-1, s) else
        (case rf (buf s) m of None \<Rightarrow> (-1, s\<lparr>derror := True\<rparr>)
         | Some b \<Rightarrow> (0, s\<lparr>buf := Some b, allocated_size := m\<rparr>)) else (0, s))"
    by (simp only: dbuf_realloc_def Let_def m_def [symmetric])
  have len: "unat (dsize s) \<le> length (region (buf s))"
    using assms(1) by (simp add: dbuf_ok_def word_le_nat_alt)
  have keep: "take (unat (dsize s)) b = take (unat (dsize s)) (region (buf s))"
    if "rf (buf s) m = Some b" "allocated_size s < n" for b
    using that len m assms(1)
    by (intro rf_take [OF that(1)]) (auto simp: dbuf_ok_def word_le_nat_alt word_less_nat_alt)
  show "dbuf_ok s'"
    using assms grow m rf_length
    by (auto simp: dbuf_ok_def split: if_splits option.splits dest: less_le_trans)
  show "dbuf_bytes s' = dbuf_bytes s"
    using assms grow keep by (auto simp: dbuf_bytes_def split: if_splits option.splits)
  show "dsize s' = dsize s"
    using assms grow by (auto split: if_splits option.splits)
  show "r = 0 \<Longrightarrow> n \<le> allocated_size s' \<and> derror s' = derror s"
    using assms grow m by (auto split: if_splits option.splits)
  show "r \<noteq> 0 \<Longrightarrow> r = -1 \<and> derror s'"
    using assms grow by (auto split: if_splits option.splits)
qed

text \<open>Filling the room behind the bytes of a buffer that has enough of it.\<close>

lemma fill_room:
  assumes "dbuf_ok s" and "unat (dsize s) + n \<le> unat (allocated_size s)"
    and "off + n \<le> length src" and "unat len = n"
  shows "\<exists>s1. buf_memcpy s (unat (dsize s)) src off n = Some s1
           \<and> dbuf_ok (s1\<lparr>dsize := dsize s + len\<rparr>)
           \<and> dbuf_bytes (s1\<lparr>dsize := dsize s + len\<rparr>) = dbuf_bytes s @ take n (drop off src)
           \<and> dsize s1 = dsize s \<and> derror s1 = derror s"
proof (cases "buf s")
  case None
  then have "dsize s = 0" "allocated_size s = 0" "n = 0" "len = 0"
    using assms by (auto simp: dbuf_ok_def unat_eq_zero)
  with None assms show ?thesis
    by (simp add: buf_memcpy_def memcpy_def dbuf_ok_def dbuf_bytes_def)
next
  case (Some b)
  have lb: "length b = unat (allocated_size s)"
    using assms Some by (simp add: dbuf_ok_def)
  have sz: "unat (dsize s + len) = unat (dsize s) + n"
    using assms(2,4) unat_lt2p [of "allocated_size s"] by (subst unat_add_no_wrap) auto
  show ?thesis
    using assms Some lb sz
    by (auto simp: buf_memcpy_def memcpy_in dbuf_ok_def dbuf_bytes_def word_le_nat_alt)
qed

lemma dbuf_put_appends:
  assumes "dbuf_ok s" and "unat (dsize s) + n < 2 ^ 64" and "n \<le> length data"
  shows "appends s (take n data) (dbuf_put rf s data (of_nat n))"
proof -
  let ?len = "of_nat n :: u64"
  have ul: "unat ?len = n"
    using assms(2) by (simp add: unat_of_nat)
  have sum: "unat (dsize s + ?len) = unat (dsize s) + n"
    using assms(2) ul by (subst unat_add_no_wrap) auto
  obtain r s1 where r: "(if allocated_size s < dsize s + ?len then dbuf_realloc rf s (dsize s + ?len)
                    else (0, s)) = (r, s1)"
    by fastforce
  have s1: "dbuf_ok s1" "dbuf_bytes s1 = dbuf_bytes s" "dsize s1 = dsize s"
    "r = 0 \<Longrightarrow> dsize s + ?len \<le> allocated_size s1 \<and> derror s1 = derror s"
    "r \<noteq> 0 \<Longrightarrow> r = -1 \<and> derror s1"
    using r assms(1) dbuf_realloc_ok [of s "dsize s + ?len" r s1] by (auto split: if_splits)
  show ?thesis
  proof (cases "r = 0 \<and> 0 < ?len")
    case True
    then have "unat (dsize s1) + n \<le> unat (allocated_size s1)"
      using s1 sum by (simp add: word_le_nat_alt)
    then obtain s2 where "buf_memcpy s1 (unat (dsize s1)) data 0 n = Some s2"
      "dbuf_ok (s2\<lparr>dsize := dsize s1 + ?len\<rparr>)"
      "dbuf_bytes (s2\<lparr>dsize := dsize s1 + ?len\<rparr>) = dbuf_bytes s1 @ take n data"
      "dsize s2 = dsize s1" "derror s2 = derror s1"
      using fill_room [of s1 n 0 data ?len] s1(1) ul assms(3) by auto
    then show ?thesis
      using True r s1 ul by (simp add: appends_def dbuf_put_def Let_def)
  next
    case False
    then have "r \<noteq> 0 \<or> n = 0"
      using ul by (auto simp: word_gt_0 simp flip: unat_eq_zero)
    then show ?thesis
      using False r s1 by (auto simp: appends_def dbuf_put_def Let_def)
  qed
qed

lemma dbuf_put_self_appends:
  assumes "dbuf_ok s" and "unat (dsize s) + unat len < 2 ^ 64"
    and "unat offset + unat len \<le> unat (dsize s)"
  shows "appends s (take (unat len) (drop (unat offset) (dbuf_bytes s))) (dbuf_put_self rf s offset len)"
proof -
  have sum: "unat (dsize s + len) = unat (dsize s) + unat len"
    using assms(2) by (subst unat_add_no_wrap) auto
  obtain r s1 where r: "(if allocated_size s < dsize s + len then dbuf_realloc rf s (dsize s + len)
                    else (0, s)) = (r, s1)"
    by fastforce
  have s1: "dbuf_ok s1" "dbuf_bytes s1 = dbuf_bytes s" "dsize s1 = dsize s"
    "r = 0 \<Longrightarrow> dsize s + len \<le> allocated_size s1 \<and> derror s1 = derror s"
    "r \<noteq> 0 \<Longrightarrow> r = -1 \<and> derror s1"
    using r assms(1) dbuf_realloc_ok [of s "dsize s + len" r s1] by (auto split: if_splits)
  show ?thesis
  proof (cases "r = 0")
    case True
    then have room: "unat (dsize s1) + unat len \<le> unat (allocated_size s1)"
      using s1 sum by (simp add: word_le_nat_alt)
    have "unat offset + unat len \<le> length (region (buf s1))"
      using room assms(3) s1 by (simp add: dbuf_ok_def)
    then obtain s2 where
      "buf_memcpy s1 (unat (dsize s1)) (region (buf s1)) (unat offset) (unat len) = Some s2"
      "dbuf_ok (s2\<lparr>dsize := dsize s1 + len\<rparr>)"
      "dbuf_bytes (s2\<lparr>dsize := dsize s1 + len\<rparr>)
         = dbuf_bytes s1 @ take (unat len) (drop (unat offset) (region (buf s1)))"
      "dsize s2 = dsize s1" "derror s2 = derror s1"
      using fill_room [of s1 "unat len" "unat offset" "region (buf s1)" len] s1(1) room by auto
    moreover have "take (unat len) (drop (unat offset) (region (buf s1)))
        = take (unat len) (drop (unat offset) (dbuf_bytes s))"
    proof -
      have "dbuf_bytes s = take (unat (dsize s)) (region (buf s1))"
        by (metis dbuf_bytes_def s1(2) s1(3))
      then show ?thesis
        using assms(3) by (simp add: drop_take min_absorb1)
    qed
    ultimately show ?thesis
      using True r s1 by (simp add: appends_def dbuf_put_self_def Let_def)
  next
    case False
    then show ?thesis
      using r s1 by (auto simp: appends_def dbuf_put_self_def Let_def)
  qed
qed

text \<open>Formatted output appends its text, on the short path and on the long one.\<close>

lemma dbuf_printf_appends:
  assumes "dbuf_ok s" and "unat (dsize s) + length txt + 1 < 2 ^ 64"
  shows "appends s txt (dbuf_printf rf s txt)"
proof (cases "length txt < 128")
  case True
  then have "dbuf_printf rf s txt = dbuf_put rf s (txt @ 0 # replicate (127 - length txt) 0) (of_nat (length txt))"
    by (simp add: dbuf_printf_def vsnprintf_def memcpy_def Let_def)
  then show ?thesis
    using dbuf_put_appends [of s "length txt" "txt @ 0 # replicate (127 - length txt) 0"] assms by simp
next
  case False
  let ?len = "of_nat (length txt) :: u64"
  have ul: "unat ?len = length txt"
    using assms(2) by (simp add: unat_of_nat)
  have sum: "unat (dsize s + ?len) = unat (dsize s) + length txt"
    "unat (dsize s + ?len + 1) = unat (dsize s) + length txt + 1"
    using assms(2) ul by (subst unat_add_no_wrap; simp add: unat_add_no_wrap)+
  obtain r s1 where r: "dbuf_realloc rf s (dsize s + ?len + 1) = (r, s1)"
    by fastforce
  note s1 = dbuf_realloc_ok [OF assms(1) r]
  show ?thesis
  proof (cases "r = 0")
    case True
    then have room: "unat (dsize s1) + length txt + 1 \<le> unat (allocated_size s1)"
      using s1 sum by (simp add: word_le_nat_alt)
    then obtain b where b: "buf s1 = Some b" "length b = unat (allocated_size s1)"
      using s1(1) by (cases "buf s1") (auto simp: dbuf_ok_def)
    have "unat (allocated_size s1 - dsize s1) = unat (allocated_size s1) - unat (dsize s1)"
      using s1(1) by (simp add: dbuf_ok_def unat_sub)
    then have "vsnprintf b (unat (dsize s1)) (unat (allocated_size s1 - dsize s1)) txt
       = Some (take (unat (dsize s1)) b @ (txt @ [0]) @ drop (unat (dsize s1) + length txt + 1) b)"
      using room b(2) by (simp add: vsnprintf_def memcpy_in)
    then show ?thesis
      using False True r b s1 sum room assms(1)
      by (simp add: dbuf_printf_def appends_def dbuf_ok_def dbuf_bytes_def Let_def word_le_nat_alt)
  next
    case notz: False
    then show ?thesis
      using False r s1 by (auto simp: dbuf_printf_def appends_def Let_def)
  qed
qed

text \<open>Writing at an offset inside the buffer or at its end overwrites and extends.\<close>

lemma dbuf_write_overwrites:
  assumes "dbuf_ok s" and "offset \<le> dsize s" and "unat offset + n < 2 ^ 64" and "n \<le> length data"
  shows "\<exists>r s'. dbuf_write rf s offset data (of_nat n) = Some (r, s') \<and> dbuf_ok s' \<and>
     (if r = 0 then dbuf_bytes s' = take (unat offset) (dbuf_bytes s) @ take n data
                      @ drop (unat offset + n) (dbuf_bytes s) \<and> derror s' = derror s
      else r = -1 \<and> dbuf_bytes s' = dbuf_bytes s \<and> derror s')"
proof -
  let ?len = "of_nat n :: u64"
  have ul: "unat ?len = n"
    using assms(3) by (simp add: unat_of_nat)
  have sum: "unat (offset + ?len) = unat offset + n"
    using assms(3) ul by (subst unat_add_no_wrap) auto
  obtain r s1 where r: "dbuf_realloc rf s (offset + ?len) = (r, s1)"
    by fastforce
  note s1 = dbuf_realloc_ok [OF assms(1) r]
  show ?thesis
  proof (cases "r = 0")
    case False
    then show ?thesis
      using r s1 by (simp add: dbuf_write_def Let_def)
  next
    case True
    let ?b = "region (buf s1)"
    have len: "length ?b = unat (allocated_size s1)" "unat (dsize s1) \<le> length ?b"
      using s1(1) by (auto simp: dbuf_ok_def word_le_nat_alt)
    have room: "unat offset + n \<le> length ?b"
      using s1(4) [OF True] sum len by (simp add: word_le_nat_alt)
    have off: "unat offset \<le> unat (dsize s1)"
      using assms(2) s1(3) by (simp add: word_le_nat_alt)
    let ?m = "take (unat offset) ?b @ take n data @ drop (unat offset + n) ?b"
    have m: "memcpy ?b (unat offset) data 0 n = Some ?m"
      using room assms(4) by (simp add: memcpy_in)
    define s2 where "s2 = s1\<lparr>buf := (case buf s1 of None \<Rightarrow> None | Some _ \<Rightarrow> Some ?m)\<rparr>"
    have c: "buf_memcpy s1 (unat offset) data 0 n = Some s2"
      using m by (simp add: buf_memcpy_def s2_def)
    have m2: "region (buf s2) = ?m"
      using room by (cases "buf s1") (auto simp: s2_def)
    define s3 where "s3 = (if dsize s2 < offset + ?len then s2\<lparr>dsize := offset + ?len\<rparr> else s2)"
    have w: "dbuf_write rf s offset data ?len = Some (0, s3)"
      using r True c ul by (simp add: dbuf_write_def s3_def Let_def)
    have d3: "unat (dsize s3) = max (unat (dsize s1)) (unat offset + n)"
      using sum by (auto simp: s3_def s2_def word_less_nat_alt max_def)
    have ok: "dbuf_ok s3"
      using len room d3 m2 assms(4) by (auto simp: dbuf_ok_def s3_def s2_def word_le_nat_alt max_def split: if_splits)
    have "dbuf_bytes s3 = take (max (unat (dsize s1)) (unat offset + n)) ?m"
      using d3 m2 by (simp add: dbuf_bytes_def s3_def s2_def)
    also have "\<dots> = take (unat offset) (take (unat (dsize s1)) ?b) @ take n data
        @ drop (unat offset + n) (take (unat (dsize s1)) ?b)"
    proof -
      have "length (take (unat offset) ?b @ take n data) = unat offset + n"
        using room assms(4) by simp
      then show ?thesis
        using off room len
        by (cases "unat (dsize s1) \<le> unat offset + n") (auto simp: max_def min_def drop_take not_le)
    qed
    also have "take (unat (dsize s1)) ?b = dbuf_bytes s"
      using s1(2) by (simp add: dbuf_bytes_def)
    finally show ?thesis
      using w ok s1(4) [OF True] by (simp add: s3_def s2_def)
  qed
qed

text \<open>A sequence of appends whose error is looked at once, at the end.\<close>

lemma dbuf_puts_bytes:
  "dbuf_ok s \<Longrightarrow> unat (dsize s) + length (concat chunks) < 2 ^ 64 \<Longrightarrow>
     \<exists>s'. dbuf_puts rf s chunks = Some s' \<and> dbuf_ok s' \<and> (derror s \<longrightarrow> derror s')
       \<and> (\<not> derror s' \<longrightarrow> dbuf_bytes s' = dbuf_bytes s @ concat chunks)"
proof (induction chunks arbitrary: s)
  case (Cons c cs)
  obtain r s1 where r: "dbuf_put rf s c (of_nat (length c)) = Some (r, s1)" "dbuf_ok s1"
    "if r = 0 then dbuf_bytes s1 = dbuf_bytes s @ c \<and> derror s1 = derror s
     else r = -1 \<and> dbuf_bytes s1 = dbuf_bytes s \<and> derror s1"
    using dbuf_put_appends [of s "length c" c] Cons.prems by (auto simp: appends_def split: option.splits)
  have sz: "length (dbuf_bytes t) = unat (dsize t)" if "dbuf_ok t" for t
    using that by (auto simp: dbuf_bytes_def dbuf_ok_def word_le_nat_alt)
  have "unat (dsize s1) \<le> unat (dsize s) + length c"
    using r(2,3) sz [of s] sz [of s1] Cons.prems(1) by (auto split: if_splits)
  then obtain s' where "dbuf_puts rf s1 cs = Some s'" "dbuf_ok s'" "derror s1 \<longrightarrow> derror s'"
    "\<not> derror s' \<longrightarrow> dbuf_bytes s' = dbuf_bytes s1 @ concat cs"
    using Cons.IH [of s1] r(2) Cons.prems(2) by auto
  with r show ?case
    by (auto split: if_splits)
qed auto

end

text \<open>The default allocator keeps the contract, whatever its limit and its fresh bytes.\<close>

interpretation default_realloc: realloc_func "dbuf_default_realloc limit junk" for limit junk
  by unfold_locales (auto simp: dbuf_default_realloc_def split: if_splits)

section \<open>Properties\<close>

text \<open>
  C21: Pieces appended with \<^verbatim>\<open>dbuf_put\<close> one after the other, with any allocator that keeps its
  contract and may fail at any time: no access leaves the buffer, and when \<^verbatim>\<open>dbuf_error\<close> is
  clear at the end the buffer holds exactly the pieces behind what it held before. Looking at the
  error once, after the last append, is enough.
\<close>

theorem dbuf_put_sequence:
  assumes "realloc_func rf" and "dbuf_ok s" and "unat (dsize s) + length (concat chunks) < 2 ^ 64"
  shows "\<exists>s'. dbuf_puts rf s chunks = Some s' \<and> dbuf_ok s'
     \<and> (dbuf_error s' \<or> dbuf_bytes s' = dbuf_bytes s @ concat chunks)"
  using realloc_func.dbuf_puts_bytes [OF assms] by (auto simp: dbuf_error_def)

theorem dbuf_put_sequence_witness:
  "\<exists>s'. dbuf_puts (dbuf_default_realloc 4 (\<lambda>_. 7)) dbuf_init [[1, 2], [3]] = Some s' \<and> dbuf_ok s'
     \<and> (dbuf_error s' \<or> dbuf_bytes s' = [1, 2, 3])"
  using dbuf_put_sequence [OF default_realloc.realloc_func_axioms, of dbuf_init "[[1, 2], [3]]" 4 "\<lambda>_. 7"]
  by (simp add: dbuf_ok_def dbuf_bytes_def dbuf_init_def dbuf_init2_def)



text \<open>
  \<^verbatim>\<open>dbuf_printf\<close> appends the whole formatted text, both when it fits the local array of 128
  bytes and when it is formatted a second time into the grown buffer; \<^verbatim>\<open>dbuf_write\<close> overwrites
  and extends. The size field never exceeds the allocated size.
\<close>

theorem dbuf_printf_and_write:
  assumes "realloc_func rf" and "dbuf_ok s" and "unat (dsize s) + length txt + 1 < 2 ^ 64" and "offset \<le> dsize s"
  shows "appends s txt (dbuf_printf rf s txt)
     \<and> (\<exists>r s'. dbuf_write rf s offset txt (of_nat (length txt)) = Some (r, s') \<and> dbuf_ok s' \<and>
         (if r = 0 then dbuf_bytes s' = take (unat offset) (dbuf_bytes s) @ txt
                          @ drop (unat offset + length txt) (dbuf_bytes s)
          else dbuf_bytes s' = dbuf_bytes s \<and> dbuf_error s'))"
proof -
  have "unat offset + length txt < 2 ^ 64"
    using assms(3,4) by (simp add: word_le_nat_alt)
  then obtain r s' where "dbuf_write rf s offset txt (of_nat (length txt)) = Some (r, s')" "dbuf_ok s'"
    "if r = 0 then dbuf_bytes s' = take (unat offset) (dbuf_bytes s) @ take (length txt) txt
                      @ drop (unat offset + length txt) (dbuf_bytes s) \<and> derror s' = derror s
      else r = -1 \<and> dbuf_bytes s' = dbuf_bytes s \<and> derror s'"
    using realloc_func.dbuf_write_overwrites [OF assms(1,2,4), of "length txt" "txt"] by blast
  then show ?thesis
    using realloc_func.dbuf_printf_appends [OF assms(1-3)] by (auto simp: dbuf_error_def split: if_splits)
qed

theorem dbuf_printf_and_write_witness:
  "let s = \<lparr>buf = Some [1, 2, 3], dsize = 3, allocated_size = 3, derror = False\<rparr> in
     appends s (replicate 200 5) (dbuf_printf (dbuf_default_realloc 900 (\<lambda>_. 7)) s (replicate 200 5))"
  using dbuf_printf_and_write [OF default_realloc.realloc_func_axioms,
      of "\<lparr>buf = Some [1, 2, 3], dsize = 3, allocated_size = 3, derror = False\<rparr>" "replicate 200 5" 0 900 "\<lambda>_. 7"]
  by (simp add: dbuf_ok_def Let_def)

end
