(* ===== verification/Utf.thy ===== *)
theory Utf
  imports Prelude Endian
begin

text \<open>
  UTF-8 and UTF-16 handling of \<^verbatim>\<open>cutils.c\<close> and \<^verbatim>\<open>cutils.h\<close>. A source pointer is a byte list and
  a position; a decoder returns the code point with the next position, and \<^term>\<open>None\<close> is a read
  past the end of the object. A destination array is a list that the stores update.
\<close>

section \<open>Surrogates\<close>

definition is_surrogate :: "u32 \<Rightarrow> bool" where
  "is_surrogate c \<longleftrightarrow> drop_bit 11 c = drop_bit 11 0xD800"

definition is_hi_surrogate :: "u32 \<Rightarrow> bool" where
  "is_hi_surrogate c \<longleftrightarrow> drop_bit 10 c = drop_bit 10 0xD800"

definition is_lo_surrogate :: "u32 \<Rightarrow> bool" where
  "is_lo_surrogate c \<longleftrightarrow> drop_bit 10 c = drop_bit 10 0xDC00"

definition get_hi_surrogate :: "u32 \<Rightarrow> u32" where
  "get_hi_surrogate c = drop_bit 10 c - drop_bit 10 0x10000 + 0xD800"

definition get_lo_surrogate :: "u32 \<Rightarrow> u32" where
  "get_lo_surrogate c = (c AND 0x3FF) OR 0xDC00"

definition from_surrogate :: "u32 \<Rightarrow> u32 \<Rightarrow> u32" where
  "from_surrogate hi lo = 65536 + 1024 * (hi AND 1023) + (lo AND 1023)"

section \<open>One code point\<close>

definition utf8_encode_len :: "u32 \<Rightarrow> nat" where
  "utf8_encode_len c =
     (if c < 0x80 then 1 else if c < 0x800 then 2 else if c < 0x10000 then 3
      else if c < 0x110000 then 4 else 3)"

text \<open>The bytes stored in \<open>buf\<close>; their number is the value returned.\<close>

definition utf8_encode :: "u32 \<Rightarrow> u8 list" where
  "utf8_encode c =
     (if c < 0x80 then [ucast c]
      else if c < 0x800 then
        [ucast (drop_bit 6 c OR 0xC0), ucast ((c AND 0x3F) OR 0x80)]
      else if c < 0x10000 then
        [ucast (drop_bit 12 c OR 0xE0), ucast ((drop_bit 6 c AND 0x3F) OR 0x80),
         ucast ((c AND 0x3F) OR 0x80)]
      else if c < 0x110000 then
        [ucast (drop_bit 18 c OR 0xF0), ucast ((drop_bit 12 c AND 0x3F) OR 0x80),
         ucast ((drop_bit 6 c AND 0x3F) OR 0x80), ucast ((c AND 0x3F) OR 0x80)]
      else
        [ucast (drop_bit 12 (0xFFFD :: u32) OR 0xE0),
         ucast ((drop_bit 6 (0xFFFD :: u32) AND 0x3F) OR 0x80),
         ucast (((0xFFFD :: u32) AND 0x3F) OR 0x80)])"

text \<open>The two labels \<open>need2\<close> and \<open>need3\<close>: \<open>p\<close> is the position after the lead byte \<open>c\<close>.\<close>

definition utf8_need2 :: "u8 list \<Rightarrow> u32 \<Rightarrow> nat \<Rightarrow> u8 \<Rightarrow> (u32 \<times> nat) option" where
  "utf8_need2 m c p lower =
     do { b1 \<leftarrow> load m p;
          if lower \<le> b1 \<and> b1 \<le> 0xBF
          then do { b2 \<leftarrow> load m (p + 1);
                    if 0x80 \<le> b2 \<and> b2 \<le> 0xBF
                    then Some (push_bit 12 (c - 0xE0) + push_bit 6 (ucast b1 - 0x80)
                                 + (ucast b2 - 0x80), p + 2)
                    else Some (0xFFFD, p) }
          else Some (0xFFFD, p) }"

definition utf8_need3 :: "u8 list \<Rightarrow> u32 \<Rightarrow> nat \<Rightarrow> u8 \<Rightarrow> u8 \<Rightarrow> (u32 \<times> nat) option" where
  "utf8_need3 m c p lower upper =
     do { b1 \<leftarrow> load m p;
          if lower \<le> b1 \<and> b1 \<le> upper
          then do { b2 \<leftarrow> load m (p + 1);
                    if 0x80 \<le> b2 \<and> b2 \<le> 0xBF
                    then do { b3 \<leftarrow> load m (p + 2);
                              if 0x80 \<le> b3 \<and> b3 \<le> 0xBF
                              then Some (push_bit 18 (c - 0xF0) + push_bit 12 (ucast b1 - 0x80)
                                           + push_bit 6 (ucast b2 - 0x80) + (ucast b3 - 0x80), p + 3)
                              else Some (0xFFFD, p) }
                    else Some (0xFFFD, p) }
          else Some (0xFFFD, p) }"

definition utf8_decode :: "u8 list \<Rightarrow> nat \<Rightarrow> (u32 \<times> nat) option" where
  "utf8_decode m p0 =
     do { b \<leftarrow> load m p0;
          let c = ucast b :: u32; p = p0 + 1 in
          if c < 0x80 then Some (c, p)
          else if 0xC2 \<le> c \<and> c \<le> 0xDF then
            do { b1 \<leftarrow> load m p;
                 if 0x80 \<le> b1 \<and> b1 \<le> 0xBF
                 then Some (push_bit 6 (c - 0xC0) + (ucast b1 - 0x80), p + 1)
                 else Some (0xFFFD, p) }
          else if c = 0xE0 then utf8_need2 m c p 0xA0
          else if 0xE1 \<le> c \<and> c \<le> 0xEF then utf8_need2 m c p 0x80
          else if c = 0xF0 then utf8_need3 m c p 0x90 0xBF
          else if c = 0xF4 then utf8_need3 m c p 0x80 0x8F
          else if 0xF1 \<le> c \<and> c \<le> 0xF3 then utf8_need3 m c p 0x80 0xBF
          else Some (0xFFFD, p) }"

definition utf8_decode_len :: "u8 list \<Rightarrow> nat \<Rightarrow> nat \<Rightarrow> (u32 \<times> nat) option" where
  "utf8_decode_len m p max_len =
     (if max_len = 0 then Some (0xFFFD, p)
      else if max_len = 1 then
        do { b \<leftarrow> load m p; if b < 0x80 then utf8_decode m p else Some (0xFFFD, p + 1) }
      else if max_len = 2 then
        do { b \<leftarrow> load m p; if b < 0xE0 then utf8_decode m p else Some (0xFFFD, p + 1) }
      else if max_len = 3 then
        do { b \<leftarrow> load m p; if b < 0xF0 then utf8_decode m p else Some (0xFFFD, p + 1) }
      else utf8_decode m p)"

text \<open>Decoding always moves on, by at most four bytes: the loops below end because of it.\<close>

lemma utf8_decode_advances:
  "utf8_decode m p = Some (c, q) \<Longrightarrow> p < q \<and> q \<le> p + 4"
  by (auto simp: utf8_decode_def utf8_need2_def utf8_need3_def Let_def
      split: if_splits Option.bind_splits)

lemma utf8_decode_len_advances:
  "utf8_decode_len m p n = Some (c, q) \<Longrightarrow> 0 < n \<Longrightarrow> p < q \<and> q \<le> p + 4"
  by (auto simp: utf8_decode_len_def split: if_splits Option.bind_splits dest: utf8_decode_advances)

section \<open>Bytes and code points as numbers\<close>

lemma unat_ucast_u32 [simp]: "unat (ucast b :: u32) = unat b" for b :: u8
  using unat_lt2p [of b] unfolding unsigned_ucast_eq by (simp add: take_bit_eq_mod)

lemma unat_diff: "b \<le> a \<Longrightarrow> unat (a - b) = unat a - unat b" for a b :: "'a::len word"
  by (rule unat_sub)

lemma unat_or_lead:
  fixes x :: u32
  shows "unat x < 64 \<Longrightarrow> unat (ucast (x OR 0x80) :: u8) = unat x + 0x80"
    and "unat x < 32 \<Longrightarrow> unat (ucast (x OR 0xC0) :: u8) = unat x + 0xC0"
    and "unat x < 16 \<Longrightarrow> unat (ucast (x OR 0xE0) :: u8) = unat x + 0xE0"
    and "unat x < 8 \<Longrightarrow> unat (ucast (x OR 0xF0) :: u8) = unat x + 0xF0"
  using unat_or_disj [of x 6 "0x80"] unat_or_disj [of x 6 "0xC0"]
    unat_or_disj [of x 5 "0xE0"] unat_or_disj [of x 4 "0xF0"]
  by (auto simp: unat_ucast_u8)

lemma unat_ucast_ascii: "unat c < 128 \<Longrightarrow> unat (ucast c :: u8) = unat c" for c :: u32
  by (simp add: unat_ucast_u8)

lemma map_unat_utf8_encode:
  "map unat (utf8_encode c) =
     (let n = unat c in
      if n < 0x80 then [n]
      else if n < 0x800 then [n div 64 + 0xC0, n mod 64 + 0x80]
      else if n < 0x10000 then [n div 4096 + 0xE0, n div 64 mod 64 + 0x80, n mod 64 + 0x80]
      else if n < 0x110000 then
        [n div 262144 + 0xF0, n div 4096 mod 64 + 0x80, n div 64 mod 64 + 0x80, n mod 64 + 0x80]
      else [0xEF, 0xBF, 0xBD])"
  by (auto simp: utf8_encode_def Let_def word_less_nat_alt unat_or_lead unat_rules unat_ucast_ascii
      div_less_iff_less_mult less_mult_imp_div_less)

lemma length_utf8_encode: "length (utf8_encode c) = utf8_encode_len c"
  by (simp add: utf8_encode_def utf8_encode_len_def)

lemma unat_dec2:
  fixes b0 b1 :: u8
  assumes "0xC0 \<le> unat b0" "unat b0 \<le> 0xDF" "0x80 \<le> unat b1" "unat b1 \<le> 0xBF"
  shows "unat (push_bit 6 (ucast b0 - 0xC0) + (ucast b1 - 0x80) :: u32)
          = (unat b0 - 0xC0) * 64 + (unat b1 - 0x80)"
  using assms by (simp add: unat_add_no_wrap unat_push_bit unat_diff word_le_nat_alt)

lemma unat_dec3:
  fixes b0 b1 b2 :: u8
  assumes "0xE0 \<le> unat b0" "unat b0 \<le> 0xEF" "0x80 \<le> unat b1" "unat b1 \<le> 0xBF"
    "0x80 \<le> unat b2" "unat b2 \<le> 0xBF"
  shows "unat (push_bit 12 (ucast b0 - 0xE0) + push_bit 6 (ucast b1 - 0x80) + (ucast b2 - 0x80) :: u32)
          = (unat b0 - 0xE0) * 4096 + (unat b1 - 0x80) * 64 + (unat b2 - 0x80)"
  using assms by (simp add: unat_add_no_wrap unat_push_bit unat_diff word_le_nat_alt)

lemma unat_dec4:
  fixes b0 b1 b2 b3 :: u8
  assumes "0xF0 \<le> unat b0" "unat b0 \<le> 0xF4" "0x80 \<le> unat b1" "unat b1 \<le> 0xBF"
    "0x80 \<le> unat b2" "unat b2 \<le> 0xBF" "0x80 \<le> unat b3" "unat b3 \<le> 0xBF"
  shows "unat (push_bit 18 (ucast b0 - 0xF0) + push_bit 12 (ucast b1 - 0x80)
                 + push_bit 6 (ucast b2 - 0x80) + (ucast b3 - 0x80) :: u32)
          = (unat b0 - 0xF0) * 262144 + (unat b1 - 0x80) * 4096 + (unat b2 - 0x80) * 64 + (unat b3 - 0x80)"
  using assms by (simp add: unat_add_no_wrap unat_push_bit unat_diff word_le_nat_alt)

section \<open>Decoding what was encoded\<close>

lemma digits64:
  fixes n :: nat
  shows "n = n div 4096 * 4096 + n div 64 mod 64 * 64 + n mod 64"
    and "n = n div 262144 * 262144 + n div 4096 mod 64 * 4096 + n div 64 mod 64 * 64 + n mod 64"
proof -
  have "n div 64 div 64 = n div 4096" "n div 4096 div 64 = n div 262144"
    by (simp_all flip: div_mult2_eq)
  then show "n = n div 4096 * 4096 + n div 64 mod 64 * 64 + n mod 64"
    and "n = n div 262144 * 262144 + n div 4096 mod 64 * 4096 + n div 64 mod 64 * 64 + n mod 64"
    using div_mult_mod_eq [of n 64] div_mult_mod_eq [of "n div 64" 64]
      div_mult_mod_eq [of "n div 4096" 64] by linarith+
qed

text \<open>Reading the bytes of a list that stands at position \<open>length xs\<close>.\<close>

lemma load_here:
  "load (xs @ [a] @ r) (length xs) = Some a"
  "load (xs @ [a, b] @ r) (length xs) = Some a" "load (xs @ [a, b] @ r) (Suc (length xs)) = Some b"
  by (auto simp: load_def nth_append)

lemma utf8_decode_encode:
  assumes "unat c < 0x110000"
  shows "utf8_decode (xs @ utf8_encode c @ ys) (length xs) = Some (c, length xs + length (utf8_encode c))"
proof -
  let ?m = "xs @ utf8_encode c @ ys" and ?p = "length xs"
  consider "unat c < 0x80" | "0x80 \<le> unat c" "unat c < 0x800" | "0x800 \<le> unat c" "unat c < 0x10000"
    | "0x10000 \<le> unat c"
    by linarith
  then show ?thesis
  proof cases
    case 1
    then obtain b where b: "utf8_encode c = [b]" "unat b = unat c"
      using map_unat_utf8_encode [of c] by (auto simp: Let_def)
    then have "ucast b = c" by (simp add: word_unat_eq_iff)
    with b 1 show ?thesis
      by (simp add: utf8_decode_def load_append word_less_nat_alt)
  next
    case 2
    then obtain b0 b1 where b: "utf8_encode c = [b0, b1]" "unat b0 = unat c div 64 + 0xC0"
      "unat b1 = unat c mod 64 + 0x80"
      using map_unat_utf8_encode [of c] by (auto simp: Let_def)
    have r: "unat c div 64 < 32" "2 \<le> unat c div 64"
      using 2 by (auto simp: less_mult_imp_div_less)
    have "push_bit 6 (ucast b0 - 0xC0) + (ucast b1 - 0x80) = c"
      using unat_dec2 [of b0 b1] b r by (simp add: word_unat_eq_iff)
    with b r show ?thesis
      by (simp add: utf8_decode_def load_append word_less_nat_alt word_le_nat_alt)
  next
    case 3
    then obtain b0 b1 b2 where b: "utf8_encode c = [b0, b1, b2]" "unat b0 = unat c div 4096 + 0xE0"
      "unat b1 = unat c div 64 mod 64 + 0x80" "unat b2 = unat c mod 64 + 0x80"
      using map_unat_utf8_encode [of c] by (auto simp: Let_def)
    define q x z where "q = unat c div 4096" and "x = unat c div 64 mod 64" and "z = unat c mod 64"
    have r: "q < 16" "x < 64" "z < 64" "q = 0 \<longrightarrow> 32 \<le> x"
      using 3 by (auto simp: q_def x_def z_def)
    note b = b [folded q_def x_def z_def]
    have "unat c = q * 4096 + x * 64 + z"
      unfolding q_def x_def z_def by (rule digits64(1))
    then have v: "push_bit 12 (ucast b0 - 0xE0) + push_bit 6 (ucast b1 - 0x80) + (ucast b2 - 0x80) = c"
      using unat_dec3 [of b0 b1 b2] b(2-) r by (simp add: word_unat_eq_iff)
    have "ucast b0 = (0xE0 :: u32) \<longleftrightarrow> q = 0"
      using b(2) by (simp add: word_unat_eq_iff)
    then show ?thesis
      using b r v
      by (auto simp: utf8_decode_def utf8_need2_def load_append word_less_nat_alt word_le_nat_alt Let_def)
  next
    case 4
    then obtain b0 b1 b2 b3 where b: "utf8_encode c = [b0, b1, b2, b3]"
      "unat b0 = unat c div 262144 + 0xF0" "unat b1 = unat c div 4096 mod 64 + 0x80"
      "unat b2 = unat c div 64 mod 64 + 0x80" "unat b3 = unat c mod 64 + 0x80"
      using map_unat_utf8_encode [of c] assms by (auto simp: Let_def)
    define q x y z where "q = unat c div 262144" and "x = unat c div 4096 mod 64"
      and "y = unat c div 64 mod 64" and "z = unat c mod 64"
    have n: "unat c = q * 262144 + x * 4096 + y * 64 + z"
      unfolding q_def x_def y_def z_def by (rule digits64(2))
    have lt: "x < 64" "y < 64" "z < 64"
      by (simp_all add: x_def y_def z_def)
    have r: "q < 5" "q = 0 \<longrightarrow> 16 \<le> x" "q = 4 \<longrightarrow> x < 16"
      using 4 assms n lt by auto
    note b = b [folded q_def x_def y_def z_def]
    from n have v: "push_bit 18 (ucast b0 - 0xF0) + push_bit 12 (ucast b1 - 0x80)
        + push_bit 6 (ucast b2 - 0x80) + (ucast b3 - 0x80) = c"
      using unat_dec4 [of b0 b1 b2 b3] b(2-) r lt by (simp add: word_unat_eq_iff)
    have "ucast b0 = (0xF0 :: u32) \<longleftrightarrow> q = 0" "ucast b0 = (0xF4 :: u32) \<longleftrightarrow> q = 4"
      "ucast b0 \<noteq> (0xE0 :: u32)"
      using b(2) by (simp_all add: word_unat_eq_iff)
    then show ?thesis
      using b r v lt
      by (auto simp: utf8_decode_def utf8_need3_def load_append word_less_nat_alt word_le_nat_alt Let_def)
  qed
qed

section \<open>What decodes is the encoding\<close>

text \<open>The shapes of a successful decoding, read as numbers.\<close>

lemma utf8_decode_shapes:
  assumes "utf8_decode m p = Some (c, q)"
  obtains (ascii) b where "load m p = Some b" "unat b < 0x80" "c = ucast b" "q = p + 1"
  | (error) "c = 0xFFFD" "q = p + 1"
  | (two) b0 b1 where "load m p = Some b0" "load m (p + 1) = Some b1"
      "0xC2 \<le> unat b0" "unat b0 \<le> 0xDF" "0x80 \<le> unat b1" "unat b1 \<le> 0xBF"
      "c = push_bit 6 (ucast b0 - 0xC0) + (ucast b1 - 0x80)" "q = p + 2"
  | (three) b0 b1 b2 where "load m p = Some b0" "load m (p + 1) = Some b1" "load m (p + 2) = Some b2"
      "0xE0 \<le> unat b0" "unat b0 \<le> 0xEF" "(if unat b0 = 0xE0 then 0xA0 else 0x80) \<le> unat b1" "unat b1 \<le> 0xBF"
      "0x80 \<le> unat b2" "unat b2 \<le> 0xBF"
      "c = push_bit 12 (ucast b0 - 0xE0) + push_bit 6 (ucast b1 - 0x80) + (ucast b2 - 0x80)" "q = p + 3"
  | (four) b0 b1 b2 b3 where "load m p = Some b0" "load m (p + 1) = Some b1" "load m (p + 2) = Some b2"
      "load m (p + 3) = Some b3" "0xF0 \<le> unat b0" "unat b0 \<le> 0xF4"
      "(if unat b0 = 0xF0 then 0x90 else 0x80) \<le> unat b1"
      "unat b1 \<le> (if unat b0 = 0xF4 then 0x8F else 0xBF)"
      "0x80 \<le> unat b2" "unat b2 \<le> 0xBF" "0x80 \<le> unat b3" "unat b3 \<le> 0xBF"
      "c = push_bit 18 (ucast b0 - 0xF0) + push_bit 12 (ucast b1 - 0x80)
             + push_bit 6 (ucast b2 - 0x80) + (ucast b3 - 0x80)" "q = p + 4"
proof -
  obtain b0 where b0: "load m p = Some b0"
    using assms by (auto simp: utf8_decode_def split: Option.bind_splits)
  let ?c = "ucast b0 :: u32"
  consider "unat b0 < 0x80" | "0xC2 \<le> unat b0" "unat b0 < 0xE0" | "0xE0 \<le> unat b0" "unat b0 < 0xF0"
    | "0xF0 \<le> unat b0" "unat b0 \<le> 0xF4" | "0x80 \<le> unat b0" "unat b0 < 0xC2" | "0xF4 < unat b0"
    by linarith
  then show thesis
  proof cases
    case 1
    with assms b0 show thesis
      by (intro ascii) (auto simp: utf8_decode_def word_less_nat_alt)
  next
    case 2
    then have "utf8_decode m p = do { b1 \<leftarrow> load m (p + 1);
        if 0x80 \<le> b1 \<and> b1 \<le> 0xBF then Some (push_bit 6 (?c - 0xC0) + (ucast b1 - 0x80), Suc p + 1)
        else Some (0xFFFD, Suc p) }"
      using b0 by (simp add: utf8_decode_def word_less_nat_alt word_le_nat_alt Let_def)
    then show thesis
      using assms b0 2
      by (cases "load m (p + 1)") (auto simp: word_le_nat_alt split: if_splits intro: error two)
  next
    case 3
    define lo :: u8 where "lo = (if unat b0 = 0xE0 then 0xA0 else 0x80)"
    have "utf8_decode m p = utf8_need2 m ?c (p + 1) lo"
      using 3 b0 by (auto simp: lo_def utf8_decode_def Let_def word_less_nat_alt word_le_nat_alt
          word_unat_eq_iff [of ?c])
    moreover have "unat lo = (if unat b0 = 0xE0 then 0xA0 else 0x80)"
      by (simp add: lo_def)
    ultimately show thesis
      using assms b0 3
      by (cases "load m (p + 1)"; cases "load m (p + 2)")
        (auto simp: utf8_need2_def word_le_nat_alt split: if_splits intro: error three)
  next
    case 4
    define lo hi :: u8 where "lo = (if unat b0 = 0xF0 then 0x90 else 0x80)"
      and "hi = (if unat b0 = 0xF4 then 0x8F else 0xBF)"
    have "utf8_decode m p = utf8_need3 m ?c (p + 1) lo hi"
      using 4 b0 by (auto simp: lo_def hi_def utf8_decode_def Let_def word_less_nat_alt word_le_nat_alt
          word_unat_eq_iff [of ?c])
    moreover have "unat lo = (if unat b0 = 0xF0 then 0x90 else 0x80)"
      "unat hi = (if unat b0 = 0xF4 then 0x8F else 0xBF)"
      by (simp_all add: lo_def hi_def)
    moreover have e: "p + 1 + 1 = p + 2" "p + 1 + 2 = p + 3"
      by simp_all
    ultimately show thesis
      using assms b0 4 unfolding utf8_need3_def e
      by (cases "load m (p + 1)"; cases "load m (p + 2)"; cases "load m (p + 3)")
        (auto simp: word_le_nat_alt split: if_splits intro: error four)
  qed (use assms b0 in \<open>auto simp: utf8_decode_def Let_def word_less_nat_alt word_le_nat_alt
      word_unat_eq_iff [of ?c] intro: error\<close>)
qed

lemma undigits64:
  fixes q x y z :: nat
  shows "y < 64 \<Longrightarrow> (x * 64 + y) div 64 = x" and "y < 64 \<Longrightarrow> (x * 64 + y) mod 64 = y"
    and "x < 64 \<Longrightarrow> y < 64 \<Longrightarrow> (q * 4096 + x * 64 + y) div 4096 = q"
    and "x < 64 \<Longrightarrow> y < 64 \<Longrightarrow> (q * 4096 + x * 64 + y) div 64 mod 64 = x"
    and "y < 64 \<Longrightarrow> (q * 4096 + x * 64 + y) mod 64 = y"
    and "x < 64 \<Longrightarrow> y < 64 \<Longrightarrow> z < 64 \<Longrightarrow> (q * 262144 + x * 4096 + y * 64 + z) div 262144 = q"
    and "x < 64 \<Longrightarrow> y < 64 \<Longrightarrow> z < 64 \<Longrightarrow> (q * 262144 + x * 4096 + y * 64 + z) div 4096 mod 64 = x"
    and "y < 64 \<Longrightarrow> z < 64 \<Longrightarrow> (q * 262144 + x * 4096 + y * 64 + z) div 64 mod 64 = y"
    and "z < 64 \<Longrightarrow> (q * 262144 + x * 4096 + y * 64 + z) mod 64 = z"
proof -
  have low: "b < 64 \<Longrightarrow> (a * 64 + b) mod 64 = b" for a b :: nat
    by simp
  have d3: "y < 64 \<Longrightarrow> (q * 4096 + x * 64 + y) div 64 = q * 64 + x"
    by (intro div_nat_eqI) simp_all
  have d4: "y < 64 \<Longrightarrow> z < 64 \<Longrightarrow> (q * 262144 + x * 4096 + y * 64 + z) div 4096 = q * 64 + x"
    by (intro div_nat_eqI) simp_all
  have d4': "z < 64 \<Longrightarrow> (q * 262144 + x * 4096 + y * 64 + z) div 64 = (q * 4096 + x * 64) + y"
    by (intro div_nat_eqI) simp_all
  show "y < 64 \<Longrightarrow> (x * 64 + y) div 64 = x" "x < 64 \<Longrightarrow> y < 64 \<Longrightarrow> (q * 4096 + x * 64 + y) div 4096 = q"
    "x < 64 \<Longrightarrow> y < 64 \<Longrightarrow> z < 64 \<Longrightarrow> (q * 262144 + x * 4096 + y * 64 + z) div 262144 = q"
    by (intro div_nat_eqI; simp)+
  show "y < 64 \<Longrightarrow> (x * 64 + y) mod 64 = y" by (rule low)
  show "x < 64 \<Longrightarrow> y < 64 \<Longrightarrow> (q * 4096 + x * 64 + y) div 64 mod 64 = x" by (simp only: d3 low)
  show "x < 64 \<Longrightarrow> y < 64 \<Longrightarrow> z < 64 \<Longrightarrow> (q * 262144 + x * 4096 + y * 64 + z) div 4096 mod 64 = x"
    by (simp only: d4 low)
  show m3: "y < 64 \<Longrightarrow> (q * 4096 + x * 64 + y) mod 64 = y"
    using low [of y "q * 64 + x"] by (simp add: algebra_simps)
  show "y < 64 \<Longrightarrow> z < 64 \<Longrightarrow> (q * 262144 + x * 4096 + y * 64 + z) div 64 mod 64 = y"
    by (simp only: d4' m3)
  show "z < 64 \<Longrightarrow> (q * 262144 + x * 4096 + y * 64 + z) mod 64 = z"
    using low [of z "q * 4096 + x * 64 + y"] by (simp add: algebra_simps)
qed

lemma take_drop_loads:
  "load m p = Some a \<Longrightarrow> take (Suc n) (drop p m) = a # take n (drop (p + 1) m)"
  by (auto simp: load_Some_iff take_Suc_conv_app_nth simp flip: Cons_nth_drop_Suc)

lemma take_drop_loads_4:
  "load m p = Some a \<Longrightarrow> load m (p + 1) = Some b \<Longrightarrow> load m (p + 2) = Some c \<Longrightarrow>
     load m (p + 3) = Some d \<Longrightarrow> take 4 (drop p m) = [a, b, c, d]"
  using take_drop_loads [of m p a 3] take_drop_loads [of m "p + 1" b 2]
    take_drop_loads [of m "p + 2" c 1] take_drop_loads [of m "p + 3" d 0]
  by (simp add: eval_nat_numeral)

lemma map_unat_inj: "map unat xs = map unat ys \<longleftrightarrow> xs = ys" for xs ys :: "'a::len word list"
  by (rule inj_map_eq_map) (auto intro: injI simp: word_unat_eq_iff)

lemma utf8_decode_sound:
  assumes "utf8_decode m p = Some (c, q)"
  shows "unat c < 0x110000"
    and "(c = 0xFFFD \<and> q = p + 1) \<or> take (q - p) (drop p m) = utf8_encode c"
proof -
  have "unat c < 0x110000 \<and> ((c = 0xFFFD \<and> q = p + 1) \<or> take (q - p) (drop p m) = utf8_encode c)"
    using assms
  proof (cases rule: utf8_decode_shapes)
    case (ascii b)
    then have "map unat (utf8_encode c) = map unat [b]"
      by (simp add: map_unat_utf8_encode)
    then show ?thesis
      using ascii unfolding map_unat_inj by (simp add: take_drop_loads)
  next
    case error
    then show ?thesis by simp
  next
    case (two b0 b1)
    define x y where "x = unat b0 - 0xC0" and "y = unat b1 - 0x80"
    have n: "unat c = x * 64 + y" "unat b0 = x + 0xC0" "unat b1 = y + 0x80" "2 \<le> x" "x < 32" "y < 64"
      using two unat_dec2 [of b0 b1] by (auto simp: x_def y_def)
    then have "map unat (utf8_encode c) = map unat [b0, b1]"
      by (simp add: map_unat_utf8_encode Let_def undigits64)
    then show ?thesis
      using two n unfolding map_unat_inj by (simp add: take_drop_loads numeral_2_eq_2)
  next
    case (three b0 b1 b2)
    define q' x y where "q' = unat b0 - 0xE0" and "x = unat b1 - 0x80" and "y = unat b2 - 0x80"
    have n: "unat c = q' * 4096 + x * 64 + y" "unat b0 = q' + 0xE0" "unat b1 = x + 0x80"
      "unat b2 = y + 0x80" "q' < 16" "x < 64" "y < 64" "q' = 0 \<longrightarrow> 32 \<le> x"
      using three unat_dec3 [of b0 b1 b2] by (auto simp: q'_def x_def y_def split: if_splits)
    have "0x800 \<le> unat c" "unat c < 0x10000"
      using n by auto
    then have "map unat (utf8_encode c) = map unat [b0, b1, b2]"
      using n by (simp add: map_unat_utf8_encode Let_def undigits64)
    then show ?thesis
      using three n unfolding map_unat_inj by (simp add: take_drop_loads numeral_3_eq_3)
  next
    case (four b0 b1 b2 b3)
    define q' x y z where "q' = unat b0 - 0xF0" and "x = unat b1 - 0x80" and "y = unat b2 - 0x80"
      and "z = unat b3 - 0x80"
    have n: "unat c = q' * 262144 + x * 4096 + y * 64 + z" "unat b0 = q' + 0xF0" "unat b1 = x + 0x80"
      "unat b2 = y + 0x80" "unat b3 = z + 0x80" "q' < 5" "x < 64" "y < 64" "z < 64"
      "q' = 0 \<longrightarrow> 16 \<le> x" "q' = 4 \<longrightarrow> x < 16"
      using four unat_dec4 [of b0 b1 b2 b3] by (auto simp: q'_def x_def y_def z_def split: if_splits)
    have lim: "0x10000 \<le> unat c" "unat c < 0x110000"
      using n by auto
    then have "map unat (utf8_encode c) = map unat [b0, b1, b2, b3]"
      using n by (simp add: map_unat_utf8_encode Let_def undigits64)
    then show ?thesis
      using four(1-4,14) lim(2) unfolding map_unat_inj by (simp add: take_drop_loads_4)
  qed
  then show "unat c < 0x110000"
    and "(c = 0xFFFD \<and> q = p + 1) \<or> take (q - p) (drop p m) = utf8_encode c"
    by auto
qed

end
