(* ===== verification/UtfBuf.thy ===== *)
theory UtfBuf
  imports Utf
begin

text \<open>
  The buffer conversions of \<^verbatim>\<open>cutils.c\<close>: scanning a UTF-8 buffer, decoding it to 8-bit or
  16-bit units and encoding such units. A destination shorter than the result is filled as far
  as the source does, and the returned length is that of the whole result.
\<close>

section \<open>Definitions\<close>

definition UTF8_PLAIN_ASCII :: u32 where "UTF8_PLAIN_ASCII = 0"
definition UTF8_NON_ASCII :: u32 where "UTF8_NON_ASCII = 1"
definition UTF8_HAS_16BIT :: u32 where "UTF8_HAS_16BIT = 2"
definition UTF8_HAS_NON_BMP1 :: u32 where "UTF8_HAS_NON_BMP1 = 4"
definition UTF8_HAS_ERRORS :: u32 where "UTF8_HAS_ERRORS = 8"

function scan_cbits :: "u8 list \<Rightarrow> nat \<Rightarrow> nat \<Rightarrow> u8 \<Rightarrow> u8 option" where
  "scan_cbits b n i cbits =
     (if i < n then do { x \<leftarrow> load b i; scan_cbits b n (i + 1) (cbits OR x) } else Some cbits)"
  by pat_completeness auto
termination
  by (relation "measure (\<lambda>(b, n, i, c). n - i)") auto

function utf8_scan_loop :: "u8 list \<Rightarrow> nat \<Rightarrow> nat \<Rightarrow> nat \<Rightarrow> u32 \<Rightarrow> (u32 \<times> nat) option" where
  "utf8_scan_loop b p_end p len kind =
     (if p < p_end then
        do { x \<leftarrow> load b p;
             if 0x80 \<le> x then
               do { (c, p_next) \<leftarrow> utf8_decode_len b p (p_end - p);
                    let kind = (if p_next = p + 1 then kind OR UTF8_HAS_ERRORS else kind);
                        kind' = (if 0xFF < c then kind OR UTF8_HAS_16BIT else kind) in
                    if 0xFF < c \<and> 0xFFFF < c
                    then utf8_scan_loop b p_end p_next (len + 1 + 1) (kind' OR UTF8_HAS_NON_BMP1)
                    else utf8_scan_loop b p_end p_next (len + 1) kind' }
             else utf8_scan_loop b p_end (p + 1) (len + 1) kind }
      else Some (kind, len))"
  by pat_completeness auto
termination
  by (relation "measure (\<lambda>(b, e, p, len, kind). e - p)") (auto dest: utf8_decode_len_advances)

text \<open>The result is the mask of kinds and the length stored through \<open>plen\<close>.\<close>

definition utf8_scan :: "u8 list \<Rightarrow> nat \<Rightarrow> (u32 \<times> nat) option" where
  "utf8_scan b buf_len =
     do { cbits \<leftarrow> scan_cbits b buf_len 0 0;
          if 0x80 \<le> cbits then utf8_scan_loop b buf_len 0 0 UTF8_NON_ASCII
          else Some (UTF8_PLAIN_ASCII, buf_len) }"

text \<open>A store that is guarded by the length of the destination.\<close>

definition store_below :: "'a list \<Rightarrow> nat \<Rightarrow> nat \<Rightarrow> 'a \<Rightarrow> 'a list option" where
  "store_below dest dest_len i v = (if i < dest_len then store dest i v else Some dest)"

function utf8_decode_buf8_loop ::
    "u8 list \<Rightarrow> nat \<Rightarrow> u8 list \<Rightarrow> nat \<Rightarrow> nat \<Rightarrow> nat \<Rightarrow> (u8 list \<times> nat) option" where
  "utf8_decode_buf8_loop dest dest_len src p_end p i =
     (if p < p_end then
        do { b \<leftarrow> load src p;
             let c = ucast b :: u32 in
             if 0xC0 \<le> c then
               do { b1 \<leftarrow> load src (p + 1);
                    dest \<leftarrow> store_below dest dest_len i
                      (ucast (push_bit 6 c + ucast b1 - (push_bit 6 0xC0 + 0x80) :: u32));
                    utf8_decode_buf8_loop dest dest_len src p_end (p + 2) (i + 1) }
             else do { dest \<leftarrow> store_below dest dest_len i b;
                       utf8_decode_buf8_loop dest dest_len src p_end (p + 1) (i + 1) } }
      else Some (dest, i))"
  by pat_completeness auto
termination
  by (relation "measure (\<lambda>(d, n, s, e, p, i). e - p)") auto

definition utf8_decode_buf8 ::
    "u8 list \<Rightarrow> nat \<Rightarrow> u8 list \<Rightarrow> nat \<Rightarrow> (u8 list \<times> nat) option" where
  "utf8_decode_buf8 dest dest_len src src_len =
     do { (dest, i) \<leftarrow> utf8_decode_buf8_loop dest dest_len src src_len 0 0;
          dest \<leftarrow> (if i < dest_len then store dest i 0
                   else if 0 < dest_len then store dest (dest_len - 1) 0 else Some dest);
          Some (dest, i) }"

function utf8_decode_buf16_loop ::
    "u16 list \<Rightarrow> nat \<Rightarrow> u8 list \<Rightarrow> nat \<Rightarrow> nat \<Rightarrow> nat \<Rightarrow> (u16 list \<times> nat) option" where
  "utf8_decode_buf16_loop dest dest_len src p_end p i =
     (if p < p_end then
        do { b \<leftarrow> load src p;
             if 0x80 \<le> b then
               do { (c, p_next) \<leftarrow> utf8_decode_len src p (p_end - p);
                    if 0xFFFF < c then
                      do { dest \<leftarrow> store_below dest dest_len i (ucast (get_hi_surrogate c));
                           dest \<leftarrow> store_below dest dest_len (i + 1) (ucast (get_lo_surrogate c));
                           utf8_decode_buf16_loop dest dest_len src p_end p_next (i + 1 + 1) }
                    else do { dest \<leftarrow> store_below dest dest_len i (ucast c);
                              utf8_decode_buf16_loop dest dest_len src p_end p_next (i + 1) } }
             else do { dest \<leftarrow> store_below dest dest_len i (ucast b);
                       utf8_decode_buf16_loop dest dest_len src p_end (p + 1) (i + 1) } }
      else Some (dest, i))"
  by pat_completeness auto
termination
  by (relation "measure (\<lambda>(d, n, s, e, p, i). e - p)") (auto dest: utf8_decode_len_advances)

definition utf8_decode_buf16 ::
    "u16 list \<Rightarrow> nat \<Rightarrow> u8 list \<Rightarrow> nat \<Rightarrow> (u16 list \<times> nat) option" where
  "utf8_decode_buf16 dest dest_len src src_len = utf8_decode_buf16_loop dest dest_len src src_len 0 0"

text \<open>
  The encoders stop storing at the first character that does not fit with a terminator behind
  it, and count the length of the rest: the label \<open>overflow\<close>.
\<close>

function encode_buf8_count :: "u8 list \<Rightarrow> nat \<Rightarrow> nat \<Rightarrow> nat \<Rightarrow> nat option" where
  "encode_buf8_count src src_len i j =
     (if i < src_len
      then do { c \<leftarrow> load src i;
                encode_buf8_count src src_len (i + 1) (j + 1 + (if 0x80 \<le> c then 1 else 0)) }
      else Some j)"
  by pat_completeness auto
termination
  by (relation "measure (\<lambda>(s, n, i, j). n - i)") auto

function utf8_encode_buf8_loop ::
    "u8 list \<Rightarrow> nat \<Rightarrow> u8 list \<Rightarrow> nat \<Rightarrow> nat \<Rightarrow> nat \<Rightarrow> (u8 list \<times> nat) option" where
  "utf8_encode_buf8_loop dest dest_len src src_len i j =
     (if i < src_len then
        do { b \<leftarrow> load src i;
             let c = ucast b :: u32 in
             if c < 0x80 then
               if dest_len \<le> j + 1
               then do { dest \<leftarrow> store_below dest dest_len j 0;
                         n \<leftarrow> encode_buf8_count src src_len i j; Some (dest, n) }
               else do { dest \<leftarrow> store dest j (ucast c);
                         utf8_encode_buf8_loop dest dest_len src src_len (i + 1) (j + 1) }
             else
               if dest_len \<le> j + 2
               then do { dest \<leftarrow> store_below dest dest_len j 0;
                         n \<leftarrow> encode_buf8_count src src_len i j; Some (dest, n) }
               else do { dest \<leftarrow> store dest j (ucast (drop_bit 6 c OR 0xC0));
                         dest \<leftarrow> store dest (j + 1) (ucast ((c AND 0x3F) OR 0x80));
                         utf8_encode_buf8_loop dest dest_len src src_len (i + 1) (j + 1 + 1) } }
      else do { dest \<leftarrow> store_below dest dest_len j 0; Some (dest, j) })"
  by pat_completeness auto
termination
  by (relation "measure (\<lambda>(d, m, s, n, i, j). n - i)") auto

definition utf8_encode_buf8 ::
    "u8 list \<Rightarrow> nat \<Rightarrow> u8 list \<Rightarrow> nat \<Rightarrow> (u8 list \<times> nat) option" where
  "utf8_encode_buf8 dest dest_len src src_len = utf8_encode_buf8_loop dest dest_len src src_len 0 0"

text \<open>
  The next code point of a 16-bit buffer with the position behind it: a high surrogate is
  joined with the low surrogate that follows it inside the buffer.
\<close>

definition next_code16 :: "u16 list \<Rightarrow> nat \<Rightarrow> nat \<Rightarrow> (u32 \<times> nat) option" where
  "next_code16 src src_len i =
     do { u \<leftarrow> load src i;
          let c = ucast u :: u32 in
          if is_hi_surrogate c \<and> i + 1 < src_len
          then do { u1 \<leftarrow> load src (i + 1);
                    if is_lo_surrogate (ucast u1) then Some (from_surrogate c (ucast u1), i + 2)
                    else Some (c, i + 1) }
          else Some (c, i + 1) }"

lemma next_code16_advances: "next_code16 src n i = Some (c, i') \<Longrightarrow> i < i'"
  by (auto simp: next_code16_def Let_def split: if_splits Option.bind_splits)

function encode_buf16_count :: "u16 list \<Rightarrow> nat \<Rightarrow> nat \<Rightarrow> nat \<Rightarrow> nat option" where
  "encode_buf16_count src src_len i j =
     (if i < src_len then
        do { u \<leftarrow> load src i;
             if (ucast u :: u32) < 0x80 then encode_buf16_count src src_len (i + 1) (j + 1)
             else do { (c, i') \<leftarrow> next_code16 src src_len i;
                       encode_buf16_count src src_len i' (j + utf8_encode_len c) } }
      else Some j)"
  by pat_completeness auto
termination
  by (relation "measure (\<lambda>(s, n, i, j). n - i)") (auto dest: next_code16_advances)

text \<open>
  At the label \<open>overflow\<close> the index is moved back over the units of the character that did not
  fit: \<open>i -= 1 + (c > 0xFFFF)\<close>.
\<close>

function utf8_encode_buf16_loop ::
    "u8 list \<Rightarrow> nat \<Rightarrow> u16 list \<Rightarrow> nat \<Rightarrow> nat \<Rightarrow> nat \<Rightarrow> (u8 list \<times> nat) option" where
  "utf8_encode_buf16_loop dest dest_len src src_len i j =
     (if i < src_len then
        do { u \<leftarrow> load src i;
             let c0 = ucast u :: u32 in
             if c0 < 0x80 then
               if dest_len \<le> j + 1
               then do { dest \<leftarrow> store_below dest dest_len j 0;
                         n \<leftarrow> encode_buf16_count src src_len (i + 1 - (1 + (if 0xFFFF < c0 then 1 else 0))) j;
                         Some (dest, n) }
               else do { dest \<leftarrow> store dest j (ucast c0);
                         utf8_encode_buf16_loop dest dest_len src src_len (i + 1) (j + 1) }
             else
               do { (c, i') \<leftarrow> next_code16 src src_len i;
                    if dest_len \<le> j + utf8_encode_len c
                    then do { dest \<leftarrow> store_below dest dest_len j 0;
                              n \<leftarrow> encode_buf16_count src src_len (i' - (1 + (if 0xFFFF < c then 1 else 0))) j;
                              Some (dest, n) }
                    else do { dest \<leftarrow> memcpy dest j (utf8_encode c) 0 (length (utf8_encode c));
                              utf8_encode_buf16_loop dest dest_len src src_len i'
                                (j + length (utf8_encode c)) } } }
      else do { dest \<leftarrow> store_below dest dest_len j 0; Some (dest, j) })"
  by pat_completeness auto
termination
  by (relation "measure (\<lambda>(d, m, s, n, i, j). n - i)") (auto dest: next_code16_advances)

definition utf8_encode_buf16 ::
    "u8 list \<Rightarrow> nat \<Rightarrow> u16 list \<Rightarrow> nat \<Rightarrow> (u8 list \<times> nat) option" where
  "utf8_encode_buf16 dest dest_len src src_len = utf8_encode_buf16_loop dest dest_len src src_len 0 0"

declare scan_cbits.simps [simp del] utf8_scan_loop.simps [simp del]
  utf8_decode_buf8_loop.simps [simp del] utf8_decode_buf16_loop.simps [simp del]
  encode_buf8_count.simps [simp del] utf8_encode_buf8_loop.simps [simp del]
  encode_buf16_count.simps [simp del] utf8_encode_buf16_loop.simps [simp del]

section \<open>Reference semantics of 16-bit buffers\<close>

text \<open>The code points of a sequence of 16-bit units, the units of a code point, and the encoding.\<close>

fun codes16 :: "u16 list \<Rightarrow> u32 list" where
  "codes16 [] = []"
| "codes16 [u] = [ucast u]"
| "codes16 (u # v # r) =
     (if is_hi_surrogate (ucast u) \<and> is_lo_surrogate (ucast v)
      then from_surrogate (ucast u) (ucast v) # codes16 r else ucast u # codes16 (v # r))"

definition units16 :: "u32 \<Rightarrow> u16 list" where
  "units16 c = (if 0xFFFF < c then [ucast (get_hi_surrogate c), ucast (get_lo_surrogate c)] else [ucast c])"

definition bytes16 :: "u16 list \<Rightarrow> u8 list" where
  "bytes16 us = concat (map utf8_encode (codes16 us))"

text \<open>The encodings that fit in \<open>room\<close> bytes with a terminator behind them.\<close>

fun fit :: "nat \<Rightarrow> u8 list list \<Rightarrow> u8 list" where
  "fit room [] = []"
| "fit room (b # bs) = (if length b < room then b @ fit (room - length b) bs else [])"

definition put_fit :: "u8 list \<Rightarrow> nat \<Rightarrow> nat \<Rightarrow> u8 list list \<Rightarrow> u8 list" where
  "put_fit dest dest_len j bss =
     (if dest_len = 0 then dest
      else let t = fit (dest_len - j) bss in take j dest @ t @ 0 # drop (j + length t + 1) dest)"

section \<open>Surrogates as numbers\<close>

lemma unat_ucast_u16_u32 [simp]: "unat (ucast u :: u32) = unat u" for u :: u16
  using unat_lt2p [of u] unfolding unsigned_ucast_eq by (simp add: take_bit_eq_mod)

lemma unat_ucast_u8_u16: "unat (ucast b :: u16) = unat b" for b :: u8
  using unat_lt2p [of b] unfolding unsigned_ucast_eq by (simp add: take_bit_eq_mod)

lemma unat_ucast_u32_u16: "unat (ucast c :: u16) = unat c mod 65536" for c :: u32
  unfolding unsigned_ucast_eq by (simp add: take_bit_eq_mod)

lemma is_hi_surrogate_iff: "is_hi_surrogate c \<longleftrightarrow> 0xD800 \<le> unat c \<and> unat c < 0xDC00"
proof -
  have "is_hi_surrogate c \<longleftrightarrow> unat c div 1024 = 54"
    by (simp add: is_hi_surrogate_def word_unat_eq_iff unat_rules)
  then show ?thesis by auto
qed

lemma is_lo_surrogate_iff: "is_lo_surrogate c \<longleftrightarrow> 0xDC00 \<le> unat c \<and> unat c < 0xE000"
proof -
  have "is_lo_surrogate c \<longleftrightarrow> unat c div 1024 = 55"
    by (simp add: is_lo_surrogate_def word_unat_eq_iff unat_rules)
  then show ?thesis by auto
qed

lemma unat_from_surrogate: "unat (from_surrogate h l) = 65536 + 1024 * (unat h mod 1024) + unat l mod 1024"
proof -
  have m: "unat (1024 * (h AND 1023)) = 1024 * (unat h mod 1024)"
    by (simp add: unat_word_ariths unat_and_3FF)
  then have "unat (65536 + 1024 * (h AND 1023) :: u32) = 65536 + 1024 * (unat h mod 1024)"
    by (subst unat_add_no_wrap) auto
  then show ?thesis
    unfolding from_surrogate_def by (subst unat_add_no_wrap) (auto simp: unat_and_3FF)
qed

lemma unat_get_hi_surrogate:
  assumes "0x10000 \<le> unat c" "unat c < 0x110000"
  shows "unat (get_hi_surrogate c) = unat c div 1024 - 64 + 0xD800"
proof -
  have "64 \<le> unat c div 1024" "unat c div 1024 < 1088"
    using assms by auto
  then show ?thesis
    by (simp add: get_hi_surrogate_def unat_add_no_wrap unat_rules)
qed

lemma unat_get_lo_surrogate: "unat (get_lo_surrogate c) = unat c mod 1024 + 0xDC00"
  unfolding get_lo_surrogate_def
  by (subst unat_or_disj [of _ 10]) (auto simp: unat_and_3FF)

lemma units16_from_surrogate:
  assumes "is_hi_surrogate (ucast u)" "is_lo_surrogate (ucast v)"
  shows "units16 (from_surrogate (ucast u) (ucast v)) = [u, v]"
proof -
  define x y where "x = unat u - 0xD800" and "y = unat v - 0xDC00"
  have xy: "unat u = x + 0xD800" "unat v = y + 0xDC00" "x < 1024" "y < 1024"
    using assms by (auto simp: is_hi_surrogate_iff is_lo_surrogate_iff x_def y_def)
  let ?c = "from_surrogate (ucast u) (ucast v)"
  have "(x + 54 * 1024) mod 1024 = x" "(y + 55 * 1024) mod 1024 = y"
    using xy(3,4) by (simp_all only: mod_mult_self1 mod_less)
  then have c: "unat ?c = 65536 + 1024 * x + y"
    using xy by (simp add: unat_from_surrogate)
  have "(y + (64 + x) * 1024) mod 1024 = y"
    using xy(4) by (simp only: mod_mult_self1 mod_less)
  then have "(65536 + 1024 * x + y) mod 1024 = y"
    by (simp add: algebra_simps)
  moreover have "(65536 + 1024 * x + y) div 1024 = 64 + x"
    using xy by (auto intro!: div_nat_eqI)
  ultimately show ?thesis
    using xy c
    by (simp add: units16_def word_less_nat_alt word_unat_eq_iff unat_ucast_u32_u16
        unat_get_hi_surrogate unat_get_lo_surrogate)
qed

lemma units16_bmp: "units16 (ucast u) = [u]"
  by (simp add: units16_def word_less_nat_alt word_unat_eq_iff unat_ucast_u32_u16)
    (use unat_lt2p [of u] in auto)

lemma concat_units16_codes16: "concat (map units16 (codes16 us)) = us"
  by (induction us rule: codes16.induct) (auto simp: units16_from_surrogate units16_bmp)

lemma unat_codes16: "c \<in> set (codes16 us) \<Longrightarrow> unat c < 0x110000"
proof (induction us rule: codes16.induct)
  case (2 u)
  then show ?case using unat_lt2p [of u] by auto
next
  case (3 u v r)
  have "unat (from_surrogate (ucast u) (ucast v)) < 0x110000"
    unfolding unat_from_surrogate
    using mod_less_divisor [of 1024 "unat (ucast u :: u32)"] mod_less_divisor [of 1024 "unat (ucast v :: u32)"]
    by linarith
  then show ?case
    using 3 unat_lt2p [of u] by (auto split: if_splits)
qed auto

text \<open>One step over a 16-bit buffer is one step of the reference.\<close>

lemma next_code16_step:
  assumes "i < n" "n \<le> length src"
  obtains c i' where "next_code16 src n i = Some (c, i')" "i < i'" "i' \<le> n"
    "i' = i + 1 + (if 0xFFFF < c then 1 else 0)"
    "codes16 (drop i (take n src)) = c # codes16 (drop i' (take n src))"
proof -
  let ?us = "take n src"
  have d: "drop i ?us = src ! i # drop (i + 1) ?us"
    using assms Cons_nth_drop_Suc [of i ?us] by simp
  have bmp: "\<not> 0xFFFF < (ucast (src ! i) :: u32)"
    using unat_lt2p [of "src ! i"] by (simp add: word_less_nat_alt)
  show thesis
  proof (cases "i + 1 < n")
    case True
    then have d1: "drop (i + 1) ?us = src ! (i + 1) # drop (i + 2) ?us"
      using assms Cons_nth_drop_Suc [of "i + 1" ?us] by simp
    have sup: "0xFFFF < from_surrogate (ucast (src ! i)) (ucast (src ! (i + 1)))"
      by (simp add: word_less_nat_alt unat_from_surrogate)
    show thesis
    proof (cases "is_hi_surrogate (ucast (src ! i)) \<and> is_lo_surrogate (ucast (src ! (i + 1)))")
      case pair: True
      with True assms sup d d1 show thesis
        by (intro that [of "from_surrogate (ucast (src ! i)) (ucast (src ! (i + 1)))" "i + 2"])
          (auto simp: next_code16_def mem_rules Let_def)
    next
      case False
      with True assms bmp d d1 show thesis
        by (intro that [of "ucast (src ! i)" "i + 1"]) (auto simp: next_code16_def mem_rules Let_def)
    qed
  next
    case False
    then have "drop (i + 1) ?us = []" by simp
    with False assms bmp d show thesis
      by (intro that [of "ucast (src ! i)" "i + 1"]) (auto simp: next_code16_def mem_rules Let_def)
  qed
qed

section \<open>The encoder\<close>

lemma utf8_encode_ascii: "c < 0x80 \<Longrightarrow> utf8_encode c = [ucast c] \<and> utf8_encode_len c = 1"
  by (simp add: utf8_encode_def utf8_encode_len_def)

lemma next_code16_ascii:
  "load src i = Some u \<Longrightarrow> (ucast u :: u32) < 0x80 \<Longrightarrow> next_code16 src n i = Some (ucast u, i + 1)"
  by (auto simp: next_code16_def is_hi_surrogate_iff word_less_nat_alt Let_def)

text \<open>
  The branch for ASCII and the general branch do the same thing, so each loop has one recursion
  equation over \<^term>\<open>next_code16\<close>.
\<close>

lemma encode_buf16_count_unfold:
  assumes "next_code16 src n i = Some (c, i')" "i < n"
  shows "encode_buf16_count src n i j = encode_buf16_count src n i' (j + length (utf8_encode c))"
proof -
  obtain u where u: "load src i = Some u"
    using assms by (auto simp: next_code16_def split: Option.bind_splits)
  show ?thesis
    using assms u next_code16_ascii [OF u, of n] utf8_encode_ascii [of "ucast u"]
    by (subst encode_buf16_count.simps) (auto simp: length_utf8_encode)
qed

lemma encode_buf16_count_eq:
  assumes "n \<le> length src"
  shows "encode_buf16_count src n i j = Some (j + length (bytes16 (drop i (take n src))))"
proof (induction "n - i" arbitrary: i j rule: less_induct)
  case less
  show ?case
  proof (cases "i < n")
    case True
    then obtain c i' where "next_code16 src n i = Some (c, i')" "i < i'" "i' \<le> n"
      "codes16 (drop i (take n src)) = c # codes16 (drop i' (take n src))"
      using assms by (rule next_code16_step)
    then show ?thesis
      using True less [of i' "j + length (utf8_encode c)"] encode_buf16_count_unfold [of src n i c i' j]
      by (simp add: bytes16_def)
  next
    case False
    then show ?thesis
      by (subst encode_buf16_count.simps) (simp add: bytes16_def)
  qed
qed

lemma store_as_memcpy: "store dest j b = memcpy dest j [b] 0 1"
  by (auto simp: store_def memcpy_def upd_conv_take_nth_drop)

lemma utf8_encode_buf16_loop_unfold:
  assumes "next_code16 src n i = Some (c, i')" "i < n" "i' = i + 1 + (if 0xFFFF < c then 1 else 0)"
  shows "utf8_encode_buf16_loop dest m src n i j =
     (if m \<le> j + length (utf8_encode c)
      then do { dest \<leftarrow> store_below dest m j 0;
                k \<leftarrow> encode_buf16_count src n i j; Some (dest, k) }
      else do { dest \<leftarrow> memcpy dest j (utf8_encode c) 0 (length (utf8_encode c));
                utf8_encode_buf16_loop dest m src n i' (j + length (utf8_encode c)) })"
proof -
  obtain u where u: "load src i = Some u"
    using assms by (auto simp: next_code16_def split: Option.bind_splits)
  have "i' - (1 + (if 0xFFFF < c then 1 else 0)) = i"
    using assms(3) by simp
  then show ?thesis
    using assms(1,2) u next_code16_ascii [OF u, of n] utf8_encode_ascii [of "ucast u"]
    by (subst utf8_encode_buf16_loop.simps)
      (auto simp: length_utf8_encode store_as_memcpy word_less_nat_alt Let_def)
qed

lemma put_fit_end: "0 < m \<Longrightarrow> m \<le> length dest \<Longrightarrow> j < m \<Longrightarrow> put_fit dest m j [] = dest[j := 0]"
  by (simp add: put_fit_def upd_conv_take_nth_drop)

lemma put_fit_step:
  assumes "m \<le> length dest" "j < m" "memcpy dest j b 0 (length b) = Some dest'"
  shows "put_fit dest m j (b # bs) =
          (if length b < m - j then put_fit dest' m (j + length b) bs else put_fit dest m j [])"
proof -
  have "dest' = take j dest @ b @ drop (j + length b) dest"
    using assms(3) by (simp add: memcpy_Some_iff)
  moreover have "j + (length b + k) = j + length b + k" for k
    by simp
  ultimately show ?thesis
    using assms(1,2) by (simp add: put_fit_def Let_def ac_simps)
qed

lemma utf8_encode_buf16_loop_eq:
  assumes "n \<le> length src" "m \<le> length dest" "j < m \<or> m = 0 \<and> j = 0"
  shows "utf8_encode_buf16_loop dest m src n i j =
     Some (put_fit dest m j (map utf8_encode (codes16 (drop i (take n src)))),
           j + length (bytes16 (drop i (take n src))))"
  using assms(2,3)
proof (induction "n - i" arbitrary: i j dest rule: less_induct)
  case less
  show ?case
  proof (cases "i < n")
    case True
    then obtain c i' where c: "next_code16 src n i = Some (c, i')" "i < i'" "i' \<le> n"
      "i' = i + 1 + (if 0xFFFF < c then 1 else 0)"
      "codes16 (drop i (take n src)) = c # codes16 (drop i' (take n src))"
      using assms(1) by (rule next_code16_step)
    let ?b = "utf8_encode c"
    note step = utf8_encode_buf16_loop_unfold [OF c(1) True c(4), of dest m j]
    show ?thesis
    proof (cases "m \<le> j + length ?b")
      case over: True
      then show ?thesis
        using less.prems step c(5)
        by (auto simp: store_below_def mem_rules encode_buf16_count_eq [OF assms(1)] put_fit_def
            upd_conv_take_nth_drop Let_def)
    next
      case False
      then obtain dest' where d: "memcpy dest j ?b 0 (length ?b) = Some dest'"
        using less.prems(1) by (simp add: memcpy_def)
      moreover have "length dest' = length dest"
        using d by (rule memcpy_length)
      ultimately show ?thesis
        using False less.prems step c less.hyps [of i' dest' "j + length ?b"] put_fit_step [OF less.prems(1) _ d]
        by (auto simp: bytes16_def)
    qed
  next
    case False
    then show ?thesis
      using less.prems
      by (subst utf8_encode_buf16_loop.simps)
        (auto simp: bytes16_def store_below_def mem_rules put_fit_end, simp add: put_fit_def)
  qed
qed

section \<open>The decoder\<close>

text \<open>Storing a sequence of units, each guarded by the length of the destination.\<close>

fun store_all :: "'a list \<Rightarrow> nat \<Rightarrow> nat \<Rightarrow> 'a list \<Rightarrow> 'a list" where
  "store_all dest m i [] = dest"
| "store_all dest m i (u # us) = store_all (if i < m then dest[i := u] else dest) m (i + 1) us"

lemma length_store_all [simp]: "length (store_all dest m i us) = length dest"
  by (induction us arbitrary: dest i) auto

lemma store_all_append:
  "store_all dest m i (us @ vs) = store_all (store_all dest m i us) m (i + length us) vs"
  by (induction us arbitrary: dest i) auto

lemma store_below_eq: "m \<le> length dest \<Longrightarrow> store_below dest m i u = Some (store_all dest m i [u])"
  by (simp add: store_below_def mem_rules)

lemma store_all_eq:
  assumes "m \<le> length dest" "i \<le> m"
  shows "store_all dest m i us = take i dest @ take (m - i) us @ drop (i + length (take (m - i) us)) dest"
  using assms
proof (induction us arbitrary: dest i)
  case Nil
  then show ?case by simp
next
  case (Cons u us)
  show ?case
  proof (cases "i < m")
    case True
    then have "m - i = Suc (m - Suc i)"
      by simp
    with True Cons show ?thesis
      by (simp add: take_list_update_Suc)
  next
    case False
    then have "store_all dest m k vs = dest" if "m \<le> k" for k vs
      using that by (induction vs arbitrary: k) auto
    with False Cons.prems show ?thesis by simp
  qed
qed

text \<open>Decoding with the length of what is left agrees with decoding on an encoded code point.\<close>

lemma utf8_decode_len_encode:
  assumes "unat c < 0x110000" "length (utf8_encode c) \<le> n"
  shows "utf8_decode_len (xs @ utf8_encode c @ ys) (length xs) n
           = Some (c, length xs + length (utf8_encode c))"
proof -
  obtain b where b: "load (xs @ utf8_encode c @ ys) (length xs) = Some b" "b = hd (utf8_encode c)"
    by (simp add: load_append utf8_encode_def)
  have "unat b = hd (map unat (utf8_encode c))"
    unfolding b(2) by (rule hd_map [symmetric]) (simp add: utf8_encode_def)
  then have "n = 1 \<Longrightarrow> b < 0x80" "n = 2 \<Longrightarrow> b < 0xE0" "n = 3 \<Longrightarrow> b < 0xF0" "n \<noteq> 0"
    using assms unfolding map_unat_utf8_encode length_utf8_encode
    by (auto simp: utf8_encode_len_def word_less_nat_alt Let_def split: if_splits)
  then show ?thesis
    using b utf8_decode_encode [OF assms(1), of xs ys] by (auto simp: utf8_decode_len_def)
qed

text \<open>
  The code points of the bytes from \<open>p\<close> up to \<open>e\<close>: the reference for the scanner and for
  both decoders. Malformed bytes count as \<open>0xFFFD\<close>, one each.
\<close>

function codes8 :: "u8 list \<Rightarrow> nat \<Rightarrow> nat \<Rightarrow> u32 list" where
  "codes8 src e p =
     (if p < e then
        case utf8_decode_len src p (e - p) of
          None \<Rightarrow> []
        | Some (c, q) \<Rightarrow> c # codes8 src e q
      else [])"
  by pat_completeness auto
termination
  by (relation "measure (\<lambda>(s, e, p). e - p)") (auto dest: utf8_decode_len_advances)

declare codes8.simps [simp del]

definition utf8_units :: "u8 list \<Rightarrow> nat \<Rightarrow> u16 list" where
  "utf8_units src n = concat (map units16 (codes8 src n 0))"

lemma utf8_need_total:
  "p + 2 \<le> length m \<Longrightarrow> utf8_need2 m c p l \<noteq> None"
  "p + 3 \<le> length m \<Longrightarrow> utf8_need3 m c p l u \<noteq> None"
  by (simp_all add: utf8_need2_def utf8_need3_def load_in)

lemma utf8_decode_total:
  assumes "load m p = Some b"
    "unat b < 0x80 \<or> (unat b < 0xE0 \<and> p + 2 \<le> e) \<or> (unat b < 0xF0 \<and> p + 3 \<le> e) \<or> p + 4 \<le> e"
    "p < e" "e \<le> length m"
  shows "\<exists>c q. utf8_decode m p = Some (c, q) \<and> p < q \<and> q \<le> e"
proof -
  consider "unat b < 0x80" | "0x80 \<le> unat b" "unat b < 0xE0" "p + 2 \<le> e"
    | "0xE0 \<le> unat b" "unat b < 0xF0" "p + 3 \<le> e" | "p + 4 \<le> e"
    using assms(2) by linarith
  then have "utf8_decode m p \<noteq> None"
  proof cases
    case 2
    then have "load m (p + 1) = Some (m ! (p + 1))" "\<not> 0xE0 \<le> unat b" "unat b \<noteq> 0xE0" "unat b \<noteq> 0xF0" "unat b \<noteq> 0xF4"
      using assms(4) by (auto simp: mem_rules)
    with 2 show ?thesis
      using assms(1)
      by (simp add: utf8_decode_def word_less_nat_alt word_le_nat_alt word_unat_eq_iff [of "ucast b"] Let_def)
  next
    case 4
    with assms utf8_need_total show ?thesis
      by (simp add: utf8_decode_def mem_rules Let_def)
  qed (use assms utf8_need_total in
      \<open>simp_all add: utf8_decode_def word_less_nat_alt word_le_nat_alt word_unat_eq_iff [of "ucast b"] mem_rules Let_def\<close>)
  then obtain c q where q: "utf8_decode m p = Some (c, q)"
    by auto
  then have "q \<le> e"
    using assms(1-3) by (cases rule: utf8_decode_shapes) auto
  with q show ?thesis
    using utf8_decode_advances by blast
qed

text \<open>The switch on the length left only keeps the decoder inside it.\<close>

lemma utf8_decode_len_eq:
  assumes "load src p = Some b" "p < e"
  shows "utf8_decode_len src p (e - p) =
     (if unat b < 0x80 \<or> (unat b < 0xE0 \<and> p + 2 \<le> e) \<or> (unat b < 0xF0 \<and> p + 3 \<le> e) \<or> p + 4 \<le> e
      then utf8_decode src p else Some (0xFFFD, p + 1))"
proof -
  consider "e - p = 1" | "e - p = 2" | "e - p = 3" | "4 \<le> e - p"
    using assms(2) by linarith
  then show ?thesis
    using assms by cases (auto simp: utf8_decode_len_def word_less_nat_alt)
qed

lemma utf8_decode_len_total:
  assumes "p < e" "e \<le> length src"
  obtains c q where "utf8_decode_len src p (e - p) = Some (c, q)" "p < q" "q \<le> e"
proof -
  obtain b where b: "load src p = Some b"
    using assms by (auto simp: load_def)
  have "\<exists>c q. utf8_decode_len src p (e - p) = Some (c, q) \<and> p < q \<and> q \<le> e"
    using utf8_decode_total [OF b _ assms] assms(1)
    by (simp only: utf8_decode_len_eq [OF b assms(1)] split: if_split) auto
  with that show thesis by blast
qed

lemma codes8_step:
  assumes "utf8_decode_len src p (e - p) = Some (c, q)" "p < e"
  shows "codes8 src e p = c # codes8 src e q"
  using assms by (subst codes8.simps) simp

lemma codes8_end: "e \<le> p \<Longrightarrow> codes8 src e p = []"
  by (subst codes8.simps) simp

lemma utf8_decode_len_ascii:
  assumes "load src p = Some b" "\<not> 0x80 \<le> b" "p < e"
  shows "utf8_decode_len src p (e - p) = Some (ucast b, p + 1)"
  using assms utf8_decode_len_eq [OF assms(1,3)]
  by (simp add: utf8_decode_def word_less_nat_alt word_le_nat_alt)

text \<open>Decoding to 16-bit units and scanning, against the reference.\<close>

lemma units16_ascii: "\<not> 0x80 \<le> b \<Longrightarrow> units16 (ucast b) = [ucast b]" for b :: u8
  by (simp add: units16_def word_less_nat_alt word_le_nat_alt word_unat_eq_iff unat_ucast_u32_u16
      unat_ucast_u8_u16)

lemma utf8_decode_buf16_loop_eq:
  assumes "e \<le> length src" "m \<le> length dest"
  shows "utf8_decode_buf16_loop dest m src e p i =
     (let us = concat (map units16 (codes8 src e p)) in Some (store_all dest m i us, i + length us))"
  using assms(2)
proof (induction "e - p" arbitrary: p i dest rule: less_induct)
  case less
  show ?case
  proof (cases "p < e")
    case True
    obtain c q where q: "utf8_decode_len src p (e - p) = Some (c, q)" "p < q" "q \<le> e"
      using True assms(1) by (rule utf8_decode_len_total)
    obtain b where b: "load src p = Some b"
      using True assms(1) by (auto simp: load_def)
    have "utf8_decode_buf16_loop dest m src e p i =
        utf8_decode_buf16_loop (store_all dest m i (units16 c)) m src e q (i + length (units16 c))"
    proof (cases "0x80 \<le> b")
      case False
      then have "c = ucast b" "q = p + 1"
        using q utf8_decode_len_ascii [OF b _ True] by auto
      with False show ?thesis
        using True b less.prems
        by (subst utf8_decode_buf16_loop.simps) (simp add: store_below_eq units16_ascii)
    next
      case high: True
      then show ?thesis
        using True b q less.prems
        by (subst utf8_decode_buf16_loop.simps) (auto simp: store_below_eq units16_def)
    qed
    then show ?thesis
      using True q less.hyps [of q "store_all dest m i (units16 c)" "i + length (units16 c)"] less.prems
      by (simp add: codes8_step store_all_append Let_def)
  next
    case False
    then show ?thesis
      by (subst utf8_decode_buf16_loop.simps) (simp add: codes8_end)
  qed
qed

text \<open>The bytes are well formed when they are the encoding of their own code points.\<close>

definition well_formed8 :: "u8 list \<Rightarrow> nat \<Rightarrow> nat \<Rightarrow> bool" where
  "well_formed8 src e p \<longleftrightarrow> concat (map utf8_encode (codes8 src e p)) = drop p (take e src)"

lemma high_u8: "0x80 \<le> w \<longleftrightarrow> bit w 7" for w :: u8
proof -
  have "bit w 7 \<longleftrightarrow> bit (unat w) 7"
    by (simp add: bit_unsigned_iff)
  also have "\<dots> \<longleftrightarrow> odd (unat w div 128)"
    by (simp add: bit_iff_odd)
  also have "unat w div 128 = (if 128 \<le> unat w then 1 else 0)"
    using unat_lt2p [of w] by auto
  finally show ?thesis
    by (simp add: word_le_nat_alt split: if_splits)
qed

lemma scan_cbits_high:
  assumes "n \<le> length b"
  obtains r where "scan_cbits b n i acc = Some r"
     "0x80 \<le> r \<longleftrightarrow> 0x80 \<le> acc \<or> (\<exists>x \<in> set (drop i (take n b)). 0x80 \<le> x)"
proof -
  have "\<exists>r. scan_cbits b n i acc = Some r \<and>
     (0x80 \<le> r \<longleftrightarrow> 0x80 \<le> acc \<or> (\<exists>x \<in> set (drop i (take n b)). 0x80 \<le> x))"
  proof (induction "n - i" arbitrary: i acc rule: less_induct)
    case less
    show ?case
    proof (cases "i < n")
      case True
      then have "drop i (take n b) = b ! i # drop (i + 1) (take n b)"
        using assms Cons_nth_drop_Suc [of i "take n b"] by simp
      then show ?thesis
        using True less [of "i + 1" "acc OR b ! i"] assms
        by (subst scan_cbits.simps) (simp add: mem_rules high_u8 bit_or_iff)
    next
      case False
      then show ?thesis
        by (subst scan_cbits.simps) simp
    qed
  qed
  with that show thesis by blast
qed

lemma codes8_ascii:
  assumes "e \<le> length src" "\<forall>x \<in> set (drop p (take e src)). \<not> 0x80 \<le> x"
  shows "codes8 src e p = map ucast (drop p (take e src))"
  using assms(2)
proof (induction "e - p" arbitrary: p rule: less_induct)
  case less
  show ?case
  proof (cases "p < e")
    case True
    then have d: "drop p (take e src) = src ! p # drop (p + 1) (take e src)"
      using assms(1) Cons_nth_drop_Suc [of p "take e src"] by simp
    then have "utf8_decode_len src p (e - p) = Some (ucast (src ! p), p + 1)"
      using True less.prems assms(1) by (intro utf8_decode_len_ascii) (auto simp: mem_rules)
    then show ?thesis
      using True less d by (simp add: codes8_step)
  qed (simp add: codes8_end)
qed

text \<open>A step that consumed one byte at or above \<open>0x80\<close> is an encoding error, any other step is not.\<close>

lemma codes8_encoding:
  assumes "utf8_decode_len src p (e - p) = Some (c, q)" "p < e" "e \<le> length src"
    "load src p = Some b" "0x80 \<le> b"
  shows "well_formed8 src e p \<longleftrightarrow> q \<noteq> p + 1 \<and> well_formed8 src e q"
    and "q = p + 1 \<Longrightarrow> c = 0xFFFD"
proof -
  have err: "q = p + 1 \<Longrightarrow> c = 0xFFFD" and le: "p < q" "q \<le> e"
    and enc: "q \<noteq> p + 1 \<Longrightarrow> take (q - p) (drop p src) = utf8_encode c"
  proof -
    have "(q = p + 1 \<and> c = 0xFFFD) \<or> utf8_decode src p = Some (c, q)"
      using assms(1) unfolding utf8_decode_len_eq [OF assms(4,2)] by (auto split: if_splits)
    then show "q = p + 1 \<Longrightarrow> c = 0xFFFD"
    proof
      assume "utf8_decode src p = Some (c, q)" "q = p + 1"
      then show ?thesis
        using assms(4,5) by (cases rule: utf8_decode_shapes) (simp_all add: word_le_nat_alt)
    qed simp
    show "p < q" "q \<le> e"
      using utf8_decode_len_total [OF assms(2,3)] assms(1) by auto
    show "q \<noteq> p + 1 \<Longrightarrow> take (q - p) (drop p src) = utf8_encode c"
      using \<open>_ \<or> _\<close> utf8_decode_sound(2) by blast
  qed
  show "q = p + 1 \<Longrightarrow> c = 0xFFFD"
    by (rule err)
  have codes: "codes8 src e p = c # codes8 src e q"
    using assms(1,2) by (rule codes8_step)
  show "well_formed8 src e p \<longleftrightarrow> q \<noteq> p + 1 \<and> well_formed8 src e q"
  proof (cases "q = p + 1")
    case True
    have False if w: "well_formed8 src e p"
    proof -
      let ?rest = "concat (map utf8_encode (codes8 src e q))"
      have d: "drop p (take e src) = utf8_encode c @ ?rest"
        using w codes by (simp add: well_formed8_def)
      have "src = take p src @ drop p (take e src) @ drop e src"
        using assms(2,3) by (metis append_assoc append_take_drop_id min.absorb1 less_imp_le take_take)
      then have src: "src = take p src @ utf8_encode c @ ?rest @ drop e src"
        unfolding d by simp
      have "length (utf8_encode c) \<le> e - p"
        using arg_cong [OF d, of length] assms(3) by simp
      then have "utf8_decode_len src p (e - p) = Some (c, p + length (utf8_encode c))"
        using utf8_decode_len_encode [of c "e - p" "take p src" "?rest @ drop e src"] src err [OF True]
          assms(2,3) by simp
      then show False
        using assms(1) True err [OF True] by (simp add: length_utf8_encode utf8_encode_len_def)
    qed
    with True show ?thesis by blast
  next
    case False
    have "drop p (take e src) = take (q - p) (drop p src) @ drop q (take e src)"
      using le append_take_drop_id [of "q - p" "drop p (take e src)"]
      by (simp add: drop_take)
    then show ?thesis
      using False enc codes by (simp add: well_formed8_def)
  qed
qed


text \<open>The scanner counts the units and reports what kinds of characters it met.\<close>

definition scan_kind :: "u8 list \<Rightarrow> nat \<Rightarrow> nat \<Rightarrow> u32" where
  "scan_kind src e p =
     (if well_formed8 src e p then 0 else UTF8_HAS_ERRORS)
     OR (if \<exists>c \<in> set (codes8 src e p). 0xFF < c then UTF8_HAS_16BIT else 0)
     OR (if \<exists>c \<in> set (codes8 src e p). 0xFFFF < c then UTF8_HAS_NON_BMP1 else 0)"

lemma well_formed8_ascii:
  assumes "load src p = Some b" "\<not> 0x80 \<le> b" "p < e" "e \<le> length src"
  shows "well_formed8 src e p \<longleftrightarrow> well_formed8 src e (p + 1)"
proof -
  have "drop p (take e src) = b # drop (p + 1) (take e src)"
    using assms(1,3,4) Cons_nth_drop_Suc [of p "take e src"] by (simp add: load_Some_iff)
  moreover have "codes8 src e p = ucast b # codes8 src e (p + 1)"
    using assms(1-3) by (intro codes8_step utf8_decode_len_ascii)
  moreover have "utf8_encode (ucast b) = [b]"
    using assms(2) utf8_encode_ascii [of "ucast b"]
    by (simp add: word_less_nat_alt word_le_nat_alt word_unat_eq_iff unat_ucast_u8)
  ultimately show ?thesis
    by (simp add: well_formed8_def)
qed

lemma utf8_scan_loop_eq:
  assumes "e \<le> length src"
  shows "utf8_scan_loop src e p len kind =
     Some (kind OR scan_kind src e p, len + length (concat (map units16 (codes8 src e p))))"
proof (induction "e - p" arbitrary: p len kind rule: less_induct)
  case less
  show ?case
  proof (cases "p < e")
    case True
    obtain c q where q: "utf8_decode_len src p (e - p) = Some (c, q)" "p < q" "q \<le> e"
      using True assms by (rule utf8_decode_len_total)
    obtain b where b: "load src p = Some b"
      using True assms by (auto simp: load_def)
    have codes: "codes8 src e p = c # codes8 src e q"
      using q(1) True by (rule codes8_step)
    show ?thesis
    proof (cases "0x80 \<le> b")
      case False
      then have c: "c = ucast b" "q = p + 1"
        using q(1) utf8_decode_len_ascii [OF b False True] by auto
      then have "scan_kind src e p = scan_kind src e (p + 1)"
        using codes False well_formed8_ascii [OF b False True assms]
        by (simp add: scan_kind_def word_less_nat_alt word_le_nat_alt)
      with False show ?thesis
        using True b c codes less [of "p + 1"]
        by (subst utf8_scan_loop.simps) (simp add: units16_ascii)
    next
      case high: True
      then have "scan_kind src e p = (if q = p + 1 then UTF8_HAS_ERRORS else 0) OR
          (if 0xFF < c then UTF8_HAS_16BIT else 0) OR (if 0xFFFF < c then UTF8_HAS_NON_BMP1 else 0)
          OR scan_kind src e q"
        using codes codes8_encoding(1) [OF q(1) True assms b high]
        by (auto simp: scan_kind_def or.assoc or.commute or.left_commute)
      moreover have "0xFFFF < c \<Longrightarrow> 0xFF < c"
        by (simp add: word_less_nat_alt)
      ultimately show ?thesis
        using True b high q codes less [of q]
        by (subst utf8_scan_loop.simps)
          (auto simp: units16_def or.assoc or.commute or.left_commute Let_def)
    qed
  next
    case False
    then show ?thesis
      by (subst utf8_scan_loop.simps) (simp add: codes8_end scan_kind_def well_formed8_def)
  qed
qed

lemma utf8_scan_eq:
  assumes "n \<le> length src"
  shows "utf8_scan src n =
     Some (if \<exists>x \<in> set (take n src). 0x80 \<le> x then UTF8_NON_ASCII OR scan_kind src n 0
           else UTF8_PLAIN_ASCII, length (utf8_units src n))"
proof -
  obtain r where r: "scan_cbits src n 0 0 = Some r" "0x80 \<le> r \<longleftrightarrow> (\<exists>x \<in> set (take n src). 0x80 \<le> x)"
    using assms scan_cbits_high [of n src 0 0] by auto
  show ?thesis
  proof (cases "0x80 \<le> r")
    case True
    then show ?thesis
      using r utf8_scan_loop_eq [OF assms, of 0 0 UTF8_NON_ASCII]
      by (simp add: utf8_scan_def utf8_units_def)
  next
    case False
    then have "codes8 src n 0 = map ucast (take n src)"
      using r codes8_ascii [OF assms, of 0] by auto
    moreover have "\<forall>x \<in> set (take n src). units16 (ucast x) = [ucast x]"
      using False r units16_ascii by blast
    ultimately have "utf8_units src n = map ucast (take n src)"
      by (simp add: utf8_units_def comp_def concat_map_singleton cong: map_cong)
    with False r assms show ?thesis
      by (simp add: utf8_scan_def)
  qed
qed


lemma codes8_encoded:
  assumes "\<forall>c \<in> set cs. unat c < 0x110000"
  shows "codes8 (xs @ concat (map utf8_encode cs) @ ys)
           (length xs + length (concat (map utf8_encode cs))) (length xs) = cs"
  using assms
proof (induction cs arbitrary: xs)
  case Nil
  then show ?case by (simp add: codes8_end)
next
  case (Cons c cs)
  let ?rest = "concat (map utf8_encode cs)"
  have "utf8_decode_len (xs @ utf8_encode c @ (?rest @ ys)) (length xs) (length (utf8_encode c @ ?rest))
      = Some (c, length xs + length (utf8_encode c))"
    using Cons.prems by (intro utf8_decode_len_encode) auto
  moreover have "0 < length (utf8_encode c)"
    by (simp add: utf8_encode_def)
  moreover have "codes8 ((xs @ utf8_encode c) @ ?rest @ ys) (length (xs @ utf8_encode c) + length ?rest)
      (length (xs @ utf8_encode c)) = cs"
    using Cons.prems by (intro Cons.IH) auto
  ultimately show ?case
    by (simp add: codes8_step add.assoc)
qed

text \<open>The 8-bit decoder, on what the scanner reported as 8-bit.\<close>

lemma ucast_u8_u32_u8: "ucast (ucast b :: u32) = b" for b :: u8
  using unat_lt2p [of b] by (simp add: word_unat_eq_iff unat_ucast_u8)

lemma narrow_step:
  assumes "utf8_decode_len src p (e - p) = Some (c, q)" "p < e" "e \<le> length src"
    "load src p = Some b" "0x80 \<le> b" "q \<noteq> p + 1" "\<not> 0xFF < c"
  obtains b1 where "0xC0 \<le> unat b" "load src (p + 1) = Some b1" "q = p + 2"
    "c = push_bit 6 (ucast b) + ucast b1 - (push_bit 6 0xC0 + 0x80)"
proof -
  have "utf8_decode src p = Some (c, q)"
    using assms(1,6) unfolding utf8_decode_len_eq [OF assms(4,2)] by (auto split: if_splits)
  then show thesis
  proof (cases rule: utf8_decode_shapes)
    case (two b0 b1)
    then show thesis
      using assms(4) by (intro that [of b1])
        (simp_all add: word_le_nat_alt push_bit_eq_mult algebra_simps)
  next
    case (three b0 b1 b2)
    have "unat c = (unat b0 - 0xE0) * 4096 + (unat b1 - 0x80) * 64 + (unat b2 - 0x80)"
      using three unat_dec3 [of b0 b1 b2] by (simp split: if_splits)
    then show thesis
      using three assms(7) by (cases "unat b0 = 0xE0") (simp_all add: word_less_nat_alt)
  next
    case (four b0 b1 b2 b3)
    have "unat c = (unat b0 - 0xF0) * 262144 + (unat b1 - 0x80) * 4096 + (unat b2 - 0x80) * 64 + (unat b3 - 0x80)"
      using four unat_dec4 [of b0 b1 b2 b3] by (simp split: if_splits)
    then show thesis
      using four assms(7) by (cases "unat b0 = 0xF0") (simp_all add: word_less_nat_alt)
  qed (use assms in \<open>simp_all add: word_le_nat_alt\<close>)
qed

lemma utf8_decode_buf8_loop_eq:
  assumes "e \<le> length src" "m \<le> length dest" "well_formed8 src e p" "\<forall>c \<in> set (codes8 src e p). \<not> 0xFF < c"
  shows "utf8_decode_buf8_loop dest m src e p i =
     (let us = map ucast (codes8 src e p) in Some (store_all dest m i us, i + length us))"
  using assms(2-4)
proof (induction "e - p" arbitrary: p i dest rule: less_induct)
  case less
  show ?case
  proof (cases "p < e")
    case True
    obtain c q where q: "utf8_decode_len src p (e - p) = Some (c, q)" "p < q" "q \<le> e"
      using True assms(1) by (rule utf8_decode_len_total)
    obtain b where b: "load src p = Some b"
      using True assms(1) by (auto simp: load_def)
    have codes: "codes8 src e p = c # codes8 src e q"
      using q(1) True by (rule codes8_step)
    have "well_formed8 src e q \<and> utf8_decode_buf8_loop dest m src e p i =
        utf8_decode_buf8_loop (store_all dest m i [ucast c]) m src e q (i + 1)"
    proof (cases "0x80 \<le> b")
      case False
      then have "c = ucast b" "q = p + 1" "\<not> 0xC0 \<le> (ucast b :: u32)"
        using q utf8_decode_len_ascii [OF b _ True] by (auto simp: word_le_nat_alt)
      moreover have "well_formed8 src e (p + 1)"
        using less.prems well_formed8_ascii [OF b False True assms(1)] by simp
      ultimately show ?thesis
        using True b less.prems
        by (subst utf8_decode_buf8_loop.simps) (simp add: store_below_eq ucast_u8_u32_u8)
    next
      case high: True
      then have w: "q \<noteq> p + 1" "well_formed8 src e q"
        using less.prems codes8_encoding(1) [OF q(1) True assms(1) b high] by auto
      obtain b1 where "0xC0 \<le> unat b" "load src (p + 1) = Some b1" "q = p + 2"
        "c = push_bit 6 (ucast b) + ucast b1 - (push_bit 6 0xC0 + 0x80)"
        using less.prems codes by (auto intro: narrow_step [OF q(1) True assms(1) b high w(1)])
      then show ?thesis
        using True b less.prems w
        by (subst utf8_decode_buf8_loop.simps) (simp add: store_below_eq word_le_nat_alt)
    qed
    then show ?thesis
      using True q less.hyps [of q "store_all dest m i [ucast c]" "i + 1"] less.prems codes
      by (auto simp: Let_def)
  next
    case False
    then show ?thesis
      by (subst utf8_decode_buf8_loop.simps) (simp add: codes8_end)
  qed
qed


text \<open>The 8-bit encoder does what the 16-bit encoder does on the same code points.\<close>

lemma encode_buf8_count_eq:
  assumes "n \<le> length src"
  shows "encode_buf8_count src n i j =
     Some (j + length (concat (map (utf8_encode \<circ> ucast) (drop i (take n src)))))"
proof (induction "n - i" arbitrary: i j rule: less_induct)
  case less
  show ?case
  proof (cases "i < n")
    case True
    then have d: "drop i (take n src) = src ! i # drop (i + 1) (take n src)"
      using assms Cons_nth_drop_Suc [of i "take n src"] by simp
    show ?thesis
      using True d assms less [of "i + 1"] unat_lt2p [of "src ! i"]
      by (subst encode_buf8_count.simps)
        (simp add: mem_rules length_utf8_encode utf8_encode_len_def word_less_nat_alt word_le_nat_alt)
  qed (subst encode_buf8_count.simps, simp)
qed

lemma memcpy_two:
  "do { d \<leftarrow> store dest j a; store d (j + 1) b } = (if j + 2 \<le> length dest then memcpy dest j [a, b] 0 2 else None)"
  by (auto simp: store_def memcpy_def upd_conv_take_nth_drop take_list_update_Suc
      split: if_splits)


lemma utf8_encode_buf8_loop_eq:
  assumes "n \<le> length src" "m \<le> length dest" "j < m \<or> m = 0 \<and> j = 0"
  shows "utf8_encode_buf8_loop dest m src n i j =
     (let bss = map (utf8_encode \<circ> ucast) (drop i (take n src)) in
      Some (put_fit dest m j bss, j + length (concat bss)))"
  using assms(2,3)
proof (induction "n - i" arbitrary: i j dest rule: less_induct)
  case less
  show ?case
  proof (cases "i < n")
    case True
    define c :: u32 where "c = ucast (src ! i)"
    let ?b = "utf8_encode c"
    have c: "load src i = Some (src ! i)" "c < 0x800"
      using True assms(1) unat_lt2p [of "src ! i"] by (auto simp: mem_rules c_def word_less_nat_alt)
    have d: "drop i (take n src) = src ! i # drop (i + 1) (take n src)"
      using True assms(1) Cons_nth_drop_Suc [of i "take n src"] by simp
    have step: "utf8_encode_buf8_loop dest m src n i j =
      (if m \<le> j + length ?b
       then do { dest \<leftarrow> store_below dest m j 0; k \<leftarrow> encode_buf8_count src n i j; Some (dest, k) }
       else do { dest \<leftarrow> memcpy dest j ?b 0 (length ?b);
                 utf8_encode_buf8_loop dest m src n (i + 1) (j + length ?b) })"
    proof (cases "c < 0x80")
      case True
      with \<open>i < n\<close> c show ?thesis
        by (subst utf8_encode_buf8_loop.simps)
          (simp add: c_def utf8_encode_ascii store_as_memcpy flip: c_def)
    next
      case False
      then have b: "?b = [ucast (drop_bit 6 c OR 0xC0), ucast ((c AND 0x3F) OR 0x80)]"
        using c(2) by (simp add: utf8_encode_def)
      show ?thesis
      proof (cases "m \<le> j + 2")
        case True
        then show ?thesis
          using False \<open>i < n\<close> c b by (subst utf8_encode_buf8_loop.simps) (simp add: flip: c_def)
      next
        case room: False
        then have "do { d \<leftarrow> store dest j (?b ! 0); store d (j + 1) (?b ! 1) } = memcpy dest j ?b 0 2"
          using b less.prems(1) memcpy_two [of dest j "?b ! 0" "?b ! 1"] by simp
        then show ?thesis
          using room False \<open>i < n\<close> c b
          by (subst utf8_encode_buf8_loop.simps)
            (simp add: numeral_2_eq_2 flip: c_def Option.bind_assoc)
      qed
    qed
    show ?thesis
    proof (cases "m \<le> j + length ?b")
      case over: True
      then show ?thesis
        using less.prems step d
        by (auto simp: store_below_def mem_rules encode_buf8_count_eq [OF assms(1)] put_fit_def
            upd_conv_take_nth_drop c_def Let_def)
    next
      case False
      then obtain dest' where d': "memcpy dest j ?b 0 (length ?b) = Some dest'"
        using less.prems(1) by (simp add: memcpy_def)
      moreover have "length dest' = length dest"
        using d' by (rule memcpy_length)
      ultimately show ?thesis
        using True False less.prems step d less.hyps [of "i + 1" dest' "j + length ?b"]
          put_fit_step [OF less.prems(1) _ d']
        by (auto simp: Let_def c_def)
    qed
  next
    case False
    then show ?thesis
      using less.prems
      by (subst utf8_encode_buf8_loop.simps)
        (auto simp: store_below_def mem_rules put_fit_end, simp add: put_fit_def)
  qed
qed

section \<open>Properties\<close>

text \<open>
  C29: \<^verbatim>\<open>utf8_encode_buf16\<close> stays inside both arrays and returns the length of the whole UTF-8
  encoding whatever the room: the destination holds the encodings of the longest run of
  characters that fits before a terminator, and nothing else of it changes.
\<close>

theorem utf8_encode_buf16_result:
  assumes "n \<le> length src" and "m \<le> length dest"
  shows "utf8_encode_buf16 dest m src n =
     Some (put_fit dest m 0 (map utf8_encode (codes16 (take n src))), length (bytes16 (take n src)))"
  using utf8_encode_buf16_loop_eq [OF assms, of 0 0] by (auto simp: utf8_encode_buf16_def)

theorem utf8_encode_buf16_result_witness:
  "utf8_encode_buf16 [1, 1, 1, 1, 1, 1, 1] 6 [0x61, 0xD83D, 0xDE00, 0xD800] 4
     = Some ([0x61, 0xF0, 0x9F, 0x98, 0x80, 0, 1], 8)"
  using utf8_encode_buf16_result [of 4 "[0x61, 0xD83D, 0xDE00, 0xD800]" 6 "[1, 1, 1, 1, 1, 1, 1]"]
  by code_simp

text \<open>
  C22: Encoding any sequence of 16-bit units, lone surrogates included, into a destination with
  room for it and decoding the stored bytes gives the sequence back.
\<close>

theorem utf16_roundtrip:
  assumes "length (bytes16 us) < m" and "m \<le> length dest" and "length us \<le> length dest2"
    and "utf8_encode_buf16 dest m us (length us) = Some (dest1, n)"
  shows "utf8_decode_buf16 dest2 (length us) dest1 n = Some (us @ drop (length us) dest2, length us)"
proof -
  have fit_all: "length (concat bss) < k \<Longrightarrow> fit k bss = concat bss" for k bss
    by (induction bss arbitrary: k) auto
  have "Some (dest1, n) = Some (put_fit dest m 0 (map utf8_encode (codes16 us)), length (bytes16 us))"
    using utf8_encode_buf16_loop_eq [of "length us" us m dest 0 0] assms
    by (simp add: utf8_encode_buf16_def)
  then have d: "dest1 = bytes16 us @ 0 # drop (length (bytes16 us) + 1) dest" "n = length (bytes16 us)"
    using assms(1) by (auto simp: put_fit_def bytes16_def fit_all Let_def)
  have "codes8 dest1 n 0 = codes16 us"
    using codes8_encoded [of "codes16 us" "[]"] unat_codes16 by (simp add: d bytes16_def)
  then have "utf8_decode_buf16 dest2 (length us) dest1 n = Some (store_all dest2 (length us) 0 us, length us)"
    using utf8_decode_buf16_loop_eq [of n dest1 "length us" dest2 0 0] assms(3)
    by (simp add: utf8_decode_buf16_def d concat_units16_codes16 Let_def)
  then show ?thesis
    using assms(3) by (simp add: store_all_eq)
qed

theorem utf16_roundtrip_witness:
  "utf8_decode_buf16 [0, 0, 7] 2 [0xF0, 0x9F, 0x98, 0x80, 0, 9] 4 = Some ([0xD83D, 0xDE00, 7], 2)"
  using utf16_roundtrip [of "[0xD83D, 0xDE00]" 5 "[9, 9, 9, 9, 9, 9]" "[0, 0, 7]"
      "[0xF0, 0x9F, 0x98, 0x80, 0, 9]" 4]
  by code_simp


text \<open>
  C27: \<^verbatim>\<open>utf8_scan\<close> reads only the buffer and returns the exact number of 16-bit units of the
  decoded text; its mask says whether a byte is non-ASCII, whether the bytes are not the
  encoding of their code points, and whether a code point needs 16 bits or a surrogate pair.
\<close>

theorem utf8_scan_result:
  assumes "n \<le> length src"
  shows "utf8_scan src n =
     Some (if \<exists>x \<in> set (take n src). 0x80 \<le> x then UTF8_NON_ASCII OR scan_kind src n 0
           else UTF8_PLAIN_ASCII, length (utf8_units src n))"
  using assms by (rule utf8_scan_eq)

theorem utf8_scan_result_witness:
  "utf8_scan [0x61, 0xE2, 0x82, 0xAC, 0xFF, 0xF0, 0x9F, 0x98, 0x80] 9 = Some (15, 5)"
  using utf8_scan_result [of 9 "[0x61, 0xE2, 0x82, 0xAC, 0xFF, 0xF0, 0x9F, 0x98, 0x80]"]
  by code_simp

text \<open>
  C26: \<^verbatim>\<open>utf8_decode_buf16\<close> stays inside both arrays for every input, stores as many of the 16-bit
  units of the text as fit, leaves the rest of the destination alone and returns the number of
  units of the whole text.
\<close>

theorem utf8_decode_buf16_result:
  assumes "n \<le> length src" and "m \<le> length dest"
  shows "utf8_decode_buf16 dest m src n =
     Some (take m (utf8_units src n) @ drop (length (take m (utf8_units src n))) dest,
           length (utf8_units src n))"
  using assms utf8_decode_buf16_loop_eq [OF assms, of 0 0]
  by (simp add: utf8_decode_buf16_def utf8_units_def store_all_eq Let_def)

theorem utf8_decode_buf16_result_witness:
  "utf8_decode_buf16 [0, 0, 0, 7] 3 [0x61, 0xFF, 0xF0, 0x9F, 0x98, 0x80] 6
     = Some ([0x61, 0xFFFD, 0xD83D, 7], 4)"
  using utf8_decode_buf16_result [of 6 "[0x61, 0xFF, 0xF0, 0x9F, 0x98, 0x80]" 3 "[0, 0, 0, 7]"]
  by code_simp

text \<open>
  C28: When \<^verbatim>\<open>utf8_scan\<close> answers \<^verbatim>\<open>UTF8_NON_ASCII\<close> alone with length \<open>len\<close>, the unchecked decoder
  \<^verbatim>\<open>utf8_decode_buf8\<close> stays inside the arrays and stores, before its terminator, bytes that are the
  16-bit units of the text narrowed without loss.
\<close>

theorem utf8_decode_buf8_after_scan:
  assumes "utf8_scan src n = Some (UTF8_NON_ASCII, len)" and "n \<le> length src" and "len < length dest"
  shows "\<exists>bs. utf8_decode_buf8 dest (len + 1) src n = Some (bs @ 0 # drop (len + 1) dest, len)
     \<and> map ucast bs = utf8_units src n"
proof -
  let ?cs = "codes8 src n 0" and ?bs = "map ucast (codes8 src n 0) :: u8 list"
  have "UTF8_NON_ASCII \<noteq> UTF8_PLAIN_ASCII"
    by (simp add: UTF8_NON_ASCII_def UTF8_PLAIN_ASCII_def)
  then have "UTF8_NON_ASCII OR scan_kind src n 0 = UTF8_NON_ASCII" and len: "len = length (utf8_units src n)"
    using assms(1) unfolding utf8_scan_eq [OF assms(2)] by (auto split: if_splits)
  then have w: "well_formed8 src n 0" "\<forall>c \<in> set ?cs. \<not> 0xFF < c"
    by (auto simp: scan_kind_def UTF8_NON_ASCII_def UTF8_HAS_ERRORS_def UTF8_HAS_16BIT_def
        UTF8_HAS_NON_BMP1_def split: if_splits)
  have "units16 c = [ucast c]" "ucast (ucast c :: u8) = (ucast c :: u16)" if "c \<in> set ?cs" for c
  proof -
    have "unat c \<le> 255"
      using w(2) that by (auto simp: word_less_nat_alt)
    then show "units16 c = [ucast c]" "ucast (ucast c :: u8) = (ucast c :: u16)"
      by (auto simp: units16_def word_less_nat_alt word_unat_eq_iff unat_ucast_u8_u16 unat_ucast_u8
          unat_ucast_u32_u16)
  qed
  then have us: "utf8_units src n = map ucast ?bs"
    by (simp add: utf8_units_def comp_def concat_map_singleton cong: map_cong)
  have "utf8_decode_buf8_loop dest (len + 1) src n 0 0 = Some (?bs @ drop len dest, len)"
    using utf8_decode_buf8_loop_eq [OF assms(2) _ w, of "len + 1" dest 0] assms(3) us len
    by (simp add: store_all_eq Let_def)
  then have "utf8_decode_buf8 dest (len + 1) src n = Some (?bs @ 0 # drop (len + 1) dest, len)"
    using assms(3) us len
    by (simp add: utf8_decode_buf8_def mem_rules list_update_append drop_Suc upd_conv_take_nth_drop
        flip: drop_tl)
  with us show ?thesis by auto
qed

theorem utf8_decode_buf8_after_scan_witness:
  "\<exists>bs. utf8_decode_buf8 [1, 1, 1, 1] 3 [0x61, 0xC3, 0xA9] 3 = Some (bs @ 0 # [1], 2)
     \<and> map ucast bs = [0x61, 0xE9 :: u16]"
proof -
  have "utf8_scan [0x61, 0xC3, 0xA9] 3 = Some (UTF8_NON_ASCII, 2)"
    "utf8_units [0x61, 0xC3, 0xA9] 3 = [0x61, 0xE9]"
    by code_simp+
  then show ?thesis
    using utf8_decode_buf8_after_scan [of "[0x61, 0xC3, 0xA9]" 3 2 "[1, 1, 1, 1]"] by simp
qed

text \<open>
  \<^verbatim>\<open>utf8_encode_buf8\<close> encodes each byte as the code point of the same number, with the same
  treatment of a short destination as the 16-bit encoder: whole characters only, a terminator
  behind them, and the length of the whole encoding as result.
\<close>

theorem utf8_encode_buf8_result:
  assumes "n \<le> length src" and "m \<le> length dest"
  shows "utf8_encode_buf8 dest m src n =
     (let bss = map (utf8_encode \<circ> ucast) (take n src) in
      Some (put_fit dest m 0 bss, length (concat bss)))"
  using utf8_encode_buf8_loop_eq [OF assms, of 0 0] by (auto simp: utf8_encode_buf8_def)

theorem utf8_encode_buf8_result_witness:
  "utf8_encode_buf8 [1, 1, 1, 1] 3 [0x61, 0xE9] 2 = Some ([0x61, 0, 1, 1], 3)"
  using utf8_encode_buf8_result [of 2 "[0x61, 0xE9]" 3 "[1, 1, 1, 1]"]
  by code_simp

end
