(* ===== verification/Ntoa.thy ===== *)
theory Ntoa
  imports Endian
begin

text \<open>
  The conversions of integers to text of \<^verbatim>\<open>cutils.c\<close>: decimal by groups of seven digits, any
  other radix by counting the digits first and storing them backwards. Destinations are byte
  buffers with a position, every store is checked, and a pointer that would leave the buffer at
  its lower end is a fault.
\<close>

section \<open>Definitions\<close>

text \<open>\<open>"0123456789abcdefghijklmnopqrstuvwxyz"\<close>\<close>

definition digits36 :: "u8 list" where
  "digits36 = map of_nat ([48..<58] @ [97..<123])"

definition gen_digit :: "u64 \<Rightarrow> u64 \<Rightarrow> u64" where
  "gen_digit buf c = (if is_be \<noteq> 0 then drop_bit 8 buf OR push_bit ((8 - 1) * 8) c else push_bit 8 buf OR c)"

function u7_loop :: "u32 \<Rightarrow> nat \<Rightarrow> u64 \<Rightarrow> nat \<times> u64" where
  "u7_loop n len buf =
     (if 10 \<le> n then u7_loop (n div 10) (len + 1) (gen_digit buf (ucast (0x30 + n mod 10)))
      else (len, gen_digit buf (ucast (0x30 + n))))"
  by pat_completeness auto
termination
  by (relation "measure (\<lambda>(n, len, buf). unat n)") (auto simp: unat_div word_le_nat_alt)

text \<open>The result is the destination with the length of the text; \<open>d\<close> is the position of \<open>dest\<close>.\<close>

definition u7toa_shift :: "u8 list \<Rightarrow> nat \<Rightarrow> u32 \<Rightarrow> (u8 list \<times> nat) option" where
  "u7toa_shift dest d n =
     (let (len, buf) = u7_loop n 1 0 in
      do { dest \<leftarrow> memcpy dest d (word_bytes 8 buf) 0 8; Some (dest, len) })"

primrec u07_loop :: "u8 list \<Rightarrow> nat \<Rightarrow> nat \<Rightarrow> u32 \<Rightarrow> (u8 list \<times> u32) option" where
  "u07_loop dest d 0 n = Some (dest, n)"
| "u07_loop dest d (Suc i) n =
     do { dest \<leftarrow> store dest (d + Suc i) (ucast (0x30 + n mod 10));
          u07_loop dest d i (n div 10) }"

definition u07toa_shift :: "u8 list \<Rightarrow> nat \<Rightarrow> u32 \<Rightarrow> nat \<Rightarrow> (u8 list \<times> nat) option" where
  "u07toa_shift dest d n len =
     do { dest \<leftarrow> store dest (d + len + 7) 0;
          (dest, n) \<leftarrow> u07_loop dest (d + len) 6 n;
          dest \<leftarrow> store dest (d + len) (ucast (0x30 + n));
          Some (dest, len + 7) }"

definition u32toa :: "u8 list \<Rightarrow> nat \<Rightarrow> u32 \<Rightarrow> (u8 list \<times> nat) option" where
  "u32toa buf d n =
     (if n < 10 then do { buf \<leftarrow> store buf d (ucast (0x30 + n)); buf \<leftarrow> store buf (d + 1) 0; Some (buf, 1) }
      else if 10000000 \<le> n then
        do { (buf, len) \<leftarrow> u7toa_shift buf d (n div 10000000);
             u07toa_shift buf d (n mod 10000000) len }
      else u7toa_shift buf d n)"

definition u64toa :: "u8 list \<Rightarrow> nat \<Rightarrow> u64 \<Rightarrow> (u8 list \<times> nat) option" where
  "u64toa buf d n =
     (if n < 0x100000000 then u32toa buf d (ucast n)
      else if 10000000 \<le> n then
        let n1 = n div 10000000; n = n mod 10000000 in
        do { (buf, len) \<leftarrow>
               (if 10000000 \<le> n1 then
                  do { (buf, len) \<leftarrow> u7toa_shift buf d (ucast (n1 div 10000000));
                       u07toa_shift buf d (ucast (n1 mod 10000000)) len }
                else u7toa_shift buf d (ucast n1));
             u07toa_shift buf d (ucast n) len }
      else u7toa_shift buf d (ucast n))"

text \<open>The signed variants; \<open>n\<close> is the bit pattern of the \<open>int32_t\<close> or \<open>int64_t\<close>.\<close>

definition i32toa :: "u8 list \<Rightarrow> nat \<Rightarrow> u32 \<Rightarrow> (u8 list \<times> nat) option" where
  "i32toa buf d n =
     (if 0 \<le> sint n then u32toa buf d n
      else do { buf \<leftarrow> store buf d 0x2D; (buf, len) \<leftarrow> u32toa buf (d + 1) (- n); Some (buf, 1 + len) })"

definition i64toa :: "u8 list \<Rightarrow> nat \<Rightarrow> u64 \<Rightarrow> (u8 list \<times> nat) option" where
  "i64toa buf d n =
     (if 0 \<le> sint n then u64toa buf d n
      else do { buf \<leftarrow> store buf d 0x2D; (buf, len) \<leftarrow> u64toa buf (d + 1) (- n); Some (buf, 1 + len) })"

subsection \<open>Other radices\<close>

definition radix_shift :: "nat list" where
  "radix_shift = (replicate 64 0)[2 := 1, 4 := 2, 8 := 3, 16 := 4, 32 := 5]"

text \<open>The compiler builtin on a nonzero argument: the number of leading zero bits.\<close>

definition clz :: "'a::len word \<Rightarrow> nat" where
  "clz n = length (takeWhile (\<lambda>i. \<not> bit n i) (rev [0..<LENGTH('a)]))"

definition clz32 :: "u32 \<Rightarrow> nat" where "clz32 = clz"
definition clz64 :: "u64 \<Rightarrow> nat" where "clz64 = clz"

definition digit :: "'a::len word \<Rightarrow> u8 option" where
  "digit n = load digits36 (unat n)"

text \<open>\<open>while (n >= base) { ...; *end-- = digits36[quo]; } *end = digits36[n]\<close>\<close>

partial_function (option) put_shift :: "u8 list \<Rightarrow> nat \<Rightarrow> 'a::len word \<Rightarrow> 'a word \<Rightarrow> 'a word \<Rightarrow> nat \<Rightarrow> u8 list option" where
  "put_shift buf e n base msk shift =
     (if base \<le> n then
        do { c \<leftarrow> digit (n AND msk); buf \<leftarrow> store buf e c;
             if e = 0 then None else put_shift buf (e - 1) (drop_bit shift n) base msk shift }
      else do { c \<leftarrow> digit n; store buf e c })"

partial_function (option) put_div :: "u8 list \<Rightarrow> nat \<Rightarrow> 'a::len word \<Rightarrow> 'a word \<Rightarrow> u8 list option" where
  "put_div buf e n base =
     (if base \<le> n then
        do { c \<leftarrow> digit (n mod base); buf \<leftarrow> store buf e c;
             if e = 0 then None else put_div buf (e - 1) (n div base) base }
      else do { c \<leftarrow> digit n; store buf e c })"

partial_function (option) radix_len :: "'a::len word \<Rightarrow> 'a word \<Rightarrow> 'a word \<Rightarrow> nat \<Rightarrow> nat option" where
  "radix_len n nbase base len =
     (if nbase \<le> n then radix_len n (nbase * base) base (len + 1) else Some len)"

definition u32toa_radix :: "u8 list \<Rightarrow> nat \<Rightarrow> u32 \<Rightarrow> u32 \<Rightarrow> (u8 list \<times> nat) option" where
  "u32toa_radix buf d n base =
     (if base = 10 then u32toa buf d n
      else if n < base then do { c \<leftarrow> digit n; buf \<leftarrow> store buf d c; buf \<leftarrow> store buf (d + 1) 0; Some (buf, 1) }
      else
        do { shift \<leftarrow> load radix_shift (unat (base AND 63));
             if shift \<noteq> 0 then
               let msk = push_bit shift 1 - 1 :: u32;
                   len = (32 - clz32 n + shift - 1) div shift in
               do { buf \<leftarrow> store buf (d + len) 0;
                    c \<leftarrow> digit (n AND msk);
                    buf \<leftarrow> store buf (d + len - 1) c;
                    if d + len < 2 then None
                    else do { buf \<leftarrow> put_shift buf (d + len - 2) (drop_bit shift n) base msk shift;
                              Some (buf, len) } }
             else if base = 0 then None
             else
               do { len \<leftarrow> radix_len (n div base) base base 2;
                    buf \<leftarrow> store buf (d + len) 0;
                    c \<leftarrow> digit (n mod base);
                    buf \<leftarrow> store buf (d + len - 1) c;
                    if d + len < 2 then None
                    else do { buf \<leftarrow> put_div buf (d + len - 2) (n div base) base;
                              Some (buf, len) } } })"

definition u64toa_radix :: "u8 list \<Rightarrow> nat \<Rightarrow> u64 \<Rightarrow> u32 \<Rightarrow> (u8 list \<times> nat) option" where
  "u64toa_radix buf d n base0 =
     (let base = ucast base0 in
      if base0 = 10 then u64toa buf d n
      else
        do { shift \<leftarrow> load radix_shift (unat (base0 AND 63));
             if shift \<noteq> 0 then
               if n < base then do { c \<leftarrow> digit n; buf \<leftarrow> store buf d c; buf \<leftarrow> store buf (d + 1) 0; Some (buf, 1) }
               else
                 let msk = push_bit shift 1 - 1 :: u64;
                     len = (64 - clz64 n + shift - 1) div shift in
                 do { buf \<leftarrow> store buf (d + len) 0;
                      c \<leftarrow> digit (n AND msk);
                      buf \<leftarrow> store buf (d + len - 1) c;
                      if d + len < 2 then None
                      else do { buf \<leftarrow> put_shift buf (d + len - 2) (drop_bit shift n) base msk shift;
                                Some (buf, len) } }
             else if n < 0x100000000 then u32toa_radix buf d (ucast n) base0
             else if base0 = 0 then None
             else
               do { len \<leftarrow> radix_len (n div base) base base 2;
                    buf \<leftarrow> store buf (d + len) 0;
                    c \<leftarrow> digit (n mod base);
                    buf \<leftarrow> store buf (d + len - 1) c;
                    if d + len < 2 then None
                    else do { buf \<leftarrow> put_div buf (d + len - 2) (n div base) base;
                              Some (buf, len) } } })"

definition i32toa_radix :: "u8 list \<Rightarrow> nat \<Rightarrow> u32 \<Rightarrow> u32 \<Rightarrow> (u8 list \<times> nat) option" where
  "i32toa_radix buf d n base =
     (if 0 \<le> sint n then u32toa_radix buf d n base
      else do { buf \<leftarrow> store buf d 0x2D; (buf, len) \<leftarrow> u32toa_radix buf (d + 1) (- n) base; Some (buf, 1 + len) })"

definition i64toa_radix :: "u8 list \<Rightarrow> nat \<Rightarrow> u64 \<Rightarrow> u32 \<Rightarrow> (u8 list \<times> nat) option" where
  "i64toa_radix buf d n base =
     (if 0 \<le> sint n then u64toa_radix buf d n base
      else do { buf \<leftarrow> store buf d 0x2D; (buf, len) \<leftarrow> u64toa_radix buf (d + 1) (- n) base; Some (buf, 1 + len) })"

declare put_shift.simps [code] put_div.simps [code] radix_len.simps [code]
declare u7_loop.simps [simp del]

section \<open>Numerals\<close>

text \<open>The digits of a number, the most significant first, and its text.\<close>

fun num_digits :: "nat \<Rightarrow> nat \<Rightarrow> nat list" where
  "num_digits b n = (if b < 2 \<or> n < b then [n] else num_digits b (n div b) @ [n mod b])"

declare num_digits.simps [simp del]

definition numeral_text :: "nat \<Rightarrow> nat \<Rightarrow> u8 list" where
  "numeral_text b n = map (\<lambda>d. digits36 ! d) (num_digits b n)"

lemma num_digits_small: "n < b \<Longrightarrow> num_digits b n = [n]"
  by (subst num_digits.simps) simp

lemma num_digits_step: "2 \<le> b \<Longrightarrow> b \<le> n \<Longrightarrow> num_digits b n = num_digits b (n div b) @ [n mod b]"
  by (subst num_digits.simps) simp

lemma numeral_text_small: "n < b \<Longrightarrow> numeral_text b n = [digits36 ! n]"
  by (simp add: numeral_text_def num_digits_small)

lemma numeral_text_step:
  "2 \<le> b \<Longrightarrow> b \<le> n \<Longrightarrow> numeral_text b n = numeral_text b (n div b) @ [digits36 ! (n mod b)]"
  by (simp add: numeral_text_def num_digits_step)

lemma length_numeral_text_pos [simp]: "0 < length (numeral_text b n)"
  unfolding numeral_text_def by (subst num_digits.simps) simp

lemma digits36_10:
  assumes "k < 10"
  shows "digits36 ! k = of_nat (48 + k)"
proof -
  have "\<forall>k \<in> set [0..<10]. digits36 ! k = of_nat (48 + k)"
    by code_simp
  with assms show ?thesis by simp
qed

lemma length_digits36: "length digits36 = 36"
  by (simp add: digits36_def)

text \<open>The value that a list of digits denotes: the digits are those of the number.\<close>

lemma num_digits_value: "2 \<le> b \<Longrightarrow> foldl (\<lambda>v d. v * b + d) 0 (num_digits b n) = n"
proof (induction b n rule: num_digits.induct)
  case (1 b n)
  then show ?case
    by (cases "n < b") (simp_all add: num_digits_small num_digits_step)
qed

lemma num_digits_length_bounds:
  assumes "2 \<le> b" "0 < n"
  shows "b ^ (length (num_digits b n) - 1) \<le> n \<and> n < b ^ length (num_digits b n)"
  using assms
proof (induction b n rule: num_digits.induct)
  case (1 b n)
  show ?case
  proof (cases "n < b")
    case True
    with 1 show ?thesis by (simp add: num_digits_small)
  next
    case False
    define l where "l = length (num_digits b (n div b))"
    have l: "0 < l"
      unfolding l_def by (subst num_digits.simps) simp
    have ih: "b ^ (l - 1) \<le> n div b" "n div b < b ^ l"
      using 1 False by (auto simp: l_def div_greater_zero_iff)
    have "b ^ l \<le> n"
      using ih(1) l 1(2) by (cases l) (auto simp: less_eq_div_iff_mult_less_eq mult.commute)
    moreover have "n < b ^ l * b"
      using ih(2) 1(2) by (simp add: div_less_iff_less_mult)
    ultimately show ?thesis
      using False 1(2) by (simp add: num_digits_step l_def mult.commute)
  qed
qed

lemma num_digits_length_unique:
  assumes "2 \<le> b" "b ^ l \<le> n" "n < b ^ Suc l"
  shows "length (num_digits b n) = Suc l"
proof -
  have "0 < n"
    using assms by (metis gr0I le_zero_eq power_not_zero not_numeral_le_zero)
  then have k: "b ^ (length (num_digits b n) - 1) \<le> n" "n < b ^ length (num_digits b n)"
    using num_digits_length_bounds assms(1) by auto
  have b: "1 < b"
    using assms(1) by simp
  have "length (num_digits b n) - 1 < Suc l"
    by (rule power_less_imp_less_exp [OF b le_less_trans [OF k(1) assms(3)]])
  moreover have "l < length (num_digits b n)"
    by (rule power_less_imp_less_exp [OF b le_less_trans [OF assms(2) k(2)]])
  ultimately show ?thesis by linarith
qed

section \<open>Decimal\<close>

text \<open>
  \<open>wrote room d s buf buf'\<close>: the text \<open>s\<close> with its terminator was written at \<open>d\<close>, within \<open>room\<close>
  bytes.
\<close>

definition wrote :: "nat \<Rightarrow> nat \<Rightarrow> u8 list \<Rightarrow> u8 list \<Rightarrow> u8 list \<Rightarrow> bool" where
  "wrote room d s buf buf' \<longleftrightarrow>
     (\<exists>junk. buf' = take d buf @ s @ 0 # junk @ drop (d + room) buf \<and> length s + 1 + length junk = room)
     \<and> d + room \<le> length buf"

lemma gen_digit_bytes:
  assumes "unat c < 256"
  shows "word_bytes 8 (gen_digit buf c) = ucast c # take 7 (word_bytes 8 buf)"
proof -
  have hi: "\<not> bit c k" if "8 \<le> k" for k
  proof -
    have "bit (unat c) k \<longleftrightarrow> bit c k"
      by (simp add: bit_unsigned_iff)
    moreover have "unat c < 2 ^ k"
      using assms that power_increasing [of 8 k "2 :: nat"] by simp
    ultimately show ?thesis
      by (simp add: bit_iff_odd)
  qed
  show ?thesis
  proof (rule nth_equalityI)
    fix i
    assume "i < length (word_bytes 8 (gen_digit buf c))"
    then have i: "i < 8" by simp
    show "word_bytes 8 (gen_digit buf c) ! i = (ucast c # take 7 (word_bytes 8 buf)) ! i"
    proof (cases i)
      case 0
      then show ?thesis
        by (auto simp: nth_word_bytes gen_digit_def is_be_False intro!: bit_word_eqI)
          (auto simp: bit_simps)
    next
      case (Suc j)
      then show ?thesis
        using i hi
        by (auto simp: nth_word_bytes gen_digit_def is_be_False intro!: bit_word_eqI)
          (auto simp: bit_simps)
    qed
  qed simp
qed

lemma take_Cons_take: "k \<le> Suc m \<Longrightarrow> take k (x # take m xs) = take k (x # xs)"
  by (cases k) (simp_all add: min_def)

lemma u7_loop_spec:
  "u7_loop n (Suc len) buf = (len', buf') \<Longrightarrow>
     len' = len + length (numeral_text 10 (unat n))
     \<and> word_bytes 8 buf' = take 8 (numeral_text 10 (unat n) @ word_bytes 8 buf)"
proof (induction "unat n" arbitrary: n len buf rule: less_induct)
  case less
  have u: "unat (ucast (0x30 + m) :: u64) = 48 + unat m" if "unat m < 10" for m :: u32
  proof -
    have "unat (0x30 + m) = 48 + unat m"
      using that by (subst unat_add_no_wrap) simp_all
    with that show ?thesis
      by (simp add: unsigned_ucast_eq take_bit_eq_mod)
  qed
  have d: "(ucast (ucast (0x30 + m) :: u64) :: u8) = digits36 ! unat m" if "unat m < 10" for m :: u32
    using that u [OF that] by (simp add: digits36_10 word_unat_eq_iff unat_ucast_u8 unat_of_nat del: of_nat_add)
  show ?case
  proof (cases "10 \<le> n")
    case True
    let ?m = "n mod 10" and ?q = "n div 10"
    have m: "unat ?m < 10" "unat ?m = unat n mod 10" "unat ?q = unat n div 10"
      by (simp_all add: unat_mod unat_div)
    have n: "10 \<le> unat n"
      using True by (simp add: word_le_nat_alt)
    have "u7_loop ?q (Suc (Suc len)) (gen_digit buf (ucast (0x30 + ?m))) = (len', buf')"
      using less.prems True by (subst (asm) u7_loop.simps) simp
    then have "len' = Suc len + length (numeral_text 10 (unat ?q))"
      "word_bytes 8 buf' = take 8 (numeral_text 10 (unat ?q) @ word_bytes 8 (gen_digit buf (ucast (0x30 + ?m))))"
      using less.hyps [of ?q "Suc len"] n m(3) by auto
    then show ?thesis
      using n m u [OF m(1)] d [OF m(1)] take_Cons_take [of "8 - length (numeral_text 10 (unat ?q))" 7]
      by (simp add: numeral_text_step gen_digit_bytes)
  next
    case False
    then have n: "unat n < 10"
      by (simp add: word_le_nat_alt)
    then show ?thesis
      using less.prems False u [OF n] d [OF n]
      by (subst (asm) u7_loop.simps) (auto simp: numeral_text_small gen_digit_bytes)
  qed
qed


lemma length_numeral_text_le:
  assumes "n < b ^ l" "2 \<le> b" "0 < l"
  shows "length (numeral_text b n) \<le> l"
proof (cases "n = 0")
  case False
  then have "b ^ (length (num_digits b n) - 1) < b ^ l"
    using num_digits_length_bounds [of b n] assms by (blast intro: le_less_trans)
  then have "length (num_digits b n) - 1 < l"
    using assms(2) power_less_imp_less_exp [of b "length (num_digits b n) - 1" l] by linarith
  then show ?thesis
    by (simp add: numeral_text_def)
qed (use assms in \<open>simp add: numeral_text_def num_digits_small\<close>)

lemma u7toa_shift_spec:
  assumes "unat n < 10 ^ 7" "d + 8 \<le> length buf"
  shows "\<exists>buf'. u7toa_shift buf d n = Some (buf', length (numeral_text 10 (unat n)))
     \<and> wrote 8 d (numeral_text 10 (unat n)) buf buf'"
proof -
  let ?s = "numeral_text 10 (unat n)"
  obtain len b where l: "u7_loop n (Suc 0) 0 = (len, b)" by (cases "u7_loop n (Suc 0) 0")
  have len: "length ?s \<le> 7"
    using length_numeral_text_le [OF assms(1)] by simp
  have "word_bytes 8 (0 :: u64) = replicate 8 0"
    by (simp add: numeral_eq_Suc)
  then have "word_bytes 8 b = ?s @ replicate (8 - length ?s) 0" "len = length ?s"
    using u7_loop_spec [OF l] len by simp_all
  moreover have "replicate (8 - length ?s) (0 :: u8) = 0 # replicate (7 - length ?s) 0"
    using len by (simp add: Suc_diff_le flip: replicate_Suc)
  ultimately show ?thesis
    using l assms(2) len
    by (auto simp: u7toa_shift_def mem_rules wrote_def intro!: exI [of _ "replicate (7 - length ?s) 0"])
qed

text \<open>The last \<open>i\<close> decimal digits of \<open>n\<close>, with leading zeros.\<close>

primrec zero_text :: "nat \<Rightarrow> nat \<Rightarrow> u8 list" where
  "zero_text 0 n = []"
| "zero_text (Suc i) n = digits36 ! (n div 10 ^ i mod 10) # zero_text i n"

lemma length_zero_text [simp]: "length (zero_text i n) = i"
  by (induction i) simp_all

lemma zero_text_snoc: "zero_text (Suc i) n = zero_text i (n div 10) @ [digits36 ! (n mod 10)]"
proof (induction i)
  case (Suc i)
  have "zero_text (Suc (Suc i)) n = digits36 ! (n div 10 ^ Suc i mod 10) # zero_text (Suc i) n"
    by simp
  also have "n div 10 ^ Suc i = n div 10 div 10 ^ i"
    by (simp add: div_mult2_eq)
  finally show ?case
    by (simp add: Suc del: zero_text.simps(2)) (simp add: zero_text.simps(2))
qed simp

lemma numeral_text_append:
  assumes "0 < q" "r < 10 ^ i"
  shows "numeral_text 10 (q * 10 ^ i + r) = numeral_text 10 q @ zero_text i r"
  using assms(2)
proof (induction i arbitrary: r)
  case (Suc i)
  have e: "q * 10 ^ Suc i + r = (q * 10 ^ i + r div 10) * 10 + r mod 10"
    by simp
  have "10 \<le> q * 10 ^ Suc i + r"
  proof -
    have "1 * 10 \<le> q * 10 ^ Suc i"
      using assms(1) by (intro mult_le_mono) simp_all
    then show ?thesis by linarith
  qed
  then have "numeral_text 10 (q * 10 ^ Suc i + r)
      = numeral_text 10 (q * 10 ^ i + r div 10) @ [digits36 ! (r mod 10)]"
    unfolding e by (subst numeral_text_step) (simp_all add: numeral_text_step)
  also have "numeral_text 10 (q * 10 ^ i + r div 10) = numeral_text 10 q @ zero_text i (r div 10)"
    using Suc.prems by (intro Suc.IH) (simp add: div_less_iff_less_mult mult.commute)
  finally show ?case
    by (simp add: zero_text_snoc del: zero_text.simps)
qed simp

lemma digit_char: "unat m < 10 \<Longrightarrow> (ucast (0x30 + m :: u32) :: u8) = digits36 ! unat m"
  by (simp add: digits36_10 word_unat_eq_iff unat_ucast_u8 unat_add_no_wrap unat_of_nat del: of_nat_add)

lemma u07_loop_eq:
  assumes "p + i < length buf"
  shows "\<exists>m. u07_loop buf p i n = Some (take (p + 1) buf @ zero_text i (unat n) @ drop (p + 1 + i) buf, m)
     \<and> unat m = unat n div 10 ^ i"
  using assms
proof (induction i arbitrary: buf n)
  case (Suc i)
  let ?c = "ucast (0x30 + n mod 10) :: u8"
  let ?buf = "buf[p + Suc i := ?c]"
  have c: "?c = digits36 ! (unat n mod 10)"
    using digit_char [of "n mod 10"] by (simp add: unat_mod)
  obtain m where m: "u07_loop ?buf p i (n div 10) = Some (take (p + 1) ?buf @ zero_text i (unat (n div 10))
      @ drop (p + 1 + i) ?buf, m)" "unat m = unat (n div 10) div 10 ^ i"
    using Suc.IH [of ?buf "n div 10"] Suc.prems by auto
  have "drop (p + 1 + i) ?buf = ?c # drop (p + 1 + Suc i) buf"
    using Suc.prems by (simp add: Cons_nth_drop_Suc [symmetric])
  with m c Suc.prems show ?case
    by (intro exI [of _ m])
      (simp add: mem_rules zero_text_snoc unat_div div_mult2_eq [symmetric] del: zero_text.simps)
qed simp

lemma u07toa_shift_spec:
  assumes "unat n < 10 ^ 7" "d + len + 8 \<le> length buf"
  shows "u07toa_shift buf d n len
     = Some (take (d + len) buf @ zero_text 7 (unat n) @ 0 # drop (d + len + 8) buf, len + 7)"
proof -
  let ?p = "d + len"
  let ?buf = "buf[?p + 7 := 0]"
  obtain m where m: "u07_loop ?buf ?p 6 n
      = Some (take (?p + 1) ?buf @ zero_text 6 (unat n) @ drop (?p + 1 + 6) ?buf, m)" "unat m = unat n div 10 ^ 6"
    using u07_loop_eq [of ?p 6 ?buf n] assms(2) by auto
  have "unat m < 10"
    using m(2) assms(1) by (simp add: div_less_iff_less_mult)
  then have c: "(ucast (0x30 + m) :: u8) = digits36 ! (unat n div 10 ^ 6 mod 10)"
    using digit_char [of m] m(2) by simp
  have d: "drop (?p + 7) ?buf = 0 # drop (?p + 8) buf"
    using assms(2) Cons_nth_drop_Suc [of "?p + 7" ?buf] by (simp add: ac_simps)
  have t: "take (?p + 1) ?buf = take ?p buf @ [buf ! ?p]"
    using assms(2) by (simp add: take_Suc_conv_app_nth)
  have z: "zero_text 7 (unat n) = digits36 ! (unat n div 10 ^ 6 mod 10) # zero_text 6 (unat n)"
    using zero_text.simps(2) [of 6 "unat n"] by (simp del: zero_text.simps)
  have u: "u07_loop ?buf ?p 6 n = Some (take ?p buf @ buf ! ?p # zero_text 6 (unat n) @ 0 # drop (?p + 8) buf, m)"
  proof -
    have e: "?p + 1 + 6 = ?p + 7"
      by simp
    show ?thesis
      using m(1) unfolding e d t by simp
  qed
  have st: "store (take ?p buf @ x # zs) ?p v = Some (take ?p buf @ v # zs)" for x zs v
    using assms(2) by (simp add: store_def list_update_append)
  have "store buf (?p + 7) 0 = Some ?buf"
    using assms(2) by (simp add: mem_rules)
  then show ?thesis
    unfolding u07toa_shift_def by (simp only: u st c z bind.bind_lunit append_Cons case_prod_conv)
qed


lemma wrote_mono:
  assumes "wrote room d s buf buf'" "room \<le> room'" "d + room' \<le> length buf"
  shows "wrote room' d s buf buf'"
proof -
  obtain junk where b: "buf' = take d buf @ s @ 0 # junk @ drop (d + room) buf" "length s + 1 + length junk = room"
    using assms(1) by (auto simp: wrote_def)
  have e: "room' - room + (d + room) = d + room'"
    using assms(2) by simp
  have "drop (d + room) buf = take (room' - room) (drop (d + room) buf) @ drop (d + room') buf"
    using append_take_drop_id [of "room' - room" "drop (d + room) buf"] unfolding drop_drop e by simp
  with b assms(2,3) show ?thesis
    by (auto simp: wrote_def intro!: exI [of _ "junk @ take (room' - room) (drop (d + room) buf)"])
qed

text \<open>Seven digits on behind a text that is already there.\<close>

lemma wrote_more:
  assumes "wrote k d s buf buf1" "k \<le> room" "unat n < 10 ^ 7" "length s + 8 \<le> room" "d + room \<le> length buf"
  shows "\<exists>buf'. u07toa_shift buf1 d n (length s) = Some (buf', length s + 7)
     \<and> wrote room d (s @ zero_text 7 (unat n)) buf buf'"
proof -
  obtain junk where b: "buf1 = (take d buf @ s @ 0 # junk) @ drop (d + room) buf" "length s + 1 + length junk = room"
    using wrote_mono [OF assms(1,2,5)] by (auto simp: wrote_def)
  have front: "length (take d buf @ s @ 0 # junk) = d + room"
    using b(2) assms(5) by simp
  then have l: "length buf1 = length buf" "drop (d + room) buf1 = drop (d + room) buf"
    unfolding b(1) using assms(5) by (simp, metis append_eq_conv_conj)
  have t: "take (d + length s) buf1 = take d buf @ s"
    using b(1) assms(5) by simp
  have r: "u07toa_shift buf1 d n (length s)
      = Some (take d buf @ s @ zero_text 7 (unat n) @ 0 # drop (d + length s + 8) buf1, length s + 7)"
    using u07toa_shift_spec [of n d "length s" buf1] assms l(1) t by simp
  have e: "room - (length s + 8) + (d + length s + 8) = d + room"
    using assms(4) by simp
  have "drop (d + length s + 8) buf1 = take (room - (length s + 8)) (drop (d + length s + 8) buf1) @ drop (d + room) buf"
    using append_take_drop_id [of "room - (length s + 8)" "drop (d + length s + 8) buf1"] l(2)
    unfolding drop_drop e by simp
  with r show ?thesis
    using assms(4,5) l(1)
    by (auto simp: wrote_def intro!: exI [of _ "take (room - (length s + 8)) (drop (d + length s + 8) buf1)"])
qed

lemma wrote_one:
  assumes "d + 2 \<le> length buf"
  shows "wrote 2 d [c] buf (buf[d := c, d + 1 := 0])"
proof -
  have "buf[d := c, d + 1 := 0] = take d buf @ [c] @ 0 # [] @ drop (d + 2) buf"
    using assms by (simp add: upd_conv_take_nth_drop take_Suc_conv_app_nth nth_append min_def)
  with assms show ?thesis
    by (auto simp: wrote_def)
qed

lemma u32toa_spec:
  assumes "d + 11 \<le> length buf"
  shows "\<exists>buf'. u32toa buf d n = Some (buf', length (numeral_text 10 (unat n)))
     \<and> wrote 11 d (numeral_text 10 (unat n)) buf buf'"
proof -
  consider "unat n < 10" | "10 \<le> unat n" "unat n < 10000000" | "10000000 \<le> unat n"
    by linarith
  then show ?thesis
  proof cases
    case 1
    then have "u32toa buf d n = Some (buf[d := digits36 ! unat n, d + 1 := 0], 1)"
      using assms digit_char [of n] by (simp add: u32toa_def word_less_nat_alt mem_rules)
    moreover have "wrote 11 d [digits36 ! unat n] buf (buf[d := digits36 ! unat n, d + 1 := 0])"
      using assms by (intro wrote_mono [OF wrote_one]) auto
    ultimately show ?thesis
      using 1 by (simp add: numeral_text_small)
  next
    case 2
    then have "u32toa buf d n = u7toa_shift buf d n"
      by (simp add: u32toa_def word_less_nat_alt word_le_nat_alt)
    then show ?thesis
      using 2 u7toa_shift_spec [of n d buf] assms wrote_mono [of 8 d _ buf _ 11] by fastforce
  next
    case 3
    let ?q = "unat n div 10000000" and ?r = "unat n mod 10000000"
    have q: "unat (n div 10000000) = ?q" "unat (n mod 10000000) = ?r"
      by (simp_all add: unat_div unat_mod)
    have lt: "?q < 10 ^ 3" "?r < 10 ^ 7" "0 < ?q"
      using unat_lt2p [of n] 3 by (simp_all add: div_less_iff_less_mult div_greater_zero_iff)
    have s: "numeral_text 10 (unat n) = numeral_text 10 ?q @ zero_text 7 ?r"
      using numeral_text_append [OF lt(3,2)] by simp
    have "length (numeral_text 10 ?q) \<le> 3"
      using length_numeral_text_le [OF lt(1)] by simp
    moreover obtain buf1 where "u7toa_shift buf d (n div 10000000) = Some (buf1, length (numeral_text 10 ?q))"
      "wrote 8 d (numeral_text 10 ?q) buf buf1"
      using u7toa_shift_spec [of "n div 10000000" d buf] q lt(1) assms by auto
    moreover have "u32toa buf d n = do { (buf, len) \<leftarrow> u7toa_shift buf d (n div 10000000);
             u07toa_shift buf d (n mod 10000000) len }"
      using 3 by (simp add: u32toa_def word_less_nat_alt word_le_nat_alt)
    ultimately show ?thesis
      using wrote_more [of 8 d "numeral_text 10 ?q" buf buf1 11 "n mod 10000000"] q(2) lt(2) s assms by auto
  qed
qed


lemma unat_ucast_u64_u32: "unat n < 2 ^ 32 \<Longrightarrow> unat (ucast n :: u32) = unat n" for n :: u64
  by (simp add: unsigned_ucast_eq take_bit_eq_mod)

lemma u64toa_spec:
  assumes "d + 21 \<le> length buf"
  shows "\<exists>buf'. u64toa buf d n = Some (buf', length (numeral_text 10 (unat n)))
     \<and> wrote 21 d (numeral_text 10 (unat n)) buf buf'"
proof (cases "n < 0x100000000")
  case True
  then have "unat (ucast n :: u32) = unat n"
    by (intro unat_ucast_u64_u32) (simp add: word_less_nat_alt)
  moreover obtain buf' where "u32toa buf d (ucast n) = Some (buf', length (numeral_text 10 (unat (ucast n :: u32))))"
    "wrote 11 d (numeral_text 10 (unat (ucast n :: u32))) buf buf'"
    using u32toa_spec [of d buf "ucast n"] assms by auto
  ultimately show ?thesis
    using True assms wrote_mono [of 11 d "numeral_text 10 (unat n)" buf buf' 21] by (auto simp: u64toa_def)
next
  case False
  let ?q = "unat n div 10000000" and ?r = "unat n mod 10000000"
  let ?qq = "?q div 10000000" and ?qr = "?q mod 10000000"
  have big: "10000000 \<le> unat n"
    using False by (simp add: word_less_nat_alt)
  have lt: "?r < 10 ^ 7" "?qr < 10 ^ 7" "?qq < 10 ^ 6" "0 < ?q"
    using unat_lt2p [of n] big by (simp_all add: div_less_iff_less_mult div_greater_zero_iff)
  have r: "unat (ucast (n mod 10000000) :: u32) = ?r"
    using lt(1) by (subst unat_ucast_u64_u32) (simp_all add: unat_mod)
  have s: "numeral_text 10 (unat n) = numeral_text 10 ?q @ zero_text 7 ?r"
    using numeral_text_append [OF lt(4,1)] by simp
  have "\<exists>buf1. (if 10000000 \<le> n div 10000000 then
                  do { (buf, len) \<leftarrow> u7toa_shift buf d (ucast (n div 10000000 div 10000000));
                       u07toa_shift buf d (ucast (n div 10000000 mod 10000000)) len }
                else u7toa_shift buf d (ucast (n div 10000000)))
       = Some (buf1, length (numeral_text 10 ?q)) \<and> wrote 14 d (numeral_text 10 ?q) buf buf1 \<and> length (numeral_text 10 ?q) \<le> 13"
  proof (cases "10000000 \<le> ?q")
    case True
    then have qq: "0 < ?qq"
      by (simp add: div_greater_zero_iff)
    have n: "unat (ucast (n div 10000000 div 10000000) :: u32) = ?qq" "unat (ucast (n div 10000000 mod 10000000) :: u32) = ?qr"
      using lt(2,3) by (subst unat_ucast_u64_u32; simp add: unat_mod unat_div)+
    have s1: "numeral_text 10 ?q = numeral_text 10 ?qq @ zero_text 7 ?qr"
      using numeral_text_append [OF qq lt(2)] by simp
    have l: "length (numeral_text 10 ?qq) \<le> 6"
      using length_numeral_text_le [OF lt(3)] by simp
    obtain buf1 where b1: "u7toa_shift buf d (ucast (n div 10000000 div 10000000)) = Some (buf1, length (numeral_text 10 ?qq))"
      "wrote 8 d (numeral_text 10 ?qq) buf buf1"
      using u7toa_shift_spec [of "ucast (n div 10000000 div 10000000)" d buf] n(1) lt(3) assms by auto
    have "10000000 \<le> n div 10000000"
      using True by (simp add: word_le_nat_alt unat_div)
    with b1 show ?thesis
      using wrote_more [of 8 d "numeral_text 10 ?qq" buf buf1 14 "ucast (n div 10000000 mod 10000000)"] n(2) lt(2) s1 l assms
      by auto
  next
    case False
    then have n: "unat (ucast (n div 10000000) :: u32) = ?q"
      by (subst unat_ucast_u64_u32) (simp_all add: unat_div)
    have "length (numeral_text 10 ?q) \<le> 7"
      using length_numeral_text_le [of ?q 10 7] False by simp
    moreover have "\<not> 10000000 \<le> n div 10000000"
      using False by (simp add: word_le_nat_alt unat_div)
    moreover obtain buf1 where "u7toa_shift buf d (ucast (n div 10000000)) = Some (buf1, length (numeral_text 10 ?q))"
      "wrote 8 d (numeral_text 10 ?q) buf buf1"
      using u7toa_shift_spec [of "ucast (n div 10000000)" d buf] n False assms by auto
    ultimately show ?thesis
      using wrote_mono [of 8 d "numeral_text 10 ?q" buf buf1 14] assms by auto
  qed
  then obtain buf1 where b: "(if 10000000 \<le> n div 10000000 then
                  do { (buf, len) \<leftarrow> u7toa_shift buf d (ucast (n div 10000000 div 10000000));
                       u07toa_shift buf d (ucast (n div 10000000 mod 10000000)) len }
                else u7toa_shift buf d (ucast (n div 10000000))) = Some (buf1, length (numeral_text 10 ?q))"
    "wrote 14 d (numeral_text 10 ?q) buf buf1" "length (numeral_text 10 ?q) \<le> 13"
    by blast
  have "u64toa buf d n = u07toa_shift buf1 d (ucast (n mod 10000000)) (length (numeral_text 10 ?q))"
    using False big b(1) by (simp add: u64toa_def word_le_nat_alt Let_def)
  then show ?thesis
    using wrote_more [OF b(2), of 21 "ucast (n mod 10000000)"] b(3) r lt(1) s assms by auto
qed


section \<open>Other radices\<close>

text \<open>\<open>put_text\<close>: the text \<open>s\<close> is stored so that it ends at position \<open>e\<close>.\<close>

definition put_text :: "u8 list \<Rightarrow> nat \<Rightarrow> u8 list \<Rightarrow> u8 list" where
  "put_text buf e s = take (e + 1 - length s) buf @ s @ drop (e + 1) buf"

lemma put_text_one: "e < length buf \<Longrightarrow> put_text buf e [c] = buf[e := c]"
  by (simp add: put_text_def upd_conv_take_nth_drop)

lemma put_text_snoc:
  assumes "e < length buf" "0 < e" "length s \<le> e"
  shows "put_text (buf[e := c]) (e - 1) s = put_text buf e (s @ [c])"
proof -
  have "drop e (buf[e := c]) = c # drop (e + 1) buf"
    using assms(1) by (simp add: Cons_nth_drop_Suc [symmetric])
  then show ?thesis
    using assms(2,3) by (simp add: put_text_def)
qed

lemma digit_eq: "unat n < 36 \<Longrightarrow> digit n = Some (digits36 ! unat n)"
  by (simp add: digit_def load_in length_digits36)

lemma put_div_eq:
  assumes "2 \<le> unat base" "unat base \<le> 36" "length (numeral_text (unat base) (unat n)) \<le> e + 1" "e < length buf"
  shows "put_div buf e n base = Some (put_text buf e (numeral_text (unat base) (unat n)))"
  using assms(3,4)
proof (induction "unat n" arbitrary: n e buf rule: less_induct)
  case less
  note unfold = put_div.simps [of buf e n base]
  show ?case
  proof (cases "unat base \<le> unat n")
    case False
    then show ?thesis
      using less.prems assms(1,2) unfold
      by (simp add: word_le_nat_alt digit_eq mem_rules numeral_text_small put_text_one)
  next
    case True
    let ?c = "digits36 ! (unat n mod unat base)"
    have m: "unat (n mod base) = unat n mod unat base" "unat (n div base) = unat n div unat base"
      by (simp_all add: unat_mod unat_div)
    have "unat n mod unat base < unat base"
      using assms(1) by (intro mod_less_divisor) simp
    then have c: "digit (n mod base) = Some ?c"
      using assms(2) digit_eq [of "n mod base"] m by simp
    have t: "numeral_text (unat base) (unat n) = numeral_text (unat base) (unat n div unat base) @ [?c]"
      using True assms(1) by (rule numeral_text_step [rotated])
    then have e: "length (numeral_text (unat base) (unat n div unat base)) \<le> e"
      using less.prems(1) by simp
    have e0: "0 < e"
      by (rule less_le_trans [OF length_numeral_text_pos e])
    have "unat (n div base) < unat n"
      using True assms(1) m by simp
    then have "put_div (buf[e := ?c]) (e - 1) (n div base) base
        = Some (put_text (buf[e := ?c]) (e - 1) (numeral_text (unat base) (unat n div unat base)))"
      using less.hyps [of "n div base" "e - 1" "buf[e := ?c]"] less.prems(2) e e0 m by simp
    then show ?thesis
      using unfold True c e e0 t less.prems(2) put_text_snoc [of e buf "numeral_text (unat base) (unat n div unat base)" ?c]
      by (simp add: word_le_nat_alt mem_rules)
  qed
qed

text \<open>A power of two as base: masking and shifting are the remainder and the quotient.\<close>

lemma put_shift_eq_put_div:
  fixes n base :: "'a::len word"
  assumes "unat base = 2 ^ k" "msk = base - 1" "0 < k"
  shows "put_shift buf e n base msk k = put_div buf e n base"
proof (induction "unat n" arbitrary: n e buf rule: less_induct)
  case less
  have "base = of_nat (unat base)"
    by simp
  then have b: "base = 2 ^ k"
    unfolding assms(1) by simp
  have "n AND msk = n mod base"
    unfolding assms(2) b by (simp add: take_bit_eq_mod flip: mask_eq_exp_minus_1 take_bit_eq_mask)
  moreover have q: "drop_bit k n = n div base"
    unfolding b by (simp add: drop_bit_eq_div)
  moreover have "put_shift buf' e' (n div base) base msk k = put_div buf' e' (n div base) base" if "base \<le> n" for buf' e'
  proof (rule less)
    have "2 \<le> unat base"
      using assms(1,3) self_le_power [of 2 k] by simp
    then show "unat (n div base) < unat n"
      using that by (simp add: unat_div word_le_nat_alt)
  qed
  ultimately show ?case
    by (subst put_shift.simps, subst put_div.simps) (simp cong: if_cong)
qed


lemma radix_len_eq:
  fixes n nbase base :: "'a::len word"
  assumes "2 \<le> unat base" "unat n * unat base < 2 ^ LENGTH('a)" "0 < unat n"
    "unat nbase = unat base ^ Suc j" "unat base ^ j \<le> unat n"
  shows "radix_len n nbase base len = Some (len + (length (num_digits (unat base) (unat n)) - Suc j))"
  using assms(4,5)
proof (induction "Suc (unat n) - unat nbase" arbitrary: nbase j len rule: less_induct)
  case less
  note unfold = radix_len.simps [of n nbase base len]
  show ?case
  proof (cases "unat nbase \<le> unat n")
    case True
    have "unat nbase * unat base < 2 ^ LENGTH('a)"
      using True assms(2) by (meson le_less_trans mult_le_mono1)
    then have m: "unat (nbase * base) = unat base ^ Suc (Suc j)"
      using less.prems(1) by (simp add: unat_mult_lem [THEN iffD1] mult.commute)
    have "unat nbase < unat (nbase * base)"
      using assms(1) less.prems(1) m by simp
    then have dec: "Suc (unat n) - unat (nbase * base) < Suc (unat n) - unat nbase"
      using True by linarith
    have l: "Suc j < length (num_digits (unat base) (unat n))"
    proof -
      have "1 < unat base"
        using assms(1) by simp
      moreover have "unat base ^ Suc j < unat base ^ length (num_digits (unat base) (unat n))"
        using True num_digits_length_bounds [OF assms(1,3)] unfolding less.prems(1) by (blast intro: le_less_trans)
      ultimately show ?thesis
        by (rule power_less_imp_less_exp)
    qed
    have "radix_len n (nbase * base) base (len + 1)
        = Some (len + 1 + (length (num_digits (unat base) (unat n)) - Suc (Suc j)))"
      by (rule less.hyps [OF dec m]) (use True less.prems(1) in \<open>simp only:\<close>)
    with True l unfold show ?thesis
      by (simp add: word_le_nat_alt)
  next
    case False
    then have "length (num_digits (unat base) (unat n)) = Suc j"
      using less.prems by (intro num_digits_length_unique [OF assms(1)]) auto
    with False unfold show ?thesis
      by (simp add: word_le_nat_alt)
  qed
qed

lemma takeWhile_high_zeros:
  assumes "\<exists>i < l. P i"
  shows "\<exists>m < l. P m \<and> (\<forall>i. m < i \<and> i < l \<longrightarrow> \<not> P i) \<and> length (takeWhile (\<lambda>i. \<not> P i) (rev [0..<l])) = l - 1 - m"
  using assms
proof (induction l)
  case (Suc l)
  show ?case
  proof (cases "P l")
    case False
    then obtain m where "m < l" "P m" "\<forall>i. m < i \<and> i < l \<longrightarrow> \<not> P i"
      "length (takeWhile (\<lambda>i. \<not> P i) (rev [0..<l])) = l - 1 - m"
      using Suc by (metis less_Suc_eq)
    with False show ?thesis
      by (intro exI [of _ m]) (auto simp: less_Suc_eq)
  qed (auto intro: exI [of _ l])
qed simp

lemma clz_bounds:
  fixes n :: "'a::len word"
  assumes "n \<noteq> 0"
  obtains m where "m < LENGTH('a)" "LENGTH('a) - clz n = Suc m" "2 ^ m \<le> unat n" "unat n < 2 ^ Suc m"
proof -
  have "\<exists>i < LENGTH('a). bit n i"
    using assms by (metis bit_imp_le_length bit_word_eqI bit_0_eq bot_apply bot_bool_def not_le)
  then obtain m where m: "m < LENGTH('a)" "bit n m" "\<forall>i. m < i \<and> i < LENGTH('a) \<longrightarrow> \<not> bit n i"
    "clz n = LENGTH('a) - 1 - m"
    unfolding clz_def using takeWhile_high_zeros [of "LENGTH('a)" "bit n"] by blast
  have "take_bit (Suc m) n = n"
    using m(3) by (intro bit_word_eqI) (auto simp: bit_take_bit_iff, metis not_less_eq)
  then have "unat n = unat n mod 2 ^ Suc m"
    using unat_take_bit [of "Suc m" n] by simp
  moreover have "unat n mod 2 ^ Suc m < 2 ^ Suc m"
    by (rule mod_less_divisor) simp
  ultimately have "unat n < 2 ^ Suc m"
    by linarith
  moreover have "2 ^ m \<le> unat n"
  proof (rule ccontr)
    assume "\<not> 2 ^ m \<le> unat n"
    then have "\<not> bit (unat n) m"
      by (simp add: bit_iff_odd)
    with m(2) show False
      by (simp add: bit_unsigned_iff)
  qed
  ultimately show thesis
    using that [of m] m(1,4) by simp
qed

lemma clz_len:
  fixes n :: "'a::len word"
  assumes "0 < k" "2 ^ k \<le> unat n"
  shows "(LENGTH('a) - clz n + k - 1) div k = length (numeral_text (2 ^ k) (unat n))"
proof -
  have "n \<noteq> 0"
    using assms(2) by auto
  then obtain m where m: "LENGTH('a) - clz n = Suc m" "2 ^ m \<le> unat n" "unat n < 2 ^ Suc m"
    by (rule clz_bounds)
  define l where "l = m div k"
  have "(Suc m + k - 1) div k = Suc l"
    using assms(1) by (simp add: l_def div_add_self2)
  moreover have "length (num_digits (2 ^ k) (unat n)) = Suc l"
  proof (rule num_digits_length_unique)
    show "2 \<le> (2 :: nat) ^ k"
      using assms(1) self_le_power [of 2 k] by simp
    have "k * l \<le> m" "m < k * Suc l"
      using assms(1) dividend_less_times_div [of k m] by (simp_all add: l_def mult.commute)
    then have "(2 :: nat) ^ (k * l) \<le> 2 ^ m" "(2 :: nat) ^ Suc m \<le> 2 ^ (k * Suc l)"
      by (simp_all only: power_increasing_iff Suc_le_eq one_less_numeral_iff semiring_norm(76) power_increasing Suc_leI)
    then show "(2 ^ k) ^ l \<le> unat n" "unat n < (2 ^ k) ^ Suc l"
      using m(2,3) unfolding power_mult by linarith+
  qed
  ultimately show ?thesis
    using m(1) by (simp add: numeral_text_def)
qed


text \<open>The common end of the radix conversions, once the length is known.\<close>

lemma radix_tail:
  fixes n base :: "'a::len word"
  assumes "2 \<le> unat base" "unat base \<le> 36" "unat base \<le> unat n"
    "len = length (numeral_text (unat base) (unat n))" "d + len < length buf"
  shows "do { buf \<leftarrow> store buf (d + len) 0;
              c \<leftarrow> digit (n mod base);
              buf \<leftarrow> store buf (d + len - 1) c;
              if d + len < 2 then None
              else do { buf \<leftarrow> put_div buf (d + len - 2) (n div base) base; Some (buf, len) } }
     = Some (take d buf @ numeral_text (unat base) (unat n) @ 0 # drop (d + len + 1) buf, len)"
proof -
  let ?t = "numeral_text (unat base) (unat n div unat base)" and ?c = "digits36 ! (unat n mod unat base)"
  have t: "numeral_text (unat base) (unat n) = ?t @ [?c]"
    using assms(1,3) by (rule numeral_text_step)
  obtain l where l: "length ?t = Suc l"
    by (metis gr0_conv_Suc length_numeral_text_pos)
  have len: "len = Suc (Suc l)"
    using assms(4) t l by simp
  have m: "unat (n mod base) = unat n mod unat base" "unat (n div base) = unat n div unat base"
    by (simp_all add: unat_mod unat_div)
  have "unat n mod unat base < unat base"
    using assms(1) by (intro mod_less_divisor) simp
  then have c: "digit (n mod base) = Some ?c"
    using assms(2) digit_eq [of "n mod base"] m by simp
  let ?buf = "buf[d + len := 0, d + len - 1 := ?c]"
  have "drop (d + Suc l) ?buf = ?c # 0 # drop (d + len + 1) buf"
    using assms(5) len by (simp add: Cons_nth_drop_Suc [symmetric] nth_list_update)
  then have p: "put_text ?buf (d + l) ?t = take d buf @ ?t @ [?c] @ 0 # drop (d + len + 1) buf"
    using len l by (simp add: put_text_def)
  have "put_div ?buf (d + l) (n div base) base = Some (put_text ?buf (d + l) ?t)"
    using put_div_eq [OF assms(1,2), of "n div base" "d + l" ?buf] m l len assms(5) by simp
  with p c t show ?thesis
    using assms(5) len by (simp add: mem_rules)
qed

lemma wrote_exact:
  assumes "d + length s + 1 \<le> length buf"
  shows "wrote (length s + 1) d s buf (take d buf @ s @ 0 # drop (d + length s + 1) buf)"
  using assms by (auto simp: wrote_def add.assoc intro!: exI [of _ "[]"])

lemma radix_len_total:
  fixes n base :: "'a::len word"
  assumes "2 \<le> unat base" "unat base \<le> unat n"
  shows "radix_len (n div base) base base 2 = Some (length (numeral_text (unat base) (unat n)))"
proof -
  have q: "unat (n div base) = unat n div unat base"
    by (simp add: unat_div)
  have "unat (n div base) * unat base \<le> unat n"
    unfolding q by (rule div_times_less_eq_dividend)
  then have "unat (n div base) * unat base < 2 ^ LENGTH('a)"
    using unat_lt2p [of n] by (rule le_less_trans)
  moreover have "0 < unat (n div base)"
    unfolding q using assms by (simp add: div_greater_zero_iff)
  ultimately have "radix_len (n div base) base base 2
      = Some (2 + (length (num_digits (unat base) (unat (n div base))) - Suc 0))"
    using assms(1) by (intro radix_len_eq) simp_all
  moreover have "0 < length (num_digits (unat base) (unat n div unat base))"
    by (subst num_digits.simps) simp
  ultimately show ?thesis
    using assms q by (simp add: numeral_text_def num_digits_step)
qed


lemma radix_shift_pow:
  assumes "b < 64"
  obtains k where "load radix_shift b = Some k" "k \<noteq> 0 \<Longrightarrow> b = 2 ^ k"
proof -
  have "\<forall>b \<in> set [0..<64]. radix_shift ! b \<noteq> 0 \<longrightarrow> b = 2 ^ (radix_shift ! b)" "length radix_shift = 64"
    by code_simp+
  with assms that show thesis
    by (auto simp: load_def)
qed

text \<open>The two tails, for the words of either width.\<close>

lemma radix_div_tail:
  fixes n base :: "'a::len word"
  assumes "2 \<le> unat base" "unat base \<le> 36" "unat base \<le> unat n"
    "d + length (numeral_text (unat base) (unat n)) < length buf"
  shows "do { len \<leftarrow> radix_len (n div base) base base 2;
              buf \<leftarrow> store buf (d + len) 0;
              c \<leftarrow> digit (n mod base);
              buf \<leftarrow> store buf (d + len - 1) c;
              if d + len < 2 then None
              else do { buf \<leftarrow> put_div buf (d + len - 2) (n div base) base; Some (buf, len) } }
     = (let s = numeral_text (unat base) (unat n) in Some (take d buf @ s @ 0 # drop (d + length s + 1) buf, length s))"
  using radix_tail [OF assms(1-3) refl assms(4)] radix_len_total [OF assms(1,3)] by (simp add: Let_def)

lemma radix_shift_tail:
  fixes n base :: "'a::len word"
  assumes "2 \<le> unat base" "unat base \<le> 36" "unat base \<le> unat n" "unat base = 2 ^ k" "0 < k"
    "d + length (numeral_text (unat base) (unat n)) < length buf"
  shows "(let msk = push_bit k 1 - 1; len = (LENGTH('a) - clz n + k - 1) div k in
          do { buf \<leftarrow> store buf (d + len) 0;
               c \<leftarrow> digit (n AND msk);
               buf \<leftarrow> store buf (d + len - 1) c;
               if d + len < 2 then None
               else do { buf \<leftarrow> put_shift buf (d + len - 2) (drop_bit k n) base msk k; Some (buf, len) } })
     = (let s = numeral_text (unat base) (unat n) in Some (take d buf @ s @ 0 # drop (d + length s + 1) buf, length s))"
proof -
  have "base = of_nat (unat base)"
    by simp
  then have b: "base = 2 ^ k"
    unfolding assms(4) by simp
  have k: "push_bit k 1 - 1 = base - 1"
    unfolding b by (simp add: push_bit_eq_mult)
  have "n AND (base - 1) = n mod base" "drop_bit k n = n div base"
    unfolding b by (simp_all add: take_bit_eq_mod drop_bit_eq_div flip: mask_eq_exp_minus_1 take_bit_eq_mask)
  moreover have "(LENGTH('a) - clz n + k - 1) div k = length (numeral_text (unat base) (unat n))"
    using clz_len [of k n] assms(3-5) by simp
  ultimately show ?thesis
    using radix_tail [OF assms(1-3) refl assms(6)] put_shift_eq_put_div [OF assms(4) refl assms(5)]
    unfolding Let_def k by (simp cong: if_cong)
qed

lemma u32toa_radix_spec:
  assumes "2 \<le> unat base" "unat base \<le> 36" "d + 33 \<le> length buf"
  shows "\<exists>buf'. u32toa_radix buf d n base = Some (buf', length (numeral_text (unat base) (unat n)))
     \<and> wrote 33 d (numeral_text (unat base) (unat n)) buf buf'"
proof -
  let ?s = "numeral_text (unat base) (unat n)"
  have "unat n < unat base ^ 32"
    using unat_lt2p [of n] power_mono [OF assms(1), of 32] by simp
  then have len: "length ?s \<le> 32"
    using assms(1) by (intro length_numeral_text_le) auto
  have exact: "wrote 33 d ?s buf (take d buf @ ?s @ 0 # drop (d + length ?s + 1) buf)"
    using len assms(3) by (intro wrote_mono [OF wrote_exact]) auto
  have b0: "base \<noteq> 0"
    using assms(1) by auto
  show ?thesis
  proof (cases "base = 10")
    case True
    then show ?thesis
      using u32toa_spec [of d buf n] assms(3) wrote_mono [of 11 d ?s buf _ 33]
      by (auto simp: u32toa_radix_def)
  next
    case ten: False
    show ?thesis
    proof (cases "unat n < unat base")
      case True
      then have "u32toa_radix buf d n base = Some (buf[d := digits36 ! unat n, d + 1 := 0], 1)"
        using ten assms digit_eq [of n] by (simp add: u32toa_radix_def word_less_nat_alt mem_rules)
      moreover have "wrote 33 d [digits36 ! unat n] buf (buf[d := digits36 ! unat n, d + 1 := 0])"
        using assms(3) by (intro wrote_mono [OF wrote_one]) auto
      ultimately show ?thesis
        using True by (simp add: numeral_text_small)
    next
      case False
      then have n: "unat base \<le> unat n" "\<not> n < base" by (auto simp: word_less_nat_alt)
      obtain k where k: "load radix_shift (unat (base AND 63)) = Some k" "k \<noteq> 0 \<Longrightarrow> unat base = 2 ^ k"
        using radix_shift_pow [of "unat base"] assms(2) unat_and_3F [of base] by auto
      have d: "d + length ?s < length buf"
        using len assms(3) by simp
      show ?thesis
      proof (cases "k = 0")
        case True
        then have "u32toa_radix buf d n base = Some (take d buf @ ?s @ 0 # drop (d + length ?s + 1) buf, length ?s)"
          using ten n b0 k(1) radix_div_tail [OF assms(1,2) n(1) d] by (simp add: u32toa_radix_def Let_def)
        with exact show ?thesis by blast
      next
        case shift: False
        then have "u32toa_radix buf d n base = Some (take d buf @ ?s @ 0 # drop (d + length ?s + 1) buf, length ?s)"
          using ten n k radix_shift_tail [OF assms(1,2) n(1) k(2) _ d]
          by (simp add: u32toa_radix_def clz32_def Let_def)
        with exact show ?thesis by blast
      qed
    qed
  qed
qed

lemma u64toa_radix_spec:
  assumes "2 \<le> unat base" "unat base \<le> 36" "d + 65 \<le> length buf"
  shows "\<exists>buf'. u64toa_radix buf d n base = Some (buf', length (numeral_text (unat base) (unat n)))
     \<and> wrote 65 d (numeral_text (unat base) (unat n)) buf buf'"
proof -
  let ?s = "numeral_text (unat base) (unat n)"
  define b where "b = (ucast base :: u64)"
  have b: "unat b = unat base"
    using unat_lt2p [of base] by (simp add: b_def unsigned_ucast_eq take_bit_eq_mod)
  have "unat n < unat base ^ 64"
    using unat_lt2p [of n] power_mono [OF assms(1), of 64] by simp
  then have len: "length ?s \<le> 64"
    using assms(1) by (intro length_numeral_text_le) auto
  have exact: "wrote 65 d ?s buf (take d buf @ ?s @ 0 # drop (d + length ?s + 1) buf)"
    using len assms(3) by (intro wrote_mono [OF wrote_exact]) auto
  have b0: "base \<noteq> 0"
    using assms(1) by auto
  have d: "d + length ?s < length buf"
    using len assms(3) by simp
  show ?thesis
  proof (cases "base = 10")
    case True
    then show ?thesis
      using u64toa_spec [of d buf n] assms(3) wrote_mono [of 21 d ?s buf _ 65]
      by (auto simp: u64toa_radix_def)
  next
    case ten: False
    obtain k where k: "load radix_shift (unat (base AND 63)) = Some k" "k \<noteq> 0 \<Longrightarrow> unat base = 2 ^ k"
      using radix_shift_pow [of "unat base"] assms(2) unat_and_3F [of base] by auto
    show ?thesis
    proof (cases "k = 0")
      case False
      show ?thesis
      proof (cases "unat n < unat base")
        case True
        then have "u64toa_radix buf d n base = Some (buf[d := digits36 ! unat n, d + 1 := 0], 1)"
          using ten k(1) False assms digit_eq [of n] b
          by (simp add: u64toa_radix_def word_less_nat_alt mem_rules Let_def flip: b_def)
        moreover have "wrote 65 d [digits36 ! unat n] buf (buf[d := digits36 ! unat n, d + 1 := 0])"
          using assms(3) by (intro wrote_mono [OF wrote_one]) auto
        ultimately show ?thesis
          using True by (simp add: numeral_text_small)
      next
        case big: False
        then have n: "unat b \<le> unat n" "\<not> n < b" by (auto simp: word_less_nat_alt b)
        then have "u64toa_radix buf d n base = Some (take d buf @ ?s @ 0 # drop (d + length ?s + 1) buf, length ?s)"
          using ten False k(1) radix_shift_tail [of b n k d buf] assms(1,2) k(2) d b
          by (simp add: u64toa_radix_def clz64_def Let_def flip: b_def)
        with exact show ?thesis by blast
      qed
    next
      case zero: True
      show ?thesis
      proof (cases "n < 0x100000000")
        case True
        then have "unat (ucast n :: u32) = unat n"
          by (intro unat_ucast_u64_u32) (simp add: word_less_nat_alt)
        then show ?thesis
          using ten zero k(1) True u32toa_radix_spec [OF assms(1,2), of d buf "ucast n"] assms(3)
            wrote_mono [of 33 d ?s buf _ 65] by (auto simp: u64toa_radix_def Let_def)
      next
        case False
        then have n: "unat b \<le> unat n"
          using assms(2) b by (simp add: word_less_nat_alt)
        then have "u64toa_radix buf d n base = Some (take d buf @ ?s @ 0 # drop (d + length ?s + 1) buf, length ?s)"
          using ten zero k(1) False b0 radix_div_tail [of b n d buf] assms(1,2) d b
          by (simp add: u64toa_radix_def Let_def flip: b_def)
        with exact show ?thesis by blast
      qed
    qed
  qed
qed


section \<open>Properties\<close>

text \<open>The text of an integer: a minus sign and the numeral of its absolute value.\<close>

definition int_text :: "nat \<Rightarrow> int \<Rightarrow> u8 list" where
  "int_text b i = (if i < 0 then 0x2D # numeral_text b (nat (- i)) else numeral_text b (nat i))"

lemma wrote_sign:
  assumes "wrote room (d + 1) s (buf[d := c]) buf'" "d < length buf"
  shows "wrote (1 + room) d (c # s) buf buf'"
proof -
  have "take (d + 1) (buf[d := c]) = take d buf @ [c]"
    using assms(2) by (simp add: take_Suc_conv_app_nth)
  then show ?thesis
    using assms(1) by (auto simp: wrote_def)
qed

lemma uint_of_small_int:
  fixes w :: "'a::len word"
  assumes "w = of_int k" "0 \<le> k" "k < 2 ^ LENGTH('a)"
  shows "unat w = nat k"
proof -
  have "uint w = take_bit LENGTH('a) k"
    unfolding assms(1) by (rule uint_word_of_int_eq)
  then have "uint w = k"
    using assms(2,3) by (simp add: take_bit_eq_mod)
  then show ?thesis
    by (simp add: unat_eq_nat_uint)
qed

lemma exp_less: "(2 :: int) ^ (LENGTH('a::len) - 1) < 2 ^ LENGTH('a)"
  by (rule power_strict_increasing) simp_all

lemma unat_neg_sint:
  fixes n :: "'a::len word"
  assumes "sint n < 0"
  shows "unat (- n) = nat (- sint n)"
proof (rule uint_of_small_int)
  show "- n = of_int (- sint n)"
    by simp
  have "- sint n \<le> 2 ^ (LENGTH('a) - 1)"
    using sint_ge [of n] by linarith
  with exp_less show "- sint n < 2 ^ LENGTH('a)"
    by (rule le_less_trans [rotated])
qed (use assms in simp)

lemma unat_sint:
  fixes n :: "'a::len word"
  assumes "0 \<le> sint n"
  shows "unat n = nat (sint n)"
proof (rule uint_of_small_int)
  show "sint n < 2 ^ LENGTH('a)"
    using sint_lt [of n] exp_less by (rule less_trans)
qed (use assms in simp_all)

text \<open>The two signed conversions of a width differ in the unsigned one only.\<close>

lemma signed_text:
  fixes n :: "'a::len word"
  assumes spec: "\<And>n buf d. d + room \<le> length buf \<Longrightarrow> \<exists>buf'. conv buf d n = Some (buf', length (numeral_text b (unat n)))
       \<and> wrote room d (numeral_text b (unat n)) buf buf'"
    and room: "d + 1 + room \<le> length buf"
  shows "\<exists>buf'. (if 0 \<le> sint n then conv buf d n
      else do { buf \<leftarrow> store buf d 0x2D; (buf, len) \<leftarrow> conv buf (d + 1) (- n); Some (buf, 1 + len) })
       = Some (buf', length (int_text b (sint n))) \<and> wrote (1 + room) d (int_text b (sint n)) buf buf'"
proof (cases "0 \<le> sint n")
  case True
  then have "int_text b (sint n) = numeral_text b (unat n)"
    by (simp add: int_text_def unat_sint)
  with True spec [of d buf n] room show ?thesis
    using wrote_mono [of room d _ buf _ "1 + room"] by fastforce
next
  case False
  have t: "int_text b (sint n) = 0x2D # numeral_text b (unat (- n))"
    using False unat_neg_sint [of n] by (simp add: int_text_def)
  obtain buf' where "conv (buf[d := 0x2D]) (d + 1) (- n) = Some (buf', length (numeral_text b (unat (- n))))"
    "wrote room (d + 1) (numeral_text b (unat (- n))) (buf[d := 0x2D]) buf'"
    using spec [of "d + 1" "buf[d := 0x2D]" "- n"] room by auto
  with False t room show ?thesis
    using wrote_sign [of room d "numeral_text b (unat (- n))" buf "0x2D" buf'] by (simp add: mem_rules)
qed

lemma i32toa_radix_spec:
  assumes "2 \<le> unat base" "unat base \<le> 36" "d + 34 \<le> length buf"
  shows "\<exists>buf'. i32toa_radix buf d n base = Some (buf', length (int_text (unat base) (sint n)))
     \<and> wrote 34 d (int_text (unat base) (sint n)) buf buf'"
  using signed_text [where conv = "\<lambda>buf d n. u32toa_radix buf d n base",
      OF u32toa_radix_spec [OF assms(1,2)], of d buf n] assms(3)
  by (simp add: i32toa_radix_def)

lemma i64toa_radix_spec:
  assumes "2 \<le> unat base" "unat base \<le> 36" "d + 66 \<le> length buf"
  shows "\<exists>buf'. i64toa_radix buf d n base = Some (buf', length (int_text (unat base) (sint n)))
     \<and> wrote 66 d (int_text (unat base) (sint n)) buf buf'"
  using signed_text [where conv = "\<lambda>buf d n. u64toa_radix buf d n base",
      OF u64toa_radix_spec [OF assms(1,2)], of d buf n] assms(3)
  by (simp add: i64toa_radix_def)

text \<open>
  C30: \<^verbatim>\<open>i32toa\<close> and \<^verbatim>\<open>i64toa\<close> write the decimal text of every integer of their width, the most
  negative one included, with its terminator, within the 12 or 22 bytes their parameter
  declares, and return its length.
\<close>

theorem itoa_decimal:
  "d + 12 \<le> length bufn \<and> d + 22 \<le> length bufm \<Longrightarrow>
     (\<exists>buf'. i32toa bufn d n = Some (buf', length (int_text 10 (sint n)))
        \<and> wrote 12 d (int_text 10 (sint n)) bufn buf')
     \<and> (\<exists>buf'. i64toa bufm d m = Some (buf', length (int_text 10 (sint m)))
        \<and> wrote 22 d (int_text 10 (sint m)) bufm buf')"
  using signed_text [OF u32toa_spec, of d bufn n] signed_text [OF u64toa_spec, of d bufm m]
  by (simp add: i32toa_def i64toa_def)

theorem itoa_decimal_witness:
  "\<exists>buf'. i32toa (replicate 12 7) 0 0xFFFFFF33 = Some (buf', Suc (Suc (Suc (Suc 0))))
     \<and> wrote 12 0 [0x2D, 0x32, 0x30, 0x35] (replicate 12 7) buf'"
proof -
  have "int_text 10 (sint (0xFFFFFF33 :: u32)) = [0x2D, 0x32, 0x30, 0x35]"
    by code_simp
  then show ?thesis
    using itoa_decimal [where d = 0 and n = "0xFFFFFF33" and m = 0 and
        bufn = "replicate 12 7" and bufm = "replicate 22 7"] by simp
qed

text \<open>
  C31: In every radix from 2 to 36, \<^verbatim>\<open>i32toa_radix\<close> and \<^verbatim>\<open>i64toa_radix\<close> return the length of the numeral
  and write it with its terminator within the 34 or 66 bytes their parameter declares; neither
  the shift nor the division variant miscounts its digits, and the product that counts them
  does not wrap around.
\<close>

theorem itoa_radix:
  assumes "2 \<le> unat base" and "unat base \<le> 36" and "d + 34 \<le> length bufn" and "d + 66 \<le> length bufm"
  shows "(\<exists>buf'. i32toa_radix bufn d n base = Some (buf', length (int_text (unat base) (sint n)))
        \<and> wrote 34 d (int_text (unat base) (sint n)) bufn buf')
     \<and> (\<exists>buf'. i64toa_radix bufm d m base = Some (buf', length (int_text (unat base) (sint m)))
        \<and> wrote 66 d (int_text (unat base) (sint m)) bufm buf')"
  by (rule conjI [OF i32toa_radix_spec [OF assms(1-3)] i64toa_radix_spec [OF assms(1,2,4)]])

theorem itoa_radix_witness:
  "\<exists>buf'. i32toa_radix (replicate 40 7) 1 0xFFFFFF01 16 = Some (buf', Suc (Suc (Suc 0)))
     \<and> wrote 34 1 [0x2D, 0x66, 0x66] (replicate 40 7) buf'"
proof -
  have "int_text (unat (16 :: u32)) (sint (0xFFFFFF01 :: u32)) = [0x2D, 0x66, 0x66]"
    by code_simp
  then show ?thesis
    using itoa_radix [where d = 1 and base = 16 and n = "0xFFFFFF01" and m = 0 and
        bufn = "replicate 40 7" and bufm = "replicate 70 7"] by simp
qed

end
