(* ===== verification/Sort.thy ===== *)
theory Sort
  imports Prelude "HOL-Library.Multiset"
begin

text \<open>
  The sorting routine \<^verbatim>\<open>rqsort\<close> of \<^verbatim>\<open>cutils.c\<close> with its helpers. The array is a list of
  elements of \<open>size\<close> bytes each, so a pointer into it is the index of an element, and every
  access is checked. The comparison function is an argument: nothing is assumed of it for
  safety, and the locale \<open>comparator\<close> states the contract under which the result is sorted.
\<close>

section \<open>Definitions\<close>

type_synonym 'a cmp_f = "'a \<Rightarrow> 'a \<Rightarrow> int"

text \<open>\<open>swap(basep + i, basep + j, size)\<close> and \<open>cmp(basep + i, basep + j, opaque)\<close>.\<close>

definition exch :: "'a list \<Rightarrow> nat \<Rightarrow> nat \<Rightarrow> 'a list option" where
  "exch a i j = do { x \<leftarrow> load a i; y \<leftarrow> load a j; a \<leftarrow> store a i y; store a j x }"

definition cmp_at :: "'a cmp_f \<Rightarrow> 'a list \<Rightarrow> nat \<Rightarrow> nat \<Rightarrow> int option" where
  "cmp_at cmp a i j = do { x \<leftarrow> load a i; y \<leftarrow> load a j; Some (cmp x y) }"

subsection \<open>heapsortx\<close>

text \<open>The loop that sinks element \<open>r\<close> of the heap of \<open>n\<close> elements at \<open>b\<close>.\<close>

function sift :: "'a cmp_f \<Rightarrow> 'a list \<Rightarrow> nat \<Rightarrow> nat \<Rightarrow> nat \<Rightarrow> 'a list option" where
  "sift cmp a b r n =
     (if r * 2 + 1 < n then
        do { c \<leftarrow> (if r * 2 + 1 < n - 1
                  then do { k \<leftarrow> cmp_at cmp a (b + (r * 2 + 1)) (b + (r * 2 + 1) + 1);
                            Some (if k \<le> 0 then Suc 0 else 0) }
                  else Some 0);
             k \<leftarrow> cmp_at cmp a (b + r) (b + (r * 2 + 1 + c));
             if k > 0 then Some a
             else do { a \<leftarrow> exch a (b + r) (b + (r * 2 + 1 + c));
                       sift cmp a b (r * 2 + 1 + c) n } }
      else Some a)"
  by pat_completeness auto
termination
  by (relation "measure (\<lambda>(cmp, a, b, r, n). n - r)") auto

primrec heap_build :: "'a cmp_f \<Rightarrow> 'a list \<Rightarrow> nat \<Rightarrow> nat \<Rightarrow> nat \<Rightarrow> 'a list option" where
  "heap_build cmp a b n 0 = Some a"
| "heap_build cmp a b n (Suc i) = do { a \<leftarrow> sift cmp a b i n; heap_build cmp a b n i }"

primrec heap_pop :: "'a cmp_f \<Rightarrow> 'a list \<Rightarrow> nat \<Rightarrow> nat \<Rightarrow> 'a list option" where
  "heap_pop cmp a b 0 = Some a"
| "heap_pop cmp a b (Suc i) =
     do { a \<leftarrow> exch a b (b + Suc i); a \<leftarrow> sift cmp a b 0 (Suc i); heap_pop cmp a b i }"

definition heapsortx :: "'a cmp_f \<Rightarrow> 'a list \<Rightarrow> nat \<Rightarrow> nat \<Rightarrow> 'a list option" where
  "heapsortx cmp a b nmemb =
     (if 1 < nmemb then do { a \<leftarrow> heap_build cmp a b nmemb (nmemb div 2); heap_pop cmp a b (nmemb - 1) }
      else Some a)"

subsection \<open>rqsort\<close>

definition med3 :: "'a cmp_f \<Rightarrow> 'a list \<Rightarrow> nat \<Rightarrow> nat \<Rightarrow> nat \<Rightarrow> nat option" where
  "med3 cmp l a b c =
     do { ab \<leftarrow> cmp_at cmp l a b;
          if ab < 0 then
            do { bc \<leftarrow> cmp_at cmp l b c;
                 if bc < 0 then Some b
                 else do { ac \<leftarrow> cmp_at cmp l a c; Some (if ac < 0 then c else a) } }
          else
            do { bc \<leftarrow> cmp_at cmp l b c;
                 if bc > 0 then Some b
                 else do { ac \<leftarrow> cmp_at cmp l a c; Some (if ac < 0 then a else c) } } }"

text \<open>The two scans of the partition; \<open>i\<close>, \<open>lt\<close> and \<open>gt\<close> count what \<open>pi\<close>, \<open>plt\<close> and \<open>pgt\<close> point at.\<close>

function scan_up :: "'a cmp_f \<Rightarrow> 'a list \<Rightarrow> nat \<Rightarrow> nat \<Rightarrow> nat \<Rightarrow> nat \<Rightarrow> nat \<Rightarrow> nat
    \<Rightarrow> ('a list \<times> nat \<times> nat \<times> nat \<times> nat) option" where
  "scan_up cmp a ptr pi pj plt i lt =
     (if pi < pj then
        do { c \<leftarrow> cmp_at cmp a ptr pi;
             if c \<ge> 0 then
               if c = 0
               then do { a \<leftarrow> exch a plt pi; scan_up cmp a ptr (pi + 1) pj (plt + 1) (i + 1) (lt + 1) }
               else scan_up cmp a ptr (pi + 1) pj plt (i + 1) lt
             else Some (a, pi, plt, i, lt) }
      else Some (a, pi, plt, i, lt))"
  by pat_completeness auto
termination
  by (relation "measure (\<lambda>(cmp, a, ptr, pi, pj, r). pj - pi)") auto

function scan_down :: "'a cmp_f \<Rightarrow> 'a list \<Rightarrow> nat \<Rightarrow> nat \<Rightarrow> nat \<Rightarrow> nat \<Rightarrow> nat
    \<Rightarrow> ('a list \<times> nat \<times> nat \<times> nat) option" where
  "scan_down cmp a ptr pi pj pgt gt =
     (if pi < pj - 1 then
        do { c \<leftarrow> cmp_at cmp a ptr (pj - 1);
             if c \<le> 0 then
               if c = 0
               then do { a \<leftarrow> exch a (pgt - 1) (pj - 1);
                         scan_down cmp a ptr pi (pj - 1) (pgt - 1) (gt - 1) }
               else scan_down cmp a ptr pi (pj - 1) pgt gt
             else Some (a, pj - 1, pgt, gt) }
      else Some (a, pj - 1, pgt, gt))"
  by pat_completeness auto
termination
  by (relation "measure (\<lambda>(cmp, a, ptr, pi, pj, r). pj - pi)") auto

text \<open>The loop \<open>for (;;)\<close> around them.\<close>

partial_function (option) partition_loop :: "'a cmp_f \<Rightarrow> 'a list \<Rightarrow> nat \<Rightarrow> nat \<Rightarrow> nat \<Rightarrow> nat \<Rightarrow> nat \<Rightarrow> nat
    \<Rightarrow> nat \<Rightarrow> nat \<Rightarrow> ('a list \<times> nat \<times> nat \<times> nat \<times> nat \<times> nat \<times> nat) option" where
  "partition_loop cmp a ptr pi pj plt pgt i lt gt =
     do { (a, pi, plt, i, lt) \<leftarrow> scan_up cmp a ptr pi pj plt i lt;
          (a, pj, pgt, gt) \<leftarrow> scan_down cmp a ptr pi pj pgt gt;
          if pj \<le> pi then Some (a, pi, plt, pgt, i, lt, gt)
          else do { a \<leftarrow> exch a pi pj;
                    partition_loop cmp a ptr (pi + 1) pj plt pgt (i + 1) lt gt } }"

text \<open>\<open>swap_block\<close> exchanges two blocks of \<open>n\<close> elements.\<close>

primrec swap_block :: "'a list \<Rightarrow> nat \<Rightarrow> nat \<Rightarrow> nat \<Rightarrow> 'a list option" where
  "swap_block a p q 0 = Some a"
| "swap_block a p q (Suc n) = do { a \<leftarrow> exch a p q; swap_block a (p + 1) (q + 1) n }"

text \<open>
  One round of \<open>while (nmemb > 6)\<close> after the depth check: pivot, partition, and the two block
  exchanges. The result is the array with the new \<open>lt\<close>, \<open>gt\<close> and \<open>pgt\<close>.
\<close>

definition partition_round :: "'a cmp_f \<Rightarrow> 'a list \<Rightarrow> nat \<Rightarrow> nat \<Rightarrow> ('a list \<times> nat \<times> nat \<times> nat) option" where
  "partition_round cmp a ptr nmemb =
     (let m4 = nmemb div 4; ptop = ptr + nmemb in
      do { m \<leftarrow> med3 cmp a (ptr + m4) (ptr + 2 * m4) (ptr + 3 * m4);
           a \<leftarrow> exch a ptr m;
           (a, pi, plt, pgt, i, lt, gt) \<leftarrow> partition_loop cmp a ptr (ptr + 1) ptop (ptr + 1) ptop 1 1 nmemb;
           let span = plt - ptr; span2 = pi - plt; lt = i - lt;
               span = (if span2 < span then span2 else span) in
           do { a \<leftarrow> swap_block a ptr (pi - span) span;
                let span = ptop - pgt; span2 = pgt - pi; pgt = ptop - span2; gt = nmemb - (gt - i);
                    span = (if span2 < span then span2 else span) in
                do { a \<leftarrow> swap_block a pi (ptop - span) span;
                     Some (a, lt, gt, pgt) } } })"

type_synonym frame = "nat \<times> nat \<times> nat"

text \<open>\<open>struct { base; count; depth } stack[50]\<close>: a push beyond it is a fault.\<close>

definition push_frame :: "frame list \<Rightarrow> frame \<Rightarrow> frame list option" where
  "push_frame sp f = (if length sp < 50 then Some (f # sp) else None)"

function quick_loop :: "'a cmp_f \<Rightarrow> 'a list \<Rightarrow> nat \<Rightarrow> nat \<Rightarrow> nat \<Rightarrow> frame list
    \<Rightarrow> ('a list \<times> nat \<times> nat \<times> frame list) option" where
  "quick_loop cmp a ptr nmemb depth sp =
     (if 6 < nmemb then
        if 50 < depth + 1
        then do { a \<leftarrow> heapsortx cmp a ptr nmemb; Some (a, ptr, 0, sp) }
        else
          do { (a, lt, gt, pgt) \<leftarrow> partition_round cmp a ptr nmemb;
               if nmemb - gt < lt
               then do { sp \<leftarrow> push_frame sp (ptr, lt, depth + 1);
                         quick_loop cmp a pgt (nmemb - gt) (depth + 1) sp }
               else do { sp \<leftarrow> push_frame sp (pgt, nmemb - gt, depth + 1);
                         quick_loop cmp a ptr lt (depth + 1) sp } }
      else Some (a, ptr, nmemb, sp))"
  by pat_completeness auto
termination
  by (relation "measure (\<lambda>(cmp, a, ptr, nmemb, depth, sp). 50 - depth)") auto

function insert_back :: "'a cmp_f \<Rightarrow> 'a list \<Rightarrow> nat \<Rightarrow> nat \<Rightarrow> 'a list option" where
  "insert_back cmp a ptr pj =
     (if ptr < pj then
        do { k \<leftarrow> cmp_at cmp a (pj - 1) pj;
             if k > 0 then do { a \<leftarrow> exch a pj (pj - 1); insert_back cmp a ptr (pj - 1) }
             else Some a }
      else Some a)"
  by pat_completeness auto
termination
  by (relation "measure (\<lambda>(cmp, a, ptr, pj). pj)") auto

function insertion_sort :: "'a cmp_f \<Rightarrow> 'a list \<Rightarrow> nat \<Rightarrow> nat \<Rightarrow> nat \<Rightarrow> 'a list option" where
  "insertion_sort cmp a ptr pi ptop =
     (if pi < ptop then do { a \<leftarrow> insert_back cmp a ptr pi; insertion_sort cmp a ptr (pi + 1) ptop }
      else Some a)"
  by pat_completeness auto
termination
  by (relation "measure (\<lambda>(cmp, a, ptr, pi, ptop). ptop - pi)") auto

partial_function (option) rqsort_loop :: "'a cmp_f \<Rightarrow> 'a list \<Rightarrow> frame list \<Rightarrow> 'a list option" where
  "rqsort_loop cmp a sp =
     (case sp of
        [] \<Rightarrow> Some a
      | (ptr, nmemb, depth) # sp \<Rightarrow>
          do { (a, ptr, nmemb, sp) \<leftarrow> quick_loop cmp a ptr nmemb depth sp;
               a \<leftarrow> insertion_sort cmp a ptr (ptr + 1) (ptr + nmemb);
               rqsort_loop cmp a sp })"

definition rqsort :: "'a cmp_f \<Rightarrow> 'a list \<Rightarrow> nat \<Rightarrow> nat \<Rightarrow> 'a list option" where
  "rqsort cmp a nmemb sz =
     (if nmemb < 2 \<or> sz = 0 then Some a else rqsort_loop cmp a [(0, nmemb, 0)])"

declare partition_loop.simps [code] rqsort_loop.simps [code]
declare sift.simps [simp del] scan_up.simps [simp del] scan_down.simps [simp del]
  quick_loop.simps [simp del] insert_back.simps [simp del] insertion_sort.simps [simp del]

section \<open>Rearrangements of a part of an array\<close>

text \<open>\<open>a'\<close> rearranges the elements of \<open>a\<close> at the positions from \<open>p\<close> up to \<open>q\<close>.\<close>

definition perm_on :: "nat \<Rightarrow> nat \<Rightarrow> 'a list \<Rightarrow> 'a list \<Rightarrow> bool" where
  "perm_on p q a a' \<longleftrightarrow>
     mset a' = mset a \<and> (\<forall>k < length a. k < p \<or> q \<le> k \<longrightarrow> a' ! k = a ! k)"

lemma perm_on_length: "perm_on p q a a' \<Longrightarrow> length a' = length a"
  unfolding perm_on_def by (metis size_mset)

lemma perm_on_refl [simp, intro]: "perm_on p q a a"
  by (simp add: perm_on_def)

lemma perm_on_trans: "perm_on p q a a' \<Longrightarrow> perm_on p q a' a'' \<Longrightarrow> perm_on p q a a''"
  using perm_on_length [of p q a a'] by (simp add: perm_on_def)

lemma perm_on_mono: "perm_on p q a a' \<Longrightarrow> p' \<le> p \<Longrightarrow> q \<le> q' \<Longrightarrow> perm_on p' q' a a'"
  by (auto simp: perm_on_def)

lemma perm_on_outside: "perm_on p q a a' \<Longrightarrow> k < p \<or> q \<le> k \<Longrightarrow> k < length a \<Longrightarrow> a' ! k = a ! k"
  by (auto simp: perm_on_def)

lemma exch_in:
  "i < length a \<Longrightarrow> j < length a \<Longrightarrow> exch a i j = Some (a[i := a ! j, j := a ! i])"
  by (simp add: exch_def mem_rules)

lemma exch_perm:
  assumes "p \<le> i" "i < q" "p \<le> j" "j < q" "q \<le> length a"
  shows "perm_on p q a (a[i := a ! j, j := a ! i])"
  using assms by (auto simp: perm_on_def mset_swap nth_list_update)

lemma cmp_at_in: "i < length a \<Longrightarrow> j < length a \<Longrightarrow> cmp_at cmp a i j = Some (cmp (a ! i) (a ! j))"
  by (simp add: cmp_at_def mem_rules)

lemma perm_on_split:
  assumes "perm_on p q a a'" "p \<le> q" "q \<le> length a"
  shows "take p a' = take p a" "drop q a' = drop q a" "mset (drop p (take q a')) = mset (drop p (take q a))"
proof -
  have len: "length a' = length a"
    using assms(1) by (rule perm_on_length)
  show t: "take p a' = take p a" and d: "drop q a' = drop q a"
    using assms len by (auto intro!: nth_equalityI simp: perm_on_def)
  have split: "mset xs = mset (take p xs) + mset (drop p (take q xs)) + mset (drop q xs)" for xs :: "'a list"
    using assms(2) by (metis append_take_drop_id min.absorb1 mset_append take_take)
  show "mset (drop p (take q a')) = mset (drop p (take q a))"
    using split [of a] split [of a'] t d assms(1) by (simp add: perm_on_def)
qed

lemma perm_on_elem:
  assumes "perm_on p q a a'" "q \<le> length a" "p \<le> k" "k < q"
  obtains k' where "p \<le> k'" "k' < q" "a' ! k = a ! k'"
proof -
  have len: "length a' = length a"
    using assms(1) by (rule perm_on_length)
  have "a' ! k = drop p (take q a') ! (k - p)"
    using assms len by simp
  also have "\<dots> \<in> set (drop p (take q a'))"
    using assms len by (intro nth_mem) simp
  also have "\<dots> = set (drop p (take q a))"
    using perm_on_split(3) [OF assms(1)] assms by (metis less_imp_le le_trans set_mset_mset)
  finally obtain m where "m < q - p" "a' ! k = a ! (p + m)"
    using assms by (auto simp: in_set_conv_nth)
  then show thesis
    by (intro that [of "p + m"]) auto
qed

section \<open>Safety for every comparison function\<close>

subsection \<open>heapsortx\<close>

text \<open>One step of the sinking loop: the child \<open>c\<close> that is not smaller than its sibling moves up.\<close>

lemma sift_step:
  assumes "2 * r + 1 < n" "b + n \<le> length a"
  obtains c where "c = 2 * r + 1 \<or> c = 2 * r + 2" "c < n"
    "c = 2 * r + 1 \<and> 2 * r + 2 < n \<longrightarrow> 0 < cmp (a ! (b + (2 * r + 1))) (a ! (b + (2 * r + 2)))"
    "c = 2 * r + 2 \<longrightarrow> cmp (a ! (b + (2 * r + 1))) (a ! (b + (2 * r + 2))) \<le> 0"
    "sift cmp a b r n = (if 0 < cmp (a ! (b + r)) (a ! (b + c)) then Some a
       else sift cmp (a[b + r := a ! (b + c), b + c := a ! (b + r)]) b c n)"
proof -
  have comm: "r * 2 = 2 * r"
    by simp
  show thesis
  proof (cases "2 * r + 2 < n \<and> cmp (a ! (b + (2 * r + 1))) (a ! (b + (2 * r + 2))) \<le> 0")
    case True
    then have "2 * r + 1 < n - 1"
      by linarith
    then have "sift cmp a b r n = (if 0 < cmp (a ! (b + r)) (a ! (b + (2 * r + 2))) then Some a
       else sift cmp (a[b + r := a ! (b + (2 * r + 2)), b + (2 * r + 2) := a ! (b + r)]) b (2 * r + 2) n)"
      using True assms by (subst sift.simps) (simp add: comm cmp_at_in exch_in)
    with True show thesis
      by (intro that [of "2 * r + 2"]) simp_all
  next
    case False
    then have "sift cmp a b r n = (if 0 < cmp (a ! (b + r)) (a ! (b + (2 * r + 1))) then Some a
       else sift cmp (a[b + r := a ! (b + (2 * r + 1)), b + (2 * r + 1) := a ! (b + r)]) b (2 * r + 1) n)"
      using assms by (subst sift.simps) (auto simp: comm cmp_at_in exch_in)
    with False assms show thesis
      by (intro that [of "2 * r + 1"]) auto
  qed
qed

lemma sift_leaf: "\<not> 2 * r + 1 < n \<Longrightarrow> sift cmp a b r n = Some a"
  by (subst sift.simps) (simp add: mult.commute)

lemma sift_safe:
  assumes "p \<le> b" "b + n \<le> q" "q \<le> length a" "r < n"
  shows "\<exists>a'. sift cmp a b r n = Some a' \<and> perm_on p q a a'"
  using assms
proof (induction "n - r" arbitrary: a r rule: less_induct)
  case less
  show ?case
  proof (cases "2 * r + 1 < n")
    case True
    then obtain c where c: "c = 2 * r + 1 \<or> c = 2 * r + 2" "c < n"
      and step: "sift cmp a b r n = (if 0 < cmp (a ! (b + r)) (a ! (b + c)) then Some a
       else sift cmp (a[b + r := a ! (b + c), b + c := a ! (b + r)]) b c n)"
      by (rule sift_step [where cmp = cmp]) (use less.prems in auto)
    let ?a = "a[b + r := a ! (b + c), b + c := a ! (b + r)]"
    have perm: "perm_on p q a ?a"
      using c less.prems by (intro exch_perm) auto
    have "n - c < n - r"
      using c by linarith
    then obtain a' where "sift cmp ?a b c n = Some a'" "perm_on p q ?a a'"
      using less.hyps [of c ?a] c less.prems by auto
    with step perm show ?thesis
      by (auto intro: perm_on_trans)
  qed (auto simp: sift_leaf)
qed

lemma heap_build_safe:
  assumes "p \<le> b" "b + n \<le> q" "q \<le> length a" "i \<le> n"
  shows "\<exists>a'. heap_build cmp a b n i = Some a' \<and> perm_on p q a a'"
  using assms
proof (induction i arbitrary: a)
  case (Suc i)
  obtain a1 where a1: "sift cmp a b i n = Some a1" "perm_on p q a a1"
    using sift_safe [of p b n q a i cmp] Suc.prems by auto
  then obtain a' where "heap_build cmp a1 b n i = Some a'" "perm_on p q a1 a'"
    using Suc.IH [of a1] Suc.prems perm_on_length [OF a1(2)] by auto
  with a1 show ?case
    by (auto intro: perm_on_trans)
qed auto

lemma heap_pop_safe:
  assumes "p \<le> b" "b + i < q" "q \<le> length a"
  shows "\<exists>a'. heap_pop cmp a b i = Some a' \<and> perm_on p q a a'"
  using assms
proof (induction i arbitrary: a)
  case (Suc i)
  let ?a = "a[b := a ! (b + Suc i), b + Suc i := a ! b]"
  have e: "exch a b (b + Suc i) = Some ?a" "perm_on p q a ?a"
    using Suc.prems by (auto intro!: exch_in exch_perm)
  obtain a1 where a1: "sift cmp ?a b 0 (Suc i) = Some a1" "perm_on p q ?a a1"
    using sift_safe [of p b "Suc i" q ?a 0 cmp] Suc.prems by auto
  then obtain a' where "heap_pop cmp a1 b i = Some a'" "perm_on p q a1 a'"
    using Suc.IH [of a1] Suc.prems perm_on_length [OF a1(2)] by auto
  with a1 e show ?case
    by (auto intro: perm_on_trans)
qed auto

lemma heapsortx_safe:
  assumes "p \<le> b" "b + n \<le> q" "q \<le> length a"
  shows "\<exists>a'. heapsortx cmp a b n = Some a' \<and> perm_on p q a a'"
proof (cases "1 < n")
  case True
  obtain a1 where a1: "heap_build cmp a b n (n div 2) = Some a1" "perm_on p q a a1"
    using heap_build_safe [OF assms, of "n div 2" cmp] by auto
  moreover have "b + (n - 1) < q" "q \<le> length a1"
    using assms True perm_on_length [OF a1(2)] by auto
  then obtain a' where "heap_pop cmp a1 b (n - 1) = Some a'" "perm_on p q a1 a'"
    using heap_pop_safe [of p b "n - 1" q a1 cmp] assms(1) by blast
  ultimately show ?thesis
    using True by (auto simp: heapsortx_def intro: perm_on_trans)
qed (auto simp: heapsortx_def)


subsection \<open>The partition\<close>

lemma med3_safe:
  assumes "i < length l" "j < length l" "k < length l"
  shows "\<exists>m. med3 cmp l i j k = Some m \<and> (m = i \<or> m = j \<or> m = k)"
  using assms by (simp add: med3_def cmp_at_in)

text \<open>
  The state of a partition of the \<open>n\<close> elements at \<open>p\<close>, with pivot \<open>v\<close> at \<open>p\<close>: what is known of
  the four parts, in terms of the calls \<open>cmp(ptr, _)\<close> alone.
\<close>

definition parts :: "'a cmp_f \<Rightarrow> 'a list \<Rightarrow> nat \<Rightarrow> nat \<Rightarrow> nat \<Rightarrow> nat \<Rightarrow> nat \<Rightarrow> nat \<Rightarrow> bool" where
  "parts cmp a p n lt i pj gt \<longleftrightarrow>
     1 \<le> lt \<and> lt \<le> i \<and> gt \<le> n \<and> p + n \<le> length a \<and> pj \<le> p + gt
     \<and> (\<forall>k. p \<le> k \<and> k < p + lt \<longrightarrow> k = p \<or> cmp (a ! p) (a ! k) = 0)
     \<and> (\<forall>k. p + lt \<le> k \<and> k < p + i \<longrightarrow> 0 < cmp (a ! p) (a ! k))
     \<and> (\<forall>k. pj \<le> k \<and> k < p + gt \<longrightarrow> cmp (a ! p) (a ! k) < 0)
     \<and> (\<forall>k. p + gt \<le> k \<and> k < p + n \<longrightarrow> cmp (a ! p) (a ! k) = 0)"

lemma scan_up_spec:
  assumes "parts cmp a p n lt i pj gt" "p + i \<le> pj"
  shows "\<exists>a' lt' i'. scan_up cmp a p (p + i) pj (p + lt) i lt = Some (a', p + i', p + lt', i', lt')
     \<and> perm_on p (p + n) a a' \<and> parts cmp a' p n lt' i' pj gt \<and> i \<le> i' \<and> p + i' \<le> pj
     \<and> (p + i' = pj \<or> cmp (a' ! p) (a' ! (p + i')) < 0)"
  using assms
proof (induction "pj - (p + i)" arbitrary: a lt i rule: less_induct)
  case less
  note unfold = scan_up.simps [of cmp a p "p + i" pj "p + lt" i lt]
  have len: "p + i < length a" "p < length a" "p + lt \<le> p + i" "p + i < p + n" "p + n \<le> length a" if "p + i < pj"
    using less.prems that by (auto simp: parts_def)
  show ?case
  proof (cases "p + i < pj \<and> 0 \<le> cmp (a ! p) (a ! (p + i))")
    case False
    then show ?thesis
      using less.prems len unfold by (auto simp: cmp_at_in)
  next
    case True
    note len = len [OF conjunct1 [OF True]]
    show ?thesis
    proof (cases "cmp (a ! p) (a ! (p + i)) = 0")
      case False
      then have "parts cmp a p n lt (i + 1) pj gt"
        using less.prems True by (auto simp: parts_def less_Suc_eq)
      then show ?thesis
        using True False len unfold less.hyps [of "i + 1" a lt] by (fastforce simp: cmp_at_in)
    next
      case eq: True
      let ?a = "a[p + lt := a ! (p + i), p + i := a ! (p + lt)]"
      have "parts cmp ?a p n (lt + 1) (i + 1) pj gt"
        using less.prems True eq len by (auto simp: parts_def less_Suc_eq nth_list_update)
      moreover have "perm_on p (p + n) a ?a"
        using less.prems len by (intro exch_perm) (auto simp: parts_def)
      ultimately show ?thesis
        using True eq len unfold less.hyps [of "i + 1" ?a "lt + 1"]
        by (fastforce simp: cmp_at_in exch_in intro: perm_on_trans)
    qed
  qed
qed


lemma parts_lower:
  assumes "parts cmp a p n lt i (Suc j) gt" "cmp (a ! p) (a ! j) < 0"
  shows "parts cmp a p n lt i j gt"
proof -
  have "cmp (a ! p) (a ! k) < 0" if "j \<le> k" "k < p + gt" for k
    using assms that by (cases "k = j") (auto simp: parts_def)
  with assms(1) show ?thesis
    unfolding parts_def by auto
qed

lemma parts_lower_eq:
  assumes "parts cmp a p n lt i (Suc j) gt" "cmp (a ! p) (a ! j) = 0" "p + i < j"
  shows "parts cmp (a[p + gt - 1 := a ! j, j := a ! (p + gt - 1)]) p n lt i j (gt - 1)"
proof -
  let ?a = "a[p + gt - 1 := a ! j, j := a ! (p + gt - 1)]"
  have len: "p + n \<le> length a" "0 < lt" "lt \<le> i" "j < p + gt" "gt \<le> n"
    using assms(1) by (auto simp: parts_def)
  have keep: "?a ! k = a ! k" if "k < j" for k
    using that assms(3) len by (simp add: nth_list_update)
  have high: "cmp (a ! p) (?a ! k) < 0" if "j \<le> k" "k < p + (gt - 1)" for k
    using that assms len by (auto simp: nth_list_update parts_def)
  have eq: "cmp (a ! p) (?a ! k) = 0" if "p + (gt - 1) \<le> k" "k < p + n" for k
    using that assms len by (auto simp: nth_list_update parts_def)
  show ?thesis
    using assms(1,3) len high eq keep unfolding parts_def by auto
qed

lemma scan_down_spec:
  assumes "parts cmp a p n lt i pj gt" "p + i \<le> pj"
    "p + i = pj \<or> cmp (a ! p) (a ! (p + i)) < 0"
  shows "\<exists>a' pj' gt'. scan_down cmp a p (p + i) pj (p + gt) gt = Some (a', pj', p + gt', gt')
     \<and> perm_on p (p + n) a a' \<and> pj' < pj
     \<and> (if pj' \<le> p + i then parts cmp a' p n lt i (p + i) gt'
        else parts cmp a' p n lt i (pj' + 1) gt' \<and> 0 < cmp (a' ! p) (a' ! pj')
          \<and> cmp (a' ! p) (a' ! (p + i)) < 0)"
  using assms
proof (induction "pj - (p + i)" arbitrary: a pj gt rule: less_induct)
  case less
  note unfold = scan_down.simps [of cmp a p "p + i" pj "p + gt" gt]
  let ?post = "\<lambda>a' pj' gt'. if pj' \<le> p + i then parts cmp a' p n lt i (p + i) gt'
        else parts cmp a' p n lt i (pj' + 1) gt' \<and> 0 < cmp (a' ! p) (a' ! pj')
          \<and> cmp (a' ! p) (a' ! (p + i)) < 0"
  have pos: "0 < pj"
    using less.prems by (auto simp: parts_def)
  have len: "p + n \<le> length a" "p < p + i" "pj \<le> p + gt" "gt \<le> n"
    using less.prems by (auto simp: parts_def)
  show ?case
  proof (cases "p + i < pj - 1")
    case False
    have "parts cmp a p n lt i (p + i) gt"
    proof (cases "p + i = pj")
      case True
      with less.prems show ?thesis by simp
    next
      case neq: False
      then have "pj = Suc (p + i)"
        using False less.prems(2) by linarith
      with neq less.prems show ?thesis
        by (auto intro: parts_lower)
    qed
    with False pos less.prems show ?thesis
      using unfold by auto
  next
    case True
    let ?c = "cmp (a ! p) (a ! (pj - 1))"
    have at: "cmp_at cmp a p (pj - 1) = Some ?c"
      using True len by (intro cmp_at_in) auto
    have hyp: "pj - 1 - (p + i) < pj - (p + i)" "p + i \<le> pj - 1"
      and cond: "cmp (a ! p) (a ! (p + i)) < 0"
      using True less.prems(2,3) by auto
    consider "0 < ?c" | "?c < 0" | "?c = 0" by linarith
    then show ?thesis
    proof cases
      case 1
      then have "scan_down cmp a p (p + i) pj (p + gt) gt = Some (a, pj - 1, p + gt, gt)"
        using unfold at True by simp
      moreover have "parts cmp a p n lt i (pj - 1 + 1) gt" "cmp (a ! p) (a ! (p + i)) < 0"
        using less.prems pos True by auto
      ultimately show ?thesis
        using 1 True pos by (intro exI [of _ a] exI [of _ "pj - 1"] exI [of _ gt]) auto
    next
      case 2
      then have "parts cmp a p n lt i (pj - 1) gt"
        using less.prems(1) pos by (simp add: parts_lower)
      then have "\<exists>a' pj' gt'. scan_down cmp a p (p + i) (pj - 1) (p + gt) gt = Some (a', pj', p + gt', gt')
        \<and> perm_on p (p + n) a a' \<and> pj' < pj - 1 \<and> ?post a' pj' gt'"
        using cond by (intro less.hyps [OF hyp(1) _ hyp(2)] disjI2)
      then obtain a' pj' gt' where r: "scan_down cmp a p (p + i) (pj - 1) (p + gt) gt = Some (a', pj', p + gt', gt')"
        "perm_on p (p + n) a a'" "pj' < pj - 1" "?post a' pj' gt'"
        by blast
      moreover have "scan_down cmp a p (p + i) pj (p + gt) gt = Some (a', pj', p + gt', gt')"
        using 2 True unfold at r(1) by simp
      ultimately show ?thesis
        by (intro exI conjI) (assumption | linarith)+
    next
      case 3
      let ?a = "a[p + gt - 1 := a ! (pj - 1), pj - 1 := a ! (p + gt - 1)]"
      have ex: "exch a (p + gt - 1) (pj - 1) = Some ?a" and perm: "perm_on p (p + n) a ?a"
        using True len by (auto intro!: exch_in exch_perm)
      have "parts cmp ?a p n lt i (pj - 1) (gt - 1)"
        using less.prems(1) True 3 pos by (intro parts_lower_eq) simp_all
      moreover have "cmp (?a ! p) (?a ! (p + i)) < 0" and gt: "p + (gt - 1) = p + gt - 1"
        using True len less.prems by (auto simp: nth_list_update)
      ultimately obtain a' pj' gt' where
        "scan_down cmp ?a p (p + i) (pj - 1) (p + (gt - 1)) (gt - 1) = Some (a', pj', p + gt', gt')"
        "perm_on p (p + n) ?a a'" "pj' < pj - 1" "?post a' pj' gt'"
        using less.hyps [OF hyp(1) _ hyp(2) disjI2] by meson
      moreover have "scan_down cmp a p (p + i) pj (p + gt) gt = Some (a', pj', p + gt', gt')"
        using 3 True unfold at ex gt calculation(1) by simp
      ultimately show ?thesis
        using perm_on_trans [OF perm] by (intro exI conjI) (assumption | linarith | blast)+
    qed
  qed
qed

lemma partition_loop_spec:
  assumes "parts cmp a p n lt i pj gt" "p + i \<le> pj"
  shows "\<exists>a' lt' i' gt'. partition_loop cmp a p (p + i) pj (p + lt) (p + gt) i lt gt
       = Some (a', p + i', p + lt', p + gt', i', lt', gt')
     \<and> perm_on p (p + n) a a' \<and> parts cmp a' p n lt' i' (p + i') gt'"
  using assms
proof (induction "pj - (p + i)" arbitrary: a lt i pj gt rule: less_induct)
  case less
  obtain a1 lt1 i1 where up: "scan_up cmp a p (p + i) pj (p + lt) i lt = Some (a1, p + i1, p + lt1, i1, lt1)"
    "perm_on p (p + n) a a1" "parts cmp a1 p n lt1 i1 pj gt" "i \<le> i1" "p + i1 \<le> pj"
    "p + i1 = pj \<or> cmp (a1 ! p) (a1 ! (p + i1)) < 0"
    using scan_up_spec [OF less.prems] by blast
  obtain a2 pj2 gt2 where dn: "scan_down cmp a1 p (p + i1) pj (p + gt) gt = Some (a2, pj2, p + gt2, gt2)"
    "perm_on p (p + n) a1 a2" "pj2 < pj"
    and post: "if pj2 \<le> p + i1 then parts cmp a2 p n lt1 i1 (p + i1) gt2
        else parts cmp a2 p n lt1 i1 (pj2 + 1) gt2 \<and> 0 < cmp (a2 ! p) (a2 ! pj2)
          \<and> cmp (a2 ! p) (a2 ! (p + i1)) < 0"
    using scan_down_spec [OF up(3,5,6)] by blast
  have perm: "perm_on p (p + n) a a2"
    using up(2) dn(2) by (rule perm_on_trans)
  show ?case
  proof (cases "pj2 \<le> p + i1")
    case True
    then have "partition_loop cmp a p (p + i) pj (p + lt) (p + gt) i lt gt
        = Some (a2, p + i1, p + lt1, p + gt2, i1, lt1, gt2)"
      using up(1) dn(1) by (subst partition_loop.simps) simp
    with True perm post show ?thesis
      by auto
  next
    case False
    let ?a = "a2[p + i1 := a2 ! pj2, pj2 := a2 ! (p + i1)]"
    have p2: "parts cmp a2 p n lt1 i1 (pj2 + 1) gt2" "0 < cmp (a2 ! p) (a2 ! pj2)"
      "cmp (a2 ! p) (a2 ! (p + i1)) < 0"
      using False post by auto
    then have len: "p + n \<le> length a2" "pj2 < p + gt2" "gt2 \<le> n" "0 < i1"
      by (auto simp: parts_def)
    then have ex: "exch a2 (p + i1) pj2 = Some ?a" "perm_on p (p + n) a2 ?a"
      using False by (auto intro!: exch_in exch_perm)
    have parts': "parts cmp ?a p n lt1 (i1 + 1) pj2 gt2"
    proof -
      have keep: "?a ! k = a2 ! k" if "k < p + i1 \<or> pj2 < k" for k
        using that False len by (auto simp: nth_list_update)
      have "?a ! (p + i1) = a2 ! pj2" "?a ! pj2 = a2 ! (p + i1)"
        using False len by (auto simp: nth_list_update)
      moreover from this have "cmp (a2 ! p) (?a ! k) < 0" if "pj2 \<le> k" "k < p + gt2" for k
        using that p2 keep [of k] by (cases "k = pj2") (auto simp: parts_def)
      ultimately show ?thesis
        using p2 False len keep unfolding parts_def by (auto simp: less_Suc_eq)
    qed
    have "pj2 - (p + (i1 + 1)) < pj - (p + i)"
      using False up(4,5) dn(3) by linarith
    then obtain a' lt' i' gt' where "partition_loop cmp ?a p (p + (i1 + 1)) pj2 (p + lt1) (p + gt2) (i1 + 1) lt1 gt2
       = Some (a', p + i', p + lt', p + gt', i', lt', gt')"
      "perm_on p (p + n) ?a a'" "parts cmp a' p n lt' i' (p + i') gt'"
      using less.hyps [OF _ parts'] False by auto
    moreover from this have "partition_loop cmp a p (p + i) pj (p + lt) (p + gt) i lt gt
       = Some (a', p + i', p + lt', p + gt', i', lt', gt')"
      using False up(1) dn(1) ex(1) by (subst partition_loop.simps) simp
    ultimately show ?thesis
      using perm ex(2) perm_on_trans by blast
  qed
qed


lemma swap_block_spec:
  assumes "lo \<le> p" "p + n \<le> q \<or> n = 0" "q + n \<le> hi" "hi \<le> length a"
  shows "\<exists>a'. swap_block a p q n = Some a' \<and> perm_on lo hi a a'
     \<and> (\<forall>k. a' ! k = (if p \<le> k \<and> k < p + n then a ! (q + (k - p))
                      else if q \<le> k \<and> k < q + n then a ! (p + (k - q)) else a ! k))"
  using assms
proof (induction n arbitrary: a p q)
  case (Suc n)
  let ?a = "a[p := a ! q, q := a ! p]"
  have ex: "exch a p q = Some ?a" "perm_on lo hi a ?a"
    using Suc.prems by (auto intro!: exch_in exch_perm)
  obtain a' where a': "swap_block ?a (p + 1) (q + 1) n = Some a'" "perm_on lo hi ?a a'"
    and nth: "\<And>k. a' ! k = (if p + 1 \<le> k \<and> k < p + 1 + n then ?a ! (q + 1 + (k - (p + 1)))
                      else if q + 1 \<le> k \<and> k < q + 1 + n then ?a ! (p + 1 + (k - (q + 1))) else ?a ! k)"
    using Suc.IH [of "p + 1" "q + 1" ?a] Suc.prems by auto
  have "a' ! k = (if p \<le> k \<and> k < p + Suc n then a ! (q + (k - p))
      else if q \<le> k \<and> k < q + Suc n then a ! (p + (k - q)) else a ! k)" for k
  proof -
    have "q + 1 + (k - (p + 1)) = q + (k - p)" if "p < k"
      using that by simp
    moreover have "p + 1 + (k - (q + 1)) = p + (k - q)" if "q < k"
      using that by simp
    ultimately show ?thesis
      using Suc.prems unfolding nth
      by (cases "k = p"; cases "k = q") (auto simp: nth_list_update Suc_le_eq)
  qed
  with ex a' show ?case
    by (auto intro: perm_on_trans)
qed auto

text \<open>
  Exchanging the ends of two adjacent parts over the shorter of their lengths puts every element
  of the second part before every element of the first.
\<close>

lemma swap_ends:
  assumes "lo \<le> p" "p + x + y \<le> hi" "hi \<le> length a" "s = min x y"
    "\<forall>k. p \<le> k \<and> k < p + x \<longrightarrow> P (a ! k)" "\<forall>k. p + x \<le> k \<and> k < p + x + y \<longrightarrow> Q (a ! k)"
  shows "\<exists>a'. swap_block a p (p + x + y - s) s = Some a' \<and> perm_on lo hi a a'
     \<and> (\<forall>k. p \<le> k \<and> k < p + y \<longrightarrow> Q (a' ! k)) \<and> (\<forall>k. p + y \<le> k \<and> k < p + x + y \<longrightarrow> P (a' ! k))
     \<and> (\<forall>k. k < p \<or> p + x + y \<le> k \<longrightarrow> a' ! k = a ! k)"
proof -
  have "p + s \<le> p + x + y - s \<or> s = 0" "p + x + y - s + s \<le> hi"
    using assms(2,4) by (auto simp: min_def)
  then obtain a' where a': "swap_block a p (p + x + y - s) s = Some a'" "perm_on lo hi a a'"
    and nth: "\<And>k. a' ! k = (if p \<le> k \<and> k < p + s then a ! (p + x + y - s + (k - p))
        else if p + x + y - s \<le> k \<and> k < p + x + y - s + s then a ! (p + (k - (p + x + y - s))) else a ! k)"
    using swap_block_spec [of lo p s "p + x + y - s" hi a] assms(1,3) by blast
  have "Q (a' ! k)" if "p \<le> k" "k < p + y" for k
    using that assms(4-6) unfolding nth by (auto simp: min_def split: if_splits)
  moreover have "P (a' ! k)" if "p + y \<le> k" "k < p + x + y" for k
    using that assms(4) unfolding nth
    by (auto simp: min_def split: if_splits intro!: assms(5) [rule_format])
  moreover have "a' ! k = a ! k" if "k < p \<or> p + x + y \<le> k" for k
    using that assms(4) unfolding nth by (auto simp: min_def split: if_splits)
  ultimately show ?thesis
    using a' by blast
qed

definition three_parts :: "'a cmp_f \<Rightarrow> 'a \<Rightarrow> 'a list \<Rightarrow> nat \<Rightarrow> nat \<Rightarrow> nat \<Rightarrow> nat \<Rightarrow> bool" where
  "three_parts cmp v a p lt gt n \<longleftrightarrow>
     (\<forall>k. p \<le> k \<and> k < p + lt \<longrightarrow> 0 < cmp v (a ! k))
     \<and> (\<forall>k. p + lt \<le> k \<and> k < p + gt \<longrightarrow> a ! k = v \<or> cmp v (a ! k) = 0)
     \<and> (\<forall>k. p + gt \<le> k \<and> k < p + n \<longrightarrow> cmp v (a ! k) < 0)"

lemma partition_round_spec:
  assumes "6 < n" "p + n \<le> length a"
  shows "\<exists>a' lt gt v. partition_round cmp a p n = Some (a', lt, gt, p + gt)
     \<and> perm_on p (p + n) a a' \<and> lt < gt \<and> gt \<le> n \<and> three_parts cmp v a' p lt gt n"
proof -
  have "3 * (n div 4) < n"
    using assms(1) by linarith
  then obtain m where m: "med3 cmp a (p + n div 4) (p + 2 * (n div 4)) (p + 3 * (n div 4)) = Some m"
    "p \<le> m" "m < p + n"
    using med3_safe [of "p + n div 4" a "p + 2 * (n div 4)" "p + 3 * (n div 4)" cmp] assms by fastforce
  let ?a = "a[p := a ! m, m := a ! p]"
  have e: "exch a p m = Some ?a" "perm_on p (p + n) a ?a"
    using m assms by (auto intro!: exch_in exch_perm)
  have "parts cmp ?a p n 1 1 (p + n) n"
    using assms by (auto simp: parts_def)
  then obtain a1 lt i gt where a1: "partition_loop cmp ?a p (p + 1) (p + n) (p + 1) (p + n) 1 1 n
      = Some (a1, p + i, p + lt, p + gt, i, lt, gt)"
    "perm_on p (p + n) ?a a1" and parts: "parts cmp a1 p n lt i (p + i) gt"
    using partition_loop_spec [of cmp ?a p n 1 1 "p + n" n] assms by auto
  define v where "v = a1 ! p"
  define x y z w where "x = lt" and "y = i - lt" and "z = gt - i" and "w = n - gt"
  have pos: "i = x + y" "gt = x + y + z" "n = x + y + z + w" "lt = x" "1 \<le> x"
    using parts by (auto simp: parts_def x_def y_def z_def w_def)
  have len: "p + n \<le> length a1"
    using parts by (simp add: parts_def)
  let ?P = "\<lambda>u. u = v \<or> cmp v u = 0"
  obtain a2 where a2: "swap_block a1 p (p + x + y - min x y) (min x y) = Some a2" "perm_on p (p + n) a1 a2"
    "\<forall>k. p \<le> k \<and> k < p + y \<longrightarrow> 0 < cmp v (a2 ! k)" "\<forall>k. p + y \<le> k \<and> k < p + x + y \<longrightarrow> ?P (a2 ! k)"
    "\<forall>k. k < p \<or> p + x + y \<le> k \<longrightarrow> a2 ! k = a1 ! k"
    using swap_ends [of p p x y "p + n" a1 "min x y" ?P "\<lambda>u. 0 < cmp v u"] parts len pos
    by (auto simp: parts_def v_def add.assoc)
  obtain a3 where a3: "swap_block a2 (p + x + y) (p + x + y + z + w - min z w) (min z w) = Some a3"
    "perm_on p (p + n) a2 a3"
    "\<forall>k. p + x + y \<le> k \<and> k < p + x + y + w \<longrightarrow> ?P (a3 ! k)"
    "\<forall>k. p + x + y + w \<le> k \<and> k < p + x + y + z + w \<longrightarrow> cmp v (a3 ! k) < 0"
    "\<forall>k. k < p + x + y \<or> p + x + y + z + w \<le> k \<longrightarrow> a3 ! k = a2 ! k"
    using swap_ends [of p "p + x + y" z w "p + n" a2 "min z w" "\<lambda>u. cmp v u < 0" ?P] parts len pos a2(5)
      perm_on_length [OF a2(2)]
    by (auto simp: parts_def v_def add.assoc)
  have "partition_round cmp a p n = Some (a3, y, x + y + w, p + (x + y + w))"
    using m(1) e(1) a1(1) a2(1) a3(1) pos
    by (auto simp: partition_round_def Let_def min_def add.assoc split: if_splits)
  moreover have "perm_on p (p + n) a a3"
    using e(2) a1(2) a2(2) a3(2) by (blast intro: perm_on_trans)
  moreover have "three_parts cmp v a3 p y (x + y + w) n"
    unfolding three_parts_def
  proof (intro conjI allI impI)
    fix k
    show "0 < cmp v (a3 ! k)" if "p \<le> k \<and> k < p + y"
      using that a2(3) a3(5) by simp
    show "?P (a3 ! k)" if "p + y \<le> k \<and> k < p + (x + y + w)"
      using that a2(4) a3(3,5) by (cases "k < p + x + y") auto
    show "cmp v (a3 ! k) < 0" if "p + (x + y + w) \<le> k \<and> k < p + n"
      using that a3(4) pos(3) by auto
  qed
  ultimately show ?thesis
    using pos by (intro exI conjI) (assumption | linarith)+
qed


subsection \<open>The small fragments\<close>

lemma insert_back_safe:
  assumes "p \<le> lo" "lo \<le> j" "j < q" "q \<le> length a"
  shows "\<exists>a'. insert_back cmp a lo j = Some a' \<and> perm_on p q a a'"
  using assms
proof (induction j arbitrary: a)
  case 0
  then show ?case by (subst insert_back.simps) auto
next
  case (Suc j)
  let ?a = "a[Suc j := a ! j, j := a ! Suc j]"
  show ?case
  proof (cases "lo < Suc j \<and> 0 < cmp (a ! j) (a ! Suc j)")
    case True
    then obtain a' where "insert_back cmp ?a lo j = Some a'" "perm_on p q ?a a'"
      using Suc.IH [of ?a] Suc.prems by auto
    moreover have "perm_on p q a ?a"
      using True Suc.prems by (intro exch_perm) auto
    ultimately show ?thesis
      using True Suc.prems
      by (subst insert_back.simps) (auto simp: cmp_at_in exch_in intro: perm_on_trans)
  next
    case False
    then show ?thesis
      using Suc.prems by (subst insert_back.simps) (auto simp: cmp_at_in)
  qed
qed

lemma insertion_sort_safe:
  assumes "p \<le> lo" "lo \<le> j" "hi \<le> q" "q \<le> length a"
  shows "\<exists>a'. insertion_sort cmp a lo j hi = Some a' \<and> perm_on p q a a'"
  using assms
proof (induction "hi - j" arbitrary: a j rule: less_induct)
  case less
  show ?case
  proof (cases "j < hi")
    case True
    then obtain a1 where a1: "insert_back cmp a lo j = Some a1" "perm_on p q a a1"
      using insert_back_safe [of p lo j q a cmp] less.prems by auto
    then obtain a' where "insertion_sort cmp a1 lo (j + 1) hi = Some a'" "perm_on p q a1 a'"
      using less.hyps [OF diff_less_mono2 [of j "j + 1" hi], of a1] True less.prems
        perm_on_length [OF a1(2)] by auto
    with True a1 show ?thesis
      by (subst insertion_sort.simps) (auto intro: perm_on_trans)
  qed (subst insertion_sort.simps, auto)
qed


subsection \<open>The outer loops\<close>

text \<open>
  \<open>settled N S a\<close>: two of the first \<open>N\<close> positions are in order unless a pending segment of \<open>S\<close>
  holds both.
\<close>

definition settled :: "'a cmp_f \<Rightarrow> nat \<Rightarrow> (nat \<times> nat) set \<Rightarrow> 'a list \<Rightarrow> bool" where
  "settled cmp N S a \<longleftrightarrow>
     (\<forall>i j. i < j \<and> j < N \<longrightarrow> cmp (a ! i) (a ! j) \<le> 0 \<or> (\<exists>p n. (p, n) \<in> S \<and> p \<le> i \<and> j < p + n))"

definition apart :: "nat \<Rightarrow> nat \<Rightarrow> (nat \<times> nat) set \<Rightarrow> bool" where
  "apart p n S \<longleftrightarrow> (\<forall>(p', n') \<in> S. p' + n' \<le> p \<or> p + n \<le> p')"

lemma settledD:
  assumes "settled cmp N S a" "i < j" "j < N"
  obtains "cmp (a ! i) (a ! j) \<le> 0" | p n where "(p, n) \<in> S" "p \<le> i" "j < p + n"
  using assms unfolding settled_def by blast

lemma settled_perm:
  assumes "settled cmp N (insert (p, n) S) a" "perm_on p (p + n) a a'" "apart p n S"
    "p + n \<le> N" "N \<le> length a"
  shows "settled cmp N (insert (p, n) S) a'"
  unfolding settled_def
proof (intro allI impI)
  fix i j
  assume ij: "i < j \<and> j < N"
  have keep: "\<exists>k'. a' ! k = a ! k' \<and> (if p \<le> k \<and> k < p + n then p \<le> k' \<and> k' < p + n else k' = k)"
    if "k < N" for k
  proof (cases "p \<le> k \<and> k < p + n")
    case True
    then show ?thesis
      using assms(2,4,5) perm_on_elem [of p "p + n" a a' k] by (metis le_trans)
  next
    case False
    then show ?thesis
      using assms(2,5) that by (intro exI [of _ k]) (auto simp: perm_on_outside)
  qed
  obtain i' j' where i': "a' ! i = a ! i'" "if p \<le> i \<and> i < p + n then p \<le> i' \<and> i' < p + n else i' = i"
    and j': "a' ! j = a ! j'" "if p \<le> j \<and> j < p + n then p \<le> j' \<and> j' < p + n else j' = j"
    using keep [of i] keep [of j] ij by auto
  show "cmp (a' ! i) (a' ! j) \<le> 0 \<or> (\<exists>p' n'. (p', n') \<in> insert (p, n) S \<and> p' \<le> i \<and> j < p' + n')"
  proof (cases "p \<le> i \<and> j < p + n")
    case False
    then have "i' < j'" "j' < N"
      using ij i'(2) j'(2) assms(4) by (auto split: if_splits)
    with assms(1) show ?thesis
    proof (cases rule: settledD)
      case 1
      then show ?thesis using i' j' by simp
    next
      case (2 p2 n2)
      then consider "p2 = p" "n2 = n" | "(p2, n2) \<in> S" "p2 + n2 \<le> p \<or> p + n \<le> p2"
        using assms(3) by (auto simp: apart_def)
      then show ?thesis
      proof cases
        case 1
        then show ?thesis
          using 2 False i'(2) j'(2) ij by (auto split: if_splits)
      next
        case b: 2
        then have "p2 \<le> i" "j < p2 + n2"
          using 2 i'(2) j'(2) by (auto split: if_splits)
        with b show ?thesis by auto
      qed
    qed
  qed auto
qed

lemma settled_drop:
  assumes "settled cmp N (insert (p, n) S) a" "\<And>i j. p \<le> i \<Longrightarrow> i < j \<Longrightarrow> j < p + n \<Longrightarrow> cmp (a ! i) (a ! j) \<le> 0"
  shows "settled cmp N S a"
  using assms unfolding settled_def by blast

lemma settled_mono: "settled cmp N S a \<Longrightarrow> S \<subseteq> S' \<Longrightarrow> settled cmp N S' a"
  unfolding settled_def by blast

section \<open>Sortedness under the contract of a comparison function\<close>

locale comparator =
  fixes cmp :: "'a cmp_f"
  assumes cmp_swap: "0 < cmp x y \<longleftrightarrow> cmp y x < 0"
    and cmp_trans: "cmp x y \<le> 0 \<Longrightarrow> cmp y z \<le> 0 \<Longrightarrow> cmp x z \<le> 0"
begin

lemma cmp_refl: "cmp x x = 0"
  using cmp_swap [of x x] by linarith

lemma cmp_sym: "cmp x y = 0 \<Longrightarrow> cmp y x = 0"
  using cmp_swap [of x y] cmp_swap [of y x] by linarith

lemma cmp_ge: "0 \<le> cmp x y \<Longrightarrow> cmp y x \<le> 0"
  using cmp_swap [of y x] by linarith

lemma three_parts_order:
  assumes "three_parts cmp v a p lt gt n" "p \<le> i" "i < j" "j < p + n" "lt \<le> gt"
  shows "cmp (a ! i) (a ! j) \<le> 0 \<or> j < p + lt \<or> p + gt \<le> i"
proof (rule ccontr)
  assume neg: "\<not> ?thesis"
  have "0 < cmp v (a ! i) \<or> a ! i = v \<or> cmp v (a ! i) = 0"
    using assms neg by (cases "i < p + lt") (auto simp: three_parts_def)
  then have i: "cmp (a ! i) v \<le> 0"
    using cmp_refl [of v] cmp_ge [of v "a ! i"] by auto
  have "cmp v (a ! j) < 0 \<or> a ! j = v \<or> cmp v (a ! j) = 0"
    using assms neg by (cases "j < p + gt") (auto simp: three_parts_def)
  then have j: "cmp v (a ! j) \<le> 0"
    using cmp_refl [of v] by auto
  show False
    using cmp_trans [OF i j] neg by simp
qed

lemma settled_split:
  assumes "settled cmp N (insert (p, n) S) a" "three_parts cmp v a p lt gt n" "lt \<le> gt" "gt \<le> n"
  shows "settled cmp N (insert (p, lt) (insert (p + gt, n - gt) S)) a"
  unfolding settled_def
proof (intro allI impI)
  fix i j
  assume "i < j \<and> j < N"
  then have ij: "i < j" "j < N" by auto
  show "cmp (a ! i) (a ! j) \<le> 0 \<or> (\<exists>p' n'. (p', n') \<in> insert (p, lt) (insert (p + gt, n - gt) S) \<and> p' \<le> i \<and> j < p' + n')"
    using assms(1) ij
  proof (cases rule: settledD)
    case (2 p2 n2)
    then show ?thesis
      using three_parts_order [OF assms(2) _ ij(1) _ assms(3)] assms(4)
      by (cases "p2 = p \<and> n2 = n") (auto, (metis le_add_diff_inverse add.assoc)+)
  qed auto
qed

text \<open>
  The heap of \<open>n\<close> elements at \<open>b\<close>, for the parents from \<open>s\<close> on, except that element \<open>r\<close> may be
  smaller than its children; these are not larger than the parent of \<open>r\<close>.
\<close>

definition heap_but :: "'a list \<Rightarrow> nat \<Rightarrow> nat \<Rightarrow> nat \<Rightarrow> nat \<Rightarrow> bool" where
  "heap_but a b n s r \<longleftrightarrow>
     (\<forall>k. 0 < k \<and> k < n \<and> s \<le> (k - 1) div 2 \<and> (k - 1) div 2 \<noteq> r
        \<longrightarrow> cmp (a ! (b + k)) (a ! (b + (k - 1) div 2)) \<le> 0)
     \<and> (\<forall>k. 0 < k \<and> k < n \<and> 0 < r \<and> s \<le> (r - 1) div 2 \<and> (k - 1) div 2 = r
        \<longrightarrow> cmp (a ! (b + k)) (a ! (b + (r - 1) div 2)) \<le> 0)"

definition heap :: "'a list \<Rightarrow> nat \<Rightarrow> nat \<Rightarrow> nat \<Rightarrow> bool" where
  "heap a b n s \<longleftrightarrow>
     (\<forall>k. 0 < k \<and> k < n \<and> s \<le> (k - 1) div 2 \<longrightarrow> cmp (a ! (b + k)) (a ! (b + (k - 1) div 2)) \<le> 0)"

lemma children: "0 < k \<Longrightarrow> (k - 1) div 2 = r \<longleftrightarrow> k = 2 * r + 1 \<or> k = 2 * r + 2" for k r :: nat
  by presburger

lemma heap_but_stop:
  assumes "heap_but a b n s r" "\<And>k. k < n \<Longrightarrow> k = 2 * r + 1 \<or> k = 2 * r + 2 \<Longrightarrow> cmp (a ! (b + k)) (a ! (b + r)) \<le> 0"
  shows "heap a b n s"
  unfolding heap_def
proof (intro allI impI)
  fix k
  assume k: "0 < k \<and> k < n \<and> s \<le> (k - 1) div 2"
  show "cmp (a ! (b + k)) (a ! (b + (k - 1) div 2)) \<le> 0"
  proof (cases "(k - 1) div 2 = r")
    case True
    then show ?thesis
      using assms(2) [of k] k children [of k r] by auto
  next
    case False
    with assms(1) k show ?thesis
      by (auto simp: heap_but_def)
  qed
qed

lemma heap_but_step:
  assumes "heap_but a b n s r" "b + n \<le> length a" "s \<le> r" "c = 2 * r + 1 \<or> c = 2 * r + 2" "c < n"
    "cmp (a ! (b + r)) (a ! (b + c)) \<le> 0"
    "\<And>k. k < n \<Longrightarrow> k = 2 * r + 1 \<or> k = 2 * r + 2 \<Longrightarrow> cmp (a ! (b + k)) (a ! (b + c)) \<le> 0"
  shows "heap_but (a[b + r := a ! (b + c), b + c := a ! (b + r)]) b n s c"
proof -
  let ?a = "a[b + r := a ! (b + c), b + c := a ! (b + r)]"
  have rc: "r < c" "(c - 1) div 2 = r"
    using assms(4) by auto
  have nth: "?a ! (b + r) = a ! (b + c)" "?a ! (b + c) = a ! (b + r)"
    "k \<noteq> r \<Longrightarrow> k \<noteq> c \<Longrightarrow> ?a ! (b + k) = a ! (b + k)" for k
    using assms(2,5) rc(1) by (auto simp: nth_list_update)
  have "cmp (?a ! (b + k)) (?a ! (b + (k - 1) div 2)) \<le> 0"
    if k: "0 < k" "k < n" "s \<le> (k - 1) div 2" "(k - 1) div 2 \<noteq> c" for k
  proof -
    consider (child) "(k - 1) div 2 = r" "k \<noteq> c" | (moved) "k = c" | (hole) "k = r"
      | (other) "(k - 1) div 2 \<noteq> r" "k \<noteq> r" "k \<noteq> c"
      using rc by blast
    then show ?thesis
    proof cases
      case child
      moreover have "k \<noteq> r"
        using child k(1) by auto
      ultimately show ?thesis
        using nth assms(7) [of k] k children [of k r] by auto
    next
      case moved
      then show ?thesis
        using nth rc assms(6) by simp
    next
      case hole
      moreover from this k have "(r - 1) div 2 \<noteq> r" "(r - 1) div 2 \<noteq> c"
        using rc by auto
      ultimately show ?thesis
        using nth assms(1,5) k rc by (auto simp: heap_but_def)
    next
      case other
      then show ?thesis
        using nth assms(1) k by (auto simp: heap_but_def)
    qed
  qed
  moreover have "cmp (?a ! (b + k)) (?a ! (b + (c - 1) div 2)) \<le> 0"
    if k: "0 < k" "k < n" "(k - 1) div 2 = c" for k
  proof -
    have "k \<noteq> r" "k \<noteq> c"
      using k rc children [of k c] by auto
    moreover have "cmp (a ! (b + k)) (a ! (b + c)) \<le> 0"
    proof -
      have "s \<le> (k - 1) div 2" "(k - 1) div 2 \<noteq> r"
        using assms(3) k rc by auto
      then show ?thesis
        using assms(1) k unfolding heap_but_def by blast
    qed
    ultimately show ?thesis
      using nth rc by simp
  qed
  ultimately show ?thesis
    unfolding heap_but_def by blast
qed

lemma sift_heap:
  assumes "heap_but a b n s r" "b + n \<le> length a" "s \<le> r" "r < n" "sift cmp a b r n = Some a'"
  shows "heap a' b n s"
  using assms
proof (induction "n - r" arbitrary: a r rule: less_induct)
  case less
  show ?case
  proof (cases "2 * r + 1 < n")
    case True
    obtain c where c: "c = 2 * r + 1 \<or> c = 2 * r + 2" "c < n"
      and sib: "c = 2 * r + 1 \<and> 2 * r + 2 < n \<longrightarrow> 0 < cmp (a ! (b + (2 * r + 1))) (a ! (b + (2 * r + 2)))"
        "c = 2 * r + 2 \<longrightarrow> cmp (a ! (b + (2 * r + 1))) (a ! (b + (2 * r + 2))) \<le> 0"
      and step: "sift cmp a b r n = (if 0 < cmp (a ! (b + r)) (a ! (b + c)) then Some a
       else sift cmp (a[b + r := a ! (b + c), b + c := a ! (b + r)]) b c n)"
      by (rule sift_step [OF True less.prems(2), where cmp = cmp])
    have big: "cmp (a ! (b + k)) (a ! (b + c)) \<le> 0" if "k < n" "k = 2 * r + 1 \<or> k = 2 * r + 2" for k
      using that c sib cmp_refl cmp_ge [of "a ! (b + (2 * r + 1))" "a ! (b + (2 * r + 2))"] by auto
    show ?thesis
    proof (cases "0 < cmp (a ! (b + r)) (a ! (b + c))")
      case True
      then have "cmp (a ! (b + c)) (a ! (b + r)) \<le> 0"
        by (simp add: cmp_ge)
      then have "cmp (a ! (b + k)) (a ! (b + r)) \<le> 0" if "k < n" "k = 2 * r + 1 \<or> k = 2 * r + 2" for k
        using big [OF that] cmp_trans by blast
      moreover have "a' = a"
        using True step less.prems(5) by simp
      ultimately show ?thesis
        using heap_but_stop [OF less.prems(1)] by simp
    next
      case False
      let ?a = "a[b + r := a ! (b + c), b + c := a ! (b + r)]"
      have "heap_but ?a b n s c"
        using less.prems(1-3) c False big by (intro heap_but_step) auto
      moreover have "sift cmp ?a b c n = Some a'"
        using False step less.prems(5) by simp
      moreover have "n - c < n - r" "s \<le> c"
        using c less.prems(3) by auto
      ultimately show ?thesis
        using less.hyps [of c ?a] less.prems(2) c(2) by simp
    qed
  next
    case False
    then show ?thesis
      using less.prems heap_but_stop [OF less.prems(1)] by (simp add: sift_leaf)
  qed
qed

lemma heap_build_heap:
  assumes "heap a b n i" "b + n \<le> length a" "i \<le> n" "heap_build cmp a b n i = Some a'"
  shows "heap a' b n 0"
  using assms
proof (induction i arbitrary: a)
  case (Suc i)
  obtain a1 where a1: "sift cmp a b i n = Some a1" "perm_on 0 (length a) a a1"
    using sift_safe [of 0 b n "length a" a i cmp] Suc.prems by auto
  have "heap_but a b n i i"
    using Suc.prems(1) unfolding heap_def heap_but_def by (auto simp: Suc_le_eq)
  then have "heap a1 b n i"
    using Suc.prems a1 by (intro sift_heap [of a b n i i a1]) auto
  then show ?case
    using Suc.IH [of a1] Suc.prems a1 perm_on_length [OF a1(2)] by simp
qed simp

lemma heap_top:
  assumes "heap a b n 0" "k < n"
  shows "cmp (a ! (b + k)) (a ! b) \<le> 0"
  using assms(2)
proof (induction k rule: less_induct)
  case (less k)
  show ?case
  proof (cases "k = 0")
    case False
    then have "cmp (a ! (b + k)) (a ! (b + (k - 1) div 2)) \<le> 0"
      using assms(1) less.prems by (auto simp: heap_def)
    moreover have "cmp (a ! (b + (k - 1) div 2)) (a ! b) \<le> 0"
      using False less by auto
    ultimately show ?thesis
      by (rule cmp_trans)
  qed (simp add: cmp_refl)
qed

text \<open>While the heap shrinks, everything behind it is in its final place.\<close>

definition tail_sorted :: "'a list \<Rightarrow> nat \<Rightarrow> nat \<Rightarrow> nat \<Rightarrow> bool" where
  "tail_sorted a b n i \<longleftrightarrow> (\<forall>x y. x < y \<and> i < y \<and> y < n \<longrightarrow> cmp (a ! (b + x)) (a ! (b + y)) \<le> 0)"

lemma heap_pop_sorted:
  assumes "heap a b (i + 1) 0" "tail_sorted a b n i" "i < n" "b + n \<le> length a"
    "heap_pop cmp a b i = Some a'"
  shows "tail_sorted a' b n 0"
  using assms
proof (induction i arbitrary: a)
  case (Suc i)
  let ?a = "a[b := a ! (b + Suc i), b + Suc i := a ! b]"
  have e: "exch a b (b + Suc i) = Some ?a"
    using Suc.prems by (intro exch_in) auto
  have nth: "?a ! b = a ! (b + Suc i)" "?a ! (b + Suc i) = a ! b"
    "k \<noteq> 0 \<Longrightarrow> k \<noteq> Suc i \<Longrightarrow> ?a ! (b + k) = a ! (b + k)" for k
    using Suc.prems(3,4) by (auto simp: nth_list_update)
  obtain a1 where a1: "sift cmp ?a b 0 (Suc i) = Some a1" "perm_on b (b + Suc i) ?a a1"
    using sift_safe [of b b "Suc i" "b + Suc i" ?a 0 cmp] Suc.prems by auto
  have "heap_but ?a b (Suc i) 0 0"
    unfolding heap_but_def
  proof (intro conjI allI impI)
    fix k
    assume k: "0 < k \<and> k < Suc i \<and> 0 \<le> (k - 1) div 2 \<and> (k - 1) div 2 \<noteq> 0"
    then have "cmp (a ! (b + k)) (a ! (b + (k - 1) div 2)) \<le> 0"
      using Suc.prems(1) by (simp add: heap_def)
    moreover have "(k - 1) div 2 \<noteq> Suc i" "k \<noteq> Suc i"
      using k by auto
    ultimately show "cmp (?a ! (b + k)) (?a ! (b + (k - 1) div 2)) \<le> 0"
      using nth(3) k by simp
  qed simp
  then have heap1: "heap a1 b (i + 1) 0"
    using Suc.prems a1(1) by (intro sift_heap [of ?a b "i + 1" 0 0 a1]) auto
  have old: "\<exists>z \<le> Suc i. a1 ! (b + x) = a ! (b + z)" if x: "x \<le> Suc i" for x
  proof (cases "x = Suc i")
    case True
    have "a1 ! (b + Suc i) = ?a ! (b + Suc i)"
      using a1(2) Suc.prems by (intro perm_on_outside) auto
    with True nth show ?thesis by (intro exI [of _ 0]) simp
  next
    case False
    then obtain k where k: "b \<le> k" "k < b + Suc i" "a1 ! (b + x) = ?a ! k"
      using perm_on_elem [OF a1(2), of "b + x"] x Suc.prems by (auto simp: le_Suc_eq)
    then show ?thesis
      using nth(1) nth(3) [of "k - b"] by (cases "k = b") (auto intro: exI [of _ "k - b"] simp: less_Suc_eq_le)
  qed
  have keep: "a1 ! (b + y) = a ! (b + y)" if "Suc i < y" "y < n" for y
    using perm_on_outside [OF a1(2), of "b + y"] nth that Suc.prems(4) by auto
  have "a1 ! (b + Suc i) = a ! b"
    using perm_on_outside [OF a1(2), of "b + Suc i"] nth Suc.prems(3,4) by auto
  then have last: "cmp (a1 ! (b + x)) (a1 ! (b + Suc i)) \<le> 0" if "x < Suc i" for x
    using old [of x] heap_top [OF Suc.prems(1)] that by auto
  have "tail_sorted a1 b n i"
    unfolding tail_sorted_def
  proof (intro allI impI)
    fix x y
    assume xy: "x < y \<and> i < y \<and> y < n"
    show "cmp (a1 ! (b + x)) (a1 ! (b + y)) \<le> 0"
    proof (cases "y = Suc i")
      case True
      with xy last show ?thesis by auto
    next
      case False
      then have "\<exists>z < y. a1 ! (b + x) = a ! (b + z)"
        using old [of x] keep [of x] xy
        by (cases "x \<le> Suc i") (auto, metis Suc_lessI le_less_trans)
      then show ?thesis
        using keep [of y] xy False Suc.prems(2) by (auto simp: tail_sorted_def)
    qed
  qed
  moreover have "heap_pop cmp a1 b i = Some a'" "b + n \<le> length a1"
    using Suc.prems e a1 perm_on_length [OF a1(2)] by auto
  ultimately show ?case
    using Suc.IH [of a1] heap1 Suc.prems(3) by simp
qed simp

lemma heapsortx_sorts:
  assumes "b + n \<le> length a" "heapsortx cmp a b n = Some a'" "b \<le> i" "i < j" "j < b + n"
  shows "cmp (a' ! i) (a' ! j) \<le> 0"
proof -
  have n: "1 < n"
    using assms(3-5) by linarith
  obtain a1 where a1: "heap_build cmp a b n (n div 2) = Some a1" "perm_on b (b + n) a a1"
    using heap_build_safe [of b b n "b + n" a "n div 2" cmp] assms(1) by auto
  have "heap a b n (n div 2)"
    by (auto simp: heap_def)
  then have "heap a1 b n 0"
    using heap_build_heap [of a b n "n div 2" a1] a1(1) assms(1) by simp
  moreover have "tail_sorted a1 b n (n - 1)"
    by (auto simp: tail_sorted_def)
  ultimately have "tail_sorted a' b n 0"
    using heap_pop_sorted [of a1 b "n - 1" n a'] assms(1,2) a1 n perm_on_length [OF a1(2)]
    by (simp add: heapsortx_def)
  then show ?thesis
    using assms(3-5) unfolding tail_sorted_def
    by (elim allE [of _ "i - b"] allE [of _ "j - b"]) auto
qed

lemma insert_back_sorts:
  assumes "\<And>x y. p \<le> x \<Longrightarrow> x < y \<Longrightarrow> y \<le> hi \<Longrightarrow> y \<noteq> j \<Longrightarrow> cmp (a ! x) (a ! y) \<le> 0"
    "p \<le> j" "j \<le> hi" "hi < length a" "insert_back cmp a p j = Some a'" "p \<le> x" "x < y" "y \<le> hi"
  shows "cmp (a' ! x) (a' ! y) \<le> 0"
  using assms
proof (induction j arbitrary: a)
  case 0
  then show ?case
    by (subst (asm) insert_back.simps) (auto)
next
  case (Suc j)
  let ?a = "a[Suc j := a ! j, j := a ! Suc j]"
  show ?case
  proof (cases "p < Suc j \<and> 0 < cmp (a ! j) (a ! Suc j)")
    case True
    then have lt: "cmp (a ! Suc j) (a ! j) \<le> 0"
      by (simp add: cmp_ge)
    have "insert_back cmp ?a p j = Some a'"
      using True Suc.prems by (subst (asm) insert_back.simps) (auto simp: cmp_at_in exch_in)
    moreover have "cmp (?a ! x) (?a ! y) \<le> 0" if "p \<le> x" "x < y" "y \<le> hi" "y \<noteq> j" for x y
      using Suc.prems(1) [of x y] Suc.prems(1) [of x j] Suc.prems(1) [of "Suc j" y] Suc.prems(1) [of j y] that lt True Suc.prems(3,4)
      by (auto simp: nth_list_update)
    ultimately show ?thesis
      using Suc.IH [of ?a] Suc.prems True by auto
  next
    case False
    then have a': "a' = a"
      using Suc.prems by (subst (asm) insert_back.simps) (auto simp: cmp_at_in split: if_splits)
    show ?thesis
    proof (cases "y = Suc j")
      case y: True
      then have "p \<le> j" "x \<le> j" "cmp (a ! j) (a ! Suc j) \<le> 0"
        using False Suc.prems by auto
      then show ?thesis
        using Suc.prems(1) [of x j] Suc.prems(3,6,7,8) y a' cmp_trans [of "a ! x" "a ! j" "a ! Suc j"]
        by (cases "x = j") auto
    qed (use Suc.prems a' in auto)
  qed
qed

lemma insertion_sort_sorts:
  assumes "\<And>x y. p \<le> x \<Longrightarrow> x < y \<Longrightarrow> y < j \<Longrightarrow> cmp (a ! x) (a ! y) \<le> 0"
    "p \<le> j" "hi \<le> length a" "insertion_sort cmp a p j hi = Some a'" "p \<le> x" "x < y" "y < hi"
  shows "cmp (a' ! x) (a' ! y) \<le> 0"
  using assms
proof (induction "hi - j" arbitrary: a j rule: less_induct)
  case less
  show ?case
  proof (cases "j < hi")
    case True
    obtain a1 where a1: "insert_back cmp a p j = Some a1" "perm_on p hi a a1"
      using insert_back_safe [of p p j hi a cmp] True less.prems by auto
    have "insertion_sort cmp a1 p (j + 1) hi = Some a'"
      using True a1 less.prems(4) by (subst (asm) insertion_sort.simps) simp
    moreover have "cmp (a1 ! x) (a1 ! y) \<le> 0" if "p \<le> x" "x < y" "y < j + 1" for x y
      using insert_back_sorts [of p j j a a1 x y] less.prems(1-3) a1(1) True that by simp
    ultimately show ?thesis
      using less.hyps [OF diff_less_mono2 [of j "j + 1" hi], of a1] True less.prems perm_on_length [OF a1(2)]
      by auto
  next
    case False
    then have "a' = a"
      using less.prems(4) by (subst (asm) insertion_sort.simps) simp
    with False less.prems show ?thesis by simp
  qed
qed

end

section \<open>The outer loops\<close>

text \<open>
  The frames of the stack, from its top: their depths go down strictly from at most \<open>d\<close>, so there
  are at most \<open>d\<close> of them; each lies inside the first \<open>N\<close> elements, apart from the others.
\<close>

definition segs :: "frame list \<Rightarrow> (nat \<times> nat) set" where
  "segs sp = (\<lambda>(p, n, e). (p, n)) ` set sp"

lemma segs_simps [simp]: "segs [] = {}" "segs ((p, n, e) # sp) = insert (p, n) (segs sp)"
  by (auto simp: segs_def)

fun frames_ok :: "nat \<Rightarrow> nat \<Rightarrow> frame list \<Rightarrow> bool" where
  "frames_ok N d [] = True"
| "frames_ok N d ((p, n, e) # sp) \<longleftrightarrow>
     p + n \<le> N \<and> 1 \<le> e \<and> e \<le> d \<and> apart p n (segs sp) \<and> frames_ok N (e - 1) sp"

lemma frames_ok_length: "frames_ok N d sp \<Longrightarrow> length sp \<le> d"
  by (induction N d sp rule: frames_ok.induct) auto

lemma frames_ok_mono: "frames_ok N d sp \<Longrightarrow> d \<le> d' \<Longrightarrow> frames_ok N d' sp"
  by (cases sp rule: list.exhaust) auto

definition work :: "frame list \<Rightarrow> nat" where
  "work sp = sum_list (map (\<lambda>(p, n, e). n + 1) sp)"

lemma work_simps [simp]: "work [] = 0" "work ((p, n, e) # sp) = n + 1 + work sp"
  by (simp_all add: work_def)

lemma apart_sub: "apart p n S \<Longrightarrow> p \<le> p' \<Longrightarrow> p' + n' \<le> p + n \<Longrightarrow> apart p' n' S"
  by (fastforce simp: apart_def)

text \<open>What one pass over the segment \<open>(p, n)\<close> leaves of the work: the segment \<open>(p', n')\<close> and the frames \<open>sp'\<close>.\<close>

definition progress :: "'a cmp_f \<Rightarrow> nat \<Rightarrow> 'a list \<Rightarrow> nat \<Rightarrow> nat \<Rightarrow> frame list \<Rightarrow> 'a list \<Rightarrow> nat \<Rightarrow> nat \<Rightarrow> frame list \<Rightarrow> bool" where
  "progress cmp N a p n sp a' p' n' sp' \<longleftrightarrow>
     perm_on 0 N a a' \<and> p' + n' \<le> N \<and> apart p' n' (segs sp') \<and> work sp' + n' \<le> work sp + n
     \<and> (comparator cmp \<longrightarrow> settled cmp N (insert (p, n) (segs sp)) a
          \<longrightarrow> settled cmp N (insert (p', n') (segs sp')) a')"

lemma progress_trans:
  "progress cmp N a p n sp a1 p1 n1 sp1 \<Longrightarrow> progress cmp N a1 p1 n1 sp1 a2 p2 n2 sp2
     \<Longrightarrow> progress cmp N a p n sp a2 p2 n2 sp2"
  by (auto simp: progress_def intro: perm_on_trans)

lemma progress_round:
  assumes "perm_on p (p + n) a a'" "three_parts cmp v a' p lt gt n" "lt < gt" "gt \<le> n" "apart p n (segs sp)"
    "p + n \<le> N" "N \<le> length a"
  shows "progress cmp N a p n sp a' p lt ((p + gt, n - gt, e) # sp)"
    and "progress cmp N a p n sp a' (p + gt) (n - gt) ((p, lt, e) # sp)"
proof -
  have perm: "perm_on 0 N a a'"
    using assms(1,6) by (rule perm_on_mono [OF _ le0])
  have st: "settled cmp N (insert (p, lt) (insert (p + gt, n - gt) (segs sp))) a'"
    if "comparator cmp" "settled cmp N (insert (p, n) (segs sp)) a"
    using that assms comparator.settled_split [of cmp N p n "segs sp" a' v lt gt] settled_perm [of cmp N p n "segs sp" a a']
    by simp
  have "apart p lt (segs sp)" "apart (p + gt) (n - gt) (segs sp)"
    using assms(3-5) by (auto intro: apart_sub)
  then show "progress cmp N a p n sp a' p lt ((p + gt, n - gt, e) # sp)"
    "progress cmp N a p n sp a' (p + gt) (n - gt) ((p, lt, e) # sp)"
    using perm st assms(3-6) by (auto simp: progress_def apart_def insert_commute)
qed

lemma quick_loop_spec:
  assumes "frames_ok N d sp" "apart p n (segs sp)" "p + n \<le> N" "N \<le> length a" "d \<le> 50"
  shows "\<exists>a' p' n' sp'. quick_loop cmp a p n d sp = Some (a', p', n', sp') \<and> frames_ok N 50 sp'
     \<and> progress cmp N a p n sp a' p' n' sp'"
  using assms
proof (induction "50 - d" arbitrary: a p n d sp rule: less_induct)
  case less
  have mono: "frames_ok N 50 sp"
    using less.prems(1,5) by (rule frames_ok_mono)
  note unfold = quick_loop.simps [of cmp a p n d sp]
  show ?case
  proof (cases "6 < n")
    case False
    then show ?thesis
      using unfold mono less.prems by (auto simp: progress_def)
  next
    case True
    show ?thesis
    proof (cases "50 < d + 1")
      case deep: True
      obtain a' where a': "heapsortx cmp a p n = Some a'" "perm_on p (p + n) a a'"
        using heapsortx_safe [of p p n "p + n" a cmp] less.prems by auto
      have "settled cmp N (insert (p, 0) (segs sp)) a'"
        if "comparator cmp" "settled cmp N (insert (p, n) (segs sp)) a"
      proof -
        have "settled cmp N (segs sp) a'"
          using settled_drop [OF settled_perm [OF that(2) a'(2) less.prems(2-4)]]
            comparator.heapsortx_sorts [OF that(1) _ a'(1)] less.prems(3,4) by auto
        then show ?thesis
          by (rule settled_mono) auto
      qed
      then have "progress cmp N a p n sp a' p 0 sp"
        using a'(2) less.prems perm_on_mono [OF a'(2), of 0 N] apart_sub [of p n "segs sp" p 0]
        by (auto simp: progress_def)
      then show ?thesis
        using unfold True deep a' mono by auto
    next
      case shallow: False
      obtain a' lt gt v where r: "partition_round cmp a p n = Some (a', lt, gt, p + gt)"
        "perm_on p (p + n) a a'" "lt < gt" "gt \<le> n" "three_parts cmp v a' p lt gt n"
        using partition_round_spec [OF True le_trans [OF less.prems(3,4)], of cmp] by blast
      note pr = progress_round [OF r(2,5,3,4) less.prems(2-4), of "d + 1"]
      have len: "length sp < 50" "N \<le> length a'"
        using frames_ok_length [OF less.prems(1)] shallow perm_on_length [OF r(2)] less.prems(4) by auto
      have sub: "apart p lt (segs sp)" "apart (p + gt) (n - gt) (segs sp)"
        using r(3,4) less.prems(2) by (auto intro: apart_sub)
      have dec: "50 - (d + 1) < 50 - d" "d + 1 \<le> 50"
        using shallow by auto
      show ?thesis
      proof (cases "n - gt < lt")
        case left: True
        let ?sp = "(p, lt, d + 1) # sp"
        have "\<exists>a'' p' n' sp'. quick_loop cmp a' (p + gt) (n - gt) (d + 1) ?sp = Some (a'', p', n', sp')
          \<and> frames_ok N 50 sp' \<and> progress cmp N a' (p + gt) (n - gt) ?sp a'' p' n' sp'"
          using less.hyps [OF dec(1), of ?sp "p + gt" "n - gt" a'] less.prems r sub len dec(2) by (auto simp: apart_def)
        then show ?thesis
          using unfold True shallow left r(1) len(1) pr(2) by (fastforce simp: push_frame_def dest: progress_trans)
      next
        case right: False
        let ?sp = "(p + gt, n - gt, d + 1) # sp"
        have "\<exists>a'' p' n' sp'. quick_loop cmp a' p lt (d + 1) ?sp = Some (a'', p', n', sp')
          \<and> frames_ok N 50 sp' \<and> progress cmp N a' p lt ?sp a'' p' n' sp'"
          using less.hyps [OF dec(1), of ?sp p lt a'] less.prems r sub len dec(2) by (auto simp: apart_def)
        then show ?thesis
          using unfold True shallow right r(1) len(1) pr(1) by (fastforce simp: push_frame_def dest: progress_trans)
      qed
    qed
  qed
qed


lemma rqsort_pop:
  assumes "frames_ok N e sp" "apart p n (segs sp)" "p + n \<le> N" "N \<le> length a" "e \<le> 50"
  obtains a' sp' where "rqsort_loop cmp a ((p, n, e) # sp) = rqsort_loop cmp a' sp'"
    "frames_ok N 50 sp'" "perm_on 0 N a a'" "work sp' \<le> work sp + n"
    "comparator cmp \<longrightarrow> settled cmp N (insert (p, n) (segs sp)) a \<longrightarrow> settled cmp N (segs sp') a'"
proof -
  obtain a1 p1 n1 sp1 where q: "quick_loop cmp a p n e sp = Some (a1, p1, n1, sp1)" "frames_ok N 50 sp1"
    and pr: "progress cmp N a p n sp a1 p1 n1 sp1"
    using quick_loop_spec [OF assms, of cmp] by auto
  then have len: "p1 + n1 \<le> N" "N \<le> length a1" "apart p1 n1 (segs sp1)"
    using assms(4) perm_on_length [of 0 N a a1] by (auto simp: progress_def)
  obtain a' where a': "insertion_sort cmp a1 p1 (p1 + 1) (p1 + n1) = Some a'" "perm_on p1 (p1 + n1) a1 a'"
    using insertion_sort_safe [of p1 p1 "p1 + 1" "p1 + n1" "p1 + n1" a1 cmp] len by auto
  show thesis
  proof (rule that [of a' sp1])
    show "rqsort_loop cmp a ((p, n, e) # sp) = rqsort_loop cmp a' sp1"
      using q(1) a'(1) by (subst rqsort_loop.simps) simp
    show "perm_on 0 N a a'"
      using pr perm_on_mono [OF a'(2), of 0 N] len(1) by (auto simp: progress_def intro: perm_on_trans)
    show "work sp1 \<le> work sp + n"
      using pr by (auto simp: progress_def)
    have "settled cmp N (segs sp1) a'" if "comparator cmp" "settled cmp N (insert (p1, n1) (segs sp1)) a1"
      using settled_drop [OF settled_perm [OF that(2) a'(2) len(3,1,2)]]
        comparator.insertion_sort_sorts [OF that(1) _ _ _ a'(1)] len(1,2) by auto
    then show "comparator cmp \<longrightarrow> settled cmp N (insert (p, n) (segs sp)) a \<longrightarrow> settled cmp N (segs sp1) a'"
      using pr by (auto simp: progress_def)
  qed (rule q(2))
qed

lemma rqsort_loop_spec:
  assumes "frames_ok N 50 sp" "N \<le> length a"
  shows "\<exists>a'. rqsort_loop cmp a sp = Some a' \<and> perm_on 0 N a a'
     \<and> (comparator cmp \<longrightarrow> settled cmp N (segs sp) a \<longrightarrow> settled cmp N {} a')"
  using assms
proof (induction "work sp" arbitrary: sp a rule: less_induct)
  case less
  show ?case
  proof (cases sp)
    case Nil
    then show ?thesis by (subst rqsort_loop.simps) auto
  next
    case (Cons f sp0)
    obtain p n e where f: "f = (p, n, e)" by (cases f)
    have ok: "frames_ok N e sp0" "apart p n (segs sp0)" "p + n \<le> N" "e \<le> 50"
      using less.prems(1) f Cons frames_ok_mono [of N "e - 1" sp0 e] by auto
    obtain a1 sp1 where s: "rqsort_loop cmp a ((p, n, e) # sp0) = rqsort_loop cmp a1 sp1"
      "frames_ok N 50 sp1" "perm_on 0 N a a1" "work sp1 \<le> work sp0 + n"
      "comparator cmp \<longrightarrow> settled cmp N (insert (p, n) (segs sp0)) a \<longrightarrow> settled cmp N (segs sp1) a1"
      by (rule rqsort_pop [OF ok(1-3) less.prems(2) ok(4), where cmp = cmp])
    obtain a' where "rqsort_loop cmp a1 sp1 = Some a'" "perm_on 0 N a1 a'"
      "comparator cmp \<longrightarrow> settled cmp N (segs sp1) a1 \<longrightarrow> settled cmp N {} a'"
      using less.hyps [of sp1 a1] s(2-4) less.prems(2) perm_on_length [OF s(3)] Cons f by auto
    with s Cons f show ?thesis
      by (auto intro: perm_on_trans)
  qed
qed

lemma rqsort_spec:
  assumes "n \<le> length a"
  shows "\<exists>a'. rqsort cmp a n sz = Some a' \<and> perm_on 0 n a a'
     \<and> (comparator cmp \<longrightarrow> sz \<noteq> 0 \<longrightarrow> settled cmp n {} a')"
proof (cases "n < 2 \<or> sz = 0")
  case True
  then show ?thesis by (auto simp: rqsort_def settled_def)
next
  case False
  obtain a1 sp1 where s: "rqsort_loop cmp a ((0, n, 0) # []) = rqsort_loop cmp a1 sp1"
    "frames_ok n 50 sp1" "perm_on 0 n a a1" "work sp1 \<le> work [] + n"
    "comparator cmp \<longrightarrow> settled cmp n (insert (0, n) (segs [])) a \<longrightarrow> settled cmp n (segs sp1) a1"
    by (rule rqsort_pop [where N = n and e = 0 and sp = "[]" and p = 0 and n = n and a = a])
      (use assms in \<open>auto simp: apart_def\<close>)
  have "settled cmp n (insert (0, n) (segs [])) a"
    by (auto simp: settled_def)
  then show ?thesis
    using rqsort_loop_spec [OF s(2), of a1 cmp] s False assms perm_on_length [OF s(3)]
    by (auto simp: rqsort_def intro: perm_on_trans)
qed

section \<open>Properties\<close>

text \<open>
  C12: \<^verbatim>\<open>rqsort\<close> returns for every comparison function, even an inconsistent one: it never reads or
  writes outside the array, never pushes beyond its stack of 50 frames, permutes the first
  \<open>nmemb\<close> elements and leaves the others alone.
\<close>

theorem rqsort_safe:
  assumes "nmemb \<le> length a"
  shows "\<exists>a'. rqsort cmp a nmemb sz = Some (a' @ drop nmemb a) \<and> mset a' = mset (take nmemb a)"
proof -
  obtain a' where a': "rqsort cmp a nmemb sz = Some a'" "perm_on 0 nmemb a a'"
    using rqsort_spec [OF assms, of cmp sz] by auto
  then have "a' = take nmemb a' @ drop nmemb a" "mset (take nmemb a') = mset (take nmemb a)"
    using perm_on_split(2,3) [OF a'(2)] assms by (metis append_take_drop_id le0, simp)
  with a'(1) show ?thesis by metis
qed

theorem rqsort_safe_witness:
  "\<exists>a'. rqsort (\<lambda>x y. 1) [3, 1, 2, 5, 4, 9, 8, 7 :: int] 7 4 = Some (a' @ [7])
     \<and> mset a' = {#3, 1, 2, 5, 4, 9, 8#}"
  using rqsort_safe [of 7 "[3, 1, 2, 5, 4, 9, 8, 7 :: int]" "\<lambda>x y. 1" 4] by simp

text \<open>
  C8: When the comparison function is antisymmetric in sign and transitive, the array that
  \<^verbatim>\<open>rqsort\<close> leaves is sorted, whichever of quick, heap and insertion sort did the work.
\<close>

theorem rqsort_sorts:
  assumes "comparator cmp" and "nmemb \<le> length a" and "sz \<noteq> 0"
  shows "\<exists>a'. rqsort cmp a nmemb sz = Some a' \<and> sorted_wrt (\<lambda>x y. cmp x y \<le> 0) (take nmemb a')"
proof -
  obtain a' where "rqsort cmp a nmemb sz = Some a'" "settled cmp nmemb {} a'"
    using rqsort_spec [OF assms(2), of cmp sz] assms(1,3) by auto
  then show ?thesis
    by (auto simp: sorted_wrt_iff_nth_less settled_def)
qed

interpretation int_cmp: comparator "(-) :: int \<Rightarrow> int \<Rightarrow> int"
  by unfold_locales auto

theorem rqsort_sorts_witness:
  "\<exists>a'. rqsort (-) [5, 3, 9, 1, 7, 2, 8 :: int] 7 4 = Some a' \<and> sorted_wrt (\<lambda>x y. x - y \<le> 0) (take 7 a')"
  using rqsort_sorts [OF int_cmp.comparator_axioms, of 7 "[5, 3, 9, 1, 7, 2, 8]" 4] by simp

end
