(* ===== verification/Exchange.thy ===== *)
theory Exchange
  imports Sort
begin

text \<open>
  The exchange routines of \<^verbatim>\<open>cutils.c\<close> on a byte buffer that starts at address \<open>base\<close>. A routine
  that works on units of \<open>w\<close> bytes faults on an address that is not a multiple of the alignment
  of its unit. The routine that \<^verbatim>\<open>exchange_func\<close> selects is shown to be the element exchange on
  which the sorting routines are modelled.
\<close>

section \<open>Definitions\<close>

definition get_unit :: "nat \<Rightarrow> nat \<Rightarrow> u8 list \<Rightarrow> nat \<Rightarrow> nat \<Rightarrow> u8 list option" where
  "get_unit base al m p w =
     (if (base + p) mod al = 0 \<and> p + w \<le> length m then Some (take w (drop p m)) else None)"

definition put_unit :: "nat \<Rightarrow> nat \<Rightarrow> u8 list \<Rightarrow> nat \<Rightarrow> u8 list \<Rightarrow> u8 list option" where
  "put_unit base al m p u = (if (base + p) mod al = 0 then memcpy m p u 0 (length u) else None)"

text \<open>\<open>t = *ap; *ap++ = *bp; *bp++ = t\<close> for units of \<open>w\<close> bytes, \<open>n\<close> times.\<close>

primrec exchange_units :: "nat \<Rightarrow> nat \<Rightarrow> nat \<Rightarrow> u8 list \<Rightarrow> nat \<Rightarrow> nat \<Rightarrow> nat \<Rightarrow> u8 list option" where
  "exchange_units base al w m ap bp 0 = Some m"
| "exchange_units base al w m ap bp (Suc n) =
     do { t \<leftarrow> get_unit base al m ap w;
          u \<leftarrow> get_unit base al m bp w;
          m \<leftarrow> put_unit base al m ap u;
          m \<leftarrow> put_unit base al m bp t;
          exchange_units base al w m (ap + w) (bp + w) n }"

type_synonym exchange_f = "nat \<Rightarrow> u8 list \<Rightarrow> nat \<Rightarrow> nat \<Rightarrow> nat \<Rightarrow> u8 list option"

definition exchange_bytes :: exchange_f where
  "exchange_bytes base m a b sz = exchange_units base 1 1 m a b sz"
definition exchange_one_byte :: exchange_f where
  "exchange_one_byte base m a b sz = exchange_units base 1 1 m a b 1"
definition exchange_int16s :: exchange_f where
  "exchange_int16s base m a b sz = exchange_units base 2 2 m a b (sz div 2)"
definition exchange_one_int16 :: exchange_f where
  "exchange_one_int16 base m a b sz = exchange_units base 2 2 m a b 1"
definition exchange_int32s :: exchange_f where
  "exchange_int32s base m a b sz = exchange_units base 4 4 m a b (sz div 4)"
definition exchange_one_int32 :: exchange_f where
  "exchange_one_int32 base m a b sz = exchange_units base 4 4 m a b 1"
definition exchange_int64s :: exchange_f where
  "exchange_int64s base m a b sz = exchange_units base 8 8 m a b (sz div 8)"
definition exchange_one_int64 :: exchange_f where
  "exchange_one_int64 base m a b sz = exchange_units base 8 8 m a b 1"

text \<open>The 128-bit routines move two 64-bit words, both read before either is written.\<close>

definition exchange_int128s :: exchange_f where
  "exchange_int128s base m a b sz = exchange_units base 8 16 m a b (sz div (8 * 2))"
definition exchange_one_int128 :: exchange_f where
  "exchange_one_int128 base m a b sz = exchange_units base 8 16 m a b 1"

definition exchange_func :: "nat \<Rightarrow> nat \<Rightarrow> exchange_f" where
  "exchange_func base sz =
     (let c = (of_nat base OR of_nat sz) AND 15 :: u64 in
      if c = 0 then if sz = 8 * 2 then exchange_one_int128 else exchange_int128s
      else if c = 8 then if sz = 8 then exchange_one_int64 else exchange_int64s
      else if c = 4 \<or> c = 12 then if sz = 4 then exchange_one_int32 else exchange_int32s
      else if c = 2 \<or> c = 6 \<or> c = 10 \<or> c = 14 then if sz = 2 then exchange_one_int16 else exchange_int16s
      else if sz = 1 then exchange_one_byte else exchange_bytes)"

section \<open>Exchanging blocks of bytes\<close>

text \<open>\<open>m'\<close> is \<open>m\<close> with the \<open>n\<close> bytes at \<open>a\<close> and at \<open>b\<close> exchanged.\<close>

definition across :: "nat \<Rightarrow> nat \<Rightarrow> nat \<Rightarrow> nat \<Rightarrow> nat" where
  "across a b n k = (if a \<le> k \<and> k < a + n then b + (k - a)
     else if b \<le> k \<and> k < b + n then a + (k - b) else k)"

definition exchanged :: "u8 list \<Rightarrow> nat \<Rightarrow> nat \<Rightarrow> nat \<Rightarrow> u8 list" where
  "exchanged m a b n = map (\<lambda>k. m ! across a b n k) [0..<length m]"

lemma length_exchanged [simp]: "length (exchanged m a b n) = length m"
  by (simp add: exchanged_def)

lemma nth_exchanged:
  "k < length m \<Longrightarrow> exchanged m a b n ! k = (if a \<le> k \<and> k < a + n then m ! (b + (k - a))
     else if b \<le> k \<and> k < b + n then m ! (a + (k - b)) else m ! k)"
  by (simp add: exchanged_def across_def)

lemma put_unit_in:
  assumes "(base + p) mod al = 0" "p + length u \<le> length m"
  obtains m' where "put_unit base al m p u = Some m'" "length m' = length m"
    "\<And>k. m' ! k = (if p \<le> k \<and> k < p + length u then u ! (k - p) else m ! k)"
proof -
  let ?m = "take p m @ u @ drop (p + length u) m"
  have "?m ! k = (if p \<le> k \<and> k < p + length u then u ! (k - p) else m ! k)" for k
  proof -
    have "length (take p m) = p"
      using assms(2) by simp
    then show ?thesis
      using assms(2) by (auto simp: nth_append)
  qed
  with that [of ?m] show thesis
    using assms by (simp add: put_unit_def mem_rules)
qed

lemma exchange_units_step:
  assumes "(base + a) mod al = 0" "(base + b) mod al = 0" "a + w \<le> length m" "b + w \<le> length m"
    "a = b \<or> a + w \<le> b \<or> b + w \<le> a"
  shows "exchange_units base al w m a b (Suc n) = exchange_units base al w (exchanged m a b w) (a + w) (b + w) n"
proof -
  let ?t = "take w (drop a m)" and ?u = "take w (drop b m)"
  have g: "get_unit base al m a w = Some ?t" "get_unit base al m b w = Some ?u"
    using assms by (simp_all add: get_unit_def)
  have l: "length ?t = w" "length ?u = w"
    using assms(3,4) by simp_all
  obtain m1 where m1: "put_unit base al m a ?u = Some m1" "length m1 = length m"
    "\<And>k. m1 ! k = (if a \<le> k \<and> k < a + length ?u then ?u ! (k - a) else m ! k)"
    using assms(1,3) l(2) put_unit_in [of base a al ?u m] by auto
  obtain m2 where m2: "put_unit base al m1 b ?t = Some m2" "length m2 = length m1"
    "\<And>k. m2 ! k = (if b \<le> k \<and> k < b + length ?t then ?t ! (k - b) else m1 ! k)"
    using assms(2,4) l(1) m1(2) put_unit_in [of base b al ?t m1] by auto
  have "m2 = exchanged m a b w"
    using m1(2) m2(2) assms(3-5) unfolding list_eq_iff_nth_eq
    by (auto simp: nth_exchanged m1(3) m2(3) l)
  with g m1(1) m2(1) show ?thesis
    by simp
qed

lemma exchanged_same [simp]: "exchanged m a a n = m" "exchanged m a b 0 = m"
  by (rule nth_equalityI; auto simp: nth_exchanged)+

lemma across_first: "across a b n (a + x) = b + x" if "x < n"
  using that by (simp add: across_def)

lemma across_second: "across a b n (b + x) = a + x" if "x < n" "a + n \<le> b \<or> b + n \<le> a"
  using that by (auto simp: across_def)

lemma across_out: "across a b n k = k" if "\<not> (a \<le> k \<and> k < a + n)" "\<not> (b \<le> k \<and> k < b + n)"
  using that by (auto simp: across_def)

lemma across_across:
  assumes dis: "a + (w + n) \<le> b \<or> b + (w + n) \<le> a"
  shows "across a b w (across (a + w) (b + w) n k) = across a b (w + n) k"
proof -
  have dis': "a + w + n \<le> b + w \<or> b + w + n \<le> a + w" "a + w \<le> b \<or> b + w \<le> a"
    using dis by auto
  consider x where "k = a + x" "x < w" | x where "k = a + w + x" "x < n" | x where "k = b + x" "x < w"
    | x where "k = b + w + x" "x < n" | "\<not> (a \<le> k \<and> k < a + (w + n))" "\<not> (b \<le> k \<and> k < b + (w + n))"
    by (metis add.assoc le_Suc_ex nat_add_left_cancel_less not_less)
  then show ?thesis
  proof cases
    case 1
    then have "across (a + w) (b + w) n k = k"
      using dis by (intro across_out) auto
    with 1 show ?thesis by (simp add: across_first)
  next
    case 2
    then have "across a b w (b + w + x) = b + w + x"
      using dis by (intro across_out) auto
    moreover have "across (a + w) (b + w) n k = b + w + x" "across a b (w + n) k = b + w + x"
      using 2 across_first [of x n "a + w" "b + w"] across_first [of "w + x" "w + n" a b]
      by (simp_all add: add.assoc)
    ultimately show ?thesis by simp
  next
    case 3
    then have "across (a + w) (b + w) n k = k"
      using dis by (intro across_out) auto
    with 3 dis dis' show ?thesis by (simp add: across_second)
  next
    case 4
    then have "across a b w (a + w + x) = a + w + x"
      using dis by (intro across_out) auto
    moreover have "across (a + w) (b + w) n k = a + w + x" "across a b (w + n) k = a + w + x"
      using 4 dis dis' across_second [of x n "a + w" "b + w"] across_second [of "w + x" "w + n" a b]
      by (simp_all add: add.assoc)
    ultimately show ?thesis by simp
  next
    case 5
    then show ?thesis
      by (subst (1 2 3) across_out) auto
  qed
qed

lemma across_less:
  "a + n \<le> l \<Longrightarrow> b + n \<le> l \<Longrightarrow> k < l \<Longrightarrow> across a b n k < l"
  by (auto simp: across_def)

lemma exchanged_exchanged:
  assumes "a = b \<or> a + (w + n) \<le> b \<or> b + (w + n) \<le> a" "a + (w + n) \<le> length m" "b + (w + n) \<le> length m"
  shows "exchanged (exchanged m a b w) (a + w) (b + w) n = exchanged m a b (w + n)"
proof (cases "a = b")
  case False
  have "across (a + w) (b + w) n k < length m" if "k < length m" for k
    using assms(2,3) that by (intro across_less) auto
  with False assms(1) show ?thesis
    by (simp add: exchanged_def across_across)
qed simp

lemma exchange_units_eq:
  assumes "(base + a) mod al = 0" "(base + b) mod al = 0" "w mod al = 0" "a + n * w \<le> length m" "b + n * w \<le> length m"
    "a = b \<or> a + n * w \<le> b \<or> b + n * w \<le> a"
  shows "exchange_units base al w m a b n = Some (exchanged m a b (n * w))"
  using assms
proof (induction n arbitrary: m a b)
  case 0
  show ?case by simp
next
  case (Suc n)
  have al: "(base + (a + w)) mod al = 0" "(base + (b + w)) mod al = 0"
    using Suc.prems(1-3) by (metis add.assoc mod_add_eq add_0 mod_0)+
  have "exchange_units base al w m a b (Suc n) = exchange_units base al w (exchanged m a b w) (a + w) (b + w) n"
    using Suc.prems by (intro exchange_units_step) auto
  also have "\<dots> = Some (exchanged (exchanged m a b w) (a + w) (b + w) (n * w))"
    using Suc.prems al by (intro Suc.IH) auto
  also have "\<dots> = Some (exchanged m a b (w + n * w))"
    using Suc.prems by (subst exchanged_exchanged) auto
  finally show ?case by simp
qed

section \<open>The selected routine\<close>

lemma low_bits:
  assumes "k \<le> 4"
  shows "take_bit k ((of_nat a OR of_nat b) AND 15 :: u64) = 0 \<longleftrightarrow> a mod 2 ^ k = 0 \<and> b mod 2 ^ k = 0"
proof -
  have "take_bit k (x AND 15) = take_bit k x" for x :: u64
  proof -
    have "x AND 15 = take_bit 4 x"
      by (simp add: take_bit_eq_mask mask_numeral)
    with assms show ?thesis by simp
  qed
  moreover have "take_bit k (of_nat n :: u64) = 0 \<longleftrightarrow> n mod 2 ^ k = 0" for n
  proof -
    have "n mod 2 ^ k < 2 ^ 64"
      using assms power_increasing [of k 64 "2 :: nat"] by (intro less_le_trans [OF mod_less_divisor]) auto
    then have "unat (of_nat (n mod 2 ^ k) :: u64) = n mod 2 ^ k"
      by (simp add: unat_of_nat)
    moreover have "take_bit k (of_nat n :: u64) = of_nat (n mod 2 ^ k)"
      by (subst take_bit_of_nat) (simp add: take_bit_eq_mod)
    ultimately show ?thesis
      by (metis unsigned_0 word_unat_eq_iff of_nat_0)
  qed
  moreover have "take_bit k (x OR y) = 0 \<longleftrightarrow> take_bit k x = 0 \<and> take_bit k y = 0" for x y :: u64
    by (simp add: or_eq_0_iff)
  ultimately show ?thesis
    by metis
qed

lemma units_dvd:
  fixes base :: nat
  assumes "w dvd sz" "sz dvd a" "al dvd w" "base mod al = 0"
  shows "(base + a) mod al = 0"
  using assms(4) dvd_trans [OF dvd_trans [OF assms(3,1)] assms(2)] by (simp add: mod_eq_0_iff_dvd)

lemma exchange_units_dvd:
  assumes "w dvd sz" "sz dvd a" "sz dvd b" "sz dvd n" "al dvd w" "base mod al = 0"
    "a + n \<le> length m" "b + n \<le> length m" "a = b \<or> a + n \<le> b \<or> b + n \<le> a"
  shows "exchange_units base al w m a b (n div w) = Some (exchanged m a b n)"
proof -
  have "n div w * w = n"
    using assms(1,4) by (meson dvd_div_mult_self dvd_trans)
  moreover have "exchange_units base al w m a b (n div w) = Some (exchanged m a b (n div w * w))"
    by (rule exchange_units_eq [OF units_dvd [OF assms(1,2,5,6)] units_dvd [OF assms(1,3,5,6)]])
      (use assms(5,7-9) calculation in simp_all)
  ultimately show ?thesis by simp
qed

text \<open>
  \<open>s\<close> is the size given to \<open>exchange_func\<close>, \<open>sz\<close> the size of an element, \<open>n\<close> that of the block.
\<close>

lemma exchange_func_eq:
  assumes "\<And>k. k \<le> 4 \<Longrightarrow> s mod 2 ^ k = 0 \<Longrightarrow> sz mod 2 ^ k = 0" "s \<in> {1, 2, 4, 8, 16} \<Longrightarrow> n = s"
    "sz dvd a" "sz dvd b" "sz dvd n" "a + n \<le> length m" "b + n \<le> length m"
    "a = b \<or> a + n \<le> b \<or> b + n \<le> a"
  shows "exchange_func base s base m a b n = Some (exchanged m a b n)"
proof -
  define c where "c = (of_nat base OR of_nat s) AND (15 :: u64)"
  have al: "base mod 2 ^ k = 0 \<and> sz mod 2 ^ k = 0" if "k \<le> 4" "take_bit k c = 0" for k
    using low_bits [OF that(1), of base s] that assms(1) [OF that(1)] by (simp add: c_def)
  have units: "exchange_units base al w m a b (n div w) = Some (exchanged m a b n)"
    if "w = 2 ^ k" "al dvd w" "k \<le> 4" "take_bit k c = 0" for al w k
    using that(1,2) al [OF that(3,4)] assms(3-) exchange_units_dvd [of w sz a b n al base m]
    by (metis dvd_eq_mod_eq_0 dvd_trans)
  consider "c = 0" | "c = 8" | "c = 4 \<or> c = 12" | "c = 2 \<or> c = 6 \<or> c = 10 \<or> c = 14"
    | "c \<notin> {0, 8, 4, 12, 2, 6, 10, 14}"
    by blast
  then show ?thesis
  proof cases
    case 1
    then show ?thesis
      using units [of 16 4 8] assms(2)
      by (auto simp: exchange_func_def exchange_one_int128_def exchange_int128s_def Let_def simp flip: c_def)
  next
    case 2
    then show ?thesis
      using units [of 8 3 8] assms(2)
      by (auto simp: exchange_func_def exchange_one_int64_def exchange_int64s_def Let_def simp flip: c_def)
  next
    case 3
    then show ?thesis
      using units [of 4 2 4] assms(2)
      by (auto simp: exchange_func_def exchange_one_int32_def exchange_int32s_def Let_def simp flip: c_def)
  next
    case 4
    then show ?thesis
      using units [of 2 1 2] assms(2)
      by (auto simp: exchange_func_def exchange_one_int16_def exchange_int16s_def Let_def simp flip: c_def)
  next
    case 5
    then show ?thesis
      using units [of 1 0 1] assms(2)
      by (auto simp: exchange_func_def exchange_one_byte_def exchange_bytes_def Let_def simp flip: c_def)
  qed
qed

section \<open>Refinement of the element exchange\<close>

text \<open>The elements of \<open>sz\<close> bytes that a buffer of \<open>n\<close> of them holds.\<close>

definition elems :: "nat \<Rightarrow> nat \<Rightarrow> u8 list \<Rightarrow> u8 list list" where
  "elems sz n m = map (\<lambda>i. take sz (drop (i * sz) m)) [0..<n]"

lemma elems_exchanged:
  assumes "length m = n * sz" "i < n" "j < n"
  shows "elems sz n (exchanged m (i * sz) (j * sz) sz) = (elems sz n m)[i := elems sz n m ! j, j := elems sz n m ! i]"
proof (rule nth_equalityI)
  fix k
  assume "k < length (elems sz n (exchanged m (i * sz) (j * sz) sz))"
  then have k: "k < n" by (simp add: elems_def)
  have room: "l * sz + x < length m" if "l < n" "x < sz" for l x
  proof -
    have "l * sz + x < Suc l * sz" using that(2) by simp
    also have "\<dots> \<le> n * sz" using that(1) by (intro mult_le_mono1) simp
    finally show ?thesis using assms(1) by simp
  qed
  have in_elem: "l * sz \<le> k * sz + x \<and> k * sz + x < l * sz + sz \<longleftrightarrow> k = l" if "x < sz" for x l
  proof
    assume "l * sz \<le> k * sz + x \<and> k * sz + x < l * sz + sz"
    then have "l * sz < Suc k * sz" "k * sz < Suc l * sz"
      using that by auto
    then show "k = l"
      by (metis less_Suc_eq_le mult_less_cancel2 order_antisym)
  qed (use that in auto)
  have "take sz (drop (k * sz) (exchanged m (i * sz) (j * sz) sz)) =
      take sz (drop ((if k = i then j else if k = j then i else k) * sz) m)" (is "?l = ?r")
  proof (rule nth_equalityI)
    have "l * sz + sz \<le> length m" if "l < n" for l
      using assms(1) mult_le_mono1 [of "Suc l" n sz] that by simp
    from this [OF k] this [OF assms(2)] this [OF assms(3)] show len: "length ?l = length ?r"
      by auto
    fix x
    assume "x < length ?l"
    then have x: "x < sz" by simp
    show "?l ! x = ?r ! x"
      using x room [OF k x] room [OF assms(2) x] room [OF assms(3) x] in_elem [OF x, of i] in_elem [OF x, of j]
      by (auto simp: nth_exchanged)
  qed
  then show "elems sz n (exchanged m (i * sz) (j * sz) sz) ! k
      = (elems sz n m)[i := elems sz n m ! j, j := elems sz n m ! i] ! k"
    using k assms(2,3) by (auto simp: elems_def nth_list_update)
qed (simp add: elems_def)

text \<open>
  C32: On a buffer of elements of any size at any address, the routine that \<^verbatim>\<open>exchange_func\<close>
  selects for that address and size makes no misaligned or out of range access, and exchanging
  the elements \<open>i\<close> and \<open>j\<close> with it is the element exchange on which \<^verbatim>\<open>rqsort\<close> is modelled.
\<close>

theorem exchange_func_refines_exch:
  assumes "length m = n * sz" and "i < n" and "j < n"
  shows "\<exists>m'. exchange_func base sz base m (i * sz) (j * sz) sz = Some m'
     \<and> exch (elems sz n m) i j = Some (elems sz n m')"
proof -
  have "i * sz + sz \<le> length m" "j * sz + sz \<le> length m"
    using assms mult_le_mono1 [of "Suc i" n sz] mult_le_mono1 [of "Suc j" n sz] by auto
  moreover have "i * sz = j * sz \<or> i * sz + sz \<le> j * sz \<or> j * sz + sz \<le> i * sz"
    using mult_le_mono1 [of "Suc i" j sz] mult_le_mono1 [of "Suc j" i sz] by (cases i j rule: linorder_cases) auto
  ultimately have "exchange_func base sz base m (i * sz) (j * sz) sz = Some (exchanged m (i * sz) (j * sz) sz)"
    by (intro exchange_func_eq) auto
  moreover have "exch (elems sz n m) i j = Some (elems sz n (exchanged m (i * sz) (j * sz) sz))"
    using assms by (simp add: exch_in elems_exchanged) (simp add: elems_def exch_in)
  ultimately show ?thesis by blast
qed

theorem exchange_func_refines_exch_witness:
  "\<exists>m'. exchange_func 64 3 64 [1, 2, 3, 4, 5, 6] 0 3 3 = Some m' \<and> elems 3 2 m' = [[4, 5, 6], [1, 2, 3]]"
  using exchange_func_refines_exch [of "[1, 2, 3, 4, 5, 6]" 2 3 0 1 64]
  by (auto simp: elems_def exch_def upt_rec mem_rules)

end
