(* ===== verification/CharRange.thy ===== *)
theory CharRange
  imports Sort
begin

text \<open>
  The character ranges of \<^verbatim>\<open>libunicode.c\<close>: a growable array of points, sorted, of which every
  second one ends an interval. The model keeps the buffer, its size and the number of points in
  use; growing it may fail and moves it. The abstract meaning is the set of code points.
\<close>

section \<open>Definitions\<close>

type_synonym points_realloc_fn = "u32 list option \<Rightarrow> nat \<Rightarrow> u32 list option"

record crange =
  points :: "u32 list option"
  cr_len :: nat
  cr_size :: nat

abbreviation region32 :: "u32 list option \<Rightarrow> u32 list" where
  "region32 p \<equiv> (case p of None \<Rightarrow> [] | Some xs \<Rightarrow> xs)"

text \<open>\<open>realloc\<close>, which grants at most \<open>limit\<close> points; \<open>junk\<close> is what fresh memory holds.\<close>

definition cr_default_realloc :: "nat \<Rightarrow> (nat \<Rightarrow> u32) \<Rightarrow> points_realloc_fn" where
  "cr_default_realloc limit junk p n =
     (if n = 0 \<or> limit < n then None
      else Some (map (\<lambda>i. if i < length (region32 p) then region32 p ! i else junk i) [0..<n]))"

definition cr_init :: crange where
  "cr_init = \<lparr>points = None, cr_len = 0, cr_size = 0\<rparr>"

text \<open>The pointer handed back to the allocator.\<close>

definition cr_free :: "crange \<Rightarrow> u32 list option" where
  "cr_free cr = points cr"

definition cr_realloc :: "points_realloc_fn \<Rightarrow> crange \<Rightarrow> nat \<Rightarrow> int \<times> crange" where
  "cr_realloc rf cr n =
     (if cr_size cr < n then
        let new_size = max n (cr_size cr * 3 div 2) in
        case rf (points cr) new_size of
          None \<Rightarrow> (-1, cr)
        | Some new_buf \<Rightarrow> (0, cr\<lparr>points := Some new_buf, cr_size := new_size\<rparr>)
      else (0, cr))"

text \<open>Storing through the pointer; a null pointer has no element.\<close>

definition put_point :: "crange \<Rightarrow> nat \<Rightarrow> u32 \<Rightarrow> crange option" where
  "put_point cr i v = do { b \<leftarrow> store (region32 (points cr)) i v; Some (cr\<lparr>points := Some b\<rparr>) }"

definition cr_copy :: "points_realloc_fn \<Rightarrow> crange \<Rightarrow> crange \<Rightarrow> (int \<times> crange) option" where
  "cr_copy rf cr cr1 =
     (let (r, cr) = cr_realloc rf cr (cr_len cr1) in
      if r \<noteq> 0 then Some (-1, cr)
      else do { b \<leftarrow> memcpy (region32 (points cr)) 0 (region32 (points cr1)) 0 (cr_len cr1);
                Some (0, cr\<lparr>points := (if points cr = None then None else Some b), cr_len := cr_len cr1\<rparr>) })"

definition cr_add_point :: "points_realloc_fn \<Rightarrow> crange \<Rightarrow> u32 \<Rightarrow> (int \<times> crange) option" where
  "cr_add_point rf cr v =
     (let (r, cr) = (if cr_size cr \<le> cr_len cr then cr_realloc rf cr (cr_len cr + 1) else (0, cr)) in
      if r \<noteq> 0 then Some (-1, cr)
      else do { cr \<leftarrow> put_point cr (cr_len cr) v; Some (0, cr\<lparr>cr_len := cr_len cr + 1\<rparr>) })"

definition cr_add_interval :: "points_realloc_fn \<Rightarrow> crange \<Rightarrow> u32 \<Rightarrow> u32 \<Rightarrow> (int \<times> crange) option" where
  "cr_add_interval rf cr c1 c2 =
     (let (r, cr) = (if cr_size cr < cr_len cr + 2 then cr_realloc rf cr (cr_len cr + 2) else (0, cr)) in
      if r \<noteq> 0 then Some (-1, cr)
      else do { cr \<leftarrow> put_point cr (cr_len cr) c1;
                cr \<leftarrow> Some (cr\<lparr>cr_len := cr_len cr + 1\<rparr>);
                cr \<leftarrow> put_point cr (cr_len cr) c2;
                Some (0, cr\<lparr>cr_len := cr_len cr + 1\<rparr>) })"

subsection \<open>Compression\<close>

text \<open>\<open>while ((j + 3) < len && pt[j + 1] == pt[j + 2]) j += 2\<close>\<close>

function compress_run :: "u32 list \<Rightarrow> nat \<Rightarrow> nat \<Rightarrow> nat option" where
  "compress_run pt j len =
     (if j + 3 < len then
        do { x \<leftarrow> load pt (j + 1); y \<leftarrow> load pt (j + 2);
             if x = y then compress_run pt (j + 2) len else Some j }
      else Some j)"
  by pat_completeness auto
termination
  by (relation "measure (\<lambda>(pt, j, len). len - j)") auto

declare compress_run.simps [simp del]

lemma compress_run_ge: "compress_run pt j len = Some j' \<Longrightarrow> j \<le> j'"
proof (induction "len - j" arbitrary: j rule: less_induct)
  case less
  note unfold = compress_run.simps [of pt j len]
  have ih: "j + 3 < len \<Longrightarrow> compress_run pt (Suc (Suc j)) len = Some j' \<Longrightarrow> j \<le> j'"
    using less.hyps [of "j + 2", OF diff_less_mono2] by simp
  show ?case
    using less.prems ih by (auto simp: unfold split: if_splits Option.bind_splits)
qed

function compress_loop :: "u32 list \<Rightarrow> nat \<Rightarrow> nat \<Rightarrow> nat \<Rightarrow> (u32 list \<times> nat) option" where
  "compress_loop pt i k len =
     (if i + 1 < len then
        do { x \<leftarrow> load pt i; y \<leftarrow> load pt (i + 1);
             if x = y then compress_loop pt (i + 2) k len
             else do { j \<leftarrow> compress_run pt i len;
                       x \<leftarrow> load pt i; pt \<leftarrow> store pt k x;
                       y \<leftarrow> load pt (j + 1); pt \<leftarrow> store pt (k + 1) y;
                       compress_loop pt (j + 2) (k + 2) len } }
      else Some (pt, k))"
  by pat_completeness auto
termination
  by (relation "measure (\<lambda>(pt, i, k, len). len - i)") (auto dest!: compress_run_ge)

declare compress_loop.simps [simp del]

definition cr_compress :: "crange \<Rightarrow> crange option" where
  "cr_compress cr =
     do { (pt, k) \<leftarrow> compress_loop (region32 (points cr)) 0 0 (cr_len cr);
          Some (cr\<lparr>points := (if points cr = None then None else Some pt), cr_len := k\<rparr>) }"

subsection \<open>Set operations\<close>

datatype cr_op_type = CR_OP_UNION | CR_OP_INTER | CR_OP_XOR

fun op_bits :: "cr_op_type \<Rightarrow> bool \<Rightarrow> bool \<Rightarrow> bool" where
  "op_bits CR_OP_UNION a b = (a \<or> b)"
| "op_bits CR_OP_INTER a b = (a \<and> b)"
| "op_bits CR_OP_XOR a b = (a \<noteq> b)"

text \<open>The next point of \<open>a\<close> or \<open>b\<close>, or none when both are used up.\<close>

definition next_point :: "u32 list \<Rightarrow> nat \<Rightarrow> u32 list \<Rightarrow> nat \<Rightarrow> nat \<Rightarrow> nat \<Rightarrow> (u32 \<times> nat \<times> nat) option option" where
  "next_point a a_len b b_len a_idx b_idx =
     (if a_idx < a_len \<and> b_idx < b_len then
        do { x \<leftarrow> load a a_idx; y \<leftarrow> load b b_idx;
             Some (Some (if x < y then (x, a_idx + 1, b_idx)
                         else if x = y then (x, a_idx + 1, b_idx + 1)
                         else (y, a_idx, b_idx + 1))) }
      else if a_idx < a_len then do { x \<leftarrow> load a a_idx; Some (Some (x, a_idx + 1, b_idx)) }
      else if b_idx < b_len then do { y \<leftarrow> load b b_idx; Some (Some (y, a_idx, b_idx + 1)) }
      else Some None)"

lemma next_point_decreases:
  "next_point a n b m i j = Some (Some (v, i', j')) \<Longrightarrow> (n - i') + (m - j') < (n - i) + (m - j)"
  by (auto simp: next_point_def split: if_splits Option.bind_splits)

function cr_op_loop :: "points_realloc_fn \<Rightarrow> crange \<Rightarrow> u32 list \<Rightarrow> nat \<Rightarrow> u32 list \<Rightarrow> nat \<Rightarrow> cr_op_type
    \<Rightarrow> nat \<Rightarrow> nat \<Rightarrow> (int \<times> crange) option" where
  "cr_op_loop rf cr a a_len b b_len op a_idx b_idx =
     (case next_point a a_len b b_len a_idx b_idx of
        None \<Rightarrow> None
      | Some None \<Rightarrow> Some (0, cr)
      | Some (Some (v, a_idx, b_idx)) \<Rightarrow>
          if op_bits op (odd a_idx) (odd b_idx) \<noteq> odd (cr_len cr)
          then do { (r, cr) \<leftarrow> cr_add_point rf cr v;
                    if r \<noteq> 0 then Some (-1, cr)
                    else cr_op_loop rf cr a a_len b b_len op a_idx b_idx }
          else cr_op_loop rf cr a a_len b b_len op a_idx b_idx)"
  by pat_completeness auto
termination
  by (relation "measure (\<lambda>(rf, cr, a, n, b, m, op, i, j). (n - i) + (m - j))")
    (auto dest!: next_point_decreases)

declare cr_op_loop.simps [simp del]

definition cr_op :: "points_realloc_fn \<Rightarrow> crange \<Rightarrow> u32 list \<Rightarrow> nat \<Rightarrow> u32 list \<Rightarrow> nat \<Rightarrow> cr_op_type
    \<Rightarrow> (int \<times> crange) option" where
  "cr_op rf cr a a_len b b_len op =
     do { (r, cr) \<leftarrow> cr_op_loop rf cr a a_len b b_len op 0 0;
          if r \<noteq> 0 then Some (-1, cr) else do { cr \<leftarrow> cr_compress cr; Some (0, cr) } }"

definition cr_union1 :: "points_realloc_fn \<Rightarrow> crange \<Rightarrow> u32 list \<Rightarrow> nat \<Rightarrow> (int \<times> crange) option" where
  "cr_union1 rf cr b b_len =
     cr_op rf (cr\<lparr>points := None, cr_len := 0, cr_size := 0\<rparr>)
       (region32 (points cr)) (cr_len cr) b b_len CR_OP_UNION"

definition cr_union_interval :: "points_realloc_fn \<Rightarrow> crange \<Rightarrow> u32 \<Rightarrow> u32 \<Rightarrow> (int \<times> crange) option" where
  "cr_union_interval rf cr c1 c2 = cr_union1 rf cr [c1, c2 + 1] 2"

definition cr_invert :: "points_realloc_fn \<Rightarrow> crange \<Rightarrow> (int \<times> crange) option" where
  "cr_invert rf cr =
     (let len = cr_len cr; (r, cr) = cr_realloc rf cr (len + 2) in
      if r \<noteq> 0 then Some (-1, cr)
      else do { pt \<leftarrow> memmove (region32 (points cr)) 1 0 len;
                pt \<leftarrow> store pt 0 0;
                pt \<leftarrow> store pt (len + 1) 0xFFFFFFFF;
                cr \<leftarrow> cr_compress (cr\<lparr>points := Some pt, cr_len := len + 2\<rparr>);
                Some (0, cr) })"

subsection \<open>Overlapping ranges\<close>

text \<open>The comparison of two ranges is that of their starts; an element of the sort is a pair of points.\<close>

definition point_cmp :: "(u32 \<times> u32) cmp_f" where
  "point_cmp p q = (if fst q < fst p then 1 else 0) - (if fst p < fst q then 1 else 0)"

fun pairs :: "'a list \<Rightarrow> ('a \<times> 'a) list" where
  "pairs (a # b # r) = (a, b) # pairs r"
| "pairs _ = []"

definition unpairs :: "('a \<times> 'a) list \<Rightarrow> 'a list" where
  "unpairs ps = concat (map (\<lambda>(a, b). [a, b]) ps)"

function overlap_end :: "u32 list \<Rightarrow> nat \<Rightarrow> nat \<Rightarrow> u32 \<Rightarrow> (nat \<times> u32) option" where
  "overlap_end pt len i end =
     (if i < len then
        do { start1 \<leftarrow> load pt i; end1 \<leftarrow> load pt (i + 1);
             if end < start1 then Some (i, end)
             else if end1 \<le> end then overlap_end pt len (i + 2) end
             else overlap_end pt len (i + 2) end1 }
      else Some (i, end))"
  by pat_completeness auto
termination
  by (relation "measure (\<lambda>(pt, len, i, end). len - i)") auto

declare overlap_end.simps [simp del]

lemma overlap_end_ge: "overlap_end pt len i e = Some (i', e') \<Longrightarrow> i \<le> i'"
proof (induction "len - i" arbitrary: i e rule: less_induct)
  case less
  note unfold = overlap_end.simps [of pt len i e]
  have ih: "i < len \<Longrightarrow> overlap_end pt len (Suc (Suc i)) e0 = Some (i', e') \<Longrightarrow> i \<le> i'" for e0
    using less.hyps [of "i + 2" e0] by (simp add: diff_less_mono2)
  show ?case
    using less.prems ih by (auto simp: unfold split: if_splits Option.bind_splits)
qed

function overlap_loop :: "u32 list \<Rightarrow> nat \<Rightarrow> nat \<Rightarrow> nat \<Rightarrow> (u32 list \<times> nat) option" where
  "overlap_loop pt len i j =
     (if i < len then
        do { start \<leftarrow> load pt i; end \<leftarrow> load pt (i + 1);
             (i, end) \<leftarrow> overlap_end pt len (i + 2) end;
             pt \<leftarrow> store pt j start; pt \<leftarrow> store pt (j + 1) end;
             overlap_loop pt len i (j + 2) }
      else Some (pt, j))"
  by pat_completeness auto
termination
  by (relation "measure (\<lambda>(pt, len, i, j). len - i)") (auto dest!: overlap_end_ge)

declare overlap_loop.simps [simp del]

definition cr_sort_and_remove_overlap :: "crange \<Rightarrow> crange option" where
  "cr_sort_and_remove_overlap cr =
     (let n = cr_len cr div 2; pt = region32 (points cr) in
      do { ps \<leftarrow> rqsort point_cmp (pairs (take (2 * n) pt)) n 8;
           (pt, j) \<leftarrow> overlap_loop (unpairs ps @ drop (2 * n) pt) (cr_len cr) 0 0;
           Some (cr\<lparr>points := (if points cr = None then None else Some pt), cr_len := j\<rparr>) })"

section \<open>Meaning of a point list\<close>

text \<open>
  \<^term>\<open>in_pts c xs\<close>: some interval of \<open>xs\<close> holds \<open>c\<close>. In a sorted list of even length that is a
  parity: an odd number of points is at most \<open>c\<close>.
\<close>

definition in_pts :: "u32 \<Rightarrow> u32 list \<Rightarrow> bool" where
  "in_pts c xs = list_ex (\<lambda>(a, b). a \<le> c \<and> c < b) (pairs xs)"

fun par :: "u32 \<Rightarrow> u32 list \<Rightarrow> bool" where
  "par c [] = False"
| "par c (x # xs) = ((x \<le> c) \<noteq> par c xs)"

definition canonical :: "u32 list \<Rightarrow> bool" where
  "canonical xs = (sorted_wrt (<) xs \<and> even (length xs))"

lemma par_append: "par c (xs @ ys) = (par c xs \<noteq> par c ys)"
  by (induction xs) auto

lemma par_below: "\<forall>x\<in>set xs. c < x \<Longrightarrow> \<not> par c xs"
  by (induction xs) auto

lemma par_above: "\<forall>x\<in>set xs. x \<le> c \<Longrightarrow> par c xs = odd (length xs)"
  by (induction xs) auto

lemma pairs_set: "(a, b) \<in> set (pairs xs) \<Longrightarrow> a \<in> set xs \<and> b \<in> set xs"
  by (induction xs rule: pairs.induct) auto

lemma in_pts_simps [simp]:
  "\<not> in_pts c []" "\<not> in_pts c [a]"
  "in_pts c (a # b # xs) = (a \<le> c \<and> c < b \<or> in_pts c xs)"
  by (auto simp: in_pts_def)

lemma in_pts_below: "\<forall>x\<in>set xs. c < x \<Longrightarrow> \<not> in_pts c xs"
  by (induction xs rule: pairs.induct) auto

lemma in_pts_par: "sorted xs \<Longrightarrow> even (length xs) \<Longrightarrow> in_pts c xs = par c xs"
proof (induction xs rule: pairs.induct)
  case (1 a b r)
  then have r: "\<forall>x\<in>set r. b \<le> x" and ab: "a \<le> b" by auto
  show ?case
  proof (cases "c < b")
    case True
    with r have "\<forall>x\<in>set r. c < x" by (auto intro: less_le_trans)
    then show ?thesis using True by (auto simp: par_below in_pts_below)
  next
    case False
    with 1 ab show ?thesis by auto
  qed
qed auto

lemma unpairs_simps [simp]: "unpairs [] = []" "unpairs ((a, b) # ps) = a # b # unpairs ps"
  by (auto simp: unpairs_def)

lemma pairs_unpairs [simp]: "pairs (unpairs ps) = ps"
  by (induction ps) auto

lemma unpairs_pairs: "even (length xs) \<Longrightarrow> unpairs (pairs xs) = xs"
  by (induction xs rule: pairs.induct) auto

lemma length_unpairs [simp]: "length (unpairs ps) = 2 * length ps"
  by (induction ps) auto

lemma length_pairs: "length (pairs xs) = length xs div 2"
  by (induction xs rule: pairs.induct) auto

lemma canonical_sorted: "canonical xs \<Longrightarrow> sorted xs \<and> even (length xs)"
  by (simp add: canonical_def strict_sorted_imp_sorted)

section \<open>The loops on lists\<close>

fun compress_pts :: "u32 list \<Rightarrow> u32 list" and compress_from :: "u32 \<Rightarrow> u32 \<Rightarrow> u32 list \<Rightarrow> u32 list" where
  "compress_pts (a # b # r) = (if a = b then compress_pts r else compress_from a b r)"
| "compress_pts _ = []"
| "compress_from a b (c # d # r) =
     (if b = c then compress_from a d r else a # b # compress_pts (c # d # r))"
| "compress_from a b _ = [a, b]"

fun op_pts :: "cr_op_type \<Rightarrow> bool \<Rightarrow> bool \<Rightarrow> bool \<Rightarrow> u32 list \<Rightarrow> u32 list \<Rightarrow> u32 list" where
  "op_pts f pa pb po (x # xs) (y # ys) =
     (if x < y then let q = op_bits f (\<not> pa) pb in
        (if q \<noteq> po then [x] else []) @ op_pts f (\<not> pa) pb q xs (y # ys)
      else if x = y then let q = op_bits f (\<not> pa) (\<not> pb) in
        (if q \<noteq> po then [x] else []) @ op_pts f (\<not> pa) (\<not> pb) q xs ys
      else let q = op_bits f pa (\<not> pb) in
        (if q \<noteq> po then [y] else []) @ op_pts f pa (\<not> pb) q (x # xs) ys)"
| "op_pts f pa pb po (x # xs) [] =
     (let q = op_bits f (\<not> pa) pb in (if q \<noteq> po then [x] else []) @ op_pts f (\<not> pa) pb q xs [])"
| "op_pts f pa pb po [] (y # ys) =
     (let q = op_bits f pa (\<not> pb) in (if q \<noteq> po then [y] else []) @ op_pts f pa (\<not> pb) q [] ys)"
| "op_pts f pa pb po [] [] = []"

lemma compress_par:
  "(even (length xs) \<longrightarrow> par c (compress_pts xs) = par c xs)"
  "(even (length r) \<longrightarrow> par c (compress_from a b r) = par c (a # b # r))"
  by (induction xs and a b r rule: compress_pts_compress_from.induct) auto

lemma compress_even:
  "even (length (compress_pts xs))" "even (length (compress_from a b r))"
  by (induction xs and a b r rule: compress_pts_compress_from.induct) auto

lemma compress_subset:
  "set (compress_pts xs) \<subseteq> set xs" "set (compress_from a b r) \<subseteq> insert a (insert b (set r))"
  by (induction xs and a b r rule: compress_pts_compress_from.induct) (auto split: if_splits)

lemma compress_sorted:
  "(sorted xs \<longrightarrow> even (length xs) \<longrightarrow> sorted_wrt (<) (compress_pts xs))"
  "(sorted (b # r) \<longrightarrow> a < b \<longrightarrow> even (length r) \<longrightarrow> sorted_wrt (<) (compress_from a b r))"
proof (induction xs and a b r rule: compress_pts_compress_from.induct)
  case (3 a b c d r)
  show ?case
  proof (cases "b = c")
    case True
    with 3 show ?thesis by auto
  next
    case False
    have "\<forall>x\<in>set (compress_pts (c # d # r)). b < x" if "sorted (b # c # d # r)"
    proof
      fix x assume "x \<in> set (compress_pts (c # d # r))"
      then have "x \<in> set (c # d # r)" using compress_subset(1) by blast
      with that False show "b < x" by auto
    qed
    with 3 False show ?thesis by (auto simp del: compress_pts.simps intro: less_trans)
  qed
qed auto

lemma compress_canonical: "sorted xs \<Longrightarrow> even (length xs) \<Longrightarrow> canonical (compress_pts xs)"
  by (simp add: canonical_def compress_even compress_sorted)

lemma compress_in_pts:
  "sorted xs \<Longrightarrow> even (length xs) \<Longrightarrow> in_pts c (compress_pts xs) = in_pts c xs"
  by (simp add: in_pts_par compress_par compress_even compress_sorted strict_sorted_imp_sorted)

lemma op_pts_subset: "set (op_pts f pa pb po xs ys) \<subseteq> set xs \<union> set ys"
  by (induction f pa pb po xs ys rule: op_pts.induct) (auto simp: Let_def split: if_splits)

lemma op_pts_lower: "\<forall>z\<in>set xs \<union> set ys. v \<le> z \<Longrightarrow> z \<in> set (op_pts f pa pb po xs ys) \<Longrightarrow> v \<le> z"
  using op_pts_subset by blast

lemma emit_sorted:
  "sorted l \<Longrightarrow> (\<And>z. z \<in> set l \<Longrightarrow> x \<le> z) \<Longrightarrow> sorted ((if P then [x] else []) @ l)"
  by simp

lemma op_pts_sorted: "sorted xs \<Longrightarrow> sorted ys \<Longrightarrow> sorted (op_pts f pa pb po xs ys)"
proof (induction f pa pb po xs ys rule: op_pts.induct)
  case (1 f pa pb po x xs y ys)
  have "\<forall>z\<in>set xs \<union> set (y # ys). x \<le> z" if "x < y"
    using that 1(4,5) by (auto intro: order_trans less_imp_le)
  moreover have "\<forall>z\<in>set (x # xs) \<union> set ys. y \<le> z" if "\<not> x < y"
    using that 1(4,5) by (auto intro: order_trans)
  moreover have "\<forall>z\<in>set xs \<union> set ys. x \<le> z" if "x = y"
    using that 1(4,5) by auto
  ultimately have low:
    "x < y \<Longrightarrow> z \<in> set (op_pts f qa qb q xs (y # ys)) \<Longrightarrow> x \<le> z"
    "\<not> x < y \<Longrightarrow> z \<in> set (op_pts f qa qb q (x # xs) ys) \<Longrightarrow> y \<le> z"
    "x = y \<Longrightarrow> z \<in> set (op_pts f qa qb q xs ys) \<Longrightarrow> x \<le> z" for qa qb q z
    by (blast dest: op_pts_lower)+
  have s: "sorted xs" "sorted ys" using 1(4,5) by auto
  have "sorted ((if op_bits f (\<not> pa) pb \<noteq> po then [x] else [])
      @ op_pts f (\<not> pa) pb (op_bits f (\<not> pa) pb) xs (y # ys))" if "x < y"
    using 1(1) [OF that refl s(1) 1(5)] low(1) [OF that] by (rule emit_sorted)
  moreover have "sorted ((if op_bits f (\<not> pa) (\<not> pb) \<noteq> po then [x] else [])
      @ op_pts f (\<not> pa) (\<not> pb) (op_bits f (\<not> pa) (\<not> pb)) xs ys)" if "x = y"
    using 1(2) [OF _ that refl s] low(3) [OF that] that by (intro emit_sorted) auto
  moreover have "sorted ((if op_bits f pa (\<not> pb) \<noteq> po then [y] else [])
      @ op_pts f pa (\<not> pb) (op_bits f pa (\<not> pb)) (x # xs) ys)" if "\<not> x < y" "x \<noteq> y"
    using 1(3) [OF that refl 1(4) s(2)] low(2) [OF that(1)] by (rule emit_sorted)
  ultimately show ?case
    by (cases "x < y"; cases "x = y"; simp only: op_pts.simps Let_def if_True if_False simp_thms)
next
  case (2 f pa pb po x xs)
  then show ?case by (auto simp only: op_pts.simps Let_def sorted_simps intro!: emit_sorted elim!: op_pts_lower [rotated]) auto
next
  case (3 f pa pb po y ys)
  then show ?case by (auto simp only: op_pts.simps Let_def sorted_simps intro!: emit_sorted elim!: op_pts_lower [rotated]) auto
qed simp

lemma op_pts_par:
  "po = op_bits f pa pb \<Longrightarrow> sorted xs \<Longrightarrow> sorted ys \<Longrightarrow>
     (par c (op_pts f pa pb po xs ys) \<noteq> po) = op_bits f (par c xs \<noteq> pa) (par c ys \<noteq> pb)"
proof (induction f pa pb po xs ys rule: op_pts.induct)
  case (1 f pa pb po x xs y ys)
  show ?case
  proof (cases "c < x \<and> c < y")
    case True
    with 1(5,6) have lt: "\<forall>z\<in>set (x # xs). c < z" "\<forall>z\<in>set (y # ys). c < z"
      by (auto intro: less_le_trans)
    moreover have "\<forall>z\<in>set (op_pts f pa pb po (x # xs) (y # ys)). c < z"
      using lt op_pts_subset by blast
    ultimately show ?thesis using 1(4) by (simp only: par_below) simp
  next
    case False
    then consider "x < y" "x \<le> c" | "x = y" "x \<le> c" | "y < x" "y \<le> c" by fastforce
    then show ?thesis
      using 1 by cases (auto simp: Let_def par_append)
  qed
next
  case (2 f pa pb po x xs)
  show ?case
  proof (cases "c < x")
    case True
    with 2 have lt: "\<forall>z\<in>set (x # xs). c < z" by (auto intro: less_le_trans)
    moreover have "\<forall>z\<in>set (op_pts f pa pb po (x # xs) []). c < z"
      using lt op_pts_subset [of f pa pb po "x # xs" "[]"] by fastforce
    ultimately show ?thesis using 2(2) by (simp only: par_below par.simps(1)) simp
  next
    case False
    then have "x \<le> c" by simp
    with 2 show ?thesis by (auto simp: Let_def par_append)
  qed
next
  case (3 f pa pb po y ys)
  show ?case
  proof (cases "c < y")
    case True
    with 3 have lt: "\<forall>z\<in>set (y # ys). c < z" by (auto intro: less_le_trans)
    moreover have "\<forall>z\<in>set (op_pts f pa pb po [] (y # ys)). c < z"
      using lt op_pts_subset [of f pa pb po "[]" "y # ys"] by fastforce
    ultimately show ?thesis using 3(2) by (simp only: par_below par.simps(1)) simp
  next
    case False
    then have "y \<le> c" by simp
    with 3 show ?thesis by (auto simp: Let_def par_append)
  qed
qed simp

section \<open>The range operations refine the loops on lists\<close>

text \<open>The contract of the allocator: a grown region keeps the points it had.\<close>

locale points_realloc =
  fixes rf :: points_realloc_fn
  assumes grown: "rf p n = Some b \<Longrightarrow> length (region32 p) \<le> n \<Longrightarrow>
    length b = n \<and> take (length (region32 p)) b = region32 p"

definition grants :: "points_realloc_fn \<Rightarrow> nat \<Rightarrow> bool" where
  "grants rf N = (\<forall>p n. 0 < n \<longrightarrow> n \<le> N \<longrightarrow> rf p n \<noteq> None)"

lemma grants_mono: "grants rf N \<Longrightarrow> M \<le> N \<Longrightarrow> grants rf M"
  by (auto simp: grants_def)

definition wf_cr :: "crange \<Rightarrow> bool" where
  "wf_cr cr = (length (region32 (points cr)) = cr_size cr \<and> cr_len cr \<le> cr_size cr)"

abbreviation pts :: "crange \<Rightarrow> u32 list" where
  "pts cr \<equiv> take (cr_len cr) (region32 (points cr))"

lemma length_pts: "wf_cr cr \<Longrightarrow> length (pts cr) = cr_len cr"
  by (simp add: wf_cr_def)

lemma cr_init_wf: "wf_cr cr_init" "pts cr_init = []"
  by (auto simp: wf_cr_def cr_init_def)

lemma drop_take_Cons: "i < n \<Longrightarrow> n \<le> length xs \<Longrightarrow> drop i (take n xs) = xs ! i # drop (Suc i) (take n xs)"
  by (simp add: Cons_nth_drop_Suc [symmetric])

context points_realloc
begin

lemma cr_realloc_spec:
  assumes "wf_cr cr" and "cr_len cr \<le> n" and "cr_realloc rf cr n = (r, cr')"
  shows "r = 0 \<and> wf_cr cr' \<and> n \<le> cr_size cr' \<and> (n \<noteq> 0 \<longrightarrow> points cr' \<noteq> None) \<and> pts cr' = pts cr
           \<and> cr_len cr' = cr_len cr
       \<or> r = -1 \<and> cr' = cr"
    and "grants rf (2 * n) \<Longrightarrow> r = 0"
proof -
  show "r = 0 \<and> wf_cr cr' \<and> n \<le> cr_size cr' \<and> (n \<noteq> 0 \<longrightarrow> points cr' \<noteq> None) \<and> pts cr' = pts cr
           \<and> cr_len cr' = cr_len cr
       \<or> r = -1 \<and> cr' = cr"
  proof (cases "cr_size cr < n")
    case False
    with assms show ?thesis by (cases "points cr") (auto simp: cr_realloc_def wf_cr_def)
  next
    case True
    let ?n = "max n (cr_size cr * 3 div 2)"
    show ?thesis
    proof (cases "rf (points cr) ?n")
      case None
      with assms True show ?thesis by (auto simp: cr_realloc_def Let_def)
    next
      case (Some b)
      have "length b = ?n" "take (cr_size cr) b = region32 (points cr)"
        using grown [OF Some] True assms(1) by (auto simp: wf_cr_def)
      moreover from this have "take (cr_len cr) b = pts cr"
        using assms(1) by (metis min.absorb1 take_take wf_cr_def)
      ultimately show ?thesis
        using assms True Some by (auto simp: cr_realloc_def wf_cr_def Let_def)
    qed
  qed
next
  assume g: "grants rf (2 * n)"
  show "r = 0"
  proof (cases "cr_size cr < n")
    case True
    then have "max n (cr_size cr * 3 div 2) \<le> 2 * n" by simp
    with g True have "rf (points cr) (max n (cr_size cr * 3 div 2)) \<noteq> None"
      unfolding grants_def by (metis gr0I max.strict_coboundedI1 not_less_zero)
    with assms(3) True show ?thesis by (auto simp: cr_realloc_def Let_def)
  qed (use assms(3) in \<open>simp add: cr_realloc_def\<close>)
qed

lemma put_point_end:
  assumes "wf_cr cr" "cr_len cr < cr_size cr"
  shows "\<exists>cr'. put_point cr (cr_len cr) v = Some cr' \<and> wf_cr (cr'\<lparr>cr_len := Suc (cr_len cr)\<rparr>)
    \<and> pts (cr'\<lparr>cr_len := Suc (cr_len cr)\<rparr>) = pts cr @ [v] \<and> cr_len cr' = cr_len cr \<and> cr_size cr' = cr_size cr"
  using assms by (auto simp: put_point_def wf_cr_def store_def take_list_update_Suc)

lemma cr_add_point_spec:
  assumes "wf_cr cr"
  shows "\<exists>r cr'. cr_add_point rf cr v = Some (r, cr') \<and> wf_cr cr'
     \<and> (r = 0 \<and> pts cr' = pts cr @ [v] \<and> cr_len cr' = cr_len cr + 1 \<or> r = -1 \<and> pts cr' = pts cr)
     \<and> (grants rf (2 * (cr_len cr + 1)) \<longrightarrow> r = 0)"
proof -
  obtain r cr1 where c: "(if cr_size cr \<le> cr_len cr then cr_realloc rf cr (cr_len cr + 1) else (0, cr)) = (r, cr1)"
    by fastforce
  have k: "r = 0 \<and> wf_cr cr1 \<and> cr_len cr < cr_size cr1 \<and> pts cr1 = pts cr \<and> cr_len cr1 = cr_len cr
      \<or> r = -1 \<and> cr1 = cr" "grants rf (2 * (cr_len cr + 1)) \<Longrightarrow> r = 0"
    using c cr_realloc_spec [OF assms, of "cr_len cr + 1" r cr1] assms by (auto split: if_splits)
  show ?thesis
  proof (cases "r = 0")
    case True
    with k(1) obtain cr2 where "put_point cr1 (cr_len cr1) v = Some cr2"
      "wf_cr (cr2\<lparr>cr_len := Suc (cr_len cr1)\<rparr>)" "pts (cr2\<lparr>cr_len := Suc (cr_len cr1)\<rparr>) = pts cr @ [v]"
      "cr_len cr2 = cr_len cr1"
      using put_point_end [of cr1 v] by force
    with True k show ?thesis by (simp add: cr_add_point_def c)
  next
    case False
    with k assms show ?thesis by (auto simp: cr_add_point_def c)
  qed
qed

lemma cr_add_interval_spec:
  assumes "wf_cr cr"
  shows "\<exists>r cr'. cr_add_interval rf cr c1 c2 = Some (r, cr') \<and> wf_cr cr'
     \<and> (r = 0 \<and> pts cr' = pts cr @ [c1, c2] \<and> cr_len cr' = cr_len cr + 2 \<or> r = -1 \<and> pts cr' = pts cr)
     \<and> (grants rf (2 * (cr_len cr + 2)) \<longrightarrow> r = 0)"
proof -
  obtain r cr1 where c: "(if cr_size cr < cr_len cr + 2 then cr_realloc rf cr (cr_len cr + 2) else (0, cr)) = (r, cr1)"
    by fastforce
  have k: "r = 0 \<and> wf_cr cr1 \<and> cr_len cr + 2 \<le> cr_size cr1 \<and> pts cr1 = pts cr \<and> cr_len cr1 = cr_len cr
      \<or> r = -1 \<and> cr1 = cr" "grants rf (2 * (cr_len cr + 2)) \<Longrightarrow> r = 0"
    using c cr_realloc_spec [OF assms, of "cr_len cr + 2" r cr1] assms by (auto split: if_splits)
  show ?thesis
  proof (cases "r = 0")
    case True
    with k(1) obtain cr2 where p1: "put_point cr1 (cr_len cr1) c1 = Some cr2"
      "wf_cr (cr2\<lparr>cr_len := Suc (cr_len cr1)\<rparr>)" "pts (cr2\<lparr>cr_len := Suc (cr_len cr1)\<rparr>) = pts cr @ [c1]"
      "cr_len cr2 = cr_len cr1" "cr_size cr2 = cr_size cr1"
      using put_point_end [of cr1 c1] by force
    let ?cr2 = "cr2\<lparr>cr_len := Suc (cr_len cr1)\<rparr>"
    have "cr_len ?cr2 < cr_size ?cr2" using k(1) True p1 by simp
    then obtain cr3 where p2: "put_point ?cr2 (cr_len ?cr2) c2 = Some cr3"
      "wf_cr (cr3\<lparr>cr_len := Suc (cr_len ?cr2)\<rparr>)" "pts (cr3\<lparr>cr_len := Suc (cr_len ?cr2)\<rparr>) = pts cr @ [c1, c2]"
      "cr_len cr3 = cr_len ?cr2"
      using put_point_end [of ?cr2 c2] p1(2,3) by force
    then have "cr_add_interval rf cr c1 c2 = Some (0, cr3\<lparr>cr_len := Suc (cr_len ?cr2)\<rparr>)"
      using True c p1 by (auto simp: cr_add_interval_def)
    with p2 k True show ?thesis by auto
  next
    case False
    with k assms c show ?thesis by (auto simp: cr_add_interval_def)
  qed
qed

end

lemma next_point_eq:
  assumes "i \<le> n" "n \<le> length a" "j \<le> m" "m \<le> length b"
  shows "next_point a n b m i j =
    (case (drop i (take n a), drop j (take m b)) of
       (x # _, y # _) \<Rightarrow> Some (Some (if x < y then (x, Suc i, j) else if x = y then (x, Suc i, Suc j) else (y, i, Suc j)))
     | (x # _, []) \<Rightarrow> Some (Some (x, Suc i, j))
     | ([], y # _) \<Rightarrow> Some (Some (y, i, Suc j))
     | ([], []) \<Rightarrow> Some None)"
proof (cases "i < n"; cases "j < m")
qed (use assms in \<open>auto simp: next_point_def drop_take_Cons load_def split: list.split\<close>)

context points_realloc
begin

lemma cr_op_loop_spec:
  assumes "wf_cr cr" "i \<le> n" "n \<le> length a" "j \<le> m" "m \<le> length b"
  shows "\<exists>r cr'. cr_op_loop rf cr a n b m f i j = Some (r, cr') \<and> wf_cr cr' \<and> (r = 0 \<or> r = -1)
     \<and> (r = 0 \<longrightarrow> pts cr' = pts cr @ op_pts f (odd i) (odd j) (odd (cr_len cr)) (drop i (take n a)) (drop j (take m b)))
     \<and> (grants rf (2 * (cr_len cr + (n - i) + (m - j))) \<longrightarrow> r = 0)"
  using assms
proof (induction "(n - i) + (m - j)" arbitrary: cr i j rule: less_induct)
  case less
  note prems = less.prems
  show ?case
  proof (cases "next_point a n b m i j = Some None")
    case True
    then have "drop i (take n a) = []" "drop j (take m b) = []"
      using next_point_eq [OF prems(2-5)] by (auto split: list.splits)
    with True prems(1) show ?thesis by (simp add: cr_op_loop.simps [of rf cr a n b m f i j])
  next
    case False
    have "next_point a n b m i j \<noteq> None"
      using next_point_eq [OF prems(2-5)] by (auto split: list.splits)
    with False obtain p where "next_point a n b m i j = Some (Some p)" by auto
    then obtain v i' j' where np: "next_point a n b m i j = Some (Some (v, i', j'))"
      by (cases p) auto
    then have le: "(n - i') + (m - j') < (n - i) + (m - j)"
      by (rule next_point_decreases)
    let ?q = "op_bits f (odd i') (odd j')"
    have step: "op_pts f (odd i) (odd j) po (drop i (take n a)) (drop j (take m b))
        = (if ?q \<noteq> po then [v] else []) @ op_pts f (odd i') (odd j') ?q (drop i' (take n a)) (drop j' (take m b))"
      and bnd: "i' \<le> n" "j' \<le> m" for po
      using np prems(2-5) by (auto simp: next_point_def drop_take_Cons load_def Let_def split: if_splits)
    note g = grants_mono [of rf]
    note unfold = cr_op_loop.simps [of rf cr a n b m f i j]
    show ?thesis
    proof (cases "?q = odd (cr_len cr)")
      case True
      then show ?thesis
        using less.hyps [OF le prems(1) bnd(1) prems(3) bnd(2) prems(5)] le
          g [of "2 * (cr_len cr + (n - i) + (m - j))" "2 * (cr_len cr + (n - i') + (m - j'))"]
        by (auto simp: unfold np step)
    next
      case False
      obtain r cr1 where c: "cr_add_point rf cr v = Some (r, cr1)" "wf_cr cr1"
        "r = 0 \<and> pts cr1 = pts cr @ [v] \<and> cr_len cr1 = cr_len cr + 1 \<or> r = -1 \<and> pts cr1 = pts cr"
        "grants rf (2 * (cr_len cr + 1)) \<longrightarrow> r = 0"
        using cr_add_point_spec [OF prems(1), of v] by blast
      show ?thesis
      proof (cases "r = 0")
        case True
        with c(3) have l: "cr_len cr1 = cr_len cr + 1" "?q = odd (cr_len cr1)" "pts cr1 = pts cr @ [v]"
          using False by auto
        show ?thesis
          using less.hyps [OF le c(2) bnd(1) prems(3) bnd(2) prems(5)] le True False l
            g [of "2 * (cr_len cr + (n - i) + (m - j))" "2 * (cr_len cr1 + (n - i') + (m - j'))"]
          by (auto simp: unfold np step c(1))
      next
        case F: False
        then show ?thesis
          using c False le g [of "2 * (cr_len cr + (n - i) + (m - j))" "2 * (cr_len cr + 1)"]
          by (auto simp: unfold np)
      qed
    qed
  qed
qed

end

lemma compress_run_spec:
  assumes "len \<le> length pt" "i + 1 < len"
  shows "\<exists>j. compress_run pt i len = Some j \<and> i \<le> j \<and> j + 1 < len
    \<and> compress_from x (pt ! (i + 1)) (drop (i + 2) (take len pt)) = x # pt ! (j + 1) # compress_pts (drop (j + 2) (take len pt))"
  using assms
proof (induction "len - i" arbitrary: i rule: less_induct)
  case less
  note unfold = compress_run.simps [of pt i len]
  show ?case
  proof (cases "i + 3 < len")
    case False
    then have "drop (i + 2) (take len pt) = [] \<or> (\<exists>z. drop (i + 2) (take len pt) = [z])"
      using less.prems by (cases "drop (i + 2) (take len pt)"; cases "tl (drop (i + 2) (take len pt))")
        (auto dest!: arg_cong [where f = length])
    with False less.prems show ?thesis by (auto simp: unfold)
  next
    case True
    then have d: "drop (i + 2) (take len pt) = pt ! (i + 2) # pt ! (i + 3) # drop (i + 4) (take len pt)"
      using less.prems by (simp add: drop_take_Cons numeral_eq_Suc)
    show ?thesis
    proof (cases "pt ! (i + 1) = pt ! (i + 2)")
      case eq: True
      obtain j where "compress_run pt (i + 2) len = Some j" "i + 2 \<le> j" "j + 1 < len"
        "compress_from x (pt ! (i + 3)) (drop (i + 4) (take len pt)) = x # pt ! (j + 1) # compress_pts (drop (j + 2) (take len pt))"
        using less.hyps [of "i + 2", OF diff_less_mono2] less.prems True by (auto simp: numeral_eq_Suc)
      then show ?thesis using True eq d less.prems
        by (auto simp: unfold load_in)
    next
      case False
      with True d less.prems show ?thesis by (auto simp: unfold load_in)
    qed
  qed
qed

lemma compress_loop_spec:
  assumes "len \<le> length pt" "k \<le> i" "i \<le> len"
  shows "\<exists>pt' k'. compress_loop pt i k len = Some (pt', k') \<and> length pt' = length pt \<and> k' \<le> len
    \<and> take k' pt' = take k pt @ compress_pts (drop i (take len pt))"
  using assms
proof (induction "len - i" arbitrary: pt i k rule: less_induct)
  case less
  note unfold = compress_loop.simps [of pt i k len]
  show ?case
  proof (cases "i + 1 < len")
    case False
    then have "drop i (take len pt) = [] \<or> (\<exists>z. drop i (take len pt) = [z])"
      using less.prems by (cases "drop i (take len pt)"; cases "tl (drop i (take len pt))")
        (auto dest!: arg_cong [where f = length])
    with False less.prems show ?thesis by (auto simp: unfold)
  next
    case True
    then have d: "drop i (take len pt) = pt ! i # pt ! (i + 1) # drop (i + 2) (take len pt)"
      using less.prems by (simp add: drop_take_Cons numeral_eq_Suc)
    show ?thesis
    proof (cases "pt ! i = pt ! (i + 1)")
      case eq: True
      then show ?thesis using less.hyps [of "i + 2" pt k] less.prems True d
        by (auto simp: unfold load_in diff_less_mono2)
    next
      case False
      obtain j where j: "compress_run pt i len = Some j" "i \<le> j" "j + 1 < len"
        "compress_from (pt ! i) (pt ! (i + 1)) (drop (i + 2) (take len pt)) = pt ! i # pt ! (j + 1) # compress_pts (drop (j + 2) (take len pt))"
        using compress_run_spec [OF less.prems(1) True] by blast
      let ?pt = "pt[k := pt ! i, k + 1 := pt[k := pt ! i] ! (j + 1)]"
      have nth: "pt[k := pt ! i] ! (j + 1) = pt ! (j + 1)"
        using less.prems j by simp
      have dr: "drop (j + 2) (take len ?pt) = drop (j + 2) (take len pt)"
        using less.prems j(2) by (simp add: drop_take)
      have tk: "take (k + 2) ?pt = take k pt @ [pt ! i, pt ! (j + 1)]"
        using less.prems j nth by (simp add: take_Suc_conv_app_nth numeral_eq_Suc)
      obtain pt' k' where "compress_loop ?pt (j + 2) (k + 2) len = Some (pt', k')" "length pt' = length pt" "k' \<le> len"
        "take k' pt' = take (k + 2) ?pt @ compress_pts (drop (j + 2) (take len ?pt))"
        using less.hyps [of "j + 2" ?pt "k + 2", OF diff_less_mono2] less.prems j by auto
      then show ?thesis using True False d j less.prems
        using dr tk nth by (auto simp: unfold load_in store_in)
    qed
  qed
qed

lemma cr_compress_spec:
  assumes "wf_cr cr"
  shows "\<exists>cr'. cr_compress cr = Some cr' \<and> wf_cr cr' \<and> pts cr' = compress_pts (pts cr)"
proof -
  obtain pt' k' where "compress_loop (region32 (points cr)) 0 0 (cr_len cr) = Some (pt', k')"
    "length pt' = length (region32 (points cr))" "k' \<le> cr_len cr" "take k' pt' = compress_pts (pts cr)"
    using compress_loop_spec [of "cr_len cr" "region32 (points cr)" 0 0] assms by (auto simp: wf_cr_def)
  with assms show ?thesis
    by (cases "points cr") (auto simp: cr_compress_def wf_cr_def)
qed

lemma op_pts_even:
  assumes "sorted xs" "sorted ys" "even (length xs)" "even (length ys)"
  shows "even (length (op_pts f False False False xs ys))"
proof -
  have "\<not> op_bits f False False" by (cases f) auto
  then show ?thesis
    using op_pts_par [of False f False False xs ys "-1"] assms by (simp add: par_above)
qed

lemma op_pts_mem:
  assumes "sorted xs" "sorted ys" "even (length xs)" "even (length ys)"
  shows "in_pts c (op_pts f False False False xs ys) = op_bits f (in_pts c xs) (in_pts c ys)"
proof -
  have "\<not> op_bits f False False" by (cases f) auto
  then show ?thesis
    using op_pts_par [of False f False False xs ys c] assms
    by (simp add: in_pts_par op_pts_even op_pts_sorted)
qed

text \<open>The outcome of an operation that builds a set: a canonical list of the wanted members, or \<open>-1\<close>.\<close>

definition builds :: "(u32 \<Rightarrow> bool) \<Rightarrow> bool \<Rightarrow> (int \<times> crange) option \<Rightarrow> bool" where
  "builds P sure res \<longleftrightarrow> (\<exists>r cr. res = Some (r, cr) \<and> wf_cr cr \<and> (r = 0 \<or> r = -1)
     \<and> (r = 0 \<longrightarrow> canonical (pts cr) \<and> (\<forall>c. in_pts c (pts cr) = P c)) \<and> (sure \<longrightarrow> r = 0))"

context points_realloc
begin

lemma cr_op_builds:
  assumes "wf_cr cr" "cr_len cr = 0" "n \<le> length a" "m \<le> length b"
    and ab: "sorted (take n a)" "sorted (take m b)" "even n" "even m"
  shows "builds (\<lambda>c. op_bits f (in_pts c (take n a)) (in_pts c (take m b))) (grants rf (2 * (n + m)))
    (cr_op rf cr a n b m f)"
proof -
  obtain r cr1 where c: "cr_op_loop rf cr a n b m f 0 0 = Some (r, cr1)" "wf_cr cr1" "r = 0 \<or> r = -1"
    "r = 0 \<longrightarrow> pts cr1 = op_pts f False False False (take n a) (take m b)"
    "grants rf (2 * (n + m)) \<longrightarrow> r = 0"
    using cr_op_loop_spec [OF assms(1) _ assms(3) _ assms(4), of 0 0 f] assms(2) by auto
  obtain cr2 where k: "cr_compress cr1 = Some cr2" "wf_cr cr2" "pts cr2 = compress_pts (pts cr1)"
    using cr_compress_spec [OF c(2)] by blast
  have l: "length (take n a) = n" "length (take m b) = m" using assms(3,4) by auto
  show ?thesis
    using c k ab l by (auto simp: builds_def cr_op_def op_pts_sorted op_pts_even op_pts_mem
        compress_canonical compress_in_pts)
qed

lemma cr_union1_builds:
  assumes "wf_cr cr" "sorted (pts cr)" "even (cr_len cr)" "m \<le> length b" "sorted (take m b)" "even m"
  shows "builds (\<lambda>c. in_pts c (pts cr) \<or> in_pts c (take m b)) (grants rf (2 * (cr_len cr + m))) (cr_union1 rf cr b m)"
proof -
  have "wf_cr (cr\<lparr>points := None, cr_len := 0, cr_size := 0\<rparr>)" by (simp add: wf_cr_def)
  from cr_op_builds [OF this, of "cr_len cr" "region32 (points cr)" m b CR_OP_UNION] show ?thesis
    using assms by (simp add: cr_union1_def wf_cr_def)
qed

lemma cr_invert_builds:
  assumes "wf_cr cr" "sorted (pts cr)" "even (cr_len cr)"
  shows "builds (\<lambda>c. c < 0xFFFFFFFF \<and> \<not> in_pts c (pts cr)) (grants rf (2 * (cr_len cr + 2))) (cr_invert rf cr)"
proof -
  let ?n = "cr_len cr"
  obtain r cr1 where c: "cr_realloc rf cr (?n + 2) = (r, cr1)" by fastforce
  note spec = cr_realloc_spec [OF assms(1) _ c]
  show ?thesis
  proof (cases "r = 0")
    case False
    with spec assms(1) c show ?thesis by (auto simp: builds_def cr_invert_def Let_def)
  next
    case True
    let ?R = "region32 (points cr1)"
    let ?pt = "(take 1 ?R @ pts cr @ drop (1 + ?n) ?R)[0 := 0, ?n + 1 := 0xFFFFFFFF]"
    have k: "wf_cr cr1" "?n + 2 \<le> cr_size cr1" "take ?n ?R = pts cr" "cr_len cr1 = ?n" "length ?R = cr_size cr1"
      using spec(1) True by (auto simp: wf_cr_def)
    have mm: "memmove ?R 1 0 ?n = Some (take 1 ?R @ pts cr @ drop (1 + ?n) ?R)"
      using k by (simp add: memmove_def memcpy_def)
    have ln: "length (pts cr) = ?n" using assms(1) by (rule length_pts)
    have tk: "take (?n + 2) ?pt = 0 # pts cr @ [0xFFFFFFFF]"
    proof -
      obtain x y r' where R: "take 1 ?R = [x]" "drop (1 + ?n) ?R = y # r'"
        using k by (cases ?R; cases "drop (1 + ?n) ?R") (auto dest!: arg_cong [where f = length])
      have "?pt = 0 # pts cr @ 0xFFFFFFFF # r'" unfolding R using ln by (simp add: list_update_append)
      then show ?thesis using ln by simp
    qed
    have wf: "wf_cr (cr1\<lparr>points := Some ?pt, cr_len := ?n + 2\<rparr>)"
      using k ln by (auto simp: wf_cr_def)
    obtain cr2 where c2: "cr_compress (cr1\<lparr>points := Some ?pt, cr_len := ?n + 2\<rparr>) = Some cr2" "wf_cr cr2"
      "pts cr2 = compress_pts (0 # pts cr @ [0xFFFFFFFF])"
      using cr_compress_spec [OF wf] tk by auto
    have mx: "x \<le> 0xFFFFFFFF" for x :: u32
      using unat_lt2p [of x] by (simp add: word_le_nat_alt)
    have srt: "sorted (0 # pts cr @ [0xFFFFFFFF])" "even (length (0 # pts cr @ [0xFFFFFFFF :: u32]))"
      using assms ln mx by (auto simp: sorted_append)
    have "par c (0 # pts cr @ [0xFFFFFFFF]) = (c < 0xFFFFFFFF \<and> \<not> in_pts c (pts cr))" for c
    proof (cases "c = 0xFFFFFFFF")
      case True
      then show ?thesis
        using par_above [of "pts cr" "0xFFFFFFFF"] assms(3) ln mx by (auto simp: par_append)
    next
      case False
      with mx [of c] show ?thesis
        using in_pts_par [of "pts cr" c] assms ln by (auto simp: par_append)
    qed
    moreover have "cr_invert rf cr = Some (0, cr2)"
      using c mm c2(1) True k(2,5) ln by (simp add: cr_invert_def Let_def store_in)
    ultimately show ?thesis
      using c2 srt ln spec(2) True
      by (auto simp: builds_def compress_canonical compress_in_pts in_pts_par)
  qed
qed

end

section \<open>Removing overlaps\<close>

fun merge_over :: "(u32 \<times> u32) list \<Rightarrow> (u32 \<times> u32) list" where
  "merge_over ((s, e) # (s1, e1) # ps) =
     (if e < s1 then (s, e) # merge_over ((s1, e1) # ps) else merge_over ((s, max e e1) # ps))"
| "merge_over ps = ps"

abbreviation mem_pairs :: "u32 \<Rightarrow> (u32 \<times> u32) list \<Rightarrow> bool" where
  "mem_pairs c ps \<equiv> list_ex (\<lambda>(a, b). a \<le> c \<and> c < b) ps"

lemma merge_over_mem: "sorted (map fst ps) \<Longrightarrow> mem_pairs c (merge_over ps) = mem_pairs c ps"
  by (induction ps rule: merge_over.induct) (auto simp: max_def)

lemma merge_over_lower:
  "\<forall>p\<in>set ps. v \<le> fst p \<and> fst p < snd p \<Longrightarrow> x \<in> set (unpairs (merge_over ps)) \<Longrightarrow> v \<le> x"
proof (induction ps rule: merge_over.induct)
  case (1 s e s1 e1 ps)
  then show ?case by (auto simp: max_def split: if_splits)
qed (auto simp: unpairs_def)

lemma merge_over_canonical:
  "sorted (map fst ps) \<Longrightarrow> \<forall>p\<in>set ps. fst p < snd p \<Longrightarrow> sorted_wrt (<) (unpairs (merge_over ps))"
proof (induction ps rule: merge_over.induct)
  case (1 s e s1 e1 ps)
  show ?case
  proof (cases "e < s1")
    case True
    have "\<forall>x\<in>set (unpairs (merge_over ((s1, e1) # ps))). s1 \<le> x"
      using 1(3,4) by (intro ballI, elim merge_over_lower [rotated]) auto
    with 1 True show ?thesis by (auto intro: less_trans less_le_trans)
  next
    case False
    with 1 show ?thesis by (auto simp: max_def)
  qed
qed auto

lemma pairs_drop: "i + 1 < length xs \<Longrightarrow> pairs (drop i xs) = (xs ! i, xs ! (i + 1)) # pairs (drop (i + 2) xs)"
  by (simp add: Cons_nth_drop_Suc [symmetric])

lemma overlap_end_spec:
  assumes "len \<le> length pt" "even len" "even i" "i \<le> len"
  shows "\<exists>i' e'. overlap_end pt len i e = Some (i', e') \<and> i \<le> i' \<and> i' \<le> len \<and> even i'
    \<and> merge_over ((s, e) # pairs (drop i (take len pt))) = (s, e') # merge_over (pairs (drop i' (take len pt)))"
  using assms
proof (induction "len - i" arbitrary: i e rule: less_induct)
  case less
  note unfold = overlap_end.simps [of pt len i e]
  show ?case
  proof (cases "i < len")
    case False
    then have "overlap_end pt len i e = Some (i, e)" by (simp add: unfold)
    with False less.prems show ?thesis by auto
  next
    case True
    with less.prems have i1: "i + 1 < len" by presburger
    then have d: "pairs (drop i (take len pt)) = (pt ! i, pt ! (i + 1)) # pairs (drop (i + 2) (take len pt))"
      using pairs_drop [of i "take len pt"] less.prems by auto
    have ld: "load pt i = Some (pt ! i)" "load pt (i + 1) = Some (pt ! (i + 1))"
      using i1 less.prems by (auto simp: load_in)
    show ?thesis
    proof (cases "e < pt ! i")
      case True
      with less.prems i1 ld d show ?thesis by (auto simp: unfold)
    next
      case False
      then show ?thesis
        using less.hyps [of "i + 2" "max e (pt ! (i + 1))", OF diff_less_mono2] less.prems i1 ld d
        by (cases "pt ! (i + 1) \<le> e") (auto simp: unfold max_def)
    qed
  qed
qed

lemma overlap_loop_spec:
  assumes "len \<le> length pt" "even len" "even i" "i \<le> len" "j \<le> i"
  shows "\<exists>pt' j'. overlap_loop pt len i j = Some (pt', j') \<and> length pt' = length pt \<and> j' \<le> len
    \<and> take j' pt' = take j pt @ unpairs (merge_over (pairs (drop i (take len pt))))"
  using assms
proof (induction "len - i" arbitrary: pt i j rule: less_induct)
  case less
  note unfold = overlap_loop.simps [of pt len i j]
  show ?case
  proof (cases "i < len")
    case False
    then have "overlap_loop pt len i j = Some (pt, j)" by (simp add: unfold)
    with False less.prems show ?thesis by auto
  next
    case True
    with less.prems have i1: "i + 1 < len" "i + 2 \<le> len" "even (i + 2)" by presburger+
    then have d: "pairs (drop i (take len pt)) = (pt ! i, pt ! (i + 1)) # pairs (drop (i + 2) (take len pt))"
      using pairs_drop [of i "take len pt"] less.prems by auto
    obtain i' e' where o: "overlap_end pt len (i + 2) (pt ! (i + 1)) = Some (i', e')" "i + 2 \<le> i'" "i' \<le> len" "even i'"
      "merge_over ((pt ! i, pt ! (i + 1)) # pairs (drop (i + 2) (take len pt))) = (pt ! i, e') # merge_over (pairs (drop i' (take len pt)))"
      using overlap_end_spec [OF less.prems(1,2) i1(3,2)] by blast
    let ?pt = "pt[j := pt ! i, j + 1 := e']"
    have dr: "drop i' (take len ?pt) = drop i' (take len pt)"
      using less.prems o(2) by (simp add: drop_take)
    have tk: "take (j + 2) ?pt = take j pt @ [pt ! i, e']"
      using less.prems i1 by (simp add: take_Suc_conv_app_nth numeral_eq_Suc)
    obtain pt' j' where "overlap_loop ?pt len i' (j + 2) = Some (pt', j')" "length pt' = length pt" "j' \<le> len"
      "take j' pt' = take (j + 2) ?pt @ unpairs (merge_over (pairs (drop i' (take len ?pt))))"
      using less.hyps [of i' ?pt "j + 2", OF diff_less_mono2] less.prems o i1 by auto
    then show ?thesis using True d less.prems o i1 dr tk
      by (auto simp: unfold load_in store_in)
  qed
qed

interpretation point_order: comparator point_cmp
  by unfold_locales (auto simp: point_cmp_def split: if_splits)

lemma rqsort_all:
  assumes "comparator cmp" "sz \<noteq> 0"
  shows "\<exists>a'. rqsort cmp a (length a) sz = Some a' \<and> mset a' = mset a \<and> sorted_wrt (\<lambda>x y. cmp x y \<le> 0) a'"
proof -
  obtain a' where a': "rqsort cmp a (length a) sz = Some a'" "perm_on 0 (length a) a a'" "settled cmp (length a) {} a'"
    using rqsort_spec [of "length a" a cmp sz] assms by auto
  then show ?thesis
    using perm_on_split(3) [OF a'(2)] perm_on_length [OF a'(2)]
    by (auto simp: sorted_wrt_iff_nth_less settled_def)
qed

lemma point_cmp_sorted: "sorted_wrt (\<lambda>x y. point_cmp x y \<le> 0) ps \<Longrightarrow> sorted (map fst ps)"
  by (induction ps) (auto simp: point_cmp_def split: if_splits)

lemma overlap_spec:
  assumes "wf_cr cr" "even (cr_len cr)"
  shows "\<exists>cr' ps. cr_sort_and_remove_overlap cr = Some cr' \<and> wf_cr cr'
    \<and> mset ps = mset (pairs (pts cr)) \<and> sorted (map fst ps) \<and> pts cr' = unpairs (merge_over ps)"
proof -
  let ?n = "cr_len cr" and ?R = "region32 (points cr)"
  have n: "2 * (?n div 2) = ?n" using assms(2) by simp
  have len: "length (pairs (pts cr)) = ?n div 2"
    using length_pts [OF assms(1)] by (simp add: length_pairs)
  obtain ps where ps: "rqsort point_cmp (pairs (pts cr)) (?n div 2) 8 = Some ps"
    "mset ps = mset (pairs (pts cr))" "sorted (map fst ps)"
    using rqsort_all [OF point_order.comparator_axioms, of 8 "pairs (pts cr)"] len point_cmp_sorted by auto
  have lps: "length (unpairs ps) = ?n"
    using arg_cong [OF ps(2), of size] len n by simp
  let ?pt = "unpairs ps @ drop ?n ?R"
  have "length ?pt = length ?R" using lps assms(1) by (simp add: wf_cr_def)
  moreover from this obtain pt' j' where "overlap_loop ?pt ?n 0 0 = Some (pt', j')" "length pt' = length ?R" "j' \<le> ?n"
    "take j' pt' = unpairs (merge_over ps)"
    using overlap_loop_spec [of ?n ?pt 0 0] assms lps by (auto simp: wf_cr_def)
  ultimately show ?thesis
    using ps n assms by (cases "points cr") (auto simp: cr_sort_and_remove_overlap_def Let_def wf_cr_def)
qed

lemma mem_pairs_mset: "mset ps = mset qs \<Longrightarrow> mem_pairs c ps = mem_pairs c qs"
  using mset_eq_setD [of ps qs] by (simp add: list_ex_iff)

section \<open>Properties\<close>

lemma default_grown:
  assumes "cr_default_realloc limit junk p n = Some b" "length (region32 p) \<le> n"
  shows "length b = n \<and> take (length (region32 p)) b = region32 p"
proof -
  have b: "b = map (\<lambda>i. if i < length (region32 p) then region32 p ! i else junk i) [0..<n]"
    using assms(1) by (cases "n = 0 \<or> limit < n") (simp_all add: cr_default_realloc_def)
  have "take (length (region32 p)) b = region32 p"
    unfolding b using assms(2) by (intro nth_equalityI) simp_all
  then show ?thesis by (simp add: b)
qed

interpretation default_points: points_realloc "cr_default_realloc limit junk" for limit junk
  by unfold_locales (rule default_grown)

lemma default_grants: "N \<le> limit \<Longrightarrow> grants (cr_default_realloc limit junk) N"
  by (auto simp: grants_def cr_default_realloc_def)

text \<open>
  C10: \<^verbatim>\<open>cr_op\<close> on two sorted point lists and an empty result either fails in the allocator or leaves
  the canonical point list (strictly increasing, even length) of the union, intersection or
  symmetric difference; it succeeds when the allocator grants twice the points of the operands.
\<close>

theorem cr_op_set:
  assumes "points_realloc rf" "wf_cr cr" "cr_len cr = 0"
    and "sorted a" "even (length a)" "sorted b" "even (length b)"
  shows "builds (\<lambda>c. op_bits op (in_pts c a) (in_pts c b)) (grants rf (2 * (length a + length b)))
    (cr_op rf cr a (length a) b (length b) op)"
  using points_realloc.cr_op_builds [OF assms(1-3), of "length a" a "length b" b op] assms by simp

theorem cr_op_set_witness:
  "builds (\<lambda>c. in_pts c [3, 9, 20, 30] \<noteq> in_pts c [5, 20]) (grants (cr_default_realloc 40 (\<lambda>_. 7)) 12)
     (cr_op (cr_default_realloc 40 (\<lambda>_. 7)) cr_init [3, 9, 20, 30] 4 [5, 20] 2 CR_OP_XOR)"
proof -
  have l: "length [3, 9, 20, 30 :: u32] = 4" "length [5, 20 :: u32] = 2" "2 * (4 + 2) = (12 :: nat)"
    by simp_all
  show ?thesis
    using cr_op_set [OF default_points.points_realloc_axioms cr_init_wf(1), of "[3, 9, 20, 30]" "[5, 20]" CR_OP_XOR 40 "\<lambda>_. 7",
      unfolded l op_bits.simps] by (simp add: cr_init_def)
qed

text \<open>
  C33: \<^verbatim>\<open>cr_union_interval\<close> adds the interval with both ends, \<^verbatim>\<open>cr_invert\<close> gives the complement below
  \<open>0xFFFFFFFF\<close>; both leave a canonical list unless the allocator fails.
\<close>

theorem cr_union_interval_and_invert:
  assumes "points_realloc rf" "wf_cr cr" "sorted (pts cr)" "even (cr_len cr)" "c1 \<le> c2" "c2 < 0xFFFFFFFF"
  shows "builds (\<lambda>c. in_pts c (pts cr) \<or> c1 \<le> c \<and> c \<le> c2) (grants rf (2 * (cr_len cr + 2))) (cr_union_interval rf cr c1 c2)
    \<and> builds (\<lambda>c. c < 0xFFFFFFFF \<and> \<not> in_pts c (pts cr)) (grants rf (2 * (cr_len cr + 2))) (cr_invert rf cr)"
proof -
  have n: "unat c2 + 1 < 2 ^ 32" using assms(6) by (simp add: word_less_nat_alt)
  then have s: "unat (c2 + 1) = unat c2 + 1" by (simp add: unat_add_no_wrap)
  have i: "c1 \<le> c2 + 1" "c < c2 + 1 \<longleftrightarrow> c \<le> c2" for c
    using assms(5) by (auto simp: word_le_nat_alt word_less_nat_alt s)
  show ?thesis
    using points_realloc.cr_union1_builds [OF assms(1-4), of 2 "[c1, c2 + 1]"]
      points_realloc.cr_invert_builds [OF assms(1-4)] i
    by (simp add: cr_union_interval_def)
qed

theorem cr_union_interval_and_invert_witness:
  "builds (\<lambda>c. in_pts c [3, 9] \<or> 9 \<le> c \<and> c \<le> 12) True
     (cr_union_interval (cr_default_realloc 40 (\<lambda>_. 7)) \<lparr>points = Some [3, 9], cr_len = 2, cr_size = 2\<rparr> 9 12)
   \<and> builds (\<lambda>c. c < 0xFFFFFFFF \<and> \<not> in_pts c [3, 9]) True
     (cr_invert (cr_default_realloc 40 (\<lambda>_. 7)) \<lparr>points = Some [3, 9], cr_len = 2, cr_size = 2\<rparr>)"
proof -
  let ?cr = "\<lparr>points = Some [3, 9], cr_len = 2, cr_size = 2\<rparr>"
  have c: "wf_cr ?cr" "pts ?cr = [3, 9]" "sorted (pts ?cr)" "even (cr_len ?cr)" by (simp_all add: wf_cr_def)
  have g: "grants (cr_default_realloc 40 (\<lambda>_. 7)) (2 * (cr_len ?cr + 2)) = True"
    by (simp add: default_grants)
  show ?thesis
    using cr_union_interval_and_invert [OF default_points.points_realloc_axioms c(1,3,4), of 9 12 40 "\<lambda>_. 7",
      unfolded g c(2)] by simp
qed

text \<open>
  C34: \<^verbatim>\<open>cr_sort_and_remove_overlap\<close> turns any list of intervals, in any order and overlapping, into
  point list with the same members, canonical when no interval was empty.
\<close>

theorem cr_sort_and_remove_overlap_set:
  assumes "wf_cr cr" "even (cr_len cr)"
  shows "\<exists>cr'. cr_sort_and_remove_overlap cr = Some cr' \<and> wf_cr cr'
    \<and> (\<forall>c. in_pts c (pts cr') = in_pts c (pts cr))
    \<and> (list_all (\<lambda>(a, b). a < b) (pairs (pts cr)) \<longrightarrow> canonical (pts cr'))"
proof -
  obtain cr' ps where c: "cr_sort_and_remove_overlap cr = Some cr'" "wf_cr cr'"
    "mset ps = mset (pairs (pts cr))" "sorted (map fst ps)" "pts cr' = unpairs (merge_over ps)"
    using overlap_spec [OF assms] by blast
  have "in_pts x (pts cr') = in_pts x (pts cr)" for x
    using merge_over_mem [OF c(4), of x] mem_pairs_mset [OF c(3), of x] by (simp add: c(5) in_pts_def)
  moreover have "canonical (pts cr')" if "list_all (\<lambda>(a, b). a < b) (pairs (pts cr))"
  proof -
    have "\<forall>p\<in>set ps. fst p < snd p" using that mset_eq_setD [OF c(3)] by (auto simp: list_all_iff)
    with merge_over_canonical [OF c(4)] show ?thesis by (simp add: canonical_def c(5))
  qed
  ultimately show ?thesis using c(1,2) by blast
qed

theorem cr_sort_and_remove_overlap_set_witness:
  "\<exists>cr'. cr_sort_and_remove_overlap \<lparr>points = Some [20, 30, 3, 9, 5, 21], cr_len = 6, cr_size = 6\<rparr> = Some cr'
    \<and> wf_cr cr' \<and> (\<forall>c. in_pts c (pts cr') = in_pts c [20, 30, 3, 9, 5, 21])"
  using cr_sort_and_remove_overlap_set [of "\<lparr>points = Some [20, 30, 3, 9, 5, 21], cr_len = 6, cr_size = 6\<rparr>"]
  by (auto simp: wf_cr_def)

end
