(* ===== verification/CaseConv.thy ===== *)
theory CaseConv
  imports UniTables
begin

text \<open>
  Case conversion, case folding and the canonicalisation of regular expressions in
  \<^verbatim>\<open>libunicode.c\<close>, over the tables of \<^verbatim>\<open>libunicode-table.h\<close>. A table access out of range is
  \<^term>\<open>None\<close>; the characters stored through \<open>res\<close> are the list that is returned.
\<close>

section \<open>Definitions\<close>

text \<open>The fields of an entry of \<^verbatim>\<open>case_conv_table1\<close>.\<close>

definition run_code :: "u32 \<Rightarrow> u32" where
  "run_code v = drop_bit (32 - 17) v"

definition run_len :: "u32 \<Rightarrow> u32" where
  "run_len v = drop_bit (32 - 17 - 7) v AND 0x7f"

definition run_type :: "u32 \<Rightarrow> u32" where
  "run_type v = drop_bit (32 - 17 - 7 - 4) v AND 0xf"

abbreviation (input) "RUN_TYPE_U \<equiv> 0 :: u32"
abbreviation (input) "RUN_TYPE_L \<equiv> 1 :: u32"
abbreviation (input) "RUN_TYPE_UF \<equiv> 2 :: u32"
abbreviation (input) "RUN_TYPE_LF \<equiv> 3 :: u32"
abbreviation (input) "RUN_TYPE_UL \<equiv> 4 :: u32"
abbreviation (input) "RUN_TYPE_LSU \<equiv> 5 :: u32"
abbreviation (input) "RUN_TYPE_U2L_399_EXT2 \<equiv> 6 :: u32"
abbreviation (input) "RUN_TYPE_UF_D20 \<equiv> 7 :: u32"
abbreviation (input) "RUN_TYPE_UF_D1_EXT \<equiv> 8 :: u32"
abbreviation (input) "RUN_TYPE_U_EXT \<equiv> 9 :: u32"
abbreviation (input) "RUN_TYPE_LF_EXT \<equiv> 10 :: u32"
abbreviation (input) "RUN_TYPE_UF_EXT2 \<equiv> 11 :: u32"
abbreviation (input) "RUN_TYPE_LF_EXT2 \<equiv> 12 :: u32"
abbreviation (input) "RUN_TYPE_UF_EXT3 \<equiv> 13 :: u32"

text \<open>The binary search that the callers share: the entry whose run holds \<open>c\<close>.\<close>

function run_search :: "u32 list \<Rightarrow> u32 \<Rightarrow> int \<Rightarrow> int \<Rightarrow> (nat \<times> u32) option option" where
  "run_search tab c idx_min idx_max =
     (if idx_min \<le> idx_max then
        let idx = (idx_max + idx_min) div 2 in
        do { v \<leftarrow> load tab (nat idx);
             if c < run_code v then run_search tab c idx_min (idx - 1)
             else if run_code v + run_len v \<le> c then run_search tab c (idx + 1) idx_max
             else Some (Some (nat idx, v)) }
      else Some None)"
  by pat_completeness auto
termination
  by (relation "measure (\<lambda>(tab, c, lo, hi). nat (hi - lo + 1))") auto

declare run_search.simps [simp del]

definition find_run :: "u32 \<Rightarrow> (nat \<times> u32) option option" where
  "find_run c = run_search case_conv_table1 c 0 (int (length case_conv_table1) - 1)"

definition ext_char :: "u32 \<Rightarrow> u32 option" where
  "ext_char i = map_option ucast (load case_conv_ext (unat i))"

text \<open>\<open>conv_type\<close> is 0 for upper case, 1 for lower case and 2 for case folding.\<close>

function lre_case_conv_entry :: "u32 \<Rightarrow> u32 \<Rightarrow> nat \<Rightarrow> u32 \<Rightarrow> u32 list option"
  and lre_case_conv :: "u32 \<Rightarrow> u32 \<Rightarrow> u32 list option"
  and lre_case_conv1 :: "u32 \<Rightarrow> u32 \<Rightarrow> u32 option" where
  "lre_case_conv_entry c conv_type idx v =
     do { t2 \<leftarrow> load case_conv_table2 idx;
          let is_lower = (if conv_type \<noteq> 0 then 1 else 0);
              type = run_type v;
              data = push_bit 8 (v AND 0xf) OR ucast t2;
              code = run_code v in
          if type \<in> {RUN_TYPE_U, RUN_TYPE_L, RUN_TYPE_UF, RUN_TYPE_LF} then
            if conv_type = type AND 1 \<or> RUN_TYPE_UF \<le> type \<and> conv_type = 2
            then do { w \<leftarrow> load case_conv_table1 (unat data); Some [c - code + drop_bit (32 - 17) w] }
            else Some [c]
          else if type = RUN_TYPE_UL then
            let a = c - code in
            if a AND 1 \<noteq> 1 - is_lower then Some [c] else Some [(a XOR 1) + code]
          else if type = RUN_TYPE_LSU then
            let a = c - code in
            if a = 1 then Some [c + (2 * is_lower - 1)]
            else if a = (1 - is_lower) * 2 then Some [c + (2 * is_lower - 1) * 2]
            else Some [c]
          else if type = RUN_TYPE_U2L_399_EXT2 then
            if is_lower = 0 then do { x \<leftarrow> ext_char (drop_bit 6 data); Some [c - code + x, 0x399] }
            else do { x \<leftarrow> ext_char (data AND 0x3f); Some [c - code + x] }
          else if type = RUN_TYPE_UF_D20 then
            if conv_type = 1 then Some [c]
            else Some [data + (if conv_type = 2 then 0x20 else 0)]
          else if type = RUN_TYPE_UF_D1_EXT then
            if conv_type = 1 then Some [c]
            else do { x \<leftarrow> ext_char data; Some [x + (if conv_type = 2 then 1 else 0)] }
          else if type = RUN_TYPE_U_EXT \<or> type = RUN_TYPE_LF_EXT then
            if is_lower \<noteq> type - RUN_TYPE_U_EXT then Some [c]
            else do { x \<leftarrow> ext_char data; Some [x] }
          else if type = RUN_TYPE_LF_EXT2 then
            if is_lower = 0 then Some [c]
            else do { x \<leftarrow> ext_char (drop_bit 6 data); y \<leftarrow> ext_char (data AND 0x3f); Some [c - code + x, y] }
          else if type = RUN_TYPE_UF_EXT2 then
            if conv_type = 1 then Some [c]
            else do { x \<leftarrow> ext_char (drop_bit 6 data); y \<leftarrow> ext_char (data AND 0x3f);
                      if conv_type = 2
                      then do { r0 \<leftarrow> lre_case_conv1 (c - code + x) 1; r1 \<leftarrow> lre_case_conv1 y 1; Some [r0, r1] }
                      else Some [c - code + x, y] }
          else
            if conv_type = 1 then Some [c]
            else do { x \<leftarrow> ext_char (drop_bit 8 data); y \<leftarrow> ext_char (drop_bit 4 data AND 0xf);
                      z \<leftarrow> ext_char (data AND 0xf);
                      if conv_type = 2
                      then do { r0 \<leftarrow> lre_case_conv1 x 1; r1 \<leftarrow> lre_case_conv1 y 1;
                                r2 \<leftarrow> lre_case_conv1 z 1; Some [r0, r1, r2] }
                      else Some [x, y, z] } }"
| "lre_case_conv c conv_type =
     (if c < 128 then
        if conv_type \<noteq> 0
        then if 0x41 \<le> c \<and> c \<le> 0x5a then Some [c - 0x41 + 0x61] else Some [c]
        else if 0x61 \<le> c \<and> c \<le> 0x7a then Some [c - 0x61 + 0x41] else Some [c]
      else case find_run c of
             None \<Rightarrow> None
           | Some (Some (idx, v)) \<Rightarrow> lre_case_conv_entry c conv_type idx v
           | Some None \<Rightarrow> Some [c])"
| "lre_case_conv1 c conv_type = do { res \<leftarrow> lre_case_conv c conv_type; load res 0 }"
  by pat_completeness auto
termination
  by (relation "measure (\<lambda>x. case x of
        Inl (c, t, idx, v) \<Rightarrow> (if t = 2 then 3 else 0)
      | Inr (Inl (c, t)) \<Rightarrow> (if t = 2 then 4 else 1)
      | Inr (Inr (c, t)) \<Rightarrow> (if t = 2 then 5 else 2))") auto

declare lre_case_conv_entry.simps [simp del] lre_case_conv.simps [simp del] lre_case_conv1.simps [simp del]

definition lre_case_folding_entry :: "u32 \<Rightarrow> nat \<Rightarrow> u32 \<Rightarrow> bool \<Rightarrow> u32 option" where
  "lre_case_folding_entry c idx v is_unicode =
     (if is_unicode then
        do { res \<leftarrow> lre_case_conv_entry c 2 idx v;
             if length res = 1 then load res 0
             else Some (if c = 0xfb06 then 0xfb05 else if c = 0x1fd3 then 0x390
                        else if c = 0x1fe3 then 0x3b0 else c) }
      else if c < 128 then Some (if 0x61 \<le> c \<and> c \<le> 0x7a then c - 0x61 + 0x41 else c)
      else do { res \<leftarrow> lre_case_conv_entry c 0 idx v; r0 \<leftarrow> load res 0;
                Some (if length res = 1 \<and> 128 \<le> r0 then r0 else c) })"

definition lre_canonicalize :: "u32 \<Rightarrow> bool \<Rightarrow> u32 option" where
  "lre_canonicalize c is_unicode =
     (if c < 128 then
        if is_unicode then Some (if 0x41 \<le> c \<and> c \<le> 0x5a then c - 0x41 + 0x61 else c)
        else Some (if 0x61 \<le> c \<and> c \<le> 0x7a then c - 0x61 + 0x41 else c)
      else case find_run c of
             None \<Rightarrow> None
           | Some (Some (idx, v)) \<Rightarrow> lre_case_folding_entry c idx v is_unicode
           | Some None \<Rightarrow> Some c)"

section \<open>The tables are well formed\<close>

fun runs_ok :: "u32 list \<Rightarrow> bool" where
  "runs_ok (v # w # r) = (run_code v + run_len v \<le> run_code w \<and> runs_ok (w # r))"
| "runs_ok _ = True"

text \<open>Every index that the entry \<open>v\<close> with low data bits \<open>t2\<close> can lead to is inside its table.\<close>

definition entry_ok :: "u32 \<Rightarrow> u8 \<Rightarrow> bool" where
  "entry_ok v t2 =
     (let type = run_type v; data = push_bit 8 (v AND 0xf) OR ucast t2 in
      if type \<in> {RUN_TYPE_U, RUN_TYPE_L, RUN_TYPE_UF, RUN_TYPE_LF} then data < 378
      else if type \<in> {RUN_TYPE_UL, RUN_TYPE_LSU, RUN_TYPE_UF_D20} then True
      else if type \<in> {RUN_TYPE_UF_D1_EXT, RUN_TYPE_U_EXT, RUN_TYPE_LF_EXT} then data < 58
      else if type \<in> {RUN_TYPE_U2L_399_EXT2, RUN_TYPE_LF_EXT2, RUN_TYPE_UF_EXT2}
        then drop_bit 6 data < 58 \<and> data AND 0x3f < 58
      else drop_bit 8 data < 58 \<and> drop_bit 4 data AND 0xf < 58 \<and> data AND 0xf < 58)"

lemma table_lengths:
  "length case_conv_table1 = 378" "length case_conv_table2 = 378" "length case_conv_ext = 58"
  by (simp_all add: case_conv_table1_def case_conv_table2_def case_conv_ext_def)

lemma table_runs_ok: "runs_ok case_conv_table1"
  by code_simp

lemma table_entries_ok: "list_all2 entry_ok case_conv_table1 case_conv_table2"
  by code_simp

lemma runs_ok_nth: "runs_ok tab \<Longrightarrow> Suc i < length tab \<Longrightarrow> run_code (tab ! i) + run_len (tab ! i) \<le> run_code (tab ! Suc i)"
proof (induction tab arbitrary: i rule: runs_ok.induct)
  case (1 v w r)
  then show ?case by (cases i) auto
qed auto

lemma run_end: "unat (run_code v + run_len v) = unat (run_code v) + unat (run_len v)"
proof -
  have "unat (run_code v) < 2 ^ 17" "unat (run_len v) < 2 ^ 7"
    using unat_lt2p [of v] unat_and_mask [of "drop_bit 8 v" 7]
    by (simp_all add: run_code_def run_len_def unat_drop_bit mask_eq_exp_minus_1)
  then show ?thesis by (simp add: unat_add_no_wrap)
qed

definition in_run :: "u32 \<Rightarrow> u32 \<Rightarrow> bool" where
  "in_run c v = (run_code v \<le> c \<and> c < run_code v + run_len v)"

lemma runs_ordered:
  assumes "runs_ok tab" "i < j" "j < length tab"
  shows "run_code (tab ! i) + run_len (tab ! i) \<le> run_code (tab ! j)"
  using assms(2,3)
proof (induction j)
  case (Suc j)
  have s: "run_code (tab ! j) + run_len (tab ! j) \<le> run_code (tab ! Suc j)"
    using runs_ok_nth [OF assms(1)] Suc.prems by simp
  show ?case
  proof (cases "i = j")
    case False
    then have "run_code (tab ! i) + run_len (tab ! i) \<le> run_code (tab ! j)" using Suc by simp
    then show ?thesis using s run_end [of "tab ! j"] by (simp add: word_le_nat_alt)
  qed (use s in simp)
qed simp

lemma run_search_spec:
  assumes "runs_ok tab" "0 \<le> lo" "hi < int (length tab)"
    and "\<forall>i < length tab. in_run c (tab ! i) \<longrightarrow> lo \<le> int i \<and> int i \<le> hi"
  shows "\<exists>r. run_search tab c lo hi = Some r \<and>
    (case r of None \<Rightarrow> \<forall>i < length tab. \<not> in_run c (tab ! i)
     | Some (i, v) \<Rightarrow> i < length tab \<and> v = tab ! i \<and> in_run c v)"
  using assms(2-4)
proof (induction "nat (hi - lo + 1)" arbitrary: lo hi rule: less_induct)
  case less
  note unfold = run_search.simps [of tab c lo hi]
  show ?case
  proof (cases "lo \<le> hi")
    case False
    with less.prems show ?thesis by (auto simp: unfold)
  next
    case True
    define m where "m = (hi + lo) div 2"
    have m: "lo \<le> m" "m \<le> hi" using True by (auto simp: m_def)
    let ?v = "tab ! nat m"
    have ld: "load tab (nat m) = Some ?v" "nat m < length tab"
      using m less.prems by (auto simp: load_def)
    show ?thesis
    proof (cases "c < run_code ?v")
      case below: True
      have "int i \<le> m - 1" if "i < length tab" "in_run c (tab ! i)" for i
      proof (rule ccontr)
        assume "\<not> ?thesis"
        with m less.prems(1) have "nat m \<le> i" by linarith
        then have "run_code ?v \<le> run_code (tab ! i)"
          using runs_ordered [OF assms(1), of "nat m" i] that(1) run_end [of ?v]
          by (cases "i = nat m") (auto simp: word_le_nat_alt)
        with below that(2) show False by (auto simp: in_run_def)
      qed
      then show ?thesis
        using less.hyps [of "m - 1" lo] less.prems m True below ld
        by (simp add: unfold m_def [symmetric])
    next
      case not_below: False
      show ?thesis
      proof (cases "run_code ?v + run_len ?v \<le> c")
        case above: True
        have "m + 1 \<le> int i" if "i < length tab" "in_run c (tab ! i)" for i
        proof (rule ccontr)
          assume "\<not> ?thesis"
          with m less.prems(1) have "i \<le> nat m" by linarith
          then have "run_code (tab ! i) + run_len (tab ! i) \<le> run_code ?v + run_len ?v"
            using runs_ordered [OF assms(1), of i "nat m"] ld(2) run_end [of ?v]
            by (cases "i = nat m") (auto simp: word_le_nat_alt)
          with above that(2) show False by (auto simp: in_run_def)
        qed
        then show ?thesis
          using less.hyps [of hi "m + 1"] less.prems m True not_below above ld
          by (simp add: unfold m_def [symmetric])
      next
        case False
        then show ?thesis
          using True not_below ld by (auto simp: unfold m_def [symmetric] in_run_def not_less not_le)
      qed
    qed
  qed
qed

lemma in_run_unique:
  assumes "runs_ok tab" "i < length tab" "j < length tab" "in_run c (tab ! i)" "in_run c (tab ! j)"
  shows "i = j"
  using runs_ordered [OF assms(1), of i j] runs_ordered [OF assms(1), of j i] assms(2-5)
  by (cases i j rule: linorder_cases) (auto simp: in_run_def)

lemma find_enumerate_None:
  "\<forall>i < length t. \<not> P (t ! i) \<Longrightarrow> find (\<lambda>(i, v). P v) (enumerate n t) = None"
  by (induction t arbitrary: n) (simp, fastforce)

lemma find_enumerate_Some:
  "i < length t \<Longrightarrow> P (t ! i) \<Longrightarrow> \<forall>j < length t. P (t ! j) \<longrightarrow> j = i \<Longrightarrow>
     find (\<lambda>(i, v). P v) (enumerate n t) = Some (n + i, t ! i)"
proof (induction t arbitrary: n i)
  case (Cons v t)
  show ?case
  proof (cases i)
    case 0
    with Cons.prems show ?thesis by simp
  next
    case (Suc k)
    have others: "\<forall>j < length t. P (t ! j) \<longrightarrow> j = k" using Cons.prems(3) Suc by fastforce
    have "\<not> P v" using Cons.prems(3) Suc by force
    then show ?thesis
      using Cons.IH [of k "Suc n", OF _ _ others] Cons.prems(1,2) Suc by simp
  qed
qed simp

text \<open>What the binary search finds is the first run that holds the character.\<close>

lemma find_run_eq: "find_run c = Some (find (\<lambda>(i, v). in_run c v) (enumerate 0 case_conv_table1))"
proof -
  let ?t = case_conv_table1
  obtain r where r: "find_run c = Some r" "case r of None \<Rightarrow> \<forall>i < length ?t. \<not> in_run c (?t ! i)
     | Some (i, v) \<Rightarrow> i < length ?t \<and> v = ?t ! i \<and> in_run c v"
    using run_search_spec [OF table_runs_ok, of 0 "int (length ?t) - 1" c] unfolding find_run_def by auto
  have "find (\<lambda>(i, v). in_run c v) (enumerate 0 ?t) = r"
  proof (cases r)
    case None
    with r(2) show ?thesis by (simp add: find_enumerate_None)
  next
    case (Some p)
    then obtain i where i: "p = (i, ?t ! i)" "i < length ?t" "in_run c (?t ! i)" using r(2) by (cases p) auto
    have "\<forall>j < length ?t. in_run c (?t ! j) \<longrightarrow> j = i"
      using in_run_unique [OF table_runs_ok _ i(2) _ i(3)] by blast
    from find_enumerate_Some [OF i(2,3) this, of 0] show ?thesis
      by (simp add: Some i(1))
  qed
  with r(1) show ?thesis by simp
qed

lemma find_run_cases:
  obtains "find_run c = Some None" "\<forall>i < length case_conv_table1. \<not> in_run c (case_conv_table1 ! i)"
  | i where "i < length case_conv_table1" "find_run c = Some (Some (i, case_conv_table1 ! i))" "in_run c (case_conv_table1 ! i)"
proof -
  let ?t = case_conv_table1
  obtain r where "find_run c = Some r" "case r of None \<Rightarrow> \<forall>i < length ?t. \<not> in_run c (?t ! i)
     | Some (i, v) \<Rightarrow> i < length ?t \<and> v = ?t ! i \<and> in_run c v"
    using run_search_spec [OF table_runs_ok, of 0 "int (length ?t) - 1" c] unfolding find_run_def by auto
  then show thesis by (cases r) (auto intro: that)
qed

section \<open>Every conversion stays inside the tables\<close>

lemma ext_char_in: "i < 58 \<Longrightarrow> \<exists>x. ext_char i = Some x"
  by (simp add: ext_char_def load_def table_lengths word_less_nat_alt)

lemma entry_at:
  assumes "idx < length case_conv_table1"
  obtains t2 where "load case_conv_table2 idx = Some t2" "entry_ok (case_conv_table1 ! idx) t2"
  using table_entries_ok assms by (auto simp: list_all2_conv_all_nth load_def)

lemma conv_entry_total:
  assumes "idx < length case_conv_table1"
    and conv1: "conv_type = 2 \<Longrightarrow> \<forall>c. \<exists>r. lre_case_conv1 c 1 = Some r"
  shows "\<exists>res. lre_case_conv_entry c conv_type idx (case_conv_table1 ! idx) = Some res \<and> length res \<in> {1, 2, 3}"
proof -
  let ?v = "case_conv_table1 ! idx"
  obtain t2 where t2: "load case_conv_table2 idx = Some t2" "entry_ok ?v t2"
    using assms(1) by (rule entry_at)
  define ty where "ty = run_type ?v"
  define data :: u32 where "data = push_bit 8 (?v AND 0xf) OR ucast t2"
  have in1: "d < 378 \<Longrightarrow> \<exists>w. load case_conv_table1 (unat d) = Some w" for d :: u32
    by (simp add: load_def table_lengths word_less_nat_alt)
  note ok = t2(2) [unfolded entry_ok_def Let_def, folded ty_def data_def]
  note unfold = lre_case_conv_entry.simps [of c conv_type idx ?v, unfolded Let_def t2(1) Option.bind.bind_lunit, folded ty_def data_def]
  consider "ty \<in> {RUN_TYPE_U, RUN_TYPE_L, RUN_TYPE_UF, RUN_TYPE_LF}"
    | "ty \<in> {RUN_TYPE_UL, RUN_TYPE_LSU, RUN_TYPE_UF_D20}"
    | "ty \<in> {RUN_TYPE_UF_D1_EXT, RUN_TYPE_U_EXT, RUN_TYPE_LF_EXT}"
    | "ty \<in> {RUN_TYPE_U2L_399_EXT2, RUN_TYPE_LF_EXT2}" | "ty = RUN_TYPE_UF_EXT2"
    | "ty \<notin> {RUN_TYPE_U, RUN_TYPE_L, RUN_TYPE_UF, RUN_TYPE_LF, RUN_TYPE_UL, RUN_TYPE_LSU, RUN_TYPE_UF_D20,
         RUN_TYPE_UF_D1_EXT, RUN_TYPE_U_EXT, RUN_TYPE_LF_EXT, RUN_TYPE_U2L_399_EXT2, RUN_TYPE_LF_EXT2, RUN_TYPE_UF_EXT2}"
    by blast
  then show ?thesis
  proof cases
    case 1
    then have "data < 378" using ok by auto
    with 1 in1 [of data] show ?thesis by (auto simp: unfold)
  next
    case 2
    then show ?thesis by (auto simp: unfold)
  next
    case 3
    then have "data < 58" using ok by auto
    with 3 ext_char_in [of data] show ?thesis by (auto simp: unfold)
  next
    case 4
    then have "drop_bit 6 data < 58" "data AND 0x3f < 58" using ok by auto
    with 4 ext_char_in [of "drop_bit 6 data"] ext_char_in [of "data AND 0x3f"] show ?thesis by (auto simp: unfold)
  next
    case 5
    then have "drop_bit 6 data < 58" "data AND 0x3f < 58" using ok by auto
    then obtain x y where "ext_char (drop_bit 6 data) = Some x" "ext_char (data AND 0x3f) = Some y"
      using ext_char_in by metis
    moreover obtain r0 r1 where "conv_type = 2 \<longrightarrow> lre_case_conv1 (c - run_code ?v + x) 1 = Some r0"
      "conv_type = 2 \<longrightarrow> lre_case_conv1 y 1 = Some r1" using conv1 by metis
    ultimately show ?thesis using 5 by (auto simp: unfold)
  next
    case 6
    then have "drop_bit 8 data < 58" "drop_bit 4 data AND 0xf < 58" "data AND 0xf < 58" using ok by auto
    then obtain x y z where "ext_char (drop_bit 8 data) = Some x" "ext_char (drop_bit 4 data AND 0xf) = Some y"
      "ext_char (data AND 0xf) = Some z"
      using ext_char_in by metis
    moreover obtain r0 r1 r2 where "conv_type = 2 \<longrightarrow> lre_case_conv1 x 1 = Some r0"
      "conv_type = 2 \<longrightarrow> lre_case_conv1 y 1 = Some r1" "conv_type = 2 \<longrightarrow> lre_case_conv1 z 1 = Some r2" using conv1 by metis
    ultimately show ?thesis using 6 by (auto simp: unfold)
  qed
qed

lemma case_conv_total_if:
  assumes "conv_type = 2 \<Longrightarrow> \<forall>c. \<exists>r. lre_case_conv1 c 1 = Some r"
  shows "\<exists>res. lre_case_conv c conv_type = Some res \<and> length res \<in> {1, 2, 3}"
proof (cases "c < 128")
  case True
  then show ?thesis by (auto simp: lre_case_conv.simps)
next
  case False
  show ?thesis
  proof (cases rule: find_run_cases [of c])
    case 1
    with False show ?thesis by (simp add: lre_case_conv.simps)
  next
    case (2 i)
    obtain res where "lre_case_conv_entry c conv_type i (case_conv_table1 ! i) = Some res" "length res \<in> {1, 2, 3}"
      using conv_entry_total [OF 2(1) assms] by blast
    with False 2(2) show ?thesis
      by (auto simp: lre_case_conv.simps)
  qed
qed

lemma case_conv1_total: "\<exists>r. lre_case_conv1 c 1 = Some r"
  using case_conv_total_if [of 1 c] by (auto simp: lre_case_conv1.simps load_def)

lemma case_conv_total: "\<exists>res. lre_case_conv c conv_type = Some res \<and> length res \<in> {1, 2, 3}"
  by (rule case_conv_total_if) (simp add: case_conv1_total)

lemma conv_entry_all:
  "idx < length case_conv_table1 \<Longrightarrow>
     \<exists>res. lre_case_conv_entry c conv_type idx (case_conv_table1 ! idx) = Some res \<and> length res \<in> {1, 2, 3}"
  by (rule conv_entry_total) (simp_all add: case_conv1_total)

section \<open>Properties\<close>

text \<open>
  C35: Case conversion is total for every code point and conversion type: no access leaves the
  tables, the recursion to lower case ends, and one to three characters are produced. The
  binary search finds exactly the run a scan of the whole table would find.
\<close>

theorem lre_case_conv_total:
  "\<exists>res. lre_case_conv c conv_type = Some res \<and> 1 \<le> length res \<and> length res \<le> 3
     \<and> (128 \<le> c \<longrightarrow> lre_case_conv c conv_type =
          (case find (\<lambda>(i, v). in_run c v) (enumerate 0 case_conv_table1) of
             None \<Rightarrow> Some [c] | Some (i, v) \<Rightarrow> lre_case_conv_entry c conv_type i v))"
proof -
  have "lre_case_conv c conv_type =
          (case find (\<lambda>(i, v). in_run c v) (enumerate 0 case_conv_table1) of
             None \<Rightarrow> Some [c] | Some (i, v) \<Rightarrow> lre_case_conv_entry c conv_type i v)" if "128 \<le> c"
  proof -
    have "\<not> c < 128" using that by simp
    then show ?thesis
      by (simp only: lre_case_conv.simps [of c] if_False find_run_eq [of c])
        (simp split: option.split)
  qed
  with case_conv_total [of c conv_type] show ?thesis by auto
qed

theorem lre_case_conv_total_witness:
  "\<exists>res. lre_case_conv 0xdf 0 = Some res \<and> 1 \<le> length res \<and> length res \<le> 3
     \<and> lre_case_conv 0xdf 0 = (case find (\<lambda>(i, v). in_run 0xdf v) (enumerate 0 case_conv_table1) of
             None \<Rightarrow> Some [0xdf] | Some (i, v) \<Rightarrow> lre_case_conv_entry 0xdf 0 i v)"
  using lre_case_conv_total [of "0xdf" 0] by simp

text \<open>
  What \<^verbatim>\<open>lre_canonicalize\<close> computes in terms of \<^verbatim>\<open>lre_case_conv\<close>. In Unicode mode it is the folding when
  that is one character; otherwise three characters are mapped by hand. In legacy mode it is the upper case
  when that is one character and does not turn a character outside ASCII into an ASCII one.
\<close>

theorem lre_canonicalize_conv:
  "\<exists>u f. lre_case_conv c 0 = Some u \<and> lre_case_conv c 2 = Some f
     \<and> lre_canonicalize c True = Some (if length f = 1 then f ! 0
         else if c = 0xfb06 then 0xfb05 else if c = 0x1fd3 then 0x390 else if c = 0x1fe3 then 0x3b0 else c)
     \<and> lre_canonicalize c False = Some (if length u = 1 \<and> \<not> (128 \<le> c \<and> u ! 0 < 128) then u ! 0 else c)"
proof (cases "c < 128")
  case True
  then have "\<not> 128 \<le> c" by simp
  with True show ?thesis
    by (auto simp: lre_case_conv.simps lre_canonicalize_def)
next
  case False
  then have ge: "128 \<le> c" by simp
  obtain u f where uf: "lre_case_conv c 0 = Some u" "length u \<in> {1, 2, 3}"
    "lre_case_conv c 2 = Some f" "length f \<in> {1, 2, 3}"
    using case_conv_total by metis
  show ?thesis
  proof (cases rule: find_run_cases [of c])
    case 1
    with False uf have "u = [c]" "f = [c]" by (simp_all add: lre_case_conv.simps)
    with 1 False uf show ?thesis by (simp add: lre_canonicalize_def)
  next
    case (2 i)
    with False uf have e: "lre_case_conv_entry c 0 i (case_conv_table1 ! i) = Some u"
      "lre_case_conv_entry c 2 i (case_conv_table1 ! i) = Some f"
      by (simp_all add: lre_case_conv.simps)
    have "load u 0 = Some (u ! 0)" "load f 0 = Some (f ! 0)" using uf by (auto simp: load_def)
    with False 2(2) e uf(1,3) ge show ?thesis
      by (auto simp: lre_canonicalize_def lre_case_folding_entry_def not_le)
  qed
qed

end
