(* ===== verification/BlockTable.thy ===== *)
theory BlockTable
  imports UniTables CaseConv CharRange
begin

text \<open>
  The run-length tables of \<^verbatim>\<open>libunicode.c\<close> with their block index: the lookup of an index entry,
  the membership test, the character properties and the combining class. The locale
  \<open>block_table\<close> states what a decoder of runs promises; under it an index that passes
  an executable check makes the indexed lookup agree with a scan from the start of the table.
\<close>

section \<open>Definitions\<close>

definition get_le24 :: "u8 list \<Rightarrow> nat \<Rightarrow> u32 option" where
  "get_le24 t i = do { a \<leftarrow> load t i; b \<leftarrow> load t (i + 1); c \<leftarrow> load t (i + 2);
     Some (ucast a OR push_bit 8 (ucast b) OR push_bit 16 (ucast c)) }"

abbreviation "UNICODE_INDEX_BLOCK_LEN \<equiv> 32 :: nat"

abbreviation index_code :: "u32 \<Rightarrow> u32" where
  "index_code v \<equiv> v AND (push_bit 21 1 - 1)"

function index_search :: "u32 \<Rightarrow> u8 list \<Rightarrow> nat \<Rightarrow> nat \<Rightarrow> nat option" where
  "index_search c index_table idx_min idx_max =
     (if idx_min + 1 < idx_max then
        let idx = (idx_max + idx_min) div 2 in
        do { v \<leftarrow> get_le24 index_table (idx * 3);
             if c < index_code v then index_search c index_table idx_min idx
             else index_search c index_table idx idx_max }
      else Some idx_min)"
  by pat_completeness auto
termination
  by (relation "measure (\<lambda>(c, t, lo, hi). hi - lo)") auto

declare index_search.simps [simp del]

text \<open>The position and \<open>*pcode\<close>; the code is meaningless when the position is \<open>-1\<close>.\<close>

definition get_index_pos :: "u32 \<Rightarrow> u8 list \<Rightarrow> nat \<Rightarrow> (int \<times> u32) option" where
  "get_index_pos c index_table index_table_len =
     do { v \<leftarrow> get_le24 index_table 0;
          if c < index_code v then Some (0, 0)
          else let idx_max = index_table_len - 1 in
            do { code \<leftarrow> get_le24 index_table (idx_max * 3);
                 if code \<le> c then Some (-1, 0)
                 else do { idx_min \<leftarrow> index_search c index_table 0 idx_max;
                           v \<leftarrow> get_le24 index_table (idx_min * 3);
                           Some (int ((idx_min + 1) * UNICODE_INDEX_BLOCK_LEN + unat (drop_bit 21 v)),
                                 index_code v) } } }"

subsection \<open>Membership\<close>

function in_table_loop :: "u32 \<Rightarrow> u8 list \<Rightarrow> nat \<Rightarrow> u32 \<Rightarrow> bool \<Rightarrow> bool option" where
  "in_table_loop c table p code is_in =
     (case load table p of None \<Rightarrow> None
      | Some b0 \<Rightarrow>
        let b = ucast b0 :: u32 in
        if b < 64 then
          let code = code + (drop_bit 3 b + 1) in
          if c < code then Some is_in
          else let is_in = (\<not> is_in); code = code + ((b AND 7) + 1) in
               if c < code then Some is_in else in_table_loop c table (p + 1) code (\<not> is_in)
        else if 0x80 \<le> b then
          let code = code + (b - 0x80 + 1) in
          if c < code then Some is_in else in_table_loop c table (p + 1) code (\<not> is_in)
        else if b < 0x60 then
          do { p0 \<leftarrow> load table (p + 1);
               let code = code + ((push_bit 8 (b - 0x40) OR ucast p0) + 1) in
               if c < code then Some is_in else in_table_loop c table (p + 2) code (\<not> is_in) }
        else
          do { p0 \<leftarrow> load table (p + 1); p1 \<leftarrow> load table (p + 2);
               let code = code + ((push_bit 16 (b - 0x60) OR push_bit 8 (ucast p0) OR ucast p1) + 1) in
               if c < code then Some is_in else in_table_loop c table (p + 3) code (\<not> is_in) })"
  by pat_completeness auto
termination
  by (relation "measure (\<lambda>(c, table, p, code, is_in). length table - p)") (auto dest: load_SomeD)

declare in_table_loop.simps [simp del]

definition lre_is_in_table :: "u32 \<Rightarrow> u8 list \<Rightarrow> u8 list \<Rightarrow> nat \<Rightarrow> bool option" where
  "lre_is_in_table c table index_table index_table_len =
     do { (pos, code) \<leftarrow> get_index_pos c index_table index_table_len;
          if pos < 0 then Some False else in_table_loop c table (nat pos) code False }"

definition lre_is_cased :: "u32 \<Rightarrow> bool option" where
  "lre_is_cased c =
     (case find_run c of
        None \<Rightarrow> None
      | Some (Some _) \<Rightarrow> Some True
      | Some None \<Rightarrow> lre_is_in_table c unicode_prop_Cased1_table unicode_prop_Cased1_index
                       (length unicode_prop_Cased1_index div 3))"

definition lre_is_case_ignorable :: "u32 \<Rightarrow> bool option" where
  "lre_is_case_ignorable c =
     lre_is_in_table c unicode_prop_Case_Ignorable_table unicode_prop_Case_Ignorable_index
       (length unicode_prop_Case_Ignorable_index div 3)"

definition lre_is_id_start :: "u32 \<Rightarrow> bool option" where
  "lre_is_id_start c =
     lre_is_in_table c unicode_prop_ID_Start_table unicode_prop_ID_Start_index
       (length unicode_prop_ID_Start_index div 3)"

definition lre_is_id_continue :: "u32 \<Rightarrow> bool option" where
  "lre_is_id_continue c =
     do { s \<leftarrow> lre_is_id_start c;
          if s then Some True
          else lre_is_in_table c unicode_prop_ID_Continue1_table unicode_prop_ID_Continue1_index
                 (length unicode_prop_ID_Continue1_index div 3) }"

definition lre_is_white_space :: "u32 \<Rightarrow> bool option" where
  "lre_is_white_space c =
     lre_is_in_table c unicode_prop_White_Space_table unicode_prop_White_Space_index
       (length unicode_prop_White_Space_index div 3)"

subsection \<open>Properties as ranges\<close>

text \<open>Everything up to the common tail of the loop: the position, \<open>c0\<close>, \<open>c\<close> and \<open>bit\<close> there.\<close>

definition prop1_step :: "points_realloc_fn \<Rightarrow> crange \<Rightarrow> u8 list \<Rightarrow> nat \<Rightarrow> u32 \<Rightarrow> bool
    \<Rightarrow> (int \<times> crange \<times> nat \<times> u32 \<times> u32 \<times> bool) option" where
  "prop1_step rf cr table p c is_in =
     do { b0 \<leftarrow> load table p;
          let c0 = c; b = ucast b0 :: u32 in
          if b < 64 then
            let c = c + (drop_bit 3 b + 1) in
            do { (r, cr) \<leftarrow> (if is_in then cr_add_interval rf cr c0 c else Some (0, cr));
                 Some (r, cr, p + 1, c, c + ((b AND 7) + 1), \<not> is_in) }
          else if 0x80 \<le> b then Some (0, cr, p + 1, c0, c + (b - 0x80 + 1), is_in)
          else if b < 0x60 then
            do { p0 \<leftarrow> load table (p + 1);
                 Some (0, cr, p + 2, c0, c + ((push_bit 8 (b - 0x40) OR ucast p0) + 1), is_in) }
          else
            do { p0 \<leftarrow> load table (p + 1); p1 \<leftarrow> load table (p + 2);
                 Some (0, cr, p + 3, c0,
                   c + ((push_bit 16 (b - 0x60) OR push_bit 8 (ucast p0) OR ucast p1) + 1), is_in) } }"

lemma prop1_step_later: "prop1_step rf cr table p c is_in = Some (r, cr', p', c0, c', is_in') \<Longrightarrow> p < p' \<and> p < length table"
  by (auto simp: prop1_step_def Let_def load_Some_iff split: if_splits Option.bind_splits)

function prop1_loop :: "points_realloc_fn \<Rightarrow> crange \<Rightarrow> u8 list \<Rightarrow> nat \<Rightarrow> u32 \<Rightarrow> bool \<Rightarrow> (int \<times> crange) option" where
  "prop1_loop rf cr table p c is_in =
     (if p < length table then
        case prop1_step rf cr table p c is_in of None \<Rightarrow> None
        | Some (r, cr, p, c0, c, is_in) \<Rightarrow>
          if r \<noteq> 0 then Some (-1, cr)
          else do { (r, cr) \<leftarrow> (if is_in then cr_add_interval rf cr c0 c else Some (0, cr));
                    if r \<noteq> 0 then Some (-1, cr) else prop1_loop rf cr table p c (\<not> is_in) }
      else Some (0, cr))"
  by pat_completeness auto
termination
  by (relation "measure (\<lambda>(rf, cr, table, p, c, is_in). length table - p)")
    (auto dest!: prop1_step_later)

declare prop1_loop.simps [simp del]

text \<open>The argument is the table \<open>unicode_prop_table[prop_idx]\<close> itself, of its length in \<open>unicode_prop_len_table\<close>.\<close>

definition unicode_prop1 :: "points_realloc_fn \<Rightarrow> crange \<Rightarrow> u8 list \<Rightarrow> (int \<times> crange) option" where
  "unicode_prop1 rf cr table = prop1_loop rf cr table 0 0 False"

subsection \<open>Combining class\<close>

text \<open>The run length, with the number of bytes that hold it, the first of which is at \<open>p\<close>.\<close>

definition cc_run :: "u32 \<Rightarrow> u8 list \<Rightarrow> nat \<Rightarrow> (u32 \<times> nat) option" where
  "cc_run n table p =
     (if n < 48 then Some (n, 1)
      else if n < 56 then do { p0 \<leftarrow> load table (p + 1); Some ((push_bit 8 (n - 48) OR ucast p0) + 48, 2) }
      else do { p0 \<leftarrow> load table (p + 1); p1 \<leftarrow> load table (p + 2);
                Some ((push_bit 8 (n - 56) OR push_bit 8 (ucast p0) OR ucast p1) + (48 + push_bit 11 1), 3) })"

lemma cc_run_pos: "cc_run n table p = Some (n', k) \<Longrightarrow> 0 < k"
  by (auto simp: cc_run_def split: if_splits Option.bind_splits)

function cc_loop :: "u32 \<Rightarrow> u8 list \<Rightarrow> nat \<Rightarrow> u32 \<Rightarrow> u32 option" where
  "cc_loop c table p code =
     (case load table p of None \<Rightarrow> None
      | Some b0 \<Rightarrow>
        let b = ucast b0 :: u32; type = drop_bit 6 b in
        case cc_run (b AND 0x3f) table p of None \<Rightarrow> None
        | Some (n, k) \<Rightarrow>
          let q = (if type \<le> 1 then p + k + 1 else p + k); c1 = code + n + 1 in
          if c < c1 then
            if type = 0 then do { x \<leftarrow> load table (q - 1); Some (ucast x) }
            else if type = 1 then do { x \<leftarrow> load table (q - 1); Some (ucast x + c - code) }
            else if type = 2 then Some 0
            else Some 230
          else cc_loop c table q c1)"
  by pat_completeness auto
termination
  by (relation "measure (\<lambda>(c, table, p, code). length table - p)")
    (auto dest!: load_SomeD cc_run_pos split: if_splits)

declare cc_loop.simps [simp del]

definition unicode_get_cc :: "u32 \<Rightarrow> u32 option" where
  "unicode_get_cc c =
     do { (pos, code) \<leftarrow> get_index_pos c unicode_cc_index (length unicode_cc_index div 3);
          if pos < 0 then Some 0 else cc_loop c unicode_cc_table (nat pos) code }"

section \<open>Indexed lookups agree with a scan from the start\<close>

fun le24s :: "u8 list \<Rightarrow> u32 list" where
  "le24s (a # b # c # r) = (ucast a OR push_bit 8 (ucast b) OR push_bit 16 (ucast c)) # le24s r"
| "le24s _ = []"

text \<open>
  Advancing run by run from the start of the table, the position and the code of every index
  entry are met exactly, in the starting state, and the last entry is where the table ends. A run
  that would wrap the code around is refused by the decoder \<open>step\<close>.
\<close>

type_synonym 's run_step = "'s \<Rightarrow> int \<Rightarrow> u8 list \<Rightarrow> ('s \<times> int \<times> nat) option"

fun walk :: "'s run_step \<Rightarrow> 's \<Rightarrow> nat \<Rightarrow> 's \<Rightarrow> int \<Rightarrow> u8 list \<Rightarrow> int \<Rightarrow> (int \<times> int) list \<Rightarrow> int \<Rightarrow> bool" where
  "walk step s0 0 s code S pos bs end_code = False"
| "walk step s0 (Suc f) s code S pos bs end_code =
     (if bs \<noteq> [] \<and> fst (hd bs) = pos then snd (hd bs) = code \<and> s = s0 \<and> walk step s0 f s code S pos (tl bs) end_code
      else if S = [] then bs = [] \<and> code = end_code
      else (case step s code S of None \<Rightarrow> False
            | Some (s', code', k) \<Rightarrow> walk step s0 f s' code' (drop k S) (pos + int k) bs end_code))"

definition boundaries :: "u32 list \<Rightarrow> (int \<times> int) list" where
  "boundaries es = map (\<lambda>(k, v). (int ((k + 1) * UNICODE_INDEX_BLOCK_LEN + unat (drop_bit 21 v)), uint (index_code v)))
     (enumerate 0 (butlast es))"

text \<open>
  The check that is evaluated is the same on the table cut at the positions of the index, so that
  every block is a short list.
\<close>

fun run_block :: "'s run_step \<Rightarrow> nat \<Rightarrow> 's \<Rightarrow> int \<Rightarrow> u8 list \<Rightarrow> ('s \<times> int) option" where
  "run_block step 0 s code S = None"
| "run_block step (Suc f) s code S =
     (if S = [] then Some (s, code)
      else (case step s code S of None \<Rightarrow> None
            | Some (s', code', k) \<Rightarrow> run_block step f s' code' (drop k S)))"

fun chop :: "nat list \<Rightarrow> 'a list \<Rightarrow> 'a list list" where
  "chop [] xs = [xs]"
| "chop (n # ns) xs = take n xs # chop ns (drop n xs)"

fun gaps :: "int \<Rightarrow> (int \<times> int) list \<Rightarrow> nat list" where
  "gaps pos [] = []"
| "gaps pos ((p, d) # bs) = nat (p - pos) # gaps p bs"

fun blocks_ok :: "'s run_step \<Rightarrow> 's \<Rightarrow> int \<Rightarrow> int \<Rightarrow> u8 list list \<Rightarrow> (int \<times> int) list \<Rightarrow> int \<Rightarrow> bool" where
  "blocks_ok step s0 code pos [c] [] e =
     (case run_block step (length c + 1) s0 code c of None \<Rightarrow> False | Some (s', code') \<Rightarrow> code' = e)"
| "blocks_ok step s0 code pos (c # cs) ((p', d) # bs) e =
     (case run_block step (length c + 1) s0 code c of None \<Rightarrow> False
      | Some (s', code') \<Rightarrow> code' = d \<and> s' = s0 \<and> p' = pos + int (length c) \<and> blocks_ok step s0 d p' cs bs e)"
| "blocks_ok step s0 code pos _ _ e = False"

definition index_ok :: "'s run_step \<Rightarrow> 's \<Rightarrow> u8 list \<Rightarrow> u8 list \<Rightarrow> bool" where
  "index_ok step s0 table index_table =
     (let es = le24s index_table; bs = boundaries es in
      es \<noteq> [] \<and> sorted (map (\<lambda>v. index_code v) es) \<and> index_code (last es) = last es
      \<and> blocks_ok step s0 0 0 (chop (gaps 0 bs) table) bs (uint (last es)))"

lemma concat_chop: "concat (chop ns xs) = xs"
  by (induction ns xs rule: chop.induct) auto

locale block_table =
  fixes step :: "'s run_step"
    and scan :: "u32 \<Rightarrow> 's \<Rightarrow> u32 \<Rightarrow> u8 list \<Rightarrow> 'r option"
  assumes mono: "step s code S = Some (s', code', k) \<Longrightarrow> code \<le> code' \<and> code' < 2 ^ 32"
    and skip: "0 \<le> code \<Longrightarrow> step s code S = Some (s', code', k) \<Longrightarrow> code' \<le> uint c \<Longrightarrow>
      scan c s (word_of_int code) S = scan c s' (word_of_int code') (drop k S)"
    and hit: "0 \<le> code \<Longrightarrow> step s code S = Some (s', code', k) \<Longrightarrow> uint c < code' \<Longrightarrow>
      \<exists>r. scan c s (word_of_int code) S = Some r"
    and empty: "scan c s w [] = None"
    and extend: "step s code S = Some (s', code', k) \<Longrightarrow> step s code (S @ R) = Some (s', code', k) \<and> 0 < k \<and> k \<le> length S"
begin

lemma run_block_walk:
  "run_block step f s code S = Some (s', code') \<Longrightarrow> walk step s0 g s' code' R (pos + int (length S)) bs e \<Longrightarrow>
     bs = [] \<or> pos + int (length S) \<le> fst (hd bs) \<Longrightarrow> \<exists>h. walk step s0 h s code (S @ R) pos bs e"
proof (induction f arbitrary: s code S pos)
  case (Suc f)
  show ?case
  proof (cases "S = []")
    case True
    with Suc.prems show ?thesis by auto
  next
    case False
    with Suc.prems(1) obtain s1 c1 k where st: "step s code S = Some (s1, c1, k)"
      "run_block step f s1 c1 (drop k S) = Some (s', code')"
      by (auto split: option.splits)
    note ext = extend [OF st(1), of R]
    have "int (length (drop k S)) = int (length S) - int k" using ext by simp
    then obtain h where h: "walk step s0 h s1 c1 (drop k S @ R) (pos + int k) bs e"
      using Suc.IH [OF st(2), of "pos + int k"] Suc.prems(2,3) by (auto simp: algebra_simps)
    have n: "(bs \<noteq> [] \<and> fst (hd bs) = pos) = False" using Suc.prems(3) False by auto
    have "drop k (S @ R) = drop k S @ R" using ext by simp
    then have "walk step s0 (Suc h) s code (S @ R) pos bs e"
      unfolding walk.simps n if_False using h ext False by simp
    then show ?thesis by blast
  qed
qed simp

lemma blocks_walk: "blocks_ok step s0 code pos cs bs e \<Longrightarrow> \<exists>h. walk step s0 h s0 code (concat cs) pos bs e"
proof (induction cs arbitrary: code pos bs)
  case (Cons c cs)
  show ?case
  proof (cases bs)
    case Nil
    with Cons.prems have cs: "cs = []" by (cases cs) auto
    with Cons.prems Nil obtain s' where "run_block step (length c + 1) s0 code c = Some (s', e)"
      by (auto split: option.splits)
    moreover have "walk step s0 1 s' e [] (pos + int (length c)) [] e" by simp
    ultimately show ?thesis
      using run_block_walk [of "length c + 1" s0 code c s' e s0 1 "[]" pos "[]" e] cs Nil by auto
  next
    case (Cons b bs')
    obtain p' d where b: "b = (p', d)" by (cases b)
    with Cons.prems Cons have r: "run_block step (length c + 1) s0 code c = Some (s0, d)" "p' = pos + int (length c)"
      "blocks_ok step s0 d p' cs bs' e"
      by (auto simp del: run_block.simps split: option.splits)
    obtain h where "walk step s0 h s0 d (concat cs) p' bs' e" using Cons.IH [OF r(3)] by blast
    then have "walk step s0 (Suc h) s0 d (concat cs) (pos + int (length c)) bs e" using Cons b r(2) by simp
    then show ?thesis
      using run_block_walk [OF r(1), of s0 "Suc h" "concat cs" pos bs e] Cons b r(2) by simp
  qed
qed auto

lemma index_walk:
  "index_ok step s0 T I \<Longrightarrow> \<exists>h. walk step s0 h s0 0 T 0 (boundaries (le24s I)) (uint (last (le24s I)))"
  using blocks_walk [of s0 0 0 "chop (gaps 0 (boundaries (le24s I))) T" "boundaries (le24s I)" "uint (last (le24s I))"]
  by (auto simp: index_ok_def Let_def concat_chop)

lemma walk_blocks:
  "walk step s0 f s code S pos bs e \<Longrightarrow> (p, d) \<in> set bs \<Longrightarrow> 0 \<le> code \<Longrightarrow>
     pos \<le> p \<and> code \<le> d \<and> (\<forall>c. d \<le> uint c \<longrightarrow>
       scan c s (word_of_int code) S = scan c s0 (word_of_int d) (drop (nat (p - pos)) S))"
proof (induction f arbitrary: s code S pos bs)
  case (Suc f)
  show ?case
  proof (cases "bs \<noteq> [] \<and> fst (hd bs) = pos")
    case True
    with Suc.prems(1) have w: "snd (hd bs) = code" "s = s0" "walk step s0 f s code S pos (tl bs) e" by auto
    show ?thesis
    proof (cases "(p, d) = hd bs")
      case True
      then have "p = pos" "d = code"
        using w(1) \<open>bs \<noteq> [] \<and> fst (hd bs) = pos\<close> by (metis fst_conv, metis snd_conv)
      then show ?thesis using w(2) by simp
    next
      case False
      then have "(p, d) \<in> set (tl bs)" using Suc.prems(2) by (cases bs) auto
      with Suc.IH [OF w(3)] Suc.prems(3) show ?thesis by blast
    qed
  next
    case False
    with Suc.prems obtain s' code' k where st: "step s code S = Some (s', code', k)"
      "walk step s0 f s' code' (drop k S) (pos + int k) bs e"
      by (auto simp: if_split_asm split: option.splits)
    have c: "code \<le> code'" "0 \<le> code'" using mono [OF st(1)] Suc.prems(3) by auto
    have ih: "pos + int k \<le> p" "code' \<le> d"
      "\<forall>c. d \<le> uint c \<longrightarrow> scan c s' (word_of_int code') (drop k S) = scan c s0 (word_of_int d) (drop (nat (p - (pos + int k))) (drop k S))"
      using Suc.IH [OF st(2) Suc.prems(2) c(2)] by auto
    have "drop (nat (p - (pos + int k))) (drop k S) = drop (nat (p - pos)) S"
    proof -
      have "nat (p - pos) = nat (p - (pos + int k)) + k" using ih(1) by linarith
      then show ?thesis by simp
    qed
    moreover have "scan c s (word_of_int code) S = scan c s' (word_of_int code') (drop k S)" if "d \<le> uint c" for c
      using skip [OF Suc.prems(3) st(1)] ih(2) that by simp
    ultimately show ?thesis using ih c(1) by auto
  qed
qed simp

lemma walk_hit:
  "walk step s0 f s code S pos bs e \<Longrightarrow> uint c < e \<Longrightarrow> 0 \<le> code \<Longrightarrow> code \<le> uint c \<Longrightarrow>
     \<exists>r. scan c s (word_of_int code) S = Some r"
proof (induction f arbitrary: s code S pos bs)
  case (Suc f)
  show ?case
  proof (cases "bs \<noteq> [] \<and> fst (hd bs) = pos")
    case True
    with Suc.prems(1) have "walk step s0 f s code S pos (tl bs) e" by auto
    then show ?thesis using Suc.IH Suc.prems(2-4) by blast
  next
    case False
    then show ?thesis
    proof (cases "S = []")
      case True
      with Suc.prems False show ?thesis by (auto simp: if_split_asm)
    next
      case S: False
      with False Suc.prems(1) obtain s' code' k where st: "step s code S = Some (s', code', k)"
        "walk step s0 f s' code' (drop k S) (pos + int k) bs e"
        by (auto simp: if_split_asm split: option.splits)
      show ?thesis
      proof (cases "uint c < code'")
        case True
        with hit [OF Suc.prems(3) st(1)] show ?thesis by blast
      next
        case False
        have "0 \<le> code'" using mono [OF st(1)] Suc.prems(3) by simp
        with False show ?thesis using Suc.IH [OF st(2) Suc.prems(2)] skip [OF Suc.prems(3) st(1), of c] by auto
      qed
    qed
  qed
qed simp

lemma walk_miss:
  "walk step s0 f s code S pos bs e \<Longrightarrow> e \<le> uint c \<Longrightarrow> 0 \<le> code \<Longrightarrow> scan c s (word_of_int code) S = None \<and> code \<le> e"
proof (induction f arbitrary: s code S pos bs)
  case (Suc f)
  show ?case
  proof (cases "bs \<noteq> [] \<and> fst (hd bs) = pos")
    case True
    with Suc.prems(1) have "walk step s0 f s code S pos (tl bs) e" by auto
    then show ?thesis using Suc.IH Suc.prems(2,3) by blast
  next
    case False
    then show ?thesis
    proof (cases "S = []")
      case True
      with Suc.prems False show ?thesis by (auto simp: if_split_asm empty)
    next
      case S: False
      with False Suc.prems(1) obtain s' code' k where st: "step s code S = Some (s', code', k)"
        "walk step s0 f s' code' (drop k S) (pos + int k) bs e"
        by (auto simp: if_split_asm split: option.splits)
      have c: "code \<le> code'" "0 \<le> code'" using mono [OF st(1)] Suc.prems(3) by auto
      with Suc.IH [OF st(2) Suc.prems(2)] skip [OF Suc.prems(3) st(1), of c] Suc.prems(2) show ?thesis
        by auto
    qed
  qed
qed simp

end

lemma le24s_length: "length I = 3 * n \<Longrightarrow> length (le24s I) = n"
proof (induction I arbitrary: n rule: le24s.induct)
  case (1 a b c r)
  then show ?case by (cases n) auto
qed auto

lemma get_le24_nth: "k < length (le24s I) \<Longrightarrow> get_le24 I (3 * k) = Some (le24s I ! k)"
proof (induction I arbitrary: k rule: le24s.induct)
  case (1 a b c r)
  show ?case
  proof (cases k)
    case 0
    then show ?thesis by (simp add: get_le24_def)
  next
    case (Suc j)
    with 1 have "get_le24 r (3 * j) = Some (le24s r ! j)" by simp
    moreover have "get_le24 (a # b # c # r) (3 + i) = get_le24 r i" for i
      by (simp add: get_le24_def load_def numeral_eq_Suc)
    ultimately show ?thesis by (simp add: Suc)
  qed
qed auto

lemma index_search_spec:
  assumes "hi < length (le24s I)" "lo < hi" "index_code (le24s I ! lo) \<le> c"
  shows "\<exists>k. index_search c I lo hi = Some k \<and> lo \<le> k \<and> k < hi \<and> index_code (le24s I ! k) \<le> c"
  using assms
proof (induction "hi - lo" arbitrary: lo hi rule: less_induct)
  case less
  note unfold = index_search.simps [of c I lo hi]
  show ?case
  proof (cases "lo + 1 < hi")
    case False
    with less.prems show ?thesis by (simp add: unfold)
  next
    case True
    define m where "m = (hi + lo) div 2"
    have m: "lo < m" "m < hi" using True by (auto simp: m_def)
    have ld: "get_le24 I (m * 3) = Some (le24s I ! m)"
      using get_le24_nth [of m I] m less.prems by (simp add: mult.commute)
    show ?thesis
    proof (cases "c < index_code (le24s I ! m)")
      case lt: True
      obtain k where "index_search c I lo m = Some k" "lo \<le> k" "k < m" "index_code (le24s I ! k) \<le> c"
        using less.hyps [of m lo, OF diff_less_mono] less.prems m by auto
      with True m ld lt show ?thesis by (simp add: unfold m_def [symmetric])
    next
      case False
      obtain k where "index_search c I m hi = Some k" "m \<le> k" "k < hi" "index_code (le24s I ! k) \<le> c"
        using less.hyps [of hi m, OF diff_less_mono2] less.prems m False by (auto simp: not_less)
      with True m ld False show ?thesis by (simp add: unfold m_def [symmetric])
    qed
  qed
qed

lemma get_index_pos_spec:
  assumes "le24s I = es" "es \<noteq> []" "length I = 3 * n" "index_code (last es) = last es"
  obtains "get_index_pos c I n = Some (-1, 0)" "last es \<le> c"
  | p d where "get_index_pos c I n = Some (p, d)" "0 \<le> p" "d \<le> c" "c < last es \<or> p = 0 \<and> c < index_code (es ! 0)"
      "(p, d) = (0, 0) \<or> (p, uint d) \<in> set (boundaries es)"
proof -
  have n: "length es = n" "0 < n" using le24s_length [OF assms(3)] assms(1,2) by auto
  have l: "last es = es ! (n - 1)" using n assms(2) by (simp add: last_conv_nth)
  have g0: "get_le24 I 0 = Some (es ! 0)" using get_le24_nth [of 0 I] n assms(1) by simp
  have gl: "get_le24 I ((n - 1) * 3) = Some (last es)"
    using get_le24_nth [of "n - 1" I] n assms(1) l by (simp add: mult.commute)
  show thesis
  proof (cases "c < index_code (es ! 0)")
    case True
    with g0 show thesis by (intro that(2) [of 0 0]) (simp_all add: get_index_pos_def)
  next
    case False
    show thesis
    proof (cases "last es \<le> c")
      case True
      with False g0 gl show thesis by (intro that(1)) (simp_all add: get_index_pos_def Let_def)
    next
      case lt: False
      have "0 < n - 1"
      proof (rule ccontr)
        assume "\<not> 0 < n - 1"
        with n have "n - 1 = 0" by simp
        with l assms(4) False lt show False by (metis not_le)
      qed
      then obtain k where k: "index_search c I 0 (n - 1) = Some k" "k < n - 1" "index_code (es ! k) \<le> c"
        using index_search_spec [of "n - 1" I 0 c] n False assms(1) by (auto simp: not_less)
      let ?b = "(int ((k + 1) * UNICODE_INDEX_BLOCK_LEN + unat (drop_bit 21 (es ! k))), index_code (es ! k))"
      have "get_le24 I (k * 3) = Some (es ! k)"
        using get_le24_nth [of k I] k n assms(1) by (simp add: mult.commute)
      with False lt g0 gl k(1) have "get_index_pos c I n = Some ?b"
        by (simp add: get_index_pos_def Let_def)
      moreover have "(fst ?b, uint (snd ?b)) \<in> set (boundaries es)"
        using k n by (auto simp: boundaries_def in_set_enumerate_eq nth_butlast intro!: image_eqI [of _ _ "(k, es ! k)"])
      ultimately show thesis using k(3) lt by (intro that(2)) auto
    qed
  qed
qed

context block_table
begin

text \<open>The lookup through the index reads the same run as the scan of the whole table.\<close>

lemma indexed_scan:
  assumes "index_ok step s0 T I" "length I = 3 * n"
  obtains d where "get_index_pos c I n = Some (-1, d)" "scan c s0 0 T = None"
  | p d r where "get_index_pos c I n = Some (int p, d)" "c < last (le24s I)"
      "scan c s0 d (drop p T) = Some r" "scan c s0 0 T = Some r"
proof -
  let ?es = "le24s I"
  have ok: "?es \<noteq> []" "sorted (map (\<lambda>v. index_code v) ?es)" "index_code (last ?es) = last ?es"
    using assms(1) by (auto simp: index_ok_def Let_def)
  obtain h where ok4: "walk step s0 h s0 0 T 0 (boundaries ?es) (uint (last ?es))"
    using index_walk [OF assms(1)] by blast
  have "index_code (?es ! 0) \<le> last ?es"
  proof -
    have "index_code (?es ! 0) \<le> index_code (?es ! (length ?es - 1))"
    proof -
      have "length ?es - 1 < length ?es" "0 < length ?es" using ok(1) by simp_all
      then show ?thesis using sorted_nth_mono [OF ok(2), of 0 "length ?es - 1"] by (simp only: nth_map length_map)
    qed
    then show ?thesis using ok(1,3) by (simp add: last_conv_nth)
  qed
  note first = this
  show thesis
  proof (cases rule: get_index_pos_spec [OF refl ok(1) assms(2) ok(3), of c])
    case 1
    then show thesis using walk_miss [OF ok4, of c] by (intro that(1)) (auto simp: word_le_def)
  next
    case (2 p d)
    then have c: "c < last ?es" using first by (auto intro: less_le_trans)
    then obtain r where r: "scan c s0 0 T = Some r" using walk_hit [OF ok4, of c] by (auto simp: word_less_def)
    have "scan c s0 d (drop (nat p) T) = scan c s0 0 T"
      using 2(5) walk_blocks [OF ok4, of p "uint d"] 2(3) by (auto simp: word_le_def)
    with r c 2(1,2) show thesis by (intro that(2) [of "nat p" d r]) auto
  qed
qed

end

section \<open>The property decoder meets the contract\<close>

lemma load_drop_any: "load (drop k xs) i = load xs (k + i)"
  by (auto simp: load_def)

lemma in_table_loop_drop: "in_table_loop c (drop k T) p code b = in_table_loop c T (k + p) code b"
proof (induction "length T - (k + p)" arbitrary: p code b rule: less_induct)
  case less
  have ih: "p < q \<Longrightarrow> load T (k + p) \<noteq> None \<Longrightarrow> in_table_loop c (drop k T) q code' b' = in_table_loop c T (k + q) code' b'"
    for q code' b' using less.hyps [of q code' b'] by (auto simp: load_def split: if_splits)
  show ?case
    by (subst (1 2) in_table_loop.simps)
      (auto simp: load_drop_any Let_def ih add.assoc intro!: bind_option_cong split: option.split)
qed

definition prop_step :: "bool run_step" where
  "prop_step is_in code S =
     (case S of [] \<Rightarrow> None
      | b0 # r \<Rightarrow>
        let b = uint b0 in
        if b < 64 then
          let code' = code + (b div 8 + 1) + (b mod 8 + 1) in
          if code' < 0x100000000 then Some (is_in, code', 1) else None
        else if 0x80 \<le> b then
          let code' = code + (b - 0x80 + 1) in if code' < 0x100000000 then Some (\<not> is_in, code', 1) else None
        else if b < 0x60 then
          (case r of [] \<Rightarrow> None
           | p0 # _ \<Rightarrow> let code' = code + ((b - 0x40) * 0x100 + uint p0 + 1) in
              if code' < 0x100000000 then Some (\<not> is_in, code', 2) else None)
        else
          (case r of p0 # p1 # _ \<Rightarrow>
             let code' = code + ((b - 0x60) * 0x10000 + uint p0 * 0x100 + uint p1 + 1) in
             if code' < 0x100000000 then Some (\<not> is_in, code', 3) else None
           | _ \<Rightarrow> None))"

abbreviation prop_scan :: "u32 \<Rightarrow> bool \<Rightarrow> u32 \<Rightarrow> u8 list \<Rightarrow> bool option" where
  "prop_scan c is_in code S \<equiv> in_table_loop c S 0 code is_in"

text \<open>The word arithmetic of the loops, read on integers.\<close>

lemma byte_bounds: "0 \<le> uint b" "uint b < 256" for b :: u8
  using uint_range_size [of b] by (auto simp: word_size)

lemma byte_less: "(ucast b :: u32) < numeral n \<longleftrightarrow> uint b < uint (numeral n :: u32)" for b :: u8
  by (simp add: word_less_def uint_up_ucast is_up)

lemma byte_ucast: "(ucast b :: u32) = word_of_int (uint b)" for b :: u8
  by simp

lemma unat_byte: "unat (ucast b :: u32) = unat b" "unat b < 256" for b :: u8
  using unat_lt2p [of b] by (simp_all add: unsigned_ucast_eq take_bit_nat_eq_self)

lemma word_of_int_nat:
  "unat w = n \<Longrightarrow> w = word_of_int (int n)" for w :: u32
  by (metis of_nat_unat word_of_int_uint)

lemma byte_words:
  fixes b p0 p1 :: u8
  shows "drop_bit 3 (ucast b :: u32) = word_of_int (uint b div 8)"
    and "(ucast b :: u32) AND 7 = word_of_int (uint b mod 8)"
    and "64 \<le> uint b \<Longrightarrow> uint b < 128 \<Longrightarrow> push_bit 8 (ucast b - 0x40) OR (ucast p0 :: u32) = word_of_int ((uint b - 64) * 256 + uint p0)"
    and "96 \<le> uint b \<Longrightarrow> uint b < 128 \<Longrightarrow> push_bit 16 (ucast b - 0x60) OR push_bit 8 (ucast p0) OR (ucast p1 :: u32)
           = word_of_int ((uint b - 96) * 65536 + uint p0 * 256 + uint p1)"
proof -
  have u: "uint x = int (unat x)" for x :: u8 by simp
  show "drop_bit 3 (ucast b :: u32) = word_of_int (uint b div 8)"
    using word_of_int_nat [of "drop_bit 3 (ucast b)" "unat b div 8"]
    by (simp add: unat_drop_bit unat_byte u zdiv_int del: of_nat_unat)
  show "(ucast b :: u32) AND 7 = word_of_int (uint b mod 8)"
    using word_of_int_nat [of "ucast b AND 7" "unat b mod 8"] unat_and_mask [of "ucast b :: u32" 3]
    by (simp add: unat_byte mask_eq_exp_minus_1 u zmod_int del: of_nat_unat)
  have sub: "unat ((ucast b :: u32) - numeral k) = unat b - unat (numeral k :: u32)" if "unat (numeral k :: u32) \<le> unat b" for k
    using that by (subst unat_sub) (auto simp: word_le_nat_alt unat_byte)
  show "push_bit 8 (ucast b - 0x40) OR (ucast p0 :: u32) = word_of_int ((uint b - 64) * 256 + uint p0)"
    if "64 \<le> uint b" "uint b < 128"
  proof -
    have "unat (push_bit 8 ((ucast b :: u32) - 0x40)) = (unat b - 64) * 256"
      using that unat_push_bit [of "(ucast b :: u32) - 0x40" 8] sub [of "Num.num.Bit0 (Num.num.Bit0 (Num.num.Bit0 (Num.num.Bit0 (Num.num.Bit0 (Num.num.Bit0 Num.num.One)))))"]
      by (simp add: u del: of_nat_unat)
    then have "unat ((ucast p0 :: u32) OR push_bit 8 (ucast b - 0x40)) = unat p0 + (unat b - 64) * 256"
      using unat_or_disj [of "ucast p0 :: u32" 8 "push_bit 8 (ucast b - 0x40)"] unat_byte [of p0] by simp
    from word_of_int_nat [OF this] show ?thesis
      using that by (simp add: or.commute u algebra_simps of_nat_diff del: of_nat_unat)
  qed
  show "push_bit 16 (ucast b - 0x60) OR push_bit 8 (ucast p0) OR (ucast p1 :: u32)
           = word_of_int ((uint b - 96) * 65536 + uint p0 * 256 + uint p1)" if "96 \<le> uint b" "uint b < 128"
  proof -
    have 1: "unat (push_bit 16 ((ucast b :: u32) - 0x60)) = (unat b - 96) * 65536"
      using that unat_push_bit [of "(ucast b :: u32) - 0x60" 16] sub [of "Num.num.Bit0 (Num.num.Bit0 (Num.num.Bit0 (Num.num.Bit0 (Num.num.Bit0 (Num.num.Bit1 Num.num.One)))))"]
      by (simp add: u del: of_nat_unat)
    have 2: "unat (push_bit 8 (ucast p0 :: u32)) = unat p0 * 256"
      using unat_push_bit [of "ucast p0 :: u32" 8] unat_byte [of p0] by simp
    have 3: "unat ((ucast p1 :: u32) OR push_bit 8 (ucast p0)) = unat p1 + unat p0 * 256"
      using unat_or_disj [of "ucast p1 :: u32" 8 "push_bit 8 (ucast p0)"] unat_byte [of p1] 2 by simp
    have "unat (((ucast p1 :: u32) OR push_bit 8 (ucast p0)) OR push_bit 16 (ucast b - 0x60))
        = unat p1 + unat p0 * 256 + (unat b - 96) * 65536"
      using unat_or_disj [of "(ucast p1 :: u32) OR push_bit 8 (ucast p0)" 16 "push_bit 16 (ucast b - 0x60)"] 1 3
        unat_byte [of p1] unat_byte [of p0] by simp
    from word_of_int_nat [OF this] show ?thesis
      using that by (simp add: or.commute or.left_commute u algebra_simps of_nat_diff del: of_nat_unat)
  qed
qed

lemma less_word: "c < word_of_int k \<longleftrightarrow> uint c < k" if "0 \<le> k" "k < 0x100000000" for c :: u32
  using that by (simp add: word_less_def uint_word_of_int)

lemma byte_low:
  "64 \<le> uint b \<Longrightarrow> 16383 \<le> uint b * 256 + uint x" "96 \<le> uint b \<Longrightarrow> 6291455 \<le> uint b * 65536 + (uint x * 256 + uint y)"
  for b x y :: u8
  using byte_bounds(1) [of x] byte_bounds(1) [of y] by linarith+

lemma prop_step_le:
  assumes "prop_step is_in code S = Some (is_in', code', k)"
  shows "code \<le> code' \<and> code' < 2 ^ 32"
proof -
  obtain b0 r where S: "S = b0 # r" using assms by (cases S) (auto simp: prop_step_def)
  note bounds = byte_bounds [of b0] pos_imp_zdiv_nonneg_iff [of 8 "uint b0"] pos_mod_sign [of 8 "uint b0"]
  show ?thesis
    using assms byte_bounds [of "hd r"] byte_bounds [of "hd (tl r)"] bounds
    by (auto simp: prop_step_def S Let_def not_less byte_low split: if_splits list.splits)
qed

text \<open>The loop reads the run that \<^term>\<open>prop_step\<close> describes.\<close>

lemma prop_scan_run:
  assumes "prop_step is_in code S = Some (is_in', code', k)" and S: "S = b0 # r" and c: "0 \<le> code"
  shows "prop_scan c is_in (word_of_int code) S =
      (if uint b0 < 64 \<and> uint c < code + (uint b0 div 8 + 1) then Some is_in
       else if uint c < code' then Some (if uint b0 < 64 then \<not> is_in else is_in)
       else in_table_loop c S k (word_of_int code') is_in')"
proof -
  note bounds = byte_bounds [of b0] pos_imp_zdiv_nonneg_iff [of 8 "uint b0"] pos_mod_sign [of 8 "uint b0"]
  let ?b = "ucast b0 :: u32"
  have less: "?b < 64 \<longleftrightarrow> uint b0 < 64" "0x80 \<le> ?b \<longleftrightarrow> 0x80 \<le> uint b0" "?b < 0x60 \<longleftrightarrow> uint b0 < 0x60"
    by (simp_all add: word_less_def word_le_def uint_up_ucast is_up)
  have c0: "0 \<le> code'" using prop_step_le [OF assms(1)] c by simp
  consider "uint b0 < 64" | "0x80 \<le> uint b0" | "64 \<le> uint b0" "uint b0 < 0x60" | "0x60 \<le> uint b0" "uint b0 < 0x80"
    by linarith
  then show ?thesis
  proof cases
    case 1
    define mid where "mid = code + (uint b0 div 8 + 1)"
    have c': "code' = mid + (uint b0 mod 8 + 1)" "code' < 0x100000000" "k = 1" "is_in' = is_in" "0 \<le> mid" "mid \<le> code'"
      using assms 1 bounds c by (auto simp: prop_step_def S Let_def mid_def split: if_splits)
    have w: "word_of_int code + (drop_bit 3 ?b + 1) = word_of_int mid" "word_of_int mid + ((?b AND 7) + 1) = word_of_int code'"
      by (simp_all add: byte_words mid_def c'(1))
    have l: "c < word_of_int mid \<longleftrightarrow> uint c < mid" "c < word_of_int code' \<longleftrightarrow> uint c < code'"
      using c'(2,5,6) by (simp_all add: less_word)
    show ?thesis
      unfolding in_table_loop.simps [of c S 0 "word_of_int code"]
      by (simp only: S load_code option.case Let_def less 1 if_True w l, simp add: mid_def c')
  next
    case 2
    have c': "code' = code + (uint b0 - 0x80 + 1)" "code' < 0x100000000" "k = 1" "is_in' = (\<not> is_in)"
      using assms 2 c by (auto simp: prop_step_def S Let_def split: if_splits)
    have w: "word_of_int code + (?b - 0x80 + 1) = word_of_int code'"
      by (simp add: c'(1))
    have l: "c < word_of_int code' \<longleftrightarrow> uint c < code'"
      using c'(2) c0 by (simp add: less_word)
    have n: "\<not> uint b0 < 64" using 2 by simp
    show ?thesis
      unfolding in_table_loop.simps [of c S 0 "word_of_int code"]
      by (simp only: S load_code option.case Let_def less 2 n if_True if_False w l, simp add: c' n)
  next
    case 3
    obtain p0 r' where r: "r = p0 # r'" using assms 3 by (auto simp: prop_step_def S Let_def split: list.splits)
    have c': "code' = code + ((uint b0 - 0x40) * 0x100 + uint p0 + 1)" "code' < 0x100000000" "k = 2" "is_in' = (\<not> is_in)"
      using assms 3 c byte_bounds [of p0] by (auto simp: prop_step_def S r Let_def split: if_splits)
    have w: "word_of_int code + ((push_bit 8 (?b - 0x40) OR ucast p0) + 1) = word_of_int code'"
      unfolding c'(1) by (subst byte_words(3)) (use 3 in simp_all)
    have l: "c < word_of_int code' \<longleftrightarrow> uint c < code'"
      using c'(2) c0 by (simp add: less_word)
    have n: "\<not> uint b0 < 64" "\<not> 0x80 \<le> uint b0" using 3 by auto
    have ld: "load (b0 # p0 # r') (0 + 1) = Some p0" by simp
    show ?thesis
      unfolding in_table_loop.simps [of c S 0 "word_of_int code"]
      by (simp only: S r load_code(2) ld option.case Let_def less 3 n if_True if_False Option.bind.bind_lunit w l, simp add: c' n numeral_2_eq_2)
  next
    case 4
    obtain p0 p1 r' where r: "r = p0 # p1 # r'" using assms 4 by (auto simp: prop_step_def S Let_def split: list.splits)
    have c': "code' = code + ((uint b0 - 0x60) * 0x10000 + uint p0 * 0x100 + uint p1 + 1)" "code' < 0x100000000" "k = 3" "is_in' = (\<not> is_in)"
      using assms 4 c byte_bounds [of p0] byte_bounds [of p1] by (auto simp: prop_step_def S r Let_def split: if_splits)
    have w: "word_of_int code + ((push_bit 16 (?b - 0x60) OR push_bit 8 (ucast p0) OR ucast p1) + 1) = word_of_int code'"
      unfolding c'(1) by (subst byte_words(4)) (use 4 in simp_all)
    have l: "c < word_of_int code' \<longleftrightarrow> uint c < code'"
      using c'(2) c0 by (simp add: less_word)
    have n: "\<not> uint b0 < 64" "\<not> 0x80 \<le> uint b0" "\<not> uint b0 < 0x60" using 4 by auto
    have ld: "load (b0 # p0 # p1 # r') (0 + 1) = Some p0" "load (b0 # p0 # p1 # r') (0 + 2) = Some p1" by simp_all
    show ?thesis
      unfolding in_table_loop.simps [of c S 0 "word_of_int code"]
      by (simp only: S r load_code(2) ld option.case Let_def less n if_True if_False Option.bind.bind_lunit w l, simp add: c' n numeral_3_eq_3)
  qed
qed

lemma prop_step_cases:
  assumes "prop_step is_in code S = Some (is_in', code', k)"
  shows "code \<le> code' \<and> code' < 2 ^ 32"
    and "0 \<le> code \<Longrightarrow> code' \<le> uint c \<Longrightarrow>
      prop_scan c is_in (word_of_int code) S = prop_scan c is_in' (word_of_int code') (drop k S)"
    and "0 \<le> code \<Longrightarrow> uint c < code' \<Longrightarrow> \<exists>r. prop_scan c is_in (word_of_int code) S = Some r"
proof -
  show "code \<le> code' \<and> code' < 2 ^ 32" by (rule prop_step_le [OF assms])
  obtain b0 r where S: "S = b0 # r" using assms by (cases S) (auto simp: prop_step_def)
  note bounds = byte_bounds [of b0] pos_imp_zdiv_nonneg_iff [of 8 "uint b0"] pos_mod_sign [of 8 "uint b0"]
  have at: "prop_scan c is_in' w (drop k S) = in_table_loop c S k w is_in'" for w
    using in_table_loop_drop [of c k S 0] by simp
  note unfold = prop_scan_run [OF assms S]
  have mid: "uint b0 < 64 \<Longrightarrow> code + (uint b0 div 8 + 1) \<le> code'"
    using assms bounds by (auto simp: prop_step_def S Let_def split: if_splits)
  show "prop_scan c is_in (word_of_int code) S = prop_scan c is_in' (word_of_int code') (drop k S)" if "0 \<le> code" "code' \<le> uint c"
    unfolding at unfold [OF that(1)] using that(2) mid by auto
  show "\<exists>r. prop_scan c is_in (word_of_int code) S = Some r" if "0 \<le> code" "uint c < code'"
    unfolding unfold [OF that(1)] using that(2) by auto
qed

lemma prop_step_extend:
  "prop_step is_in code S = Some (is_in', code', k) \<Longrightarrow>
     prop_step is_in code (S @ R) = Some (is_in', code', k) \<and> 0 < k \<and> k \<le> length S"
  by (cases S) (auto simp: prop_step_def Let_def split: if_splits list.splits)

interpretation prop_blocks: block_table prop_step prop_scan
  by unfold_locales (rule prop_step_cases prop_step_extend; assumption | simp add: in_table_loop.simps)+

section \<open>The property tables pass the check\<close>

section \<open>The combining class decoder meets the contract\<close>

definition cc_width :: "int \<Rightarrow> u8 list \<Rightarrow> (int \<times> nat) option" where
  "cc_width n r =
     (if n < 48 then Some (n, 1)
      else if n < 56 then (case r of [] \<Rightarrow> None | p0 # _ \<Rightarrow> Some ((n - 48) * 0x100 + uint p0 + 48, 2))
      else (case r of p0 # p1 # _ \<Rightarrow> Some ((n - 56 OR uint p0) * 0x100 + uint p1 + 2096, 3) | _ \<Rightarrow> None))"

definition cc_step :: "unit run_step" where
  "cc_step _ code S =
     (case S of [] \<Rightarrow> None
      | b0 # r \<Rightarrow>
        (case cc_width (uint b0 mod 64) r of None \<Rightarrow> None
         | Some (n, k) \<Rightarrow>
           let k = (if uint b0 < 128 then k + 1 else k); c1 = code + n + 1 in
           if drop (k - 1) S \<noteq> [] \<and> c1 < 0x100000000 then Some ((), c1, k) else None))"

abbreviation cc_scan :: "u32 \<Rightarrow> unit \<Rightarrow> u32 \<Rightarrow> u8 list \<Rightarrow> u32 option" where
  "cc_scan c u code S \<equiv> cc_loop c S 0 code"

lemma word_sub_int: "(word_of_int n :: u32) - numeral k = word_of_int (n - numeral k)"
  by simp

lemma word_of_int_or: "word_of_int a OR word_of_int b = (word_of_int (a OR b) :: u32)"
  by (simp add: word_wi_log_defs)

lemma push_or:
  fixes p :: u8
  assumes "0 \<le> n" "n < 0x10000"
  shows "push_bit 8 (word_of_int n) OR (ucast p :: u32) = word_of_int (n * 0x100 + uint p)"
proof -
  have n: "unat (word_of_int n :: u32) = nat n" using assms by (simp add: unat_eq_nat_uint uint_word_of_int)
  have "unat (push_bit 8 (word_of_int n :: u32)) = nat n * 256"
    using unat_push_bit [of "word_of_int n :: u32" 8] n assms by simp
  then have "unat ((ucast p :: u32) OR push_bit 8 (word_of_int n)) = unat p + nat n * 256"
    using unat_or_disj [of "ucast p :: u32" 8 "push_bit 8 (word_of_int n)"] unat_byte [of p] by simp
  from word_of_int_nat [OF this] show ?thesis
    using assms by (simp add: or.commute add.commute)
qed

lemma cc_width_run:
  assumes "0 \<le> n" "n < 64"
  shows "cc_run (word_of_int n) T p = map_option (\<lambda>(x, k). (word_of_int x, k)) (cc_width n (drop (p + 1) T))"
proof -
  have l: "load T (p + 1) = load (drop (p + 1) T) 0" "load T (p + 2) = load (drop (p + 1) T) 1"
    by (simp_all add: load_drop_any)
  have c: "(word_of_int n :: u32) < 48 \<longleftrightarrow> n < 48" "(word_of_int n :: u32) < 56 \<longleftrightarrow> n < 56"
    using assms by (simp_all add: word_less_def uint_word_of_int)
  consider "n < 48" | "48 \<le> n" "n < 56" | "56 \<le> n" by linarith
  then show ?thesis
  proof cases
    case 1
    then show ?thesis by (simp add: cc_run_def cc_width_def c)
  next
    case 2
    then have w: "push_bit 8 (word_of_int n - 48) OR (ucast p0 :: u32) = word_of_int ((n - 48) * 0x100 + uint p0)" for p0 :: u8
      unfolding word_sub_int by (intro push_or) auto
    have "\<not> n < 48" using 2 by simp
    then show ?thesis
      unfolding cc_run_def cc_width_def c l w using 2 by (cases "drop (p + 1) T") simp_all
  next
    case 3
    have o: "0 \<le> (n - 56 OR uint p0)" "(n - 56 OR uint p0) < 0x10000" for p0 :: u8
      using OR_upper [of "n - 56" 16 "uint p0"] byte_bounds [of p0] 3 assms by auto
    have "push_bit 8 (word_of_int n - 56) OR push_bit 8 (ucast p0) OR (ucast p1 :: u32)
        = word_of_int ((n - 56 OR uint p0) * 0x100 + uint p1)" for p0 p1 :: u8
    proof -
      have "push_bit 8 (word_of_int n - 56) OR push_bit 8 (ucast p0) = push_bit 8 (word_of_int (n - 56 OR uint p0) :: u32)"
        unfolding word_sub_int byte_ucast by (simp only: push_bit_or [symmetric] word_of_int_or)
      then show ?thesis unfolding or.assoc [symmetric] by (simp only: push_or [OF o])
    qed
    note w = this
    have "\<not> n < 48" "\<not> n < 56" using 3 by auto
    then show ?thesis
      unfolding cc_run_def cc_width_def c l w
      by (cases "drop (p + 1) T"; cases "tl (drop (p + 1) T)") simp_all
  qed
qed

lemma cc_low: "\<not> n < 48 \<Longrightarrow> 12240 \<le> n * 256 + uint x" for x :: u8
  using uint_ge_0 [of x] by linarith

lemma cc_width_bounds: "cc_width n r = Some (x, k) \<Longrightarrow> 0 \<le> n \<Longrightarrow> n < 64 \<Longrightarrow> 0 \<le> x \<and> 0 < k"
  using uint_ge_0 [of "hd r"] OR_lower [of "n - 56" "uint (hd r)"] uint_ge_0 [of "hd (tl r)"]
  by (auto simp: cc_width_def cc_low split: if_splits list.splits)

lemma cc_run_drop: "cc_run n (drop k T) p = cc_run n T (k + p)"
  by (simp add: cc_run_def load_drop_any)

lemma cc_loop_drop: "cc_loop c (drop k T) p code = cc_loop c T (k + p) code"
proof (induction "length T - (k + p)" arbitrary: p code rule: less_induct)
  case less
  have ih: "p < q \<Longrightarrow> load T (k + p) = Some b \<Longrightarrow> cc_loop c (drop k T) q code' = cc_loop c T (k + q) code'"
    for q code' b using less.hyps [of q code'] by (auto simp: load_def split: if_splits)
  show ?case
  proof (cases "load T (k + p)")
    case None
    then show ?thesis
      by (simp add: cc_loop.simps [of c "drop k T" p code] cc_loop.simps [of c T "k + p" code] load_drop_any)
  next
    case (Some b0)
    show ?thesis
    proof (cases "cc_run (ucast b0 AND 0x3f) T (k + p)")
      case None
      with Some show ?thesis
        by (simp add: cc_loop.simps [of c "drop k T" p code] cc_loop.simps [of c T "k + p" code] load_drop_any cc_run_drop Let_def)
    next
      case run: (Some nw)
      obtain n w where nw: "nw = (n, w)" by (cases nw)
      have w: "0 < w" using cc_run_pos run nw by blast
      have i: "cc_loop c (drop k T) (p + w) code' = cc_loop c T (k + p + w) code'"
        "cc_loop c (drop k T) (Suc (p + w)) code' = cc_loop c T (Suc (k + p + w)) code'" for code'
        using ih [OF _ Some] w by (simp_all add: add.assoc)
      have l: "load (drop k T) (Suc (p + w) - 1) = load T (Suc (k + p + w) - 1)"
        by (simp add: load_drop_any add.assoc)
      show ?thesis
        using i l w run Some
        by (simp add: cc_loop.simps [of c "drop k T" p code] cc_loop.simps [of c T "k + p" code] load_drop_any cc_run_drop Let_def nw add.assoc)
    qed
  qed
qed

lemma cc_step_cases:
  assumes "cc_step u code S = Some (u', code', k)"
  shows "code \<le> code' \<and> code' < 2 ^ 32"
    and "0 \<le> code \<Longrightarrow> code' \<le> uint c \<Longrightarrow> cc_scan c u (word_of_int code) S = cc_scan c u' (word_of_int code') (drop k S)"
    and "0 \<le> code \<Longrightarrow> uint c < code' \<Longrightarrow> \<exists>r. cc_scan c u (word_of_int code) S = Some r"
proof -
  obtain b0 r where S: "S = b0 # r" using assms by (cases S) (auto simp: cc_step_def)
  obtain n w where w: "cc_width (uint b0 mod 64) r = Some (n, w)"
    using assms by (auto simp: cc_step_def S Let_def split: option.splits)
  have m: "0 \<le> uint b0 mod 64" "uint b0 mod 64 < 64" by simp_all
  note wb = cc_width_bounds [OF w m]
  have k: "k = (if uint b0 < 128 then w + 1 else w)" "code' = code + n + 1" "code' < 0x100000000"
    "drop (k - 1) S \<noteq> []"
    using assms by (auto simp: cc_step_def S w Let_def split: if_splits)
  show le: "code \<le> code' \<and> code' < 2 ^ 32" using k wb by simp
  have ld: "load S (k - 1) \<noteq> None" using k(4) by (auto simp: load_None_iff)
  have at: "cc_scan c u' x (drop k S) = cc_loop c S k x" for x
    using cc_loop_drop [of c k S 0] by simp
  have b: "(ucast b0 :: u32) AND 0x3f = word_of_int (uint b0 mod 64)"
    using word_of_int_nat [of "ucast b0 AND 0x3f" "unat b0 mod 64"] unat_and_mask [of "ucast b0 :: u32" 6]
    by (simp add: unat_byte mask_eq_exp_minus_1 zmod_int)
  have "unat (drop_bit 6 (ucast b0 :: u32)) = unat b0 div 64"
    by (simp add: unat_drop_bit unat_byte)
  then have ty: "drop_bit 6 (ucast b0 :: u32) \<le> 1 \<longleftrightarrow> uint b0 < 128"
  proof -
    have "unat b0 div 64 \<le> 1 \<longleftrightarrow> unat b0 < 128" by linarith
    moreover have "int (unat b0) = uint b0" by simp
    then have "uint b0 < 128 \<longleftrightarrow> unat b0 < 128" by linarith
    ultimately show ?thesis using \<open>unat (drop_bit 6 (ucast b0 :: u32)) = unat b0 div 64\<close>
      by (simp add: word_le_nat_alt)
  qed
  have run: "cc_run (ucast b0 AND 0x3f) S 0 = Some (word_of_int n, w)"
    using cc_width_run [OF m, of S 0] w by (simp add: S b)
  have unfold: "cc_loop c S 0 (word_of_int code) =
      (if uint c < code' then
            if drop_bit 6 (ucast b0 :: u32) = 0 then do { q \<leftarrow> load S (k - 1); Some (ucast q) }
            else if drop_bit 6 (ucast b0 :: u32) = 1 then do { q \<leftarrow> load S (k - 1); Some (ucast q + c - word_of_int code) }
            else if drop_bit 6 (ucast b0 :: u32) = 2 then Some 0
            else Some 230
          else cc_loop c S k (word_of_int code'))" if c: "0 \<le> code"
  proof -
    have l: "c < word_of_int code' \<longleftrightarrow> uint c < code'"
      using le c by (simp add: less_word)
    have s: "word_of_int code + word_of_int n + 1 = (word_of_int code' :: u32)" by (simp add: k(2))
    have q: "(if uint b0 < 128 then 0 + w + 1 else 0 + w) = k" by (simp add: k(1))
    have h: "load S 0 = Some b0" by (simp add: S)
    show ?thesis
      by (subst cc_loop.simps) (simp only: h option.case Let_def run prod.case ty q s l)
  qed
  show "cc_scan c u (word_of_int code) S = cc_scan c u' (word_of_int code') (drop k S)" if "0 \<le> code" "code' \<le> uint c"
    unfolding at unfold [OF that(1)] using that(2) by simp
  show "\<exists>r. cc_scan c u (word_of_int code) S = Some r" if "0 \<le> code" "uint c < code'"
    using that ld unfolding unfold [OF that(1)] by (cases "load S (k - 1)") auto
qed

lemma cc_step_extend:
  "cc_step u code S = Some (u', code', k) \<Longrightarrow>
     cc_step u code (S @ R) = Some (u', code', k) \<and> 0 < k \<and> k \<le> length S"
proof (cases S)
  case (Cons b0 r)
  assume st: "cc_step u code S = Some (u', code', k)"
  then obtain n w where w: "cc_width (uint b0 mod 64) r = Some (n, w)"
    using Cons by (auto simp: cc_step_def split: option.splits)
  then have "cc_width (uint b0 mod 64) (r @ R) = Some (n, w)" "0 < w"
    by (auto simp: cc_width_def split: if_splits list.splits)
  with st w Cons show ?thesis
    by (auto simp: cc_step_def Let_def not_le split: if_splits)
qed (simp add: cc_step_def)

interpretation cc_blocks: block_table cc_step cc_scan
  by unfold_locales (rule cc_step_cases cc_step_extend; assumption | simp add: cc_loop.simps)+

section \<open>Membership and ranges\<close>

lemma in_table_scan:
  assumes "index_ok prop_step False T I" "length I = 3 * n"
  shows "lre_is_in_table c T I n = Some (prop_scan c False 0 T = Some True)"
proof (cases rule: prop_blocks.indexed_scan [OF assms, of c])
  case (1 d)
  then show ?thesis by (simp add: lre_is_in_table_def)
next
  case (2 p d r)
  then show ?thesis using in_table_loop_drop [of c p T 0] by (simp add: lre_is_in_table_def)
qed

text \<open>What one turn of the loop adds to the ranges, for a run that \<^term>\<open>prop_step\<close> accepts.\<close>

definition prop_out :: "bool \<Rightarrow> u32 \<Rightarrow> u8 \<Rightarrow> u32 \<Rightarrow> u32 list" where
  "prop_out is_in c b0 c' =
     (let b = ucast b0 :: u32; mid = c + (drop_bit 3 b + 1) in
      if b < 64 then if is_in then [c, mid] else [mid, c']
      else if is_in then [c, c'] else [])"

lemma prop_step_cons:
  fixes c :: u32
  assumes "prop_step is_in (uint c) (drop p T) = Some (is_in', c', k)"
  shows "p < length T" "drop p T = T ! p # drop (Suc p) T"
proof -
  show "p < length T" using assms by (cases "p < length T") (auto simp: prop_step_def)
  then show "drop p T = T ! p # drop (Suc p) T" by (rule Cons_nth_drop_Suc [symmetric])
qed

text \<open>One run, with every word read as an integer.\<close>

lemma prop_step_small:
  fixes c :: u32
  assumes "prop_step is_in (uint c) (drop p T) = Some (is_in', c', k)" "(ucast (T ! p) :: u32) < 64"
  shows "uint (c + (drop_bit 3 (ucast (T ! p)) + 1)) = uint c + (uint (T ! p) div 8 + 1)"
    and "c + (drop_bit 3 (ucast (T ! p)) + 1) + ((ucast (T ! p) AND 7) + 1) = word_of_int c'"
    and "uint c + (uint (T ! p) div 8 + 1) \<le> c'" "k = 1" "is_in' = is_in"
proof -
  let ?b = "T ! p"
  note d = prop_step_cons [OF assms(1)]
  have small: "uint ?b < 64" using assms(2) by (simp add: word_less_def uint_up_ucast is_up)
  have c': "c' = uint c + (uint ?b div 8 + 1) + (uint ?b mod 8 + 1)" "c' < 0x100000000" "k = 1" "is_in' = is_in"
    using assms(1) small by (auto simp: d(2) prop_step_def Let_def split: if_splits)
  have pos: "0 \<le> uint ?b div 8" "0 \<le> uint ?b mod 8"
    using pos_imp_zdiv_nonneg_iff [of 8 "uint ?b"] by simp_all
  have mid: "c + (drop_bit 3 (ucast ?b) + 1) = word_of_int (uint c + (uint ?b div 8 + 1))"
    by (simp add: byte_words)
  show "uint (c + (drop_bit 3 (ucast ?b) + 1)) = uint c + (uint ?b div 8 + 1)"
    unfolding mid using c'(1,2) pos uint_ge_0 [of c] by (subst uint_word_of_int) (simp add: mod_pos_pos_trivial)
  show "c + (drop_bit 3 (ucast ?b) + 1) + ((ucast ?b AND 7) + 1) = word_of_int c'"
    by (simp add: byte_words c'(1))
  show "uint c + (uint ?b div 8 + 1) \<le> c'" using c'(1) pos by simp
  show "k = 1" "is_in' = is_in" using c' by simp_all
qed

lemma prop_step_range:
  fixes c :: u32
  assumes "prop_step is_in (uint c) (drop p T) = Some (is_in', c', k)"
  shows "uint (word_of_int c' :: u32) = c'" "c \<le> word_of_int c'"
    "0 < k" "k \<le> length (drop p T)"
proof -
  have r: "uint c \<le> c'" "c' < 2 ^ 32" using prop_step_cases(1) [OF assms] by auto
  have "0 \<le> uint c" by simp
  then have "0 \<le> c'" using r(1) by (rule order_trans)
  then show u: "uint (word_of_int c' :: u32) = c'" using r by (simp add: uint_word_of_int)
  show "c \<le> word_of_int c'" using r(1) u by (simp add: word_le_def)
  show "0 < k" "k \<le> length (drop p T)"
    using assms unfolding prop_step_cons(2) [OF assms]
    by (auto simp: prop_step_def Let_def split: if_splits list.splits)
      (auto dest!: arg_cong [where f = length])
qed

lemma prop_out_spec:
  fixes c :: u32
  assumes "prop_step is_in (uint c) (drop p T) = Some (is_in', c', k)"
  defines "out \<equiv> prop_out is_in c (T ! p) (word_of_int c')"
  shows "sorted out" "even (length out)" "\<forall>x\<in>set out. c \<le> x \<and> x \<le> word_of_int c'" "length out \<le> 2"
    "c \<le> d \<Longrightarrow> d < word_of_int c' \<Longrightarrow> in_pts d out = (prop_scan d is_in c (drop p T) = Some True)"
proof -
  let ?mid = "c + (drop_bit 3 (ucast (T ! p)) + 1)" and ?small = "(ucast (T ! p) :: u32) < 64"
  note range = prop_step_range [OF assms(1)]
  have mid: "c \<le> ?mid" "?mid \<le> word_of_int c'" if ?small
    using prop_step_small [OF assms(1) that] range(1) pos_imp_zdiv_nonneg_iff [of 8 "uint (T ! p)"]
    by (simp_all add: word_le_def)
  show "sorted out" "even (length out)" "\<forall>x\<in>set out. c \<le> x \<and> x \<le> word_of_int c'" "length out \<le> 2"
    using mid range(2) by (auto simp: out_def prop_out_def Let_def)
  show "in_pts d out = (prop_scan d is_in c (drop p T) = Some True)" if "c \<le> d" "d < word_of_int c'"
  proof (cases ?small)
    case True
    note small = prop_step_small [OF assms(1) True]
    have "prop_scan d is_in c (drop p T) = Some (if d < ?mid then is_in else \<not> is_in)"
      unfolding prop_step_cons(2) [OF assms(1)]
      by (subst in_table_loop.simps)
        (simp only: load_code option.case Let_def True if_True small(2) that(2), simp)
    moreover have "out = (if is_in then [c, ?mid] else [?mid, word_of_int c'])"
      using True by (simp add: out_def prop_out_def)
    ultimately show ?thesis using that mid [OF True] by (auto simp: not_less)
  next
    case False
    then have "out = (if is_in then [c, word_of_int c'] else [])"
      by (simp add: out_def prop_out_def)
    moreover have "prop_scan d is_in c (drop p T) = Some is_in"
      using prop_scan_run [OF assms(1) prop_step_cons(2) [OF assms(1)], of d] False that(2) range(1)
      by (auto simp: word_less_def uint_up_ucast is_up)
    ultimately show ?thesis using that by simp
  qed
qed

context points_realloc
begin

lemma prop1_step_eq:
  fixes c :: u32
  assumes "prop_step is_in (uint c) (drop p T) = Some (is_in', c', k)"
  shows "prop1_step rf cr T p c is_in =
     (if (ucast (T ! p) :: u32) < 64 then
        do { (r, cr) \<leftarrow> (if is_in then cr_add_interval rf cr c (c + (drop_bit 3 (ucast (T ! p)) + 1)) else Some (0, cr));
             Some (r, cr, p + k, c + (drop_bit 3 (ucast (T ! p)) + 1), word_of_int c', \<not> is_in) }
      else Some (0, cr, p + k, c, word_of_int c', is_in))"
    and "is_in' = (if (ucast (T ! p) :: u32) < 64 then is_in else \<not> is_in)"
proof -
  note d = prop_step_cons [OF assms]
  let ?b = "T ! p"
  have l: "load T p = Some (T ! p)" "load T (p + 1) = load (drop (Suc p) T) 0" "load T (p + 2) = load (drop (Suc p) T) 1"
    using d(1) by (simp_all add: load_drop_any load_in)
  have less: "(ucast ?b :: u32) < 64 \<longleftrightarrow> uint ?b < 64" "0x80 \<le> (ucast ?b :: u32) \<longleftrightarrow> 0x80 \<le> uint ?b"
    "(ucast ?b :: u32) < 0x60 \<longleftrightarrow> uint ?b < 0x60"
    by (simp_all add: word_less_def word_le_def uint_up_ucast is_up)
  note st = assms [unfolded d(2) prop_step_def list.case Let_def]
  show "is_in' = (if (ucast ?b :: u32) < 64 then is_in else \<not> is_in)"
    using st by (auto simp: less split: if_splits list.splits)
  show "prop1_step rf cr T p c is_in =
     (if (ucast ?b :: u32) < 64 then
        do { (r, cr) \<leftarrow> (if is_in then cr_add_interval rf cr c (c + (drop_bit 3 (ucast ?b) + 1)) else Some (0, cr));
             Some (r, cr, p + k, c + (drop_bit 3 (ucast ?b) + 1), word_of_int c', \<not> is_in) }
      else Some (0, cr, p + k, c, word_of_int c', is_in))"
  proof -
    consider "uint ?b < 64" | "0x80 \<le> uint ?b" | "64 \<le> uint ?b" "uint ?b < 0x60" | "0x60 \<le> uint ?b" "uint ?b < 0x80"
      by linarith
    then show ?thesis
    proof cases
      case 1
      then have "(ucast ?b :: u32) < 64" by (simp add: less)
      note small = prop_step_small [OF assms this]
      from 1 show ?thesis
        unfolding prop1_step_def Let_def l Option.bind.bind_lunit less small(2) small(4) by (simp cong: if_cong)
    next
      case 2
      then have n: "\<not> uint ?b < 64" by simp
      have c': "c' = uint c + (uint ?b - 0x80 + 1)" "k = 1" using st 2 n by (simp_all split: if_splits)
      have "c + (ucast ?b - 0x80 + 1) = word_of_int c'" by (simp add: c'(1))
      with 2 n show ?thesis
        unfolding prop1_step_def Let_def l Option.bind.bind_lunit less by (simp only: c'(2) if_True if_False)
    next
      case 3
      then have n: "\<not> uint ?b < 64" "\<not> 0x80 \<le> uint ?b" by auto
      obtain p0 r' where r: "drop (Suc p) T = p0 # r'" using st 3 n by (auto split: list.splits)
      have c': "c' = uint c + ((uint ?b - 0x40) * 0x100 + uint p0 + 1)" "k = 2" using st 3 n by (simp_all add: r split: if_splits)
      have w: "c + ((push_bit 8 (ucast ?b - 0x40) OR ucast p0) + 1) = word_of_int c'"
        unfolding c'(1) by (subst byte_words(3)) (use 3 in simp_all)
      have l0: "load (p0 # r') 0 = Some p0" by simp
      show ?thesis
        unfolding prop1_step_def Let_def l Option.bind.bind_lunit less r l0 w using 3 n by (simp only: c'(2) if_True if_False)
    next
      case 4
      then have n: "\<not> uint ?b < 64" "\<not> 0x80 \<le> uint ?b" "\<not> uint ?b < 0x60" by auto
      obtain p0 p1 r' where r: "drop (Suc p) T = p0 # p1 # r'" using st 4 n by (auto split: list.splits)
      have c': "c' = uint c + ((uint ?b - 0x60) * 0x10000 + uint p0 * 0x100 + uint p1 + 1)" "k = 3"
        using st 4 n by (simp_all add: r split: if_splits)
      have w: "c + ((push_bit 16 (ucast ?b - 0x60) OR push_bit 8 (ucast p0) OR ucast p1) + 1) = word_of_int c'"
        unfolding c'(1) by (subst byte_words(4)) (use 4 in simp_all)
      have l0: "load (p0 # p1 # r') 0 = Some p0" "load (p0 # p1 # r') 1 = Some p1" by simp_all
      show ?thesis
        unfolding prop1_step_def Let_def l Option.bind.bind_lunit less r l0 w using 4 n by (simp only: c'(2) if_True if_False)
    qed
  qed
qed

lemma add_interval_opt:
  assumes "wf_cr cr"
  shows "\<exists>r cr'. (if b then cr_add_interval rf cr c1 c2 else Some (0, cr)) = Some (r, cr') \<and> wf_cr cr'
     \<and> (r = 0 \<and> pts cr' = pts cr @ (if b then [c1, c2] else []) \<or> r = -1 \<and> pts cr' = pts cr)
     \<and> (grants rf (2 * (cr_len cr + 2)) \<longrightarrow> r = 0)"
  using cr_add_interval_spec [OF assms, of c1 c2] assms by auto

lemma prop1_turn:
  fixes c :: u32
  assumes "wf_cr cr" "prop_step is_in (uint c) (drop p T) = Some (is_in', c', k)"
  shows "\<exists>(r :: int) cr'. wf_cr cr' \<and> (r = 0 \<and> pts cr' = pts cr @ prop_out is_in c (T ! p) (word_of_int c') \<or> r = -1)
     \<and> prop1_loop rf cr T p c is_in = (if r \<noteq> 0 then Some (-1, cr') else prop1_loop rf cr' T (p + k) (word_of_int c') is_in')
     \<and> (grants rf (2 * (cr_len cr + 2)) \<longrightarrow> r = 0)"
proof -
  let ?mid = "c + (drop_bit 3 (ucast (T ! p)) + 1)" and ?small = "(ucast (T ! p) :: u32) < 64"
  note step = prop1_step_eq [OF assms(2)] and p = prop_step_cons(1) [OF assms(2)]
  note unfold = prop1_loop.simps [of rf cr T p c is_in]
  obtain r cr1 where c1: "(if is_in then cr_add_interval rf cr c (if ?small then ?mid else word_of_int c') else Some (0, cr)) = Some (r, cr1)" "wf_cr cr1"
    "r = 0 \<and> pts cr1 = pts cr @ (if is_in then [c, if ?small then ?mid else word_of_int c'] else []) \<or> r = -1 \<and> pts cr1 = pts cr"
    "grants rf (2 * (cr_len cr + 2)) \<longrightarrow> r = 0"
    using add_interval_opt [OF assms(1), of is_in c "if ?small then ?mid else word_of_int c'"] by blast
  show ?thesis
  proof (cases "?small \<and> \<not> is_in")
    case True
    obtain r cr1 where c2: "cr_add_interval rf cr ?mid (word_of_int c') = Some (r, cr1)" "wf_cr cr1"
      "r = 0 \<and> pts cr1 = pts cr @ [?mid, word_of_int c'] \<or> r = -1 \<and> pts cr1 = pts cr"
      "grants rf (2 * (cr_len cr + 2)) \<longrightarrow> r = 0"
      using cr_add_interval_spec [OF assms(1), of ?mid "word_of_int c'"] by blast
    then show ?thesis using p True unfolding unfold step prop_out_def Let_def
      by - (rule exI [of _ r], rule exI [of _ cr1], auto)
  next
    case False
    then show ?thesis using p c1 unfolding unfold step prop_out_def Let_def
      by - (rule exI [of _ r], rule exI [of _ cr1], auto split: if_splits)
  qed
qed

lemma prop1_loop_spec:
  fixes c :: u32
  assumes "walk prop_step s0 f is_in (uint c) (drop p T) pos bs e" "wf_cr cr" "p \<le> length T"
  shows "\<exists>r cr' out. prop1_loop rf cr T p c is_in = Some (r, cr') \<and> wf_cr cr' \<and> (r = 0 \<or> r = -1)
     \<and> (r = 0 \<longrightarrow> pts cr' = pts cr @ out) \<and> sorted out \<and> even (length out) \<and> (\<forall>x\<in>set out. c \<le> x)
     \<and> (\<forall>d. c \<le> d \<longrightarrow> in_pts d out = (prop_scan d is_in c (drop p T) = Some True))
     \<and> (grants rf (2 * (cr_len cr + 2 * (length T - p))) \<longrightarrow> r = 0)"
  using assms
proof (induction f arbitrary: is_in c p pos bs cr)
  case (Suc f)
  show ?case
  proof (cases "bs \<noteq> [] \<and> fst (hd bs) = pos")
    case True
    with Suc.prems(1) have "walk prop_step s0 f is_in (uint c) (drop p T) pos (tl bs) e" by auto
    then show ?thesis using Suc.IH Suc.prems(2,3) by blast
  next
    case nobs: False
    show ?thesis
    proof (cases "p < length T")
      case False
      then have "prop1_loop rf cr T p c is_in = Some (0, cr)" "drop p T = []"
        by (simp_all add: prop1_loop.simps [of rf cr T p c is_in])
      then show ?thesis using Suc.prems(2)
        by (intro exI [of _ 0] exI [of _ cr] exI [of _ "[]"]) (simp add: in_table_loop.simps)
    next
      case True
      have d: "drop p T = T ! p # drop (Suc p) T" using True by (rule Cons_nth_drop_Suc [symmetric])
      have "drop p T \<noteq> []" using True by simp
      with nobs Suc.prems(1) obtain i' c' k where "prop_step is_in (uint c) (drop p T) = Some (i', c', k)"
        "walk prop_step s0 f i' c' (drop k (drop p T)) (pos + int k) bs e"
        by (auto simp only: walk.simps if_False split: option.splits)
      then have st: "prop_step is_in (uint c) (drop p T) = Some (i', c', k)"
        "walk prop_step s0 f i' c' (drop (p + k) T) (pos + int k) bs e"
        by (simp_all add: add.commute)
      note k = prop_step_range(3,4) [OF st(1)]
      have kle: "p + k \<le> length T" using k(2) True by simp
      note cases = prop_step_cases [OF st(1)]
      note out = prop_out_spec [OF st(1)] and range = prop_step_range [OF st(1)]
      obtain r :: int and cr1 where t: "wf_cr cr1" "r = 0 \<and> pts cr1 = pts cr @ prop_out is_in c (T ! p) (word_of_int c') \<or> r = -1"
        "prop1_loop rf cr T p c is_in = (if r \<noteq> 0 then Some (-1, cr1) else prop1_loop rf cr1 T (p + k) (word_of_int c') i')"
        "grants rf (2 * (cr_len cr + 2)) \<longrightarrow> r = 0"
        using prop1_turn [OF Suc.prems(2) st(1)] by blast
      have le: "2 * (cr_len cr + 2) \<le> 2 * (cr_len cr + 2 * (length T - p))"
        using True by simp
      let ?c' = "word_of_int c' :: u32"
      have st': "walk prop_step s0 f i' (uint ?c') (drop (p + k) T) (pos + int k) bs e"
        using st(2) range(1) by simp
      obtain r2 cr2 o2 where ih: "prop1_loop rf cr1 T (p + k) (word_of_int c') i' = Some (r2, cr2)" "wf_cr cr2" "r2 = 0 \<or> r2 = -1"
        "r2 = 0 \<longrightarrow> pts cr2 = pts cr1 @ o2" "sorted o2" "even (length o2)" "\<forall>x\<in>set o2. ?c' \<le> x"
        "\<forall>d. ?c' \<le> d \<longrightarrow> in_pts d o2 = (prop_scan d i' ?c' (drop (p + k) T) = Some True)"
        "grants rf (2 * (cr_len cr1 + 2 * (length T - (p + k)))) \<longrightarrow> r2 = 0"
        using Suc.IH [OF st' t(1) kle] by blast
      let ?out = "prop_out is_in c (T ! p) (word_of_int c') @ o2"
      have srt: "sorted ?out" "even (length ?out)" "\<forall>x\<in>set ?out. c \<le> x"
        using out(1-4) ih(5-7) range(2) by (auto simp: sorted_append intro: order_trans)
      have mem: "in_pts d ?out = (prop_scan d is_in c (drop p T) = Some True)" if "c \<le> d" for d
      proof (cases "d < ?c'")
        case True
        then have "\<not> par d o2" using ih(7) by (intro par_below) (auto intro: less_le_trans)
        then have "in_pts d ?out = in_pts d (prop_out is_in c (T ! p) (word_of_int c'))"
          using srt out(1,2) by (simp add: in_pts_par par_append)
        with out(5) [OF that True] show ?thesis by simp
      next
        case False
        have "\<not> par d (prop_out is_in c (T ! p) (word_of_int c'))"
          using out(2,3) False by (subst par_above) (auto intro: order_trans)
        then have "in_pts d ?out = in_pts d o2"
          using srt ih(5,6) by (simp add: in_pts_par par_append)
        moreover have ge: "?c' \<le> d" using False by (simp add: not_less)
        moreover have "c' \<le> uint d" using ge range(1) by (simp add: word_le_def)
        ultimately show ?thesis using ih(8) cases(2) [of d] by (simp add: add.commute)
      qed
      have len: "r = 0 \<Longrightarrow> cr_len cr1 \<le> cr_len cr + 2"
        using t(1,2) Suc.prems(2) out(4) length_pts [of cr1] length_pts [of cr] by auto
      show ?thesis
      proof (cases "r = 0")
        case True
        have le2: "2 * (cr_len cr1 + 2 * (length T - (p + k))) \<le> 2 * (cr_len cr + 2 * (length T - p))"
          using len [OF True] k by auto
        show ?thesis
          using True t ih srt mem grants_mono [OF _ le2, of rf]
          by (intro exI [of _ r2] exI [of _ cr2] exI [of _ ?out]) (simp del: drop_drop)
      next
        case False
        with t(4) have "\<not> grants rf (2 * (cr_len cr + 2 * (length T - p)))"
          using grants_mono [OF _ le, of rf] by blast
        with False show ?thesis using t srt mem
          by (intro exI [of _ "-1"] exI [of _ cr1] exI [of _ ?out]) (simp del: drop_drop)
      qed
    qed
  qed
qed simp

lemma unicode_prop1_builds:
  assumes "index_ok prop_step False T I" "wf_cr cr" "cr_len cr = 0"
  shows "\<exists>r cr'. unicode_prop1 rf cr T = Some (r, cr') \<and> wf_cr cr' \<and> (r = 0 \<or> r = -1)
     \<and> (r = 0 \<longrightarrow> sorted (pts cr') \<and> (\<forall>c. in_pts c (pts cr') = (prop_scan c False 0 T = Some True)))
     \<and> (grants rf (4 * length T) \<longrightarrow> r = 0)"
proof -
  obtain h where "walk prop_step False h False (uint (0 :: u32)) (drop 0 T) 0 (boundaries (le24s I)) (uint (last (le24s I)))"
    using prop_blocks.index_walk [OF assms(1)] by auto
  from prop1_loop_spec [OF this assms(2)] obtain r cr' out where "prop1_loop rf cr T 0 0 False = Some (r, cr')"
    "wf_cr cr'" "r = 0 \<or> r = -1" "r = 0 \<longrightarrow> pts cr' = pts cr @ out" "sorted out"
    "\<forall>d. in_pts d out = (prop_scan d False 0 T = Some True)" "grants rf (2 * (2 * length T)) \<longrightarrow> r = 0"
    using assms(3) by auto
  then show ?thesis using assms(3) by (auto simp: unicode_prop1_def)
qed

end

lemma cc_total:
  assumes "index_ok cc_step () unicode_cc_table unicode_cc_index"
  shows "\<exists>r. unicode_get_cc c = Some r"
proof -
  have len: "length unicode_cc_index = 3 * (length unicode_cc_index div 3)"
    by (simp add: unicode_cc_index_def)
  show ?thesis
  proof (cases rule: cc_blocks.indexed_scan [OF assms len, of c])
    case (1 d)
    then show ?thesis by (simp add: unicode_get_cc_def)
  next
    case (2 p d r)
    then show ?thesis using cc_loop_drop [of c p unicode_cc_table 0] by (simp add: unicode_get_cc_def)
  qed
qed

section \<open>Every table passes the check\<close>

lemma prop_tables_ok:
  "index_ok prop_step False unicode_prop_Cased1_table unicode_prop_Cased1_index"
  "index_ok prop_step False unicode_prop_White_Space_table unicode_prop_White_Space_index"
  by code_simp+

lemma Case_Ignorable_ok: "index_ok prop_step False unicode_prop_Case_Ignorable_table unicode_prop_Case_Ignorable_index"
  by code_simp

lemma ID_Start_ok: "index_ok prop_step False unicode_prop_ID_Start_table unicode_prop_ID_Start_index"
  by code_simp

lemma ID_Continue1_ok: "index_ok prop_step False unicode_prop_ID_Continue1_table unicode_prop_ID_Continue1_index"
  by code_simp

lemma cc_table_ok: "index_ok cc_step () unicode_cc_table unicode_cc_index"
  by code_simp

lemma index_lengths:
  "length unicode_prop_Cased1_index = 3 * (length unicode_prop_Cased1_index div 3)"
  "length unicode_prop_White_Space_index = 3 * (length unicode_prop_White_Space_index div 3)"
  "length unicode_prop_Case_Ignorable_index = 3 * (length unicode_prop_Case_Ignorable_index div 3)"
  "length unicode_prop_ID_Start_index = 3 * (length unicode_prop_ID_Start_index div 3)"
  "length unicode_prop_ID_Continue1_index = 3 * (length unicode_prop_ID_Continue1_index div 3)"
  by (simp_all add: unicode_prop_Cased1_index_def unicode_prop_White_Space_index_def
      unicode_prop_Case_Ignorable_index_def unicode_prop_ID_Start_index_def unicode_prop_ID_Continue1_index_def)

section \<open>Properties\<close>

text \<open>
  The members of a property table: a scan of the whole table from its start, without the index.
\<close>

definition in_prop :: "u32 \<Rightarrow> u8 list \<Rightarrow> bool" where
  "in_prop c T = (in_table_loop c T 0 0 False = Some True)"

text \<open>
  C23: The identifier, case and white space tests answer for every code point without reading
  outside their tables, and the answer is that of a scan of the whole table: the block index
  only saves time.
\<close>

theorem property_tests:
  "lre_is_id_start c = Some (in_prop c unicode_prop_ID_Start_table)
   \<and> lre_is_id_continue c = Some (in_prop c unicode_prop_ID_Start_table \<or> in_prop c unicode_prop_ID_Continue1_table)
   \<and> lre_is_white_space c = Some (in_prop c unicode_prop_White_Space_table)
   \<and> lre_is_case_ignorable c = Some (in_prop c unicode_prop_Case_Ignorable_table)
   \<and> lre_is_cased c = Some (list_ex (in_run c) case_conv_table1 \<or> in_prop c unicode_prop_Cased1_table)"
proof -
  note scan = in_table_scan [folded in_prop_def]
  have start: "lre_is_id_start c = Some (in_prop c unicode_prop_ID_Start_table)"
    by (simp only: lre_is_id_start_def scan [OF ID_Start_ok index_lengths(4)])
  moreover have "lre_is_id_continue c = Some (in_prop c unicode_prop_ID_Start_table \<or> in_prop c unicode_prop_ID_Continue1_table)"
    by (simp add: lre_is_id_continue_def start scan [OF ID_Continue1_ok index_lengths(5)])
  moreover have "lre_is_white_space c = Some (in_prop c unicode_prop_White_Space_table)"
    by (simp only: lre_is_white_space_def scan [OF prop_tables_ok(2) index_lengths(2)])
  moreover have "lre_is_case_ignorable c = Some (in_prop c unicode_prop_Case_Ignorable_table)"
    by (simp only: lre_is_case_ignorable_def scan [OF Case_Ignorable_ok index_lengths(3)])
  moreover have "lre_is_cased c = Some (list_ex (in_run c) case_conv_table1 \<or> in_prop c unicode_prop_Cased1_table)"
  proof (cases rule: find_run_cases [of c])
    case 1
    from 1(2) have "\<not> list_ex (in_run c) case_conv_table1"
      by (auto simp: list_ex_length)
    with 1(1) show ?thesis
      by (simp add: lre_is_cased_def scan [OF prop_tables_ok(1) index_lengths(1)])
  next
    case (2 i)
    then have "list_ex (in_run c) case_conv_table1" by (auto simp: list_ex_length)
    with 2(2) show ?thesis by (simp add: lre_is_cased_def)
  qed
  ultimately show ?thesis by blast
qed

text \<open>
  C36: The two decoders of the property tables agree: the ranges that \<^verbatim>\<open>unicode_prop1\<close> builds from a
  table hold exactly the code points that the indexed membership test accepts. Only the
  allocator can make it fail, and not when it grants four points for a byte.
\<close>

theorem unicode_prop1_is_in_table:
  assumes "points_realloc rf" "index_ok prop_step False table index_table" "length index_table = 3 * n"
    and "wf_cr cr" "cr_len cr = 0"
  shows "\<exists>r cr'. unicode_prop1 rf cr table = Some (r, cr') \<and> wf_cr cr' \<and> (r = 0 \<or> r = -1)
     \<and> (r = 0 \<longrightarrow> sorted (pts cr') \<and> (\<forall>c. lre_is_in_table c table index_table n = Some (in_pts c (pts cr'))))
     \<and> (grants rf (4 * length table) \<longrightarrow> r = 0)"
proof -
  obtain r cr' where "unicode_prop1 rf cr table = Some (r, cr')" "wf_cr cr'" "r = 0 \<or> r = -1"
    "r = 0 \<longrightarrow> sorted (pts cr') \<and> (\<forall>c. in_pts c (pts cr') = (prop_scan c False 0 table = Some True))"
    "grants rf (4 * length table) \<longrightarrow> r = 0"
    using points_realloc.unicode_prop1_builds [OF assms(1,2,4,5)] by blast
  then show ?thesis using in_table_scan [OF assms(2,3)] by auto
qed

theorem unicode_prop1_is_in_table_witness:
  "\<exists>cr'. unicode_prop1 (cr_default_realloc 100 (\<lambda>_. 0)) cr_init unicode_prop_White_Space_table = Some (0, cr')
     \<and> (\<forall>c. lre_is_in_table c unicode_prop_White_Space_table unicode_prop_White_Space_index 1 = Some (in_pts c (pts cr')))"
proof -
  have l: "length unicode_prop_White_Space_index = 3 * 1" "4 * length unicode_prop_White_Space_table \<le> 100"
    by (simp_all add: unicode_prop_White_Space_index_def unicode_prop_White_Space_table_def)
  have "cr_len cr_init = 0" by (simp add: cr_init_def)
  from unicode_prop1_is_in_table [OF default_points.points_realloc_axioms prop_tables_ok(2) l(1) cr_init_wf(1) this, of 100 "\<lambda>_. 0"]
  show ?thesis using default_grants [OF l(2)] by auto
qed

text \<open>
  C37: \<^verbatim>\<open>unicode_get_cc\<close> ends for every code point, without reading outside its table.
\<close>

theorem unicode_get_cc_total: "\<exists>cc. unicode_get_cc c = Some cc"
  by (rule cc_total [OF cc_table_ok])

end
