(* ===== verification/JsValue.thy ===== *)
theory JsValue
  imports Prelude "HOL-Library.Log_Nat"
begin

text \<open>
  Script values as keys: strings of 8-bit or 16-bit units, the big floats behind big integers, and
  the comparison and hash functions of \<^verbatim>\<open>quickjs.c\<close> and \<^verbatim>\<open>libbf.c\<close> on them. A 64-bit float is its
  bit pattern; objects and symbols are their addresses.
\<close>

section \<open>Strings\<close>

datatype js_string = Str8 "u8 list" | Str16 "u16 list"

definition hash_string8 :: "u8 list \<Rightarrow> u32 \<Rightarrow> u32" where
  "hash_string8 str h = fold (\<lambda>c h. h * 263 + ucast c) str h"

definition hash_string16 :: "u16 list \<Rightarrow> u32 \<Rightarrow> u32" where
  "hash_string16 str h = fold (\<lambda>c h. h * 263 + ucast c) str h"

fun hash_string :: "js_string \<Rightarrow> u32 \<Rightarrow> u32" where
  "hash_string (Str16 s) h = hash_string16 s h"
| "hash_string (Str8 s) h = hash_string8 s h"

text \<open>The first difference of two arrays. Only the sign of \<open>memcmp\<close> is specified in C.\<close>

fun memcmp16_8 :: "u16 list \<Rightarrow> u8 list \<Rightarrow> nat \<Rightarrow> int option" where
  "memcmp16_8 s1 s2 0 = Some 0"
| "memcmp16_8 (x # s1) (y # s2) (Suc n) =
     (let c = uint x - uint y in if c \<noteq> 0 then Some c else memcmp16_8 s1 s2 n)"
| "memcmp16_8 _ _ _ = None"

fun memcmp16 :: "u16 list \<Rightarrow> u16 list \<Rightarrow> nat \<Rightarrow> int option" where
  "memcmp16 s1 s2 0 = Some 0"
| "memcmp16 (x # s1) (y # s2) (Suc n) =
     (let c = uint x - uint y in if c \<noteq> 0 then Some c else memcmp16 s1 s2 n)"
| "memcmp16 _ _ _ = None"

fun memcmp8 :: "u8 list \<Rightarrow> u8 list \<Rightarrow> nat \<Rightarrow> int option" where
  "memcmp8 s1 s2 0 = Some 0"
| "memcmp8 (x # s1) (y # s2) (Suc n) =
     (let c = uint x - uint y in if c \<noteq> 0 then Some c else memcmp8 s1 s2 n)"
| "memcmp8 _ _ _ = None"

fun js_string_memcmp :: "js_string \<Rightarrow> js_string \<Rightarrow> nat \<Rightarrow> int option" where
  "js_string_memcmp (Str8 s1) (Str8 s2) n = memcmp8 s1 s2 n"
| "js_string_memcmp (Str8 s1) (Str16 s2) n = map_option uminus (memcmp16_8 s2 s1 n)"
| "js_string_memcmp (Str16 s1) (Str8 s2) n = memcmp16_8 s1 s2 n"
| "js_string_memcmp (Str16 s1) (Str16 s2) n = memcmp16 s1 s2 n"

fun js_string_len :: "js_string \<Rightarrow> nat" where
  "js_string_len (Str8 s) = length s"
| "js_string_len (Str16 s) = length s"

definition compare_u32 :: "nat \<Rightarrow> nat \<Rightarrow> int" where
  "compare_u32 a b = - of_bool (a < b) + of_bool (b < a)"

definition js_string_compare :: "js_string \<Rightarrow> js_string \<Rightarrow> int option" where
  "js_string_compare p1 p2 = do {
     res \<leftarrow> js_string_memcmp p1 p2 (min (js_string_len p1) (js_string_len p2));
     Some (if res = 0 then compare_u32 (js_string_len p1) (js_string_len p2) else res) }"

section \<open>Big floats\<close>

record bf =
  bf_sign :: bool
  bf_expn :: int
  bf_tab :: "u64 list"

definition BF_EXP_ZERO :: int where
  "BF_EXP_ZERO = - (2 ^ 63)"

definition BF_EXP_NAN :: int where
  "BF_EXP_NAN = 2 ^ 63 - 1"

text \<open>The index is unsigned, so one below zero is past the end.\<close>

definition get_limbz :: "bf \<Rightarrow> u64 \<Rightarrow> u64" where
  "get_limbz a idx = (if length (bf_tab a) \<le> unat idx then 0 else bf_tab a ! unat idx)"

primrec bf_cmpu_loop :: "bf \<Rightarrow> bf \<Rightarrow> u64 \<Rightarrow> nat \<Rightarrow> int" where
  "bf_cmpu_loop a b len 0 = 0"
| "bf_cmpu_loop a b len (Suc i) =
     (let v1 = get_limbz a (of_nat (length (bf_tab a)) - len + of_nat i);
          v2 = get_limbz b (of_nat (length (bf_tab b)) - len + of_nat i)
      in if v1 \<noteq> v2 then if v1 < v2 then -1 else 1
         else bf_cmpu_loop a b len i)"

definition bf_cmpu :: "bf \<Rightarrow> bf \<Rightarrow> int" where
  "bf_cmpu a b =
     (if bf_expn a \<noteq> bf_expn b then if bf_expn a < bf_expn b then -1 else 1
      else let len = max (length (bf_tab a)) (length (bf_tab b)) in bf_cmpu_loop a b (of_nat len) len)"

definition bf_cmp :: "bf \<Rightarrow> bf \<Rightarrow> int" where
  "bf_cmp a b =
     (if bf_expn a = BF_EXP_NAN \<or> bf_expn b = BF_EXP_NAN then 2
      else if bf_sign a \<noteq> bf_sign b then
        if bf_expn a = BF_EXP_ZERO \<and> bf_expn b = BF_EXP_ZERO then 0
        else 1 - 2 * of_bool (bf_sign a)
      else let res = bf_cmpu a b in if bf_sign a then - res else res)"

definition bf_cmp_full :: "bf \<Rightarrow> bf \<Rightarrow> int" where
  "bf_cmp_full a b =
     (if bf_expn a = BF_EXP_NAN \<or> bf_expn b = BF_EXP_NAN then
        if bf_expn a = bf_expn b then 0
        else if bf_expn a = BF_EXP_NAN then 1 else -1
      else if bf_sign a \<noteq> bf_sign b then 1 - 2 * of_bool (bf_sign a)
      else let res = bf_cmpu a b in if bf_sign a then - res else res)"

definition bf_cmp_eq :: "bf \<Rightarrow> bf \<Rightarrow> bool" where
  "bf_cmp_eq a b = (bf_cmp a b = 0)"

section \<open>Floats\<close>

text \<open>What C's conversions and comparisons of \<^verbatim>\<open>double\<close> do on bit patterns.\<close>

definition float64_nan :: "u64 \<Rightarrow> bool" where
  "float64_nan d = (0x7FF0000000000000 < d AND 0x7FFFFFFFFFFFFFFF)"

definition float64_zero :: "u64 \<Rightarrow> bool" where
  "float64_zero d = (d = 0 \<or> d = 0x8000000000000000)"

definition float64_eq :: "u64 \<Rightarrow> u64 \<Rightarrow> bool" where
  "float64_eq d1 d2 = (\<not> float64_nan d1 \<and> \<not> float64_nan d2 \<and> (d1 = d2 \<or> float64_zero d1 \<and> float64_zero d2))"

definition float64_of_int :: "int \<Rightarrow> u64" where
  "float64_of_int n =
     (if n = 0 then 0
      else let a = nat \<bar>n\<bar>; e = floorlog 2 a - 1
           in of_nat (of_bool (n < 0) * 2 ^ 63 + (1023 + e) * 2 ^ 52 + (a * 2 ^ (52 - e) - 2 ^ 52)))"

definition JS_FLOAT64_NAN :: u64 where
  "JS_FLOAT64_NAN = 0x7FF8000000000000"

section \<open>Values\<close>

text \<open>The constructors are the tags of a value; \<open>VOther\<close> stands for the internal ones.\<close>

datatype jsval =
    VBigInt bf
  | VSymbol u64
  | VString js_string
  | VObject u64
  | VInt u32
  | VBool bool
  | VNull
  | VUndefined
  | VOther int
  | VFloat64 u64

fun js_value_tag :: "jsval \<Rightarrow> int" where
  "js_value_tag (VBigInt _) = -9"
| "js_value_tag (VSymbol _) = -8"
| "js_value_tag (VString _) = -7"
| "js_value_tag (VObject _) = -1"
| "js_value_tag (VInt _) = 0"
| "js_value_tag (VBool _) = 1"
| "js_value_tag VNull = 2"
| "js_value_tag VUndefined = 3"
| "js_value_tag (VOther tag) = tag"
| "js_value_tag (VFloat64 _) = 7"

datatype eq_mode = JS_EQ_STRICT | JS_EQ_SAME_VALUE | JS_EQ_SAME_VALUE_ZERO

fun number_test :: "eq_mode \<Rightarrow> u64 \<Rightarrow> u64 \<Rightarrow> bool" where
  "number_test JS_EQ_STRICT d1 d2 = float64_eq d1 d2"
| "number_test JS_EQ_SAME_VALUE d1 d2 =
     (if float64_nan d1 \<or> float64_nan d2 then float64_nan d1 = float64_nan d2 else d1 = d2)"
| "number_test JS_EQ_SAME_VALUE_ZERO d1 d2 =
     (if float64_nan d1 \<or> float64_nan d2 then float64_nan d1 = float64_nan d2 else float64_eq d1 d2)"

definition float64_of_int32 :: "u32 \<Rightarrow> u64" where
  "float64_of_int32 i = float64_of_int (sint i)"

fun js_strict_eq2 :: "jsval \<Rightarrow> jsval \<Rightarrow> eq_mode \<Rightarrow> bool" where
  "js_strict_eq2 (VBool b1) op2 mode = (case op2 of VBool b2 \<Rightarrow> b1 = b2 | _ \<Rightarrow> False)"
| "js_strict_eq2 VNull op2 mode = (case op2 of VNull \<Rightarrow> True | _ \<Rightarrow> False)"
| "js_strict_eq2 VUndefined op2 mode = (case op2 of VUndefined \<Rightarrow> True | _ \<Rightarrow> False)"
| "js_strict_eq2 (VString p1) op2 mode = (case op2 of VString p2 \<Rightarrow> js_string_compare p1 p2 = Some 0 | _ \<Rightarrow> False)"
| "js_strict_eq2 (VSymbol p1) op2 mode = (case op2 of VSymbol p2 \<Rightarrow> p1 = p2 | _ \<Rightarrow> False)"
| "js_strict_eq2 (VObject p1) op2 mode = (case op2 of VObject p2 \<Rightarrow> p1 = p2 | _ \<Rightarrow> False)"
| "js_strict_eq2 (VInt i1) op2 mode =
     (case op2 of
        VInt i2 \<Rightarrow> number_test mode (float64_of_int32 i1) (float64_of_int32 i2)
      | VFloat64 d2 \<Rightarrow> number_test mode (float64_of_int32 i1) d2
      | _ \<Rightarrow> False)"
| "js_strict_eq2 (VFloat64 d1) op2 mode =
     (case op2 of
        VFloat64 d2 \<Rightarrow> number_test mode d1 d2
      | VInt i2 \<Rightarrow> number_test mode d1 (float64_of_int32 i2)
      | _ \<Rightarrow> False)"
| "js_strict_eq2 (VBigInt a) op2 mode = (case op2 of VBigInt b \<Rightarrow> bf_cmp_eq a b | _ \<Rightarrow> False)"
| "js_strict_eq2 (VOther _) op2 mode = False"

definition js_same_value :: "jsval \<Rightarrow> jsval \<Rightarrow> bool" where
  "js_same_value op1 op2 = js_strict_eq2 op1 op2 JS_EQ_SAME_VALUE"

definition js_same_value_zero :: "jsval \<Rightarrow> jsval \<Rightarrow> bool" where
  "js_same_value_zero op1 op2 = js_strict_eq2 op1 op2 JS_EQ_SAME_VALUE_ZERO"

section \<open>Keys of maps\<close>

definition map_normalize_key :: "jsval \<Rightarrow> jsval" where
  "map_normalize_key key = (case key of VFloat64 d \<Rightarrow> if float64_eq d 0 then VInt 0 else key | _ \<Rightarrow> key)"

definition limb_bytes :: "u64 list \<Rightarrow> u8 list" where
  "limb_bytes tab = concat (map (\<lambda>w. map (\<lambda>i. ucast (drop_bit (8 * i) w)) [0..<8]) tab)"

definition hash_float64 :: "u64 \<Rightarrow> u32" where
  "hash_float64 d = ((ucast d XOR ucast (drop_bit 32 d)) * 3163) XOR 7"

fun map_hash_key :: "jsval \<Rightarrow> u32" where
  "map_hash_key (VBool b) = of_bool b XOR word_of_int (js_value_tag (VBool b))"
| "map_hash_key (VString s) = hash_string s 0 XOR word_of_int (js_value_tag (VString s))"
| "map_hash_key (VObject p) = ucast p * 3163 XOR word_of_int (js_value_tag (VObject p))"
| "map_hash_key (VSymbol p) = ucast p * 3163 XOR word_of_int (js_value_tag (VSymbol p))"
| "map_hash_key (VInt i) = hash_float64 (float64_of_int32 i)"
| "map_hash_key (VBigInt a) = hash_string8 (limb_bytes (bf_tab a)) 0 XOR word_of_int (js_value_tag (VBigInt a))"
| "map_hash_key (VFloat64 d) = hash_float64 (if float64_nan d then JS_FLOAT64_NAN else d)"
| "map_hash_key v = 0 XOR word_of_int (js_value_tag v)"


section \<open>Lemmas\<close>

subsection \<open>Strings\<close>

fun js_chars :: "js_string \<Rightarrow> int list" where
  "js_chars (Str8 s) = map uint s"
| "js_chars (Str16 s) = map uint s"

text \<open>The comparison of two sequences of characters that \<open>memcmp\<close> makes.\<close>

fun first_diff :: "int list \<Rightarrow> int list \<Rightarrow> nat \<Rightarrow> int option" where
  "first_diff s1 s2 0 = Some 0"
| "first_diff (x # s1) (y # s2) (Suc n) = (if x \<noteq> y then Some (x - y) else first_diff s1 s2 n)"
| "first_diff _ _ _ = None"

lemma memcmp16_8_diff: "memcmp16_8 s t n = first_diff (map uint s) (map uint t) n"
  by (induction s t n rule: memcmp16_8.induct) (auto simp: Let_def)

lemma memcmp16_diff: "memcmp16 s t n = first_diff (map uint s) (map uint t) n"
  by (induction s t n rule: memcmp16.induct) (auto simp: Let_def)

lemma memcmp8_diff: "memcmp8 s t n = first_diff (map uint s) (map uint t) n"
  by (induction s t n rule: memcmp8.induct) (auto simp: Let_def)

lemmas memcmp_first_diff = memcmp16_8_diff memcmp16_diff memcmp8_diff

lemma first_diff_swap: "map_option uminus (first_diff s t n) = first_diff t s n"
  by (induction s t n rule: first_diff.induct) auto

lemma js_string_memcmp_eq: "js_string_memcmp p q n = first_diff (js_chars p) (js_chars q) n"
  by (cases p; cases q) (simp_all add: memcmp_first_diff first_diff_swap)

lemma length_js_chars [simp]: "length (js_chars p) = js_string_len p"
  by (cases p) auto

lemma first_diff_total:
  "n \<le> length s \<Longrightarrow> n \<le> length t \<Longrightarrow> \<exists>c. first_diff s t n = Some c \<and> (c = 0 \<longleftrightarrow> take n s = take n t)"
  by (induction s t n rule: first_diff.induct) auto

lemma js_string_compare_eq:
  "\<exists>c. js_string_compare p q = Some c \<and> (c = 0 \<longleftrightarrow> js_chars p = js_chars q)"
proof -
  let ?n = "min (js_string_len p) (js_string_len q)"
  obtain c where c: "js_string_memcmp p q ?n = Some c" "c = 0 \<longleftrightarrow> take ?n (js_chars p) = take ?n (js_chars q)"
    using first_diff_total [of ?n "js_chars p" "js_chars q"] by (auto simp: js_string_memcmp_eq)
  have "js_chars p = js_chars q \<longleftrightarrow> js_string_len p = js_string_len q \<and> take ?n (js_chars p) = take ?n (js_chars q)"
    by (metis length_js_chars min.idem take_all_iff order_refl)
  then show ?thesis
    using c by (auto simp: js_string_compare_def compare_u32_def)
qed

lemma first_diff_less:
  "n = min (length s) (length t) \<Longrightarrow>
     \<exists>c. first_diff s t n = Some c
       \<and> ((if c = 0 then length s < length t else c < 0) \<longleftrightarrow> (s, t) \<in> lexord {(a, b). a < b})"
proof (induction s t n rule: first_diff.induct)
  case (1 s t)
  then show ?case by (cases s; cases t) (auto simp: min_def split: if_splits)
next
  case (2 x s y t n)
  then show ?case by (cases "x = y") auto
qed (auto simp: min_def)

lemma hash_string_chars: "hash_string p h = fold (\<lambda>c h. h * 263 + word_of_int c) (js_chars p) h"
  by (cases p) (simp_all add: hash_string8_def hash_string16_def fold_map comp_def flip: ucast_eq)

subsection \<open>Big floats\<close>

text \<open>A number in normal form has no low limb that is zero, and zero has no limbs.\<close>

definition bf_normal :: "bf \<Rightarrow> bool" where
  "bf_normal a = (length (bf_tab a) < 2 ^ 63 \<and> bf_expn a \<noteq> BF_EXP_NAN
     \<and> (if bf_expn a = BF_EXP_ZERO then bf_tab a = [] else bf_tab a \<noteq> [] \<and> hd (bf_tab a) \<noteq> 0))"

lemma bf_cmpu_loop_0:
  "bf_cmpu_loop a b len n = 0 \<longleftrightarrow>
     (\<forall>i<n. get_limbz a (of_nat (length (bf_tab a)) - len + of_nat i) = get_limbz b (of_nat (length (bf_tab b)) - len + of_nat i))"
  by (induction n) (auto simp: Let_def less_Suc_eq)

lemma get_limbz_at:
  assumes "length (bf_tab a) < 2 ^ 63" "len < 2 ^ 63" "i < len" "length (bf_tab a) \<le> len"
  shows "get_limbz a (of_nat (length (bf_tab a)) - of_nat len + of_nat i)
    = (if i < len - length (bf_tab a) then 0 else bf_tab a ! (i - (len - length (bf_tab a))))"
proof -
  let ?l = "length (bf_tab a)"
  let ?w = "of_nat ?l - of_nat len + of_nat i :: u64"
  show ?thesis
  proof (cases "i < len - ?l")
    case True
    define x :: u64 where "x = of_nat (len - ?l - i)"
    have w: "?w = 0 - x" using True assms(4) by (simp add: x_def of_nat_diff)
    have d: "0 < len - ?l - i" "len - ?l - i < 2 ^ 63" using True assms by auto
    then have "unat x = len - ?l - i" unfolding x_def by (subst unsigned_of_nat) (simp add: take_bit_nat_eq_self)
    then have "unat (0 - x) = 2 ^ 64 - (len - ?l - i)"
      using d unat_sub_if_size [of 0 x] by (simp add: word_size)
    then have "2 ^ 63 \<le> unat ?w" unfolding w using d by simp
    then show ?thesis using True assms(1) by (simp add: get_limbz_def)
  next
    case False
    define y :: u64 where "y = of_nat (i - (len - ?l))"
    have w: "?w = y" using False assms(4) by (simp add: y_def of_nat_diff)
    have d: "i - (len - ?l) < 2 ^ 63" "i - (len - ?l) < ?l" using False assms by auto
    then have "unat y = i - (len - ?l)" unfolding y_def by (subst unsigned_of_nat) (simp add: take_bit_nat_eq_self)
    then show ?thesis unfolding w using False d by (simp add: get_limbz_def)
  qed
qed

lemma bf_cmpu_eq:
  assumes "bf_normal a" "bf_normal b"
  shows "bf_cmpu a b = 0 \<longleftrightarrow> bf_expn a = bf_expn b \<and> bf_tab a = bf_tab b"
proof
  assume z: "bf_cmpu a b = 0"
  then have e: "bf_expn a = bf_expn b" by (auto simp: bf_cmpu_def split: if_splits)
  let ?la = "length (bf_tab a)" and ?lb = "length (bf_tab b)"
  let ?len = "max ?la ?lb"
  have len: "?la < 2 ^ 63" "?lb < 2 ^ 63" "?len < 2 ^ 63" using assms by (auto simp: bf_normal_def)
  have "\<forall>i<?len. get_limbz a (of_nat ?la - of_nat ?len + of_nat i) = get_limbz b (of_nat ?lb - of_nat ?len + of_nat i)"
    using z e by (simp only: bf_cmpu_def bf_cmpu_loop_0 Let_def if_False simp_thms)
  then have limbs: "(if i < ?len - ?la then 0 else bf_tab a ! (i - (?len - ?la))) = (if i < ?len - ?lb then 0 else bf_tab b ! (i - (?len - ?lb)))"
    if "i < ?len" for i
    using get_limbz_at [OF len(1,3) that] get_limbz_at [OF len(2,3) that] that by simp
  have "?la = ?lb"
  proof (rule ccontr)
    assume ne: "?la \<noteq> ?lb"
    then have "0 < ?len" by auto
    from limbs [OF this] ne have "bf_tab a \<noteq> [] \<and> bf_tab a ! 0 = 0 \<or> bf_tab b \<noteq> [] \<and> bf_tab b ! 0 = 0"
      by (cases "?la < ?lb") (auto simp: max_def split: if_splits)
    then have "bf_tab a \<noteq> [] \<and> hd (bf_tab a) = 0 \<or> bf_tab b \<noteq> [] \<and> hd (bf_tab b) = 0"
      by (auto simp: hd_conv_nth)
    then show False using assms e by (auto simp: bf_normal_def split: if_splits)
  qed
  moreover have "bf_tab a ! i = bf_tab b ! i" if "i < ?la" for i
    using limbs [of i] calculation that by simp
  ultimately show "bf_expn a = bf_expn b \<and> bf_tab a = bf_tab b" using e by (simp add: nth_equalityI)
next
  assume "bf_expn a = bf_expn b \<and> bf_tab a = bf_tab b"
  then show "bf_cmpu a b = 0" by (simp add: bf_cmpu_def bf_cmpu_loop_0 Let_def get_limbz_def)
qed

lemma bf_cmp_eq_normal:
  assumes "bf_normal a" "bf_normal b"
  shows "bf_cmp_eq a b \<longleftrightarrow> bf_expn a = bf_expn b \<and> bf_tab a = bf_tab b \<and> (bf_sign a = bf_sign b \<or> bf_expn a = BF_EXP_ZERO)"
  using bf_cmpu_eq [OF assms] assms by (auto simp: bf_cmp_eq_def bf_cmp_def bf_normal_def Let_def)


subsection \<open>Numbers\<close>

text \<open>A number as a float, or nothing for the other values.\<close>

fun js_number :: "jsval \<Rightarrow> u64 option" where
  "js_number (VInt i) = Some (float64_of_int32 i)"
| "js_number (VFloat64 d) = Some d"
| "js_number _ = None"

text \<open>What a map may have as a key: what \<open>map_normalize_key\<close> returns for a proper value.\<close>

fun map_key :: "jsval \<Rightarrow> bool" where
  "map_key (VFloat64 d) = (\<not> float64_zero d)"
| "map_key (VBigInt a) = bf_normal a"
| "map_key (VOther _) = False"
| "map_key _ = True"

lemma float64_of_int_shape:
  assumes "n \<noteq> 0" "\<bar>n\<bar> \<le> 2 ^ 31"
  obtains e f where "e \<le> 31" "f < (2 :: nat) ^ 52"
    "float64_of_int n = of_nat (of_bool (n < 0) * 2 ^ 63 + (1023 + e) * 2 ^ 52 + f)"
proof -
  let ?a = "nat \<bar>n\<bar>"
  define e where "e = floorlog 2 ?a - 1"
  have a: "0 < ?a" "?a \<le> 2 ^ 31" using assms by auto
  have bounds: "2 ^ e \<le> ?a" "?a < 2 ^ Suc e"
    using floorlog_bounds [of ?a 2] a by (auto simp: e_def floorlog_def)
  have e: "e \<le> 31"
  proof (rule ccontr)
    assume "\<not> e \<le> 31"
    then have "(2 :: nat) ^ 32 \<le> 2 ^ e" by (intro power_increasing) auto
    from order_trans [OF order_trans [OF this bounds(1)] a(2)] show False by simp
  qed
  have e52: "e + (52 - e) = 52" using e by simp
  have pow: "(2 :: nat) ^ 52 = 2 ^ e * 2 ^ (52 - e)"
    using power_add [of "2 :: nat" e "52 - e"] unfolding e52 .
  have "?a * 2 ^ (52 - e) < 2 ^ Suc e * 2 ^ (52 - e)" using bounds(2) by simp
  also have "\<dots> = 2 * 2 ^ 52" unfolding pow power_Suc mult.assoc ..
  finally have "?a * 2 ^ (52 - e) - 2 ^ 52 < (2 :: nat) ^ 52" by simp
  moreover have "float64_of_int n = of_nat (of_bool (n < 0) * 2 ^ 63 + (1023 + e) * 2 ^ 52 + (?a * 2 ^ (52 - e) - 2 ^ 52))"
    using assms(1) by (simp add: float64_of_int_def Let_def e_def)
  ultimately show ?thesis using e that by blast
qed

lemma float64_of_int32_finite:
  "\<not> float64_nan (float64_of_int32 i)" "float64_zero (float64_of_int32 i) \<Longrightarrow> float64_of_int32 i = 0"
proof -
  have "\<not> float64_nan (float64_of_int32 i) \<and> (float64_zero (float64_of_int32 i) \<longrightarrow> float64_of_int32 i = 0)"
  proof (cases "sint i = 0")
    case True
    then show ?thesis by (simp add: float64_of_int32_def float64_of_int_def float64_nan_def)
  next
    case False
    have "\<bar>sint i\<bar> \<le> 2 ^ 31" using sint_greater_eq [of i] sint_less [of i] by auto
    from float64_of_int_shape [OF False this]
    obtain e f where ef: "e \<le> 31" "f < (2 :: nat) ^ 52"
      "float64_of_int32 i = of_nat (of_bool (sint i < 0) * 2 ^ 63 + (1023 + e) * 2 ^ 52 + f)"
      by (auto simp: float64_of_int32_def)
    define g where "g = (1023 + e) * 2 ^ 52 + f"
    have g: "0 < g" "g < 2047 * 2 ^ 52" using ef by (auto simp: g_def)
    define N where "N = of_bool (sint i < 0) * 2 ^ 63 + g"
    have "N < 2 ^ 64" using g by (auto simp: N_def)
    moreover have "float64_of_int32 i = of_nat N" unfolding ef(3) N_def g_def by (simp add: add.assoc)
    ultimately have u: "unat (float64_of_int32 i) = N"
      by (simp add: unsigned_of_nat take_bit_nat_eq_self)
    have "unat (float64_of_int32 i AND 0x7FFFFFFFFFFFFFFF) = unat (float64_of_int32 i) mod 2 ^ 63"
      using unat_and_mask [of "float64_of_int32 i" 63] by (simp add: mask_eq_exp_minus_1)
    also have "\<dots> = g" unfolding u N_def using g by auto
    finally have "\<not> float64_nan (float64_of_int32 i)"
      using g by (simp add: float64_nan_def word_less_nat_alt)
    moreover have "\<not> float64_zero (float64_of_int32 i)"
      using u g by (cases "sint i < 0") (auto simp: float64_zero_def N_def)
    ultimately show ?thesis by simp
  qed
  then show "\<not> float64_nan (float64_of_int32 i)" "float64_zero (float64_of_int32 i) \<Longrightarrow> float64_of_int32 i = 0"
    by auto
qed


lemma js_number_test_zero:
  "number_test JS_EQ_SAME_VALUE_ZERO d1 d2 \<longleftrightarrow>
     float64_nan d1 \<and> float64_nan d2 \<or> \<not> float64_nan d1 \<and> \<not> float64_nan d2 \<and> (d1 = d2 \<or> float64_zero d1 \<and> float64_zero d2)"
  by (auto simp: float64_eq_def)

lemma js_number_zero: "js_number v = Some d \<Longrightarrow> map_key v \<Longrightarrow> float64_zero d \<Longrightarrow> d = 0"
  by (cases v) (auto dest: float64_of_int32_finite(2))

text \<open>What a key denotes: two keys are the same value exactly when they denote the same.\<close>

datatype key_value =
    KBigInt "bool \<times> int \<times> u64 list"
  | KSymbol u64
  | KString "int list"
  | KObject u64
  | KNumber "u64 option"
  | KBool bool
  | KNull
  | KUndefined
  | KOther

fun key_of :: "jsval \<Rightarrow> key_value" where
  "key_of (VBigInt a) = KBigInt (bf_sign a \<and> bf_expn a \<noteq> BF_EXP_ZERO, bf_expn a, bf_tab a)"
| "key_of (VSymbol p) = KSymbol p"
| "key_of (VString s) = KString (js_chars s)"
| "key_of (VObject p) = KObject p"
| "key_of (VInt i) = KNumber (Some (float64_of_int32 i))"
| "key_of (VFloat64 d) = KNumber (if float64_nan d then None else Some d)"
| "key_of (VBool b) = KBool b"
| "key_of VNull = KNull"
| "key_of VUndefined = KUndefined"
| "key_of (VOther _) = KOther"

lemma number_test_key:
  assumes "js_number v = Some d1" "js_number w = Some d2" "map_key v" "map_key w"
  shows "number_test JS_EQ_SAME_VALUE_ZERO d1 d2 \<longleftrightarrow> key_of v = key_of w"
proof -
  have key: "key_of u = KNumber (if float64_nan d then None else Some d)" if "js_number u = Some d" for u d
    using that by (cases u) (auto simp: float64_of_int32_finite)
  have "float64_zero d1 \<and> float64_zero d2 \<Longrightarrow> d1 = d2"
    using js_number_zero assms by metis
  then show ?thesis unfolding js_number_test_zero key [OF assms(1)] key [OF assms(2)] by auto
qed

lemma js_string_compare_0: "js_string_compare p q = Some 0 \<longleftrightarrow> js_chars p = js_chars q"
  using js_string_compare_eq [of p q] by auto

theorem js_same_value_zero_iff:
  assumes "map_key v" "map_key w"
  shows "js_same_value_zero v w \<longleftrightarrow> key_of v = key_of w"
proof (cases "js_number v = None \<or> js_number w = None")
  case True
  then show ?thesis using assms
    by (cases v; cases w) (auto simp: js_same_value_zero_def js_string_compare_0 bf_cmp_eq_normal)
next
  case False
  then show ?thesis using number_test_key [OF _ _ assms] assms
    by (cases v; cases w) (auto simp: js_same_value_zero_def)
qed

theorem map_hash_key_same:
  assumes "map_key v" "map_key w" "key_of v = key_of w"
  shows "map_hash_key v = map_hash_key w"
  using assms by (cases v; cases w)
    (auto simp: hash_string_chars float64_of_int32_finite split: if_splits)

lemma map_normalize_key_ok:
  assumes "\<And>tag. key \<noteq> VOther tag" "\<And>a. key = VBigInt a \<Longrightarrow> bf_normal a"
  shows "map_key (map_normalize_key key)"
  using assms by (cases key) (auto simp: map_normalize_key_def float64_eq_def float64_nan_def float64_zero_def)

section \<open>Keys that can be hashed\<close>

text \<open>
  What a hash table needs of its keys: an equality test that decides whether two keys denote the
  same, and a hash that is the same for two such keys. \<open>slot\<close> is the bucket of a key.
\<close>

locale hashed_keys =
  fixes ok :: "'k \<Rightarrow> bool" and same :: "'k \<Rightarrow> 'k \<Rightarrow> bool" and hash :: "'k \<Rightarrow> u32" and denotes :: "'k \<Rightarrow> 'd"
  assumes same_iff: "ok k \<Longrightarrow> ok l \<Longrightarrow> same k l \<longleftrightarrow> denotes k = denotes l"
    and hash_same: "ok k \<Longrightarrow> ok l \<Longrightarrow> denotes k = denotes l \<Longrightarrow> hash k = hash l"
begin

definition slot :: "u32 \<Rightarrow> 'k \<Rightarrow> nat" where
  "slot n k = unat (hash k AND (n - 1))"

lemma slot_in_table: "0 < n \<Longrightarrow> slot n k < unat n"
proof -
  assume "0 < n"
  then have "unat (n - 1) < unat n" by (simp add: unat_gt_0 unat_minus_one word_gt_0)
  moreover have "hash k AND (n - 1) \<le> n - 1" by (rule word_and_le1)
  ultimately show ?thesis by (simp add: slot_def word_le_nat_alt)
qed

text \<open>A search of the bucket of a key finds the record of that key and no other.\<close>

lemma find_in_slot:
  assumes b: "set b = {r \<in> live. slot n (key r) = slot n k}"
    and ok: "\<And>r. r \<in> live \<Longrightarrow> ok (key r)" "ok k"
    and inj: "inj_on (\<lambda>r. denotes (key r)) live"
  shows "find (\<lambda>r. same (key r) k) b = Some r \<longleftrightarrow> r \<in> live \<and> denotes (key r) = denotes k"
    and "find (\<lambda>r. same (key r) k) b = None \<longleftrightarrow> (\<forall>r\<in>live. denotes (key r) \<noteq> denotes k)"
proof -
  have same: "same (key r) k \<longleftrightarrow> denotes (key r) = denotes k" if "r \<in> live" for r
    using same_iff ok that by blast
  have slot: "slot n (key r) = slot n k" if "r \<in> live" "denotes (key r) = denotes k" for r
    using hash_same [of "key r" k] ok that by (simp add: slot_def)
  show none: "find (\<lambda>r. same (key r) k) b = None \<longleftrightarrow> (\<forall>r\<in>live. denotes (key r) \<noteq> denotes k)"
    unfolding find_None_iff using b same slot by auto
  show "find (\<lambda>r. same (key r) k) b = Some r \<longleftrightarrow> r \<in> live \<and> denotes (key r) = denotes k"
  proof
    assume "find (\<lambda>r. same (key r) k) b = Some r"
    then have "r \<in> set b" "same (key r) k" by (auto simp: find_Some_iff)
    then show "r \<in> live \<and> denotes (key r) = denotes k" using b same by auto
  next
    assume r: "r \<in> live \<and> denotes (key r) = denotes k"
    then obtain q where q: "find (\<lambda>r. same (key r) k) b = Some q" using none by auto
    then have "q \<in> set b" "same (key q) k" by (auto simp: find_Some_iff)
    then have "q \<in> live" "denotes (key q) = denotes k" using b same by auto
    then have "q = r" using r inj by (auto simp: inj_on_def)
    then show "find (\<lambda>r. same (key r) k) b = Some r" using q by simp
  qed
qed

end

interpretation js_keys: hashed_keys map_key js_same_value_zero map_hash_key key_of
  by unfold_locales (auto simp: js_same_value_zero_iff intro: map_hash_key_same)

section \<open>Properties\<close>

text \<open>
  Comparing two strings gives their lexicographic order by code units, whatever the width of the
  units of either, and zero exactly for equal strings; no character past the shorter one is read.
\<close>

theorem js_string_compare_lexicographic:
  "\<exists>c. js_string_compare p q = Some c
     \<and> (c < 0 \<longleftrightarrow> (js_chars p, js_chars q) \<in> lexord {(a, b). a < b}) \<and> (c = 0 \<longleftrightarrow> js_chars p = js_chars q)"
proof -
  let ?n = "min (js_string_len p) (js_string_len q)"
  obtain c where c: "first_diff (js_chars p) (js_chars q) ?n = Some c"
    "(if c = 0 then js_string_len p < js_string_len q else c < 0) \<longleftrightarrow> (js_chars p, js_chars q) \<in> lexord {(a, b). a < b}"
    using first_diff_less [OF refl, of "js_chars p" "js_chars q"] unfolding length_js_chars by blast
  have "js_string_compare p q = Some (if c = 0 then compare_u32 (js_string_len p) (js_string_len q) else c)"
    using c(1) by (simp add: js_string_compare_def js_string_memcmp_eq)
  then show ?thesis using c(2) js_string_compare_eq [of p q]
    by (auto simp: compare_u32_def split: if_splits)
qed

text \<open>
  C15: on the keys of maps and sets, the test of \<^verbatim>\<open>SameValueZero\<close> decides whether two keys denote the
  same value (integers and floats of equal value, strings of equal characters, big integers of equal
  sign and digits), and keys that pass it have the same hash.
\<close>

theorem map_keys_equal_and_hash:
  assumes "map_key v" "map_key w"
  shows "(js_same_value_zero v w \<longleftrightarrow> key_of v = key_of w) \<and> (js_same_value_zero v w \<longrightarrow> map_hash_key v = map_hash_key w)"
  using js_same_value_zero_iff [OF assms] map_hash_key_same [OF assms] by blast

theorem map_keys_equal_and_hash_witness:
  "js_same_value_zero (VString (Str8 [97])) (VString (Str16 [97]))
     \<and> map_hash_key (VString (Str8 [97])) = map_hash_key (VString (Str16 [97]))"
  using map_keys_equal_and_hash [of "VString (Str8 [97])" "VString (Str16 [97])"] by simp

end
