(* ===== verification/MapSet.thy ===== *)
theory MapSet
  imports JsValue
begin

text \<open>
  The hash table behind \<^verbatim>\<open>Map\<close> and \<^verbatim>\<open>Set\<close> (\<^verbatim>\<open>quickjs.c\<close>, the functions \<^verbatim>\<open>map_*\<close> and
  \<^verbatim>\<open>js_map_*\<close>): its records, its buckets, and the iterators and \<^verbatim>\<open>forEach\<close> calls that hold
  records while the map changes.

  A record is an address in \<open>mp_heap\<close>; the intrusive lists \<open>records\<close> and \<open>hash_table[h]\<close> are the
  lists of the addresses on them. \<^term>\<open>None\<close> is an access to freed memory, an index outside the table
  or a failed assertion. Allocation results are arguments. Freeing a value may finalize iterators of
  the map that only that value kept alive: the operations take the lists of these iterators.
\<close>

section \<open>State\<close>

record map_record =
  mr_ref_count :: int
  mr_empty :: bool
  mr_key :: jsval
  mr_value :: jsval

datatype iterator_kind = ITERATOR_KIND_KEY | ITERATOR_KIND_VALUE | ITERATOR_KIND_KEY_AND_VALUE

text \<open>\<open>it_obj\<close> is false once \<open>it->obj\<close> is undefined.\<close>

record map_iterator =
  it_obj :: bool
  it_kind :: iterator_kind
  it_cur_record :: "nat option"

text \<open>\<open>mp_locks\<close> lists the records that calls of \<^verbatim>\<open>forEach\<close> hold, the innermost first.\<close>

record js_map =
  mp_heap :: "nat \<rightharpoonup> map_record"
  mp_records :: "nat list"
  mp_record_count :: u32
  mp_hash_table :: "nat list list"
  mp_hash_size :: u32
  mp_threshold :: u32
  mp_iters :: "nat \<rightharpoonup> map_iterator"
  mp_locks :: "nat list"

definition js_map_new :: js_map where
  "js_map_new = \<lparr>mp_heap = Map.empty, mp_records = [], mp_record_count = 0, mp_hash_table = [[]],
     mp_hash_size = 1, mp_threshold = 4, mp_iters = Map.empty, mp_locks = []\<rparr>"

datatype map_result =
    RThis
  | RException
  | RUndefined
  | RValue jsval
  | RPair jsval jsval
  | RBool bool
  | RSize u32
  | RIterator nat
  | RDone

section \<open>Records\<close>

fun find_in_bucket :: "(nat \<rightharpoonup> map_record) \<Rightarrow> jsval \<Rightarrow> nat list \<Rightarrow> nat option option" where
  "find_in_bucket heap key [] = Some None"
| "find_in_bucket heap key (el # els) = do {
     mr \<leftarrow> heap el;
     if js_same_value_zero (mr_key mr) key then Some (Some el) else find_in_bucket heap key els }"

definition map_find_record :: "js_map \<Rightarrow> jsval \<Rightarrow> nat option option" where
  "map_find_record s key = do {
     b \<leftarrow> load (mp_hash_table s) (unat (map_hash_key key AND (mp_hash_size s - 1)));
     find_in_bucket (mp_heap s) key b }"

fun rehash :: "(nat \<rightharpoonup> map_record) \<Rightarrow> u32 \<Rightarrow> nat list \<Rightarrow> nat list list \<Rightarrow> nat list list option" where
  "rehash heap n [] table = Some table"
| "rehash heap n (el # els) table = do {
     mr \<leftarrow> heap el;
     if mr_empty mr then rehash heap n els table
     else do {
       let h = unat (map_hash_key (mr_key mr) AND (n - 1));
       b \<leftarrow> load table h;
       rehash heap n els (table[h := b @ [el]]) } }"

text \<open>The argument is the result of \<^verbatim>\<open>js_realloc2\<close>: nothing, or the spare entries of the block.\<close>

definition map_hash_resize :: "js_map \<Rightarrow> nat option \<Rightarrow> js_map option" where
  "map_hash_resize s slack =
     (let new_hash_size = (if mp_hash_size s = 1 then 4 else mp_hash_size s * 2)
      in case slack of
        None \<Rightarrow> Some s
      | Some extra \<Rightarrow> do {
          let n = new_hash_size + of_nat extra;
          table \<leftarrow> rehash (mp_heap s) n (mp_records s) (replicate (unat n) []);
          Some (s\<lparr>mp_hash_table := table, mp_hash_size := n, mp_threshold := n * 2\<rparr>) })"

text \<open>The value of the new record is set by the caller.\<close>

definition map_add_record :: "js_map \<Rightarrow> jsval \<Rightarrow> nat option \<Rightarrow> nat option \<Rightarrow> (nat option \<times> js_map) option" where
  "map_add_record s key mem slack =
     (case mem of
        None \<Rightarrow> Some (None, s)
      | Some r \<Rightarrow> do {
          let mr = \<lparr>mr_ref_count = 1, mr_empty = False, mr_key = key, mr_value = VUndefined\<rparr>;
          let h = unat (map_hash_key key AND (mp_hash_size s - 1));
          b \<leftarrow> load (mp_hash_table s) h;
          let s = s\<lparr>mp_heap := (mp_heap s)(r \<mapsto> mr), mp_hash_table := (mp_hash_table s)[h := b @ [r]],
                    mp_records := mp_records s @ [r], mp_record_count := mp_record_count s + 1\<rparr>;
          s \<leftarrow> (if mp_threshold s \<le> mp_record_count s then map_hash_resize s slack else Some s);
          Some (Some r, s) })"

definition list_del_record :: "js_map \<Rightarrow> nat \<Rightarrow> js_map option" where
  "list_del_record s r =
     (if r \<in> set (mp_records s)
      then Some (s\<lparr>mp_records := remove1 r (mp_records s), mp_heap := (mp_heap s)(r := None)\<rparr>) else None)"

definition list_del_hash :: "js_map \<Rightarrow> nat \<Rightarrow> js_map option" where
  "list_del_hash s r =
     (if \<exists>b \<in> set (mp_hash_table s). r \<in> set b
      then Some (s\<lparr>mp_hash_table := map (remove1 r) (mp_hash_table s)\<rparr>) else None)"

definition map_decref_record :: "js_map \<Rightarrow> nat \<Rightarrow> js_map option" where
  "map_decref_record s r = do {
     mr \<leftarrow> mp_heap s r;
     let mr = mr\<lparr>mr_ref_count := mr_ref_count mr - 1\<rparr>;
     if mr_ref_count mr = 0
     then if mr_empty mr then list_del_record s r else None
     else Some (s\<lparr>mp_heap := (mp_heap s)(r \<mapsto> mr)\<rparr>) }"

definition js_map_iterator_finalizer :: "js_map \<Rightarrow> nat \<Rightarrow> js_map option" where
  "js_map_iterator_finalizer s i = do {
     it \<leftarrow> mp_iters s i;
     s \<leftarrow> (case it_cur_record it of
             Some r \<Rightarrow> if it_obj it then map_decref_record s r else Some s
           | None \<Rightarrow> Some s);
     Some (s\<lparr>mp_iters := (mp_iters s)(i := None)\<rparr>) }"

text \<open>A value is freed: the iterators that die with it are finalized.\<close>

fun free_value :: "nat list \<Rightarrow> js_map \<Rightarrow> js_map option" where
  "free_value [] s = Some s"
| "free_value (i # is) s = do { s \<leftarrow> js_map_iterator_finalizer s i; free_value is s }"

definition map_delete_record :: "js_map \<Rightarrow> nat \<Rightarrow> nat list \<Rightarrow> nat list \<Rightarrow> js_map option" where
  "map_delete_record s r key_iters value_iters = do {
     mr \<leftarrow> mp_heap s r;
     if mr_empty mr then Some s
     else do {
       s \<leftarrow> list_del_hash s r;
       s \<leftarrow> free_value key_iters s;
       s \<leftarrow> free_value value_iters s;
       mr \<leftarrow> mp_heap s r;
       let mr = mr\<lparr>mr_ref_count := mr_ref_count mr - 1\<rparr>;
       s \<leftarrow> (if mr_ref_count mr = 0 then list_del_record s r
             else Some (s\<lparr>mp_heap := (mp_heap s)(r \<mapsto>
               mr\<lparr>mr_empty := True, mr_key := VUndefined, mr_value := VUndefined\<rparr>)\<rparr>));
       Some (s\<lparr>mp_record_count := mp_record_count s - 1\<rparr>) } }"

section \<open>Methods\<close>

definition js_map_set :: "bool \<Rightarrow> jsval \<Rightarrow> jsval \<Rightarrow> nat option \<Rightarrow> nat option \<Rightarrow> nat list \<Rightarrow> js_map \<Rightarrow> (map_result \<times> js_map) option" where
  "js_map_set is_set arg0 arg1 mem slack value_iters s = do {
     let key = map_normalize_key arg0;
     let value = (if is_set then VUndefined else arg1);
     found \<leftarrow> map_find_record s key;
     (mr, s) \<leftarrow> (case found of
         Some r \<Rightarrow> do { s \<leftarrow> free_value value_iters s; Some (Some r, s) }
       | None \<Rightarrow> map_add_record s key mem slack);
     case mr of
       None \<Rightarrow> Some (RException, s)
     | Some r \<Rightarrow> do {
         rec \<leftarrow> mp_heap s r;
         Some (RThis, s\<lparr>mp_heap := (mp_heap s)(r \<mapsto> rec\<lparr>mr_value := value\<rparr>)\<rparr>) } }"

definition js_map_get :: "jsval \<Rightarrow> js_map \<Rightarrow> map_result option" where
  "js_map_get arg0 s = do {
     found \<leftarrow> map_find_record s (map_normalize_key arg0);
     case found of
       None \<Rightarrow> Some RUndefined
     | Some r \<Rightarrow> do { mr \<leftarrow> mp_heap s r; Some (RValue (mr_value mr)) } }"

definition js_map_has :: "jsval \<Rightarrow> js_map \<Rightarrow> map_result option" where
  "js_map_has arg0 s = do {
     found \<leftarrow> map_find_record s (map_normalize_key arg0);
     Some (RBool (found \<noteq> None)) }"

definition js_map_delete :: "jsval \<Rightarrow> nat list \<Rightarrow> nat list \<Rightarrow> js_map \<Rightarrow> (map_result \<times> js_map) option" where
  "js_map_delete arg0 key_iters value_iters s = do {
     found \<leftarrow> map_find_record s (map_normalize_key arg0);
     case found of
       None \<Rightarrow> Some (RBool False, s)
     | Some r \<Rightarrow> do { s \<leftarrow> map_delete_record s r key_iters value_iters; Some (RBool True, s) } }"

text \<open>
  A position on the list of records: a record, or \<^term>\<open>None\<close> at the head. \<open>el_next\<close> is \<open>el->next\<close>, and
  \<open>els_from\<close> the elements from \<open>el\<close> to the head.
\<close>

definition els_from :: "js_map \<Rightarrow> nat option \<Rightarrow> nat list option" where
  "els_from s el =
     (case el of
        None \<Rightarrow> Some []
      | Some r \<Rightarrow> if r \<in> set (mp_records s) then Some (dropWhile (\<lambda>x. x \<noteq> r) (mp_records s)) else None)"

definition head_opt :: "'a list \<Rightarrow> 'a option" where
  "head_opt xs = (case xs of [] \<Rightarrow> None | x # _ \<Rightarrow> Some x)"

definition el_first :: "js_map \<Rightarrow> nat option" where
  "el_first s = head_opt (mp_records s)"

definition el_next :: "js_map \<Rightarrow> nat \<Rightarrow> nat option option" where
  "el_next s r = do { els \<leftarrow> els_from s (Some r); Some (head_opt (tl els)) }"

text \<open>\<open>list_for_each_safe\<close> reads the next element before the body runs.\<close>

primrec clear_loop :: "(nat \<Rightarrow> nat list \<times> nat list) \<Rightarrow> nat \<Rightarrow> nat option \<Rightarrow> js_map \<Rightarrow> js_map option" where
  "clear_loop drops 0 el s = (if el = None then Some s else None)"
| "clear_loop drops (Suc n) el s =
     (case el of
        None \<Rightarrow> Some s
      | Some r \<Rightarrow> do {
          el1 \<leftarrow> el_next s r;
          s \<leftarrow> map_delete_record s r (fst (drops r)) (snd (drops r));
          clear_loop drops n el1 s })"

definition js_map_clear :: "(nat \<Rightarrow> nat list \<times> nat list) \<Rightarrow> js_map \<Rightarrow> (map_result \<times> js_map) option" where
  "js_map_clear drops s = do {
     s \<leftarrow> clear_loop drops (length (mp_records s)) (el_first s) s;
     Some (RUndefined, s) }"

definition js_map_get_size :: "js_map \<Rightarrow> map_result" where
  "js_map_get_size s = RSize (mp_record_count s)"

section \<open>Iterators\<close>

fun find_live :: "(nat \<rightharpoonup> map_record) \<Rightarrow> nat list \<Rightarrow> nat option option" where
  "find_live heap [] = Some None"
| "find_live heap (el # els) = do {
     mr \<leftarrow> heap el;
     if mr_empty mr then find_live heap els else Some (Some el) }"

text \<open>
  The object and the data of a new iterator are allocated; either may fail (\<open>obj_ok\<close>, \<open>data_ok\<close>).
\<close>

definition js_create_map_iterator :: "iterator_kind \<Rightarrow> nat \<Rightarrow> bool \<Rightarrow> bool \<Rightarrow> js_map \<Rightarrow> map_result \<times> js_map" where
  "js_create_map_iterator kind i obj_ok data_ok s =
     (if \<not> obj_ok then (RException, s)
      else if \<not> data_ok then (RException, s)
      else (RIterator i, s\<lparr>mp_iters := (mp_iters s)(i \<mapsto> \<lparr>it_obj = True, it_kind = kind, it_cur_record = None\<rparr>)\<rparr>))"

text \<open>\<open>array_ok\<close> tells whether \<^verbatim>\<open>js_create_array\<close> gets its memory.\<close>

definition iterator_value :: "bool \<Rightarrow> iterator_kind \<Rightarrow> bool \<Rightarrow> jsval \<Rightarrow> jsval \<Rightarrow> map_result" where
  "iterator_value is_set kind array_ok key value =
     (let v = (if is_set then key else value)
      in case kind of
        ITERATOR_KIND_KEY \<Rightarrow> RValue key
      | ITERATOR_KIND_VALUE \<Rightarrow> RValue v
      | ITERATOR_KIND_KEY_AND_VALUE \<Rightarrow> if array_ok then RPair key v else RException)"

definition js_map_iterator_next :: "bool \<Rightarrow> nat \<Rightarrow> bool \<Rightarrow> js_map \<Rightarrow> (map_result \<times> js_map) option" where
  "js_map_iterator_next is_set i array_ok s = do {
     it \<leftarrow> mp_iters s i;
     if \<not> it_obj it then Some (RDone, s)
     else do {
       (el, s) \<leftarrow> (case it_cur_record it of
           None \<Rightarrow> Some (el_first s, s)
         | Some r \<Rightarrow> do { el \<leftarrow> el_next s r; s \<leftarrow> map_decref_record s r; Some (el, s) });
       els \<leftarrow> els_from s el;
       found \<leftarrow> find_live (mp_heap s) els;
       case found of
         None \<Rightarrow> Some (RDone, s\<lparr>mp_iters := (mp_iters s)(i \<mapsto> it\<lparr>it_cur_record := None, it_obj := False\<rparr>)\<rparr>)
       | Some r \<Rightarrow> do {
           mr \<leftarrow> mp_heap s r;
           Some (iterator_value is_set (it_kind it) array_ok (mr_key mr) (mr_value mr),
             s\<lparr>mp_heap := (mp_heap s)(r \<mapsto> mr\<lparr>mr_ref_count := mr_ref_count mr + 1\<rparr>),
               mp_iters := (mp_iters s)(i \<mapsto> it\<lparr>it_cur_record := Some r\<rparr>)\<rparr>) } } }"

section \<open>forEach\<close>

text \<open>
  The loop of \<^verbatim>\<open>js_map_forEach\<close>, cut at the calls of the script's function: \<open>forEach_enter\<close> goes from a
  position to the next call and locks its record, \<open>forEach_leave\<close> frees the arguments, reads the next
  position and unlocks the record.
\<close>

definition forEach_enter :: "nat option \<Rightarrow> js_map \<Rightarrow> ((jsval \<times> jsval) option \<times> js_map) option" where
  "forEach_enter el s = do {
     els \<leftarrow> els_from s el;
     found \<leftarrow> find_live (mp_heap s) els;
     case found of
       None \<Rightarrow> Some (None, s)
     | Some r \<Rightarrow> do {
         mr \<leftarrow> mp_heap s r;
         Some (Some (mr_key mr, mr_value mr),
           s\<lparr>mp_heap := (mp_heap s)(r \<mapsto> mr\<lparr>mr_ref_count := mr_ref_count mr + 1\<rparr>),
             mp_locks := r # mp_locks s\<rparr>) } }"

definition forEach_leave :: "nat list \<Rightarrow> js_map \<Rightarrow> (nat option \<times> js_map) option" where
  "forEach_leave arg_iters s =
     (case mp_locks s of
        [] \<Rightarrow> None
      | r # locks \<Rightarrow> do {
          s \<leftarrow> free_value arg_iters s;
          el \<leftarrow> el_next s r;
          s \<leftarrow> map_decref_record s r;
          Some (el, s\<lparr>mp_locks := locks\<rparr>) })"

text \<open>
  The function gets the value and the key and returns whether it threw, with the iterators that die
  with the arguments and with its result. The loop stops after the given number of calls, so
  \<open>Inl el\<close> is a loop that has not ended.
\<close>

primrec forEach_loop ::
  "('u \<Rightarrow> jsval \<Rightarrow> jsval \<Rightarrow> js_map \<Rightarrow> (bool \<times> nat list \<times> nat list \<times> 'u \<times> js_map) option) \<Rightarrow> bool \<Rightarrow> nat
     \<Rightarrow> 'u \<Rightarrow> nat option \<Rightarrow> js_map \<Rightarrow> ((nat option + map_result) \<times> 'u \<times> js_map) option" where
  "forEach_loop call is_set 0 u el s = Some (Inl el, u, s)"
| "forEach_loop call is_set (Suc n) u el s = do {
     (args, s) \<leftarrow> forEach_enter el s;
     case args of
       None \<Rightarrow> Some (Inr RUndefined, u, s)
     | Some (key, value) \<Rightarrow> do {
         (exception, arg_iters, ret_iters, u, s) \<leftarrow> call u (if is_set then key else value) key s;
         (el, s) \<leftarrow> forEach_leave arg_iters s;
         if exception then Some (Inr RException, u, s)
         else do {
           s \<leftarrow> free_value ret_iters s;
           forEach_loop call is_set n u el s } } }"

definition js_map_forEach where
  "js_map_forEach call is_set n u s = forEach_loop call is_set n u (el_first s) s"

end
