(* ===== verification/MapInv.thy ===== *)
theory MapInv
  imports MapSet
begin

text \<open>
  The invariant of the hash table of \<^theory_text>\<open>MapSet\<close> and the proofs that the operations keep it
  and make no access to freed memory.
\<close>

section \<open>Invariant\<close>

text \<open>The entries that are not deleted.\<close>

definition core :: "(nat \<rightharpoonup> map_record) \<Rightarrow> nat \<rightharpoonup> jsval \<times> jsval" where
  "core heap r =
     (case heap r of None \<Rightarrow> None | Some mr \<Rightarrow> if mr_empty mr then None else Some (mr_key mr, mr_value mr))"

definition list_ok :: "js_map \<Rightarrow> bool" where
  "list_ok s = (distinct (mp_records s) \<and> set (mp_records s) = dom (mp_heap s))"

definition holds :: "map_iterator option \<Rightarrow> nat \<Rightarrow> bool" where
  "holds x r = (\<exists>it. x = Some it \<and> it_cur_record it = Some r)"

definition holders :: "js_map \<Rightarrow> nat \<Rightarrow> int" where
  "holders s r = int (card {i. holds (mp_iters s i) r}) + int (count_list (mp_locks s) r)"

text \<open>A record is counted by the map until it is deleted, and by everything that stands at it.\<close>

fun ref_ok :: "map_record option \<Rightarrow> int \<Rightarrow> bool" where
  "ref_ok None n = (n = 0)"
| "ref_ok (Some mr) n = (mr_ref_count mr = of_bool (\<not> mr_empty mr) + n \<and> 0 < mr_ref_count mr)"

definition refs_ok :: "(nat \<rightharpoonup> map_record) \<Rightarrow> (nat \<Rightarrow> int) \<Rightarrow> bool" where
  "refs_ok heap h = (\<forall>r. ref_ok (heap r) (h r))"

definition iters_ok :: "js_map \<Rightarrow> bool" where
  "iters_ok s = (finite (dom (mp_iters s))
     \<and> (\<forall>i it. mp_iters s i = Some it \<longrightarrow> \<not> it_obj it \<longrightarrow> it_cur_record it = None))"

definition table_ok :: "nat list list \<Rightarrow> u32 \<Rightarrow> (nat \<rightharpoonup> jsval \<times> jsval) \<Rightarrow> bool" where
  "table_ok table n c = (length table = unat n \<and> 0 < n \<and> (\<forall>b<length table.
     distinct (table ! b) \<and> set (table ! b) = {r. \<exists>k v. c r = Some (k, v) \<and> js_keys.slot n k = b}))"

definition keys_ok :: "(nat \<rightharpoonup> jsval \<times> jsval) \<Rightarrow> bool" where
  "keys_ok c = ((\<forall>r k v. c r = Some (k, v) \<longrightarrow> map_key k) \<and> inj_on (\<lambda>r. key_of (fst (the (c r)))) (dom c))"

definition map_inv :: "js_map \<Rightarrow> bool" where
  "map_inv s = (list_ok s \<and> refs_ok (mp_heap s) (holders s) \<and> iters_ok s
     \<and> table_ok (mp_hash_table s) (mp_hash_size s) (core (mp_heap s)) \<and> keys_ok (core (mp_heap s))
     \<and> unat (mp_record_count s) = card (dom (core (mp_heap s))))"

lemmas map_inv_parts = list_ok_def iters_ok_def

section \<open>Counting\<close>

lemma card_upd:
  assumes "finite {i. P i}"
  shows "int (card {i. if i = j then q else P i}) = int (card {i. P i}) - of_bool (P j) + of_bool q"
proof -
  have fin: "finite ({i. P i} - {j})" using assms by simp
  have card_if: "int (card {i. if i = j then p else P i}) = int (card ({i. P i} - {j})) + of_bool p" for p
  proof (cases p)
    case True
    then have "{i. if i = j then p else P i} = insert j ({i. P i} - {j})" by auto
    then show ?thesis using True card.insert [OF fin, of j] by simp
  next
    case False
    then have "{i. if i = j then p else P i} = {i. P i} - {j}" by auto
    then show ?thesis using False by simp
  qed
  have "{i. if i = j then P j else P i} = {i. P i}" by auto
  then show ?thesis using card_if [of q] card_if [of "P j"] by simp
qed

lemma finite_holds: "finite (dom iters) \<Longrightarrow> finite {i. holds (iters i) r}"
  by (rule finite_subset [of _ "dom iters"]) (auto simp: holds_def)

lemma holders_upd:
  assumes "finite (dom (mp_iters s))" "mp_iters s' = (mp_iters s)(i := x)" "mp_locks s' = mp_locks s"
  shows "holders s' r = holders s r - of_bool (holds (mp_iters s i) r) + of_bool (holds x r)"
proof -
  have "{j. holds (mp_iters s' j) r} = {j. if j = i then holds x r else holds (mp_iters s j) r}"
    using assms(2) by auto
  then show ?thesis
    using card_upd [OF finite_holds [OF assms(1)], of i "holds x r" r] assms(3) by (simp add: holders_def)
qed

lemma holders_nonneg: "0 \<le> holders s r"
  by (simp add: holders_def)

lemma holders_same: "mp_iters s' = mp_iters s \<Longrightarrow> mp_locks s' = mp_locks s \<Longrightarrow> holders s' = holders s"
  by (simp add: holders_def fun_eq_iff)

lemma holders_iter:
  assumes "iters_ok s" "mp_iters s i = Some it" "it_cur_record it = Some r"
  shows "0 < holders s r"
proof -
  have "finite {i. holds (mp_iters s i) r}" using assms(1) by (intro finite_holds) (auto simp: iters_ok_def)
  moreover have "i \<in> {i. holds (mp_iters s i) r}" using assms by (simp add: holds_def)
  ultimately have "0 < card {i. holds (mp_iters s i) r}" by (auto simp: card_gt_0_iff)
  then show ?thesis by (simp add: holders_def)
qed

lemma holders_lock: "r \<in> set (mp_locks s) \<Longrightarrow> 0 < holders s r"
  using count_list_0_iff [of "mp_locks s" r] by (simp add: holders_def add_nonneg_pos)

lemma refs_ok_dom: "refs_ok heap h \<Longrightarrow> 0 < h r \<Longrightarrow> \<exists>mr. heap r = Some mr"
  by (cases "heap r") (auto simp: refs_ok_def dest!: spec [of _ r])

section \<open>Releasing records\<close>

text \<open>
  \<open>released s s'\<close>: records may have been unlinked and freed, but none of an entry.
\<close>

definition released :: "js_map \<Rightarrow> js_map \<Rightarrow> bool" where
  "released s s' =
     (core (mp_heap s') = core (mp_heap s) \<and> dom (mp_heap s') \<subseteq> dom (mp_heap s)
      \<and> mp_records s' = filter (\<lambda>r. mp_heap s' r \<noteq> None) (mp_records s)
      \<and> mp_record_count s' = mp_record_count s \<and> mp_hash_table s' = mp_hash_table s
      \<and> mp_hash_size s' = mp_hash_size s \<and> mp_threshold s' = mp_threshold s \<and> mp_locks s' = mp_locks s)"

lemma released_refl: "list_ok s \<Longrightarrow> released s s"
  by (auto simp: released_def list_ok_def intro!: filter_True [symmetric])

lemma released_trans: "released s s1 \<Longrightarrow> released s1 s2 \<Longrightarrow> released s s2"
  by (auto simp: released_def domIff subset_iff intro!: filter_cong)

lemma core_SomeD: "core heap r = Some e \<Longrightarrow> \<exists>mr. heap r = Some mr \<and> \<not> mr_empty mr \<and> e = (mr_key mr, mr_value mr)"
  by (auto simp: core_def split: option.splits if_splits)

lemma core_upd [simp]:
  "core (heap(r := x)) = (core heap)(r := (case x of None \<Rightarrow> None | Some mr \<Rightarrow> if mr_empty mr then None else Some (mr_key mr, mr_value mr)))"
  by (auto simp: core_def fun_eq_iff)

lemma core_same_upd:
  assumes "heap r = Some mr" "mr_empty mr' = mr_empty mr" "mr_key mr' = mr_key mr" "mr_value mr' = mr_value mr"
  shows "core (heap(r \<mapsto> mr')) = core heap"
  using assms by (auto simp: core_def fun_eq_iff)

lemma refs_okD: "refs_ok heap h \<Longrightarrow> ref_ok (heap r) (h r)"
  by (simp add: refs_ok_def)

lemma refs_ok_upd: "refs_ok heap h \<Longrightarrow> ref_ok x n \<Longrightarrow> refs_ok (heap(r := x)) (h(r := n))"
  by (simp add: refs_ok_def)

lemma map_decref_record_ok:
  assumes "list_ok s" "refs_ok (mp_heap s) h" "0 < h r"
  obtains s' where "map_decref_record s r = Some s'" "list_ok s'" "refs_ok (mp_heap s') (h(r := h r - 1))"
    "released s s'" "mp_iters s' = mp_iters s"
    "\<And>q. q \<noteq> r \<Longrightarrow> mp_heap s' q = mp_heap s q"
proof -
  obtain mr where mr: "mp_heap s r = Some mr" using refs_ok_dom [OF assms(2,3)] by blast
  then have count: "mr_ref_count mr = of_bool (\<not> mr_empty mr) + h r"
    using assms(2) by (auto simp: refs_ok_def dest!: spec [of _ r])
  have on: "r \<in> set (mp_records s)" using mr assms(1) by (auto simp: list_ok_def)
  show ?thesis
  proof (cases "mr_ref_count mr = 1")
    case True
    then have e: "mr_empty mr" "h r = 1" using count assms(3) by (cases "mr_empty mr"; simp)+
    let ?s = "s\<lparr>mp_records := remove1 r (mp_records s), mp_heap := (mp_heap s)(r := None)\<rparr>"
    have "map_decref_record s r = Some ?s"
      using mr True e on by (simp add: map_decref_record_def list_del_record_def)
    moreover have "list_ok ?s" using assms(1) by (auto simp: list_ok_def)
    moreover have "refs_ok (mp_heap ?s) (h(r := h r - 1))"
      using refs_ok_upd [OF assms(2), of None 0 r] e by simp
    moreover have "remove1 r (mp_records s) = filter (\<lambda>q. mp_heap ?s q \<noteq> None) (mp_records s)"
      using assms(1) by (auto simp: list_ok_def distinct_remove1_removeAll removeAll_filter_not_eq intro!: filter_cong)
    then have "released s ?s" using mr e by (auto simp: released_def core_def fun_eq_iff)
    ultimately show ?thesis using that by (simp split: if_splits)
  next
    case False
    let ?mr = "mr\<lparr>mr_ref_count := mr_ref_count mr - 1\<rparr>"
    let ?s = "s\<lparr>mp_heap := (mp_heap s)(r \<mapsto> ?mr)\<rparr>"
    have "map_decref_record s r = Some ?s"
      using mr False by (simp add: map_decref_record_def)
    moreover have "list_ok ?s" using assms(1) mr by (auto simp: list_ok_def)
    moreover have "refs_ok (mp_heap ?s) (h(r := h r - 1))"
      using refs_ok_upd [OF assms(2), of "Some ?mr" "h r - 1" r] count False assms(3) by (auto split: if_splits)
    moreover have "released s ?s"
      using mr assms(1) by (auto simp: released_def core_def fun_eq_iff list_ok_def intro!: filter_True [symmetric])
    ultimately show ?thesis using that by (simp split: if_splits)
  qed
qed

lemma iters_ok_upd:
  "iters_ok s \<Longrightarrow> mp_iters s' = (mp_iters s)(i := x) \<Longrightarrow> (\<And>it. x = Some it \<Longrightarrow> \<not> it_obj it \<Longrightarrow> it_cur_record it = None)
    \<Longrightarrow> iters_ok s'"
  by (cases x) (simp_all add: iters_ok_def)

lemma js_map_iterator_finalizer_ok:
  assumes "list_ok s" "refs_ok (mp_heap s) (holders s)" "iters_ok s" "i \<in> dom (mp_iters s)"
  obtains s' where "js_map_iterator_finalizer s i = Some s'" "list_ok s'" "refs_ok (mp_heap s') (holders s')"
    "iters_ok s'" "released s s'" "mp_iters s' = (mp_iters s)(i := None)"
proof -
  obtain it where it: "mp_iters s i = Some it" using assms(4) by blast
  have fin: "finite (dom (mp_iters s))" using assms(3) by (simp add: iters_ok_def)
  show ?thesis
  proof (cases "it_cur_record it")
    case None
    let ?s = "s\<lparr>mp_iters := (mp_iters s)(i := None)\<rparr>"
    have "holders ?s = holders s"
      using holders_upd [OF fin, of ?s i None] it None by (auto simp: holds_def fun_eq_iff)
    moreover have "iters_ok ?s" using iters_ok_upd [OF assms(3), of ?s i None] by simp
    moreover have "js_map_iterator_finalizer s i = Some ?s" using it None by (simp add: js_map_iterator_finalizer_def)
    moreover have "released s ?s" using released_refl [OF assms(1)] by (simp add: released_def)
    ultimately show ?thesis using that [of ?s] assms(1,2) by (simp add: list_ok_def)
  next
    case (Some r)
    then have obj: "it_obj it" using assms(3) it unfolding iters_ok_def by (metis option.distinct(1))
    obtain s1 where s1: "map_decref_record s r = Some s1" "list_ok s1"
      "refs_ok (mp_heap s1) ((holders s)(r := holders s r - 1))" "released s s1" "mp_iters s1 = mp_iters s"
      using map_decref_record_ok [OF assms(1,2) holders_iter [OF assms(3) it Some]] by metis
    let ?s = "s1\<lparr>mp_iters := (mp_iters s1)(i := None)\<rparr>"
    have "mp_iters ?s = (mp_iters s)(i := None)" "mp_locks ?s = mp_locks s"
      using s1(4,5) by (simp_all add: released_def)
    from holders_upd [OF fin this] it Some have "holders ?s = (holders s)(r := holders s r - 1)"
      by (intro ext) (simp add: holds_def)
    moreover have "iters_ok ?s" using iters_ok_upd [OF assms(3), of ?s i None] s1(5) by simp
    moreover have "js_map_iterator_finalizer s i = Some ?s"
      using it Some obj s1(1,5) by (simp add: js_map_iterator_finalizer_def)
    ultimately show ?thesis using that [of ?s] s1 by (simp add: list_ok_def released_def)
  qed
qed

lemma free_value_ok:
  assumes "list_ok s" "refs_ok (mp_heap s) (holders s)" "iters_ok s" "distinct is" "set is \<subseteq> dom (mp_iters s)"
  shows "\<exists>s'. free_value is s = Some s' \<and> list_ok s' \<and> refs_ok (mp_heap s') (holders s') \<and> iters_ok s' \<and> released s s'
    \<and> mp_iters s' = mp_iters s |` (- set is)"
  using assms
proof (induction "is" arbitrary: s)
  case Nil
  then show ?case by (simp add: released_refl)
next
  case (Cons i "is")
  obtain s1 where s1: "js_map_iterator_finalizer s i = Some s1" "list_ok s1" "refs_ok (mp_heap s1) (holders s1)"
    "iters_ok s1" "released s s1" "mp_iters s1 = (mp_iters s)(i := None)"
    using js_map_iterator_finalizer_ok [OF Cons.prems(1-3), of i] Cons.prems(5) by auto
  have "set is \<subseteq> dom (mp_iters s1)" using Cons.prems(4,5) s1(6) by auto
  with Cons.IH [OF s1(2-4)] Cons.prems(4) obtain s' where s': "free_value is s1 = Some s'" "list_ok s'"
    "refs_ok (mp_heap s') (holders s')" "iters_ok s'" "released s1 s'" "mp_iters s' = mp_iters s1 |` (- set is)"
    by auto
  have "mp_iters s' = mp_iters s |` (- set (i # is))"
    unfolding s'(6) s1(6) by (auto simp: restrict_map_def fun_eq_iff)
  then show ?case using s' s1 by (auto intro: released_trans)
qed

section \<open>The table\<close>

lemma find_in_bucket_find:
  "set b \<subseteq> dom heap \<Longrightarrow> find_in_bucket heap key b = Some (find (\<lambda>r. js_same_value_zero (mr_key (the (heap r))) key) b)"
  by (induction b) (auto simp: domIff)

definition has_key :: "(nat \<rightharpoonup> jsval \<times> jsval) \<Rightarrow> jsval \<Rightarrow> nat \<Rightarrow> bool" where
  "has_key c key r = (\<exists>k v. c r = Some (k, v) \<and> key_of k = key_of key)"

lemma has_key_unique: "keys_ok c \<Longrightarrow> has_key c key r \<Longrightarrow> has_key c key q \<Longrightarrow> q = r"
  by (auto simp: keys_ok_def has_key_def inj_on_def dom_def)

lemma map_find_record_ok:
  assumes "table_ok (mp_hash_table s) (mp_hash_size s) (core (mp_heap s))" "keys_ok (core (mp_heap s))" "map_key key"
  obtains "map_find_record s key = Some None" "\<And>r. \<not> has_key (core (mp_heap s)) key r"
  | r where "map_find_record s key = Some (Some r)" "has_key (core (mp_heap s)) key r"
proof -
  let ?c = "core (mp_heap s)" and ?n = "mp_hash_size s"
  let ?h = "js_keys.slot ?n key" and ?key = "\<lambda>r. mr_key (the (mp_heap s r))"
  let ?b = "mp_hash_table s ! ?h"
  have n: "0 < ?n" "length (mp_hash_table s) = unat ?n" using assms(1) by (auto simp: table_ok_def)
  have h: "?h < length (mp_hash_table s)" using js_keys.slot_in_table [OF n(1)] n(2) by simp
  have key: "?key r = k" if "?c r = Some (k, v)" for r k v using core_SomeD [OF that] by auto
  have b: "set ?b = {r \<in> dom ?c. js_keys.slot ?n (?key r) = ?h}"
    using assms(1) h key by (fastforce simp: table_ok_def)
  then have "set ?b \<subseteq> dom (mp_heap s)" by (auto dest: core_SomeD)
  then have find: "map_find_record s key = Some (find (\<lambda>r. js_same_value_zero (?key r) key) ?b)"
    using load_in [OF h] by (simp add: map_find_record_def find_in_bucket_find flip: js_keys.slot_def)
  have ok: "map_key (?key r)" if "r \<in> dom ?c" for r using that assms(2) key by (fastforce simp: keys_ok_def)
  have inj: "inj_on (\<lambda>r. key_of (?key r)) (dom ?c)"
  proof -
    have "?key r = fst (the (?c r))" if "r \<in> dom ?c" for r using that key by auto
    then have "inj_on (\<lambda>r. key_of (?key r)) (dom ?c) \<longleftrightarrow> inj_on (\<lambda>r. key_of (fst (the (?c r)))) (dom ?c)"
      by (intro inj_on_cong) simp
    then show ?thesis using assms(2) by (simp add: keys_ok_def)
  qed
  have has: "has_key ?c key r \<longleftrightarrow> r \<in> dom ?c \<and> key_of (?key r) = key_of key" for r
    using key by (fastforce simp: has_key_def)
  show ?thesis
  proof (cases "find (\<lambda>r. js_same_value_zero (?key r) key) ?b")
    case None
    then show ?thesis using find that(1) has js_keys.find_in_slot(2) [OF b ok assms(3) inj] by simp
  next
    case (Some r)
    then show ?thesis using find that(2) has js_keys.find_in_slot(1) [OF b ok assms(3) inj] by simp
  qed
qed

lemma rehash_ok:
  assumes "set els \<subseteq> dom heap" "length table = unat n" "0 < n"
  shows "\<exists>t. rehash heap n els table = Some t \<and> length t = unat n
    \<and> (\<forall>b<unat n. t ! b = table ! b @ filter (\<lambda>r. \<exists>k v. core heap r = Some (k, v) \<and> js_keys.slot n k = b) els)"
  using assms
proof (induction els arbitrary: table)
  case Nil
  then show ?case by simp
next
  case (Cons r els)
  then obtain mr where mr: "heap r = Some mr" by auto
  show ?case
  proof (cases "mr_empty mr")
    case True
    then show ?thesis using Cons mr by (auto simp: core_def)
  next
    case False
    let ?h = "js_keys.slot n (mr_key mr)"
    have h: "?h < length table" using js_keys.slot_in_table [OF Cons.prems(3)] Cons.prems(2) by simp
    have "rehash heap n (r # els) table = rehash heap n els (table[?h := table ! ?h @ [r]])"
      using mr False load_in [OF h] by (simp add: Let_def flip: js_keys.slot_def)
    moreover obtain t where t: "rehash heap n els (table[?h := table ! ?h @ [r]]) = Some t" "length t = unat n"
      "\<forall>b<unat n. t ! b = table[?h := table ! ?h @ [r]] ! b @ filter (\<lambda>r. \<exists>k v. core heap r = Some (k, v) \<and> js_keys.slot n k = b) els"
      using Cons.IH [of "table[?h := table ! ?h @ [r]]"] Cons.prems by auto
    moreover have "core heap r = Some (mr_key mr, mr_value mr)" using mr False by (simp add: core_def)
    ultimately show ?thesis using h by (auto simp: nth_list_update)
  qed
qed

lemma map_hash_resize_ok:
  assumes "list_ok s" "table_ok (mp_hash_table s) (mp_hash_size s) (core (mp_heap s))"
    "\<And>extra. slack = Some extra \<Longrightarrow> max 4 (2 * unat (mp_hash_size s)) + extra < 2 ^ 32"
  obtains s' where "map_hash_resize s slack = Some s'" "table_ok (mp_hash_table s') (mp_hash_size s') (core (mp_heap s'))"
    "s' = s\<lparr>mp_hash_table := mp_hash_table s', mp_hash_size := mp_hash_size s', mp_threshold := mp_threshold s'\<rparr>"
proof (cases slack)
  case None
  then show ?thesis using that [of s] assms(2) by (simp add: map_hash_resize_def)
next
  case (Some extra)
  define m where "m = (if mp_hash_size s = 1 then 4 else 2 * unat (mp_hash_size s)) + extra"
  define n where "n = (if mp_hash_size s = 1 then 4 else mp_hash_size s * 2) + of_nat extra"
  have "0 < unat (mp_hash_size s)" using assms(2) by (auto simp: table_ok_def unat_gt_0 word_gt_0)
  then have m: "0 < m" "m < 2 ^ 32" using assms(3) [OF Some] by (auto simp: m_def split: if_splits)
  have "n = of_nat m" by (simp add: n_def m_def ac_simps)
  then have n: "unat n = m" "0 < n" using m by (auto simp: unsigned_of_nat take_bit_nat_eq_self word_gt_0 unat_gt_0 simp flip: unat_eq_zero)
  have els: "set (mp_records s) \<subseteq> dom (mp_heap s)" using assms(1) by (simp add: list_ok_def)
  obtain t where t: "rehash (mp_heap s) n (mp_records s) (replicate (unat n) []) = Some t" "length t = unat n"
    "\<forall>b<unat n. t ! b = replicate (unat n) [] ! b @ filter (\<lambda>r. \<exists>k v. core (mp_heap s) r = Some (k, v) \<and> js_keys.slot n k = b) (mp_records s)"
    using rehash_ok [OF els, of "replicate (unat n) []" n] n(2) by auto
  have "distinct (t ! b)" "set (t ! b) = {r. \<exists>k v. core (mp_heap s) r = Some (k, v) \<and> js_keys.slot n k = b}" if "b < unat n" for b
    using t(3) that assms(1) by (auto simp: list_ok_def dest: core_SomeD)
  then have "table_ok t n (core (mp_heap s))" using t(2) n(2) by (auto simp: table_ok_def)
  moreover have "map_hash_resize s slack = Some (s\<lparr>mp_hash_table := t, mp_hash_size := n, mp_threshold := n * 2\<rparr>)"
    unfolding map_hash_resize_def Let_def Some option.case n_def [symmetric] t(1) by simp
  ultimately show ?thesis using that by simp
qed

lemma table_ok_cong:
  "(\<And>r. map_option fst (c' r) = map_option fst (c r)) \<Longrightarrow> table_ok table n c' = table_ok table n c"
proof -
  assume "\<And>r. map_option fst (c' r) = map_option fst (c r)"
  then have same: "map_option fst (c' r) = map_option fst (c r)" for r by blast
  have "(\<exists>v. c' r = Some (k, v)) \<longleftrightarrow> (\<exists>v. c r = Some (k, v))" for r k
    using same [of r] by (cases "c r"; cases "c' r") auto
  then have "(\<exists>k v. c' r = Some (k, v) \<and> P k) \<longleftrightarrow> (\<exists>k v. c r = Some (k, v) \<and> P k)" for r P by metis
  then show ?thesis unfolding table_ok_def by presburger
qed

lemma table_ok_add:
  assumes "table_ok table n c" "c r = None"
  shows "table_ok (table[js_keys.slot n k := table ! js_keys.slot n k @ [r]]) n (c(r \<mapsto> (k, v)))"
proof -
  let ?h = "js_keys.slot n k"
  have len: "length table = unat n" "0 < n" using assms(1) by (auto simp: table_ok_def)
  have old: "distinct (table ! b)" "set (table ! b) = {q. \<exists>k v. c q = Some (k, v) \<and> js_keys.slot n k = b}"
    if "b < length table" for b using assms(1) that by (auto simp: table_ok_def)
  have h: "?h < length table" using js_keys.slot_in_table len by simp
  have "r \<notin> set (table ! ?h)" using old(2) [OF h] assms(2) by auto
  then show ?thesis using len old h assms(2) by (auto simp: table_ok_def nth_list_update)
qed

lemma table_ok_del:
  assumes "table_ok table n c"
  shows "table_ok (map (remove1 r) table) n (c(r := None))"
  using assms by (auto simp: table_ok_def)

lemma table_ok_has:
  assumes "table_ok table n c" "c r = Some (k, v)"
  shows "\<exists>b \<in> set table. r \<in> set b"
proof -
  have "js_keys.slot n k < length table" using assms(1) js_keys.slot_in_table by (auto simp: table_ok_def)
  then show ?thesis using assms by (auto simp: table_ok_def intro!: bexI [of _ "table ! js_keys.slot n k"])
qed

lemma keys_ok_add:
  assumes "keys_ok c" "map_key k" "\<And>q. \<not> has_key c k q" "c r = None"
  shows "keys_ok (c(r \<mapsto> (k, v)))"
  using assms by (fastforce simp: keys_ok_def has_key_def inj_on_def dom_def)

lemma keys_ok_del: "keys_ok c \<Longrightarrow> keys_ok (c(r := None))"
  by (auto simp: keys_ok_def inj_on_def)

lemma keys_ok_value:
  assumes "keys_ok c" "c r = Some (k, v)"
  shows "keys_ok (c(r \<mapsto> (k, w)))"
  using assms by (auto simp: keys_ok_def inj_on_def dom_def)

lemma finite_core: "list_ok s \<Longrightarrow> finite (dom (core (mp_heap s)))"
  by (rule finite_subset [of _ "set (mp_records s)", OF _ finite_set]) (auto simp: list_ok_def dest: core_SomeD)

section \<open>Adding a record\<close>

text \<open>What an allocation returns: fresh memory, and blocks that fit the address space.\<close>

definition alloc_ok :: "js_map \<Rightarrow> nat option \<Rightarrow> nat option \<Rightarrow> bool" where
  "alloc_ok s mem slack =
     ((\<forall>r. mem = Some r \<longrightarrow> mp_heap s r = None \<and> length (mp_records s) < 2 ^ 32 - 1)
      \<and> (\<forall>extra. slack = Some extra \<longrightarrow> max 4 (2 * unat (mp_hash_size s)) + extra < 2 ^ 32))"

definition new_record :: "jsval \<Rightarrow> map_record" where
  "new_record key = \<lparr>mr_ref_count = 1, mr_empty = False, mr_key = key, mr_value = VUndefined\<rparr>"

lemma map_add_record_ok:
  assumes inv: "map_inv s" and key: "map_key key" "\<And>q. \<not> has_key (core (mp_heap s)) key q"
    and alloc: "alloc_ok s (Some r) slack"
  obtains s' where "map_add_record s key (Some r) slack = Some (Some r, s')" "map_inv s'"
    "mp_heap s' = (mp_heap s)(r \<mapsto> new_record key)" "mp_records s' = mp_records s @ [r]"
    "mp_iters s' = mp_iters s" "mp_locks s' = mp_locks s"
proof -
  let ?c = "core (mp_heap s)" and ?h = "js_keys.slot (mp_hash_size s) key"
  have fresh: "mp_heap s r = None" "length (mp_records s) < 2 ^ 32 - 1" using alloc by (auto simp: alloc_ok_def)
  then have cr: "?c r = None" by (simp add: core_def)
  have parts: "list_ok s" "refs_ok (mp_heap s) (holders s)" "iters_ok s" "keys_ok ?c"
    "table_ok (mp_hash_table s) (mp_hash_size s) ?c" "unat (mp_record_count s) = card (dom ?c)"
    using inv by (simp_all add: map_inv_def)
  have h: "?h < length (mp_hash_table s)" using parts(5) js_keys.slot_in_table by (auto simp: table_ok_def)
  define s1 where "s1 = s\<lparr>mp_heap := (mp_heap s)(r \<mapsto> new_record key), mp_hash_table := (mp_hash_table s)[?h := mp_hash_table s ! ?h @ [r]],
    mp_records := mp_records s @ [r], mp_record_count := mp_record_count s + 1\<rparr>"
  have heap1: "mp_heap s1 = (mp_heap s)(r \<mapsto> new_record key)" by (simp add: s1_def)
  have core1: "core (mp_heap s1) = ?c(r \<mapsto> (key, VUndefined))" unfolding heap1 by (simp add: new_record_def)
  have "card (dom ?c) \<le> length (mp_records s)"
    using parts(1) by (metis (mono_tags, lifting) card_length card_mono core_SomeD domIff finite_set list_ok_def option.exhaust option.distinct(1) order_trans subsetI)
  then have "unat (mp_record_count s) + 1 < 2 ^ 32" using parts(6) fresh by simp
  then have count: "unat (mp_record_count s1) = card (dom (core (mp_heap s1)))"
    using parts(6) cr finite_core [OF parts(1)] unfolding core1 by (simp add: s1_def unat_add_no_wrap domIff card_insert_if)
  have "holders s r = 0" using refs_okD [OF parts(2), of r] fresh by simp
  then have "refs_ok (mp_heap s1) (holders s)"
    using refs_ok_upd [OF parts(2), of "Some (new_record key)" 0 r] by (simp add: s1_def new_record_def fun_upd_idem)
  moreover have "holders s1 = holders s" by (rule holders_same) (simp_all add: s1_def)
  moreover have "list_ok s1" using parts(1) fresh by (auto simp: list_ok_def s1_def)
  moreover have "iters_ok s1" using parts(3) by (simp add: iters_ok_def s1_def)
  moreover have "table_ok (mp_hash_table s1) (mp_hash_size s1) (core (mp_heap s1))"
    using table_ok_add [OF parts(5) cr] unfolding core1 by (simp add: s1_def)
  moreover have "keys_ok (core (mp_heap s1))" using keys_ok_add [OF parts(4) key cr] by (simp add: core1)
  ultimately have inv1: "map_inv s1" using count by (simp add: map_inv_def)
  have step: "map_add_record s key (Some r) slack
      = do { s' \<leftarrow> (if mp_threshold s1 \<le> mp_record_count s1 then map_hash_resize s1 slack else Some s1); Some (Some r, s') }"
    unfolding map_add_record_def Let_def option.case js_keys.slot_def [symmetric] load_in [OF h] bind.bind_lunit
    by (simp add: s1_def new_record_def)
  show ?thesis
  proof (cases "mp_threshold s1 \<le> mp_record_count s1")
    case True
    obtain s2 where s2: "map_hash_resize s1 slack = Some s2" "table_ok (mp_hash_table s2) (mp_hash_size s2) (core (mp_heap s2))"
      "s2 = s1\<lparr>mp_hash_table := mp_hash_table s2, mp_hash_size := mp_hash_size s2, mp_threshold := mp_threshold s2\<rparr>"
      using map_hash_resize_ok [of s1 slack] inv1 alloc by (auto simp: map_inv_def alloc_ok_def s1_def)
    have s2f: "mp_heap s2 = mp_heap s1" "mp_records s2 = mp_records s1" "mp_iters s2 = mp_iters s1"
      "mp_locks s2 = mp_locks s1" "mp_record_count s2 = mp_record_count s1"
      by (subst s2(3), simp)+
    have "map_inv s2" using inv1 s2(2) s2f holders_same [OF s2f(3,4)] by (simp add: map_inv_def list_ok_def iters_ok_def)
    then show ?thesis using that [of s2] step True s2(1) s2f by (simp add: s1_def)
  next
    case False
    then show ?thesis using that [of s1] step inv1 by (simp add: s1_def)
  qed
qed

lemma map_set_value_ok:
  assumes "map_inv s" "mp_heap s r = Some mr" "\<not> mr_empty mr"
  shows "map_inv (s\<lparr>mp_heap := (mp_heap s)(r \<mapsto> mr\<lparr>mr_value := v\<rparr>)\<rparr>)" (is "map_inv ?s")
proof -
  let ?c = "core (mp_heap s)"
  have c: "?c r = Some (mr_key mr, mr_value mr)" using assms(2,3) by (simp add: core_def)
  have core: "core (mp_heap ?s) = ?c(r \<mapsto> (mr_key mr, v))" using assms(3) by simp
  have "holders ?s = holders s" by (rule holders_same) simp_all
  moreover have "refs_ok (mp_heap ?s) (holders s)"
    using refs_ok_upd [of "mp_heap s" "holders s" "Some (mr\<lparr>mr_value := v\<rparr>)" "holders s r" r] assms refs_okD [of "mp_heap s" "holders s" r]
    by (simp add: map_inv_def)
  moreover have "table_ok (mp_hash_table ?s) (mp_hash_size ?s) (core (mp_heap ?s))"
    using assms(1) c unfolding core by (subst table_ok_cong [of _ ?c]) (auto simp: map_inv_def)
  moreover have "keys_ok (core (mp_heap ?s))" unfolding core using keys_ok_value [where c = ?c, OF _ c] assms(1) by (simp add: map_inv_def)
  moreover have "dom (core (mp_heap ?s)) = dom ?c" unfolding core using c by auto
  moreover have "list_ok ?s" using assms by (auto simp: map_inv_def list_ok_def)
  ultimately show ?thesis using assms(1) by (simp add: map_inv_def iters_ok_def)
qed

section \<open>Deleting a record\<close>

definition free_ok :: "js_map \<Rightarrow> nat list \<Rightarrow> bool" where
  "free_ok s is = (distinct is \<and> set is \<subseteq> dom (mp_iters s))"

lemma map_delete_record_ok:
  assumes inv: "map_inv s" and r: "core (mp_heap s) r = Some (k, v)" and free: "free_ok s (fk @ fv)"
  obtains s' where "map_delete_record s r fk fv = Some s'" "map_inv s'"
    "core (mp_heap s') = (core (mp_heap s))(r := None)" "dom (mp_heap s') \<subseteq> dom (mp_heap s)"
    "mp_records s' = filter (\<lambda>q. mp_heap s' q \<noteq> None) (mp_records s)"
    "mp_iters s' = mp_iters s |` (- set (fk @ fv))" "mp_locks s' = mp_locks s"
proof -
  let ?c = "core (mp_heap s)"
  have parts: "list_ok s" "refs_ok (mp_heap s) (holders s)" "iters_ok s" "keys_ok ?c"
    "table_ok (mp_hash_table s) (mp_hash_size s) ?c" "unat (mp_record_count s) = card (dom ?c)"
    using inv by (simp_all add: map_inv_def)
  obtain mr where mr: "mp_heap s r = Some mr" "\<not> mr_empty mr" using core_SomeD [OF r] by auto
  let ?T = "map (remove1 r) (mp_hash_table s)"
  define s1 where "s1 = s\<lparr>mp_hash_table := ?T\<rparr>"
  have del: "list_del_hash s r = Some s1" using table_ok_has [OF parts(5) r] by (simp add: list_del_hash_def s1_def)
  have s1: "list_ok s1" "refs_ok (mp_heap s1) (holders s1)" "iters_ok s1" "mp_iters s1 = mp_iters s"
    using parts holders_same [of s1 s] by (simp_all add: s1_def list_ok_def iters_ok_def)
  obtain s2 where s2: "free_value fk s1 = Some s2" "list_ok s2" "refs_ok (mp_heap s2) (holders s2)" "iters_ok s2"
    "released s1 s2" "mp_iters s2 = mp_iters s1 |` (- set fk)"
    using free_value_ok [OF s1(1-3), of fk] free s1(4) by (auto simp: free_ok_def)
  have "distinct fv" "set fv \<subseteq> dom (mp_iters s2)" using free s1(4) s2(6) by (auto simp: free_ok_def)
  from free_value_ok [OF s2(2-4) this] obtain s3 where s3: "free_value fv s2 = Some s3" "list_ok s3"
    "refs_ok (mp_heap s3) (holders s3)" "iters_ok s3" "released s2 s3" "mp_iters s3 = mp_iters s2 |` (- set fv)"
    by auto
  have rel: "released s1 s3" using released_trans [OF s2(5) s3(5)] .
  have core3: "core (mp_heap s3) = ?c" using rel by (simp add: released_def s1_def)
  obtain mr3 where mr3: "mp_heap s3 r = Some mr3" "\<not> mr_empty mr3" using core_SomeD [of "mp_heap s3" r] r core3 by auto
  have n: "mr_ref_count mr3 - 1 = holders s3 r" "0 \<le> holders s3 r"
    using refs_okD [OF s3(3), of r] mr3 holders_nonneg by auto
  let ?mr = "mr3\<lparr>mr_ref_count := mr_ref_count mr3 - 1, mr_empty := True, mr_key := VUndefined, mr_value := VUndefined\<rparr>"
  define s4 where "s4 = (if holders s3 r = 0
    then s3\<lparr>mp_records := remove1 r (mp_records s3), mp_heap := (mp_heap s3)(r := None)\<rparr>
    else s3\<lparr>mp_heap := (mp_heap s3)(r \<mapsto> ?mr)\<rparr>)"
  have on: "r \<in> set (mp_records s3)" using s3(2) mr3 by (auto simp: list_ok_def)
  define s' where "s' = s4\<lparr>mp_record_count := mp_record_count s4 - 1\<rparr>"
  have run: "map_delete_record s r fk fv = Some s'"
    unfolding map_delete_record_def mr(1) bind.bind_lunit if_not_P [OF mr(2)] del s2(1) s3(1) mr3(1)
    using n on by (simp add: s4_def s'_def list_del_record_def Let_def)
  have heap: "mp_heap s' = (mp_heap s3)(r := if holders s3 r = 0 then None else Some ?mr)" by (simp add: s'_def s4_def)
  have core': "core (mp_heap s') = ?c(r := None)" unfolding heap using core3 by simp
  have fields: "mp_iters s' = mp_iters s3" "mp_locks s' = mp_locks s3" "mp_hash_table s' = ?T"
    "mp_hash_size s' = mp_hash_size s" "mp_record_count s' = mp_record_count s - 1"
    using rel by (simp_all add: s'_def s4_def s1_def released_def)
  have "ref_ok (if holders s3 r = 0 then None else Some ?mr) (holders s3 r)" using n by simp
  then have "refs_ok (mp_heap s') (holders s')"
    unfolding heap holders_same [OF fields(1,2)] using refs_ok_upd [OF s3(3), of _ "holders s3 r" r] by simp
  moreover have "list_ok s'" using s3(2) mr3 by (auto simp: list_ok_def s'_def s4_def)
  moreover have "iters_ok s'" using s3(4) fields by (simp add: iters_ok_def)
  moreover have "table_ok (mp_hash_table s') (mp_hash_size s') (core (mp_heap s'))"
    unfolding core' fields by (rule table_ok_del [OF parts(5)])
  moreover have "keys_ok (core (mp_heap s'))" unfolding core' by (rule keys_ok_del [OF parts(4)])
  moreover have "r \<in> dom ?c" using r by auto
  then have "0 < card (dom ?c)" using finite_core [OF parts(1)] by (auto simp: card_gt_0_iff)
  then have "unat (mp_record_count s') = card (dom (core (mp_heap s')))"
    unfolding core' fields using parts(6) \<open>r \<in> dom ?c\<close> finite_core [OF parts(1)]
    by (subst unat_minus_one) (auto simp: unat_eq_zero [symmetric])
  ultimately have "map_inv s'" by (simp add: map_inv_def)
  moreover have recs: "mp_records s' = filter (\<lambda>q. mp_heap s' q \<noteq> None) (mp_records s)"
  proof -
    have "mp_records s3 = filter (\<lambda>q. mp_heap s3 q \<noteq> None) (mp_records s)" using rel by (simp add: released_def s1_def)
    then show ?thesis using s3(2) mr3
      by (auto simp: s'_def s4_def list_ok_def distinct_remove1_removeAll removeAll_filter_not_eq intro!: filter_cong)
  qed
  moreover have "dom (mp_heap s') \<subseteq> dom (mp_heap s)"
    unfolding heap using rel mr by (auto simp: released_def s1_def)
  moreover have "mp_iters s' = mp_iters s |` (- set (fk @ fv))"
    unfolding fields s3(6) s2(6) s1(4) by (auto simp: restrict_map_def fun_eq_iff)
  moreover have "mp_locks s' = mp_locks s" unfolding fields using rel by (simp add: released_def s1_def)
  ultimately show ?thesis using that [OF run] core' by blast
qed

section \<open>Moving along the records\<close>

text \<open>What is left of the list for an iterator at \<open>cur\<close>.\<close>

definition rest_of :: "js_map \<Rightarrow> nat option \<Rightarrow> nat list" where
  "rest_of s cur = (case cur of None \<Rightarrow> mp_records s | Some r \<Rightarrow> tl (dropWhile (\<lambda>x. x \<noteq> r) (mp_records s)))"

lemma dropWhile_neq: "x \<notin> set xs \<Longrightarrow> dropWhile (\<lambda>y. y \<noteq> x) (xs @ x # ys) = x # ys"
  by (induction xs) auto

lemma els_from_suffix:
  "mp_records s = xs @ ys \<Longrightarrow> distinct (mp_records s) \<Longrightarrow> els_from s (head_opt ys) = Some ys"
  by (cases ys) (auto simp: els_from_def head_opt_def dropWhile_neq)

lemma els_from_head: "els_from s el = Some els \<Longrightarrow> el = head_opt els \<and> (\<exists>xs. mp_records s = xs @ els)"
proof (cases el)
  case (Some r)
  assume "els_from s el = Some els"
  then have els: "r \<in> set (mp_records s)" "els = dropWhile (\<lambda>x. x \<noteq> r) (mp_records s)"
    using Some by (auto simp: els_from_def split: if_splits)
  then obtain xs ys where "mp_records s = xs @ r # ys" "r \<notin> set xs" by (meson split_list_first)
  then show ?thesis using els Some by (simp add: dropWhile_neq head_opt_def)
qed (simp add: els_from_def head_opt_def)

lemma el_next_split:
  "mp_records s = xs @ r # ys \<Longrightarrow> distinct (mp_records s) \<Longrightarrow> el_next s r = Some (head_opt ys)"
  by (simp add: el_next_def els_from_def dropWhile_neq)

lemma find_live_ok:
  "set els \<subseteq> dom heap \<Longrightarrow> find_live heap els = Some (head_opt (filter (\<lambda>r. core heap r \<noteq> None) els))"
  by (induction els) (auto simp: core_def head_opt_def)

definition step_from :: "js_map \<Rightarrow> nat option \<Rightarrow> (nat option \<times> js_map) option" where
  "step_from s cur = (case cur of
       None \<Rightarrow> Some (el_first s, s)
     | Some r \<Rightarrow> do { el \<leftarrow> el_next s r; s \<leftarrow> map_decref_record s r; Some (el, s) })"

definition unhold :: "(nat \<Rightarrow> int) \<Rightarrow> nat option \<Rightarrow> nat \<Rightarrow> int" where
  "unhold h cur q = h q - of_bool (cur = Some q)"

lemma step_from_ok:
  assumes "list_ok s" "refs_ok (mp_heap s) h" "\<And>r. cur = Some r \<Longrightarrow> 0 < h r"
  obtains el s1 where "step_from s cur = Some (el, s1)" "els_from s1 el = Some (rest_of s cur)"
    "find_live (mp_heap s1) (rest_of s cur) = Some (head_opt (filter (\<lambda>r. core (mp_heap s) r \<noteq> None) (rest_of s cur)))"
    "list_ok s1" "refs_ok (mp_heap s1) (unhold h cur)" "released s s1" "mp_iters s1 = mp_iters s"
proof (cases cur)
  case None
  have "els_from s (el_first s) = Some (mp_records s)"
    using assms(1) els_from_suffix [of s "[]"] by (simp add: el_first_def list_ok_def)
  moreover have "unhold h cur = h" using None by (simp add: unhold_def fun_eq_iff)
  ultimately show ?thesis using that [of "el_first s" s] None assms(1,2) released_refl [OF assms(1)]
    by (simp add: step_from_def rest_of_def find_live_ok list_ok_def)
next
  case (Some r)
  obtain s1 where s1: "map_decref_record s r = Some s1" "list_ok s1" "refs_ok (mp_heap s1) (h(r := h r - 1))"
    "released s s1" "mp_iters s1 = mp_iters s" "\<And>q. q \<noteq> r \<Longrightarrow> mp_heap s1 q = mp_heap s q"
    using map_decref_record_ok [OF assms(1,2) assms(3) [OF Some]] by metis
  have "r \<in> set (mp_records s)" using refs_ok_dom [OF assms(2) assms(3) [OF Some]] assms(1) by (auto simp: list_ok_def)
  then obtain xs ys where split: "mp_records s = xs @ r # ys" by (meson split_list)
  have dist: "distinct (mp_records s)" using assms(1) by (simp add: list_ok_def)
  have ys: "set ys \<subseteq> dom (mp_heap s1)" "rest_of s cur = ys"
  proof -
    have "q \<in> dom (mp_heap s1)" if "q \<in> set ys" for q
      using that s1(6) [of q] split dist assms(1) by (cases "q = r") (auto simp: list_ok_def dom_def)
    then show "set ys \<subseteq> dom (mp_heap s1)" by blast
    show "rest_of s cur = ys" using Some split dist by (simp add: rest_of_def dropWhile_neq)
  qed
  have "mp_records s1 = filter (\<lambda>q. mp_heap s1 q \<noteq> None) (xs @ [r]) @ filter (\<lambda>q. mp_heap s1 q \<noteq> None) ys"
    using s1(4) split by (simp add: released_def)
  moreover have "filter (\<lambda>q. mp_heap s1 q \<noteq> None) ys = ys" using ys(1) by (auto intro!: filter_True)
  ultimately have "els_from s1 (head_opt ys) = Some ys" using els_from_suffix s1(2) by (metis list_ok_def)
  moreover have "unhold h cur = h(r := h r - 1)" using Some by (auto simp: unhold_def fun_eq_iff)
  moreover have "step_from s cur = Some (head_opt ys, s1)"
    using Some el_next_split [OF split dist] s1(1) by (simp add: step_from_def)
  moreover have "core (mp_heap s1) = core (mp_heap s)" using s1(4) by (simp add: released_def)
  ultimately show ?thesis using that s1 ys find_live_ok [OF ys(1)] by simp
qed

lemma hold_ok:
  assumes "list_ok s" "refs_ok (mp_heap s) h" "mp_heap s r = Some mr" "\<not> mr_empty mr" "0 \<le> h r"
    and s': "mp_heap s' = (mp_heap s)(r \<mapsto> mr\<lparr>mr_ref_count := mr_ref_count mr + 1\<rparr>)" "mp_records s' = mp_records s"
  shows "list_ok s'" "refs_ok (mp_heap s') (h(r := h r + 1))" "core (mp_heap s') = core (mp_heap s)"
    "dom (mp_heap s') = dom (mp_heap s)"
proof -
  show "list_ok s'" "dom (mp_heap s') = dom (mp_heap s)" using assms(1,3) s' by (auto simp: list_ok_def)
  show "refs_ok (mp_heap s') (h(r := h r + 1))"
    unfolding s' using refs_okD [OF assms(2), of r] assms(3-5) by (intro refs_ok_upd [OF assms(2)]) simp
  show "core (mp_heap s') = core (mp_heap s)" unfolding s' using assms(3) by (rule core_same_upd) simp_all
qed

lemma map_inv_same:
  assumes "map_inv s" "list_ok s'" "refs_ok (mp_heap s') (holders s')" "iters_ok s'" "core (mp_heap s') = core (mp_heap s)"
    "mp_record_count s' = mp_record_count s" "mp_hash_table s' = mp_hash_table s" "mp_hash_size s' = mp_hash_size s"
  shows "map_inv s'"
  using assms by (simp add: map_inv_def)

definition live_rest :: "js_map \<Rightarrow> nat option \<Rightarrow> nat list" where
  "live_rest s cur = filter (\<lambda>r. core (mp_heap s) r \<noteq> None) (rest_of s cur)"

lemma live_rest_hd: "live_rest s cur = r # rs \<Longrightarrow> \<exists>k v. core (mp_heap s) r = Some (k, v)"
  by (auto simp: live_rest_def filter_eq_Cons_iff)

text \<open>Moving keeps the entries; freed records leave the list.\<close>

definition same_entries :: "js_map \<Rightarrow> js_map \<Rightarrow> bool" where
  "same_entries s s' = (core (mp_heap s') = core (mp_heap s)
     \<and> mp_records s' = filter (\<lambda>r. mp_heap s' r \<noteq> None) (mp_records s))"

lemma js_map_iterator_next_ok:
  assumes inv: "map_inv s" and it: "mp_iters s i = Some it" "it_obj it"
  obtains (finished) s' where "js_map_iterator_next is_set i array_ok s = Some (RDone, s')" "map_inv s'" "same_entries s s'"
      "live_rest s (it_cur_record it) = []" "mp_locks s' = mp_locks s"
      "mp_iters s' = (mp_iters s)(i \<mapsto> it\<lparr>it_cur_record := None, it_obj := False\<rparr>)"
  | (item) r rs k v s' where "js_map_iterator_next is_set i array_ok s = Some (iterator_value is_set (it_kind it) array_ok k v, s')"
      "map_inv s'" "same_entries s s'" "live_rest s (it_cur_record it) = r # rs" "core (mp_heap s) r = Some (k, v)"
      "mp_locks s' = mp_locks s" "mp_iters s' = (mp_iters s)(i \<mapsto> it\<lparr>it_cur_record := Some r\<rparr>)"
proof -
  let ?cur = "it_cur_record it"
  have parts: "list_ok s" "refs_ok (mp_heap s) (holders s)" "iters_ok s" using inv by (simp_all add: map_inv_def)
  have fin: "finite (dom (mp_iters s))" using parts(3) by (simp add: iters_ok_def)
  obtain el s1 where s1: "step_from s ?cur = Some (el, s1)" "els_from s1 el = Some (rest_of s ?cur)"
    "find_live (mp_heap s1) (rest_of s ?cur) = Some (head_opt (live_rest s ?cur))"
    "list_ok s1" "refs_ok (mp_heap s1) (unhold (holders s) ?cur)" "released s s1" "mp_iters s1 = mp_iters s"
    unfolding live_rest_def using step_from_ok [OF parts(1,2) holders_iter [OF parts(3) it(1)]] by metis
  have locks: "mp_locks s1 = mp_locks s" and core1: "core (mp_heap s1) = core (mp_heap s)" using s1(6) by (simp_all add: released_def)
  have run: "js_map_iterator_next is_set i array_ok s = (case head_opt (live_rest s ?cur) of
      None \<Rightarrow> Some (RDone, s1\<lparr>mp_iters := (mp_iters s1)(i \<mapsto> it\<lparr>it_cur_record := None, it_obj := False\<rparr>)\<rparr>)
    | Some r \<Rightarrow> do {
        mr \<leftarrow> mp_heap s1 r;
        Some (iterator_value is_set (it_kind it) array_ok (mr_key mr) (mr_value mr),
          s1\<lparr>mp_heap := (mp_heap s1)(r \<mapsto> mr\<lparr>mr_ref_count := mr_ref_count mr + 1\<rparr>),
             mp_iters := (mp_iters s1)(i \<mapsto> it\<lparr>it_cur_record := Some r\<rparr>)\<rparr>) })"
    unfolding js_map_iterator_next_def it bind.bind_lunit step_from_def [symmetric] s1(1) using it(2) s1(2,3) by simp
  have same: "same_entries s t" if "released s s1" "core (mp_heap t) = core (mp_heap s1)"
    "mp_records t = mp_records s1" "dom (mp_heap t) = dom (mp_heap s1)" for t
  proof -
    have "mp_heap t r \<noteq> None \<longleftrightarrow> mp_heap s1 r \<noteq> None" for r using that(4) by (auto simp: dom_def)
    then show ?thesis using that by (simp add: same_entries_def released_def)
  qed
  have inv': "map_inv t" if "list_ok t" "refs_ok (mp_heap t) (holders t)" "mp_iters t = (mp_iters s)(i \<mapsto> it')"
    "it_obj it' \<or> it_cur_record it' = None" "core (mp_heap t) = core (mp_heap s1)"
    "t = s1\<lparr>mp_heap := mp_heap t, mp_iters := mp_iters t\<rparr>" for t it'
  proof (rule map_inv_same [OF inv that(1,2)])
    show "iters_ok t" by (rule iters_ok_upd [OF parts(3) that(3)]) (use that(4) in auto)
    show "core (mp_heap t) = core (mp_heap s)" using that(5) core1 by simp
    show "mp_record_count t = mp_record_count s" "mp_hash_table t = mp_hash_table s" "mp_hash_size t = mp_hash_size s"
      using s1(6) by (subst that(6), simp add: released_def)+
  qed
  show ?thesis
  proof (cases "live_rest s ?cur")
    case Nil
    define it' where "it' = it\<lparr>it_cur_record := None, it_obj := False\<rparr>"
    define t where "t = s1\<lparr>mp_iters := (mp_iters s1)(i \<mapsto> it')\<rparr>"
    have t: "mp_iters t = (mp_iters s)(i \<mapsto> it')" "mp_locks t = mp_locks s" using s1(7) locks by (simp_all add: t_def)
    have "holders t = unhold (holders s) ?cur"
      using holders_upd [OF fin t] it(1) by (intro ext) (simp add: unhold_def holds_def it'_def)
    then have "map_inv t" using inv' [OF _ _ t(1)] s1(4,5) by (simp add: t_def it'_def list_ok_def)
    moreover have "same_entries s t" using same [OF s1(6), of t] by (simp add: t_def)
    moreover have "js_map_iterator_next is_set i array_ok s = Some (RDone, t)"
      using run Nil by (simp add: head_opt_def t_def it'_def)
    ultimately show ?thesis using finished [of t] Nil t by (simp add: it'_def)
  next
    case (Cons r rs)
    obtain k v where kv: "core (mp_heap s) r = Some (k, v)" using live_rest_hd [OF Cons] by blast
    obtain mr where mr: "mp_heap s1 r = Some mr" "\<not> mr_empty mr" "(k, v) = (mr_key mr, mr_value mr)"
      using core_SomeD [of "mp_heap s1" r] kv core1 by auto
    define it' where "it' = it\<lparr>it_cur_record := Some r\<rparr>"
    define t where "t = s1\<lparr>mp_heap := (mp_heap s1)(r \<mapsto> mr\<lparr>mr_ref_count := mr_ref_count mr + 1\<rparr>),
      mp_iters := (mp_iters s1)(i \<mapsto> it')\<rparr>"
    have t: "mp_iters t = (mp_iters s)(i \<mapsto> it')" "mp_locks t = mp_locks s" using s1(7) locks by (simp_all add: t_def)
    have h: "holders t = (unhold (holders s) ?cur)(r := unhold (holders s) ?cur r + 1)"
      using holders_upd [OF fin t] it(1) by (intro ext) (simp add: unhold_def holds_def it'_def)
    have "0 \<le> unhold (holders s) ?cur r" using holders_iter [OF parts(3) it(1)] holders_nonneg [of s r]
      by (force simp: unhold_def)
    from hold_ok [OF s1(4,5) mr(1,2) this, of t] have hold: "list_ok t" "refs_ok (mp_heap t) (holders t)"
      "core (mp_heap t) = core (mp_heap s1)" "dom (mp_heap t) = dom (mp_heap s1)"
      unfolding h by (simp_all add: t_def)
    have "map_inv t" using inv' [OF hold(1,2) t(1) _ hold(3)] it(2) by (simp add: t_def it'_def)
    moreover have "same_entries s t" using same [OF s1(6) hold(3) _ hold(4)] by (simp add: t_def)
    moreover have "js_map_iterator_next is_set i array_ok s = Some (iterator_value is_set (it_kind it) array_ok k v, t)"
      using run Cons mr by (simp add: head_opt_def t_def it'_def)
    ultimately show ?thesis using item [of k v t r rs] Cons kv t by (simp add: it'_def)
  qed
qed

lemma free_value_inv:
  assumes "map_inv s" "free_ok s is"
  obtains s' where "free_value is s = Some s'" "map_inv s'" "released s s'" "mp_iters s' = mp_iters s |` (- set is)"
proof -
  have parts: "list_ok s" "refs_ok (mp_heap s) (holders s)" "iters_ok s" using assms(1) by (simp_all add: map_inv_def)
  obtain s' where s': "free_value is s = Some s'" "list_ok s'" "refs_ok (mp_heap s') (holders s')" "iters_ok s'"
    "released s s'" "mp_iters s' = mp_iters s |` (- set is)"
    using free_value_ok [OF parts] assms(2) by (auto simp: free_ok_def)
  have "map_inv s'" using map_inv_same [OF assms(1) s'(2-4)] s'(5) by (simp add: released_def)
  then show ?thesis using that s' by blast
qed

lemma rest_of_filter:
  assumes "mp_records s' = filter P (mp_records s)" "P r" "r \<in> set (mp_records s)" "distinct (mp_records s)"
  shows "rest_of s' (Some r) = filter P (rest_of s (Some r))"
proof -
  obtain xs ys where split: "mp_records s = xs @ r # ys" using assms(3) by (meson split_list)
  then show ?thesis using assms by (simp add: rest_of_def dropWhile_neq)
qed

lemma forEach_enter_ok:
  assumes inv: "map_inv s" and els: "els_from s el = Some els" "set els \<subseteq> dom (mp_heap s)"
  obtains (none) "filter (\<lambda>r. core (mp_heap s) r \<noteq> None) els = []" "forEach_enter el s = Some (None, s)"
  | (some) r rs k v s' where "filter (\<lambda>r. core (mp_heap s) r \<noteq> None) els = r # rs" "core (mp_heap s) r = Some (k, v)"
      "forEach_enter el s = Some (Some (k, v), s')" "map_inv s'" "same_entries s s'" "mp_locks s' = r # mp_locks s"
      "mp_iters s' = mp_iters s"
proof (cases "filter (\<lambda>r. core (mp_heap s) r \<noteq> None) els")
  case Nil
  then show ?thesis using none els by (simp add: forEach_enter_def find_live_ok head_opt_def)
next
  case (Cons r rs)
  then obtain k v where kv: "core (mp_heap s) r = Some (k, v)" by (auto simp: filter_eq_Cons_iff)
  obtain mr where mr: "mp_heap s r = Some mr" "\<not> mr_empty mr" "(k, v) = (mr_key mr, mr_value mr)"
    using core_SomeD [OF kv] by auto
  have parts: "list_ok s" "refs_ok (mp_heap s) (holders s)" "iters_ok s" using inv by (simp_all add: map_inv_def)
  define t where "t = s\<lparr>mp_heap := (mp_heap s)(r \<mapsto> mr\<lparr>mr_ref_count := mr_ref_count mr + 1\<rparr>), mp_locks := r # mp_locks s\<rparr>"
  have "holders t = (holders s)(r := holders s r + 1)"
    by (auto simp: holders_def t_def fun_eq_iff)
  then have hold: "list_ok t" "refs_ok (mp_heap t) (holders t)" "core (mp_heap t) = core (mp_heap s)" "dom (mp_heap t) = dom (mp_heap s)"
    using hold_ok [OF parts(1,2) mr(1,2) holders_nonneg, of t] by (simp_all add: t_def)
  have "map_inv t" using map_inv_same [OF inv hold(1,2) _ hold(3)] parts(3) by (simp add: t_def iters_ok_def)
  moreover have "mp_records s = filter (\<lambda>r. mp_heap t r \<noteq> None) (mp_records s)"
    using hold(4) parts(1) by (auto simp: list_ok_def intro!: filter_True [symmetric])
  then have "same_entries s t" using hold(3) by (simp add: same_entries_def t_def)
  moreover have "forEach_enter el s = Some (Some (k, v), t)"
    using els Cons mr by (simp add: forEach_enter_def find_live_ok head_opt_def t_def)
  ultimately show ?thesis using some [OF Cons kv] by (simp add: t_def)
qed

text \<open>
  \<open>doomed s dead q\<close>: a deleted record that no running \<^verbatim>\<open>forEach\<close> holds, and no iterator outside \<open>dead\<close>;
  it is freed when these iterators die.
\<close>

definition doomed :: "js_map \<Rightarrow> nat set \<Rightarrow> nat \<Rightarrow> bool" where
  "doomed s dead q = (core (mp_heap s) q = None \<and> q \<notin> set (mp_locks s) \<and> (\<forall>i. holds (mp_iters s i) q \<longrightarrow> i \<in> dead))"

lemma freed_iff_doomed:
  assumes inv: "map_inv t" and same: "core (mp_heap t) q = core (mp_heap s) q" "q \<in> set (mp_locks t) \<longleftrightarrow> q \<in> set (mp_locks s)"
    and iters: "mp_iters t = mp_iters s |` (- dead)"
  shows "mp_heap t q = None \<longleftrightarrow> doomed s dead q"
proof -
  have fin: "finite {i. holds (mp_iters t i) q}" using inv by (intro finite_holds) (simp add: map_inv_def iters_ok_def)
  have refs: "ref_ok (mp_heap t q) (holders t q)" using inv refs_okD by (simp add: map_inv_def)
  have "holders t q = 0 \<longleftrightarrow> q \<notin> set (mp_locks t) \<and> {i. holds (mp_iters t i) q} = {}"
    using fin count_list_0_iff [of "mp_locks t" q] by (auto simp: holders_def add_nonneg_eq_0_iff)
  moreover have "{i. holds (mp_iters t i) q} = {} \<longleftrightarrow> (\<forall>i. holds (mp_iters s i) q \<longrightarrow> i \<in> dead)"
    unfolding iters by (auto simp: holds_def restrict_map_def)
  ultimately have doomed: "doomed s dead q \<longleftrightarrow> core (mp_heap t) q = None \<and> holders t q = 0" using same by (auto simp: doomed_def)
  show ?thesis using refs unfolding doomed by (cases "mp_heap t q") (auto simp: core_def split: if_splits)
qed

lemma forEach_leave_ok:
  assumes inv: "map_inv s" and locks: "mp_locks s = r # ls" and free: "free_ok s is"
  obtains el els s' where "forEach_leave is s = Some (el, s')" "map_inv s'" "same_entries s s'" "mp_locks s' = ls"
    "mp_iters s' = mp_iters s |` (- set is)" "els_from s' el = Some els" "set els \<subseteq> dom (mp_heap s')"
    "filter (\<lambda>r. core (mp_heap s') r \<noteq> None) els = live_rest s (Some r)"
    "els = filter (\<lambda>q. \<not> doomed s (set is) q) (rest_of s (Some r))"
proof -
  obtain s0 where s0: "free_value is s = Some s0" "map_inv s0" "released s s0" "mp_iters s0 = mp_iters s |` (- set is)"
    using free_value_inv [OF inv free] .
  have parts: "list_ok s0" "refs_ok (mp_heap s0) (holders s0)" "iters_ok s0" using s0(2) by (simp_all add: map_inv_def)
  have locks0: "mp_locks s0 = r # ls" using s0(3) locks by (simp add: released_def)
  have pos: "0 < holders s0 r" by (rule holders_lock) (simp add: locks0)
  obtain el s1 where s1: "step_from s0 (Some r) = Some (el, s1)" "els_from s1 el = Some (rest_of s0 (Some r))"
    "list_ok s1" "refs_ok (mp_heap s1) (unhold (holders s0) (Some r))" "released s0 s1" "mp_iters s1 = mp_iters s0"
    using step_from_ok [OF parts(1,2), of "Some r"] pos by (metis option.inject)
  define t where "t = s1\<lparr>mp_locks := ls\<rparr>"
  have "holders t = unhold (holders s0) (Some r)"
    using s1(6) locks0 by (auto simp: holders_def t_def unhold_def fun_eq_iff)
  then have inv_t: "map_inv t" using map_inv_same [OF s0(2), of t] s1 parts(3)
    by (simp add: t_def list_ok_def iters_ok_def released_def)
  have run: "forEach_leave is s = Some (el, t)"
    using s1(1) unfolding forEach_leave_def locks list.case s0(1) bind.bind_lunit step_from_def option.case
    by (auto simp: t_def bind_eq_Some_conv)
  have rel: "released s s1" using released_trans [OF s0(3) s1(5)] .
  have els: "els_from t el = Some (rest_of s0 (Some r))" using s1(2) by (cases el) (simp_all add: els_from_def t_def split: if_splits)
  have "mp_heap s0 r \<noteq> None" using refs_ok_dom [OF parts(2) pos] by auto
  moreover have "mp_records s0 = filter (\<lambda>q. mp_heap s0 q \<noteq> None) (mp_records s)" using s0(3) by (simp add: released_def)
  moreover have "r \<in> set (mp_records s)" "distinct (mp_records s)"
    using refs_ok_dom [of "mp_heap s" "holders s" r] holders_lock [of r s] locks inv by (auto simp: map_inv_def list_ok_def)
  ultimately have rest: "rest_of s0 (Some r) = filter (\<lambda>q. mp_heap s0 q \<noteq> None) (rest_of s (Some r))"
    using rest_of_filter by simp
  have core: "core (mp_heap t) = core (mp_heap s)" "core (mp_heap s0) = core (mp_heap s)"
    using rel s0(3) by (simp_all add: released_def t_def)
  have "filter (\<lambda>q. core (mp_heap t) q \<noteq> None) (rest_of s0 (Some r)) = live_rest s (Some r)"
    unfolding rest live_rest_def core filter_filter
    by (rule filter_cong [OF refl]) (use core core_SomeD [of "mp_heap s0"] in fastforce)
  moreover have "rest_of s0 (Some r) = filter (\<lambda>q. \<not> doomed s (set is) q) (rest_of s (Some r))"
  proof -
    have "mp_heap s0 q \<noteq> None \<longleftrightarrow> \<not> doomed s (set is) q" for q
      using freed_iff_doomed [OF s0(2) _ _ s0(4), of q] core(2) s0(3) by (simp add: released_def)
    then show ?thesis unfolding rest by simp
  qed
  moreover have "set (rest_of s0 (Some r)) \<subseteq> dom (mp_heap t)"
  proof -
    have "set (rest_of s0 (Some r)) \<subseteq> set (mp_records s1)"
    proof
      fix q
      assume "q \<in> set (rest_of s0 (Some r))"
      then show "q \<in> set (mp_records s1)"
        using s1(2) by (cases el) (auto simp: els_from_def split: if_splits dest!: sym [of "dropWhile _ _"] set_dropWhileD)
    qed
    then show ?thesis using s1(3) by (simp add: list_ok_def t_def)
  qed
  moreover have "same_entries s t" using rel by (simp add: same_entries_def released_def t_def)
  ultimately show ?thesis using that [OF run inv_t] els s1(6) s0(4) by (simp add: t_def)
qed

end
