(* ===== verification/MapFree.thy ===== *)
theory MapFree
  imports MapInv
begin

text \<open>
  What happens when freeing a value kills iterators of the map while \<^verbatim>\<open>clear\<close> or \<^verbatim>\<open>forEach\<close> has saved its
  next record: exactly when the saved record is a deleted one whose last holders die, it is freed
  and then read.
\<close>

section \<open>Clearing\<close>

definition dying :: "(nat \<Rightarrow> nat list \<times> nat list) \<Rightarrow> nat \<Rightarrow> nat list" where
  "dying drops r = fst (drops r) @ snd (drops r)"

definition all_dying :: "(nat \<Rightarrow> nat list \<times> nat list) \<Rightarrow> nat list \<Rightarrow> nat set" where
  "all_dying drops els = (\<Union>r\<in>set els. set (dying drops r))"

text \<open>Every entry takes iterators of its own with it; deleted records take none.\<close>

definition drops_ok :: "js_map \<Rightarrow> (nat \<Rightarrow> nat list \<times> nat list) \<Rightarrow> nat list \<Rightarrow> bool" where
  "drops_ok s drops els = ((\<forall>r\<in>set els. free_ok s (dying drops r) \<and> (core (mp_heap s) r = None \<longrightarrow> dying drops r = []))
     \<and> (\<forall>r\<in>set els. \<forall>q\<in>set els. r \<noteq> q \<longrightarrow> set (dying drops r) \<inter> set (dying drops q) = {}))"

text \<open>
  The walk of \<^verbatim>\<open>clear\<close> over the records \<open>els\<close> when the iterators in \<open>dead\<close> have died: does some record
  die with the values of the one before it?
\<close>

function clear_dangles :: "js_map \<Rightarrow> (nat \<Rightarrow> nat list \<times> nat list) \<Rightarrow> nat set \<Rightarrow> nat list \<Rightarrow> bool" where
  "clear_dangles s drops dead [] = False"
| "clear_dangles s drops dead (r # els) =
     (let dead = dead \<union> set (dying drops r)
      in (case els of [] \<Rightarrow> False | q # _ \<Rightarrow> doomed s dead q)
         \<or> clear_dangles s drops dead (filter (\<lambda>q. \<not> doomed s dead q) els))"
  by pat_completeness auto
termination
  by (relation "measure (\<lambda>(s, drops, dead, els). length els)") (auto simp: le_imp_less_Suc)

lemma doomed_shift:
  assumes "core (mp_heap t) q = core (mp_heap s) q" "mp_locks t = mp_locks s" "mp_iters t = mp_iters s |` (- dead)"
  shows "doomed t D q = doomed s (dead \<union> D) q"
  using assms by (auto simp: doomed_def holds_def restrict_map_def)

lemma clear_dangles_shift:
  assumes "mp_locks t = mp_locks s" "mp_iters t = mp_iters s |` (- dead)" "\<forall>q\<in>set els. core (mp_heap t) q = core (mp_heap s) q"
  shows "clear_dangles t drops D els = clear_dangles s drops (dead \<union> D) els"
  using assms
proof (induction t drops D els rule: clear_dangles.induct)
  case (2 t drops D r els)
  let ?D = "D \<union> set (dying drops r)"
  have shift: "doomed t ?D q = doomed s (dead \<union> ?D) q" if "q \<in> set els" for q
    using doomed_shift [of t q s dead ?D] "2.prems" that by simp
  then have "filter (\<lambda>q. \<not> doomed t ?D q) els = filter (\<lambda>q. \<not> doomed s (dead \<union> ?D) q) els" by (intro filter_cong) auto
  moreover have "clear_dangles t drops ?D (filter (\<lambda>q. \<not> doomed t ?D q) els)
      = clear_dangles s drops (dead \<union> ?D) (filter (\<lambda>q. \<not> doomed t ?D q) els)"
    by (rule "2.IH" [OF refl "2.prems"(1,2)]) (use "2.prems"(3) in auto)
  ultimately show ?case using shift by (cases els) (simp_all add: Let_def Un_assoc)
qed simp

text \<open>One step of the walk, over an entry or over a deleted record.\<close>

lemma clear_step_ok:
  assumes inv: "map_inv s" and r: "r \<in> set (mp_records s)"
    and drop: "free_ok s (dying drops r)" "core (mp_heap s) r = None \<longrightarrow> dying drops r = []"
  obtains s1 where "map_delete_record s r (fst (drops r)) (snd (drops r)) = Some s1" "map_inv s1"
    "core (mp_heap s1) = (core (mp_heap s))(r := None)" "dom (mp_heap s1) \<subseteq> dom (mp_heap s)"
    "mp_records s1 = filter (\<lambda>q. mp_heap s1 q \<noteq> None) (mp_records s)"
    "mp_iters s1 = mp_iters s |` (- set (dying drops r))" "mp_locks s1 = mp_locks s"
proof (cases "core (mp_heap s) r")
  case None
  have list: "list_ok s" using inv by (simp add: map_inv_def)
  then obtain mr where "mp_heap s r = Some mr" "mr_empty mr" using None r by (auto simp: core_def list_ok_def split: if_splits)
  then have "map_delete_record s r (fst (drops r)) (snd (drops r)) = Some s" by (simp add: map_delete_record_def)
  moreover have "core (mp_heap s) = (core (mp_heap s))(r := None)" using None by (simp add: fun_upd_idem)
  moreover have "mp_records s = filter (\<lambda>q. mp_heap s q \<noteq> None) (mp_records s)"
    using list by (auto simp: list_ok_def intro!: filter_True [symmetric])
  moreover have "mp_iters s = mp_iters s |` (- set (dying drops r))" using None drop(2) by (simp add: restrict_map_def fun_eq_iff)
  ultimately show ?thesis using that [of s] inv by blast
next
  case (Some e)
  obtain k v where kv: "core (mp_heap s) r = Some (k, v)" using Some by (cases e) auto
  show ?thesis using map_delete_record_ok [OF inv kv] drop(1) that unfolding dying_def by metis
qed

lemma drops_ok_step:
  assumes "drops_ok s drops (r # ys)" "r \<notin> set ys" "set zs \<subseteq> set ys"
    "mp_iters t = mp_iters s |` (- set (dying drops r))" "\<And>q. q \<in> set ys \<Longrightarrow> core (mp_heap t) q = core (mp_heap s) q"
  shows "drops_ok t drops zs"
proof -
  have "free_ok t (dying drops q)" if "q \<in> set zs" for q
  proof -
    have "q \<in> set ys" "q \<noteq> r" using that assms(2,3) by auto
    then have "free_ok s (dying drops q)" "set (dying drops r) \<inter> set (dying drops q) = {}"
      using assms(1) by (auto simp: drops_ok_def)
    then show ?thesis unfolding free_ok_def assms(4) by auto
  qed
  moreover have "dying drops q = []" if "q \<in> set zs" "core (mp_heap t) q = None" for q
    using that assms(1,3) assms(5) [of q] by (auto simp: drops_ok_def)
  moreover have "set (dying drops p) \<inter> set (dying drops q) = {}" if "p \<in> set zs" "q \<in> set zs" "p \<noteq> q" for p q
  proof -
    have "p \<in> set (r # ys)" "q \<in> set (r # ys)" using that assms(3) by auto
    then show ?thesis using assms(1) that(3) unfolding drops_ok_def by blast
  qed
  ultimately show ?thesis unfolding drops_ok_def by blast
qed

lemma clear_loop_ok:
  assumes "map_inv s" "els_from s el = Some els" "length els \<le> n" "drops_ok s drops els"
  shows "if clear_dangles s drops {} els then clear_loop drops n el s = None
    else \<exists>s'. clear_loop drops n el s = Some s' \<and> map_inv s' \<and> core (mp_heap s') = core (mp_heap s) |` (- set els)
      \<and> mp_records s' = filter (\<lambda>r. mp_heap s' r \<noteq> None) (mp_records s)
      \<and> mp_iters s' = mp_iters s |` (- all_dying drops els) \<and> mp_locks s' = mp_locks s \<and> dom (mp_heap s') \<subseteq> dom (mp_heap s)"
  using assms
proof (induction n arbitrary: s el els)
  case 0
  then have "els = []" "el = None" using els_from_head [OF 0(2)] by (auto simp: head_opt_def)
  then show ?case using 0 by (auto simp: map_inv_def list_ok_def restrict_map_def all_dying_def intro!: filter_True [symmetric])
next
  case (Suc n)
  have dist: "distinct (mp_records s)" "set (mp_records s) = dom (mp_heap s)" using Suc.prems(1) by (auto simp: map_inv_def list_ok_def)
  show ?case
  proof (cases els)
    case Nil
    then have "el = None" using els_from_head [OF Suc.prems(2)] by (simp add: head_opt_def)
    then show ?thesis using Suc.prems(1) dist Nil by (auto simp: restrict_map_def all_dying_def intro!: filter_True [symmetric])
  next
    case (Cons r ys)
    obtain xs where xs: "mp_records s = xs @ r # ys" and el: "el = Some r"
      using els_from_head [OF Suc.prems(2)] Cons by (auto simp: head_opt_def)
    let ?K = "set (dying drops r)"
    have drop: "free_ok s (dying drops r)" "core (mp_heap s) r = None \<longrightarrow> dying drops r = []"
      using Suc.prems(4) Cons by (simp_all add: drops_ok_def)
    have on: "r \<in> set (mp_records s)" using xs by simp
    obtain s1 where s1: "map_delete_record s r (fst (drops r)) (snd (drops r)) = Some s1" "map_inv s1"
      "core (mp_heap s1) = (core (mp_heap s))(r := None)" "dom (mp_heap s1) \<subseteq> dom (mp_heap s)"
      "mp_records s1 = filter (\<lambda>q. mp_heap s1 q \<noteq> None) (mp_records s)"
      "mp_iters s1 = mp_iters s |` (- ?K)" "mp_locks s1 = mp_locks s"
      using clear_step_ok [OF Suc.prems(1) on drop] .
    have ys: "q \<noteq> r" "core (mp_heap s1) q = core (mp_heap s) q" "mp_heap s1 q \<noteq> None \<longleftrightarrow> \<not> doomed s ?K q" if "q \<in> set ys" for q
    proof -
      show "q \<noteq> r" using that dist(1) xs by auto
      then show core: "core (mp_heap s1) q = core (mp_heap s) q" unfolding s1(3) by simp
      show "mp_heap s1 q \<noteq> None \<longleftrightarrow> \<not> doomed s ?K q"
        using freed_iff_doomed [OF s1(2) core _ s1(6)] s1(7) by simp
    qed
    define zs where "zs = filter (\<lambda>q. \<not> doomed s ?K q) ys"
    have "filter (\<lambda>q. mp_heap s1 q \<noteq> None) ys = zs" unfolding zs_def using ys(3) by (intro filter_cong) auto
    then have recs: "mp_records s1 = filter (\<lambda>q. mp_heap s1 q \<noteq> None) (xs @ [r]) @ zs" unfolding s1(5) xs by simp
    have run: "clear_loop drops (Suc n) el s = clear_loop drops n (head_opt ys) s1"
      using el el_next_split [OF xs dist(1)] s1(1) by simp
    show ?thesis
    proof (cases "ys \<noteq> [] \<and> doomed s ?K (hd ys)")
      case True
      then obtain q qs where q: "ys = q # qs" "doomed s ?K q" by (cases ys) auto
      then have "mp_heap s1 q = None" using ys(3) [of q] by simp
      then have "q \<notin> set (mp_records s1)" using s1(2) by (auto simp: map_inv_def list_ok_def)
      then have "clear_loop drops n (head_opt ys) s1 = None"
        using q(1) by (cases n) (simp_all add: head_opt_def el_next_def els_from_def)
      then show ?thesis using q Cons run by (simp add: Let_def)
    next
      case False
      then have hd: "head_opt ys = head_opt zs" by (cases ys) (auto simp: zs_def head_opt_def)
      have dangles: "clear_dangles s drops {} els = clear_dangles s drops ?K zs"
        using False Cons by (cases ys) (simp_all add: Let_def zs_def)
      have "\<forall>q\<in>set zs. core (mp_heap s1) q = core (mp_heap s) q" using ys(2) by (auto simp: zs_def)
      from clear_dangles_shift [OF s1(7,6) this, of drops "{}"]
      have shift: "clear_dangles s1 drops {} zs = clear_dangles s drops ?K zs" by simp
      have from1: "els_from s1 (head_opt zs) = Some zs"
        using els_from_suffix [OF recs] s1(2) by (simp add: map_inv_def list_ok_def)
      have len: "length zs \<le> n" unfolding zs_def by (rule order_trans [OF length_filter_le]) (use Suc.prems(3) Cons in simp)
      have drops1: "drops_ok s1 drops zs"
      proof (rule drops_ok_step)
        show "drops_ok s drops (r # ys)" using Suc.prems(4) Cons by simp
        show "r \<notin> set ys" "set zs \<subseteq> set ys" using ys(1) by (auto simp: zs_def)
      qed (fact s1(6), fact ys(2))
      note IH = Suc.IH [OF s1(2) from1 len drops1, unfolded shift]
      have zombies: "core (mp_heap s) q = None" "dying drops q = []" if "q \<in> set ys" "q \<notin> set zs" for q
      proof -
        show "core (mp_heap s) q = None" using that unfolding zs_def set_filter mem_Collect_eq doomed_def by blast
        then show "dying drops q = []" using that(1) Suc.prems(4) Cons by (simp add: drops_ok_def)
      qed
      have core: "core (mp_heap s1) |` (- set zs) = core (mp_heap s) |` (- set els)"
        unfolding s1(3) Cons using zombies zs_def by (auto simp: restrict_map_def fun_eq_iff)
      have "all_dying drops els = ?K \<union> all_dying drops zs"
        unfolding all_dying_def Cons using zombies by (auto simp: zs_def)
      then have iters: "mp_iters s1 |` (- all_dying drops zs) = mp_iters s |` (- all_dying drops els)"
        unfolding s1(6) by (auto simp: restrict_map_def fun_eq_iff)
      show ?thesis
      proof (cases "clear_dangles s drops ?K zs")
        case True
        then show ?thesis using IH dangles run hd by simp
      next
        case False
        then obtain s' where s': "clear_loop drops n (head_opt zs) s1 = Some s'" "map_inv s'"
          "core (mp_heap s') = core (mp_heap s1) |` (- set zs)" "mp_records s' = filter (\<lambda>r. mp_heap s' r \<noteq> None) (mp_records s1)"
          "mp_iters s' = mp_iters s1 |` (- all_dying drops zs)" "mp_locks s' = mp_locks s1" "dom (mp_heap s') \<subseteq> dom (mp_heap s1)"
          using IH by auto
        have "mp_records s' = filter (\<lambda>r. mp_heap s' r \<noteq> None) (mp_records s)"
          unfolding s'(4) s1(5) filter_filter using s'(7) by (intro filter_cong [OF refl]) (auto simp: domIff subset_iff)
        then show ?thesis using s' s1 False dangles run hd core iters by auto
      qed
    qed
  qed
qed

section \<open>Returning to forEach\<close>

text \<open>
  The function that \<^verbatim>\<open>forEach\<close> called has returned; the iterators \<open>arg\<close> die with its arguments, before the
  next record is read, and \<open>ret\<close> with its result, after that.
\<close>

definition forEach_dangles :: "js_map \<Rightarrow> nat list \<Rightarrow> nat list \<Rightarrow> bool" where
  "forEach_dangles s arg ret =
     (case filter (\<lambda>q. \<not> doomed s (set arg) q) (rest_of s (Some (hd (mp_locks s)))) of
        [] \<Rightarrow> False | q # _ \<Rightarrow> doomed s (set arg \<union> set ret) q)"

lemma not_in_rest: "distinct (mp_records s) \<Longrightarrow> r \<notin> set (rest_of s (Some r))"
proof (cases "r \<in> set (mp_records s)")
  case True
  assume dist: "distinct (mp_records s)"
  obtain xs ys where "mp_records s = xs @ r # ys" using True by (meson split_list)
  then show ?thesis using dist by (simp add: rest_of_def dropWhile_neq)
next
  case False
  then have "dropWhile (\<lambda>x. x \<noteq> r) (mp_records s) = []" by auto
  then show ?thesis unfolding rest_of_def option.case by (simp only: list.sel list.set empty_iff not_False_eq_True)
qed

lemma forEach_return_ok:
  assumes inv: "map_inv s" and locks: "mp_locks s = r # ls" and free: "free_ok s (arg @ ret)"
  obtains (dangling) el t u where "forEach_dangles s arg ret" "forEach_leave arg s = Some (el, t)" "free_value ret t = Some u"
      "els_from u el = None"
  | (returned) el t u els where "\<not> forEach_dangles s arg ret" "forEach_leave arg s = Some (el, t)" "free_value ret t = Some u"
      "map_inv u" "same_entries s u" "mp_locks u = ls" "mp_iters u = mp_iters s |` (- set (arg @ ret))"
      "els_from u el = Some els" "set els \<subseteq> dom (mp_heap u)" "filter (\<lambda>r. core (mp_heap u) r \<noteq> None) els = live_rest s (Some r)"
proof -
  have "free_ok s arg" using free by (simp add: free_ok_def)
  then obtain el els t where t: "forEach_leave arg s = Some (el, t)" "map_inv t" "same_entries s t" "mp_locks t = ls"
    "mp_iters t = mp_iters s |` (- set arg)" "els_from t el = Some els" "set els \<subseteq> dom (mp_heap t)"
    "filter (\<lambda>r. core (mp_heap t) r \<noteq> None) els = live_rest s (Some r)"
    "els = filter (\<lambda>q. \<not> doomed s (set arg) q) (rest_of s (Some r))"
    using forEach_leave_ok [OF inv locks] by metis
  have "free_ok t ret" using free t(5) by (auto simp: free_ok_def)
  then obtain u where u: "free_value ret t = Some u" "map_inv u" "released t u" "mp_iters u = mp_iters t |` (- set ret)"
    using free_value_inv [OF t(2)] by metis
  have iters: "mp_iters u = mp_iters s |` (- set (arg @ ret))" unfolding u(4) t(5) by (auto simp: restrict_map_def fun_eq_iff)
  have core: "core (mp_heap t) = core (mp_heap s)" "core (mp_heap u) = core (mp_heap t)"
    using t(3) u(3) by (simp_all add: same_entries_def released_def)
  have dist: "distinct (mp_records s)" using inv by (simp add: map_inv_def list_ok_def)
  have gone: "mp_heap u q = None \<longleftrightarrow> doomed s (set arg \<union> set ret) q" if "q \<in> set els" for q
  proof (rule freed_iff_doomed [OF u(2)])
    have "q \<noteq> r" using that not_in_rest [OF dist] t(9) by auto
    then show "q \<in> set (mp_locks u) \<longleftrightarrow> q \<in> set (mp_locks s)" using u(3) t(4) locks by (simp add: released_def)
  qed (use core iters in simp_all)
  define els' where "els' = filter (\<lambda>q. mp_heap u q \<noteq> None) els"
  obtain xs where el: "el = head_opt els" "mp_records t = xs @ els" using els_from_head [OF t(6)] by blast
  then have recs: "mp_records u = filter (\<lambda>q. mp_heap u q \<noteq> None) xs @ els'" using u(3) by (simp add: released_def els'_def)
  have list: "distinct (mp_records u)" "set (mp_records u) = dom (mp_heap u)" using u(2) by (simp_all add: map_inv_def list_ok_def)
  have dangles: "forEach_dangles s arg ret \<longleftrightarrow> (case els of [] \<Rightarrow> False | q # _ \<Rightarrow> doomed s (set arg \<union> set ret) q)"
    using locks t(9) by (simp add: forEach_dangles_def)
  show ?thesis
  proof (cases "forEach_dangles s arg ret")
    case True
    then obtain q qs where q: "els = q # qs" "doomed s (set arg \<union> set ret) q" using dangles by (auto split: list.splits)
    then have "q \<notin> set (mp_records u)" using gone [of q] list(2) by (simp add: domIff)
    then have "els_from u el = None" using el(1) q(1) by (simp add: els_from_def head_opt_def)
    then show ?thesis using dangling True t(1) u(1) by blast
  next
    case False
    have "head_opt els = head_opt els'"
      using False gone unfolding dangles by (cases els) (auto simp: els'_def head_opt_def)
    then have from_u: "els_from u el = Some els'" using els_from_suffix [OF recs list(1)] el(1) by simp
    have "filter (\<lambda>r. core (mp_heap u) r \<noteq> None) els' = live_rest s (Some r)"
      unfolding t(8) [symmetric] els'_def filter_filter
      by (rule filter_cong [OF refl]) (use core(2) core_SomeD [of "mp_heap u"] in fastforce)
    moreover have "same_entries s u" using t(3) u(3) by (auto simp: same_entries_def released_def domIff subset_iff intro!: filter_cong)
    moreover have "set els' \<subseteq> dom (mp_heap u)" by (auto simp: els'_def)
    ultimately show ?thesis using returned [OF False t(1) u(1,2) _ _ iters from_u] u(3) t(4) by (simp add: released_def)
  qed
qed

end
