(* ===== verification/MapSpec.thy ===== *)
theory MapSpec
  imports MapFree
begin

text \<open>
  ECMAScript's description of maps and sets, an append-only list in which deleting leaves a hole and
  iterators are indices, and the proof that the hash table of \<^theory_text>\<open>MapSet\<close> implements it.
\<close>

section \<open>Runs of the implementation\<close>

text \<open>
  What a script and the reference counts can do to a map. An operation carries the outcome of its
  allocations and the iterators that die with the values it frees: for \<open>OpClear\<close> a list of entries with
  the iterators that die with their keys and values. \<open>OpEach\<close> starts a \<^verbatim>\<open>forEach\<close>, \<open>OpEachNext\<close> and
  \<open>OpEachThrow\<close> are the return of the innermost call of its function, whose arguments and (for the first)
  whose result are freed.
\<close>

datatype map_op =
    OpSet jsval jsval "nat option" "nat option" "nat list"
  | OpGet jsval
  | OpHas jsval
  | OpDelete jsval "nat list" "nat list"
  | OpClear "(nat \<times> nat list \<times> nat list) list"
  | OpSize
  | OpIter iterator_kind nat bool bool
  | OpNext nat bool
  | OpFree nat
  | OpEach
  | OpEachNext "nat list" "nat list"
  | OpEachThrow "nat list"

definition each_result :: "bool \<Rightarrow> (jsval \<times> jsval) option \<Rightarrow> map_result" where
  "each_result is_set args =
     (case args of None \<Rightarrow> RUndefined | Some (key, value) \<Rightarrow> RPair (if is_set then key else value) key)"

definition drops_of :: "(nat \<times> nat list \<times> nat list) list \<Rightarrow> nat \<Rightarrow> nat list \<times> nat list" where
  "drops_of drops r = (case map_of drops r of None \<Rightarrow> ([], []) | Some d \<Rightarrow> d)"

definition dying_in :: "(nat \<times> nat list \<times> nat list) list \<Rightarrow> nat list" where
  "dying_in drops = concat (map (\<lambda>(r, dead1, dead2). dead1 @ dead2) drops)"

fun map_exec :: "bool \<Rightarrow> map_op \<Rightarrow> js_map \<Rightarrow> (map_result \<times> js_map) option" where
  "map_exec is_set (OpSet key value mem slack dead) s = js_map_set is_set key value mem slack dead s"
| "map_exec is_set (OpGet key) s = do { res \<leftarrow> js_map_get key s; Some (res, s) }"
| "map_exec is_set (OpHas key) s = do { res \<leftarrow> js_map_has key s; Some (res, s) }"
| "map_exec is_set (OpDelete key dead1 dead2) s = js_map_delete key dead1 dead2 s"
| "map_exec is_set (OpClear drops) s = js_map_clear (drops_of drops) s"
| "map_exec is_set OpSize s = Some (js_map_get_size s, s)"
| "map_exec is_set (OpIter kind i obj_ok data_ok) s = Some (js_create_map_iterator kind i obj_ok data_ok s)"
| "map_exec is_set (OpNext i array_ok) s = js_map_iterator_next is_set i array_ok s"
| "map_exec is_set (OpFree i) s = do { s \<leftarrow> js_map_iterator_finalizer s i; Some (RUndefined, s) }"
| "map_exec is_set OpEach s = do { (args, s) \<leftarrow> forEach_enter (el_first s) s; Some (each_result is_set args, s) }"
| "map_exec is_set (OpEachNext dead ret) s = do {
     (el, s) \<leftarrow> forEach_leave dead s;
     s \<leftarrow> free_value ret s;
     (args, s) \<leftarrow> forEach_enter el s;
     Some (each_result is_set args, s) }"
| "map_exec is_set (OpEachThrow dead) s = do { (el, s) \<leftarrow> forEach_leave dead s; Some (RException, s) }"

text \<open>What the caller of an operation guarantees: proper values, fresh addresses, live iterators.\<close>

definition proper_key :: "jsval \<Rightarrow> bool" where
  "proper_key v = ((\<forall>tag. v \<noteq> VOther tag) \<and> (\<forall>a. v = VBigInt a \<longrightarrow> bf_normal a))"

fun op_ok :: "js_map \<Rightarrow> map_op \<Rightarrow> bool" where
  "op_ok s (OpSet key value mem slack dead) = (proper_key key \<and> alloc_ok s mem slack \<and> free_ok s dead)"
| "op_ok s (OpGet key) = proper_key key"
| "op_ok s (OpHas key) = proper_key key"
| "op_ok s (OpDelete key dead1 dead2) = (proper_key key \<and> free_ok s (dead1 @ dead2))"
| "op_ok s (OpClear drops) = (distinct (map fst drops) \<and> (\<forall>r\<in>set (map fst drops). core (mp_heap s) r \<noteq> None)
     \<and> free_ok s (dying_in drops))"
| "op_ok s (OpIter kind i obj_ok data_ok) = (mp_iters s i = None)"
| "op_ok s (OpNext i array_ok) = (mp_iters s i \<noteq> None)"
| "op_ok s (OpFree i) = (mp_iters s i \<noteq> None)"
| "op_ok s (OpEachNext dead ret) = (mp_locks s \<noteq> [] \<and> free_ok s (dead @ ret))"
| "op_ok s (OpEachThrow dead) = (mp_locks s \<noteq> [] \<and> free_ok s dead)"
| "op_ok s _ = True"

text \<open>The moments at which the record that the C code has saved dies.\<close>

fun dangling :: "js_map \<Rightarrow> map_op \<Rightarrow> bool" where
  "dangling s (OpClear drops) = clear_dangles s (drops_of drops) {} (mp_records s)"
| "dangling s (OpEachNext dead ret) = forEach_dangles s dead ret"
| "dangling s _ = False"

inductive map_trace :: "bool \<Rightarrow> (map_op \<times> map_result) list \<Rightarrow> js_map \<Rightarrow> bool" for is_set where
  trace_new: "map_trace is_set [] js_map_new"
| trace_step: "map_trace is_set tr s \<Longrightarrow> op_ok s op \<Longrightarrow> map_exec is_set op s = Some (res, s')
    \<Longrightarrow> map_trace is_set (tr @ [(op, res)]) s'"

section \<open>The specification\<close>

text \<open>An iterator that has ended has no index.\<close>

record es_map =
  es_data :: "(jsval \<times> jsval) option list"
  es_iters :: "nat \<rightharpoonup> iterator_kind \<times> nat option"
  es_calls :: "nat list"

definition es_new :: es_map where
  "es_new = \<lparr>es_data = [], es_iters = Map.empty, es_calls = []\<rparr>"

definition es_lookup :: "(jsval \<times> jsval) option list \<Rightarrow> jsval \<Rightarrow> nat option" where
  "es_lookup d key =
     find (\<lambda>p. case d ! p of None \<Rightarrow> False | Some (k, v) \<Rightarrow> key_of k = key_of key) [0..<length d]"

definition es_scan :: "(jsval \<times> jsval) option list \<Rightarrow> nat \<Rightarrow> nat option" where
  "es_scan d n = find (\<lambda>p. d ! p \<noteq> None) [n..<length d]"

definition es_kill :: "nat list \<Rightarrow> es_map \<Rightarrow> es_map" where
  "es_kill is E = E\<lparr>es_iters := es_iters E |` (- set is)\<rparr>"

definition es_enter :: "bool \<Rightarrow> nat \<Rightarrow> es_map \<Rightarrow> map_result \<times> es_map" where
  "es_enter is_set n E =
     (case es_scan (es_data E) n of
        None \<Rightarrow> (RUndefined, E)
      | Some p \<Rightarrow> (each_result is_set (es_data E ! p), E\<lparr>es_calls := (p + 1) # es_calls E\<rparr>))"

fun es_exec :: "bool \<Rightarrow> map_op \<Rightarrow> es_map \<Rightarrow> map_result \<times> es_map" where
  "es_exec is_set (OpSet arg0 arg1 mem slack dead) E =
     (let key = map_normalize_key arg0; value = (if is_set then VUndefined else arg1)
      in case es_lookup (es_data E) key of
        None \<Rightarrow> if mem = None then (RException, E) else (RThis, E\<lparr>es_data := es_data E @ [Some (key, value)]\<rparr>)
      | Some p \<Rightarrow> (RThis, es_kill dead (E\<lparr>es_data := (es_data E)[p := Some (fst (the (es_data E ! p)), value)]\<rparr>)))"
| "es_exec is_set (OpGet arg0) E =
     (case es_lookup (es_data E) (map_normalize_key arg0) of
        None \<Rightarrow> (RUndefined, E)
      | Some p \<Rightarrow> (RValue (snd (the (es_data E ! p))), E))"
| "es_exec is_set (OpHas arg0) E = (RBool (es_lookup (es_data E) (map_normalize_key arg0) \<noteq> None), E)"
| "es_exec is_set (OpDelete arg0 dead1 dead2) E =
     (case es_lookup (es_data E) (map_normalize_key arg0) of
        None \<Rightarrow> (RBool False, E)
      | Some p \<Rightarrow> (RBool True, es_kill (dead1 @ dead2) (E\<lparr>es_data := (es_data E)[p := None]\<rparr>)))"
| "es_exec is_set (OpClear drops) E = (RUndefined, es_kill (dying_in drops) (E\<lparr>es_data := map (\<lambda>_. None) (es_data E)\<rparr>))"
| "es_exec is_set OpSize E = (RSize (of_nat (length (filter (\<lambda>e. e \<noteq> None) (es_data E)))), E)"
| "es_exec is_set (OpIter kind i obj_ok data_ok) E =
     (if obj_ok \<and> data_ok then (RIterator i, E\<lparr>es_iters := (es_iters E)(i \<mapsto> (kind, Some 0))\<rparr>) else (RException, E))"
| "es_exec is_set (OpNext i array_ok) E =
     (case es_iters E i of
        Some (kind, Some n) \<Rightarrow>
          (case es_scan (es_data E) n of
             None \<Rightarrow> (RDone, E\<lparr>es_iters := (es_iters E)(i \<mapsto> (kind, None))\<rparr>)
           | Some p \<Rightarrow> (case es_data E ! p of
               Some (k, v) \<Rightarrow> (iterator_value is_set kind array_ok k v, E\<lparr>es_iters := (es_iters E)(i \<mapsto> (kind, Some (p + 1)))\<rparr>)
             | None \<Rightarrow> (RDone, E)))
      | _ \<Rightarrow> (RDone, E))"
| "es_exec is_set (OpFree i) E = (RUndefined, es_kill [i] E)"
| "es_exec is_set OpEach E = es_enter is_set 0 E"
| "es_exec is_set (OpEachNext dead ret) E =
     es_enter is_set (hd (es_calls E)) (es_kill (dead @ ret) (E\<lparr>es_calls := tl (es_calls E)\<rparr>))"
| "es_exec is_set (OpEachThrow dead) E = (RException, es_kill dead (E\<lparr>es_calls := tl (es_calls E)\<rparr>))"

text \<open>The results of a list of operations, starting with the empty map.\<close>

definition es_step :: "bool \<Rightarrow> map_op \<Rightarrow> map_result list \<times> es_map \<Rightarrow> map_result list \<times> es_map" where
  "es_step is_set op acc = (let (r, E) = es_exec is_set op (snd acc) in (fst acc @ [r], E))"

definition es_results :: "bool \<Rightarrow> map_op list \<Rightarrow> map_result list" where
  "es_results is_set ops = fst (fold (es_step is_set) ops ([], es_new))"

section \<open>The simulation\<close>

text \<open>\<open>pos\<close> is the index that the specification gives to a record.\<close>

definition data_rel :: "(nat \<Rightarrow> nat) \<Rightarrow> nat list \<Rightarrow> (nat \<rightharpoonup> jsval \<times> jsval) \<Rightarrow> (jsval \<times> jsval) option list \<Rightarrow> bool" where
  "data_rel pos rs c d = (sorted_wrt (<) (map pos rs)
     \<and> (\<forall>r\<in>set rs. pos r < length d \<and> d ! pos r = c r)
     \<and> (\<forall>p<length d. d ! p \<noteq> None \<longrightarrow> p \<in> pos ` set rs))"

definition index_of :: "(nat \<Rightarrow> nat) \<Rightarrow> nat option \<Rightarrow> nat" where
  "index_of pos cur = (case cur of None \<Rightarrow> 0 | Some r \<Rightarrow> pos r + 1)"

definition es_iterator :: "(nat \<Rightarrow> nat) \<Rightarrow> map_iterator \<Rightarrow> iterator_kind \<times> nat option" where
  "es_iterator pos it = (it_kind it, if it_obj it then Some (index_of pos (it_cur_record it)) else None)"

definition es_rel :: "(nat \<Rightarrow> nat) \<Rightarrow> js_map \<Rightarrow> es_map \<Rightarrow> bool" where
  "es_rel pos s E = (data_rel pos (mp_records s) (core (mp_heap s)) (es_data E)
     \<and> es_iters E = (\<lambda>i. map_option (es_iterator pos) (mp_iters s i))
     \<and> es_calls E = map (\<lambda>r. pos r + 1) (mp_locks s))"

lemma find_unique:
  assumes "x \<in> set xs" "P x" "\<And>y. y \<in> set xs \<Longrightarrow> P y \<Longrightarrow> y = x"
  shows "find P xs = Some x"
proof (cases "find P xs")
  case None
  then show ?thesis using assms(1,2) by (auto simp: find_None_iff)
next
  case (Some y)
  then have "y \<in> set xs" "P y" by (auto simp: find_Some_iff)
  then show ?thesis using Some assms(3) by blast
qed

lemma find_head_opt: "find P xs = head_opt (filter P xs)"
  by (induction xs) (auto simp: head_opt_def)

lemma sorted_map_inj: "sorted_wrt (<) (map f xs) \<Longrightarrow> inj_on f (set xs)" for f :: "nat \<Rightarrow> nat"
  by (metis distinct_map strict_sorted_iff)

lemma dom_core_records: "map_inv s \<Longrightarrow> core (mp_heap s) r = Some e \<Longrightarrow> r \<in> set (mp_records s)"
  by (auto simp: map_inv_def list_ok_def dest: core_SomeD)

lemma es_lookup_ok:
  assumes inv: "map_inv s" and rel: "data_rel pos (mp_records s) (core (mp_heap s)) d"
  shows "has_key (core (mp_heap s)) key r \<Longrightarrow> es_lookup d key = Some (pos r)"
    and "(\<And>r. \<not> has_key (core (mp_heap s)) key r) \<Longrightarrow> es_lookup d key = None"
proof -
  let ?c = "core (mp_heap s)" and ?P = "\<lambda>p. case d ! p of None \<Rightarrow> False | Some (k, v) \<Rightarrow> key_of k = key_of key"
  have entry_at: "\<exists>q\<in>set (mp_records s). p = pos q \<and> has_key ?c key q" if p: "p < length d" "?P p" for p
  proof -
    have "d ! p \<noteq> None" using p(2) by (auto split: option.splits)
    then obtain q where q: "q \<in> set (mp_records s)" "p = pos q" using rel p(1) by (auto simp: data_rel_def)
    then have "d ! p = ?c q" using rel by (simp add: data_rel_def)
    then show ?thesis using q p(2) by (auto simp: has_key_def split: option.splits)
  qed
  show "es_lookup d key = Some (pos r)" if h: "has_key ?c key r"
    unfolding es_lookup_def
  proof (rule find_unique)
    have "r \<in> set (mp_records s)" using h dom_core_records [OF inv] by (auto simp: has_key_def)
    then show "pos r \<in> set [0..<length d]" "?P (pos r)" using rel h by (auto simp: data_rel_def has_key_def)
    show "y = pos r" if "y \<in> set [0..<length d]" "?P y" for y
      using entry_at [of y] that has_key_unique [OF _ h] inv by (auto simp: map_inv_def)
  qed
  show "es_lookup d key = None" if "\<And>r. \<not> has_key ?c key r"
    unfolding es_lookup_def find_None_iff using entry_at that by auto
qed

lemma es_scan_ok:
  assumes inv: "map_inv s" and rel: "data_rel pos (mp_records s) (core (mp_heap s)) d"
    and cur: "\<And>r. cur = Some r \<Longrightarrow> r \<in> set (mp_records s)"
  shows "es_scan d (index_of pos cur) = map_option pos (head_opt (live_rest s cur))"
proof -
  let ?rest = "rest_of s cur" and ?n = "index_of pos cur"
  have sorted: "sorted_wrt (<) (map pos (mp_records s))" using rel by (simp add: data_rel_def)
  have rest: "sorted_wrt (<) (map pos ?rest) \<and> set ?rest = {r \<in> set (mp_records s). ?n \<le> pos r}"
  proof (cases cur)
    case None
    then show ?thesis using sorted by (simp add: rest_of_def index_of_def)
  next
    case (Some r)
    then obtain xs ys where split: "mp_records s = xs @ r # ys" using cur [OF Some] by (meson split_list)
    then have "?rest = ys" using inv Some by (simp add: rest_of_def dropWhile_neq map_inv_def list_ok_def)
    then show ?thesis using sorted split Some by (auto simp: index_of_def sorted_wrt_append)
  qed
  have "map pos (live_rest s cur) = filter (\<lambda>p. d ! p \<noteq> None) [?n..<length d]"
  proof (rule strict_sorted_equal)
    show "sorted_wrt (<) (filter (\<lambda>p. d ! p \<noteq> None) [?n..<length d])" by (simp add: sorted_wrt_filter)
    show "sorted_wrt (<) (map pos (live_rest s cur))"
      using rest by (simp add: live_rest_def sorted_wrt_map sorted_wrt_filter)
    show "set (map pos (live_rest s cur)) = set (filter (\<lambda>p. d ! p \<noteq> None) [?n..<length d])"
      using rest rel unfolding live_rest_def data_rel_def by fastforce
  qed
  then show ?thesis unfolding es_scan_def find_head_opt by (auto simp: head_opt_def split: list.splits)
qed

lemma data_rel_same:
  assumes "data_rel pos (mp_records s) (core (mp_heap s)) d" "same_entries s s'" "map_inv s'"
  shows "data_rel pos (mp_records s') (core (mp_heap s')) d"
proof -
  have core: "core (mp_heap s') = core (mp_heap s)" and recs: "mp_records s' = filter (\<lambda>r. mp_heap s' r \<noteq> None) (mp_records s)"
    using assms(2) by (simp_all add: same_entries_def)
  have "p \<in> pos ` set (mp_records s')" if p: "p < length d" "d ! p \<noteq> None" for p
  proof -
    obtain r where r: "r \<in> set (mp_records s)" "p = pos r" using assms(1) p by (auto simp: data_rel_def)
    then have "core (mp_heap s') r \<noteq> None" using assms(1) p core by (auto simp: data_rel_def)
    then show ?thesis using dom_core_records [OF assms(3)] r by auto
  qed
  then show ?thesis using assms(1) recs by (auto simp: data_rel_def core sorted_wrt_map sorted_wrt_filter)
qed

lemma released_same: "released s s' \<Longrightarrow> same_entries s s'"
  by (simp add: released_def same_entries_def)

lemma data_relD:
  assumes "data_rel pos rs c d"
  shows "sorted_wrt (<) (map pos rs)" "\<And>r. r \<in> set rs \<Longrightarrow> pos r < length d" "\<And>r. r \<in> set rs \<Longrightarrow> d ! pos r = c r"
    "\<And>p. p < length d \<Longrightarrow> d ! p \<noteq> None \<Longrightarrow> \<exists>r\<in>set rs. p = pos r"
  using assms by (auto simp: data_rel_def image_iff)

lemma data_relI:
  assumes "sorted_wrt (<) (map pos rs)" "\<And>r. r \<in> set rs \<Longrightarrow> pos r < length d" "\<And>r. r \<in> set rs \<Longrightarrow> d ! pos r = c r"
    "\<And>p. p < length d \<Longrightarrow> d ! p \<noteq> None \<Longrightarrow> \<exists>r\<in>set rs. p = pos r"
  shows "data_rel pos rs c d"
  unfolding data_rel_def image_iff using assms by blast

lemma data_rel_update:
  assumes "data_rel pos rs c d" "r \<in> set rs"
  shows "data_rel pos rs (c(r := x)) (d[pos r := x])"
proof -
  note D = data_relD [OF assms(1)]
  have inj: "pos q = pos r \<Longrightarrow> q = r" if "q \<in> set rs" for q
    using sorted_map_inj [OF D(1)] assms(2) that by (auto dest: inj_onD)
  show ?thesis
  proof (rule data_relI [OF D(1)])
    show "d[pos r := x] ! pos q = (c(r := x)) q" if "q \<in> set rs" for q
      using D(2,3) [OF that] inj [OF that] by (cases "pos q = pos r") auto
    show "\<exists>q\<in>set rs. p = pos q" if "p < length (d[pos r := x])" "d[pos r := x] ! p \<noteq> None" for p
      using that assms(2) D(4) [of p] by (cases "p = pos r") auto
  qed (use D(2) in simp)
qed

lemma data_rel_filter:
  assumes "data_rel pos rs c d" "\<And>r. r \<in> set rs \<Longrightarrow> c r \<noteq> None \<Longrightarrow> P r"
  shows "data_rel pos (filter P rs) c d"
proof -
  note D = data_relD [OF assms(1)]
  show ?thesis
  proof (rule data_relI)
    show "sorted_wrt (<) (map pos (filter P rs))" using D(1) by (simp add: sorted_wrt_map sorted_wrt_filter)
    show "\<exists>r\<in>set (filter P rs). p = pos r" if "p < length d" "d ! p \<noteq> None" for p
      using D(4) [OF that] that(2) D(3) assms(2) by fastforce
  qed (use D in auto)
qed

lemma data_rel_append:
  assumes "data_rel pos rs c d" "r \<notin> set rs"
  shows "data_rel (pos(r := length d)) (rs @ [r]) (c(r := x)) (d @ [x])"
proof -
  let ?pos = "pos(r := length d)"
  note D = data_relD [OF assms(1)]
  have pos: "?pos q = pos q" if "q \<in> set rs" for q using assms(2) that by auto
  then have map: "map ?pos rs = map pos rs" by (intro map_cong) auto
  show ?thesis
  proof (rule data_relI)
    show "sorted_wrt (<) (map ?pos (rs @ [r]))" unfolding map_append map using D(1,2) by (simp add: sorted_wrt_append)
    show "?pos q < length (d @ [x])" if "q \<in> set (rs @ [r])" for q using that D(2) [of q] by auto
    show "(d @ [x]) ! ?pos q = (c(r := x)) q" if "q \<in> set (rs @ [r])" for q
      using that assms(2) D(2,3) [of q] by (cases "q = r") (auto simp: nth_append)
    show "\<exists>q\<in>set (rs @ [r]). p = ?pos q" if p: "p < length (d @ [x])" "(d @ [x]) ! p \<noteq> None" for p
    proof (cases "p < length d")
      case True
      then obtain q where "q \<in> set rs" "p = pos q" using D(4) [of p] p by (auto simp: nth_append)
      then show ?thesis using pos by (intro bexI [of _ q]) auto
    qed (use p in simp)
  qed
qed

lemma es_rel_iters:
  "es_rel pos s E \<Longrightarrow> es_iters E i = map_option (es_iterator pos) (mp_iters s i)"
  by (simp add: es_rel_def)

lemma es_kill_rel:
  assumes "es_iters E = (\<lambda>i. map_option (es_iterator pos) (mp_iters s i))" "mp_iters s' = mp_iters s |` (- set is)"
  shows "es_iters (es_kill is E) = (\<lambda>i. map_option (es_iterator pos) (mp_iters s' i))"
  using assms by (auto simp: es_kill_def restrict_map_def fun_eq_iff)

lemma es_kill_data [simp]: "es_data (es_kill is E) = es_data E" "es_calls (es_kill is E) = es_calls E"
  by (simp_all add: es_kill_def)

text \<open>The positions of records that are held do not change when a record is added.\<close>

lemma es_iterator_upd:
  assumes "map_inv s" "mp_heap s r = None"
  shows "(\<lambda>i. map_option (es_iterator (pos(r := n))) (mp_iters s i)) = (\<lambda>i. map_option (es_iterator pos) (mp_iters s i))"
    and "map (\<lambda>q. (pos(r := n)) q + 1) (mp_locks s) = map (\<lambda>q. pos q + 1) (mp_locks s)"
proof -
  have h: "holders s r = 0" using assms refs_okD [of "mp_heap s" "holders s" r] by (simp add: map_inv_def)
  have "it_cur_record it \<noteq> Some r" if "mp_iters s i = Some it" for i it
    using holders_iter [of s i it r] that h assms(1) by (auto simp: map_inv_def)
  then have "map_option (es_iterator (pos(r := n))) (mp_iters s i) = map_option (es_iterator pos) (mp_iters s i)" for i
    by (cases "mp_iters s i") (auto simp: es_iterator_def index_of_def split: option.splits)
  then show "(\<lambda>i. map_option (es_iterator (pos(r := n))) (mp_iters s i)) = (\<lambda>i. map_option (es_iterator pos) (mp_iters s i))"
    by blast
  have "r \<notin> set (mp_locks s)" using holders_lock h by fastforce
  then show "map (\<lambda>q. (pos(r := n)) q + 1) (mp_locks s) = map (\<lambda>q. pos q + 1) (mp_locks s)" by auto
qed

lemma map_key_normalize: "proper_key v \<Longrightarrow> map_key (map_normalize_key v)"
  by (rule map_normalize_key_ok) (auto simp: proper_key_def)

lemma map_find_inv:
  assumes "map_inv s" "proper_key arg0"
  obtains "map_find_record s (map_normalize_key arg0) = Some None" "\<And>r. \<not> has_key (core (mp_heap s)) (map_normalize_key arg0) r"
  | r k v where "map_find_record s (map_normalize_key arg0) = Some (Some r)" "core (mp_heap s) r = Some (k, v)"
    "has_key (core (mp_heap s)) (map_normalize_key arg0) r"
  using map_find_record_ok [of s "map_normalize_key arg0"] map_key_normalize [OF assms(2)] assms(1)
  by (metis has_key_def map_inv_def)

lemma js_map_set_sim:
  assumes inv: "map_inv s" and rel: "es_rel pos s E" and ok: "op_ok s (OpSet arg0 arg1 mem slack dead)"
  obtains (failed) "js_map_set is_set arg0 arg1 mem slack dead s = Some (RException, s)" "mem = None"
      "es_exec is_set (OpSet arg0 arg1 mem slack dead) E = (RException, E)"
  | (done_) pos' s' where "js_map_set is_set arg0 arg1 mem slack dead s = Some (RThis, s')" "map_inv s'"
      "fst (es_exec is_set (OpSet arg0 arg1 mem slack dead) E) = RThis"
      "es_rel pos' s' (snd (es_exec is_set (OpSet arg0 arg1 mem slack dead) E))"
proof -
  let ?key = "map_normalize_key arg0" and ?val = "if is_set then VUndefined else arg1"
  have proper: "proper_key arg0" and alloc: "alloc_ok s mem slack" and free: "free_ok s dead" using ok by simp_all
  have data: "data_rel pos (mp_records s) (core (mp_heap s)) (es_data E)"
    and iters: "es_iters E = (\<lambda>i. map_option (es_iterator pos) (mp_iters s i))"
    and calls: "es_calls E = map (\<lambda>r. pos r + 1) (mp_locks s)" using rel by (simp_all add: es_rel_def)
  show ?thesis
  proof (rule map_find_inv [OF inv proper])
    assume none: "map_find_record s ?key = Some None" "\<And>r. \<not> has_key (core (mp_heap s)) ?key r"
    show ?thesis
    proof (cases mem)
      case None
      then show ?thesis using failed none(1) es_lookup_ok(2) [OF inv data none(2)] by (simp add: js_map_set_def map_add_record_def)
    next
      case (Some r)
      obtain s1 where s1: "map_add_record s ?key (Some r) slack = Some (Some r, s1)" "map_inv s1"
        "mp_heap s1 = (mp_heap s)(r \<mapsto> new_record ?key)" "mp_records s1 = mp_records s @ [r]"
        "mp_iters s1 = mp_iters s" "mp_locks s1 = mp_locks s"
        using map_add_record_ok [OF inv map_key_normalize [OF proper] none(2)] alloc Some by metis
      define mr where "mr = (new_record ?key)\<lparr>mr_value := ?val\<rparr>"
      define s' where "s' = s1\<lparr>mp_heap := (mp_heap s1)(r \<mapsto> mr)\<rparr>"
      have new: "mp_heap s r = None" "r \<notin> set (mp_records s)"
        using alloc Some inv by (auto simp: alloc_ok_def map_inv_def list_ok_def)
      have run: "js_map_set is_set arg0 arg1 mem slack dead s = Some (RThis, s')"
        unfolding js_map_set_def Let_def none(1) bind.bind_lunit option.case Some s1(1) prod.case
        by (simp add: s'_def mr_def s1(3))
      have inv': "map_inv s'" unfolding s'_def mr_def
        by (rule map_set_value_ok [OF s1(2)]) (simp_all add: s1(3) new_record_def)
      have core': "core (mp_heap s') = (core (mp_heap s))(r := Some (?key, ?val))"
        by (simp add: s'_def s1(3) mr_def new_record_def)
      have exec: "es_exec is_set (OpSet arg0 arg1 mem slack dead) E = (RThis, E\<lparr>es_data := es_data E @ [Some (?key, ?val)]\<rparr>)"
        using es_lookup_ok(2) [OF inv data none(2)] Some by simp
      have "es_rel (pos(r := length (es_data E))) s' (E\<lparr>es_data := es_data E @ [Some (?key, ?val)]\<rparr>)"
        unfolding es_rel_def core'
        using data_rel_append [OF data new(2), of "Some (?key, ?val)"] es_iterator_upd [OF inv new(1)] iters calls s1(4-6)
        by (simp add: s'_def)
      then show ?thesis using done_ [OF run inv'] exec by simp
    qed
  next
    fix r k v
    assume r: "map_find_record s ?key = Some (Some r)" "core (mp_heap s) r = Some (k, v)" "has_key (core (mp_heap s)) ?key r"
    obtain s1 where s1: "free_value dead s = Some s1" "map_inv s1" "released s s1" "mp_iters s1 = mp_iters s |` (- set dead)"
      using free_value_inv [OF inv free] .
    have core1: "core (mp_heap s1) = core (mp_heap s)" "mp_locks s1 = mp_locks s" using s1(3) by (simp_all add: released_def)
    obtain mr where mr: "mp_heap s1 r = Some mr" "\<not> mr_empty mr" "k = mr_key mr"
      using core_SomeD [of "mp_heap s1" r] r(2) core1(1) by auto
    define s' where "s' = s1\<lparr>mp_heap := (mp_heap s1)(r \<mapsto> mr\<lparr>mr_value := ?val\<rparr>)\<rparr>"
    have run: "js_map_set is_set arg0 arg1 mem slack dead s = Some (RThis, s')"
      unfolding js_map_set_def Let_def r(1) bind.bind_lunit option.case s1(1) prod.case mr(1) by (simp add: s'_def)
    have inv': "map_inv s'" unfolding s'_def by (rule map_set_value_ok [OF s1(2) mr(1,2)])
    have core': "core (mp_heap s') = (core (mp_heap s1))(r := Some (k, ?val))" using mr(2,3) by (simp add: s'_def)
    have on: "r \<in> set (mp_records s1)" using dom_core_records [OF s1(2), of r] r(2) core1 by simp
    have data1: "data_rel pos (mp_records s1) (core (mp_heap s1)) (es_data E)"
      by (rule data_rel_same [OF data released_same [OF s1(3)] s1(2)])
    have "es_data E ! pos r = Some (k, v)" using data1 on r(2) core1 by (simp add: data_rel_def)
    then have exec: "es_exec is_set (OpSet arg0 arg1 mem slack dead) E
        = (RThis, es_kill dead (E\<lparr>es_data := (es_data E)[pos r := Some (k, ?val)]\<rparr>))"
      using es_lookup_ok(1) [OF inv data r(3)] by simp
    have "es_rel pos s' (es_kill dead (E\<lparr>es_data := (es_data E)[pos r := Some (k, ?val)]\<rparr>))"
      unfolding es_rel_def core' es_kill_data
      using data_rel_update [OF data1 on, of "Some (k, ?val)"] es_kill_rel [of _ pos s s' dead] iters s1(4) calls core1(2)
      by (simp add: s'_def)
    then show ?thesis using done_ [OF run inv'] exec by simp
  qed
qed

text \<open>What one operation does to both sides.\<close>

definition simulates :: "bool \<Rightarrow> map_op \<Rightarrow> js_map \<Rightarrow> es_map \<Rightarrow> map_result \<Rightarrow> js_map \<Rightarrow> bool" where
  "simulates is_set op s E res s' = (map_exec is_set op s = Some (res, s') \<and> map_inv s'
     \<and> fst (es_exec is_set op E) = res \<and> (\<exists>pos'. es_rel pos' s' (snd (es_exec is_set op E))))"

lemma es_relD:
  assumes "es_rel pos s E"
  shows "data_rel pos (mp_records s) (core (mp_heap s)) (es_data E)"
    "es_iters E = (\<lambda>i. map_option (es_iterator pos) (mp_iters s i))" "es_calls E = map (\<lambda>r. pos r + 1) (mp_locks s)"
  using assms by (simp_all add: es_rel_def)

lemma delete_sim:
  assumes inv: "map_inv s" and rel: "es_rel pos s E" and ok: "op_ok s (OpDelete arg0 dead1 dead2)"
  shows "\<exists>res s'. simulates is_set (OpDelete arg0 dead1 dead2) s E res s'"
proof -
  note E = es_relD [OF rel]
  have proper: "proper_key arg0" and free: "free_ok s (dead1 @ dead2)" using ok by simp_all
  show ?thesis
  proof (rule map_find_inv [OF inv proper])
    assume none: "map_find_record s (map_normalize_key arg0) = Some None"
      "\<And>r. \<not> has_key (core (mp_heap s)) (map_normalize_key arg0) r"
    have "simulates is_set (OpDelete arg0 dead1 dead2) s E (RBool False) s"
      using none(1) es_lookup_ok(2) [OF inv E(1) none(2)] inv rel by (auto simp: simulates_def js_map_delete_def)
    then show ?thesis by blast
  next
    fix r k v
    assume r: "map_find_record s (map_normalize_key arg0) = Some (Some r)" "core (mp_heap s) r = Some (k, v)"
      "has_key (core (mp_heap s)) (map_normalize_key arg0) r"
    obtain s' where s': "map_delete_record s r dead1 dead2 = Some s'" "map_inv s'"
      "core (mp_heap s') = (core (mp_heap s))(r := None)" "mp_records s' = filter (\<lambda>q. mp_heap s' q \<noteq> None) (mp_records s)"
      "mp_iters s' = mp_iters s |` (- set (dead1 @ dead2))" "mp_locks s' = mp_locks s"
      using map_delete_record_ok [OF inv r(2) free] by metis
    have on: "r \<in> set (mp_records s)" using dom_core_records [OF inv r(2)] .
    have "data_rel pos (mp_records s') (core (mp_heap s')) ((es_data E)[pos r := None])"
      unfolding s'(4) using data_rel_update [OF E(1) on, of None] unfolding s'(3) [symmetric]
      by (rule data_rel_filter) (auto dest: core_SomeD)
    then have "es_rel pos s' (es_kill (dead1 @ dead2) (E\<lparr>es_data := (es_data E)[pos r := None]\<rparr>))"
      unfolding es_rel_def es_kill_data using es_kill_rel [OF _ s'(5)] E(2,3) s'(6) by simp
    then have "simulates is_set (OpDelete arg0 dead1 dead2) s E (RBool True) s'"
      using r(1) s'(1,2) es_lookup_ok(1) [OF inv E(1) r(3)] by (auto simp: simulates_def js_map_delete_def)
    then show ?thesis by blast
  qed
qed

lemma read_sim:
  assumes inv: "map_inv s" and rel: "es_rel pos s E" and ok: "proper_key arg0"
  shows "\<exists>res s'. simulates is_set (OpGet arg0) s E res s'" "\<exists>res s'. simulates is_set (OpHas arg0) s E res s'"
proof -
  note E = es_relD [OF rel]
  have "(\<exists>res s'. simulates is_set (OpGet arg0) s E res s') \<and> (\<exists>res s'. simulates is_set (OpHas arg0) s E res s')"
  proof (rule map_find_inv [OF inv ok])
    assume none: "map_find_record s (map_normalize_key arg0) = Some None"
      "\<And>r. \<not> has_key (core (mp_heap s)) (map_normalize_key arg0) r"
    have "simulates is_set (OpGet arg0) s E RUndefined s" "simulates is_set (OpHas arg0) s E (RBool False) s"
      using none(1) es_lookup_ok(2) [OF inv E(1) none(2)] inv rel by (auto simp: simulates_def js_map_get_def js_map_has_def)
    then show ?thesis by blast
  next
    fix r k v
    assume r: "map_find_record s (map_normalize_key arg0) = Some (Some r)" "core (mp_heap s) r = Some (k, v)"
      "has_key (core (mp_heap s)) (map_normalize_key arg0) r"
    obtain mr where mr: "mp_heap s r = Some mr" "mr_value mr = v" using core_SomeD [OF r(2)] by auto
    have "es_data E ! pos r = Some (k, v)" using data_relD(3) [OF E(1) dom_core_records [OF inv r(2)]] r(2) by simp
    then have "simulates is_set (OpGet arg0) s E (RValue v) s" "simulates is_set (OpHas arg0) s E (RBool True) s"
      using r(1) mr es_lookup_ok(1) [OF inv E(1) r(3)] inv rel by (auto simp: simulates_def js_map_get_def js_map_has_def)
    then show ?thesis by blast
  qed
  then show "\<exists>res s'. simulates is_set (OpGet arg0) s E res s'" "\<exists>res s'. simulates is_set (OpHas arg0) s E res s'" by simp_all
qed

text \<open>The list of dying iterators of a \<^verbatim>\<open>clear\<close>, entry by entry.\<close>

lemma dying_of: "distinct (map fst ds) \<Longrightarrow> (r, a, b) \<in> set ds \<Longrightarrow> dying (drops_of ds) r = a @ b"
  by (simp add: dying_def drops_of_def)

lemma dying_not: "r \<notin> set (map fst ds) \<Longrightarrow> dying (drops_of ds) r = []"
  by (induction ds) (auto simp: dying_def drops_of_def)

lemma dying_Cons: "dying (drops_of ((q, a, b) # ds)) r = (if r = q then a @ b else dying (drops_of ds) r)"
  by (simp add: dying_def drops_of_def)

lemma dying_in_Cons: "dying_in ((q, a, b) # ds) = (a @ b) @ dying_in ds"
  by (simp add: dying_in_def)

lemma dying_lists:
  assumes "distinct (map fst ds)" "distinct (dying_in ds)"
  shows "distinct (dying (drops_of ds) r) \<and> set (dying (drops_of ds) r) \<subseteq> set (dying_in ds)
    \<and> (r \<noteq> q \<longrightarrow> set (dying (drops_of ds) r) \<inter> set (dying (drops_of ds) q) = {})"
  using assms
proof (induction ds)
  case Nil
  then show ?case by (simp add: dying_def drops_of_def)
next
  case (Cons d ds)
  obtain p a b where d: "d = (p, a, b)" by (cases d) auto
  have set_in: "set (dying (drops_of ds) x) \<subseteq> set (dying_in ds)" for x
    by (induction ds) (auto simp: dying_def drops_of_def dying_in_def split: if_splits)
  have parts: "distinct (a @ b)" "distinct (dying_in ds)" "set (a @ b) \<inter> set (dying_in ds) = {}"
    using Cons.prems(2) unfolding d dying_in_Cons distinct_append by blast+
  have IH: "distinct (dying (drops_of ds) r)" "r \<noteq> q \<longrightarrow> set (dying (drops_of ds) r) \<inter> set (dying (drops_of ds) q) = {}"
    using Cons.IH Cons.prems(1) parts(2) by simp_all
  have "set (dying (drops_of (d # ds)) r) \<subseteq> set (dying_in (d # ds))"
    using set_in [of r] unfolding d dying_Cons dying_in_Cons by auto
  moreover have "distinct (dying (drops_of (d # ds)) r)" using parts(1) IH(1) unfolding d dying_Cons by simp
  moreover have "set (dying (drops_of (d # ds)) r) \<inter> set (dying (drops_of (d # ds)) q) = {}" if "r \<noteq> q"
    using that IH(2) parts(3) set_in [of r] set_in [of q] unfolding d dying_Cons by (cases "r = p"; cases "q = p") auto
  ultimately show ?case by blast
qed

lemma drops_of_ok:
  assumes inv: "map_inv s" and ok: "op_ok s (OpClear ds)"
  shows "drops_ok s (drops_of ds) (mp_records s)" "all_dying (drops_of ds) (mp_records s) = set (dying_in ds)"
proof -
  have keys: "distinct (map fst ds)" "\<And>r. r \<in> set (map fst ds) \<Longrightarrow> core (mp_heap s) r \<noteq> None"
    and free: "distinct (dying_in ds)" "set (dying_in ds) \<subseteq> dom (mp_iters s)" using ok by (auto simp: free_ok_def)
  note lists = dying_lists [OF keys(1) free(1)]
  show "drops_ok s (drops_of ds) (mp_records s)"
    unfolding drops_ok_def free_ok_def using lists free(2) keys(2) dying_not by blast
  show "all_dying (drops_of ds) (mp_records s) = set (dying_in ds)"
  proof
    show "all_dying (drops_of ds) (mp_records s) \<subseteq> set (dying_in ds)" unfolding all_dying_def using lists by blast
    show "set (dying_in ds) \<subseteq> all_dying (drops_of ds) (mp_records s)"
    proof
      fix i
      assume "i \<in> set (dying_in ds)"
      then obtain r a b where d: "(r, a, b) \<in> set ds" "i \<in> set (a @ b)" by (auto simp: dying_in_def)
      then have "r \<in> set (map fst ds)" by force
      then obtain k v where "core (mp_heap s) r = Some (k, v)" using keys(2) by fastforce
      then have "r \<in> set (mp_records s)" using dom_core_records [OF inv] by blast
      then show "i \<in> all_dying (drops_of ds) (mp_records s)"
        using d(2) dying_of [OF keys(1) d(1)] unfolding all_dying_def by (intro UN_I [of r]) simp_all
    qed
  qed
qed

lemma clear_sim:
  assumes inv: "map_inv s" and rel: "es_rel pos s E" and ok: "op_ok s (OpClear ds)"
  obtains (dangling) "dangling s (OpClear ds)" "map_exec is_set (OpClear ds) s = None"
  | (step) res s' where "\<not> dangling s (OpClear ds)" "simulates is_set (OpClear ds) s E res s'"
proof -
  note E = es_relD [OF rel]
  let ?drops = "drops_of ds"
  have "els_from s (el_first s) = Some (mp_records s)"
    using els_from_suffix [of s "[]"] inv by (simp add: el_first_def map_inv_def list_ok_def)
  note run = clear_loop_ok [OF inv this order_refl drops_of_ok(1) [OF inv ok]]
  show ?thesis
  proof (cases "dangling s (OpClear ds)")
    case True
    then have "map_exec is_set (OpClear ds) s = None" using run by (simp add: js_map_clear_def)
    then show ?thesis using dangling True by blast
  next
    case False
    then obtain s' where s': "clear_loop ?drops (length (mp_records s)) (el_first s) s = Some s'" "map_inv s'"
      "core (mp_heap s') = (core (mp_heap s)) |` (- set (mp_records s))"
      "mp_records s' = filter (\<lambda>r. mp_heap s' r \<noteq> None) (mp_records s)"
      "mp_iters s' = mp_iters s |` (- set (dying_in ds))" "mp_locks s' = mp_locks s"
      using run drops_of_ok(2) [OF inv ok] by auto
    have empty: "core (mp_heap s') = Map.empty"
    proof
      fix r
      show "core (mp_heap s') r = None"
        unfolding s'(3) using dom_core_records [OF inv, of r] by (cases "core (mp_heap s) r") (auto simp: restrict_map_def)
    qed
    have "data_rel pos (mp_records s') (core (mp_heap s')) (map (\<lambda>_. None) (es_data E))"
      using E(1) unfolding s'(4) empty data_rel_def by (auto simp: sorted_wrt_map sorted_wrt_filter)
    then have "es_rel pos s' (es_kill (dying_in ds) (E\<lparr>es_data := map (\<lambda>_. None) (es_data E)\<rparr>))"
      unfolding es_rel_def es_kill_data using es_kill_rel [OF _ s'(5)] E(2,3) s'(6) by simp
    then have "simulates is_set (OpClear ds) s E RUndefined s'" using s'(1,2) by (auto simp: simulates_def js_map_clear_def)
    then show ?thesis using step False by blast
  qed
qed

lemma size_sim:
  assumes inv: "map_inv s" and rel: "es_rel pos s E"
  shows "\<exists>res s'. simulates is_set OpSize s E res s'"
proof -
  note E = es_relD [OF rel] 
  note D = data_relD [OF E(1)]
  let ?d = "es_data E" and ?c = "core (mp_heap s)"
  have "{p. p < length ?d \<and> ?d ! p \<noteq> None} = pos ` dom ?c"
  proof (intro set_eqI iffI)
    fix p
    assume "p \<in> {p. p < length ?d \<and> ?d ! p \<noteq> None}"
    then show "p \<in> pos ` dom ?c" using D(3) D(4) [of p] by (auto simp: image_iff intro!: bexI)
  next
    fix p
    assume "p \<in> pos ` dom ?c"
    then obtain r e where r: "p = pos r" "?c r = Some e" by auto
    then show "p \<in> {p. p < length ?d \<and> ?d ! p \<noteq> None}"
      using D(2,3) [OF dom_core_records [OF inv r(2)]] by simp
  qed
  moreover have "inj_on pos (dom ?c)"
    by (rule inj_on_subset [OF sorted_map_inj [OF D(1)]]) (use dom_core_records [OF inv] in auto)
  ultimately have "length (filter (\<lambda>e. e \<noteq> None) ?d) = card (dom ?c)" by (simp add: length_filter_conv_card card_image)
  moreover have "of_nat (unat (mp_record_count s)) = mp_record_count s" by simp
  ultimately have "RSize (of_nat (length (filter (\<lambda>e. e \<noteq> None) ?d))) = js_map_get_size s"
    using inv by (simp only: js_map_get_size_def map_inv_def)
  then have "simulates is_set OpSize s E (js_map_get_size s) s" using inv rel by (auto simp: simulates_def)
  then show ?thesis by blast
qed

lemma iter_sim:
  assumes inv: "map_inv s" and rel: "es_rel pos s E" and fresh: "mp_iters s i = None"
  shows "\<exists>res s'. simulates is_set (OpIter kind i obj_ok data_ok) s E res s'"
proof (cases "obj_ok \<and> data_ok")
  case False
  then have "simulates is_set (OpIter kind i obj_ok data_ok) s E RException s"
    using inv rel by (auto simp: simulates_def js_create_map_iterator_def)
  then show ?thesis by blast
next
  case True
  note E = es_relD [OF rel]
  define it where "it = \<lparr>it_obj = True, it_kind = kind, it_cur_record = None\<rparr>"
  define s' where "s' = s\<lparr>mp_iters := (mp_iters s)(i \<mapsto> it)\<rparr>"
  have parts: "list_ok s" "refs_ok (mp_heap s) (holders s)" "iters_ok s" using inv by (simp_all add: map_inv_def)
  have "holders s' = holders s"
    using holders_upd [of s s' i "Some it"] parts(3) fresh
    by (auto simp: s'_def iters_ok_def holds_def it_def fun_eq_iff)
  moreover have "iters_ok s'" using iters_ok_upd [OF parts(3), of s' i "Some it"] by (simp add: s'_def it_def)
  ultimately have "map_inv s'" using map_inv_same [OF inv, of s'] parts by (simp add: s'_def list_ok_def)
  moreover have "es_rel pos s' (E\<lparr>es_iters := (es_iters E)(i \<mapsto> (kind, Some 0))\<rparr>)"
    using E by (auto simp: es_rel_def s'_def it_def es_iterator_def index_of_def)
  ultimately have "simulates is_set (OpIter kind i obj_ok data_ok) s E (RIterator i) s'"
    using True by (auto simp: simulates_def js_create_map_iterator_def s'_def it_def)
  then show ?thesis by blast
qed

lemma free_sim:
  assumes inv: "map_inv s" and rel: "es_rel pos s E" and i: "mp_iters s i \<noteq> None"
  shows "\<exists>res s'. simulates is_set (OpFree i) s E res s'"
proof -
  note E = es_relD [OF rel]
  have "free_ok s [i]" using i by (auto simp: free_ok_def)
  then obtain s' where s': "free_value [i] s = Some s'" "map_inv s'" "released s s'" "mp_iters s' = mp_iters s |` (- set [i])"
    using free_value_inv [OF inv] by metis
  have "es_rel pos s' (es_kill [i] E)"
    unfolding es_rel_def es_kill_data
    using data_rel_same [OF E(1) released_same [OF s'(3)] s'(2)] es_kill_rel [OF E(2) s'(4)] E(3) s'(3)
    by (simp add: released_def)
  moreover have "map_exec is_set (OpFree i) s = Some (RUndefined, s')" using s'(1) by (simp add: bind_eq_Some_conv)
  ultimately have "simulates is_set (OpFree i) s E RUndefined s'" using s'(2) by (auto simp: simulates_def)
  then show ?thesis by blast
qed

lemma held_on_list:
  assumes "map_inv s" "0 < holders s r"
  shows "r \<in> set (mp_records s)"
  using assms refs_ok_dom [of "mp_heap s" "holders s" r] by (auto simp: map_inv_def list_ok_def)

lemma next_sim:
  assumes inv: "map_inv s" and rel: "es_rel pos s E" and i: "mp_iters s i \<noteq> None"
  shows "\<exists>res s'. simulates is_set (OpNext i array_ok) s E res s'"
proof -
  note E = es_relD [OF rel]
  obtain it where it: "mp_iters s i = Some it" using i by blast
  show ?thesis
  proof (cases "it_obj it")
    case False
    then have "simulates is_set (OpNext i array_ok) s E RDone s"
      using it inv rel E(2) by (auto simp: simulates_def js_map_iterator_next_def es_iterator_def)
    then show ?thesis by blast
  next
    case True
    let ?n = "index_of pos (it_cur_record it)"
    have entry: "es_iters E i = Some (it_kind it, Some ?n)" using E(2) it True by (simp add: es_iterator_def)
    have scan: "es_scan (es_data E) ?n = map_option pos (head_opt (live_rest s (it_cur_record it)))"
    proof (rule es_scan_ok [OF inv E(1)])
      show "r \<in> set (mp_records s)" if "it_cur_record it = Some r" for r
        using held_on_list [OF inv] holders_iter [OF _ it that] inv by (simp add: map_inv_def)
    qed
    show ?thesis
    proof (rule js_map_iterator_next_ok [OF inv it True])
      fix s'
      assume s': "js_map_iterator_next is_set i array_ok s = Some (RDone, s')" "map_inv s'" "same_entries s s'"
        "live_rest s (it_cur_record it) = []" "mp_locks s' = mp_locks s"
        "mp_iters s' = (mp_iters s)(i \<mapsto> it\<lparr>it_cur_record := None, it_obj := False\<rparr>)"
      have "es_rel pos s' (E\<lparr>es_iters := (es_iters E)(i \<mapsto> (it_kind it, None))\<rparr>)"
        using data_rel_same [OF E(1) s'(3,2)] E(2,3) s'(5,6) by (auto simp: es_rel_def es_iterator_def fun_eq_iff)
      then have "simulates is_set (OpNext i array_ok) s E RDone s'"
        using s'(1,2,4) entry scan by (auto simp: simulates_def head_opt_def)
      then show ?thesis by blast
    next
      fix r rs k v s'
      assume s': "js_map_iterator_next is_set i array_ok s = Some (iterator_value is_set (it_kind it) array_ok k v, s')" "map_inv s'"
        "same_entries s s'" "live_rest s (it_cur_record it) = r # rs" "core (mp_heap s) r = Some (k, v)"
        "mp_locks s' = mp_locks s" "mp_iters s' = (mp_iters s)(i \<mapsto> it\<lparr>it_cur_record := Some r\<rparr>)"
      have "es_data E ! pos r = Some (k, v)" using data_relD(3) [OF E(1) dom_core_records [OF inv s'(5)]] s'(5) by simp
      moreover have "es_rel pos s' (E\<lparr>es_iters := (es_iters E)(i \<mapsto> (it_kind it, Some (pos r + 1)))\<rparr>)"
        using data_rel_same [OF E(1) s'(3,2)] E(2,3) s'(6,7) True by (auto simp: es_rel_def es_iterator_def index_of_def fun_eq_iff)
      ultimately have "simulates is_set (OpNext i array_ok) s E (iterator_value is_set (it_kind it) array_ok k v) s'"
        using s'(1,2,4) entry scan by (auto simp: simulates_def head_opt_def)
      then show ?thesis by blast
    qed
  qed
qed

text \<open>Where \<^verbatim>\<open>forEach\<close> is, and what entering from there gives on both sides.\<close>

lemma enter_sim:
  assumes inv: "map_inv s" and rel: "es_rel pos s E" and els: "els_from s el = Some els" "set els \<subseteq> dom (mp_heap s)"
    and scan: "es_scan (es_data E) n = map_option pos (head_opt (filter (\<lambda>r. core (mp_heap s) r \<noteq> None) els))"
  shows "\<exists>args s' pos'. forEach_enter el s = Some (args, s') \<and> map_inv s' \<and> fst (es_enter is_set n E) = each_result is_set args
    \<and> es_rel pos' s' (snd (es_enter is_set n E))"
proof (rule forEach_enter_ok [OF inv els])
  assume "filter (\<lambda>r. core (mp_heap s) r \<noteq> None) els = []" "forEach_enter el s = Some (None, s)"
  then show ?thesis using inv rel scan by (auto simp: es_enter_def head_opt_def each_result_def)
next
  note E = es_relD [OF rel]
  fix r rs k v s'
  assume s': "filter (\<lambda>r. core (mp_heap s) r \<noteq> None) els = r # rs" "core (mp_heap s) r = Some (k, v)"
    "forEach_enter el s = Some (Some (k, v), s')" "map_inv s'" "same_entries s s'" "mp_locks s' = r # mp_locks s"
    "mp_iters s' = mp_iters s"
  have "es_data E ! pos r = Some (k, v)" using data_relD(3) [OF E(1) dom_core_records [OF inv s'(2)]] s'(2) by simp
  moreover have "es_rel pos s' (E\<lparr>es_calls := (pos r + 1) # es_calls E\<rparr>)"
    using data_rel_same [OF E(1) s'(5,4)] E(2,3) s'(6,7) by (simp add: es_rel_def)
  ultimately show ?thesis using s'(1,3,4) scan by (auto simp: es_enter_def head_opt_def)
qed

lemma scan_after:
  assumes inv: "map_inv s" and rel: "es_rel pos s E" and locks: "mp_locks s = r # ls"
    and els: "filter (\<lambda>r. core (mp_heap s') r \<noteq> None) els = live_rest s (Some r)"
  shows "es_scan (es_data E) (hd (es_calls E)) = map_option pos (head_opt (filter (\<lambda>r. core (mp_heap s') r \<noteq> None) els))"
proof -
  note E = es_relD [OF rel]
  have "r \<in> set (mp_records s)" by (rule held_on_list [OF inv holders_lock]) (simp add: locks)
  then have "es_scan (es_data E) (index_of pos (Some r)) = map_option pos (head_opt (live_rest s (Some r)))"
    using es_scan_ok [OF inv E(1), of "Some r"] by blast
  then show ?thesis using E(3) locks els by (simp add: index_of_def)
qed

lemma leave_rel:
  assumes rel: "es_rel pos s E" and s': "map_inv s'" "same_entries s s'" "mp_locks s' = tl (mp_locks s)"
    "mp_iters s' = mp_iters s |` (- set dead)"
  shows "es_rel pos s' (es_kill dead (E\<lparr>es_calls := tl (es_calls E)\<rparr>))"
  unfolding es_rel_def es_kill_data
  using data_rel_same [OF _ s'(2,1)] es_kill_rel [OF _ s'(4)] es_relD [OF rel] s'(3) by (simp add: map_tl)

lemma each_next_sim:
  assumes inv: "map_inv s" and rel: "es_rel pos s E" and ok: "op_ok s (OpEachNext dead ret)"
  obtains (dangling) "dangling s (OpEachNext dead ret)" "map_exec is_set (OpEachNext dead ret) s = None"
  | (step) res s' where "\<not> dangling s (OpEachNext dead ret)" "simulates is_set (OpEachNext dead ret) s E res s'"
proof -
  obtain r ls where locks: "mp_locks s = r # ls" using ok by (cases "mp_locks s") auto
  have free: "free_ok s (dead @ ret)" using ok by simp
  show ?thesis
  proof (rule forEach_return_ok [OF inv locks free])
    fix el t u
    assume "forEach_dangles s dead ret" "forEach_leave dead s = Some (el, t)" "free_value ret t = Some u" "els_from u el = None"
    then show ?thesis using dangling by (simp add: forEach_enter_def)
  next
    fix el t u els
    assume u: "\<not> forEach_dangles s dead ret" "forEach_leave dead s = Some (el, t)" "free_value ret t = Some u" "map_inv u"
      "same_entries s u" "mp_locks u = ls" "mp_iters u = mp_iters s |` (- set (dead @ ret))" "els_from u el = Some els"
      "set els \<subseteq> dom (mp_heap u)" "filter (\<lambda>r. core (mp_heap u) r \<noteq> None) els = live_rest s (Some r)"
    let ?E = "es_kill (dead @ ret) (E\<lparr>es_calls := tl (es_calls E)\<rparr>)"
    have "es_rel pos u ?E" using leave_rel [OF rel u(4,5) _ u(7)] u(6) locks by simp
    from enter_sim [OF u(4) this u(8,9), of "hd (es_calls E)" is_set] scan_after [OF inv rel locks u(10)]
    obtain args s' pos' where "forEach_enter el u = Some (args, s')" "map_inv s'"
      "fst (es_enter is_set (hd (es_calls E)) ?E) = each_result is_set args" "es_rel pos' s' (snd (es_enter is_set (hd (es_calls E)) ?E))"
      by auto
    then have "simulates is_set (OpEachNext dead ret) s E (each_result is_set args) s'"
      using u(2,3) by (auto simp: simulates_def)
    then show ?thesis using step u(1) by simp
  qed
qed

lemma each_throw_ok:
  assumes inv: "map_inv s" and ok: "op_ok s (OpEachThrow dead)"
  obtains s' where "map_exec is_set (OpEachThrow dead) s = Some (RException, s')" "map_inv s'" "same_entries s s'"
    "mp_locks s' = tl (mp_locks s)" "mp_iters s' = mp_iters s |` (- set dead)"
proof -
  obtain r ls where locks: "mp_locks s = r # ls" using ok by (cases "mp_locks s") auto
  have "free_ok s dead" using ok by simp
  from forEach_leave_ok [OF inv locks this] that show ?thesis by (metis bind.bind_lunit list.sel(3) locks map_exec.simps(12) case_prod_conv)
qed

theorem map_exec_sim:
  assumes inv: "map_inv s" and rel: "es_rel pos s E" and ok: "op_ok s op"
  obtains (dangling) "dangling s op" "map_exec is_set op s = None"
  | (step) res s' where "\<not> dangling s op" "simulates is_set op s E res s'"
proof -
  have "dangling s op \<and> map_exec is_set op s = None \<or> \<not> dangling s op \<and> (\<exists>res s'. simulates is_set op s E res s')"
  proof (cases op)
    case (OpSet key v mem slack dead)
    then have "op_ok s (OpSet key v mem slack dead)" using ok by simp
    then show ?thesis
      by (rule js_map_set_sim [OF inv rel, of _ _ _ _ _ is_set]) (use inv rel in \<open>auto simp: OpSet simulates_def\<close>)
  next
    case (OpGet key)
    then show ?thesis using read_sim(1) [OF inv rel] ok by simp
  next
    case (OpHas key)
    then show ?thesis using read_sim(2) [OF inv rel] ok by simp
  next
    case (OpDelete key dead1 dead2)
    then show ?thesis using delete_sim [OF inv rel] ok by simp
  next
    case (OpClear ds)
    then show ?thesis using clear_sim [OF inv rel, of ds is_set] ok by metis
  next
    case OpSize
    then show ?thesis using size_sim [OF inv rel] by simp
  next
    case (OpIter kind i obj_ok data_ok)
    then show ?thesis using iter_sim [OF inv rel] ok by simp
  next
    case (OpNext i array_ok)
    then show ?thesis using next_sim [OF inv rel] ok by simp
  next
    case (OpFree i)
    then show ?thesis using free_sim [OF inv rel] ok by simp
  next
    case OpEach
    have "els_from s (el_first s) = Some (mp_records s)" "set (mp_records s) \<subseteq> dom (mp_heap s)"
      using els_from_suffix [of s "[]"] inv by (simp_all add: el_first_def map_inv_def list_ok_def)
    moreover have "es_scan (es_data E) 0 = map_option pos (head_opt (filter (\<lambda>r. core (mp_heap s) r \<noteq> None) (mp_records s)))"
      using es_scan_ok [OF inv es_relD(1) [OF rel], of None] by (simp add: index_of_def live_rest_def rest_of_def)
    ultimately show ?thesis using enter_sim [OF inv rel, of "el_first s" "mp_records s" 0 is_set]
      by (fastforce simp: OpEach simulates_def)
  next
    case (OpEachNext dead ret)
    then show ?thesis using each_next_sim [OF inv rel, of dead ret is_set] ok by metis
  next
    case (OpEachThrow dead)
    then have "op_ok s (OpEachThrow dead)" using ok by simp
    from each_throw_ok [OF inv this, of is_set] obtain s' where s': "map_exec is_set (OpEachThrow dead) s = Some (RException, s')"
      "map_inv s'" "same_entries s s'" "mp_locks s' = tl (mp_locks s)" "mp_iters s' = mp_iters s |` (- set dead)" .
    then have "simulates is_set op s E RException s'"
      using leave_rel [OF rel s'(2-5)] by (auto simp: OpEachThrow simulates_def)
    then show ?thesis by (auto simp: OpEachThrow)
  qed
  then show ?thesis using that by blast
qed

section \<open>Runs\<close>

lemma map_inv_new: "map_inv js_map_new"
proof -
  have "core Map.empty = Map.empty" by (simp add: core_def fun_eq_iff)
  then show ?thesis
    by (auto simp: map_inv_def js_map_new_def list_ok_def refs_ok_def holders_def holds_def iters_ok_def table_ok_def keys_ok_def)
qed

lemma es_step_exec: "es_step is_set op (rs, E) = (rs @ [fst (es_exec is_set op E)], snd (es_exec is_set op E))"
  by (simp add: es_step_def Let_def split: prod.splits)

lemma es_rel_new: "es_rel pos js_map_new es_new"
  by (simp add: es_rel_def js_map_new_def es_new_def data_rel_def)

lemma map_trace_sim:
  "map_trace is_set tr s \<Longrightarrow> map_inv s \<and> (\<exists>pos E. es_rel pos s E \<and> fold (es_step is_set) (map fst tr) ([], es_new) = (map snd tr, E))"
proof (induction rule: map_trace.induct)
  case trace_new
  then show ?case using map_inv_new es_rel_new by auto
next
  case (trace_step tr s op res s')
  then obtain pos E where E: "map_inv s" "es_rel pos s E" "fold (es_step is_set) (map fst tr) ([], es_new) = (map snd tr, E)" by blast
  show ?case
  proof (rule map_exec_sim [OF E(1,2) trace_step.hyps(2), of is_set])
    assume "map_exec is_set op s = None"
    then show ?thesis using trace_step.hyps(3) by simp
  next
    fix res' t
    assume t: "simulates is_set op s E res' t"
    then have "res' = res" "t = s'" using trace_step.hyps(3) by (auto simp: simulates_def)
    then show ?thesis using t E(3) by (auto simp: simulates_def es_step_exec)
  qed
qed

end
