(* ===== verification/MapProps.thy ===== *)
theory MapProps
  imports MapSpec
begin

text \<open>
  What the hash table of \<^theory_text>\<open>MapSet\<close> guarantees to scripts: its invariant, the agreement with
  ECMAScript, the effect of an exception, the order of \<^verbatim>\<open>forEach\<close>, and when exactly the freeing of a value
  leaves the C code with a dangling record; with two runs that get there.
\<close>

section \<open>forEach\<close>

lemma rest_of_suffix:
  assumes "mp_records s = xs @ as @ r # bs" "distinct (mp_records s)"
  shows "rest_of s (Some r) = bs"
  using dropWhile_neq [of r "xs @ as" bs] assms by (simp add: rest_of_def)

lemma forEach_loop_visits:
  assumes "map_inv s" "els_from s el = Some els" "set els \<subseteq> dom (mp_heap s)"
    "filter (\<lambda>r. core (mp_heap s) r \<noteq> None) els = live"
    and call: "\<And>u v k t. call u v k t = Some (False, [], [], u @ [(v, k)], t)"
  shows "\<exists>s'. forEach_loop call is_set (Suc (length live)) u el s
      = Some (Inr RUndefined, u @ map (\<lambda>r. case core (mp_heap s) r of Some (k, v) \<Rightarrow> (if is_set then k else v, k)) live, s')
    \<and> map_inv s' \<and> core (mp_heap s') = core (mp_heap s)"
  using assms(1-4)
proof (induction live arbitrary: s el els u)
  case Nil
  show ?case
    by (rule forEach_enter_ok [OF Nil.prems(1-3)]) (use Nil in simp_all)
next
  case (Cons q live)
  show ?case
  proof (rule forEach_enter_ok [OF Cons.prems(1-3)])
    assume "filter (\<lambda>r. core (mp_heap s) r \<noteq> None) els = []"
    then show ?thesis using Cons.prems(4) by simp
  next
    fix r rs k v s1
    assume "filter (\<lambda>r. core (mp_heap s) r \<noteq> None) els = r # rs"
    then have qr: "r = q" "rs = live" using Cons.prems(4) by simp_all
    assume s1: "core (mp_heap s) r = Some (k, v)" "forEach_enter el s = Some (Some (k, v), s1)" "map_inv s1"
      "same_entries s s1" "mp_locks s1 = r # mp_locks s" "mp_iters s1 = mp_iters s"
    have "free_ok s1 []" by (simp add: free_ok_def)
    then obtain el2 els2 s2 where s2: "forEach_leave [] s1 = Some (el2, s2)" "map_inv s2" "same_entries s1 s2"
      "els_from s2 el2 = Some els2" "set els2 \<subseteq> dom (mp_heap s2)"
      "filter (\<lambda>r. core (mp_heap s2) r \<noteq> None) els2 = live_rest s1 (Some r)"
      using forEach_leave_ok [OF s1(3,5)] by metis
    obtain xs as bs where split: "mp_records s = xs @ as @ r # bs" "filter (\<lambda>r. core (mp_heap s) r \<noteq> None) bs = live"
      using els_from_head [OF Cons.prems(2)] Cons.prems(4) qr by (fastforce simp: filter_eq_Cons_iff)
    have dist: "distinct (mp_records s)" "r \<in> set (mp_records s)" using Cons.prems(1) split by (auto simp: map_inv_def list_ok_def)
    have core: "core (mp_heap s2) = core (mp_heap s)" "core (mp_heap s1) = core (mp_heap s)"
      using s1(4) s2(3) by (simp_all add: same_entries_def)
    have "mp_heap s1 r \<noteq> None" using s1(1) core(2) core_SomeD [of "mp_heap s1" r] by auto
    then have "rest_of s1 (Some r) = filter (\<lambda>r. mp_heap s1 r \<noteq> None) bs"
      using rest_of_filter [of s1 "\<lambda>r. mp_heap s1 r \<noteq> None" s r] rest_of_suffix [OF split(1) dist(1)] dist s1(4)
      by (simp add: same_entries_def)
    moreover have "filter (\<lambda>r. core (mp_heap s) r \<noteq> None) (filter (\<lambda>r. mp_heap s1 r \<noteq> None) bs) = live"
      unfolding filter_filter split(2) [symmetric]
      by (rule filter_cong [OF refl]) (use core(2) core_SomeD [of "mp_heap s1"] in fastforce)
    ultimately have live: "filter (\<lambda>r. core (mp_heap s2) r \<noteq> None) els2 = live" using s2(6) core by (simp add: live_rest_def)
    from Cons.IH [OF s2(2,4,5) live] obtain s' where s':
      "forEach_loop call is_set (Suc (length live)) (u @ [(if is_set then k else v, k)]) el2 s2
        = Some (Inr RUndefined, (u @ [(if is_set then k else v, k)])
            @ map (\<lambda>r. case core (mp_heap s2) r of Some (k, v) \<Rightarrow> (if is_set then k else v, k)) live, s')"
      "map_inv s'" "core (mp_heap s') = core (mp_heap s2)"
      by blast
    have "forEach_loop call is_set (Suc (length (q # live))) u el s
        = forEach_loop call is_set (Suc (length live)) (u @ [(if is_set then k else v, k)]) el2 s2"
      using s1(2) s2(1) by (simp add: call)
    then show ?thesis using s' s1(1) core qr by simp
  qed
qed

section \<open>Properties\<close>

text \<open>
  C6: whatever a script does with a map or a set, its list of records is the list of the live records,
  everything that an iterator or a running \<^verbatim>\<open>forEach\<close> stands at is one of them, every reference count
  is the number of its holders, every entry is in the bucket of its key and the count is the number
  of entries.
\<close>

theorem map_records_invariant:
  assumes "map_trace is_set tr s"
  shows "distinct (mp_records s) \<and> set (mp_records s) = dom (mp_heap s)
    \<and> (\<forall>i it r. mp_iters s i = Some it \<longrightarrow> it_cur_record it = Some r \<longrightarrow> r \<in> dom (mp_heap s))
    \<and> set (mp_locks s) \<subseteq> dom (mp_heap s)
    \<and> (\<forall>r mr. mp_heap s r = Some mr \<longrightarrow> 0 < mr_ref_count mr
         \<and> mr_ref_count mr = of_bool (\<not> mr_empty mr) + int (card {i. holds (mp_iters s i) r}) + int (count_list (mp_locks s) r)
         \<and> (\<not> mr_empty mr \<longrightarrow> r \<in> set (mp_hash_table s ! js_keys.slot (mp_hash_size s) (mr_key mr))))
    \<and> unat (mp_record_count s) = card {r. \<exists>mr. mp_heap s r = Some mr \<and> \<not> mr_empty mr}"
proof -
  have inv: "map_inv s" using map_trace_sim [OF assms] by blast
  then have parts: "list_ok s" "refs_ok (mp_heap s) (holders s)" "iters_ok s"
    "table_ok (mp_hash_table s) (mp_hash_size s) (core (mp_heap s))" by (simp_all add: map_inv_def)
  have live: "dom (core (mp_heap s)) = {r. \<exists>mr. mp_heap s r = Some mr \<and> \<not> mr_empty mr}"
    by (auto simp: core_def split: option.splits if_splits)
  have bucket: "r \<in> set (mp_hash_table s ! js_keys.slot (mp_hash_size s) (mr_key mr))"
    if "mp_heap s r = Some mr" "\<not> mr_empty mr" for r mr
    using parts(4) js_keys.slot_in_table [of "mp_hash_size s" "mr_key mr"] that by (auto simp: table_ok_def core_def)
  have held: "r \<in> dom (mp_heap s)" if "0 < holders s r" for r using refs_ok_dom [OF parts(2) that] by blast
  have iters: "r \<in> dom (mp_heap s)" if "mp_iters s i = Some it" "it_cur_record it = Some r" for i it r
    using held holders_iter [OF parts(3) that] by blast
  have locks: "set (mp_locks s) \<subseteq> dom (mp_heap s)" using held holders_lock by blast
  have refs: "0 < mr_ref_count mr \<and> mr_ref_count mr = of_bool (\<not> mr_empty mr) + int (card {i. holds (mp_iters s i) r}) + int (count_list (mp_locks s) r)"
    if "mp_heap s r = Some mr" for r mr
    using refs_okD [OF parts(2), of r] that by (simp add: holders_def)
  have "unat (mp_record_count s) = card {r. \<exists>mr. mp_heap s r = Some mr \<and> \<not> mr_empty mr}"
    using inv unfolding map_inv_def live by blast
  then show ?thesis using parts(1) iters locks refs bucket unfolding list_ok_def by blast
qed

lemma clear_dangles_doomed: "clear_dangles s drops dead els \<Longrightarrow> \<exists>q\<in>set els. \<exists>K. doomed s K q"
proof (induction s drops dead els rule: clear_dangles.induct)
  case (2 s drops dead r els)
  then show ?case by (auto simp: Let_def split: list.splits)
qed simp

lemma set_tl_subset: "set (tl xs) \<subseteq> set xs"
  by (cases xs) auto

lemma rest_of_subset: "set (rest_of s cur) \<subseteq> set (mp_records s)"
  using set_tl_subset [of "dropWhile (\<lambda>x. x \<noteq> r) (mp_records s)" for r] set_dropWhileD
  by (fastforce simp: rest_of_def split: option.splits)

lemma dangling_doomed: "dangling s op \<Longrightarrow> \<exists>q\<in>set (mp_records s). \<exists>K. doomed s K q"
proof (cases op)
  case (OpEachNext dead ret)
  assume "dangling s op"
  then obtain q qs where q: "filter (\<lambda>q. \<not> doomed s (set dead) q) (rest_of s (Some (hd (mp_locks s)))) = q # qs"
    "doomed s (set dead \<union> set ret) q"
    by (auto simp: OpEachNext forEach_dangles_def split: list.splits)
  then have "q \<in> set (rest_of s (Some (hd (mp_locks s))))" by (auto simp: filter_eq_Cons_iff)
  then have "q \<in> set (mp_records s)" using rest_of_subset by blast
  then show ?thesis using q(2) by blast
qed (auto dest: clear_dangles_doomed)

lemma doomed_held:
  assumes "map_inv s" "q \<in> set (mp_records s)" "doomed s K q"
  shows "\<exists>i it. mp_iters s i = Some it \<and> it_cur_record it = Some q \<and> core (mp_heap s) q = None"
proof -
  have "ref_ok (mp_heap s q) (holders s q)" "mp_heap s q \<noteq> None"
    using assms(1,2) refs_okD [of "mp_heap s" "holders s" q] by (auto simp: map_inv_def list_ok_def)
  moreover have "core (mp_heap s) q = None" "q \<notin> set (mp_locks s)" using assms(3) unfolding doomed_def by blast+
  ultimately have "{i. holds (mp_iters s i) q} \<noteq> {}"
    by (auto simp: core_def holders_def count_list_0_iff split: if_splits simp del: Collect_empty_eq)
  then show ?thesis using \<open>core (mp_heap s) q = None\<close> by (auto simp: holds_def)
qed

text \<open>
  C7: an operation that a script can start on a map or a set, or the return from a function that
  \<^verbatim>\<open>forEach\<close> called, reads freed memory or trips an assertion in exactly one situation: the record that
  \<^verbatim>\<open>clear\<close> or \<^verbatim>\<open>forEach\<close> has saved as the next one is deleted, and the iterators that die with the value or
  the result just freed are all that still held it. Where no iterator stands at a deleted record, every operation is safe.
\<close>

theorem map_faults_exactly:
  assumes "map_trace is_set tr s" "op_ok s op"
  shows "(map_exec is_set op s = None \<longleftrightarrow> dangling s op)
    \<and> (dangling s op \<longrightarrow> (\<exists>i it r. mp_iters s i = Some it \<and> it_cur_record it = Some r \<and> core (mp_heap s) r = None))"
proof -
  obtain pos E where inv: "map_inv s" "es_rel pos s E" using map_trace_sim [OF assms(1)] by blast
  have "map_exec is_set op s = None \<longleftrightarrow> dangling s op"
    using map_exec_sim [OF inv assms(2), of is_set] by cases (auto simp: simulates_def)
  then show ?thesis using dangling_doomed [of s op] doomed_held [OF inv(1)] by blast
qed

text \<open>
  C2: maps and sets do what ECMAScript says: over any run, the results are those of the append-only
  list of the specification, in which iteration goes by index, also when entries are added and
  deleted while iterators and \<^verbatim>\<open>forEach\<close> are under way, whatever the resizing of the table does and whichever
  allocations fail.
\<close>

theorem map_implements_ecmascript:
  assumes "map_trace is_set tr s"
  shows "es_results is_set (map fst tr) = map snd tr"
  using map_trace_sim [OF assms] unfolding es_results_def by (elim conjE exE) simp

lemma exception_ops:
  assumes "fst (es_exec is_set op E) = RException"
  obtains key v mem slack dead where "op = OpSet key v mem slack dead"
  | kind i obj_ok data_ok where "op = OpIter kind i obj_ok data_ok"
  | i array_ok where "op = OpNext i array_ok"
  | dead where "op = OpEachThrow dead"
  using assms by (cases op) (auto simp: es_enter_def each_result_def split: option.splits prod.splits)

lemma next_exception:
  assumes inv: "map_inv s" and run: "js_map_iterator_next is_set i array_ok s = Some (RException, s')"
  shows "\<not> array_ok \<and> same_entries s s' \<and> mp_locks s' = mp_locks s \<and> (\<exists>it r. mp_iters s i = Some it \<and> it_kind it = ITERATOR_KIND_KEY_AND_VALUE
    \<and> head_opt (live_rest s (it_cur_record it)) = Some r \<and> mp_iters s' = (mp_iters s)(i \<mapsto> it\<lparr>it_cur_record := Some r\<rparr>))"
proof -
  obtain it where it: "mp_iters s i = Some it" "it_obj it"
    using run by (auto simp: js_map_iterator_next_def bind_eq_Some_conv split: if_splits)
  show ?thesis
    by (rule js_map_iterator_next_ok [OF inv it, of is_set array_ok])
      (use run it in \<open>auto simp: iterator_value_def head_opt_def Let_def split: iterator_kind.splits if_splits\<close>)
qed

text \<open>
  C18: an exception never changes an entry. \<^verbatim>\<open>set\<close> and \<^verbatim>\<open>add\<close> raise one when a record cannot be allocated, and
  leave the map as it was; so does the creation of an iterator. An iterator over pairs raises one when the array
  for its result cannot be allocated: it has moved to the next entry by then, which is lost to the caller.
  An exception of the function that \<^verbatim>\<open>forEach\<close> calls ends that \<^verbatim>\<open>forEach\<close> and releases its record.
\<close>

theorem map_exception_effect:
  assumes "map_trace is_set tr s" "op_ok s op" "map_exec is_set op s = Some (RException, s')"
  shows "core (mp_heap s') = core (mp_heap s) \<and>
    (case op of
       OpSet key v mem slack dead \<Rightarrow> mem = None \<and> s' = s
     | OpIter kind i obj_ok data_ok \<Rightarrow> \<not> (obj_ok \<and> data_ok) \<and> s' = s
     | OpNext i array_ok \<Rightarrow> \<not> array_ok \<and> mp_locks s' = mp_locks s
         \<and> (\<exists>it r. mp_iters s i = Some it \<and> it_kind it = ITERATOR_KIND_KEY_AND_VALUE
              \<and> head_opt (live_rest s (it_cur_record it)) = Some r
              \<and> mp_iters s' = (mp_iters s)(i \<mapsto> it\<lparr>it_cur_record := Some r\<rparr>))
     | OpEachThrow dead \<Rightarrow> mp_locks s' = tl (mp_locks s) \<and> mp_iters s' = mp_iters s |` (- set dead)
     | _ \<Rightarrow> False)"
proof -
  obtain pos E where inv: "map_inv s" "es_rel pos s E" using map_trace_sim [OF assms(1)] by blast
  have "fst (es_exec is_set op E) = RException"
    using map_exec_sim [OF inv assms(2), of is_set] by cases (use assms(3) in \<open>auto simp: simulates_def\<close>)
  then show ?thesis
  proof (cases rule: exception_ops)
    case (1 key v mem slack dead)
    have "op_ok s (OpSet key v mem slack dead)" using assms(2) 1 by simp
    then show ?thesis by (rule js_map_set_sim [OF inv, where is_set = is_set]) (use assms(3) 1 in simp_all)
  next
    case (2 kind i obj_ok data_ok)
    then show ?thesis using assms(3) by (auto simp: js_create_map_iterator_def split: if_splits)
  next
    case (3 i array_ok)
    then have "js_map_iterator_next is_set i array_ok s = Some (RException, s')" using assms(3) by simp
    from next_exception [OF inv(1) this] show ?thesis using 3 by (simp add: same_entries_def)
  next
    case (4 dead)
    have "op_ok s (OpEachThrow dead)" using assms(2) 4 by simp
    from each_throw_ok [OF inv(1) this, of is_set] show ?thesis using assms(3) 4 by (auto simp: same_entries_def)
  qed
qed

text \<open>
  C17: \<^verbatim>\<open>forEach\<close> with a function that leaves the map alone ends and calls it once for every entry, in the
  order of insertion, with the value (for a set, the key) and the key.
\<close>

theorem js_map_forEach_visits_all:
  assumes "map_trace is_set tr s"
  shows "\<exists>s'. js_map_forEach (\<lambda>u v k t. Some (False, [], [], u @ [(v, k)], t)) is_set
        (Suc (length (filter (\<lambda>r. core (mp_heap s) r \<noteq> None) (mp_records s)))) [] s
      = Some (Inr RUndefined, map (\<lambda>r. case core (mp_heap s) r of Some (k, v) \<Rightarrow> (if is_set then k else v, k))
          (filter (\<lambda>r. core (mp_heap s) r \<noteq> None) (mp_records s)), s')
    \<and> core (mp_heap s') = core (mp_heap s)"
proof -
  have inv: "map_inv s" using map_trace_sim [OF assms] by blast
  then have "els_from s (el_first s) = Some (mp_records s)" "set (mp_records s) \<subseteq> dom (mp_heap s)"
    using els_from_suffix [of s "[]"] by (simp_all add: el_first_def map_inv_def list_ok_def)
  from forEach_loop_visits [OF inv this refl, of "\<lambda>u v k t. Some (False, [], [], u @ [(v, k)], t)" is_set "[]"]
  show ?thesis unfolding js_map_forEach_def by auto
qed

section \<open>A run\<close>

lemma small_counts: "\<not> (4 :: u32) \<le> 1" "\<not> (4 :: u32) \<le> 2"
  by (simp_all add: word_le_nat_alt)

lemmas run_simps = js_map_set_def js_map_new_def Let_def map_find_record_def map_add_record_def map_normalize_key_def
  js_map_delete_def map_delete_record_def js_map_iterator_next_def js_create_map_iterator_def list_del_record_def
  list_del_hash_def els_from_def el_first_def el_next_def head_opt_def map_decref_record_def
  js_map_iterator_finalizer_def iterator_value_def js_same_value_zero_def small_counts

definition demo_record :: "jsval \<Rightarrow> jsval \<Rightarrow> int \<Rightarrow> map_record" where
  "demo_record key v n = \<lparr>mr_ref_count = n, mr_empty = False, mr_key = key, mr_value = v\<rparr>"

text \<open>A map of two entries and the iterator 5, which is at the second entry.\<close>

definition demo_ops :: "map_op list" where
  "demo_ops = [OpSet VNull (VObject 5) (Some 100) None [], OpSet VUndefined (VBool True) (Some 101) None [],
     OpIter ITERATOR_KIND_KEY 5 True True, OpNext 5 True, OpNext 5 True]"

definition demo_map :: js_map where
  "demo_map = \<lparr>mp_heap = [100 \<mapsto> demo_record VNull (VObject 5) 1, 101 \<mapsto> demo_record VUndefined (VBool True) 2],
     mp_records = [100, 101], mp_record_count = 2, mp_hash_table = [[100, 101]], mp_hash_size = 1, mp_threshold = 4,
     mp_iters = [5 \<mapsto> \<lparr>it_obj = True, it_kind = ITERATOR_KIND_KEY, it_cur_record = Some 101\<rparr>], mp_locks = []\<rparr>"

lemma demo_trace:
  "map_trace False (zip demo_ops [RThis, RThis, RIterator 5, RValue VNull, RValue VUndefined]) demo_map"
proof -
  define it :: "nat option \<Rightarrow> nat \<rightharpoonup> map_iterator" where "it n = [5 \<mapsto> \<lparr>it_obj = True, it_kind = ITERATOR_KIND_KEY, it_cur_record = n\<rparr>]" for n
  define two where "two n m its = demo_map\<lparr>mp_heap := [100 \<mapsto> demo_record VNull (VObject 5) n, 101 \<mapsto> demo_record VUndefined (VBool True) m],
    mp_iters := its\<rparr>" for n m its
  note defs = run_simps demo_map_def demo_record_def two_def it_def
  define s1 where "s1 = js_map_new\<lparr>mp_heap := [100 \<mapsto> demo_record VNull (VObject 5) 1], mp_records := [100], mp_record_count := 1,
    mp_hash_table := [[100]]\<rparr>"
  have "op_ok js_map_new (OpSet VNull (VObject 5) (Some 100) None [])"
    "map_exec False (OpSet VNull (VObject 5) (Some 100) None []) js_map_new = Some (RThis, s1)"
    by (simp_all add: defs s1_def proper_key_def alloc_ok_def free_ok_def)
  note 1 = trace_step [OF trace_new this]
  have "op_ok s1 (OpSet VUndefined (VBool True) (Some 101) None [])"
    "map_exec False (OpSet VUndefined (VBool True) (Some 101) None []) s1 = Some (RThis, two 1 1 Map.empty)"
    by (simp_all add: defs s1_def proper_key_def alloc_ok_def free_ok_def)
  note 2 = trace_step [OF 1 this]
  have "op_ok (two 1 1 Map.empty) (OpIter ITERATOR_KIND_KEY 5 True True)"
    "map_exec False (OpIter ITERATOR_KIND_KEY 5 True True) (two 1 1 Map.empty) = Some (RIterator 5, two 1 1 (it None))"
    by (simp_all add: defs)
  note 3 = trace_step [OF 2 this]
  have "op_ok (two 1 1 (it None)) (OpNext 5 True)"
    "map_exec False (OpNext 5 True) (two 1 1 (it None)) = Some (RValue VNull, two 2 1 (it (Some 100)))"
    by (simp_all add: defs fun_upd_twist)
  note 4 = trace_step [OF 3 this]
  have "op_ok (two 2 1 (it (Some 100))) (OpNext 5 True)"
    "map_exec False (OpNext 5 True) (two 2 1 (it (Some 100))) = Some (RValue VUndefined, demo_map)"
    by (simp_all add: defs fun_upd_twist)
  from trace_step [OF 4 this] show ?thesis by (simp add: demo_ops_def)
qed

theorem map_records_invariant_witness:
  "set (mp_records demo_map) = dom (mp_heap demo_map) \<and> unat (mp_record_count demo_map) = 2"
  using map_records_invariant [OF demo_trace] by (simp add: demo_map_def)

theorem map_implements_ecmascript_witness:
  "es_results False demo_ops = [RThis, RThis, RIterator 5, RValue VNull, RValue VUndefined]"
  using map_implements_ecmascript [OF demo_trace] by (simp add: demo_ops_def)

theorem map_exception_effect_witness:
  "map_exec False (OpSet (VBool True) VNull None None []) demo_map = Some (RException, demo_map)
    \<and> core (mp_heap demo_map) = core (mp_heap demo_map)"
proof -
  have run: "map_exec False (OpSet (VBool True) VNull None None []) demo_map = Some (RException, demo_map)"
    by (simp add: run_simps demo_map_def demo_record_def)
  show ?thesis using run map_exception_effect [OF demo_trace _ run]
    by (simp add: proper_key_def free_ok_def alloc_ok_def)
qed

theorem js_map_forEach_visits_all_witness:
  "\<exists>s'. js_map_forEach (\<lambda>u v k t. Some (False, [], [], u @ [(v, k)], t)) False 3 [] demo_map
    = Some (Inr RUndefined, [(VObject 5, VNull), (VBool True, VUndefined)], s')"
proof -
  have "core (mp_heap demo_map) = [100 \<mapsto> (VNull, VObject 5), 101 \<mapsto> (VUndefined, VBool True)]"
    by (auto simp: core_def demo_map_def demo_record_def fun_eq_iff)
  moreover have "mp_records demo_map = [100, 101]" by (simp add: demo_map_def)
  ultimately show ?thesis using js_map_forEach_visits_all [OF demo_trace] by (auto simp: numeral_3_eq_3)
qed

section \<open>Dangling records\<close>

text \<open>
  In the run above the value of the first entry is the iterator, which stands at the second entry. Once the second
  entry is deleted, only the iterator keeps its record, and only the first entry keeps the iterator.
\<close>

definition demo_deleted :: js_map where
  "demo_deleted = demo_map\<lparr>mp_heap := [100 \<mapsto> demo_record VNull (VObject 5) 1,
     101 \<mapsto> \<lparr>mr_ref_count = 1, mr_empty = True, mr_key = VUndefined, mr_value = VUndefined\<rparr>],
     mp_record_count := 1, mp_hash_table := [[100]]\<rparr>"

lemma demo_deleted_trace: "\<exists>tr. map_trace False tr demo_deleted"
proof -
  have "op_ok demo_map (OpDelete VUndefined [] [])" by (simp add: proper_key_def free_ok_def)
  moreover have "map_exec False (OpDelete VUndefined [] []) demo_map = Some (RBool True, demo_deleted)"
    by (simp add: run_simps demo_map_def demo_record_def demo_deleted_def fun_upd_twist)
  ultimately show ?thesis using trace_step [OF demo_trace] by blast
qed

lemma demo_clear_ok: "op_ok demo_deleted (OpClear [(100, [], [5])])" "op_ok demo_deleted (OpClear [])"
  by (simp_all add: demo_deleted_def demo_map_def demo_record_def core_def free_ok_def dying_in_def)

lemma demo_clear_dangles: "dangling demo_deleted (OpClear [(100, [], [5])])" "\<not> dangling demo_deleted (OpClear [])"
  by (auto simp: demo_deleted_def demo_map_def demo_record_def core_def doomed_def holds_def dying_def drops_of_def Let_def)

text \<open>\<^verbatim>\<open>clear\<close> frees the first entry, and with it the saved record; while the script keeps the iterator, nothing happens.\<close>

theorem map_faults_exactly_witness:
  "map_exec False (OpClear [(100, [], [5])]) demo_deleted = None \<and> map_exec False (OpClear []) demo_deleted \<noteq> None"
proof -
  obtain tr where tr: "map_trace False tr demo_deleted" using demo_deleted_trace by blast
  from map_faults_exactly [OF tr demo_clear_ok(1)] map_faults_exactly [OF tr demo_clear_ok(2)]
  show ?thesis using demo_clear_dangles by blast
qed

lemma clear_reads_freed_record:
  "\<exists>tr s. map_trace False tr s \<and> op_ok s (OpClear [(100, [], [5])]) \<and> map_exec False (OpClear [(100, [], [5])]) s = None"
proof -
  have "map_exec False (OpClear [(100, [], [5])]) demo_deleted = None"
    by (simp add: run_simps js_map_clear_def demo_deleted_def demo_map_def demo_record_def drops_of_def)
  then show ?thesis using demo_deleted_trace demo_clear_ok(1) by blast
qed

text \<open>
  \<^verbatim>\<open>forEach\<close> reads its next element before it frees the result of the function. The function is called with the
  first entry, deletes both entries and returns its argument, the iterator. The map no longer refers to it, and it dies
  with the result.
\<close>

lemma forEach_reads_freed_record:
  "\<exists>tr s. map_trace False tr s \<and> core (mp_heap s) = Map.empty \<and> op_ok s (OpEachNext [] [5])
    \<and> map_exec False (OpEachNext [] [5]) s = None"
proof -
  note defs = run_simps demo_deleted_def demo_map_def demo_record_def forEach_enter_def each_result_def
  define s1 where "s1 = demo_map\<lparr>mp_heap := [100 \<mapsto> demo_record VNull (VObject 5) 2, 101 \<mapsto> demo_record VUndefined (VBool True) 2],
    mp_locks := [100]\<rparr>"
  define s2 where "s2 = demo_deleted\<lparr>mp_heap := (mp_heap demo_deleted)(100 \<mapsto> demo_record VNull (VObject 5) 2), mp_locks := [100]\<rparr>"
  define s3 where "s3 = s2\<lparr>mp_heap := (mp_heap s2)(100 \<mapsto> \<lparr>mr_ref_count = 1, mr_empty = True, mr_key = VUndefined, mr_value = VUndefined\<rparr>),
    mp_record_count := 0, mp_hash_table := [[]]\<rparr>"
  have "op_ok demo_map OpEach" "map_exec False OpEach demo_map = Some (RPair (VObject 5) VNull, s1)"
    by (simp_all add: defs s1_def fun_upd_twist)
  note 1 = trace_step [OF demo_trace this]
  have "op_ok s1 (OpDelete VUndefined [] [])" "map_exec False (OpDelete VUndefined [] []) s1 = Some (RBool True, s2)"
    by (simp_all add: defs s1_def s2_def proper_key_def free_ok_def fun_upd_twist)
  note 2 = trace_step [OF 1 this]
  have "op_ok s2 (OpDelete VNull [] [])" "map_exec False (OpDelete VNull [] []) s2 = Some (RBool True, s3)"
    by (simp_all add: defs s2_def s3_def proper_key_def free_ok_def fun_upd_twist)
  note 3 = trace_step [OF 2 this]
  moreover have "core (mp_heap s3) = Map.empty" by (auto simp: s3_def s2_def demo_deleted_def core_def fun_eq_iff)
  moreover have "op_ok s3 (OpEachNext [] [5])" by (simp add: s3_def s2_def demo_deleted_def demo_map_def free_ok_def)
  moreover have "map_exec False (OpEachNext [] [5]) s3 = None"
    by (simp add: defs s3_def s2_def forEach_leave_def)
  ultimately show ?thesis by blast
qed

end
