(* ===== verification/RegexpVM.thy ===== *)
theory RegexpVM
  imports Utf Endian CaseConv
begin

text \<open>
  The matcher of \<^verbatim>\<open>libregexp.c\<close>: the bytecode interpreter \<^verbatim>\<open>lre_exec_backtrack\<close> with its explicit
  stack of saved states, and \<^verbatim>\<open>lre_exec\<close>.

  The subject is the list of its code units, a pointer into it an index; the bytecode is a list of
  bytes. \<^term>\<open>None\<close> in a step is a read outside the bytecode or the subject, an underflow or overflow
  of the operand stack, a failed assertion or \<^verbatim>\<open>abort\<close>. Whether memory for a number of saved states can
  be had is a parameter.
\<close>

section \<open>Opcodes\<close>

datatype reop =
    REOP_invalid | REOP_char8 | REOP_char16 | REOP_char32 | REOP_dot | REOP_any | REOP_line_start | REOP_line_end
  | REOP_goto | REOP_split_goto_first | REOP_split_next_first | REOP_match | REOP_save_start | REOP_save_end
  | REOP_save_reset | REOP_loop | REOP_push_i32 | REOP_drop | REOP_word_boundary | REOP_not_word_boundary
  | REOP_back_reference | REOP_backward_back_reference | REOP_range | REOP_range32 | REOP_lookahead
  | REOP_negative_lookahead | REOP_push_char_pos | REOP_check_advance | REOP_prev | REOP_simple_greedy_quant

definition reops :: "reop list" where
  "reops = [REOP_invalid, REOP_char8, REOP_char16, REOP_char32, REOP_dot, REOP_any, REOP_line_start, REOP_line_end,
     REOP_goto, REOP_split_goto_first, REOP_split_next_first, REOP_match, REOP_save_start, REOP_save_end,
     REOP_save_reset, REOP_loop, REOP_push_i32, REOP_drop, REOP_word_boundary, REOP_not_word_boundary,
     REOP_back_reference, REOP_backward_back_reference, REOP_range, REOP_range32, REOP_lookahead,
     REOP_negative_lookahead, REOP_push_char_pos, REOP_check_advance, REOP_prev, REOP_simple_greedy_quant]"

section \<open>State\<close>

record re_ctx =
  re_bc :: "u8 list"
  re_cbuf :: "u16 list"
  re_cbuf_type :: nat
  re_capture_count :: nat
  re_stack_size_max :: nat
  re_multi_line :: bool
  re_ignore_case :: bool
  re_is_unicode :: bool
  re_alloc :: "nat \<Rightarrow> bool"

text \<open>The registers of the interpreter. The operand stack has its top first.\<close>

record thread =
  th_pc :: nat
  th_cptr :: nat
  th_capture :: "nat option list"
  th_stack :: "u64 list"

datatype re_exec_state_type =
  RE_EXEC_STATE_SPLIT | RE_EXEC_STATE_LOOKAHEAD | RE_EXEC_STATE_NEGATIVE_LOOKAHEAD | RE_EXEC_STATE_GREEDY_QUANT

record re_exec_state =
  rs_type :: re_exec_state_type
  rs_count :: nat
  rs_thread :: thread

section \<open>Characters\<close>

definition is_line_terminator :: "u32 \<Rightarrow> bool" where
  "is_line_terminator c = (c = 10 \<or> c = 13 \<or> c = 0x2028 \<or> c = 0x2029)"

definition is_word_char :: "u32 \<Rightarrow> bool" where
  "is_word_char c = (48 \<le> c \<and> c \<le> 57 \<or> 97 \<le> c \<and> c \<le> 122 \<or> 65 \<le> c \<and> c \<le> 90 \<or> c = 95)"

definition re_unit :: "re_ctx \<Rightarrow> nat \<Rightarrow> u32 option" where
  "re_unit x p = map_option ucast (load (re_cbuf x) p)"

text \<open>\<open>GET_CHAR\<close> and \<open>GET_PREV_CHAR\<close>: the character and the new position. \<open>PEEK_CHAR\<close>, \<open>PEEK_PREV_CHAR\<close>
  and \<open>PREV_CHAR\<close> are their halves.\<close>

definition get_char :: "re_ctx \<Rightarrow> nat \<Rightarrow> nat \<Rightarrow> (u32 \<times> nat) option" where
  "get_char x p cbuf_end = do {
     c \<leftarrow> re_unit x p;
     if is_hi_surrogate c \<and> re_cbuf_type x = 2 \<and> p + 1 < cbuf_end
     then do {
       c1 \<leftarrow> re_unit x (p + 1);
       Some (if is_lo_surrogate c1 then (from_surrogate c c1, p + 2) else (c, p + 1)) }
     else Some (c, p + 1) }"

definition get_prev_char :: "re_ctx \<Rightarrow> nat \<Rightarrow> nat \<Rightarrow> (u32 \<times> nat) option" where
  "get_prev_char x p cbuf_start =
     (if p = 0 then None else do {
        c \<leftarrow> re_unit x (p - 1);
        if is_lo_surrogate c \<and> re_cbuf_type x = 2 \<and> cbuf_start < p - 1
        then do {
          c1 \<leftarrow> re_unit x (p - 2);
          Some (if is_hi_surrogate c1 then (from_surrogate c1 c, p - 2) else (c, p - 1)) }
        else Some (c, p - 1) })"

definition peek_char :: "re_ctx \<Rightarrow> nat \<Rightarrow> u32 option" where
  "peek_char x p = map_option fst (get_char x p (length (re_cbuf x)))"

definition peek_prev_char :: "re_ctx \<Rightarrow> nat \<Rightarrow> u32 option" where
  "peek_prev_char x p = map_option fst (get_prev_char x p 0)"

definition prev_char :: "re_ctx \<Rightarrow> nat \<Rightarrow> nat option" where
  "prev_char x p = map_option snd (get_prev_char x p 0)"

definition canonical_char :: "re_ctx \<Rightarrow> u32 \<Rightarrow> u32 option" where
  "canonical_char x c = (if re_ignore_case x then lre_canonicalize c (re_is_unicode x) else Some c)"

section \<open>One instruction\<close>

text \<open>
  What an instruction asks for: go on, fail, succeed, save the first thread and go on with the second,
  or repeat the code at the first address.
\<close>

datatype re_op =
    OpBreak thread
  | OpNoMatch
  | OpMatch
  | OpPush re_exec_state_type thread thread
  | OpQuant nat nat nat nat

definition jump :: "nat \<Rightarrow> u32 \<Rightarrow> nat option" where
  "jump pc val = (let t = int pc + sint val in if t < 0 then None else Some (nat t))"

definition test_char :: "re_ctx \<Rightarrow> thread \<Rightarrow> nat \<Rightarrow> u32 \<Rightarrow> re_op option" where
  "test_char x t pc val =
     (if length (re_cbuf x) \<le> th_cptr t then Some OpNoMatch
      else do {
        (c, p) \<leftarrow> get_char x (th_cptr t) (length (re_cbuf x));
        c \<leftarrow> canonical_char x c;
        Some (if val \<noteq> c then OpNoMatch else OpBreak (t\<lparr>th_pc := pc, th_cptr := p\<rparr>)) })"

text \<open>Characters of a class that any character, or any but a line terminator, belongs to.\<close>

definition test_any :: "re_ctx \<Rightarrow> thread \<Rightarrow> nat \<Rightarrow> bool \<Rightarrow> re_op option" where
  "test_any x t pc dot =
     (if th_cptr t = length (re_cbuf x) then Some OpNoMatch
      else do {
        (c, p) \<leftarrow> get_char x (th_cptr t) (length (re_cbuf x));
        Some (if dot \<and> is_line_terminator c then OpNoMatch else OpBreak (t\<lparr>th_pc := pc, th_cptr := p\<rparr>)) })"

definition push_thread :: "re_exec_state_type \<Rightarrow> thread \<Rightarrow> nat \<Rightarrow> nat \<Rightarrow> re_op" where
  "push_thread type t saved_pc pc = OpPush type (t\<lparr>th_pc := saved_pc\<rparr>) (t\<lparr>th_pc := pc\<rparr>)"

definition line_test :: "re_ctx \<Rightarrow> thread \<Rightarrow> nat \<Rightarrow> bool \<Rightarrow> u32 option \<Rightarrow> re_op option" where
  "line_test x t pc at_edge c =
     (if at_edge then Some (OpBreak (t\<lparr>th_pc := pc\<rparr>))
      else if \<not> re_multi_line x then Some OpNoMatch
      else do { c \<leftarrow> c; Some (if is_line_terminator c then OpBreak (t\<lparr>th_pc := pc\<rparr>) else OpNoMatch) })"

definition word_boundary :: "re_ctx \<Rightarrow> thread \<Rightarrow> nat \<Rightarrow> bool \<Rightarrow> re_op option" where
  "word_boundary x t pc negated = do {
     v1 \<leftarrow> (if th_cptr t = 0 then Some False else map_option is_word_char (peek_prev_char x (th_cptr t)));
     v2 \<leftarrow> (if length (re_cbuf x) \<le> th_cptr t then Some False else map_option is_word_char (peek_char x (th_cptr t)));
     Some (if (v1 \<noteq> v2) = negated then OpNoMatch else OpBreak (t\<lparr>th_pc := pc\<rparr>)) }"

definition save_capture :: "re_ctx \<Rightarrow> thread \<Rightarrow> nat \<Rightarrow> nat \<Rightarrow> re_op option" where
  "save_capture x t pc side = do {
     val \<leftarrow> get_u8 (re_bc x) pc;
     if unat val < re_capture_count x
     then do {
       capture \<leftarrow> store (th_capture t) (2 * unat val + side) (Some (th_cptr t));
       Some (OpBreak (t\<lparr>th_pc := pc + 1, th_capture := capture\<rparr>)) }
     else None }"

definition reset_loop :: "nat \<Rightarrow> nat \<Rightarrow> nat option list \<Rightarrow> nat option list" where
  "reset_loop val val2 capture = fold (\<lambda>i c. c[2 * i := None, 2 * i + 1 := None]) [val..<val2 + 1] capture"

definition reset_captures :: "re_ctx \<Rightarrow> thread \<Rightarrow> nat \<Rightarrow> re_op option" where
  "reset_captures x t pc = do {
     val \<leftarrow> get_u8 (re_bc x) pc;
     val2 \<leftarrow> get_u8 (re_bc x) (pc + 1);
     if unat val2 < re_capture_count x
     then Some (OpBreak (t\<lparr>th_pc := pc + 2, th_capture := reset_loop (unat val) (unat val2) (th_capture t)\<rparr>))
     else None }"

text \<open>The fuel is the number of units of the capture. An inner \<^term>\<open>None\<close> is no match.\<close>

primrec back_ref_loop :: "re_ctx \<Rightarrow> nat \<Rightarrow> nat \<Rightarrow> nat \<Rightarrow> nat \<Rightarrow> nat option option" where
  "back_ref_loop x 0 cptr1 cptr1_end cptr = (if cptr1 < cptr1_end then None else Some (Some cptr))"
| "back_ref_loop x (Suc n) cptr1 cptr1_end cptr =
     (if \<not> cptr1 < cptr1_end then Some (Some cptr)
      else if length (re_cbuf x) \<le> cptr then Some None
      else do {
        (c1, cptr1) \<leftarrow> get_char x cptr1 cptr1_end;
        (c2, cptr) \<leftarrow> get_char x cptr (length (re_cbuf x));
        c1 \<leftarrow> canonical_char x c1;
        c2 \<leftarrow> canonical_char x c2;
        if c1 \<noteq> c2 then Some None else back_ref_loop x n cptr1 cptr1_end cptr })"

primrec backward_ref_loop :: "re_ctx \<Rightarrow> nat \<Rightarrow> nat \<Rightarrow> nat \<Rightarrow> nat \<Rightarrow> nat option option" where
  "backward_ref_loop x 0 cptr1 cptr1_start cptr = (if cptr1_start < cptr1 then None else Some (Some cptr))"
| "backward_ref_loop x (Suc n) cptr1 cptr1_start cptr =
     (if \<not> cptr1_start < cptr1 then Some (Some cptr)
      else if cptr = 0 then Some None
      else do {
        (c1, cptr1) \<leftarrow> get_prev_char x cptr1 cptr1_start;
        (c2, cptr) \<leftarrow> get_prev_char x cptr 0;
        c1 \<leftarrow> canonical_char x c1;
        c2 \<leftarrow> canonical_char x c2;
        if c1 \<noteq> c2 then Some None else backward_ref_loop x n cptr1 cptr1_start cptr })"

definition back_reference :: "re_ctx \<Rightarrow> thread \<Rightarrow> nat \<Rightarrow> bool \<Rightarrow> re_op option" where
  "back_reference x t pc backward = do {
     val \<leftarrow> get_u8 (re_bc x) pc;
     if re_capture_count x \<le> unat val then Some OpNoMatch
     else do {
       cptr1_start \<leftarrow> load (th_capture t) (2 * unat val);
       cptr1_end \<leftarrow> load (th_capture t) (2 * unat val + 1);
       case cptr1_start of
         None \<Rightarrow> Some (OpBreak (t\<lparr>th_pc := pc + 1\<rparr>))
       | Some s \<Rightarrow>
           (case cptr1_end of
              None \<Rightarrow> Some (OpBreak (t\<lparr>th_pc := pc + 1\<rparr>))
            | Some e \<Rightarrow> do {
                r \<leftarrow> (if backward then backward_ref_loop x (e - s) e s (th_cptr t) else back_ref_loop x (e - s) s e (th_cptr t));
                Some (case r of None \<Rightarrow> OpNoMatch | Some p \<Rightarrow> OpBreak (t\<lparr>th_pc := pc + 1, th_cptr := p\<rparr>)) }) } }"

text \<open>
  The binary search in a sorted list of intervals. Its indices are 32-bit, so one below zero is the
  largest index; the fuel is the number of intervals.
\<close>

primrec range_search :: "(nat \<Rightarrow> u32 option) \<Rightarrow> (nat \<Rightarrow> u32 option) \<Rightarrow> u32 \<Rightarrow> nat \<Rightarrow> nat \<Rightarrow> nat \<Rightarrow> bool option" where
  "range_search lo hi c 0 idx_min idx_max = (if idx_min \<le> idx_max then None else Some False)"
| "range_search lo hi c (Suc n) idx_min idx_max =
     (if \<not> idx_min \<le> idx_max then Some False
      else do {
        let idx = (idx_min + idx_max) div 2;
        low \<leftarrow> lo idx;
        high \<leftarrow> hi idx;
        if c < low then range_search lo hi c n idx_min (if idx = 0 then 2 ^ 32 - 1 else idx - 1)
        else if high < c then range_search lo hi c n (idx + 1) idx_max
        else Some True })"

text \<open>\<open>open_end\<close> says that 0xffff as the last bound stands for infinity.\<close>

definition range_match :: "(nat \<Rightarrow> u32 option) \<Rightarrow> (nat \<Rightarrow> u32 option) \<Rightarrow> bool \<Rightarrow> nat \<Rightarrow> u32 \<Rightarrow> bool option" where
  "range_match lo hi open_end n c =
     (if n = 0 then None else do {
        low \<leftarrow> lo 0;
        if c < low then Some False
        else do {
          high \<leftarrow> hi (n - 1);
          if open_end \<and> 0xffff \<le> c \<and> high = 0xffff then Some True
          else if high < c then Some False
          else range_search lo hi c n 0 (n - 1) } })"

definition test_range :: "re_ctx \<Rightarrow> thread \<Rightarrow> nat \<Rightarrow> bool \<Rightarrow> re_op option" where
  "test_range x t pc wide = do {
     n \<leftarrow> get_u16 (re_bc x) pc;
     let pc = pc + 2;
     if length (re_cbuf x) \<le> th_cptr t then Some OpNoMatch
     else do {
       (c, p) \<leftarrow> get_char x (th_cptr t) (length (re_cbuf x));
       c \<leftarrow> canonical_char x c;
       found \<leftarrow> (if wide
         then range_match (\<lambda>i. get_u32 (re_bc x) (pc + i * 8)) (\<lambda>i. get_u32 (re_bc x) (pc + i * 8 + 4)) False (unat n) c
         else range_match (\<lambda>i. get_u16 (re_bc x) (pc + i * 4)) (\<lambda>i. get_u16 (re_bc x) (pc + i * 4 + 2)) True (unat n) c);
       Some (if found then OpBreak (t\<lparr>th_pc := pc + (if wide then 8 else 4) * unat n, th_cptr := p\<rparr>) else OpNoMatch) } }"

definition push_stack :: "re_ctx \<Rightarrow> thread \<Rightarrow> nat \<Rightarrow> u64 \<Rightarrow> re_op option" where
  "push_stack x t pc v =
     (if length (th_stack t) < re_stack_size_max x
      then Some (OpBreak (t\<lparr>th_pc := pc, th_stack := v # th_stack t\<rparr>)) else None)"

definition re_step :: "re_ctx \<Rightarrow> thread \<Rightarrow> re_op option" where
  "re_step x t = do {
     b \<leftarrow> load (re_bc x) (th_pc t);
     opcode \<leftarrow> load reops (unat b);
     let pc = th_pc t + 1;
     case opcode of
       REOP_match \<Rightarrow> Some OpMatch
     | REOP_char32 \<Rightarrow> do { val \<leftarrow> get_u32 (re_bc x) pc; test_char x t (pc + 4) val }
     | REOP_char16 \<Rightarrow> do { val \<leftarrow> get_u16 (re_bc x) pc; test_char x t (pc + 2) val }
     | REOP_char8 \<Rightarrow> do { val \<leftarrow> get_u8 (re_bc x) pc; test_char x t (pc + 1) val }
     | REOP_split_goto_first \<Rightarrow> do {
         val \<leftarrow> get_u32 (re_bc x) pc;
         pc1 \<leftarrow> jump (pc + 4) val;
         Some (push_thread RE_EXEC_STATE_SPLIT t (pc + 4) pc1) }
     | REOP_split_next_first \<Rightarrow> do {
         val \<leftarrow> get_u32 (re_bc x) pc;
         pc1 \<leftarrow> jump (pc + 4) val;
         Some (push_thread RE_EXEC_STATE_SPLIT t pc1 (pc + 4)) }
     | REOP_lookahead \<Rightarrow> do {
         val \<leftarrow> get_u32 (re_bc x) pc;
         pc1 \<leftarrow> jump (pc + 4) val;
         Some (push_thread RE_EXEC_STATE_LOOKAHEAD t pc1 (pc + 4)) }
     | REOP_negative_lookahead \<Rightarrow> do {
         val \<leftarrow> get_u32 (re_bc x) pc;
         pc1 \<leftarrow> jump (pc + 4) val;
         Some (push_thread RE_EXEC_STATE_NEGATIVE_LOOKAHEAD t pc1 (pc + 4)) }
     | REOP_goto \<Rightarrow> do {
         val \<leftarrow> get_u32 (re_bc x) pc;
         pc1 \<leftarrow> jump (pc + 4) val;
         Some (OpBreak (t\<lparr>th_pc := pc1\<rparr>)) }
     | REOP_line_start \<Rightarrow> line_test x t pc (th_cptr t = 0) (peek_prev_char x (th_cptr t))
     | REOP_line_end \<Rightarrow> line_test x t pc (th_cptr t = length (re_cbuf x)) (peek_char x (th_cptr t))
     | REOP_dot \<Rightarrow> test_any x t pc True
     | REOP_any \<Rightarrow> test_any x t pc False
     | REOP_save_start \<Rightarrow> save_capture x t pc 0
     | REOP_save_end \<Rightarrow> save_capture x t pc 1
     | REOP_save_reset \<Rightarrow> reset_captures x t pc
     | REOP_push_i32 \<Rightarrow> do { val \<leftarrow> get_u32 (re_bc x) pc; push_stack x t (pc + 4) (ucast val) }
     | REOP_drop \<Rightarrow> (case th_stack t of [] \<Rightarrow> None | v # st \<Rightarrow> Some (OpBreak (t\<lparr>th_pc := pc, th_stack := st\<rparr>)))
     | REOP_loop \<Rightarrow> do {
         val \<leftarrow> get_u32 (re_bc x) pc;
         case th_stack t of
           [] \<Rightarrow> None
         | v # st \<Rightarrow> do {
             pc1 \<leftarrow> (if v - 1 \<noteq> 0 then jump (pc + 4) val else Some (pc + 4));
             Some (OpBreak (t\<lparr>th_pc := pc1, th_stack := (v - 1) # st\<rparr>)) } }
     | REOP_push_char_pos \<Rightarrow> push_stack x t pc (of_nat (th_cptr t))
     | REOP_check_advance \<Rightarrow> (case th_stack t of
           [] \<Rightarrow> None
         | v # st \<Rightarrow> Some (if v = of_nat (th_cptr t) then OpNoMatch else OpBreak (t\<lparr>th_pc := pc, th_stack := st\<rparr>)))
     | REOP_word_boundary \<Rightarrow> word_boundary x t pc False
     | REOP_not_word_boundary \<Rightarrow> word_boundary x t pc True
     | REOP_back_reference \<Rightarrow> back_reference x t pc False
     | REOP_backward_back_reference \<Rightarrow> back_reference x t pc True
     | REOP_range \<Rightarrow> test_range x t pc False
     | REOP_range32 \<Rightarrow> test_range x t pc True
     | REOP_prev \<Rightarrow>
         (if th_cptr t = 0 then Some OpNoMatch
          else do { p \<leftarrow> prev_char x (th_cptr t); Some (OpBreak (t\<lparr>th_pc := pc, th_cptr := p\<rparr>)) })
     | REOP_simple_greedy_quant \<Rightarrow> do {
         next_pos \<leftarrow> get_u32 (re_bc x) pc;
         quant_min \<leftarrow> get_u32 (re_bc x) (pc + 4);
         quant_max \<leftarrow> get_u32 (re_bc x) (pc + 8);
         pc1 \<leftarrow> jump (pc + 16) next_pos;
         Some (OpQuant (pc + 16) pc1 (unat quant_min) (unat quant_max)) }
     | REOP_invalid \<Rightarrow> None }"

section \<open>The stack of saved states\<close>

record re_vm =
  vm_thread :: thread
  vm_states :: "re_exec_state list"
  vm_states_size :: nat

text \<open>\<^term>\<open>None\<close> is the failure of the allocation.\<close>

definition push_state :: "re_ctx \<Rightarrow> re_vm \<Rightarrow> re_exec_state \<Rightarrow> re_vm option" where
  "push_state x s rs =
     (if length (vm_states s) + 1 > vm_states_size s
      then let new_size = max 8 (vm_states_size s * 3 div 2)
           in if re_alloc x new_size then Some (s\<lparr>vm_states := rs # vm_states s, vm_states_size := new_size\<rparr>) else None
      else Some (s\<lparr>vm_states := rs # vm_states s\<rparr>))"

primrec prev_chars :: "re_ctx \<Rightarrow> nat \<Rightarrow> nat \<Rightarrow> nat option" where
  "prev_chars x 0 p = Some p"
| "prev_chars x (Suc n) p = do { p \<leftarrow> prev_char x p; prev_chars x n p }"

text \<open>
  The loop at \<^verbatim>\<open>recurse\<close>. The first argument is the thread that has matched, or nothing after a
  failure; the result is that of the match when the stack is empty, or the thread to go on with.
\<close>

datatype unwound = UReturn "thread option" | UResume thread "re_exec_state list"

fun re_unwind :: "re_ctx \<Rightarrow> thread option \<Rightarrow> re_exec_state list \<Rightarrow> unwound option" where
  "re_unwind x ret [] = Some (UReturn ret)"
| "re_unwind x ret (rs # states) =
     (case rs_type rs of
        RE_EXEC_STATE_SPLIT \<Rightarrow>
          if ret = None then Some (UResume (rs_thread rs) states) else re_unwind x ret states
      | RE_EXEC_STATE_GREEDY_QUANT \<Rightarrow>
          if ret = None then do {
            let pc = th_pc (rs_thread rs);
            char_count \<leftarrow> get_u32 (re_bc x) (pc + 12);
            cptr \<leftarrow> prev_chars x (unat char_count) (th_cptr (rs_thread rs));
            next_pos \<leftarrow> get_u32 (re_bc x) pc;
            pc1 \<leftarrow> jump (pc + 16) next_pos;
            let rs1 = rs\<lparr>rs_thread := (rs_thread rs)\<lparr>th_cptr := cptr\<rparr>, rs_count := rs_count rs - 1\<rparr>;
            Some (UResume ((rs_thread rs)\<lparr>th_pc := pc1, th_cptr := cptr\<rparr>) (if rs_count rs1 = 0 then states else rs1 # states)) }
          else re_unwind x ret states
      | RE_EXEC_STATE_LOOKAHEAD \<Rightarrow>
          (case ret of
             None \<Rightarrow> re_unwind x None states
           | Some t \<Rightarrow> Some (UResume ((rs_thread rs)\<lparr>th_capture := th_capture t\<rparr>) states))
      | RE_EXEC_STATE_NEGATIVE_LOOKAHEAD \<Rightarrow>
          (case ret of
             None \<Rightarrow> Some (UResume (rs_thread rs) states)
           | Some t \<Rightarrow> re_unwind x None states))"

section \<open>The interpreter\<close>

text \<open>
  Every instruction uses one unit of fuel. The code that a quantifier repeats runs on the same
  arrays; its operand stack must be left as it was (the compiler puts nothing there that changes it).
\<close>

datatype 'a run = Fault | OutOfFuel | Returns 'a

datatype re_ret = ReMatch nat | ReNoMatch | ReError

definition after_body :: "re_vm \<Rightarrow> re_vm \<Rightarrow> nat \<Rightarrow> re_vm option" where
  "after_body s s1 cptr =
     (let st = th_stack (vm_thread s); st1 = th_stack (vm_thread s1)
      in if drop (length st1 - length st) st1 = st
         then Some (s1\<lparr>vm_thread := (vm_thread s)\<lparr>th_capture := th_capture (vm_thread s1), th_cptr := cptr\<rparr>\<rparr>) else None)"

definition quant_limit :: "nat \<Rightarrow> nat \<Rightarrow> bool" where
  "quant_limit quant_max q = (quant_max \<le> q \<and> quant_max \<noteq> 2 ^ 31 - 1)"

fun re_exec :: "re_ctx \<Rightarrow> nat \<Rightarrow> bool \<Rightarrow> re_vm \<Rightarrow> (re_ret \<times> re_vm) run"
  and re_quant :: "re_ctx \<Rightarrow> nat \<Rightarrow> nat \<Rightarrow> nat \<Rightarrow> nat \<Rightarrow> re_vm \<Rightarrow> (nat option \<times> re_vm) run"
  and re_recurse :: "re_ctx \<Rightarrow> nat \<Rightarrow> thread option \<Rightarrow> re_vm \<Rightarrow> (re_ret \<times> re_vm) run" where
  "re_exec x 0 no_recurse s = OutOfFuel"
| "re_exec x (Suc n) no_recurse s =
     (case re_step x (vm_thread s) of
        None \<Rightarrow> Fault
      | Some (OpBreak t) \<Rightarrow> re_exec x n no_recurse (s\<lparr>vm_thread := t\<rparr>)
      | Some OpMatch \<Rightarrow>
          if no_recurse then Returns (ReMatch (th_cptr (vm_thread s)), s) else re_recurse x n (Some (vm_thread s)) s
      | Some OpNoMatch \<Rightarrow> if no_recurse then Returns (ReNoMatch, s) else re_recurse x n None s
      | Some (OpPush type saved t) \<Rightarrow>
          (case push_state x s \<lparr>rs_type = type, rs_count = 0, rs_thread = saved\<rparr> of
             None \<Rightarrow> Returns (ReError, s)
           | Some s \<Rightarrow> re_exec x n no_recurse (s\<lparr>vm_thread := t\<rparr>))
      | Some (OpQuant pc1 pc quant_min quant_max) \<Rightarrow>
          (case re_quant x n pc1 quant_max 0 s of
             Fault \<Rightarrow> Fault
           | OutOfFuel \<Rightarrow> OutOfFuel
           | Returns (None, s) \<Rightarrow> Returns (ReError, s)
           | Returns (Some q, s) \<Rightarrow>
               let t = vm_thread s
               in if q < quant_min then if no_recurse then Returns (ReNoMatch, s) else re_recurse x n None s
                  else if quant_min < q then
                    (case push_state x s \<lparr>rs_type = RE_EXEC_STATE_GREEDY_QUANT, rs_count = q - quant_min,
                        rs_thread = t\<lparr>th_pc := pc1 - 16\<rparr>\<rparr> of
                       None \<Rightarrow> Returns (ReError, s)
                     | Some s \<Rightarrow> re_exec x n no_recurse (s\<lparr>vm_thread := t\<lparr>th_pc := pc\<rparr>\<rparr>))
                  else re_exec x n no_recurse (s\<lparr>vm_thread := t\<lparr>th_pc := pc\<rparr>\<rparr>)))"
| "re_quant x 0 pc1 quant_max q s = OutOfFuel"
| "re_quant x (Suc n) pc1 quant_max q s =
     (case re_exec x n True (s\<lparr>vm_thread := (vm_thread s)\<lparr>th_pc := pc1\<rparr>\<rparr>) of
        Fault \<Rightarrow> Fault
      | OutOfFuel \<Rightarrow> OutOfFuel
      | Returns (ReError, s1) \<Rightarrow> Returns (None, s1)
      | Returns (ReNoMatch, s1) \<Rightarrow>
          (case after_body s s1 (th_cptr (vm_thread s)) of None \<Rightarrow> Fault | Some s \<Rightarrow> Returns (Some q, s))
      | Returns (ReMatch p, s1) \<Rightarrow>
          (case after_body s s1 p of
             None \<Rightarrow> Fault
           | Some s \<Rightarrow>
               if quant_limit quant_max (q + 1) then Returns (Some (q + 1), s)
               else re_quant x n pc1 quant_max (q + 1) s))"
| "re_recurse x n ret s =
     (case re_unwind x ret (vm_states s) of
        None \<Rightarrow> Fault
      | Some (UReturn None) \<Rightarrow> Returns (ReNoMatch, s\<lparr>vm_states := []\<rparr>)
      | Some (UReturn (Some t)) \<Rightarrow> Returns (ReMatch (th_cptr t), s\<lparr>vm_states := [], vm_thread := t\<rparr>)
      | Some (UResume t states) \<Rightarrow> re_exec x n False (s\<lparr>vm_thread := t, vm_states := states\<rparr>))"

section \<open>Matching\<close>

text \<open>
  \<open>lre_exec\<close>: the flags, the number of captures and the depth of the operand stack come from the header
  of the compiled expression. The result of a match is in the captures.
\<close>

definition re_context :: "(nat \<Rightarrow> bool) \<Rightarrow> u8 list \<Rightarrow> u16 list \<Rightarrow> nat \<Rightarrow> re_ctx option" where
  "re_context alloc bc_buf cbuf cbuf_type = do {
     re_flags \<leftarrow> get_u16 bc_buf 0;
     capture_count \<leftarrow> load bc_buf 2;
     stack_size \<leftarrow> load bc_buf 3;
     let is_unicode = (re_flags AND 16 \<noteq> 0);
     Some \<lparr>re_bc = bc_buf, re_cbuf = cbuf, re_cbuf_type = (if cbuf_type = 1 \<and> is_unicode then 2 else cbuf_type),
       re_capture_count = unat capture_count, re_stack_size_max = unat stack_size, re_multi_line = (re_flags AND 4 \<noteq> 0),
       re_ignore_case = (re_flags AND 2 \<noteq> 0), re_is_unicode = is_unicode, re_alloc = alloc\<rparr> }"

definition start_thread :: "re_ctx \<Rightarrow> nat \<Rightarrow> thread" where
  "start_thread x cindex = \<lparr>th_pc = 8, th_cptr = cindex, th_capture = replicate (2 * re_capture_count x) None, th_stack = []\<rparr>"

definition lre_exec :: "(nat \<Rightarrow> bool) \<Rightarrow> u8 list \<Rightarrow> u16 list \<Rightarrow> nat \<Rightarrow> nat \<Rightarrow> nat \<Rightarrow> (re_ret \<times> re_vm) run" where
  "lre_exec alloc bc_buf cbuf cindex cbuf_type fuel =
     (case re_context alloc bc_buf cbuf cbuf_type of
        None \<Rightarrow> Fault
      | Some x \<Rightarrow> re_exec x fuel False \<lparr>vm_thread = start_thread x cindex, vm_states = [], vm_states_size = 0\<rparr>)"

end
