(* ===== verification/RegexpStep.thy ===== *)
theory RegexpStep
  imports RegexpVM
begin

text \<open>
  Facts on single instructions of the matcher: positions stay inside the subject and between
  characters, and the search in a character class decides membership.
\<close>

section \<open>Positions\<close>

text \<open>In UTF-16 mode a position inside a surrogate pair is not between characters.\<close>

definition mid_pair :: "re_ctx \<Rightarrow> nat \<Rightarrow> bool" where
  "mid_pair x p = (re_cbuf_type x = 2 \<and> 0 < p \<and> p < length (re_cbuf x)
     \<and> is_hi_surrogate (ucast (re_cbuf x ! (p - 1))) \<and> is_lo_surrogate (ucast (re_cbuf x ! p)))"

definition pos_ok :: "re_ctx \<Rightarrow> nat \<Rightarrow> bool" where
  "pos_ok x p = (p \<le> length (re_cbuf x) \<and> \<not> mid_pair x p)"

definition th_ok :: "re_ctx \<Rightarrow> thread \<Rightarrow> bool" where
  "th_ok x t = (pos_ok x (th_cptr t) \<and> (\<forall>p. Some p \<in> set (th_capture t) \<longrightarrow> pos_ok x p))"

lemma re_unit_Some: "re_unit x p = Some c \<longleftrightarrow> p < length (re_cbuf x) \<and> c = ucast (re_cbuf x ! p)"
  by (auto simp: re_unit_def load_def)

lemma hi_not_lo: "is_hi_surrogate c \<Longrightarrow> \<not> is_lo_surrogate c"
  by (simp add: is_hi_surrogate_def is_lo_surrogate_def)

lemma get_char_ok:
  assumes "pos_ok x p" "get_char x p (length (re_cbuf x)) = Some (c, p')"
  shows "pos_ok x p'" "p < p'" "prev_char x p' = Some p"
proof -
  let ?u = "\<lambda>i. ucast (re_cbuf x ! i) :: u32"
  have p: "p < length (re_cbuf x)" using assms(2) by (auto simp: get_char_def bind_eq_Some_conv re_unit_Some)
  consider (pair) "re_cbuf_type x = 2" "is_hi_surrogate (?u p)" "p + 1 < length (re_cbuf x)" "is_lo_surrogate (?u (p + 1))" "p' = p + 2"
    | (single) "p' = p + 1" "\<not> (re_cbuf_type x = 2 \<and> is_hi_surrogate (?u p) \<and> p + 1 < length (re_cbuf x) \<and> is_lo_surrogate (?u (p + 1)))"
    using assms(2) by (fastforce simp: get_char_def bind_eq_Some_conv re_unit_Some split: if_splits)
  then have "pos_ok x p' \<and> p < p' \<and> prev_char x p' = Some p"
  proof cases
    case pair
    then have "\<not> is_hi_surrogate (?u (p + 1))" using hi_not_lo by blast
    then show ?thesis using pair
      by (auto simp: pos_ok_def mid_pair_def prev_char_def get_prev_char_def re_unit_def load_def)
  next
    case single
    then have "\<not> (re_cbuf_type x = 2 \<and> is_lo_surrogate (?u p) \<and> 0 < p \<and> is_hi_surrogate (?u (p - 1)))"
      using assms(1) p by (auto simp: pos_ok_def mid_pair_def)
    then show ?thesis using single p
      by (auto simp: pos_ok_def mid_pair_def prev_char_def get_prev_char_def re_unit_def load_def)
  qed
  then show "pos_ok x p'" "p < p'" "prev_char x p' = Some p" by auto
qed

lemma get_prev_char_ok:
  assumes "pos_ok x p" "get_prev_char x p 0 = Some (c, p')"
  shows "pos_ok x p'"
proof -
  let ?u = "\<lambda>i. ucast (re_cbuf x ! i) :: u32"
  have p: "0 < p" "p \<le> length (re_cbuf x)"
    using assms by (auto simp: pos_ok_def get_prev_char_def split: if_splits)
  consider (pair) "is_hi_surrogate (?u (p - 2))" "1 < p" "p' = p - 2"
    | (single) "p' = p - 1" "\<not> (re_cbuf_type x = 2 \<and> is_lo_surrogate (?u (p - 1)) \<and> 1 < p \<and> is_hi_surrogate (?u (p - 2)))"
    using assms(2) p by (fastforce simp: get_prev_char_def bind_eq_Some_conv re_unit_Some split: if_splits)
  then show ?thesis
  proof cases
    case pair
    then have "\<not> is_lo_surrogate (?u (p - 2))" using hi_not_lo by blast
    then show ?thesis using pair p by (auto simp: pos_ok_def mid_pair_def)
  next
    case single
    then show ?thesis using p by (auto simp: pos_ok_def mid_pair_def numeral_2_eq_2)
  qed
qed

lemma prev_char_ok: "pos_ok x p \<Longrightarrow> prev_char x p = Some p' \<Longrightarrow> pos_ok x p'"
  using get_prev_char_ok by (auto simp: prev_char_def)

section \<open>Instructions keep positions\<close>

fun op_all :: "(thread \<Rightarrow> bool) \<Rightarrow> re_op \<Rightarrow> bool" where
  "op_all P (OpBreak t) = P t"
| "op_all P (OpPush type s t) = (P s \<and> P t)"
| "op_all P _ = True"

lemma th_ok_upd [simp]:
  "th_ok x (t\<lparr>th_pc := pc\<rparr>) = th_ok x t" "th_ok x (t\<lparr>th_stack := st\<rparr>) = th_ok x t"
  by (simp_all add: th_ok_def)

lemma th_ok_cptr: "th_ok x t \<Longrightarrow> pos_ok x p \<Longrightarrow> th_ok x (t\<lparr>th_pc := pc, th_cptr := p\<rparr>)"
  by (simp add: th_ok_def)

lemma test_char_ok: "th_ok x t \<Longrightarrow> test_char x t pc val = Some op \<Longrightarrow> op_all (th_ok x) op"
  by (auto simp: test_char_def bind_eq_Some_conv th_ok_def dest: get_char_ok split: if_splits)

lemma test_any_ok: "th_ok x t \<Longrightarrow> test_any x t pc dot = Some op \<Longrightarrow> op_all (th_ok x) op"
  by (auto simp: test_any_def bind_eq_Some_conv th_ok_def dest: get_char_ok split: if_splits)

lemma test_range_ok: "th_ok x t \<Longrightarrow> test_range x t pc wide = Some op \<Longrightarrow> op_all (th_ok x) op"
  by (auto simp: test_range_def bind_eq_Some_conv Let_def th_ok_def dest: get_char_ok split: if_splits)

lemma line_test_ok: "th_ok x t \<Longrightarrow> line_test x t pc e c = Some op \<Longrightarrow> op_all (th_ok x) op"
  by (auto simp: line_test_def bind_eq_Some_conv split: if_splits)

lemma word_boundary_ok: "th_ok x t \<Longrightarrow> word_boundary x t pc neg = Some op \<Longrightarrow> op_all (th_ok x) op"
  by (auto simp: word_boundary_def bind_eq_Some_conv split: if_splits)

lemma push_stack_ok: "th_ok x t \<Longrightarrow> push_stack x t pc v = Some op \<Longrightarrow> op_all (th_ok x) op"
  by (auto simp: push_stack_def th_ok_def split: if_splits)

lemma save_capture_ok: "th_ok x t \<Longrightarrow> save_capture x t pc side = Some op \<Longrightarrow> op_all (th_ok x) op"
  by (auto simp: save_capture_def bind_eq_Some_conv store_Some_iff th_ok_def dest!: subsetD [OF set_update_subset_insert] split: if_splits)

lemma reset_fold_set:
  "set (fold (\<lambda>i c. c[2 * i := None, 2 * i + 1 := None]) is c) \<subseteq> insert None (set c)" for c :: "'a option list"
proof (induction "is" arbitrary: c)
  case (Cons i "is")
  have "set (c[2 * i := None, 2 * i + 1 := None]) \<subseteq> insert None (set c)"
    using set_update_subset_insert [of "c[2 * i := None]" "2 * i + 1" None] set_update_subset_insert [of c "2 * i" None] by auto
  then show ?case using Cons [of "c[2 * i := None, 2 * i + 1 := None]"] by auto
qed auto

lemma reset_loop_set: "Some p \<in> set (reset_loop i j c) \<Longrightarrow> Some p \<in> set c"
  unfolding reset_loop_def using reset_fold_set by fastforce

lemma reset_captures_ok: "th_ok x t \<Longrightarrow> reset_captures x t pc = Some op \<Longrightarrow> op_all (th_ok x) op"
  by (auto simp: reset_captures_def bind_eq_Some_conv th_ok_def dest!: reset_loop_set split: if_splits)

lemma back_ref_loop_ok: "pos_ok x p \<Longrightarrow> back_ref_loop x n q e p = Some (Some p') \<Longrightarrow> pos_ok x p'"
  by (induction n arbitrary: q p) (auto simp: bind_eq_Some_conv dest: get_char_ok split: if_splits)

lemma backward_ref_loop_ok: "pos_ok x p \<Longrightarrow> backward_ref_loop x n q s p = Some (Some p') \<Longrightarrow> pos_ok x p'"
  by (induction n arbitrary: q p) (auto simp: bind_eq_Some_conv dest: get_prev_char_ok split: if_splits)

lemma back_reference_ok:
  assumes ok: "th_ok x t" and step: "back_reference x t pc backward = Some op"
  shows "op_all (th_ok x) op"
proof -
  obtain val where val: "get_u8 (re_bc x) pc = Some val" using step by (auto simp: back_reference_def bind_eq_Some_conv)
  show ?thesis
  proof (cases "re_capture_count x \<le> unat val")
    case True
    then show ?thesis using step val by (auto simp: back_reference_def)
  next
    case False
    then obtain a b where ab: "load (th_capture t) (2 * unat val) = Some a" "load (th_capture t) (2 * unat val + 1) = Some b"
      using step val by (auto simp: back_reference_def bind_eq_Some_conv)
    show ?thesis
      using step ok unfolding back_reference_def val ab bind.bind_lunit if_not_P [OF False]
      by (cases a; cases b)
        (auto simp: bind_eq_Some_conv th_ok_def split: if_splits option.splits,
         (metis back_ref_loop_ok backward_ref_loop_ok)+)
  qed
qed

lemma prev_ok: "th_ok x t \<Longrightarrow> prev_char x (th_cptr t) = Some p \<Longrightarrow> th_ok x (t\<lparr>th_pc := pc, th_cptr := p\<rparr>)"
  by (rule th_ok_cptr) (auto simp: th_ok_def intro: prev_char_ok)

lemmas op_oks = test_char_ok test_any_ok test_range_ok line_test_ok word_boundary_ok push_stack_ok save_capture_ok
  reset_captures_ok back_reference_ok

lemma re_step_ok:
  assumes ok: "th_ok x t" and step: "re_step x t = Some op"
  shows "op_all (th_ok x) op"
proof -
  obtain b opcode where b: "load (re_bc x) (th_pc t) = Some b" "load reops (unat b) = Some opcode"
    using step by (auto simp: re_step_def bind_eq_Some_conv)
  show ?thesis
    using step ok unfolding re_step_def b bind.bind_lunit Let_def
    by (cases opcode; cases "th_stack t")
      (auto simp: bind_eq_Some_conv push_thread_def dest: op_oks intro: prev_ok split: list.splits if_splits)
qed

section \<open>Character classes\<close>

text \<open>What the compiler lays out: \<open>n\<close> intervals in increasing order, none of them empty.\<close>

definition intervals_ok :: "(nat \<Rightarrow> u32 option) \<Rightarrow> (nat \<Rightarrow> u32 option) \<Rightarrow> (nat \<Rightarrow> u32) \<Rightarrow> (nat \<Rightarrow> u32) \<Rightarrow> nat \<Rightarrow> bool" where
  "intervals_ok lo hi L H n = (0 < n \<and> n < 2 ^ 16
     \<and> (\<forall>i<n. lo i = Some (L i) \<and> hi i = Some (H i) \<and> L i \<le> H i) \<and> (\<forall>i j. i < j \<longrightarrow> j < n \<longrightarrow> H i < L j))"

lemma range_search_spec:
  assumes ok: "intervals_ok lo hi L H n" and c: "L 0 \<le> c" and bounds: "idx_max < n" "idx_max + 1 - idx_min \<le> m"
    and left: "\<And>i. i < idx_min \<Longrightarrow> H i < c" and right: "\<And>i. idx_max < i \<Longrightarrow> i < n \<Longrightarrow> c < L i"
  shows "range_search lo hi c m idx_min idx_max = Some (\<exists>i<n. L i \<le> c \<and> c \<le> H i)"
  using bounds left right
proof (induction m arbitrary: idx_min idx_max)
  case 0
  then have out: "i < idx_min \<or> idx_max < i" for i by linarith
  have "\<not> (L i \<le> c \<and> c \<le> H i)" if "i < n" for i
    using out [of i] 0(3) [of i] 0(4) [OF _ that] by auto
  then show ?case using 0 by auto
next
  case (Suc m)
  show ?case
  proof (cases "idx_min \<le> idx_max")
    case False
    then have out: "i < idx_min \<or> idx_max < i" for i by linarith
    have "\<not> (L i \<le> c \<and> c \<le> H i)" if "i < n" for i
      using out [of i] Suc.prems(3) [of i] Suc.prems(4) [OF _ that] by auto
    then show ?thesis using False by auto
  next
    case True
    define idx where "idx = (idx_min + idx_max) div 2"
    have idx: "idx_min \<le> idx" "idx \<le> idx_max" "idx < n" using True Suc.prems(1) by (auto simp: idx_def)
    have vals: "lo idx = Some (L idx)" "hi idx = Some (H idx)" "L idx \<le> H idx" using ok idx by (auto simp: intervals_ok_def)
    have mono: "H i < L j" if "i < j" "j < n" for i j using ok that by (auto simp: intervals_ok_def)
    have inner: "L i \<le> H i" if "i < n" for i using ok that by (auto simp: intervals_ok_def)
    have step: "range_search lo hi c (Suc m) idx_min idx_max
        = (if c < L idx then range_search lo hi c m idx_min (if idx = 0 then 2 ^ 32 - 1 else idx - 1)
           else if H idx < c then range_search lo hi c m (idx + 1) idx_max else Some True)"
      using True vals(1,2) by (simp add: idx_def [symmetric])
    consider (below) "c < L idx" | (above) "H idx < c" "\<not> c < L idx" | (inside) "L idx \<le> c" "c \<le> H idx" by force
    then show ?thesis
    proof cases
      case below
      then have "0 < idx" using c by (cases idx) auto
      moreover have "range_search lo hi c m idx_min (idx - 1) = Some (\<exists>i<n. L i \<le> c \<and> c \<le> H i)"
      proof (rule Suc.IH)
        show "idx - 1 < n" "idx - 1 + 1 - idx_min \<le> m" using idx Suc.prems(2) \<open>0 < idx\<close> by auto
        show "H i < c" if "i < idx_min" for i using Suc.prems(3) that .
        show "c < L i" if "idx - 1 < i" "i < n" for i
        proof (cases "i = idx")
          case False
          then have "L idx \<le> H idx" "H idx < L i" using that mono vals(3) by auto
          then show ?thesis using below by simp
        qed (use below in simp)
      qed
      ultimately show ?thesis using below step by simp
    next
      case above
      have "range_search lo hi c m (idx + 1) idx_max = Some (\<exists>i<n. L i \<le> c \<and> c \<le> H i)"
      proof (rule Suc.IH)
        show "idx_max < n" "idx_max + 1 - (idx + 1) \<le> m" using idx Suc.prems(1,2) by auto
        show "H i < c" if "i < idx + 1" for i
        proof (cases "i = idx")
          case False
          then have "H i < L idx" "L idx \<le> H idx" using that mono idx vals(3) by auto
          then show ?thesis using above by simp
        qed (use above in simp)
        show "c < L i" if "idx_max < i" "i < n" for i using Suc.prems(4) that .
      qed
      then show ?thesis using above step by simp
    next
      case inside
      then show ?thesis using step idx(3) by auto
    qed
  qed
qed

lemma range_match_spec:
  assumes ok: "intervals_ok lo hi L H n"
  shows "range_match lo hi open_end n c
    = Some ((\<exists>i<n. L i \<le> c \<and> c \<le> H i) \<or> open_end \<and> H (n - 1) = 0xffff \<and> 0xffff \<le> c)"
proof -
  have n: "0 < n" and first: "lo 0 = Some (L 0)" and last: "hi (n - 1) = Some (H (n - 1))"
    and mono: "\<And>i j. i < j \<Longrightarrow> j < n \<Longrightarrow> H i < L j" and inner: "\<And>i. i < n \<Longrightarrow> L i \<le> H i"
    using ok by (auto simp: intervals_ok_def)
  have low: "L 0 \<le> L i" if "i < n" for i
    using mono [of 0 i] inner [of 0] that n by (cases "i = 0") auto
  have high: "H i \<le> H (n - 1)" if "i < n" for i
  proof (cases "i = n - 1")
    case False
    then have "H i < L (n - 1)" using mono [of i "n - 1"] that n by simp
    then show ?thesis using inner [of "n - 1"] n by simp
  qed simp
  have step: "range_match lo hi open_end n c = (if c < L 0 then Some False
      else if open_end \<and> 0xffff \<le> c \<and> H (n - 1) = 0xffff then Some True
      else if H (n - 1) < c then Some False else range_search lo hi c n 0 (n - 1))"
    using n first last by (simp add: range_match_def)
  consider "c < L 0" | "L 0 \<le> c" "open_end \<and> 0xffff \<le> c \<and> H (n - 1) = 0xffff"
    | "L 0 \<le> c" "\<not> (open_end \<and> 0xffff \<le> c \<and> H (n - 1) = 0xffff)" "H (n - 1) < c"
    | "L 0 \<le> c" "\<not> (open_end \<and> 0xffff \<le> c \<and> H (n - 1) = 0xffff)" "c \<le> H (n - 1)" by force
  then show ?thesis
  proof cases
    case 1
    have "\<not> (L i \<le> c)" if "i < n" for i using low [OF that] 1 by (meson leD less_le_trans)
    moreover have "\<not> (H (n - 1) = 0xffff \<and> 0xffff \<le> c)"
      using 1 high [OF n] inner [OF n] by (metis leD less_le_trans order_trans)
    ultimately show ?thesis using 1 step by auto
  next
    case 2
    then show ?thesis using step by auto
  next
    case 3
    have "\<not> (c \<le> H i)" if "i < n" for i using high [OF that] 3(3) by (meson leD le_less_trans)
    then show ?thesis using 3 step by auto
  next
    case 4
    have "range_search lo hi c n 0 (n - 1) = Some (\<exists>i<n. L i \<le> c \<and> c \<le> H i)"
      by (rule range_search_spec [OF ok 4(1)]) (use n in auto)
    then show ?thesis using 4 step by auto
  qed
qed

end
