(* ===== verification/RegexpSem.thy ===== *)
theory RegexpSem
  imports RegexpStep
begin

text \<open>
  Backtracking as a big-step relation, and the proof that the interpreter of \<^theory_text>\<open>RegexpVM\<close>, with its
  stack of saved states and its shortcut for greedy quantifiers, computes it.
\<close>

section \<open>Code that a quantifier repeats\<close>

definition opcode_at :: "u8 list \<Rightarrow> nat \<Rightarrow> reop option" where
  "opcode_at bc pc = do { b \<leftarrow> load bc pc; load reops (unat b) }"

fun reopcode_size :: "reop \<Rightarrow> nat" where
  "reopcode_size REOP_char8 = 2"
| "reopcode_size REOP_char16 = 3"
| "reopcode_size REOP_char32 = 5"
| "reopcode_size REOP_goto = 5"
| "reopcode_size REOP_split_goto_first = 5"
| "reopcode_size REOP_split_next_first = 5"
| "reopcode_size REOP_save_start = 2"
| "reopcode_size REOP_save_end = 2"
| "reopcode_size REOP_save_reset = 3"
| "reopcode_size REOP_loop = 5"
| "reopcode_size REOP_push_i32 = 5"
| "reopcode_size REOP_back_reference = 2"
| "reopcode_size REOP_backward_back_reference = 2"
| "reopcode_size REOP_range = 3"
| "reopcode_size REOP_range32 = 3"
| "reopcode_size REOP_lookahead = 5"
| "reopcode_size REOP_negative_lookahead = 5"
| "reopcode_size REOP_simple_greedy_quant = 17"
| "reopcode_size _ = 1"

text \<open>
  \<open>re_is_simple_quantifier\<close> on the code from \<open>start\<close> to \<open>stop\<close>: the number of characters that it
  reads, or -1. The loop also returns its last position; the fuel is the length of the code.
\<close>

primrec simple_quantifier_loop :: "u8 list \<Rightarrow> nat \<Rightarrow> nat \<Rightarrow> nat \<Rightarrow> int \<Rightarrow> (int \<times> nat) option" where
  "simple_quantifier_loop bc stop 0 pos cnt = (if pos < stop then None else Some (cnt, pos))"
| "simple_quantifier_loop bc stop (Suc n) pos cnt =
     (if \<not> pos < stop then Some (cnt, pos)
      else do {
        opcode \<leftarrow> opcode_at bc pos;
        let len = reopcode_size opcode;
        if opcode = REOP_range then do {
          val \<leftarrow> get_u16 bc (pos + 1);
          simple_quantifier_loop bc stop n (pos + (len + 4 * unat val)) (cnt + 1) }
        else if opcode = REOP_range32 then do {
          val \<leftarrow> get_u16 bc (pos + 1);
          simple_quantifier_loop bc stop n (pos + (len + 8 * unat val)) (cnt + 1) }
        else if opcode \<in> {REOP_char32, REOP_char16, REOP_char8, REOP_dot, REOP_any}
        then simple_quantifier_loop bc stop n (pos + len) (cnt + 1)
        else if opcode \<in> {REOP_line_start, REOP_line_end, REOP_word_boundary, REOP_not_word_boundary}
        then simple_quantifier_loop bc stop n (pos + len) cnt
        else Some (- 1, pos) })"

definition re_is_simple_quantifier :: "u8 list \<Rightarrow> nat \<Rightarrow> nat \<Rightarrow> int option" where
  "re_is_simple_quantifier bc start stop = map_option fst (simple_quantifier_loop bc stop (stop - start) start 0)"

text \<open>The code at \<open>pc\<close> reads \<open>k\<close> characters and then reports the match.\<close>

inductive simple_body :: "re_ctx \<Rightarrow> nat \<Rightarrow> nat \<Rightarrow> bool" for x where
  body_match: "opcode_at (re_bc x) pc = Some REOP_match \<Longrightarrow> simple_body x pc 0"
| body_char: "opcode_at (re_bc x) pc = Some opcode \<Longrightarrow>
    opcode \<in> {REOP_char32, REOP_char16, REOP_char8, REOP_dot, REOP_any} \<Longrightarrow>
    simple_body x (pc + reopcode_size opcode) k \<Longrightarrow> simple_body x pc (Suc k)"
| body_range: "opcode_at (re_bc x) pc = Some REOP_range \<Longrightarrow> get_u16 (re_bc x) (pc + 1) = Some val \<Longrightarrow>
    simple_body x (pc + 3 + 4 * unat val) k \<Longrightarrow> simple_body x pc (Suc k)"
| body_range32: "opcode_at (re_bc x) pc = Some REOP_range32 \<Longrightarrow> get_u16 (re_bc x) (pc + 1) = Some val \<Longrightarrow>
    simple_body x (pc + 3 + 8 * unat val) k \<Longrightarrow> simple_body x pc (Suc k)"
| body_assert: "opcode_at (re_bc x) pc = Some opcode \<Longrightarrow>
    opcode \<in> {REOP_line_start, REOP_line_end, REOP_word_boundary, REOP_not_word_boundary} \<Longrightarrow>
    simple_body x (pc + 1) k \<Longrightarrow> simple_body x pc k"

text \<open>Code that the test accepts, with a match after it, has this form.\<close>

lemma simple_quantifier_loop_body:
  assumes "simple_quantifier_loop (re_bc x) stop n pos c = Some (r, stop)" "0 \<le> c" "r \<noteq> - 1"
    "opcode_at (re_bc x) stop = Some REOP_match"
  shows "c \<le> r \<and> simple_body x pos (nat (r - c))"
  using assms
proof (induction n arbitrary: pos c)
  case 0
  then show ?case using body_match [of x pos] by (simp split: if_splits)
next
  case (Suc n)
  show ?case
  proof (cases "pos < stop")
    case False
    then show ?thesis using Suc.prems body_match [of x pos] by simp
  next
    case True
    obtain opcode where opcode: "opcode_at (re_bc x) pos = Some opcode"
      using Suc.prems(1) True by (auto simp: bind_eq_Some_conv)
    have more: "c \<le> r \<and> simple_body x pos (nat (r - c))"
      if "c + 1 \<le> r \<and> simple_body x p (nat (r - (c + 1)))"
        "\<And>k. simple_body x p k \<Longrightarrow> simple_body x pos (Suc k)" for p
    proof -
      have "Suc (nat (r - (c + 1))) = nat (r - c)" using that(1) by arith
      then show ?thesis using that(1) that(2) [of "nat (r - (c + 1))"] by auto
    qed
    consider (range) "opcode = REOP_range" | (range32) "opcode = REOP_range32"
      | (char) "opcode \<in> {REOP_char32, REOP_char16, REOP_char8, REOP_dot, REOP_any}"
      | (test) "opcode \<in> {REOP_line_start, REOP_line_end, REOP_word_boundary, REOP_not_word_boundary}"
      using Suc.prems(1,3) True opcode by (fastforce split: if_splits)
    then show ?thesis
    proof cases
      case range
      then obtain val where val: "get_u16 (re_bc x) (pos + 1) = Some val"
        "simple_quantifier_loop (re_bc x) stop n (pos + (3 + 4 * unat val)) (c + 1) = Some (r, stop)"
        using Suc.prems(1) True opcode by (auto simp: bind_eq_Some_conv)
      have "simple_body x pos (Suc k)" if "simple_body x (pos + (3 + 4 * unat val)) k" for k
        using body_range [OF opcode [unfolded range] val(1)] that by (simp add: add.assoc)
      then show ?thesis using more [OF Suc.IH [OF val(2) _ Suc.prems(3,4)]] Suc.prems(2) by simp
    next
      case range32
      then obtain val where val: "get_u16 (re_bc x) (pos + 1) = Some val"
        "simple_quantifier_loop (re_bc x) stop n (pos + (3 + 8 * unat val)) (c + 1) = Some (r, stop)"
        using Suc.prems(1) True opcode by (auto simp: bind_eq_Some_conv)
      have "simple_body x pos (Suc k)" if "simple_body x (pos + (3 + 8 * unat val)) k" for k
        using body_range32 [OF opcode [unfolded range32] val(1)] that by (simp add: add.assoc)
      then show ?thesis using more [OF Suc.IH [OF val(2) _ Suc.prems(3,4)]] Suc.prems(2) by simp
    next
      case char
      then have loop: "simple_quantifier_loop (re_bc x) stop n (pos + reopcode_size opcode) (c + 1) = Some (r, stop)"
        using Suc.prems(1) True opcode by auto
      show ?thesis using more [OF Suc.IH [OF loop _ Suc.prems(3,4)] body_char [OF opcode char]] Suc.prems(2) by simp
    next
      case test
      then have "simple_quantifier_loop (re_bc x) stop n (pos + 1) c = Some (r, stop)"
        using Suc.prems(1) True opcode by auto
      then show ?thesis using body_assert [OF opcode test] Suc.IH Suc.prems by blast
    qed
  qed
qed

lemma re_step_opcode:
  "re_step x t = Some op \<Longrightarrow> \<exists>opcode. opcode_at (re_bc x) (th_pc t) = Some opcode"
  by (auto simp: re_step_def opcode_at_def bind_eq_Some_conv)

text \<open>What the tests of one character do.\<close>

definition reads_char :: "re_ctx \<Rightarrow> thread \<Rightarrow> nat \<Rightarrow> re_op \<Rightarrow> bool" where
  "reads_char x t pc op = (op = OpNoMatch
     \<or> (\<exists>c p. get_char x (th_cptr t) (length (re_cbuf x)) = Some (c, p) \<and> op = OpBreak (t\<lparr>th_pc := pc, th_cptr := p\<rparr>)))"

lemma test_char_reads: "test_char x t pc val = Some op \<Longrightarrow> reads_char x t pc op"
  by (auto simp: test_char_def reads_char_def bind_eq_Some_conv split: if_splits)

lemma test_any_reads: "test_any x t pc dot = Some op \<Longrightarrow> reads_char x t pc op"
  by (auto simp: test_any_def reads_char_def bind_eq_Some_conv split: if_splits)

lemma test_range_reads:
  "test_range x t pc wide = Some op \<Longrightarrow> get_u16 (re_bc x) pc = Some n \<Longrightarrow>
     reads_char x t (pc + 2 + (if wide then 8 else 4) * unat n) op"
  by (auto simp: test_range_def reads_char_def bind_eq_Some_conv Let_def split: if_splits)

lemma line_test_stays: "line_test x t pc e c = Some op \<Longrightarrow> op = OpNoMatch \<or> op = OpBreak (t\<lparr>th_pc := pc\<rparr>)"
  by (auto simp: line_test_def bind_eq_Some_conv split: if_splits)

lemma word_boundary_stays: "word_boundary x t pc neg = Some op \<Longrightarrow> op = OpNoMatch \<or> op = OpBreak (t\<lparr>th_pc := pc\<rparr>)"
  by (auto simp: word_boundary_def bind_eq_Some_conv split: if_splits)

text \<open>One instruction of such code.\<close>

lemma body_step:
  assumes body: "simple_body x (th_pc t) k" and step: "re_step x t = Some op"
  obtains (no_match) "op = OpNoMatch" | (match) "op = OpMatch" "k = 0"
  | (char) t' k' c where "op = OpBreak t'" "k = Suc k'" "simple_body x (th_pc t') k'"
      "get_char x (th_cptr t) (length (re_cbuf x)) = Some (c, th_cptr t')" "th_capture t' = th_capture t" "th_stack t' = th_stack t"
  | (test) t' where "op = OpBreak t'" "simple_body x (th_pc t') k" "th_cptr t' = th_cptr t"
      "th_capture t' = th_capture t" "th_stack t' = th_stack t"
proof -
  have step_at: "\<exists>b. load (re_bc x) (th_pc t) = Some b \<and> load reops (unat b) = Some opcode"
    if "opcode_at (re_bc x) (th_pc t) = Some opcode" for opcode
    using that by (auto simp: opcode_at_def bind_eq_Some_conv)
  have reads: thesis if "reads_char x t pc op" "k = Suc k'" "simple_body x pc k'" for pc k'
    using that no_match char [of "t\<lparr>th_pc := pc, th_cptr := p\<rparr>" k' c for p c] by (auto simp: reads_char_def)
  show ?thesis
    using body
  proof cases
    case body_match
    then show ?thesis using step step_at match by (fastforce simp: re_step_def)
  next
    case (body_char opcode k')
    then obtain b where b: "load (re_bc x) (th_pc t) = Some b" "load reops (unat b) = Some opcode" using step_at by blast
    from step have "reads_char x t (th_pc t + reopcode_size opcode) op"
      unfolding re_step_def b bind.bind_lunit Let_def using body_char(3)
      by (auto simp: bind_eq_Some_conv ac_simps numeral_3_eq_3 dest!: test_char_reads test_any_reads)
    then show ?thesis using reads body_char(1,4) by blast
  next
    case (body_range val k')
    then obtain b where b: "load (re_bc x) (th_pc t) = Some b" "load reops (unat b) = Some REOP_range" using step_at by blast
    from step have "reads_char x t (th_pc t + 1 + 2 + 4 * unat val) op"
      unfolding re_step_def b bind.bind_lunit Let_def using test_range_reads [OF _ body_range(3)] by force
    then show ?thesis using reads body_range(1,4) by (simp add: numeral_3_eq_3)
  next
    case (body_range32 val k')
    then obtain b where b: "load (re_bc x) (th_pc t) = Some b" "load reops (unat b) = Some REOP_range32" using step_at by blast
    from step have "reads_char x t (th_pc t + 1 + 2 + 8 * unat val) op"
      unfolding re_step_def b bind.bind_lunit Let_def using test_range_reads [OF _ body_range32(3)] by force
    then show ?thesis using reads body_range32(1,4) by (simp add: numeral_3_eq_3)
  next
    case (body_assert opcode)
    then obtain b where b: "load (re_bc x) (th_pc t) = Some b" "load reops (unat b) = Some opcode" using step_at by blast
    from step have "op = OpNoMatch \<or> op = OpBreak (t\<lparr>th_pc := th_pc t + 1\<rparr>)"
      unfolding re_step_def b bind.bind_lunit Let_def using body_assert(2)
      by (auto dest!: line_test_stays word_boundary_stays)
    then show ?thesis using no_match test [of "t\<lparr>th_pc := th_pc t + 1\<rparr>"] body_assert(3) by auto
  qed
qed

section \<open>Backtracking\<close>

text \<open>
  \<open>bt x t r\<close>: from the thread \<open>t\<close> the first alternative that matches ends with the thread \<open>r\<close>, or none
  matches. Of the two threads of a split the second is tried when the first fails. A lookahead runs
  on its own; only a successful positive one leaves its captures. A greedy quantifier repeats its code
  as often as it can (\<open>bt_iter\<close> collects the positions after each round) and then goes on from the last
  position that leads to a match (\<open>bt_any\<close>), down to the smallest number of rounds.
\<close>

definition candidates :: "thread \<Rightarrow> nat \<Rightarrow> nat list \<Rightarrow> thread list" where
  "candidates t pc ps = map (\<lambda>p. t\<lparr>th_pc := pc, th_cptr := p\<rparr>) (rev ps)"

inductive bt :: "re_ctx \<Rightarrow> thread \<Rightarrow> thread option \<Rightarrow> bool"
  and bt_any :: "re_ctx \<Rightarrow> thread list \<Rightarrow> thread option \<Rightarrow> bool"
  and bt_iter :: "re_ctx \<Rightarrow> nat \<Rightarrow> nat \<Rightarrow> thread \<Rightarrow> nat list \<Rightarrow> bool" for x where
  bt_break: "re_step x t = Some (OpBreak t') \<Longrightarrow> bt x t' r \<Longrightarrow> bt x t r"
| bt_no_match: "re_step x t = Some OpNoMatch \<Longrightarrow> bt x t None"
| bt_match: "re_step x t = Some OpMatch \<Longrightarrow> bt x t (Some t)"
| bt_first: "re_step x t = Some (OpPush RE_EXEC_STATE_SPLIT sv t') \<Longrightarrow> bt x t' (Some u) \<Longrightarrow> bt x t (Some u)"
| bt_second: "re_step x t = Some (OpPush RE_EXEC_STATE_SPLIT sv t') \<Longrightarrow> bt x t' None \<Longrightarrow> bt x sv r \<Longrightarrow> bt x t r"
| bt_ahead: "re_step x t = Some (OpPush RE_EXEC_STATE_LOOKAHEAD sv t') \<Longrightarrow> bt x t' (Some u)
    \<Longrightarrow> bt x (sv\<lparr>th_capture := th_capture u\<rparr>) r \<Longrightarrow> bt x t r"
| bt_ahead_fail: "re_step x t = Some (OpPush RE_EXEC_STATE_LOOKAHEAD sv t') \<Longrightarrow> bt x t' None \<Longrightarrow> bt x t None"
| bt_not_ahead: "re_step x t = Some (OpPush RE_EXEC_STATE_NEGATIVE_LOOKAHEAD sv t') \<Longrightarrow> bt x t' None \<Longrightarrow> bt x sv r \<Longrightarrow> bt x t r"
| bt_not_ahead_fail: "re_step x t = Some (OpPush RE_EXEC_STATE_NEGATIVE_LOOKAHEAD sv t') \<Longrightarrow> bt x t' (Some u) \<Longrightarrow> bt x t None"
| bt_quant: "re_step x t = Some (OpQuant pc1 pc quant_min quant_max) \<Longrightarrow> bt_iter x quant_max 0 (t\<lparr>th_pc := pc1\<rparr>) ps
    \<Longrightarrow> bt_any x (candidates t pc (drop quant_min (th_cptr t # ps))) r \<Longrightarrow> bt x t r"
| any_none: "bt_any x [] None"
| any_here: "bt x t (Some u) \<Longrightarrow> bt_any x (t # ts) (Some u)"
| any_later: "bt x t None \<Longrightarrow> bt_any x ts r \<Longrightarrow> bt_any x (t # ts) r"
| iter_stop: "bt x t None \<Longrightarrow> bt_iter x quant_max q t []"
| iter_limit: "bt x t (Some u) \<Longrightarrow> quant_limit quant_max (q + 1) \<Longrightarrow> bt_iter x quant_max q t [th_cptr u]"
| iter_more: "bt x t (Some u) \<Longrightarrow> \<not> quant_limit quant_max (q + 1) \<Longrightarrow> bt_iter x quant_max (q + 1) (t\<lparr>th_cptr := th_cptr u\<rparr>) ps
    \<Longrightarrow> bt_iter x quant_max q t (th_cptr u # ps)"

inductive_cases bt_anyE: "bt_any x ts r"

lemma th_ok_capture: "th_ok x u \<Longrightarrow> th_ok x t \<Longrightarrow> th_ok x (t\<lparr>th_capture := th_capture u\<rparr>)"
  by (simp add: th_ok_def)

lemma th_ok_pos: "th_ok x t \<Longrightarrow> pos_ok x (th_cptr t)"
  by (simp add: th_ok_def)

lemma candidates_ok:
  assumes "th_ok x t" "\<forall>p\<in>set ps. pos_ok x p"
  shows "\<forall>u\<in>set (candidates t pc (drop m (th_cptr t # ps))). th_ok x u"
proof
  fix u assume "u \<in> set (candidates t pc (drop m (th_cptr t # ps)))"
  then obtain p where p: "p \<in> set (drop m (th_cptr t # ps))" "u = t\<lparr>th_pc := pc, th_cptr := p\<rparr>"
    by (auto simp: candidates_def)
  have "p \<in> set (th_cptr t # ps)" using in_set_dropD [OF p(1)] .
  then have "pos_ok x p" using assms by (auto simp: th_ok_def)
  then show "th_ok x u" unfolding p(2) by (rule th_ok_cptr [OF assms(1)])
qed

text \<open>Every position and capture of a match is inside the subject, between characters.\<close>

lemma bt_positions:
  "bt x t r \<Longrightarrow> th_ok x t \<longrightarrow> (\<forall>u. r = Some u \<longrightarrow> th_ok x u)"
  "bt_any x ts r \<Longrightarrow> (\<forall>t\<in>set ts. th_ok x t) \<longrightarrow> (\<forall>u. r = Some u \<longrightarrow> th_ok x u)"
  "bt_iter x quant_max q t ps \<Longrightarrow> th_ok x t \<longrightarrow> (\<forall>p\<in>set ps. pos_ok x p)"
proof (induction rule: bt_bt_any_bt_iter.inducts)
  case (bt_ahead t sv t' u r)
  have "th_ok x (sv\<lparr>th_capture := th_capture u\<rparr>)" if "th_ok x t"
  proof -
    have "th_ok x sv" "th_ok x t'" using re_step_ok [OF that bt_ahead(1)] by simp_all
    then have "th_ok x u" using bt_ahead(3) by simp
    then show ?thesis using \<open>th_ok x sv\<close> by (rule th_ok_capture)
  qed
  then show ?case using bt_ahead(5) by blast
next
  case (bt_quant t pc1 pc quant_min quant_max ps r)
  have "\<forall>u\<in>set (candidates t pc (drop quant_min (th_cptr t # ps))). th_ok x u" if ok: "th_ok x t"
  proof (rule candidates_ok [OF ok])
    have "th_ok x (t\<lparr>th_pc := pc1\<rparr>)" using ok by simp
    then show "\<forall>p\<in>set ps. pos_ok x p" using bt_quant(3) by blast
  qed
  then show ?case using bt_quant(5) by blast
next
  case (iter_limit t u quant_max q)
  then show ?case using th_ok_pos [of x u] by auto
next
  case (iter_more t u quant_max q ps)
  have "pos_ok x (th_cptr u) \<and> (\<forall>p\<in>set ps. pos_ok x p)" if ok: "th_ok x t"
  proof -
    have "pos_ok x (th_cptr u)" using iter_more(2) ok th_ok_pos by blast
    moreover from this have "th_ok x (t\<lparr>th_cptr := th_cptr u\<rparr>)" using ok by (simp add: th_ok_def)
    ultimately show ?thesis using iter_more(3-5) by blast
  qed
  then show ?case by auto
next
  case (bt_break t t' r)
  have "th_ok x t'" if "th_ok x t" using re_step_ok [OF that bt_break(1)] by simp
  then show ?case using bt_break(3) by blast
next
  case (bt_first t sv t' u)
  have "th_ok x t'" if "th_ok x t" using re_step_ok [OF that bt_first(1)] by simp
  then show ?case using bt_first(3) by blast
next
  case (bt_second t sv t' r)
  have "th_ok x sv" if "th_ok x t" using re_step_ok [OF that bt_second(1)] by simp
  then show ?case using bt_second(5) by blast
next
  case (bt_not_ahead t sv t' r)
  have "th_ok x sv" if "th_ok x t" using re_step_ok [OF that bt_not_ahead(1)] by simp
  then show ?case using bt_not_ahead(5) by blast
qed auto

end
