(* ===== verification/RegexpRun.thy ===== *)
theory RegexpRun
  imports RegexpSem
begin

text \<open>
  The interpreter of \<^theory_text>\<open>RegexpVM\<close> and the backtracking relation of \<^theory_text>\<open>RegexpSem\<close> agree: the
  interpreter returns exactly when the relation has a result, and it returns that result.
\<close>

section \<open>Fuel\<close>

text \<open>
  Both arguments are functions of the fuel. With less than some amount the first runs out; with that
  amount or more it does what the second does with \<open>d\<close> units less.
\<close>

definition reaches :: "nat \<Rightarrow> (nat \<Rightarrow> 'a run) \<Rightarrow> (nat \<Rightarrow> 'a run) \<Rightarrow> bool" where
  "reaches d f g = (\<exists>m\<ge>d. \<forall>n. f n = (if n < m then OutOfFuel else g (n - d)))"

lemma reaches_step: "f 0 = OutOfFuel \<Longrightarrow> (\<And>n. f (Suc n) = g n) \<Longrightarrow> reaches 1 f g"
  unfolding reaches_def by (rule exI [of _ 1]) (auto simp: gr0_conv_Suc not_less Suc_le_eq)

lemma reaches_trans:
  assumes "reaches d f g" "reaches e g h"
  shows "reaches (d + e) f h"
proof -
  obtain m where m: "d \<le> m" "\<And>n. f n = (if n < m then OutOfFuel else g (n - d))"
    using assms(1) by (auto simp: reaches_def)
  obtain k where k: "e \<le> k" "\<And>n. g n = (if n < k then OutOfFuel else h (n - e))"
    using assms(2) by (auto simp: reaches_def)
  have "f n = (if n < max m (d + k) then OutOfFuel else h (n - (d + e)))" for n
    using m k(1) unfolding k(2) by auto
  then show ?thesis using m(1) k(1) unfolding reaches_def by (intro exI [of _ "max m (d + k)"]) auto
qed

lemma reaches_case:
  assumes "reaches d f (\<lambda>_. Returns v)"
    and "\<And>n. f n = OutOfFuel \<Longrightarrow> h n = OutOfFuel" "\<And>n. f n = Returns v \<Longrightarrow> h n = g n"
  shows "reaches 0 h g"
proof -
  obtain m where m: "\<And>n. f n = (if n < m then OutOfFuel else Returns v)"
    using assms(1) by (auto simp: reaches_def)
  then have "h n = (if n < m then OutOfFuel else g n)" for n using assms(2,3) by (cases "n < m") auto
  then show ?thesis unfolding reaches_def by auto
qed

lemma reaches_returns: "reaches d f g \<Longrightarrow> f n = Returns y \<Longrightarrow> d \<le> n \<and> g (n - d) = Returns y"
  unfolding reaches_def by (metis le_trans not_less run.distinct(5))

lemma reaches_const: "reaches d f (\<lambda>_. Returns y) \<Longrightarrow> (\<exists>n. f n = Returns z) \<longleftrightarrow> z = y"
  unfolding reaches_def by (metis less_irrefl run.distinct(5) run.inject)

lemma reaches_exec:
  "re_step x (vm_thread s) = Some (OpBreak t) \<Longrightarrow>
     reaches 1 (\<lambda>n. re_exec x n no_recurse s) (\<lambda>n. re_exec x n no_recurse (s\<lparr>vm_thread := t\<rparr>))"
  by (rule reaches_step) auto

section \<open>The code of a quantifier\<close>

primrec reads :: "re_ctx \<Rightarrow> nat \<Rightarrow> nat \<Rightarrow> nat \<Rightarrow> bool" where
  "reads x 0 p p' = (p = p')"
| "reads x (Suc k) p p' = (\<exists>c q. get_char x p (length (re_cbuf x)) = Some (c, q) \<and> reads x k q p')"

lemma prev_chars_snoc: "prev_chars x (Suc n) p = do { q \<leftarrow> prev_chars x n p; prev_char x q }"
proof (induction n arbitrary: p)
  case 0
  then show ?case by (cases "prev_char x p") simp_all
next
  case (Suc n)
  show ?case
  proof (cases "prev_char x p")
    case (Some q)
    have "prev_chars x (Suc (Suc n)) p = prev_chars x (Suc n) q" using Some by simp
    also have "\<dots> = do { r \<leftarrow> prev_chars x n q; prev_char x r }" by (rule Suc.IH)
    finally show ?thesis using Some by simp
  qed simp
qed

lemma reads_back: "pos_ok x p \<Longrightarrow> reads x k p p' \<Longrightarrow> prev_chars x k p' = Some p \<and> pos_ok x p'"
proof (induction k arbitrary: p)
  case (Suc k)
  then obtain c q where q: "get_char x p (length (re_cbuf x)) = Some (c, q)" "reads x k q p'" by auto
  then show ?case using Suc get_char_ok [OF Suc.prems(1) q(1)] unfolding prev_chars_snoc by auto
qed simp


fun outcome :: "thread option \<Rightarrow> re_ret" where
  "outcome None = ReNoMatch"
| "outcome (Some u) = ReMatch (th_cptr u)"

lemma bt_simple:
  assumes "simple_body x (th_pc t) k"
  shows "bt x t r \<longleftrightarrow> (re_step x t = Some OpNoMatch \<and> r = None) \<or> (re_step x t = Some OpMatch \<and> r = Some t)
    \<or> (\<exists>t'. re_step x t = Some (OpBreak t') \<and> bt x t' r)"
proof
  assume "bt x t r"
  then show "(re_step x t = Some OpNoMatch \<and> r = None) \<or> (re_step x t = Some OpMatch \<and> r = Some t)
    \<or> (\<exists>t'. re_step x t = Some (OpBreak t') \<and> bt x t' r)"
    by cases (use body_step [OF assms] in blast)+
qed (auto intro: bt_break bt_no_match bt_match)

lemma body_run:
  "bt x t r \<Longrightarrow> simple_body x (th_pc t) k \<longrightarrow>
    (\<exists>d t'. th_capture t' = th_capture t \<and> th_stack t' = th_stack t
      \<and> (\<forall>s. vm_thread s = t \<longrightarrow> reaches d (\<lambda>n. re_exec x n True s) (\<lambda>_. Returns (outcome r, s\<lparr>vm_thread := t'\<rparr>))))
    \<and> (\<forall>u. r = Some u \<longrightarrow> reads x k (th_cptr t) (th_cptr u))"
  "bt_any x ts r \<Longrightarrow> True"
  "bt_iter x quant_max q t ps \<Longrightarrow> True"
proof (induction arbitrary: k rule: bt_bt_any_bt_iter.inducts)
  case (bt_no_match t)
  have "reaches 1 (\<lambda>n. re_exec x n True s) (\<lambda>_. Returns (ReNoMatch, s\<lparr>vm_thread := t\<rparr>))" if "vm_thread s = t" for s
    by (rule reaches_step) (use bt_no_match that in auto)
  then show ?case by auto
next
  case (bt_match t)
  show ?case
  proof
    assume body: "simple_body x (th_pc t) k"
    have "reaches 1 (\<lambda>n. re_exec x n True s) (\<lambda>_. Returns (ReMatch (th_cptr t), s\<lparr>vm_thread := t\<rparr>))" if "vm_thread s = t" for s
      by (rule reaches_step) (use bt_match that in auto)
    moreover have "k = 0" using body_step [OF body bt_match] by auto
    ultimately show "(\<exists>d t'. th_capture t' = th_capture t \<and> th_stack t' = th_stack t
      \<and> (\<forall>s. vm_thread s = t \<longrightarrow> reaches d (\<lambda>n. re_exec x n True s) (\<lambda>_. Returns (outcome (Some t), s\<lparr>vm_thread := t'\<rparr>))))
      \<and> (\<forall>u. Some t = Some u \<longrightarrow> reads x k (th_cptr t) (th_cptr u))" by auto
  qed
next
  case (bt_break t t' r)
  show ?case
  proof
    assume body: "simple_body x (th_pc t) k"
    obtain k' where k': "simple_body x (th_pc t') k'" "th_capture t' = th_capture t" "th_stack t' = th_stack t"
      "\<And>p. reads x k' (th_cptr t') p \<Longrightarrow> reads x k (th_cptr t) p"
      by (rule body_step [OF body bt_break(1)]) auto
    obtain d u where u: "th_capture u = th_capture t'" "th_stack u = th_stack t'"
      "\<And>s. vm_thread s = t' \<Longrightarrow> reaches d (\<lambda>n. re_exec x n True s) (\<lambda>_. Returns (outcome r, s\<lparr>vm_thread := u\<rparr>))"
      "\<And>v. r = Some v \<Longrightarrow> reads x k' (th_cptr t') (th_cptr v)"
      using bt_break(3) [of k'] k'(1) by blast
    have "reaches (1 + d) (\<lambda>n. re_exec x n True s) (\<lambda>_. Returns (outcome r, s\<lparr>vm_thread := u\<rparr>))" if "vm_thread s = t" for s
    proof -
      have first: "reaches 1 (\<lambda>n. re_exec x n True s) (\<lambda>n. re_exec x n True (s\<lparr>vm_thread := t'\<rparr>))"
        by (rule reaches_exec) (use bt_break(1) that in simp)
      show ?thesis using reaches_trans [OF first u(3) [of "s\<lparr>vm_thread := t'\<rparr>"]] by simp
    qed
    then show "(\<exists>d t'. th_capture t' = th_capture t \<and> th_stack t' = th_stack t
      \<and> (\<forall>s. vm_thread s = t \<longrightarrow> reaches d (\<lambda>n. re_exec x n True s) (\<lambda>_. Returns (outcome r, s\<lparr>vm_thread := t'\<rparr>))))
      \<and> (\<forall>u. r = Some u \<longrightarrow> reads x k (th_cptr t) (th_cptr u))"
      using u(1,2,4) k'(2-4) by metis
  qed
qed (auto elim: body_step)

lemma body_outcome:
  assumes "bt x (vm_thread s) r" "simple_body x (th_pc (vm_thread s)) k"
  obtains d t' where "th_capture t' = th_capture (vm_thread s)" "th_stack t' = th_stack (vm_thread s)"
    "reaches d (\<lambda>n. re_exec x n True s) (\<lambda>_. Returns (outcome r, s\<lparr>vm_thread := t'\<rparr>))"
  using body_run(1) [OF assms(1), of k] assms(2) by blast

text \<open>The other direction: where the code of a quantifier returns, the relation has a result.\<close>

lemma body_returns:
  "re_exec x n True s = Returns y \<Longrightarrow> simple_body x (th_pc (vm_thread s)) k \<Longrightarrow> \<exists>r. bt x (vm_thread s) r"
proof (induction n arbitrary: s k)
  case (Suc n)
  show ?case
  proof (cases "re_step x (vm_thread s)")
    case None
    then show ?thesis using Suc.prems(1) by simp
  next
    case (Some op)
    show ?thesis
    proof (rule body_step [OF Suc.prems(2) Some])
      assume "op = OpNoMatch"
      then show ?thesis using bt_no_match Some by blast
    next
      assume "op = OpMatch"
      then show ?thesis using bt_match Some by blast
    next
      fix t' k' assume t': "op = OpBreak t'" "simple_body x (th_pc t') k'"
      have "re_exec x n True (s\<lparr>vm_thread := t'\<rparr>) = Returns y" using Suc.prems(1) Some t'(1) by simp
      then have "\<exists>r. bt x t' r" using Suc.IH [of "s\<lparr>vm_thread := t'\<rparr>" k'] t'(2) by simp
      then show ?thesis using Some t'(1) bt_break by blast
    next
      fix t' assume t': "op = OpBreak t'" "simple_body x (th_pc t') k"
      have "re_exec x n True (s\<lparr>vm_thread := t'\<rparr>) = Returns y" using Suc.prems(1) Some t'(1) by simp
      then have "\<exists>r. bt x t' r" using Suc.IH [of "s\<lparr>vm_thread := t'\<rparr>" k] t'(2) by simp
      then show ?thesis using Some t'(1) bt_break by blast
    qed
  qed
qed simp

lemma thread_swap: "t\<lparr>th_cptr := p, th_pc := pc\<rparr> = t\<lparr>th_pc := pc, th_cptr := p\<rparr>"
  by simp

text \<open>One round of a quantifier.\<close>

lemma body_round:
  assumes bt: "bt x ((vm_thread s)\<lparr>th_pc := pc1\<rparr>) r" and body: "simple_body x pc1 k"
  shows "reaches 1 (\<lambda>n. re_quant x n pc1 quant_max q s)
    (case r of
       None \<Rightarrow> (\<lambda>n. Returns (Some q, s))
     | Some u \<Rightarrow>
         if quant_limit quant_max (q + 1) then (\<lambda>n. Returns (Some (q + 1), s\<lparr>vm_thread := (vm_thread s)\<lparr>th_cptr := th_cptr u\<rparr>\<rparr>))
         else (\<lambda>n. re_quant x n pc1 quant_max (q + 1) (s\<lparr>vm_thread := (vm_thread s)\<lparr>th_cptr := th_cptr u\<rparr>\<rparr>)))"
    (is "reaches 1 _ ?g")
proof -
  define t where "t = (vm_thread s)\<lparr>th_pc := pc1\<rparr>"
  define s0 where "s0 = s\<lparr>vm_thread := t\<rparr>"
  have "bt x (vm_thread s0) r" "simple_body x (th_pc (vm_thread s0)) k"
    using bt body by (simp_all add: s0_def t_def)
  then obtain d t' where t': "th_capture t' = th_capture (vm_thread s0)" "th_stack t' = th_stack (vm_thread s0)"
    and run: "reaches d (\<lambda>n. re_exec x n True s0) (\<lambda>_. Returns (outcome r, s0\<lparr>vm_thread := t'\<rparr>))"
    by (rule body_outcome)
  have after: "after_body s (s0\<lparr>vm_thread := t'\<rparr>) p = Some (s\<lparr>vm_thread := (vm_thread s)\<lparr>th_cptr := p\<rparr>\<rparr>)" for p
    using t' by (simp add: after_body_def s0_def t_def)
  have same: "s\<lparr>vm_thread := (vm_thread s)\<lparr>th_cptr := th_cptr (vm_thread s)\<rparr>\<rparr> = s" by simp
  define h where "h = (\<lambda>n. re_quant x (Suc n) pc1 quant_max q s)"
  have h: "h n = (case re_exec x n True s0 of
        Fault \<Rightarrow> Fault
      | OutOfFuel \<Rightarrow> OutOfFuel
      | Returns (ReError, s1) \<Rightarrow> Returns (None, s1)
      | Returns (ReNoMatch, s1) \<Rightarrow>
          (case after_body s s1 (th_cptr (vm_thread s)) of None \<Rightarrow> Fault | Some s \<Rightarrow> Returns (Some q, s))
      | Returns (ReMatch p, s1) \<Rightarrow>
          (case after_body s s1 p of
             None \<Rightarrow> Fault
           | Some s \<Rightarrow>
               if quant_limit quant_max (q + 1) then Returns (Some (q + 1), s)
               else re_quant x n pc1 quant_max (q + 1) s))" for n
    by (simp add: h_def s0_def t_def)
  have "reaches 1 (\<lambda>n. re_quant x n pc1 quant_max q s) h" by (rule reaches_step) (simp_all add: h_def)
  moreover have "reaches 0 h ?g"
    by (rule reaches_case [OF run]) (simp add: h, cases r, simp_all add: h after same)
  ultimately show ?thesis using reaches_trans [of 1 _ h 0] by simp
qed

lemma quant_run:
  "bt x t r \<Longrightarrow> True" "bt_any x ts r \<Longrightarrow> True"
  "bt_iter x quant_max q t ps \<Longrightarrow> simple_body x pc1 k \<longrightarrow>
    (\<forall>s. t = (vm_thread s)\<lparr>th_pc := pc1\<rparr> \<longrightarrow> (\<exists>d. reaches d (\<lambda>n. re_quant x n pc1 quant_max q s)
      (\<lambda>_. Returns (Some (q + length ps), s\<lparr>vm_thread := (vm_thread s)\<lparr>th_cptr := last (th_cptr t # ps)\<rparr>\<rparr>))))
    \<and> (th_pc t = pc1 \<longrightarrow> successively (reads x k) (th_cptr t # ps))"
proof (induction rule: bt_bt_any_bt_iter.inducts)
  case (iter_stop t quant_max q)
  have "\<exists>d. reaches d (\<lambda>n. re_quant x n pc1 quant_max q s) (\<lambda>_. Returns (Some q, s))"
    if "simple_body x pc1 k" "t = (vm_thread s)\<lparr>th_pc := pc1\<rparr>" for s
    using body_round [OF _ that(1), of s None quant_max q] iter_stop that(2) by auto
  then show ?case by auto
next
  case (iter_limit t u quant_max q)
  have "\<exists>d. reaches d (\<lambda>n. re_quant x n pc1 quant_max q s)
      (\<lambda>_. Returns (Some (q + 1), s\<lparr>vm_thread := (vm_thread s)\<lparr>th_cptr := th_cptr u\<rparr>\<rparr>))"
    if "simple_body x pc1 k" "t = (vm_thread s)\<lparr>th_pc := pc1\<rparr>" for s
    using body_round [OF _ that(1), of s "Some u" quant_max q] iter_limit that(2) by auto
  moreover have "reads x k (th_cptr t) (th_cptr u)" if "simple_body x pc1 k" "th_pc t = pc1"
    using body_run(1) [OF iter_limit(1), of k] that by auto
  ultimately show ?case by auto
next
  case (iter_more t u quant_max q ps)
  have "\<exists>d. reaches d (\<lambda>n. re_quant x n pc1 quant_max q s)
      (\<lambda>_. Returns (Some (q + length (th_cptr u # ps)), s\<lparr>vm_thread := (vm_thread s)\<lparr>th_cptr := last (th_cptr u # ps)\<rparr>\<rparr>))"
    if body: "simple_body x pc1 k" and t: "t = (vm_thread s)\<lparr>th_pc := pc1\<rparr>" for s
  proof -
    define s' where "s' = s\<lparr>vm_thread := (vm_thread s)\<lparr>th_cptr := th_cptr u\<rparr>\<rparr>"
    have "reaches 1 (\<lambda>n. re_quant x n pc1 quant_max q s) (\<lambda>n. re_quant x n pc1 quant_max (q + 1) s')"
      using body_round [OF _ body, of s "Some u" quant_max q] iter_more(1,5) t by (simp add: s'_def)
    moreover have start: "t\<lparr>th_cptr := th_cptr u\<rparr> = (vm_thread s')\<lparr>th_pc := pc1\<rparr>" by (simp add: t s'_def)
    have "\<exists>d. reaches d (\<lambda>n. re_quant x n pc1 quant_max (q + 1) s') (\<lambda>_. Returns (Some (q + 1 + length ps),
        s'\<lparr>vm_thread := (vm_thread s')\<lparr>th_cptr := last (th_cptr (t\<lparr>th_cptr := th_cptr u\<rparr>) # ps)\<rparr>\<rparr>))"
      using iter_more(4) body start by blast
    then obtain d where "reaches d (\<lambda>n. re_quant x n pc1 quant_max (q + 1) s') (\<lambda>_. Returns (Some (q + 1 + length ps),
        s'\<lparr>vm_thread := (vm_thread s')\<lparr>th_cptr := last (th_cptr u # ps)\<rparr>\<rparr>))" by auto
    ultimately have "reaches (1 + d) (\<lambda>n. re_quant x n pc1 quant_max q s) (\<lambda>_. Returns (Some (q + 1 + length ps),
        s'\<lparr>vm_thread := (vm_thread s')\<lparr>th_cptr := last (th_cptr u # ps)\<rparr>\<rparr>))" by (rule reaches_trans)
    then show ?thesis by (auto simp: s'_def)
  qed
  moreover have "reads x k (th_cptr t) (th_cptr u)" if "simple_body x pc1 k" "th_pc t = pc1"
    using body_run(1) [OF iter_more(1), of k] that by auto
  ultimately show ?case using iter_more(4) by auto
qed auto

lemma quant_returns:
  assumes body: "simple_body x pc1 k"
  shows "re_quant x n pc1 quant_max q s = Returns y \<Longrightarrow> \<exists>ps. bt_iter x quant_max q ((vm_thread s)\<lparr>th_pc := pc1\<rparr>) ps"
proof (induction n arbitrary: q s)
  case (Suc n)
  define t where "t = (vm_thread s)\<lparr>th_pc := pc1\<rparr>"
  obtain y' where "re_exec x n True (s\<lparr>vm_thread := t\<rparr>) = Returns y'"
    using Suc.prems by (cases "re_exec x n True (s\<lparr>vm_thread := t\<rparr>)") (auto simp: t_def)
  then obtain r where r: "bt x t r"
    using body_returns [of x n "s\<lparr>vm_thread := t\<rparr>" y' k] body by (auto simp: t_def)
  show ?case
  proof (cases r)
    case None
    then show ?thesis using iter_stop r unfolding t_def by blast
  next
    case (Some u)
    show ?thesis
    proof (cases "quant_limit quant_max (q + 1)")
      case True
      then show ?thesis using iter_limit r Some unfolding t_def by blast
    next
      case False
      define s' where "s' = s\<lparr>vm_thread := (vm_thread s)\<lparr>th_cptr := th_cptr u\<rparr>\<rparr>"
      have "reaches 1 (\<lambda>n. re_quant x n pc1 quant_max q s) (\<lambda>n. re_quant x n pc1 quant_max (q + 1) s')"
        using body_round [OF r [unfolded t_def] body, of quant_max q] Some False by (simp add: s'_def)
      then have "re_quant x n pc1 quant_max (q + 1) s' = Returns y" using reaches_returns [of 1] Suc.prems by force
      then obtain ps where "bt_iter x quant_max (q + 1) ((vm_thread s')\<lparr>th_pc := pc1\<rparr>) ps" using Suc.IH by blast
      then have "bt_iter x quant_max (q + 1) (t\<lparr>th_cptr := th_cptr u\<rparr>) ps" by (simp add: s'_def t_def thread_swap)
      then show ?thesis using iter_more r Some False unfolding t_def by blast
    qed
  qed
qed simp

section \<open>The stack of saved states\<close>

abbreviation VM :: "thread \<Rightarrow> re_exec_state list \<Rightarrow> nat \<Rightarrow> re_vm" where
  "VM t K sz \<equiv> \<lparr>vm_thread = t, vm_states = K, vm_states_size = sz\<rparr>"

text \<open>
  The code that can be reached from \<open>S\<close> stays in \<open>S\<close>, and what its quantifiers repeat is simple and reads
  the number of characters that the quantifier says.
\<close>

definition code_ok :: "re_ctx \<Rightarrow> nat set \<Rightarrow> bool" where
  "code_ok x S = (\<forall>t op. th_pc t \<in> S \<longrightarrow> re_step x t = Some op \<longrightarrow> op_all (\<lambda>t'. th_pc t' \<in> S) op
     \<and> (\<forall>pc1 pc quant_min quant_max. op = OpQuant pc1 pc quant_min quant_max \<longrightarrow>
          pc \<in> S \<and> (\<exists>k. get_u32 (re_bc x) (th_pc t + 13) = Some k \<and> simple_body x pc1 (unat k))))"

definition good :: "re_ctx \<Rightarrow> nat set \<Rightarrow> thread \<Rightarrow> bool" where
  "good x S t = (th_ok x t \<and> th_pc t \<in> S)"

lemma good_step:
  assumes "code_ok x S" "good x S t" "re_step x t = Some op"
  shows "op_all (good x S) op"
proof -
  have "op_all (\<lambda>t'. th_pc t' \<in> S) op" using assms unfolding code_ok_def good_def by blast
  then show ?thesis using re_step_ok [OF _ assms(3)] assms(2) by (cases op) (auto simp: good_def)
qed

lemma push_VM:
  assumes "\<forall>n. re_alloc x n"
  obtains sz' where "push_state x (VM t K sz) rs = Some (VM t (rs # K) sz')"
  using assms by (cases "sz < Suc (length K)") (auto simp: push_state_def Let_def)

lemma exec_push:
  assumes "\<forall>n. re_alloc x n" "re_step x t = Some (OpPush type sv t')"
  obtains sz' where "reaches 1 (\<lambda>n. re_exec x n False (VM t K sz))
    (\<lambda>n. re_exec x n False (VM t' (\<lparr>rs_type = type, rs_count = 0, rs_thread = sv\<rparr> # K) sz'))"
proof -
  obtain sz' where "push_state x (VM t K sz) \<lparr>rs_type = type, rs_count = 0, rs_thread = sv\<rparr>
      = Some (VM t (\<lparr>rs_type = type, rs_count = 0, rs_thread = sv\<rparr> # K) sz')" using push_VM [OF assms(1)] .
  then show ?thesis by (intro that [of sz'] reaches_step) (simp_all add: assms(2))
qed

lemma recurse_cong:
  "re_unwind x ret K = re_unwind x ret' K' \<Longrightarrow> re_recurse x n ret (VM t K sz) = re_recurse x n ret' (VM t K' sz)"
  by (auto split: option.splits unwound.splits)

text \<open>A result passes the saved states that it does not concern.\<close>

lemma recurse_skip:
  "rs_type rs \<in> {RE_EXEC_STATE_SPLIT, RE_EXEC_STATE_GREEDY_QUANT} \<Longrightarrow>
     re_recurse x n (Some u) (VM t (rs # K) sz) = re_recurse x n (Some u) (VM t K sz)"
  "rs_type rs = RE_EXEC_STATE_LOOKAHEAD \<Longrightarrow> re_recurse x n None (VM t (rs # K) sz) = re_recurse x n None (VM t K sz)"
  "rs_type rs = RE_EXEC_STATE_NEGATIVE_LOOKAHEAD \<Longrightarrow> re_recurse x n (Some u) (VM t (rs # K) sz) = re_recurse x n None (VM t K sz)"
  by (rule recurse_cong; auto)+

lemma recurse_resume:
  "rs_type rs \<in> {RE_EXEC_STATE_SPLIT, RE_EXEC_STATE_NEGATIVE_LOOKAHEAD} \<Longrightarrow>
     re_recurse x n None (VM t (rs # K) sz) = re_exec x n False (VM (rs_thread rs) K sz)"
  "rs_type rs = RE_EXEC_STATE_LOOKAHEAD \<Longrightarrow>
     re_recurse x n (Some u) (VM t (rs # K) sz) = re_exec x n False (VM ((rs_thread rs)\<lparr>th_capture := th_capture u\<rparr>) K sz)"
  by auto

lemmas recurse_simps = recurse_skip recurse_resume

text \<open>The threads of a quantifier at the positions that are left, and the state saved for all but the first.\<close>

definition resume :: "thread \<Rightarrow> nat \<Rightarrow> nat list \<Rightarrow> thread list" where
  "resume t pc qs = map (\<lambda>p. t\<lparr>th_pc := pc, th_cptr := p\<rparr>) qs"

definition greedy_states :: "thread \<Rightarrow> nat \<Rightarrow> nat list \<Rightarrow> re_exec_state list" where
  "greedy_states t q qs = (if qs = [] then []
     else [\<lparr>rs_type = RE_EXEC_STATE_GREEDY_QUANT, rs_count = length qs, rs_thread = t\<lparr>th_pc := th_pc t + 1, th_cptr := q\<rparr>\<rparr>])"

definition quant_ok :: "re_ctx \<Rightarrow> nat set \<Rightarrow> thread \<Rightarrow> nat \<Rightarrow> nat list \<Rightarrow> bool" where
  "quant_ok x S t pc qs = (\<exists>k next_pos. get_u32 (re_bc x) (th_pc t + 13) = Some k \<and> get_u32 (re_bc x) (th_pc t + 1) = Some next_pos
     \<and> jump (th_pc t + 17) next_pos = Some pc \<and> successively (\<lambda>p q. prev_chars x (unat k) p = Some q) qs
     \<and> (\<forall>u\<in>set (resume t pc qs). good x S u))"

lemma recurse_greedy:
  assumes "quant_ok x S t pc (q # q' # qs)"
  shows "re_recurse x n None (VM t' (greedy_states t q (q' # qs) @ K) sz)
    = re_exec x n False (VM (t\<lparr>th_pc := pc, th_cptr := q'\<rparr>) (greedy_states t q' qs @ K) sz)"
proof -
  obtain k next_pos where *: "get_u32 (re_bc x) (th_pc t + 13) = Some k" "get_u32 (re_bc x) (th_pc t + 1) = Some next_pos"
    "jump (th_pc t + 17) next_pos = Some pc" "prev_chars x (unat k) q = Some q'"
    using assms by (auto simp: quant_ok_def)
  then show ?thesis
    by (simp add: greedy_states_def Let_def add.commute [of _ "th_pc t"] del: re_exec.simps)
qed

lemma quant_ok_tl: "quant_ok x S t pc (q # q' # qs) \<Longrightarrow> quant_ok x S t pc (q' # qs)"
  by (auto simp: quant_ok_def resume_def)

lemma quant_ok_good: "quant_ok x S t pc (q # qs) \<Longrightarrow> good x S (t\<lparr>th_pc := pc, th_cptr := q\<rparr>)"
  by (auto simp: quant_ok_def resume_def)

lemma recurse_match_greedy:
  "re_recurse x n (Some u) (VM t' (greedy_states t q qs @ K) sz) = re_recurse x n (Some u) (VM t' K sz)"
  by (rule recurse_cong) (simp add: greedy_states_def)

text \<open>A quantifier, by the number of rounds it makes.\<close>

lemma no_quant:
  "test_char x t p val \<noteq> Some (OpQuant a b c d)" "test_any x t p dot \<noteq> Some (OpQuant a b c d)"
  "test_range x t p wide \<noteq> Some (OpQuant a b c d)" "line_test x t p edge ch \<noteq> Some (OpQuant a b c d)"
  "word_boundary x t p neg \<noteq> Some (OpQuant a b c d)" "push_stack x t p v \<noteq> Some (OpQuant a b c d)"
  "save_capture x t p side \<noteq> Some (OpQuant a b c d)" "reset_captures x t p \<noteq> Some (OpQuant a b c d)"
  by (auto simp: test_char_def test_any_def test_range_def line_test_def word_boundary_def push_stack_def
    save_capture_def reset_captures_def bind_eq_Some_conv Let_def split: if_splits)

lemma no_quant_ref: "back_reference x t p bw \<noteq> Some (OpQuant a b c d)"
  by (auto simp: back_reference_def bind_eq_Some_conv Let_def split: if_splits option.splits)

lemma no_greedy:
  "test_char x t p val \<noteq> Some (OpPush RE_EXEC_STATE_GREEDY_QUANT a b)" "test_any x t p dot \<noteq> Some (OpPush RE_EXEC_STATE_GREEDY_QUANT a b)"
  "test_range x t p wide \<noteq> Some (OpPush RE_EXEC_STATE_GREEDY_QUANT a b)" "line_test x t p edge ch \<noteq> Some (OpPush RE_EXEC_STATE_GREEDY_QUANT a b)"
  "word_boundary x t p neg \<noteq> Some (OpPush RE_EXEC_STATE_GREEDY_QUANT a b)" "push_stack x t p v \<noteq> Some (OpPush RE_EXEC_STATE_GREEDY_QUANT a b)"
  "save_capture x t p side \<noteq> Some (OpPush RE_EXEC_STATE_GREEDY_QUANT a b)" "reset_captures x t p \<noteq> Some (OpPush RE_EXEC_STATE_GREEDY_QUANT a b)"
  by (auto simp: test_char_def test_any_def test_range_def line_test_def word_boundary_def push_stack_def
    save_capture_def reset_captures_def bind_eq_Some_conv Let_def split: if_splits)

lemma no_greedy_ref: "back_reference x t p bw \<noteq> Some (OpPush RE_EXEC_STATE_GREEDY_QUANT a b)"
  by (auto simp: back_reference_def bind_eq_Some_conv Let_def split: if_splits option.splits)

text \<open>No instruction saves the state of a quantifier itself.\<close>

lemma step_no_greedy: "re_step x t \<noteq> Some (OpPush RE_EXEC_STATE_GREEDY_QUANT sv t')"
proof
  assume step: "re_step x t = Some (OpPush RE_EXEC_STATE_GREEDY_QUANT sv t')"
  then obtain b opcode where b: "load (re_bc x) (th_pc t) = Some b" "load reops (unat b) = Some opcode"
    by (auto simp: re_step_def bind_eq_Some_conv)
  show False
    using step unfolding re_step_def b bind.bind_lunit Let_def
    by (cases opcode; cases "th_stack t")
      (auto simp: bind_eq_Some_conv push_thread_def no_greedy no_greedy_ref split: if_splits)
qed

lemma step_quant:
  assumes "re_step x t = Some (OpQuant pc1 pc quant_min quant_max)"
  shows "pc1 = th_pc t + 17" "\<exists>next_pos. get_u32 (re_bc x) (th_pc t + 1) = Some next_pos \<and> jump (th_pc t + 17) next_pos = Some pc"
proof -
  obtain b opcode where b: "load (re_bc x) (th_pc t) = Some b" "load reops (unat b) = Some opcode"
    using assms by (auto simp: re_step_def bind_eq_Some_conv)
  have "opcode = REOP_simple_greedy_quant"
    using assms unfolding re_step_def b bind.bind_lunit Let_def
    by (cases opcode; cases "th_stack t")
      (auto simp: bind_eq_Some_conv push_thread_def no_quant no_quant_ref split: if_splits)
  then show "pc1 = th_pc t + 17"
    "\<exists>next_pos. get_u32 (re_bc x) (th_pc t + 1) = Some next_pos \<and> jump (th_pc t + 17) next_pos = Some pc"
    using assms unfolding re_step_def b bind.bind_lunit Let_def
    by (auto simp: bind_eq_Some_conv add.commute [of _ "th_pc t"])
qed

lemma quant_reads:
  assumes code: "code_ok x S" and good: "good x S t" and step: "re_step x t = Some (OpQuant pc1 pc quant_min quant_max)"
  obtains k next_pos where "get_u32 (re_bc x) (th_pc t + 13) = Some k" "simple_body x pc1 (unat k)" "pc \<in> S"
    "get_u32 (re_bc x) (th_pc t + 1) = Some next_pos" "jump (th_pc t + 17) next_pos = Some pc"
  using code good step step_quant [OF step] unfolding code_ok_def good_def by blast

lemma quant_positions:
  assumes code: "code_ok x S" and good: "good x S t" and step: "re_step x t = Some (OpQuant pc1 pc quant_min quant_max)"
    and iter: "bt_iter x quant_max 0 (t\<lparr>th_pc := pc1\<rparr>) ps"
  shows "quant_ok x S t pc (rev (drop m (th_cptr t # ps)))"
proof -
  obtain k next_pos where k: "get_u32 (re_bc x) (th_pc t + 13) = Some k" "simple_body x pc1 (unat k)" "pc \<in> S"
    "get_u32 (re_bc x) (th_pc t + 1) = Some next_pos" "jump (th_pc t + 17) next_pos = Some pc"
    using quant_reads [OF code good step] .
  have t: "th_ok x t" using good by (simp add: good_def)
  have pos: "\<forall>p\<in>set (th_cptr t # ps). pos_ok x p"
    using bt_positions(3) [OF iter] t th_ok_pos [OF t] by simp
  have "successively (reads x (unat k)) (th_cptr t # ps)"
    using quant_run(3) [OF iter, of pc1 "unat k"] k(2) by simp
  then have "successively (\<lambda>p q. prev_chars x (unat k) q = Some p) (th_cptr t # ps)"
    by (rule successively_mono) (use pos reads_back in blast)
  then have chain: "successively (\<lambda>p q. prev_chars x (unat k) q = Some p) (drop m (th_cptr t # ps))"
    by (metis append_take_drop_id successively_append_iff)
  have "good x S u" if "u \<in> set (resume t pc (rev (drop m (th_cptr t # ps))))" for u
  proof -
    have "u \<in> set (candidates t pc (drop m (th_cptr t # ps)))" "th_pc u = pc"
      using that by (auto simp: resume_def candidates_def)
    then show ?thesis using candidates_ok [OF t, of ps pc m] pos k(3) by (simp add: good_def)
  qed
  then show ?thesis using k chain unfolding quant_ok_def successively_rev by blast
qed

lemma last_drop_rev:
  assumes "m < length xs"
  obtains qs where "rev (drop m xs) = last xs # qs" "length qs = length xs - m - 1"
proof -
  have "drop m xs \<noteq> []" using assms by simp
  then have "rev (drop m xs) = last (drop m xs) # rev (butlast (drop m xs))"
    by (metis append_butlast_last_id rev.simps(2) rev_rev_ident rev_append rev_singleton_conv append_Cons append_Nil)
  then show ?thesis using that [of "rev (butlast (drop m xs))"] assms by simp
qed

lemma exec_quant:
  assumes code: "code_ok x S" and alloc: "\<forall>n. re_alloc x n" and good: "good x S t"
    and step: "re_step x t = Some (OpQuant pc1 pc quant_min quant_max)"
    and iter: "bt_iter x quant_max 0 (t\<lparr>th_pc := pc1\<rparr>) ps"
  obtains (few) t' where "drop quant_min (th_cptr t # ps) = []"
      "reaches 1 (\<lambda>n. re_exec x n False (VM t K sz)) (\<lambda>n. re_recurse x n None (VM t' K sz))"
  | (enough) q qs sz' where "candidates t pc (drop quant_min (th_cptr t # ps)) = resume t pc (q # qs)"
      "quant_ok x S t pc (q # qs)"
      "reaches 1 (\<lambda>n. re_exec x n False (VM t K sz))
         (\<lambda>n. re_exec x n False (VM (t\<lparr>th_pc := pc, th_cptr := q\<rparr>) (greedy_states t q qs @ K) sz'))"
proof -
  obtain k :: u32 where k: "simple_body x pc1 (unat k)" using quant_reads [OF code good step] by blast
  have pc1: "pc1 = th_pc t + 17" using step_quant(1) [OF step] .
  define p where "p = last (th_cptr t # ps)"
  define t' where "t' = t\<lparr>th_cptr := p\<rparr>"
  obtain d where run: "reaches d (\<lambda>n. re_quant x n pc1 quant_max 0 (VM t K sz)) (\<lambda>_. Returns (Some (length ps), VM t' K sz))"
  proof -
    have start: "t\<lparr>th_pc := pc1\<rparr> = (vm_thread (VM t K sz))\<lparr>th_pc := pc1\<rparr>" by simp
    have "\<exists>d. reaches d (\<lambda>n. re_quant x n pc1 quant_max 0 (VM t K sz)) (\<lambda>_. Returns (Some (0 + length ps),
        (VM t K sz)\<lparr>vm_thread := (vm_thread (VM t K sz))\<lparr>th_cptr := last (th_cptr (t\<lparr>th_pc := pc1\<rparr>) # ps)\<rparr>\<rparr>))"
      using quant_run(3) [OF iter, of pc1 "unat k"] k start by blast
    then show ?thesis using that by (auto simp: p_def t'_def)
  qed
  define h where "h = (\<lambda>n. re_exec x (Suc n) False (VM t K sz))"
  have first: "reaches 1 (\<lambda>n. re_exec x n False (VM t K sz)) h" by (rule reaches_step) (simp_all add: h_def)
  have then_reaches: "reaches 1 (\<lambda>n. re_exec x n False (VM t K sz)) g" if "reaches 0 h g" for g
    using reaches_trans [OF first that] by simp
  show ?thesis
  proof (cases "length ps < quant_min")
    case True
    have "reaches 0 h (\<lambda>n. re_recurse x n None (VM t' K sz))"
      by (rule reaches_case [OF run]) (simp_all add: h_def step True Let_def del: re_recurse.simps)
    then have "reaches 1 (\<lambda>n. re_exec x n False (VM t K sz)) (\<lambda>n. re_recurse x n None (VM t' K sz))" by (rule then_reaches)
    moreover have "drop quant_min (th_cptr t # ps) = []" using True by simp
    ultimately show ?thesis by (rule few [rotated])
  next
    case False
    then obtain qs where qs: "rev (drop quant_min (th_cptr t # ps)) = p # qs" "length qs = length ps - quant_min"
      using last_drop_rev [of quant_min "th_cptr t # ps"] by (auto simp: p_def)
    have c: "candidates t pc (drop quant_min (th_cptr t # ps)) = resume t pc (p # qs)"
      by (simp add: candidates_def resume_def qs(1) del: drop_Cons')
    have ok: "quant_ok x S t pc (p # qs)" using quant_positions [OF code good step iter, of quant_min] qs(1) by simp
    have thread: "t'\<lparr>th_pc := pc\<rparr> = t\<lparr>th_pc := pc, th_cptr := p\<rparr>" by (simp add: t'_def)
    show ?thesis
    proof (cases "qs = []")
      case True
      have "reaches 0 h (\<lambda>n. re_exec x n False (VM (t'\<lparr>th_pc := pc\<rparr>) K sz))"
        by (rule reaches_case [OF run]) (use True False qs(2) in \<open>simp_all add: h_def step Let_def\<close>)
      then show ?thesis using enough [OF c ok, of sz] then_reaches True thread by (simp add: greedy_states_def)
    next
      case False
      then have more: "\<not> length ps < quant_min" "quant_min < length ps" using qs(2) by (cases qs; auto)+
      define rs where "rs = \<lparr>rs_type = RE_EXEC_STATE_GREEDY_QUANT, rs_count = length qs, rs_thread = t'\<lparr>th_pc := th_pc t + 1\<rparr>\<rparr>"
      obtain sz' where push: "push_state x (VM t' K sz) rs = Some (VM t' (rs # K) sz')" using push_VM [OF alloc] .
      have "reaches 0 h (\<lambda>n. re_exec x n False (VM (t'\<lparr>th_pc := pc\<rparr>) (rs # K) sz'))"
        by (rule reaches_case [OF run])
          (use more push in \<open>simp_all add: h_def step Let_def pc1 rs_def qs(2)\<close>)
      moreover have "rs # K = greedy_states t p qs @ K" using False by (simp add: greedy_states_def rs_def t'_def)
      ultimately show ?thesis using enough [OF c ok, of sz'] then_reaches thread by simp
    qed
  qed
qed

section \<open>What the relation says, the interpreter does\<close>

text \<open>With any states saved, the interpreter gets to \<^verbatim>\<open>recurse\<close> with the result and the same states.\<close>

definition runs_to :: "re_ctx \<Rightarrow> thread \<Rightarrow> re_exec_state list \<Rightarrow> thread option \<Rightarrow> re_exec_state list \<Rightarrow> bool" where
  "runs_to x t K r K' = (\<forall>sz. \<exists>d t' sz'. 1 \<le> d \<and> reaches d (\<lambda>n. re_exec x n False (VM t K sz)) (\<lambda>n. re_recurse x n r (VM t' K' sz')))"

lemma runs_toI:
  assumes "\<And>sz. \<exists>d t' sz'. 1 \<le> d \<and> reaches d (\<lambda>n. re_exec x n False (VM t K sz)) (\<lambda>n. re_recurse x n r (VM t' K' sz'))"
  shows "runs_to x t K r K'"
  using assms by (simp add: runs_to_def)

text \<open>A step before, and a state that is skipped or resumed after.\<close>

lemma runs_before:
  assumes "reaches d (\<lambda>n. re_exec x n False (VM t K sz)) (\<lambda>n. re_exec x n False (VM t1 K1 sz1))" "runs_to x t1 K1 r K'"
  shows "\<exists>d t' sz'. 1 \<le> d \<and> reaches d (\<lambda>n. re_exec x n False (VM t K sz)) (\<lambda>n. re_recurse x n r (VM t' K' sz'))"
proof -
  obtain e t' sz' where "1 \<le> e" "reaches e (\<lambda>n. re_exec x n False (VM t1 K1 sz1)) (\<lambda>n. re_recurse x n r (VM t' K' sz'))"
    using assms(2) unfolding runs_to_def by blast
  then show ?thesis using reaches_trans [OF assms(1)] by (metis le_add2 order_trans)
qed

lemma runs_skip:
  assumes "runs_to x t K r K'" "\<And>n t' sz. re_recurse x n r (VM t' K' sz) = re_recurse x n r' (VM t' K'' sz)"
  shows "runs_to x t K r' K''"
  using assms by (simp add: runs_to_def del: re_recurse.simps)

lemma runs_resume:
  assumes "runs_to x t K r K'" "\<And>n t' sz. re_recurse x n r (VM t' K' sz) = re_exec x n False (VM t1 K1 sz)" "runs_to x t1 K1 r' K''"
  shows "runs_to x t K r' K''"
proof (rule runs_toI)
  fix sz
  obtain d t' sz' where "1 \<le> d" "reaches d (\<lambda>n. re_exec x n False (VM t K sz)) (\<lambda>n. re_recurse x n r (VM t' K' sz'))"
    using assms(1) unfolding runs_to_def by blast
  then show "\<exists>d t' sz'. 1 \<le> d \<and> reaches d (\<lambda>n. re_exec x n False (VM t K sz)) (\<lambda>n. re_recurse x n r' (VM t' K'' sz'))"
    unfolding assms(2) using runs_before [OF _ assms(3)] by blast
qed

lemma runs_push:
  assumes alloc: "\<forall>n. re_alloc x n" and step: "re_step x t = Some (OpPush type sv t')"
    and run: "runs_to x t' (\<lparr>rs_type = type, rs_count = 0, rs_thread = sv\<rparr> # K) r K'"
  shows "runs_to x t K r K'"
proof (rule runs_toI)
  fix sz
  obtain sz' where "reaches 1 (\<lambda>n. re_exec x n False (VM t K sz))
    (\<lambda>n. re_exec x n False (VM t' (\<lparr>rs_type = type, rs_count = 0, rs_thread = sv\<rparr> # K) sz'))"
    using exec_push [OF alloc step] .
  then show "\<exists>d t' sz'. 1 \<le> d \<and> reaches d (\<lambda>n. re_exec x n False (VM t K sz)) (\<lambda>n. re_recurse x n r (VM t' K' sz'))"
    using runs_before run by blast
qed

lemma bt_runs:
  assumes code: "code_ok x S" and alloc: "\<forall>n. re_alloc x n"
  shows "bt x t r \<Longrightarrow> good x S t \<longrightarrow> (\<forall>K. runs_to x t K r K)"
    "bt_any x ts r \<Longrightarrow> \<forall>t pc q qs K. ts = resume t pc (q # qs) \<longrightarrow> quant_ok x S t pc (q # qs)
       \<longrightarrow> runs_to x (t\<lparr>th_pc := pc, th_cptr := q\<rparr>) (greedy_states t q qs @ K) r K"
    "bt_iter x quant_max q t ps \<Longrightarrow> True"
proof (induction rule: bt_bt_any_bt_iter.inducts)
  case (bt_break t t' r)
  show ?case
  proof (intro impI allI runs_toI)
    fix K sz assume "good x S t"
    then have "good x S t'" using good_step [OF code _ bt_break(1)] by simp
    then have "runs_to x t' K r K" using bt_break(3) by blast
    moreover have "reaches 1 (\<lambda>n. re_exec x n False (VM t K sz)) (\<lambda>n. re_exec x n False (VM t' K sz))"
      using reaches_exec [of x "VM t K sz" t' False] bt_break(1) by simp
    ultimately show "\<exists>d t' sz'. 1 \<le> d \<and> reaches d (\<lambda>n. re_exec x n False (VM t K sz)) (\<lambda>n. re_recurse x n r (VM t' K sz'))"
      using runs_before by blast
  qed
next
  case (bt_no_match t)
  have "reaches 1 (\<lambda>n. re_exec x n False (VM t K sz)) (\<lambda>n. re_recurse x n None (VM t K sz))" for K sz
    by (rule reaches_step) (simp_all add: bt_no_match del: re_recurse.simps)
  then show ?case unfolding runs_to_def by blast
next
  case (bt_match t)
  have "reaches 1 (\<lambda>n. re_exec x n False (VM t K sz)) (\<lambda>n. re_recurse x n (Some t) (VM t K sz))" for K sz
    by (rule reaches_step) (simp_all add: bt_match del: re_recurse.simps)
  then show ?case unfolding runs_to_def by blast
next
  case (bt_first t sv t' u)
  show ?case
  proof (intro impI allI runs_push [OF alloc bt_first(1)])
    fix K assume "good x S t"
    then have "good x S t'" using good_step [OF code _ bt_first(1)] by simp
    then have "runs_to x t' (\<lparr>rs_type = RE_EXEC_STATE_SPLIT, rs_count = 0, rs_thread = sv\<rparr> # K) (Some u)
      (\<lparr>rs_type = RE_EXEC_STATE_SPLIT, rs_count = 0, rs_thread = sv\<rparr> # K)" using bt_first(3) by blast
    then show "runs_to x t' (\<lparr>rs_type = RE_EXEC_STATE_SPLIT, rs_count = 0, rs_thread = sv\<rparr> # K) (Some u) K"
      by (rule runs_skip) (rule recurse_skip, simp)
  qed
next
  case (bt_second t sv t' r)
  show ?case
  proof (intro impI allI runs_push [OF alloc bt_second(1)])
    fix K assume "good x S t"
    then have "good x S t'" "good x S sv" using good_step [OF code _ bt_second(1)] by simp_all
    then have first: "runs_to x t' (\<lparr>rs_type = RE_EXEC_STATE_SPLIT, rs_count = 0, rs_thread = sv\<rparr> # K) None
      (\<lparr>rs_type = RE_EXEC_STATE_SPLIT, rs_count = 0, rs_thread = sv\<rparr> # K)" and second: "runs_to x sv K r K"
      using bt_second(3,5) by blast+
    show "runs_to x t' (\<lparr>rs_type = RE_EXEC_STATE_SPLIT, rs_count = 0, rs_thread = sv\<rparr> # K) r K"
      by (rule runs_resume [OF first _ second]) (simp add: recurse_resume del: re_recurse.simps)
  qed
next
  case (bt_ahead t sv t' u r)
  show ?case
  proof (intro impI allI runs_push [OF alloc bt_ahead(1)])
    fix K assume good: "good x S t"
    then have ok: "good x S t'" "good x S sv" using good_step [OF code _ bt_ahead(1)] by simp_all
    have "th_ok x u" using bt_positions(1) [OF bt_ahead(2)] ok(1) by (simp add: good_def)
    then have "good x S (sv\<lparr>th_capture := th_capture u\<rparr>)" using ok(2) th_ok_capture by (simp add: good_def)
    then have first: "runs_to x t' (\<lparr>rs_type = RE_EXEC_STATE_LOOKAHEAD, rs_count = 0, rs_thread = sv\<rparr> # K) (Some u)
      (\<lparr>rs_type = RE_EXEC_STATE_LOOKAHEAD, rs_count = 0, rs_thread = sv\<rparr> # K)"
      and second: "runs_to x (sv\<lparr>th_capture := th_capture u\<rparr>) K r K"
      using bt_ahead(3,5) ok(1) by blast+
    show "runs_to x t' (\<lparr>rs_type = RE_EXEC_STATE_LOOKAHEAD, rs_count = 0, rs_thread = sv\<rparr> # K) r K"
      by (rule runs_resume [OF first _ second]) (simp add: recurse_resume del: re_recurse.simps)
  qed
next
  case (bt_ahead_fail t sv t')
  show ?case
  proof (intro impI allI runs_push [OF alloc bt_ahead_fail(1)])
    fix K assume "good x S t"
    then have "good x S t'" using good_step [OF code _ bt_ahead_fail(1)] by simp
    then have "runs_to x t' (\<lparr>rs_type = RE_EXEC_STATE_LOOKAHEAD, rs_count = 0, rs_thread = sv\<rparr> # K) None
      (\<lparr>rs_type = RE_EXEC_STATE_LOOKAHEAD, rs_count = 0, rs_thread = sv\<rparr> # K)" using bt_ahead_fail(3) by blast
    then show "runs_to x t' (\<lparr>rs_type = RE_EXEC_STATE_LOOKAHEAD, rs_count = 0, rs_thread = sv\<rparr> # K) None K"
      by (rule runs_skip) (rule recurse_skip, simp)
  qed
next
  case (bt_not_ahead t sv t' r)
  show ?case
  proof (intro impI allI runs_push [OF alloc bt_not_ahead(1)])
    fix K assume "good x S t"
    then have "good x S t'" "good x S sv" using good_step [OF code _ bt_not_ahead(1)] by simp_all
    then have first: "runs_to x t' (\<lparr>rs_type = RE_EXEC_STATE_NEGATIVE_LOOKAHEAD, rs_count = 0, rs_thread = sv\<rparr> # K) None
      (\<lparr>rs_type = RE_EXEC_STATE_NEGATIVE_LOOKAHEAD, rs_count = 0, rs_thread = sv\<rparr> # K)" and second: "runs_to x sv K r K"
      using bt_not_ahead(3,5) by blast+
    show "runs_to x t' (\<lparr>rs_type = RE_EXEC_STATE_NEGATIVE_LOOKAHEAD, rs_count = 0, rs_thread = sv\<rparr> # K) r K"
      by (rule runs_resume [OF first _ second]) (simp add: recurse_resume del: re_recurse.simps)
  qed
next
  case (bt_not_ahead_fail t sv t' u)
  show ?case
  proof (intro impI allI runs_push [OF alloc bt_not_ahead_fail(1)])
    fix K assume "good x S t"
    then have "good x S t'" using good_step [OF code _ bt_not_ahead_fail(1)] by simp
    then have "runs_to x t' (\<lparr>rs_type = RE_EXEC_STATE_NEGATIVE_LOOKAHEAD, rs_count = 0, rs_thread = sv\<rparr> # K) (Some u)
      (\<lparr>rs_type = RE_EXEC_STATE_NEGATIVE_LOOKAHEAD, rs_count = 0, rs_thread = sv\<rparr> # K)" using bt_not_ahead_fail(3) by blast
    then show "runs_to x t' (\<lparr>rs_type = RE_EXEC_STATE_NEGATIVE_LOOKAHEAD, rs_count = 0, rs_thread = sv\<rparr> # K) None K"
      by (rule runs_skip) (rule recurse_skip, simp)
  qed
next
  case (bt_quant t pc1 pc quant_min quant_max ps r)
  show ?case
  proof (intro impI allI runs_toI)
    fix K sz assume good: "good x S t"
    show "\<exists>d t' sz'. 1 \<le> d \<and> reaches d (\<lambda>n. re_exec x n False (VM t K sz)) (\<lambda>n. re_recurse x n r (VM t' K sz'))"
    proof (rule exec_quant [OF code alloc good bt_quant(1,2)])
      fix t' assume few: "drop quant_min (th_cptr t # ps) = []"
        "reaches 1 (\<lambda>n. re_exec x n False (VM t K sz)) (\<lambda>n. re_recurse x n None (VM t' K sz))"
      have "r = None" using bt_quant(4) few(1) by (auto simp: candidates_def elim: bt_anyE)
      then show ?thesis using few(2) by blast
    next
      fix q qs sz'
      assume enough: "candidates t pc (drop quant_min (th_cptr t # ps)) = resume t pc (q # qs)" "quant_ok x S t pc (q # qs)"
        "reaches 1 (\<lambda>n. re_exec x n False (VM t K sz))
          (\<lambda>n. re_exec x n False (VM (t\<lparr>th_pc := pc, th_cptr := q\<rparr>) (greedy_states t q qs @ K) sz'))"
      then show ?thesis using bt_quant(5) runs_before by blast
    qed
  qed
next
  case any_none
  then show ?case by (simp add: resume_def)
next
  case (any_here t1 u ts)
  show ?case
  proof (intro impI allI)
    fix t pc q qs K assume *: "t1 # ts = resume t pc (q # qs)" "quant_ok x S t pc (q # qs)"
    have "t1 = t\<lparr>th_pc := pc, th_cptr := q\<rparr>" using *(1) by (simp add: resume_def)
    then have "runs_to x (t\<lparr>th_pc := pc, th_cptr := q\<rparr>) (greedy_states t q qs @ K) (Some u) (greedy_states t q qs @ K)"
      using any_here(2) quant_ok_good [OF *(2)] by blast
    then show "runs_to x (t\<lparr>th_pc := pc, th_cptr := q\<rparr>) (greedy_states t q qs @ K) (Some u) K"
      by (rule runs_skip) (rule recurse_match_greedy)
  qed
next
  case (any_later t1 ts r)
  show ?case
  proof (intro impI allI)
    fix t pc q qs K assume *: "t1 # ts = resume t pc (q # qs)" "quant_ok x S t pc (q # qs)"
    have "t1 = t\<lparr>th_pc := pc, th_cptr := q\<rparr>" and ts: "ts = resume t pc qs" using *(1) by (simp_all add: resume_def)
    then have first: "runs_to x (t\<lparr>th_pc := pc, th_cptr := q\<rparr>) (greedy_states t q qs @ K) None (greedy_states t q qs @ K)"
      using any_later(2) quant_ok_good [OF *(2)] by blast
    show "runs_to x (t\<lparr>th_pc := pc, th_cptr := q\<rparr>) (greedy_states t q qs @ K) r K"
    proof (cases qs)
      case Nil
      then have "r = None" using any_later(3) ts by (auto simp: resume_def elim: bt_anyE)
      then show ?thesis using first Nil by (simp add: greedy_states_def)
    next
      case (Cons q' qs')
      have second: "runs_to x (t\<lparr>th_pc := pc, th_cptr := q'\<rparr>) (greedy_states t q' qs' @ K) r K"
        using any_later(4) ts Cons quant_ok_tl *(2) by blast
      show ?thesis
        by (rule runs_resume [OF first _ second]) (use recurse_greedy *(2) Cons in blast)
    qed
  qed
qed auto

section \<open>Where the interpreter returns, the relation has a result\<close>

lemma any_returns:
  assumes code: "code_ok x S" and alloc: "\<forall>n. re_alloc x n"
    and IH: "\<And>m t K sz. m < N \<Longrightarrow> re_exec x m False (VM t K sz) = Returns y \<Longrightarrow> good x S t \<Longrightarrow> \<exists>r. bt x t r"
  shows "re_exec x n False (VM (t\<lparr>th_pc := pc, th_cptr := q\<rparr>) (greedy_states t q qs @ K) sz) = Returns y \<Longrightarrow> n < N
    \<Longrightarrow> quant_ok x S t pc (q # qs) \<Longrightarrow> \<exists>r. bt_any x (resume t pc (q # qs)) r"
proof (induction qs arbitrary: q n sz)
  case Nil
  then obtain r where "bt x (t\<lparr>th_pc := pc, th_cptr := q\<rparr>) r" using IH quant_ok_good by blast
  then show ?case by (cases r) (auto simp: resume_def intro: bt_bt_any_bt_iter.intros)
next
  case (Cons q' qs)
  have good: "good x S (t\<lparr>th_pc := pc, th_cptr := q\<rparr>)" using quant_ok_good [OF Cons.prems(3)] .
  then obtain r where r: "bt x (t\<lparr>th_pc := pc, th_cptr := q\<rparr>) r" using IH Cons.prems(1,2) by blast
  show ?case
  proof (cases r)
    case (Some u)
    then show ?thesis using r by (auto simp: resume_def intro: any_here)
  next
    case None
    then obtain d t' sz' where "1 \<le> d"
      "reaches d (\<lambda>n. re_exec x n False (VM (t\<lparr>th_pc := pc, th_cptr := q\<rparr>) (greedy_states t q (q' # qs) @ K) sz))
         (\<lambda>n. re_recurse x n None (VM t' (greedy_states t q (q' # qs) @ K) sz'))"
      using bt_runs(1) [OF code alloc r] good unfolding runs_to_def by blast
    then have "re_exec x (n - d) False (VM (t\<lparr>th_pc := pc, th_cptr := q'\<rparr>) (greedy_states t q' qs @ K) sz') = Returns y"
      "n - d < N"
      using reaches_returns Cons.prems(1,2) unfolding recurse_greedy [OF Cons.prems(3)] by fastforce+
    then obtain r' where "bt_any x (resume t pc (q' # qs)) r'" using Cons.IH quant_ok_tl [OF Cons.prems(3)] by blast
    then show ?thesis using r None by (auto simp: resume_def intro: any_later)
  qed
qed

lemma returns_bt:
  assumes code: "code_ok x S" and alloc: "\<forall>n. re_alloc x n"
  shows "re_exec x n False (VM t K sz) = Returns y \<Longrightarrow> good x S t \<Longrightarrow> \<exists>r. bt x t r"
proof (induction n arbitrary: t K sz rule: less_induct)
  case (less n)
  have after: "re_recurse x (m - d) r (VM t' K' sz') = Returns y \<and> m - d < n"
    if "re_exec x m False (VM t K sz) = Returns y" "m < n" "reaches d (\<lambda>n. re_exec x n False (VM t K sz)) (\<lambda>n. re_recurse x n r (VM t' K' sz'))"
    for m d t K sz r t' K' sz'
    using reaches_returns [OF that(3,1)] that(2) by simp
  obtain n' op where n': "n = Suc n'" and op: "re_step x t = Some op"
    using less.prems(1) by (cases n; cases "re_step x t") auto
  have ok: "op_all (good x S) op" using good_step [OF code less.prems(2) op] .
  show ?case
  proof (cases op)
    case (OpBreak t')
    have "re_exec x n' False (VM t' K sz) = Returns y" using less.prems(1) n' op OpBreak by simp
    then show ?thesis using less.IH [of n' t'] n' ok OpBreak op bt_break by fastforce
  next
    case OpNoMatch
    then show ?thesis using bt_no_match op by blast
  next
    case OpMatch
    then show ?thesis using bt_match op by blast
  next
    case (OpPush type sv t')
    have good: "good x S t'" "good x S sv" using ok OpPush by simp_all
    define rs where "rs = \<lparr>rs_type = type, rs_count = 0, rs_thread = sv\<rparr>"
    obtain sz' where "reaches 1 (\<lambda>n. re_exec x n False (VM t K sz)) (\<lambda>n. re_exec x n False (VM t' (rs # K) sz'))"
      unfolding rs_def by (rule exec_push [OF alloc op [unfolded OpPush]])
    then have first: "re_exec x n' False (VM t' (rs # K) sz') = Returns y"
      using reaches_returns [of 1 _ _ n] less.prems(1) n' by fastforce
    then obtain r where r: "bt x t' r" using less.IH [of n' t' "rs # K" sz'] n' good(1) by blast
    obtain d t1 sz1 where run: "1 \<le> d"
      "reaches d (\<lambda>n. re_exec x n False (VM t' (rs # K) sz')) (\<lambda>n. re_recurse x n r (VM t1 (rs # K) sz1))"
      using bt_runs(1) [OF code alloc r] good(1) unfolding runs_to_def by blast
    have "re_recurse x (n' - d) r (VM t1 (rs # K) sz1) = Returns y" "n' - d < n" using after [OF first _ run(2)] n' by simp_all
    then have second: "\<exists>r'. bt x t2 r'"
      if "re_recurse x (n' - d) r (VM t1 (rs # K) sz1) = re_exec x (n' - d) False (VM t2 K sz1)" "good x S t2" for t2
      using less.IH that by metis
    show ?thesis
    proof (cases type)
      case RE_EXEC_STATE_SPLIT
      show ?thesis
      proof (cases r)
        case None
        then have "\<exists>r'. bt x sv r'" using second [of sv] good(2) RE_EXEC_STATE_SPLIT
          by (simp add: recurse_resume rs_def del: re_recurse.simps)
        then show ?thesis using bt_second [of x t sv t'] op r OpPush RE_EXEC_STATE_SPLIT None by blast
      next
        case (Some u)
        then show ?thesis using bt_first [of x t sv t'] op r OpPush RE_EXEC_STATE_SPLIT by blast
      qed
    next
      case RE_EXEC_STATE_LOOKAHEAD
      show ?thesis
      proof (cases r)
        case None
        then show ?thesis using bt_ahead_fail [of x t sv t'] op r OpPush RE_EXEC_STATE_LOOKAHEAD by blast
      next
        case (Some u)
        have "th_ok x u" using bt_positions(1) [OF r] good(1) Some by (simp add: good_def)
        then have "good x S (sv\<lparr>th_capture := th_capture u\<rparr>)" using good(2) th_ok_capture by (simp add: good_def)
        then have "\<exists>r'. bt x (sv\<lparr>th_capture := th_capture u\<rparr>) r'"
          using second [of "sv\<lparr>th_capture := th_capture u\<rparr>"] RE_EXEC_STATE_LOOKAHEAD Some
          by (simp add: recurse_resume rs_def del: re_recurse.simps)
        then show ?thesis using bt_ahead [of x t sv t'] op r OpPush RE_EXEC_STATE_LOOKAHEAD Some by blast
      qed
    next
      case RE_EXEC_STATE_NEGATIVE_LOOKAHEAD
      show ?thesis
      proof (cases r)
        case None
        then have "\<exists>r'. bt x sv r'" using second [of sv] good(2) RE_EXEC_STATE_NEGATIVE_LOOKAHEAD
          by (simp add: recurse_resume rs_def del: re_recurse.simps)
        then show ?thesis using bt_not_ahead [of x t sv t'] op r OpPush RE_EXEC_STATE_NEGATIVE_LOOKAHEAD None by blast
      next
        case (Some u)
        then show ?thesis using bt_not_ahead_fail [of x t sv t'] op r OpPush RE_EXEC_STATE_NEGATIVE_LOOKAHEAD by blast
      qed
    next
      case RE_EXEC_STATE_GREEDY_QUANT
      then show ?thesis using step_no_greedy op OpPush by blast
    qed
  next
    case (OpQuant pc1 pc quant_min quant_max)
    note step = op [unfolded OpQuant]
    obtain k :: u32 where k: "simple_body x pc1 (unat k)" using quant_reads [OF code less.prems(2) step] by blast
    obtain y' where "re_quant x n' pc1 quant_max 0 (VM t K sz) = Returns y'"
      using less.prems(1) n' step by (cases "re_quant x n' pc1 quant_max 0 (VM t K sz)") auto
    then obtain ps where iter: "bt_iter x quant_max 0 (t\<lparr>th_pc := pc1\<rparr>) ps"
      using quant_returns [OF k] by fastforce
    have "\<exists>r. bt_any x (candidates t pc (drop quant_min (th_cptr t # ps))) r"
    proof (rule exec_quant [OF code alloc less.prems(2) step iter, of K sz])
      fix t' assume few: "drop quant_min (th_cptr t # ps) = []"
      show ?thesis unfolding few candidates_def using any_none by auto
    next
      fix q qs sz'
      assume enough: "candidates t pc (drop quant_min (th_cptr t # ps)) = resume t pc (q # qs)" "quant_ok x S t pc (q # qs)"
        "reaches 1 (\<lambda>n. re_exec x n False (VM t K sz))
          (\<lambda>n. re_exec x n False (VM (t\<lparr>th_pc := pc, th_cptr := q\<rparr>) (greedy_states t q qs @ K) sz'))"
      have "re_exec x n' False (VM (t\<lparr>th_pc := pc, th_cptr := q\<rparr>) (greedy_states t q qs @ K) sz') = Returns y"
        using reaches_returns [OF enough(3) less.prems(1)] n' by simp
      moreover have "n' < n" by (simp add: n')
      ultimately show ?thesis unfolding enough(1)
        by (intro any_returns [where N = n and n = n' and y = y, OF code alloc _ _ _ enough(2)] less.IH)
    qed
    then show ?thesis using bt_quant step iter by blast
  qed
qed

end
