(* ===== verification/RegexpProps.thy ===== *)
theory RegexpProps
  imports RegexpRun
begin

text \<open>
  A static test of compiled code, the invariant of the positions, and the properties of the matcher.
\<close>

section \<open>A static test\<close>

text \<open>The addresses that the instruction at \<open>pc\<close> can go on from.\<close>

definition code_succs :: "u8 list \<Rightarrow> nat \<Rightarrow> nat list option" where
  "code_succs bc pc = do {
     opcode \<leftarrow> opcode_at bc pc;
     let next_pc = pc + reopcode_size opcode;
     if opcode = REOP_match \<or> opcode = REOP_invalid then Some []
     else if opcode \<in> {REOP_split_goto_first, REOP_split_next_first, REOP_lookahead, REOP_negative_lookahead, REOP_loop, REOP_goto}
     then do { val \<leftarrow> get_u32 bc (pc + 1); pc1 \<leftarrow> jump next_pc val; Some (if opcode = REOP_goto then [pc1] else [pc1, next_pc]) }
     else if opcode = REOP_simple_greedy_quant
     then do { val \<leftarrow> get_u32 bc (pc + 1); pc1 \<leftarrow> jump next_pc val; Some [pc1] }
     else if opcode = REOP_range then do { n \<leftarrow> get_u16 bc (pc + 1); Some [next_pc + 4 * unat n] }
     else if opcode = REOP_range32 then do { n \<leftarrow> get_u16 bc (pc + 1); Some [next_pc + 8 * unat n] }
     else Some [next_pc] }"

text \<open>What a quantifier repeats is code that \<open>re_is_simple_quantifier\<close> accepts, with a match after it.\<close>

definition quant_check :: "u8 list \<Rightarrow> nat \<Rightarrow> bool" where
  "quant_check bc pc = (case do { val \<leftarrow> get_u32 bc (pc + 1); jump (pc + 17) val } of
     None \<Rightarrow> False
   | Some pc1 \<Rightarrow>
       0 < pc1 \<and> opcode_at bc (pc1 - 1) = Some REOP_match
       \<and> (case get_u32 bc (pc + 13) of
            None \<Rightarrow> False
          | Some k \<Rightarrow> simple_quantifier_loop bc (pc1 - 1) (pc1 - 1 - (pc + 17)) (pc + 17) 0 = Some (int (unat k), pc1 - 1)))"

definition check_code :: "u8 list \<Rightarrow> nat list \<Rightarrow> bool" where
  "check_code bc pcs = list_all (\<lambda>pc. (case code_succs bc pc of None \<Rightarrow> False | Some qs \<Rightarrow> list_all (\<lambda>q. q \<in> set pcs) qs)
     \<and> (opcode_at bc pc = Some REOP_simple_greedy_quant \<longrightarrow> quant_check bc pc)) pcs"

lemma op_pc:
  "test_char x t p val = Some op \<Longrightarrow> op_all (\<lambda>t'. th_pc t' = p) op"
  "test_any x t p dot = Some op \<Longrightarrow> op_all (\<lambda>t'. th_pc t' = p) op"
  "line_test x t p edge ch = Some op \<Longrightarrow> op_all (\<lambda>t'. th_pc t' = p) op"
  "word_boundary x t p neg = Some op \<Longrightarrow> op_all (\<lambda>t'. th_pc t' = p) op"
  "push_stack x t p v = Some op \<Longrightarrow> op_all (\<lambda>t'. th_pc t' = p) op"
  "save_capture x t p side = Some op \<Longrightarrow> op_all (\<lambda>t'. th_pc t' = p + 1) op"
  "reset_captures x t p = Some op \<Longrightarrow> op_all (\<lambda>t'. th_pc t' = p + 2) op"
  by (auto simp: test_char_def test_any_def line_test_def word_boundary_def push_stack_def
    save_capture_def reset_captures_def bind_eq_Some_conv split: if_splits)

lemma op_pc_range:
  "test_range x t p wide = Some op \<Longrightarrow> get_u16 (re_bc x) p = Some n \<Longrightarrow>
     op_all (\<lambda>t'. th_pc t' = p + 2 + (if wide then 8 else 4) * unat n) op"
  by (auto simp: test_range_def bind_eq_Some_conv Let_def split: if_splits)

lemma op_pc_ref:
  assumes step: "back_reference x t p bw = Some op"
  shows "op_all (\<lambda>t'. th_pc t' = p + 1) op"
proof -
  obtain val where val: "get_u8 (re_bc x) p = Some val" using step by (auto simp: back_reference_def bind_eq_Some_conv)
  show ?thesis
  proof (cases "re_capture_count x \<le> unat val")
    case True
    then show ?thesis using step val by (auto simp: back_reference_def)
  next
    case False
    then obtain a b where ab: "load (th_capture t) (2 * unat val) = Some a" "load (th_capture t) (2 * unat val + 1) = Some b"
      using step val by (auto simp: back_reference_def bind_eq_Some_conv)
    show ?thesis
      using step unfolding back_reference_def val ab bind.bind_lunit if_not_P [OF False]
      by (cases a; cases b) (auto simp: bind_eq_Some_conv split: if_splits option.splits)
  qed
qed

lemma op_all_pc: "op_all (\<lambda>t'. th_pc t' = q) op \<Longrightarrow> q \<in> S \<Longrightarrow> op_all (\<lambda>t'. th_pc t' \<in> S) op"
  by (cases op) auto

lemma check_code_at:
  assumes "check_code bc pcs" "pc \<in> set pcs"
  shows "\<exists>qs. code_succs bc pc = Some qs \<and> set qs \<subseteq> set pcs"
    and "opcode_at bc pc = Some REOP_simple_greedy_quant \<Longrightarrow> quant_check bc pc"
proof -
  have here: "(case code_succs bc pc of None \<Rightarrow> False | Some qs \<Rightarrow> list_all (\<lambda>q. q \<in> set pcs) qs)
      \<and> (opcode_at bc pc = Some REOP_simple_greedy_quant \<longrightarrow> quant_check bc pc)"
    using assms unfolding check_code_def list_all_iff by blast
  then show "\<exists>qs. code_succs bc pc = Some qs \<and> set qs \<subseteq> set pcs"
    by (cases "code_succs bc pc") (auto simp: list_all_iff)
  show "opcode_at bc pc = Some REOP_simple_greedy_quant \<Longrightarrow> quant_check bc pc" using here by blast
qed

lemma step_succs:
  assumes step: "re_step x t = Some op" and qs: "code_succs (re_bc x) (th_pc t) = Some qs"
  shows "op_all (\<lambda>t'. th_pc t' \<in> set qs) op \<and> (\<forall>pc1 pc a b. op = OpQuant pc1 pc a b \<longrightarrow> pc \<in> set qs)"
proof -
  obtain b opcode where b: "load (re_bc x) (th_pc t) = Some b" "load reops (unat b) = Some opcode"
    using step by (auto simp: re_step_def bind_eq_Some_conv)
  have opcode: "opcode_at (re_bc x) (th_pc t) = Some opcode" using b by (simp add: opcode_at_def)
  show ?thesis
    using step qs unfolding re_step_def code_succs_def opcode b bind.bind_lunit Let_def
    by (cases opcode; cases "th_stack t")
      (auto simp: bind_eq_Some_conv push_thread_def ac_simps no_quant no_quant_ref
        numeral_3_eq_3 dest: op_pc op_pc_range op_pc_ref split: if_splits)
qed

lemma op_all_mono: "op_all P op \<Longrightarrow> (\<And>t. P t \<Longrightarrow> Q t) \<Longrightarrow> op_all Q op"
  by (cases op) auto

lemma quant_opcode:
  assumes "re_step x t = Some (OpQuant pc1 pc a b)"
  shows "opcode_at (re_bc x) (th_pc t) = Some REOP_simple_greedy_quant"
proof -
  obtain c opcode where b: "load (re_bc x) (th_pc t) = Some c" "load reops (unat c) = Some opcode"
    using assms by (auto simp: re_step_def bind_eq_Some_conv)
  have "opcode = REOP_simple_greedy_quant"
    using assms unfolding re_step_def b bind.bind_lunit Let_def
    by (cases opcode; cases "th_stack t")
      (auto simp: bind_eq_Some_conv push_thread_def no_quant no_quant_ref split: if_splits)
  then show ?thesis using b by (simp add: opcode_at_def)
qed

lemma quant_check_body:
  assumes check: "quant_check (re_bc x) (th_pc t)" and step: "re_step x t = Some (OpQuant pc1 pc a b)"
  shows "\<exists>k. get_u32 (re_bc x) (th_pc t + 13) = Some k \<and> simple_body x pc1 (unat k)"
proof -
  have pc1: "pc1 = th_pc t + 17" using step_quant(1) [OF step] .
  obtain val where "get_u32 (re_bc x) (th_pc t + 1) = Some val" "jump (th_pc t + 17) val = Some pc"
    using step_quant(2) [OF step] by blast
  then have "opcode_at (re_bc x) (pc - 1) = Some REOP_match" "case get_u32 (re_bc x) (th_pc t + 13) of
            None \<Rightarrow> False
          | Some k \<Rightarrow> simple_quantifier_loop (re_bc x) (pc - 1) (pc - 1 - (th_pc t + 17)) (th_pc t + 17) 0 = Some (int (unat k), pc - 1)"
    using check by (auto simp: quant_check_def)
  then obtain k where k: "get_u32 (re_bc x) (th_pc t + 13) = Some k"
    "simple_quantifier_loop (re_bc x) (pc - 1) (pc - 1 - pc1) pc1 0 = Some (int (unat k), pc - 1)"
    unfolding pc1 by (auto split: option.splits)
  have "int (unat k) \<noteq> - 1" using of_nat_0_le_iff [of "unat k"] by linarith
  then have "simple_body x pc1 (unat k)"
    using simple_quantifier_loop_body [OF k(2)] \<open>opcode_at (re_bc x) (pc - 1) = Some REOP_match\<close> by simp
  then show ?thesis using k(1) by blast
qed

text \<open>The test is enough for what the proofs need to know of the code.\<close>

lemma check_code_ok:
  assumes check: "check_code (re_bc x) pcs"
  shows "code_ok x (set pcs)"
  unfolding code_ok_def
proof (intro allI impI conjI)
  fix t op assume pc: "th_pc t \<in> set pcs" and step: "re_step x t = Some op"
  obtain qs where qs: "code_succs (re_bc x) (th_pc t) = Some qs" "set qs \<subseteq> set pcs"
    using check_code_at(1) [OF check pc] by blast
  show "op_all (\<lambda>t'. th_pc t' \<in> set pcs) op"
    by (rule op_all_mono [OF step_succs [OF step qs(1), THEN conjunct1]]) (use qs(2) in blast)
  fix pc1 pc' a b assume quant: "op = OpQuant pc1 pc' a b"
  show "pc' \<in> set pcs" using step_succs [OF step qs(1)] quant qs(2) by blast
  show "\<exists>k. get_u32 (re_bc x) (th_pc t + 13) = Some k \<and> simple_body x pc1 (unat k)"
    using quant_check_body check_code_at(2) [OF check pc] quant_opcode step quant by blast
qed

section \<open>Positions of every run\<close>

definition vm_ok :: "re_ctx \<Rightarrow> re_vm \<Rightarrow> bool" where
  "vm_ok x s = (th_ok x (vm_thread s) \<and> (\<forall>rs\<in>set (vm_states s). th_ok x (rs_thread rs)))"

fun match_pos_ok :: "re_ctx \<Rightarrow> re_ret \<Rightarrow> bool" where
  "match_pos_ok x (ReMatch p) = pos_ok x p"
| "match_pos_ok x _ = True"

lemma prev_chars_ok: "pos_ok x p \<Longrightarrow> prev_chars x n p = Some q \<Longrightarrow> pos_ok x q"
  by (induction n arbitrary: p) (auto simp: bind_eq_Some_conv dest: prev_char_ok)

lemma push_state_ok: "push_state x s rs = Some s' \<Longrightarrow> vm_ok x s \<Longrightarrow> th_ok x (rs_thread rs) \<Longrightarrow> vm_ok x s'"
  by (auto simp: push_state_def vm_ok_def Let_def split: if_splits)

lemma unwind_ok:
  "re_unwind x ret K = Some un \<Longrightarrow> \<forall>rs\<in>set K. th_ok x (rs_thread rs) \<Longrightarrow> \<forall>u. ret = Some u \<longrightarrow> th_ok x u \<Longrightarrow>
    (case un of UReturn r \<Rightarrow> (\<forall>u. r = Some u \<longrightarrow> th_ok x u)
     | UResume t K' \<Rightarrow> th_ok x t \<and> (\<forall>rs\<in>set K'. th_ok x (rs_thread rs)))"
proof (induction K arbitrary: ret)
  case (Cons rs K)
  have rs: "th_ok x (rs_thread rs)" and K: "\<forall>rs\<in>set K. th_ok x (rs_thread rs)" using Cons.prems(2) by simp_all
  show ?case
  proof (cases "re_unwind x ret (rs # K) = re_unwind x ret K \<or> re_unwind x ret (rs # K) = re_unwind x None K")
    case True
    then show ?thesis using Cons.IH Cons.prems(1,3) K by (metis option.distinct(1))
  next
    case False
    show ?thesis
    proof (cases "rs_type rs")
      case RE_EXEC_STATE_GREEDY_QUANT
      then have "ret = None" using False by (auto split: if_splits)
      then obtain m p pc where p: "prev_chars x m (th_cptr (rs_thread rs)) = Some p"
        "un = UResume ((rs_thread rs)\<lparr>th_pc := pc, th_cptr := p\<rparr>)
          (if rs_count rs - 1 = 0 then K else rs\<lparr>rs_thread := (rs_thread rs)\<lparr>th_cptr := p\<rparr>, rs_count := rs_count rs - 1\<rparr> # K)"
        using Cons.prems(1) RE_EXEC_STATE_GREEDY_QUANT by (auto simp: bind_eq_Some_conv Let_def)
      have "pos_ok x p" using prev_chars_ok [OF th_ok_pos [OF rs] p(1)] .
      then show ?thesis using rs K unfolding p(2) by (simp add: th_ok_def)
    next
      case RE_EXEC_STATE_LOOKAHEAD
      then obtain u where "ret = Some u" using False by (cases ret) auto
      then show ?thesis using RE_EXEC_STATE_LOOKAHEAD Cons.prems(1,3) rs K th_ok_capture by auto
    next
      case RE_EXEC_STATE_NEGATIVE_LOOKAHEAD
      then have "ret = None" using False by (cases ret) auto
      then show ?thesis using RE_EXEC_STATE_NEGATIVE_LOOKAHEAD Cons.prems(1) rs K by auto
    next
      case RE_EXEC_STATE_SPLIT
      then have "ret = None" using False by (cases ret) auto
      then show ?thesis using RE_EXEC_STATE_SPLIT Cons.prems(1) rs K by auto
    qed
  qed
qed auto

lemma recurse_ok:
  assumes exec: "\<And>s y s'. vm_ok x s \<Longrightarrow> re_exec x n False s = Returns (y, s') \<Longrightarrow> vm_ok x s' \<and> match_pos_ok x y"
    and s: "vm_ok x s" and ret: "\<forall>u. ret = Some u \<longrightarrow> th_ok x u" and run: "re_recurse x n ret s = Returns (y, s')"
  shows "vm_ok x s' \<and> match_pos_ok x y"
proof -
  obtain un where un: "re_unwind x ret (vm_states s) = Some un" using run by (auto split: option.splits)
  have ok: "case un of UReturn r \<Rightarrow> (\<forall>u. r = Some u \<longrightarrow> th_ok x u)
     | UResume t K' \<Rightarrow> th_ok x t \<and> (\<forall>rs\<in>set K'. th_ok x (rs_thread rs))"
    using unwind_ok [OF un _ ret] s by (simp add: vm_ok_def)
  show ?thesis
  proof (cases un)
    case (UReturn r)
    then show ?thesis using run un ok s by (cases r) (auto simp: vm_ok_def th_ok_pos)
  next
    case (UResume t K')
    then have "vm_ok x (s\<lparr>vm_thread := t, vm_states := K'\<rparr>)" using ok by (simp add: vm_ok_def)
    then show ?thesis using exec run un UResume by simp
  qed
qed

lemma after_body_ok: "after_body s s1 p = Some s' \<Longrightarrow> vm_ok x s1 \<Longrightarrow> pos_ok x p \<Longrightarrow> vm_ok x s'"
  by (auto simp: after_body_def Let_def vm_ok_def th_ok_def split: if_splits)

lemma quant_step_ok:
  assumes exec: "\<And>b s y s'. vm_ok x s \<Longrightarrow> re_exec x n b s = Returns (y, s') \<Longrightarrow> vm_ok x s' \<and> match_pos_ok x y"
    and quant: "\<And>q s y s'. vm_ok x s \<Longrightarrow> re_quant x n pc1 quant_max q s = Returns (y, s') \<Longrightarrow> vm_ok x s'"
    and s: "vm_ok x s" and run: "re_quant x (Suc n) pc1 quant_max q s = Returns (y, s')"
  shows "vm_ok x s'"
proof -
  have start: "vm_ok x (s\<lparr>vm_thread := (vm_thread s)\<lparr>th_pc := pc1\<rparr>\<rparr>)" using s by (simp add: vm_ok_def)
  obtain r s1 where r: "re_exec x n True (s\<lparr>vm_thread := (vm_thread s)\<lparr>th_pc := pc1\<rparr>\<rparr>) = Returns (r, s1)"
    using run by (cases "re_exec x n True (s\<lparr>vm_thread := (vm_thread s)\<lparr>th_pc := pc1\<rparr>\<rparr>)") auto
  have ok: "vm_ok x s1" "match_pos_ok x r" using exec [OF start r] by simp_all
  have p: "pos_ok x (th_cptr (vm_thread s))" using s by (simp add: vm_ok_def th_ok_pos)
  show ?thesis
  proof (cases r)
    case (ReMatch c)
    then obtain s2 where s2: "after_body s s1 c = Some s2" using run r by (cases "after_body s s1 c") auto
    then have "vm_ok x s2" using after_body_ok [OF s2 ok(1)] ok(2) ReMatch by simp
    then show ?thesis using run r ReMatch s2 quant by (cases "quant_limit quant_max (q + 1)") auto
  next
    case ReNoMatch
    then obtain s2 where "after_body s s1 (th_cptr (vm_thread s)) = Some s2"
      using run r by (cases "after_body s s1 (th_cptr (vm_thread s))") auto
    then show ?thesis using run r ReNoMatch after_body_ok [OF _ ok(1) p] by simp
  next
    case ReError
    then show ?thesis using run r ok by simp
  qed
qed

lemma exec_step_ok:
  assumes exec: "\<And>b s y s'. vm_ok x s \<Longrightarrow> re_exec x n b s = Returns (y, s') \<Longrightarrow> vm_ok x s' \<and> match_pos_ok x y"
    and quant: "\<And>pc1 quant_max q s y s'. vm_ok x s \<Longrightarrow> re_quant x n pc1 quant_max q s = Returns (y, s') \<Longrightarrow> vm_ok x s'"
    and s: "vm_ok x s" and run: "re_exec x (Suc n) no_recurse s = Returns (y, s')"
  shows "vm_ok x s' \<and> match_pos_ok x y"
proof -
  have t: "th_ok x (vm_thread s)" using s by (simp add: vm_ok_def)
  obtain op where op: "re_step x (vm_thread s) = Some op" using run by (cases "re_step x (vm_thread s)") auto
  have ok: "op_all (th_ok x) op" using re_step_ok [OF t op] .
  have upd: "vm_ok x (s1\<lparr>vm_thread := u\<rparr>)" if "vm_ok x s1" "th_ok x u" for s1 u using that by (simp add: vm_ok_def)
  have recurse: "vm_ok x s' \<and> match_pos_ok x y"
    if "vm_ok x s1" "\<forall>u. ret = Some u \<longrightarrow> th_ok x u" "re_recurse x n ret s1 = Returns (y, s')" for ret s1
    by (rule recurse_ok [OF _ that]) (rule exec)
  show ?thesis
  proof (cases op)
    case (OpBreak u)
    then show ?thesis using exec [OF upd [OF s]] ok run op by fastforce
  next
    case OpNoMatch
    then show ?thesis using recurse [OF s, of None] run op s by (cases no_recurse) (auto simp del: re_recurse.simps)
  next
    case OpMatch
    then show ?thesis using recurse [OF s, of "Some (vm_thread s)"] run op s t
      by (cases no_recurse) (auto simp: th_ok_pos simp del: re_recurse.simps)
  next
    case (OpPush type sv u)
    show ?thesis
    proof (cases "push_state x s \<lparr>rs_type = type, rs_count = 0, rs_thread = sv\<rparr>")
      case None
      then show ?thesis using run op OpPush s by auto
    next
      case (Some s1)
      then have "vm_ok x s1" using push_state_ok s ok OpPush by fastforce
      then show ?thesis using exec [OF upd] ok OpPush run op Some by fastforce
    qed
  next
    case (OpQuant pc1 pc quant_min quant_max)
    obtain m s1 where q: "re_quant x n pc1 quant_max 0 s = Returns (m, s1)"
      using run op OpQuant by (cases "re_quant x n pc1 quant_max 0 s") auto
    have s1: "vm_ok x s1" using quant [OF s q] .
    then have t1: "th_ok x (vm_thread s1)" by (simp add: vm_ok_def)
    show ?thesis
    proof (cases m)
      case None
      then show ?thesis using run op OpQuant q s1 by auto
    next
      case (Some k)
      consider "k < quant_min" | "k = quant_min" | "quant_min < k" by force
      then show ?thesis
      proof cases
        case 1
        then show ?thesis using recurse [OF s1, of None] run op OpQuant q Some s1
          by (cases no_recurse) (auto simp del: re_recurse.simps)
      next
        case 2
        then have "re_exec x n no_recurse (s1\<lparr>vm_thread := (vm_thread s1)\<lparr>th_pc := pc\<rparr>\<rparr>) = Returns (y, s')"
          using run op OpQuant q Some by (simp add: Let_def)
        moreover have "vm_ok x (s1\<lparr>vm_thread := (vm_thread s1)\<lparr>th_pc := pc\<rparr>\<rparr>)" by (rule upd [OF s1]) (simp add: t1)
        ultimately show ?thesis by (rule exec [rotated])
      next
        case 3
        define rs where "rs = \<lparr>rs_type = RE_EXEC_STATE_GREEDY_QUANT, rs_count = k - quant_min, rs_thread = (vm_thread s1)\<lparr>th_pc := pc1 - 16\<rparr>\<rparr>"
        show ?thesis
        proof (cases "push_state x s1 rs")
          case None
          then show ?thesis using run op OpQuant q Some 3 s1 by (auto simp: rs_def Let_def)
        next
          case (Some s2)
          then have "re_exec x n no_recurse (s2\<lparr>vm_thread := (vm_thread s1)\<lparr>th_pc := pc\<rparr>\<rparr>) = Returns (y, s')"
            using run op OpQuant q \<open>m = Some k\<close> 3 by (simp add: Let_def rs_def)
          moreover have "vm_ok x s2" using push_state_ok [OF Some s1] t1 by (simp add: rs_def)
          then have "vm_ok x (s2\<lparr>vm_thread := (vm_thread s1)\<lparr>th_pc := pc\<rparr>\<rparr>)" by (rule upd) (simp add: t1)
          ultimately show ?thesis by (rule exec [rotated])
        qed
      qed
    qed
  qed
qed

lemma run_ok:
  "(\<forall>b s y s'. vm_ok x s \<longrightarrow> re_exec x n b s = Returns (y, s') \<longrightarrow> vm_ok x s' \<and> match_pos_ok x y)
    \<and> (\<forall>pc1 quant_max q s y s'. vm_ok x s \<longrightarrow> re_quant x n pc1 quant_max q s = Returns (y, s') \<longrightarrow> vm_ok x s')"
proof (induction n)
  case (Suc n)
  have exec: "vm_ok x s' \<and> match_pos_ok x y" if "vm_ok x s" "re_exec x n b s = Returns (y, s')" for b s y s'
    using Suc.IH that by blast
  have quant: "vm_ok x s'" if "vm_ok x s" "re_quant x n pc1 quant_max q s = Returns (y, s')" for pc1 quant_max q s y s'
    using Suc.IH that by blast
  show ?case
  proof (intro conjI allI impI)
    fix b s y s' assume "vm_ok x s" "re_exec x (Suc n) b s = Returns (y, s')"
    then have "vm_ok x s' \<and> match_pos_ok x y" by (rule exec_step_ok [rotated 2]) (rule exec quant; assumption)+
    then show "vm_ok x s'" "match_pos_ok x y" by blast+
  next
    fix pc1 quant_max q s y s' assume "vm_ok x s" "re_quant x (Suc n) pc1 quant_max q s = Returns (y, s')"
    then show "vm_ok x s'" by (rule quant_step_ok [rotated 2]) (rule exec quant; assumption)+
  qed
qed simp

section \<open>Compiled expressions\<close>

text \<open>
  What the compiler makes of \<open>/a*b/\<close>, and of \<open>/(.*)\u{10000}/uy\<close>: the header with the flags, the number of
  captures, the depth of the operand stack and the size, then the code.
\<close>

definition code_ab :: "u8 list" where
  "code_ab = [0, 0, 1, 0, 38, 0, 0, 0,
     9, 6, 0, 0, 0, 5, 8, 0xF5, 0xFF, 0xFF, 0xFF, 12, 0,
     29, 3, 0, 0, 0, 0, 0, 0, 0, 0xFF, 0xFF, 0xFF, 0x7F, 1, 0, 0, 0, 1, 97, 11,
     1, 98, 13, 0, 11]"

definition code_pair :: "u8 list" where
  "code_pair = [0x30, 0, 2, 0, 32, 0, 0, 0,
     12, 0, 12, 1,
     29, 2, 0, 0, 0, 0, 0, 0, 0, 0xFF, 0xFF, 0xFF, 0x7F, 1, 0, 0, 0, 4, 11,
     13, 1, 3, 0, 0, 1, 0, 13, 0, 11]"

lemma bind_weak: "f = g \<Longrightarrow> Option.bind f h = Option.bind g h"
  by simp

lemma replicate_small: "replicate 2 a = [a, a]" "replicate 4 a = [a, a, a, a]"
  by (simp_all add: numeral_eq_Suc)

lemmas run_numeral = re_exec.simps(2) [of _ "pred_numeral k" for k, folded numeral_eq_Suc]
  re_quant.simps(2) [of _ "pred_numeral k" for k, folded numeral_eq_Suc]
  prev_chars.simps(2) [of _ "pred_numeral k" for k, folded numeral_eq_Suc]
  simple_quantifier_loop.simps(2) [of _ _ "pred_numeral k" for k, folded numeral_eq_Suc]

lemmas code_defs = code_ab_def code_pair_def get_u32_def get_u16_def get_u8_def load_bytes_def reops_def jump_def

lemmas run_defs = code_defs run_numeral re_step_def push_thread_def test_any_def test_char_def get_char_def re_unit_def
  canonical_char_def save_capture_def is_hi_surrogate_def is_lo_surrogate_def store_def push_state_def after_body_def
  quant_limit_def prev_char_def get_prev_char_def from_surrogate_def is_line_terminator_def Let_def

lemmas check_defs = code_defs run_numeral check_code_def code_succs_def quant_check_def opcode_at_def

lemma check_ab: "check_code code_ab [8, 13, 14, 19, 21, 41, 43, 45]"
  by (simp add: check_defs cong: bind_weak)

definition context_ab :: re_ctx where
  "context_ab = \<lparr>re_bc = code_ab, re_cbuf = [99, 97, 97, 98], re_cbuf_type = 0, re_capture_count = 1, re_stack_size_max = 0,
     re_multi_line = False, re_ignore_case = False, re_is_unicode = False, re_alloc = (\<lambda>_. True)\<rparr>"

lemma context_ab: "re_context (\<lambda>_. True) code_ab [99, 97, 97, 98] 0 = Some context_ab"
  by (simp add: re_context_def code_ab_def get_u16_def load_bytes_def context_ab_def)

definition context_pair :: re_ctx where
  "context_pair = \<lparr>re_bc = code_pair, re_cbuf = [0xD800, 0xDC00], re_cbuf_type = 2, re_capture_count = 2, re_stack_size_max = 0,
     re_multi_line = False, re_ignore_case = False, re_is_unicode = True, re_alloc = (\<lambda>_. True)\<rparr>"

lemma context_pair: "re_context (\<lambda>_. True) code_pair [0xD800, 0xDC00] 1 = Some context_pair"
  by (simp add: re_context_def code_pair_def get_u16_def load_bytes_def context_pair_def)

lemma run_ab: "lre_exec (\<lambda>_. True) code_ab [99, 97, 97, 98] 0 0 30 = Returns (ReMatch 4,
    VM \<lparr>th_pc = 45, th_cptr = 4, th_capture = [Some 1, Some 4], th_stack = []\<rparr> [] 8)"
  unfolding lre_exec_def context_ab option.case
  by (simp add: start_thread_def context_ab_def run_defs replicate_small cong: bind_weak)

section \<open>The properties\<close>

lemma re_context_fields:
  "re_context alloc bc_buf cbuf cbuf_type = Some x \<Longrightarrow> re_bc x = bc_buf \<and> re_alloc x = alloc"
  by (auto simp: re_context_def bind_eq_Some_conv Let_def)

lemma start_good:
  assumes "pos_ok x cindex" "8 \<in> S"
  shows "good x S (start_thread x cindex)"
  using assms by (auto simp: good_def start_thread_def th_ok_def)

text \<open>A run reports the result of the search, and its thread is the one that matched.\<close>

definition reports :: "re_ctx \<Rightarrow> nat \<Rightarrow> thread option \<Rightarrow> bool" where
  "reports x cindex r = (\<exists>s. (\<forall>z. (\<exists>n. re_exec x n False (VM (start_thread x cindex) [] 0) = Returns z) \<longleftrightarrow> z = (outcome r, s))
     \<and> (\<forall>u. r = Some u \<longrightarrow> vm_thread s = u))"

lemma search_reported:
  assumes code: "code_ok x S" and alloc: "\<forall>n. re_alloc x n" and good: "good x S (start_thread x cindex)" and bt: "bt x (start_thread x cindex) r"
  shows "reports x cindex r"
proof -
  define t where "t = start_thread x cindex"
  obtain d t' sz' where "reaches d (\<lambda>n. re_exec x n False (VM t [] 0)) (\<lambda>n. re_recurse x n r (VM t' [] sz'))"
    using bt_runs(1) [OF code alloc bt] good unfolding runs_to_def t_def by blast
  moreover have "re_recurse x n r (VM t' [] sz') = Returns (outcome r, VM (case r of None \<Rightarrow> t' | Some u \<Rightarrow> u) [] sz')" for n
    by (cases r) simp_all
  ultimately have "reaches d (\<lambda>n. re_exec x n False (VM t [] 0))
      (\<lambda>n. Returns (outcome r, VM (case r of None \<Rightarrow> t' | Some u \<Rightarrow> u) [] sz'))" by (simp del: re_recurse.simps)
  then show ?thesis unfolding reports_def t_def [symmetric]
    by (intro exI [of _ "VM (case r of None \<Rightarrow> t' | Some u \<Rightarrow> u) [] sz'"]) (auto simp: reaches_const)
qed

lemma reported_match:
  assumes "reports x cindex r"
  shows "(\<exists>n s. re_exec x n False (VM (start_thread x cindex) [] 0) = Returns (ReMatch p, s) \<and> th_capture (vm_thread s) = c)
      \<longleftrightarrow> (\<exists>u. r = Some u \<and> th_cptr u = p \<and> th_capture u = c)"
    "(\<exists>n s. re_exec x n False (VM (start_thread x cindex) [] 0) = Returns (ReNoMatch, s)) \<longleftrightarrow> r = None"
proof -
  obtain s where s: "\<And>z. (\<exists>n. re_exec x n False (VM (start_thread x cindex) [] 0) = Returns z) \<longleftrightarrow> z = (outcome r, s)"
    "\<And>u. r = Some u \<Longrightarrow> vm_thread s = u" using assms by (auto simp: reports_def)
  have ret: "(\<exists>n. re_exec x n False (VM (start_thread x cindex) [] 0) = Returns (q, s')) \<longleftrightarrow> outcome r = q \<and> s' = s" for q s'
    using s(1) [of "(q, s')"] by auto
  have "(\<exists>n s'. re_exec x n False (VM (start_thread x cindex) [] 0) = Returns (ReMatch p, s') \<and> th_capture (vm_thread s') = c)
      \<longleftrightarrow> (\<exists>s'. (outcome r = ReMatch p \<and> s' = s) \<and> th_capture (vm_thread s') = c)"
    unfolding ret [symmetric] by blast
  then show "(\<exists>n s. re_exec x n False (VM (start_thread x cindex) [] 0) = Returns (ReMatch p, s) \<and> th_capture (vm_thread s) = c)
      \<longleftrightarrow> (\<exists>u. r = Some u \<and> th_cptr u = p \<and> th_capture u = c)"
    using s(2) by (cases r) auto
  have "(\<exists>n s'. re_exec x n False (VM (start_thread x cindex) [] 0) = Returns (ReNoMatch, s')) \<longleftrightarrow> (\<exists>s'. outcome r = ReNoMatch \<and> s' = s)"
    unfolding ret [symmetric] by blast
  then show "(\<exists>n s. re_exec x n False (VM (start_thread x cindex) [] 0) = Returns (ReNoMatch, s)) \<longleftrightarrow> r = None"
    by (cases r) auto
qed

text \<open>
  C1: The bytecode interpreter, with its stack of saved states and its shortcut for greedy
  quantifiers, is the backtracking search. For code that passes the static test and a start between two
  characters: with some amount of fuel it reports a match at \<open>p\<close> with captures \<open>c\<close> exactly when the first
  alternative that matches ends there with these captures, and no match exactly when no alternative matches.
\<close>

theorem lre_exec_backtracks:
  assumes x: "re_context (\<lambda>_. True) bc_buf cbuf cbuf_type = Some x"
    and check: "check_code bc_buf pcs" "8 \<in> set pcs"
    and start: "pos_ok x cindex"
  shows "((\<exists>fuel s. lre_exec (\<lambda>_. True) bc_buf cbuf cindex cbuf_type fuel = Returns (ReMatch p, s) \<and> th_capture (vm_thread s) = c)
      \<longleftrightarrow> (\<exists>u. bt x (start_thread x cindex) (Some u) \<and> th_cptr u = p \<and> th_capture u = c))
    \<and> ((\<exists>fuel s. lre_exec (\<lambda>_. True) bc_buf cbuf cindex cbuf_type fuel = Returns (ReNoMatch, s))
      \<longleftrightarrow> bt x (start_thread x cindex) None)"
proof -
  define E where "E n = re_exec x n False (VM (start_thread x cindex) [] 0)" for n
  have alloc: "\<forall>n. re_alloc x n" and bc: "re_bc x = bc_buf" using re_context_fields [OF x] by simp_all
  have code: "code_ok x (set pcs)" using check_code_ok check(1) bc by blast
  have good: "good x (set pcs) (start_thread x cindex)" by (rule start_good [OF start check(2)])
  have exec: "lre_exec (\<lambda>_. True) bc_buf cbuf cindex cbuf_type n = E n" for n by (simp add: lre_exec_def x E_def)
  have found: "reports x cindex r" if "bt x (start_thread x cindex) r" for r using search_reported [OF code alloc good that] .
  have some: "\<exists>r. bt x (start_thread x cindex) r" if "E n = Returns y" for n y
    using returns_bt [OF code alloc that [unfolded E_def] good] .
  note match = reported_match [of x cindex, folded E_def]
  show ?thesis unfolding exec
  proof (intro conjI iffI)
    assume *: "\<exists>n s. E n = Returns (ReMatch p, s) \<and> th_capture (vm_thread s) = c"
    then obtain r where r: "bt x (start_thread x cindex) r" using some by blast
    then show "\<exists>u. bt x (start_thread x cindex) (Some u) \<and> th_cptr u = p \<and> th_capture u = c"
      using * match(1) [OF found [OF r], of p c] by blast
  next
    assume *: "\<exists>n s. E n = Returns (ReNoMatch, s)"
    then obtain r where r: "bt x (start_thread x cindex) r" using some by blast
    then show "bt x (start_thread x cindex) None" using * match(2) [OF found [OF r]] by simp
  qed (use match(1) found in blast, use match(2) found in blast)
qed

theorem lre_exec_backtracks_witness:
  "\<exists>u. bt context_ab (start_thread context_ab 0) (Some u) \<and> th_cptr u = 4 \<and> th_capture u = [Some 1, Some 4]"
proof -
  have "pos_ok context_ab 0" by (simp add: pos_ok_def mid_pair_def)
  then show ?thesis
    using lre_exec_backtracks [OF context_ab check_ab, of 0 4 "[Some 1, Some 4]"] run_ab by fastforce
qed

text \<open>
  C11: Memory safety of the positions. Whatever the bytecode and wherever allocation
  fails: from a start between two characters, a match ends inside the subject and between two characters, and
  so does every capture; in UTF-16 mode no pair of surrogates is torn apart.
\<close>

theorem lre_exec_positions:
  assumes x: "re_context alloc bc_buf cbuf cbuf_type = Some x" and start: "pos_ok x cindex"
    and run: "lre_exec alloc bc_buf cbuf cindex cbuf_type fuel = Returns (ReMatch p, s)"
  shows "pos_ok x p \<and> (\<forall>q. Some q \<in> set (th_capture (vm_thread s)) \<longrightarrow> pos_ok x q)"
proof -
  have "vm_ok x (VM (start_thread x cindex) [] 0)" using start_good [OF start, of UNIV] by (simp add: vm_ok_def good_def)
  moreover have "re_exec x fuel False (VM (start_thread x cindex) [] 0) = Returns (ReMatch p, s)"
    using run by (simp add: lre_exec_def x)
  ultimately have "vm_ok x s \<and> match_pos_ok x (ReMatch p)" using run_ok by blast
  then show ?thesis by (auto simp: vm_ok_def th_ok_def)
qed

theorem lre_exec_positions_witness:
  "pos_ok context_ab 4 \<and> pos_ok context_ab 1"
proof -
  have "pos_ok context_ab 0" by (simp add: pos_ok_def mid_pair_def)
  then show ?thesis using lre_exec_positions [OF context_ab _ run_ab] by auto
qed

text \<open>
  C40: The test of a character class, a binary search in the list of intervals that the compiler
  lays out, decides membership; in the 16-bit form a last bound of 0xffff stands for no bound.
\<close>

definition class_test :: "(nat \<Rightarrow> u32) \<Rightarrow> (nat \<Rightarrow> u32) \<Rightarrow> nat \<Rightarrow> bool \<Rightarrow> u32 \<Rightarrow> bool" where
  "class_test L H n wide c = ((\<exists>i<n. L i \<le> c \<and> c \<le> H i) \<or> \<not> wide \<and> H (n - 1) = 0xffff \<and> 0xffff \<le> c)"

theorem test_range_is_membership:
  assumes n: "get_u16 (re_bc x) pc = Some n"
    and ok: "if wide
      then intervals_ok (\<lambda>i. get_u32 (re_bc x) (pc + 2 + i * 8)) (\<lambda>i. get_u32 (re_bc x) (pc + 2 + i * 8 + 4)) L H (unat n)
      else intervals_ok (\<lambda>i. get_u16 (re_bc x) (pc + 2 + i * 4)) (\<lambda>i. get_u16 (re_bc x) (pc + 2 + i * 4 + 2)) L H (unat n)"
    and c: "get_char x (th_cptr t) (length (re_cbuf x)) = Some (c0, p)" "canonical_char x c0 = Some c"
  shows "test_range x t pc wide = Some (if class_test L H (unat n) wide c
    then OpBreak (t\<lparr>th_pc := pc + 2 + (if wide then 8 else 4) * unat n, th_cptr := p\<rparr>) else OpNoMatch)"
proof -
  have "th_cptr t < length (re_cbuf x)" using c(1) by (auto simp: get_char_def bind_eq_Some_conv re_unit_Some)
  then show ?thesis
    using ok by (cases wide) (auto simp: test_range_def n c Let_def range_match_spec class_test_def)
qed

definition context_class :: re_ctx where
  "context_class = \<lparr>re_bc = [2, 0, 48, 0, 57, 0, 97, 0, 0xFF, 0xFF], re_cbuf = [53], re_cbuf_type = 0, re_capture_count = 0,
     re_stack_size_max = 0, re_multi_line = False, re_ignore_case = False, re_is_unicode = False, re_alloc = (\<lambda>_. True)\<rparr>"

theorem test_range_is_membership_witness:
  "test_range context_class \<lparr>th_pc = 0, th_cptr = 0, th_capture = [], th_stack = []\<rparr> 0 False
    = Some (OpBreak \<lparr>th_pc = 10, th_cptr = 1, th_capture = [], th_stack = []\<rparr>)"
proof -
  define L :: "nat \<Rightarrow> u32" where "L = (\<lambda>i. if i = 0 then 48 else 97)"
  define H :: "nat \<Rightarrow> u32" where "H = (\<lambda>i. if i = 0 then 57 else 0xffff)"
  have n: "get_u16 (re_bc context_class) 0 = Some 2" by (simp add: context_class_def get_u16_def load_bytes_def)
  have "(i::nat) < 2 \<longleftrightarrow> i = 0 \<or> i = 1" for i by auto
  then have ok: "intervals_ok (\<lambda>i. get_u16 (re_bc context_class) (0 + 2 + i * 4)) (\<lambda>i. get_u16 (re_bc context_class) (0 + 2 + i * 4 + 2)) L H (unat (2::u32))"
    by (auto simp: intervals_ok_def context_class_def get_u16_def load_bytes_def L_def H_def)
  have "class_test L H 2 False 53" by (auto simp: class_test_def L_def H_def)
  then show ?thesis
    using test_range_is_membership [OF n, of False L H "\<lparr>th_pc = 0, th_cptr = 0, th_capture = [], th_stack = []\<rparr>" 53 1 53] ok
    by (simp add: context_class_def get_char_def re_unit_def canonical_char_def)
qed

text \<open>
  A start inside a surrogate pair, which \<^verbatim>\<open>lre_exec\<close> takes as it is, defeats the way back
  of a greedy quantifier: \<open>/(.*)\u{10000}/uy\<close> with \<^verbatim>\<open>lastIndex\<close> 1 on the two units of that character reads the
  low surrogate alone and steps back over both, to a position before the start. The match is reported with
  a first capture that ends before it starts.
\<close>

theorem match_from_inside_a_pair:
  "lre_exec (\<lambda>_. True) code_pair [0xD800, 0xDC00] 1 1 30 = Returns (ReMatch 2,
    VM \<lparr>th_pc = 40, th_cptr = 2, th_capture = [Some 1, Some 2, Some 1, Some 0], th_stack = []\<rparr> [] 8)"
  unfolding lre_exec_def context_pair option.case
  by (simp add: start_thread_def context_pair_def run_defs replicate_small cong: bind_weak)

end
