(* ===== verification/Atoms.thy ===== *)
theory Atoms
  imports JsValue
begin

text \<open>
  The table of atoms of \<^verbatim>\<open>quickjs.c\<close>: the interned strings and symbols that name properties and
  variables, with its hash chains, its list of free entries and the reference counts.

  \<open>rt_strings\<close> is the memory of the strings, by address. An entry of \<open>rt_atom_array\<close> is a string or the
  number of the next free entry, as the low bit of the pointer tells. The chains run through the entries:
  \<open>str_hash_next\<close> is an index, and 0 ends a chain. \<^term>\<open>None\<close> is an access outside an array, through a free
  entry or to freed memory, a failed assertion or an overflow of an \<^verbatim>\<open>int\<close>. Allocation results are arguments.
  Weak references to symbols are not modelled.
\<close>

section \<open>State\<close>

datatype atom_type = TYPE_NONE | TYPE_STRING | TYPE_GLOBAL_SYMBOL | TYPE_SYMBOL | TYPE_PRIVATE

fun type_num :: "atom_type \<Rightarrow> nat" where
  "type_num TYPE_NONE = 0"
| "type_num TYPE_STRING = 1"
| "type_num TYPE_GLOBAL_SYMBOL = 2"
| "type_num TYPE_SYMBOL = 3"
| "type_num TYPE_PRIVATE = 4"

definition JS_ATOM_HASH_SYMBOL :: u32 where "JS_ATOM_HASH_SYMBOL = 0"

definition JS_ATOM_HASH_PRIVATE :: u32 where "JS_ATOM_HASH_PRIVATE = 1"

definition JS_ATOM_HASH_MASK :: u32 where "JS_ATOM_HASH_MASK = 0x3FFFFFFF"

record jstr =
  str_ref_count :: int
  str_chars :: js_string
  str_hash :: u32
  str_atom_type :: atom_type
  str_hash_next :: nat

datatype atom_entry = AtomFree nat | AtomPtr nat

record atom_rt =
  rt_strings :: "nat \<rightharpoonup> jstr"
  rt_atom_hash_size :: nat
  rt_atom_count :: int
  rt_atom_size :: nat
  rt_atom_count_resize :: nat
  rt_atom_hash :: "nat list"
  rt_atom_array :: "atom_entry list"
  rt_atom_free_index :: nat

text \<open>What the allocator answers: for the array, its entry 0, a new string, the hash table.\<close>

record atom_mem =
  mem_array :: bool
  mem_null :: "nat option"
  mem_str :: "nat option"
  mem_hash :: bool

definition js_atom_strings :: "string list" where
  "js_atom_strings =
    [''null'', ''false'', ''true'', ''if'', ''else'', ''return'', ''var'', ''this'', ''delete'', ''void'',
      ''typeof'', ''new'', ''in'', ''instanceof'', ''do'', ''while'', ''for'', ''break'', ''continue''] @
    [''switch'', ''case'', ''default'', ''throw'', ''try'', ''catch'', ''finally'', ''function'', ''debugger'',
      ''with'', ''class'', ''const'', ''enum'', ''export'', ''extends'', ''import'', ''super'', ''implements'',
      ''interface''] @
    [''let'', ''package'', ''private'', ''protected'', ''public'', ''static'', ''yield'', ''await'', '''', ''keys'',
      ''size'', ''length'', ''message'', ''cause'', ''errors'', ''stack'', ''name'', ''toString'', ''toLocaleString''] @
    [''valueOf'', ''eval'', ''prototype'', ''constructor'', ''configurable'', ''writable'', ''enumerable'',
      ''value'', ''get'', ''set'', ''of'', ''__proto__'', ''undefined'', ''number'', ''boolean'', ''string'',
      ''object'', ''symbol'', ''integer''] @
    [''unknown'', ''arguments'', ''callee'', ''caller'', ''<eval>'', ''<ret>'', ''<var>'', ''<arg_var>'',
      ''<with>'', ''lastIndex'', ''target'', ''index'', ''input'', ''defineProperties'', ''apply'', ''join'',
      ''concat'', ''split'', ''construct''] @
    [''getPrototypeOf'', ''setPrototypeOf'', ''isExtensible'', ''preventExtensions'', ''has'', ''deleteProperty'',
      ''defineProperty'', ''getOwnPropertyDescriptor'', ''ownKeys'', ''add'', ''done'', ''next'', ''values'',
      ''source'', ''flags'', ''global'', ''unicode'', ''raw'', ''new.target''] @
    [''this.active_func'', ''<home_object>'', ''<computed_field>'', ''<static_computed_field>'',
      ''<class_fields_init>'', ''<brand>'', ''#constructor'', ''as'', ''from'', ''meta'', ''*default*'', ''*'',
      ''Module'', ''then'', ''resolve'', ''reject'', ''promise'', ''proxy'', ''revoke''] @
    [''async'', ''exec'', ''groups'', ''indices'', ''status'', ''reason'', ''globalThis'', ''bigint'',
      ''not-equal'', ''timed-out'', ''ok'', ''toJSON'', ''maxByteLength'', ''Object'', ''Array'', ''Error'',
      ''Number'', ''String'', ''Boolean''] @
    [''Symbol'', ''Arguments'', ''Math'', ''JSON'', ''Date'', ''Function'', ''GeneratorFunction'',
      ''ForInIterator'', ''RegExp'', ''ArrayBuffer'', ''SharedArrayBuffer'', ''Uint8ClampedArray'', ''Int8Array'',
      ''Uint8Array'', ''Int16Array'', ''Uint16Array'', ''Int32Array'', ''Uint32Array'', ''BigInt64Array''] @
    [''BigUint64Array'', ''Float16Array'', ''Float32Array'', ''Float64Array'', ''DataView'', ''BigInt'',
      ''WeakRef'', ''FinalizationRegistry'', ''Map'', ''Set'', ''WeakMap'', ''WeakSet'', ''Iterator'',
      ''Iterator Helper'', ''Iterator Wrap'', ''Map Iterator'', ''Set Iterator'', ''Array Iterator'',
      ''String Iterator''] @
    [''RegExp String Iterator'', ''Generator'', ''Proxy'', ''Promise'', ''PromiseResolveFunction'',
      ''PromiseRejectFunction'', ''AsyncFunction'', ''AsyncFunctionResolve'', ''AsyncFunctionReject'',
      ''AsyncGeneratorFunction'', ''AsyncGenerator'', ''EvalError'', ''RangeError'', ''ReferenceError'',
      ''SyntaxError'', ''TypeError'', ''URIError'', ''InternalError'', ''CallSite'']"

definition js_atom_init :: "string list" where
  "js_atom_init = js_atom_strings @
    [''<brand>'', ''Symbol.toPrimitive'', ''Symbol.iterator'', ''Symbol.match'', ''Symbol.matchAll'',
      ''Symbol.replace'', ''Symbol.search'', ''Symbol.split'', ''Symbol.toStringTag'', ''Symbol.isConcatSpreadable'',
      ''Symbol.hasInstance'', ''Symbol.species'', ''Symbol.unscopables'', ''Symbol.asyncIterator'']"

definition JS_ATOM_END :: nat where "JS_ATOM_END = 224"

definition JS_ATOM_Private_brand :: nat where "JS_ATOM_Private_brand = 210"

definition JS_ATOM_Symbol_toPrimitive :: nat where "JS_ATOM_Symbol_toPrimitive = 211"

definition JS_ATOM_empty_string :: nat where "JS_ATOM_empty_string = 47"

section \<open>Tagged integers\<close>

definition JS_ATOM_TAG_INT :: u32 where "JS_ATOM_TAG_INT = 0x80000000"

definition JS_ATOM_MAX_INT :: u32 where "JS_ATOM_MAX_INT = JS_ATOM_TAG_INT - 1"

definition JS_ATOM_MAX :: nat where "JS_ATOM_MAX = 2 ^ 30 - 1"

definition JS_ATOM_COUNT_RESIZE :: "nat \<Rightarrow> nat" where "JS_ATOM_COUNT_RESIZE n = n * 2"

definition JS_AtomIsConst :: "u32 \<Rightarrow> bool" where
  "JS_AtomIsConst v = (sint v < int JS_ATOM_END)"

definition JS_AtomIsTaggedInt :: "u32 \<Rightarrow> bool" where
  "JS_AtomIsTaggedInt v = (v AND JS_ATOM_TAG_INT \<noteq> 0)"

definition JS_AtomFromUInt32 :: "u32 \<Rightarrow> u32" where
  "JS_AtomFromUInt32 v = v OR JS_ATOM_TAG_INT"

definition JS_AtomToUInt32 :: "u32 \<Rightarrow> u32" where
  "JS_AtomToUInt32 atom = atom AND NOT JS_ATOM_TAG_INT"

definition is_num :: "u32 \<Rightarrow> bool" where
  "is_num c = (48 \<le> c \<and> c \<le> 57)"

fun string_units :: "js_string \<Rightarrow> u32 list" where
  "string_units (Str8 s) = map ucast s"
| "string_units (Str16 s) = map ucast s"

definition string_get :: "js_string \<Rightarrow> nat \<Rightarrow> u32 option" where
  "string_get p i = load (string_units p) i"

primrec num_string_loop :: "js_string \<Rightarrow> nat \<Rightarrow> nat \<Rightarrow> u32 \<Rightarrow> u32 option option" where
  "num_string_loop p 0 i n = Some (Some n)"
| "num_string_loop p (Suc k) i n = do {
     c \<leftarrow> string_get p i;
     if \<not> is_num c then Some None
     else let n64 = (ucast n :: u64) * 10 + (ucast c - 48)
          in if drop_bit 32 n64 \<noteq> 0 then Some None else num_string_loop p k (i + 1) (ucast n64) }"

definition is_num_string :: "js_string \<Rightarrow> u32 option option" where
  "is_num_string p =
     (let len = js_string_len p
      in if len = 0 \<or> 10 < len then Some None
         else do {
           c \<leftarrow> string_get p 0;
           if is_num c
           then if c = 48 then Some (if len \<noteq> 1 then None else Some 0) else num_string_loop p (len - 1) 1 (c - 48)
           else Some None })"

section \<open>Entries and chains\<close>

definition atom_ptr :: "atom_rt \<Rightarrow> nat \<Rightarrow> nat option" where
  "atom_ptr s i = (case load (rt_atom_array s) i of Some (AtomPtr a) \<Rightarrow> Some a | _ \<Rightarrow> None)"

definition hash_slot :: "u32 \<Rightarrow> nat \<Rightarrow> nat" where
  "hash_slot h n = unat (h AND (of_nat n - 1))"

definition set_str :: "nat \<Rightarrow> jstr \<Rightarrow> atom_rt \<Rightarrow> atom_rt" where
  "set_str a p s = s\<lparr>rt_strings := (rt_strings s)(a \<mapsto> p)\<rparr>"

primrec rehash_chain :: "u32 \<Rightarrow> nat \<Rightarrow> nat \<Rightarrow> nat list \<Rightarrow> atom_rt \<Rightarrow> (nat list \<times> atom_rt) option" where
  "rehash_chain msk 0 h new_hash s = (if h = 0 then Some (new_hash, s) else None)"
| "rehash_chain msk (Suc n) h new_hash s =
     (if h = 0 then Some (new_hash, s)
      else do {
        a \<leftarrow> atom_ptr s h;
        p \<leftarrow> rt_strings s a;
        let j = unat (str_hash p AND msk);
        head \<leftarrow> load new_hash j;
        rehash_chain msk n (str_hash_next p) (new_hash[j := h]) (set_str a (p\<lparr>str_hash_next := head\<rparr>) s) })"

primrec rehash_all :: "u32 \<Rightarrow> nat \<Rightarrow> nat list \<Rightarrow> nat list \<Rightarrow> atom_rt \<Rightarrow> (nat list \<times> atom_rt) option" where
  "rehash_all msk n [] new_hash s = Some (new_hash, s)"
| "rehash_all msk n (h # hs) new_hash s = do {
     (new_hash, s) \<leftarrow> rehash_chain msk n h new_hash s;
     rehash_all msk n hs new_hash s }"

text \<open>A chain is no longer than the array, which is the fuel here and below.\<close>

definition JS_ResizeAtomHash :: "atom_rt \<Rightarrow> nat \<Rightarrow> bool \<Rightarrow> (bool \<times> atom_rt) option" where
  "JS_ResizeAtomHash s new_hash_size mem =
     (if new_hash_size AND (new_hash_size - 1) \<noteq> 0 then None
      else if \<not> mem then Some (False, s)
      else do {
        (new_hash, s) \<leftarrow> rehash_all (of_nat (new_hash_size - 1)) (length (rt_atom_array s)) (rt_atom_hash s)
          (replicate new_hash_size 0) s;
        Some (True, s\<lparr>rt_atom_hash := new_hash, rt_atom_hash_size := new_hash_size,
          rt_atom_count_resize := JS_ATOM_COUNT_RESIZE new_hash_size\<rparr>) })"

primrec atom_index_loop :: "atom_rt \<Rightarrow> nat \<Rightarrow> nat \<Rightarrow> nat \<Rightarrow> nat option" where
  "atom_index_loop s p 0 i = None"
| "atom_index_loop s p (Suc n) i = do {
     p1 \<leftarrow> atom_ptr s i;
     if p1 = p then Some i
     else if i = 0 then None
     else do { q \<leftarrow> rt_strings s p1; atom_index_loop s p n (str_hash_next q) } }"

definition js_get_atom_index :: "atom_rt \<Rightarrow> nat \<Rightarrow> nat option" where
  "js_get_atom_index s a = do {
     p \<leftarrow> rt_strings s a;
     if str_atom_type p \<noteq> TYPE_SYMBOL
     then do {
       i \<leftarrow> load (rt_atom_hash s) (hash_slot (str_hash p) (rt_atom_hash_size s));
       atom_index_loop s a (length (rt_atom_array s) + 1) i }
     else Some (str_hash_next p) }"

section \<open>Freeing\<close>

text \<open>The entry after \<open>i\<close> that is \<open>p\<close> is taken out of its chain.\<close>

primrec unlink_loop :: "nat \<Rightarrow> nat \<Rightarrow> nat \<Rightarrow> atom_rt \<Rightarrow> (nat \<times> atom_rt) option" where
  "unlink_loop p 0 i s = None"
| "unlink_loop p (Suc n) i s =
     (if i = 0 then None
      else do {
        p0 \<leftarrow> atom_ptr s i;
        q0 \<leftarrow> rt_strings s p0;
        let i = str_hash_next q0;
        p1 \<leftarrow> atom_ptr s i;
        if p1 = p
        then do { q1 \<leftarrow> rt_strings s p1; Some (i, set_str p0 (q0\<lparr>str_hash_next := str_hash_next q1\<rparr>) s) }
        else unlink_loop p n i s })"

definition JS_FreeAtomStruct :: "atom_rt \<Rightarrow> nat \<Rightarrow> atom_rt option" where
  "JS_FreeAtomStruct s a = do {
     p \<leftarrow> rt_strings s a;
     (i, s) \<leftarrow> (if str_atom_type p \<noteq> TYPE_SYMBOL
       then do {
         let h0 = hash_slot (str_hash p) (rt_atom_hash_size s);
         i \<leftarrow> load (rt_atom_hash s) h0;
         p1 \<leftarrow> atom_ptr s i;
         if p1 = a then Some (i, s\<lparr>rt_atom_hash := (rt_atom_hash s)[h0 := str_hash_next p]\<rparr>)
         else unlink_loop a (length (rt_atom_array s) + 1) i s }
       else Some (str_hash_next p, s));
     array \<leftarrow> store (rt_atom_array s) i (AtomFree (rt_atom_free_index s));
     let s = s\<lparr>rt_atom_array := array, rt_atom_free_index := i, rt_strings := (rt_strings s)(a := None),
               rt_atom_count := rt_atom_count s - 1\<rparr>;
     if rt_atom_count s < 0 then None else Some s }"

definition js_free_string :: "atom_rt \<Rightarrow> nat \<Rightarrow> atom_rt option" where
  "js_free_string s a = do {
     p \<leftarrow> rt_strings s a;
     let p = p\<lparr>str_ref_count := str_ref_count p - 1\<rparr>;
     let s = set_str a p s;
     if str_ref_count p \<le> 0
     then if str_atom_type p \<noteq> TYPE_NONE then JS_FreeAtomStruct s a
          else Some (s\<lparr>rt_strings := (rt_strings s)(a := None)\<rparr>)
     else Some s }"

definition JS_FreeAtom0 :: "atom_rt \<Rightarrow> u32 \<Rightarrow> atom_rt option" where
  "JS_FreeAtom0 s i = do {
     a \<leftarrow> atom_ptr s (unat i);
     p \<leftarrow> rt_strings s a;
     let p = p\<lparr>str_ref_count := str_ref_count p - 1\<rparr>;
     let s = set_str a p s;
     if 0 < str_ref_count p then Some s else JS_FreeAtomStruct s a }"

definition JS_FreeAtom :: "atom_rt \<Rightarrow> u32 \<Rightarrow> atom_rt option" where
  "JS_FreeAtom s v = (if \<not> JS_AtomIsConst v then JS_FreeAtom0 s v else Some s)"

definition JS_FreeAtomRT :: "atom_rt \<Rightarrow> u32 \<Rightarrow> atom_rt option" where
  "JS_FreeAtomRT s v = (if \<not> JS_AtomIsConst v then JS_FreeAtom0 s v else Some s)"

definition inc_ref :: "atom_rt \<Rightarrow> nat \<Rightarrow> atom_rt option" where
  "inc_ref s a = do {
     p \<leftarrow> rt_strings s a;
     Some (set_str a (p\<lparr>str_ref_count := str_ref_count p + 1\<rparr>) s) }"

definition JS_DupAtomRT :: "atom_rt \<Rightarrow> u32 \<Rightarrow> atom_rt option" where
  "JS_DupAtomRT s v = (if \<not> JS_AtomIsConst v then do { a \<leftarrow> atom_ptr s (unat v); inc_ref s a } else Some s)"

definition JS_DupAtom :: "atom_rt \<Rightarrow> u32 \<Rightarrow> atom_rt option" where
  "JS_DupAtom s v = (if \<not> JS_AtomIsConst v then do { a \<leftarrow> atom_ptr s (unat v); inc_ref s a } else Some s)"


section \<open>New atoms\<close>

primrec find_atom :: "atom_rt \<Rightarrow> u32 \<Rightarrow> atom_type \<Rightarrow> js_string \<Rightarrow> nat \<Rightarrow> nat \<Rightarrow> nat option option" where
  "find_atom s h atom_type str 0 i = (if i = 0 then Some None else None)"
| "find_atom s h atom_type str (Suc n) i =
     (if i = 0 then Some None
      else do {
        a \<leftarrow> atom_ptr s i;
        p \<leftarrow> rt_strings s a;
        r \<leftarrow> (if str_hash p = h \<and> str_atom_type p = atom_type \<and> js_string_len (str_chars p) = js_string_len str
              then js_string_memcmp (str_chars p) str (js_string_len str) else Some 1);
        if r = 0 then Some (Some i) else find_atom s h atom_type str n (str_hash_next p) })"

text \<open>The outer \<^term>\<open>None\<close> is a fault, the inner one a failure.\<close>

definition grow_atom_array :: "atom_rt \<Rightarrow> atom_mem \<Rightarrow> atom_rt option option" where
  "grow_atom_array s mem =
     (if 2 ^ 31 \<le> rt_atom_size s * 3 then None
      else let new_size = max 211 (rt_atom_size s * 3 div 2); start = rt_atom_size s
        in if JS_ATOM_MAX < new_size \<or> \<not> mem_array mem then Some None
           else case (if start = 0 then map_option Some (mem_null mem) else Some None) of
             None \<Rightarrow> Some None
           | Some null \<Rightarrow>
               let (s, old, start) = (case null of
                   Some a \<Rightarrow> (set_str a \<lparr>str_ref_count = 1, str_chars = Str8 [], str_hash = 0, str_atom_type = TYPE_SYMBOL,
                       str_hash_next = 0\<rparr> (s\<lparr>rt_atom_count := rt_atom_count s + 1\<rparr>), [AtomPtr a], 1)
                 | None \<Rightarrow> (s, rt_atom_array s, start))
               in Some (Some (s\<lparr>rt_atom_size := new_size, rt_atom_free_index := start,
                    rt_atom_array := old @ map (\<lambda>i. AtomFree (if i = new_size - 1 then 0 else i + 1)) [start..<new_size]\<rparr>)))"

text \<open>The string of the new atom: the given one, a copy of it, or an empty one without text.\<close>

definition atom_string :: "atom_rt \<Rightarrow> nat option \<Rightarrow> atom_type \<Rightarrow> atom_mem \<Rightarrow> (nat option \<times> atom_rt) option" where
  "atom_string s str atom_type mem =
     (case str of
        Some a \<Rightarrow> do {
          p \<leftarrow> rt_strings s a;
          if str_atom_type p = TYPE_NONE then Some (Some a, set_str a (p\<lparr>str_atom_type := atom_type\<rparr>) s)
          else case mem_str mem of
            None \<Rightarrow> Some (None, s)
          | Some b \<Rightarrow> do {
              s \<leftarrow> js_free_string (set_str b \<lparr>str_ref_count = 1, str_chars = str_chars p, str_hash = 0,
                    str_atom_type = TYPE_NONE, str_hash_next = 0\<rparr> s) a;
              Some (Some b, s) } }
      | None \<Rightarrow> (case mem_str mem of
            None \<Rightarrow> Some (None, s)
          | Some b \<Rightarrow> Some (Some b, set_str b \<lparr>str_ref_count = 1, str_chars = Str16 [], str_hash = 0,
                str_atom_type = TYPE_NONE, str_hash_next = 0\<rparr> s)))"

definition link_atom :: "atom_rt \<Rightarrow> nat \<Rightarrow> u32 \<Rightarrow> nat \<Rightarrow> atom_type \<Rightarrow> bool \<Rightarrow> (nat \<times> atom_rt) option" where
  "link_atom s a h h1 atom_type mem = do {
     let i = rt_atom_free_index s;
     e \<leftarrow> load (rt_atom_array s) i;
     nxt \<leftarrow> (case e of AtomFree n \<Rightarrow> Some n | AtomPtr b \<Rightarrow> None);
     p \<leftarrow> rt_strings s a;
     let s = s\<lparr>rt_atom_free_index := nxt, rt_atom_array := (rt_atom_array s)[i := AtomPtr a],
               rt_atom_count := rt_atom_count s + 1\<rparr>;
     let p = p\<lparr>str_hash := h, str_hash_next := i, str_atom_type := atom_type\<rparr>;
     if atom_type = TYPE_SYMBOL then Some (i, set_str a p s)
     else do {
       head \<leftarrow> load (rt_atom_hash s) h1;
       let s = set_str a (p\<lparr>str_hash_next := head\<rparr>) (s\<lparr>rt_atom_hash := (rt_atom_hash s)[h1 := i]\<rparr>);
       if int (rt_atom_count_resize s) \<le> rt_atom_count s
       then do { (ok, s) \<leftarrow> JS_ResizeAtomHash s (rt_atom_hash_size s * 2) mem; Some (i, s) }
       else Some (i, s) } }"

definition fail_atom :: "atom_rt \<Rightarrow> nat option \<Rightarrow> (nat \<times> atom_rt) option" where
  "fail_atom s str = (case str of None \<Rightarrow> Some (0, s) | Some a \<Rightarrow> do { s \<leftarrow> js_free_string s a; Some (0, s) })"

definition new_atom_entry :: "atom_rt \<Rightarrow> nat option \<Rightarrow> u32 \<Rightarrow> nat \<Rightarrow> atom_type \<Rightarrow> atom_mem \<Rightarrow> (nat \<times> atom_rt) option" where
  "new_atom_entry s str h h1 atom_type mem = do {
     grown \<leftarrow> (if rt_atom_free_index s = 0 then grow_atom_array s mem else Some (Some s));
     case grown of
       None \<Rightarrow> fail_atom s str
     | Some s \<Rightarrow> do {
         (made, s) \<leftarrow> atom_string s str atom_type mem;
         case made of
           None \<Rightarrow> fail_atom s str
         | Some a \<Rightarrow> link_atom s a h h1 atom_type (mem_hash mem) } }"

definition JS_NewAtom0 :: "atom_rt \<Rightarrow> nat option \<Rightarrow> atom_type \<Rightarrow> atom_mem \<Rightarrow> (nat \<times> atom_rt) option" where
  "JS_NewAtom0 s str atom_type mem =
     (if type_num atom_type < type_num TYPE_SYMBOL
      then do {
        a \<leftarrow> str;
        p \<leftarrow> rt_strings s a;
        if str_atom_type p = atom_type
        then do {
          i \<leftarrow> js_get_atom_index s a;
          Some (i, if JS_AtomIsConst (of_nat i) then set_str a (p\<lparr>str_ref_count := str_ref_count p - 1\<rparr>) s else s) }
        else do {
          let h = hash_string (str_chars p) (of_nat (type_num atom_type)) AND JS_ATOM_HASH_MASK;
          let h1 = hash_slot h (rt_atom_hash_size s);
          i \<leftarrow> load (rt_atom_hash s) h1;
          found \<leftarrow> find_atom s h atom_type (str_chars p) (length (rt_atom_array s)) i;
          case found of
            Some i \<Rightarrow> do {
              s \<leftarrow> (if \<not> JS_AtomIsConst (of_nat i) then do { b \<leftarrow> atom_ptr s i; inc_ref s b } else Some s);
              s \<leftarrow> js_free_string s a;
              Some (i, s) }
          | None \<Rightarrow> new_atom_entry s str h h1 atom_type mem } }
      else new_atom_entry s str (if atom_type = TYPE_SYMBOL then JS_ATOM_HASH_SYMBOL else JS_ATOM_HASH_PRIVATE) 0 TYPE_SYMBOL mem)"

definition js_alloc_string_rt :: "atom_rt \<Rightarrow> js_string \<Rightarrow> nat option \<Rightarrow> (nat option \<times> atom_rt)" where
  "js_alloc_string_rt s chars mem =
     (case mem of
        None \<Rightarrow> (None, s)
      | Some a \<Rightarrow> (Some a, set_str a \<lparr>str_ref_count = 1, str_chars = chars, str_hash = 0, str_atom_type = TYPE_NONE,
          str_hash_next = 0\<rparr> s))"

definition JS_NewAtomInit :: "atom_rt \<Rightarrow> u8 list \<Rightarrow> atom_type \<Rightarrow> nat option \<Rightarrow> atom_mem \<Rightarrow> (nat \<times> atom_rt) option" where
  "JS_NewAtomInit s str atom_type mem_p mem =
     (case js_alloc_string_rt s (Str8 str) mem_p of
        (None, s) \<Rightarrow> Some (0, s)
      | (Some a, s) \<Rightarrow> JS_NewAtom0 s (Some a) atom_type mem)"

definition init_type :: "nat \<Rightarrow> atom_type" where
  "init_type i = (if i = JS_ATOM_Private_brand then TYPE_PRIVATE
     else if JS_ATOM_Symbol_toPrimitive \<le> i then TYPE_SYMBOL else TYPE_STRING)"

primrec init_loop :: "(u8 list \<times> nat option \<times> atom_mem) list \<Rightarrow> nat \<Rightarrow> atom_rt \<Rightarrow> (bool \<times> atom_rt) option" where
  "init_loop [] i s = Some (True, s)"
| "init_loop (x # xs) i s = do {
     (atom, s) \<leftarrow> (case x of (str, mem_p, mem) \<Rightarrow> JS_NewAtomInit s str (init_type i) mem_p mem);
     if atom = 0 then Some (False, s) else init_loop xs (i + 1) s }"

definition empty_rt :: atom_rt where
  "empty_rt = \<lparr>rt_strings = Map.empty, rt_atom_hash_size = 0, rt_atom_count = 0, rt_atom_size = 0,
     rt_atom_count_resize = 0, rt_atom_hash = [], rt_atom_array = [], rt_atom_free_index = 0\<rparr>"

definition JS_InitAtoms :: "bool \<Rightarrow> (nat option \<times> atom_mem) list \<Rightarrow> (bool \<times> atom_rt) option" where
  "JS_InitAtoms hash_ok mems = do {
     (ok, s) \<leftarrow> JS_ResizeAtomHash empty_rt 256 hash_ok;
     if \<not> ok then Some (False, s)
     else init_loop (zip (map (map of_char) js_atom_init) mems) 1 s }"

primrec find_atom8 :: "atom_rt \<Rightarrow> u32 \<Rightarrow> u8 list \<Rightarrow> nat \<Rightarrow> nat \<Rightarrow> nat option option" where
  "find_atom8 s h str 0 i = (if i = 0 then Some None else None)"
| "find_atom8 s h str (Suc n) i =
     (if i = 0 then Some None
      else do {
        a \<leftarrow> atom_ptr s i;
        p \<leftarrow> rt_strings s a;
        if str_hash p = h \<and> str_atom_type p = TYPE_STRING \<and> str_chars p = Str8 str then Some (Some i)
        else find_atom8 s h str n (str_hash_next p) })"

definition JS_FindAtom :: "atom_rt \<Rightarrow> u8 list \<Rightarrow> (nat \<times> atom_rt) option" where
  "JS_FindAtom s str = do {
     let h = hash_string8 str (of_nat (type_num TYPE_STRING)) AND JS_ATOM_HASH_MASK;
     i \<leftarrow> load (rt_atom_hash s) (hash_slot h (rt_atom_hash_size s));
     found \<leftarrow> find_atom8 s h str (length (rt_atom_array s)) i;
     case found of
       None \<Rightarrow> Some (0, s)
     | Some i \<Rightarrow> do {
         s \<leftarrow> (if \<not> JS_AtomIsConst (of_nat i) then do { b \<leftarrow> atom_ptr s i; inc_ref s b } else Some s);
         Some (i, s) } }"

definition JS_NewAtomStr :: "atom_rt \<Rightarrow> nat \<Rightarrow> atom_mem \<Rightarrow> (u32 \<times> atom_rt) option" where
  "JS_NewAtomStr s a mem = do {
     p \<leftarrow> rt_strings s a;
     num \<leftarrow> is_num_string (str_chars p);
     case num of
       Some n \<Rightarrow>
         if n \<le> JS_ATOM_MAX_INT then do { s \<leftarrow> js_free_string s a; Some (JS_AtomFromUInt32 n, s) }
         else do { (i, s) \<leftarrow> JS_NewAtom0 s (Some a) TYPE_STRING mem; Some (of_nat i, s) }
     | None \<Rightarrow> do { (i, s) \<leftarrow> JS_NewAtom0 s (Some a) TYPE_STRING mem; Some (of_nat i, s) } }"

end
