(* ===== verification/AtomInv.thy ===== *)
theory AtomInv
  imports Atoms
begin

text \<open>
  The invariant of the table of atoms, and what each operation does to it: chains and free list reach
  exactly the entries that belong to them, no two string atoms have the same text, and the
  reference counts are those of the owners.
\<close>

section \<open>Views\<close>

definition atom :: "atom_rt \<Rightarrow> nat \<Rightarrow> jstr option" where
  "atom s i = do { a \<leftarrow> atom_ptr s i; rt_strings s a }"

text \<open>A string without the field that the chains use.\<close>

definition core :: "jstr \<Rightarrow> jstr" where
  "core p = p\<lparr>str_hash_next := 0\<rparr>"

definition cores :: "atom_rt \<Rightarrow> nat \<Rightarrow> jstr option" where
  "cores s a = map_option core (rt_strings s a)"

lemma core_simps [simp]:
  "str_ref_count (core p) = str_ref_count p" "str_chars (core p) = str_chars p" "str_hash (core p) = str_hash p"
  "str_atom_type (core p) = str_atom_type p" "core (p\<lparr>str_hash_next := n\<rparr>) = core p" "core (core p) = core p"
  by (simp_all add: core_def)

lemma core_eqD:
  assumes "core p = core q"
  shows "str_ref_count p = str_ref_count q" "str_chars p = str_chars q" "str_hash p = str_hash q"
    "str_atom_type p = str_atom_type q"
  using arg_cong [OF assms, of str_ref_count] arg_cong [OF assms, of str_chars] arg_cong [OF assms, of str_hash]
    arg_cong [OF assms, of str_atom_type] by simp_all

lemma atom_ptr_bound: "atom_ptr s i = Some a \<Longrightarrow> i < length (rt_atom_array s)"
  by (auto simp: atom_ptr_def load_def split: if_splits)

lemma set_str_simps [simp]:
  "rt_strings (set_str a p s) = (rt_strings s)(a \<mapsto> p)" "rt_atom_array (set_str a p s) = rt_atom_array s"
  "rt_atom_hash (set_str a p s) = rt_atom_hash s" "rt_atom_hash_size (set_str a p s) = rt_atom_hash_size s"
  "rt_atom_count (set_str a p s) = rt_atom_count s" "rt_atom_size (set_str a p s) = rt_atom_size s"
  "rt_atom_count_resize (set_str a p s) = rt_atom_count_resize s" "rt_atom_free_index (set_str a p s) = rt_atom_free_index s"
  "atom_ptr (set_str a p s) = atom_ptr s"
  by (auto simp: set_str_def atom_ptr_def)

text \<open>Different entries are different strings.\<close>

definition ptrs_ok :: "atom_rt \<Rightarrow> bool" where
  "ptrs_ok s = ((\<forall>i j a. atom_ptr s i = Some a \<longrightarrow> atom_ptr s j = Some a \<longrightarrow> i = j) \<and> (\<forall>i a. atom_ptr s i = Some a \<longrightarrow> rt_strings s a \<noteq> None))"

lemma ptrs_okD: "ptrs_ok s \<Longrightarrow> atom_ptr s i = Some a \<Longrightarrow> atom_ptr s j = Some a \<Longrightarrow> i = j"
  by (auto simp: ptrs_ok_def)

lemma ptrs_ok_str: "ptrs_ok s \<Longrightarrow> atom_ptr s i = Some a \<Longrightarrow> \<exists>p. rt_strings s a = Some p"
  unfolding ptrs_ok_def by blast

lemma ptrs_ok_set [simp]: "ptrs_ok s \<Longrightarrow> ptrs_ok (set_str a p s)"
  by (auto simp: ptrs_ok_def)

lemma atom_set_str:
  assumes "ptrs_ok s" "atom_ptr s i = Some a"
  shows "atom (set_str a p s) = (atom s)(i \<mapsto> p)"
proof
  fix j show "atom (set_str a p s) j = ((atom s)(i \<mapsto> p)) j"
    using ptrs_okD [OF assms(1,2), of j] assms(2) by (cases "atom_ptr s j") (auto simp: atom_def)
qed

lemma atom_set_other: "\<forall>i. atom_ptr s i \<noteq> Some a \<Longrightarrow> atom (set_str a p s) = atom s"
  by (rule ext) (auto simp: atom_def intro!: Option.bind_cong)

lemma atom_SomeD: "atom s i = Some p \<Longrightarrow> \<exists>a. atom_ptr s i = Some a \<and> rt_strings s a = Some p"
  by (auto simp: atom_def bind_eq_Some_conv)

lemma atom_at: "atom_ptr s i = Some a \<Longrightarrow> rt_strings s a = Some p \<Longrightarrow> atom s i = Some p"
  by (simp add: atom_def)

lemma atom_bound: "atom s i = Some p \<Longrightarrow> i < length (rt_atom_array s)"
  using atom_SomeD atom_ptr_bound by blast

section \<open>Chains\<close>

fun chain :: "(nat \<Rightarrow> jstr option) \<Rightarrow> nat \<Rightarrow> nat list \<Rightarrow> bool" where
  "chain m i [] = (i = 0)"
| "chain m i (j # js) = (i = j \<and> j \<noteq> 0 \<and> (\<exists>p. m j = Some p \<and> chain m (str_hash_next p) js))"

lemma chain_cong: "(\<And>j. j \<in> set js \<Longrightarrow> map_option str_hash_next (m' j) = map_option str_hash_next (m j)) \<Longrightarrow> chain m i js \<Longrightarrow> chain m' i js"
proof (induction js arbitrary: i)
  case (Cons j js)
  obtain p where p: "m j = Some p" "chain m (str_hash_next p) js" "i = j" "j \<noteq> 0" using Cons.prems(2) by auto
  have "map_option str_hash_next (m' j) = Some (str_hash_next p)" using Cons.prems(1) [of j] p(1) by simp
  moreover have "chain m' (str_hash_next p) js" using Cons p(2) by simp
  ultimately show ?case using p(3,4) by auto
qed simp

lemma chain_append: "chain m i (xs @ ys) \<Longrightarrow> \<exists>k. chain m k ys"
  by (induction xs arbitrary: i) auto

lemma chain_unique: "chain m i xs \<Longrightarrow> chain m i ys \<Longrightarrow> xs = ys"
proof (induction xs arbitrary: i ys)
  case Nil
  then show ?case by (cases ys) auto
next
  case (Cons x xs)
  then show ?case by (cases ys) auto
qed

lemma chain_distinct: "chain m i js \<Longrightarrow> distinct js"
proof (induction js arbitrary: i)
  case (Cons j js)
  obtain p where p: "m j = Some p" "chain m (str_hash_next p) js" "j \<noteq> 0" using Cons.prems by auto
  have "j \<notin> set js"
  proof
    assume "j \<in> set js"
    then obtain ys zs where js: "js = ys @ j # zs" by (metis split_list)
    then obtain k where k: "chain m k (j # zs)" using chain_append p(2) by blast
    then have "chain m (str_hash_next p) zs" using p(1) by auto
    then have "js = zs" using chain_unique p(2) by blast
    then show False using js by auto
  qed
  then show ?case using Cons.IH p(2) by simp
qed simp

lemma chain_mem: "chain m i js \<Longrightarrow> j \<in> set js \<Longrightarrow> j \<noteq> 0 \<and> m j \<noteq> None"
  by (induction js arbitrary: i) auto

lemma chain_length:
  assumes "chain (atom s) i js"
  shows "length js \<le> length (rt_atom_array s)"
proof -
  have "set js \<subseteq> {..<length (rt_atom_array s)}" using chain_mem [OF assms] atom_bound by fastforce
  then have "card (set js) \<le> length (rt_atom_array s)" by (metis card_lessThan card_mono finite_lessThan)
  then show ?thesis using distinct_card [OF chain_distinct [OF assms]] by simp
qed

lemma chain_insert: "chain m i js \<Longrightarrow> k \<noteq> 0 \<Longrightarrow> k \<notin> set js \<Longrightarrow> str_hash_next p = i \<Longrightarrow> chain (m(k \<mapsto> p)) k (k # js)"
  by simp (erule chain_cong [rotated], auto)

text \<open>An element is taken out of a chain.\<close>

lemma chain_delete:
  assumes "chain m i (xs @ j # k # ys)" "m j = Some p" "m k = Some q"
  shows "chain (m(j \<mapsto> p\<lparr>str_hash_next := str_hash_next q\<rparr>)) i (xs @ j # ys)"
  using assms(1)
proof (induction xs arbitrary: i)
  case Nil
  have d: "j \<notin> set ys" using chain_distinct [OF Nil] by auto
  have "chain m (str_hash_next q) ys" using Nil assms(2,3) by auto
  then have "chain (m(j \<mapsto> p\<lparr>str_hash_next := str_hash_next q\<rparr>)) (str_hash_next q) ys"
    by (rule chain_cong [rotated]) (use d in auto)
  then show ?case using Nil assms(2) by (auto simp: fun_upd_def)
next
  case (Cons x xs)
  have "x \<noteq> j" using chain_distinct [OF Cons.prems] by auto
  then show ?case using Cons by auto
qed

section \<open>Searches\<close>

lemma find_atom_spec:
  "chain (atom s) i js \<Longrightarrow> length js \<le> n \<Longrightarrow>
    find_atom s h t str n i = Some (find (\<lambda>j. \<exists>p. atom s j = Some p \<and> str_hash p = h \<and> str_atom_type p = t \<and> js_chars (str_chars p) = js_chars str) js)"
proof (induction js arbitrary: i n)
  case Nil
  then show ?case by (cases n) auto
next
  case (Cons j js)
  obtain p where p: "atom s j = Some p" "chain (atom s) (str_hash_next p) js" "i = j" "j \<noteq> 0" using Cons.prems(1) by auto
  obtain a where a: "atom_ptr s j = Some a" "rt_strings s a = Some p" using atom_SomeD [OF p(1)] by blast
  obtain n' where n: "n = Suc n'" "length js \<le> n'" using Cons.prems(2) by (cases n) auto
  have rest: "find_atom s h t str n' (str_hash_next p) = Some (find (\<lambda>j. \<exists>p. atom s j = Some p \<and> str_hash p = h
      \<and> str_atom_type p = t \<and> js_chars (str_chars p) = js_chars str) js)"
    by (rule Cons.IH [OF p(2) n(2)])
  show ?case
  proof (cases "str_hash p = h \<and> str_atom_type p = t \<and> js_string_len (str_chars p) = js_string_len str")
    case True
    obtain c where c: "js_string_memcmp (str_chars p) str (js_string_len str) = Some c"
      "c = 0 \<longleftrightarrow> js_chars (str_chars p) = js_chars str"
      using first_diff_total [of "js_string_len str" "js_chars (str_chars p)" "js_chars str"] True
      by (auto simp: js_string_memcmp_eq)
    then show ?thesis using True p a rest by (simp add: n)
  next
    case False
    then have "\<not> (str_hash p = h \<and> str_atom_type p = t \<and> js_chars (str_chars p) = js_chars str)"
      using length_js_chars by metis
    then show ?thesis using False p a rest by (auto simp: n)
  qed
qed

lemma atom_index_loop_spec:
  "chain (atom s) i js \<Longrightarrow> length js < n \<Longrightarrow> j \<in> set js \<Longrightarrow> ptrs_ok s \<Longrightarrow> atom_ptr s j = Some a \<Longrightarrow> atom_index_loop s a n i = Some j"
proof (induction js arbitrary: i n)
  case (Cons k js)
  obtain p where p: "atom s k = Some p" "chain (atom s) (str_hash_next p) js" "i = k" "k \<noteq> 0" using Cons.prems(1) by auto
  obtain b where b: "atom_ptr s k = Some b" "rt_strings s b = Some p" using atom_SomeD [OF p(1)] by blast
  obtain n' where n: "n = Suc n'" "length js < n'" using Cons.prems(2) by (cases n) auto
  show ?case
  proof (cases "k = j")
    case False
    then have "b \<noteq> a" using ptrs_okD [OF Cons.prems(4) b(1)] Cons.prems(5) by blast
    then show ?thesis using Cons.IH [OF p(2) n(2)] Cons.prems(3-5) False b p n(1) by simp
  qed (use Cons.prems(5) b p n in simp)
qed simp

lemma unlink_loop_spec:
  "chain (atom s) i (xs @ j # k # ys) \<Longrightarrow> length xs < n \<Longrightarrow> ptrs_ok s \<Longrightarrow> atom_ptr s j = Some a \<Longrightarrow> rt_strings s a = Some p \<Longrightarrow>
    atom_ptr s k = Some b \<Longrightarrow> rt_strings s b = Some q \<Longrightarrow>
    unlink_loop b n i s = Some (k, set_str a (p\<lparr>str_hash_next := str_hash_next q\<rparr>) s)"
proof (induction xs arbitrary: i n)
  case Nil
  then have "atom s j = Some p" by (simp add: atom_def)
  then show ?case using Nil by (cases n) (auto simp: Let_def)
next
  case (Cons x xs)
  have d: "distinct (x # xs @ j # k # ys)" using chain_distinct Cons.prems(1) by fastforce
  obtain r where r: "atom s x = Some r" "chain (atom s) (str_hash_next r) (xs @ j # k # ys)" "i = x" "x \<noteq> 0"
    using Cons.prems(1) by auto
  obtain c where c: "atom_ptr s x = Some c" "rt_strings s c = Some r" using atom_SomeD [OF r(1)] by blast
  obtain n' where n: "n = Suc n'" "length xs < n'" using Cons.prems(2) by (cases n) auto
  have rest: "unlink_loop b n' (str_hash_next r) s = Some (k, set_str a (p\<lparr>str_hash_next := str_hash_next q\<rparr>) s)"
    by (rule Cons.IH [OF r(2) n(2) Cons.prems(3-7)])
  obtain m js where m: "xs @ [j] = m # js" by (cases xs) auto
  then have next_r: "str_hash_next r = m" and m_in: "m \<in> set (xs @ [j])" using r(2) by (cases xs, auto)+
  obtain e where e: "atom_ptr s m = Some e"
    using chain_mem [OF r(2), of m] m_in atom_SomeD by fastforce
  have "m \<noteq> k" using d m_in by auto
  then have "e \<noteq> b" using ptrs_okD [OF Cons.prems(3) e] Cons.prems(6) by blast
  then show ?case using r c n rest next_r e by (simp add: Let_def)
qed

section \<open>The invariant\<close>

definition atom_hash :: "atom_type \<Rightarrow> js_string \<Rightarrow> u32" where
  "atom_hash t str = hash_string str (of_nat (type_num t)) AND JS_ATOM_HASH_MASK"

text \<open>What an entry holds. A string atom is found by its hash, a symbol knows its index.\<close>

definition entry_ok :: "nat \<Rightarrow> jstr \<Rightarrow> bool" where
  "entry_ok i p = (if str_atom_type p = TYPE_SYMBOL then str_hash_next p = i
     else str_atom_type p \<in> {TYPE_STRING, TYPE_GLOBAL_SYMBOL} \<and> 0 < i \<and> str_hash p = atom_hash (str_atom_type p) (str_chars p))"

definition entries_ok :: "atom_rt \<Rightarrow> bool" where
  "entries_ok s = (\<forall>i p. atom s i = Some p \<longrightarrow> entry_ok i p)"

definition in_bucket :: "nat \<Rightarrow> nat \<Rightarrow> jstr \<Rightarrow> bool" where
  "in_bucket n h p = (str_atom_type p \<noteq> TYPE_SYMBOL \<and> hash_slot (str_hash p) n = h)"

definition buckets_ok :: "atom_rt \<Rightarrow> bool" where
  "buckets_ok s = (\<forall>h<length (rt_atom_hash s). \<exists>js. chain (atom s) (rt_atom_hash s ! h) js
     \<and> set js = {i. \<exists>p. atom s i = Some p \<and> in_bucket (rt_atom_hash_size s) h p})"

fun free_path :: "atom_entry list \<Rightarrow> nat \<Rightarrow> nat list \<Rightarrow> bool" where
  "free_path array i [] = (i = 0)"
| "free_path array i (j # js) = (i = j \<and> j \<noteq> 0 \<and> (\<exists>n. load array j = Some (AtomFree n) \<and> free_path array n js))"

definition free_ok :: "atom_rt \<Rightarrow> bool" where
  "free_ok s = (\<exists>js. free_path (rt_atom_array s) (rt_atom_free_index s) js \<and> distinct js
     \<and> set js = {i. \<exists>n. load (rt_atom_array s) i = Some (AtomFree n)})"

definition unique_atoms :: "atom_rt \<Rightarrow> bool" where
  "unique_atoms s = (\<forall>i j p q. atom s i = Some p \<longrightarrow> atom s j = Some q \<longrightarrow> str_atom_type p = str_atom_type q
     \<longrightarrow> str_atom_type p \<noteq> TYPE_SYMBOL \<longrightarrow> js_chars (str_chars p) = js_chars (str_chars q) \<longrightarrow> i = j)"

definition typed_ok :: "atom_rt \<Rightarrow> bool" where
  "typed_ok s = (\<forall>a p. rt_strings s a = Some p \<longrightarrow> (str_atom_type p \<noteq> TYPE_NONE \<longleftrightarrow> (\<exists>i. atom_ptr s i = Some a)))"

definition hash_size_ok :: "atom_rt \<Rightarrow> bool" where
  "hash_size_ok s = (length (rt_atom_hash s) = rt_atom_hash_size s \<and> (\<exists>k\<le>30. rt_atom_hash_size s = 2 ^ k)
     \<and> rt_atom_count_resize s = JS_ATOM_COUNT_RESIZE (rt_atom_hash_size s))"

definition is_ptr :: "atom_entry \<Rightarrow> bool" where
  "is_ptr e = (case e of AtomPtr a \<Rightarrow> True | AtomFree n \<Rightarrow> False)"

definition sizes_ok :: "atom_rt \<Rightarrow> bool" where
  "sizes_ok s = (length (rt_atom_array s) = rt_atom_size s \<and> rt_atom_size s \<le> JS_ATOM_MAX
     \<and> rt_atom_count s = int (length (filter is_ptr (rt_atom_array s))))"

definition atoms_inv :: "atom_rt \<Rightarrow> bool" where
  "atoms_inv s = (ptrs_ok s \<and> entries_ok s \<and> buckets_ok s \<and> free_ok s \<and> unique_atoms s \<and> typed_ok s \<and> hash_size_ok s \<and> sizes_ok s)"

lemma atoms_invD:
  assumes "atoms_inv s"
  shows "ptrs_ok s" "entries_ok s" "buckets_ok s" "free_ok s" "unique_atoms s" "typed_ok s" "hash_size_ok s" "sizes_ok s"
  using assms by (simp_all add: atoms_inv_def)

lemma slot_less:
  assumes "k \<le> 30"
  shows "hash_slot h (2 ^ k) < 2 ^ k"
proof -
  have "(of_nat (2 ^ k) :: u32) - 1 = mask k" by (simp add: mask_eq_exp_minus_1)
  then have "h AND (of_nat (2 ^ k) - 1) = take_bit k h" by (simp add: take_bit_eq_mask)
  then show ?thesis by (simp add: hash_slot_def unsigned_take_bit_eq)
qed

lemma slot_in: "hash_size_ok s \<Longrightarrow> hash_slot h (rt_atom_hash_size s) < length (rt_atom_hash s)"
  using slot_less by (auto simp: hash_size_ok_def)

text \<open>The chain of a hash value.\<close>

lemma bucket_chain:
  assumes "buckets_ok s" "hash_size_ok s"
  obtains js where "load (rt_atom_hash s) (hash_slot h (rt_atom_hash_size s)) = Some (rt_atom_hash s ! hash_slot h (rt_atom_hash_size s))"
    "chain (atom s) (rt_atom_hash s ! hash_slot h (rt_atom_hash_size s)) js"
    "set js = {i. \<exists>p. atom s i = Some p \<and> in_bucket (rt_atom_hash_size s) (hash_slot h (rt_atom_hash_size s)) p}"
  using assms slot_in [OF assms(2), of h] by (auto simp: buckets_ok_def load_def)

text \<open>Reference counts are of no matter to the table.\<close>

definition refless :: "jstr \<Rightarrow> jstr" where
  "refless p = p\<lparr>str_ref_count := 0\<rparr>"

lemma refless_eqD:
  assumes "refless p = refless q"
  shows "str_chars p = str_chars q" "str_hash p = str_hash q" "str_atom_type p = str_atom_type q" "str_hash_next p = str_hash_next q"
  using arg_cong [OF assms, of str_chars] arg_cong [OF assms, of str_hash] arg_cong [OF assms, of str_atom_type]
    arg_cong [OF assms, of str_hash_next] by (simp_all add: refless_def)

lemma atoms_inv_refless:
  assumes inv: "atoms_inv s" and p: "rt_strings s a = Some p" and q: "refless q = refless p"
  shows "atoms_inv (set_str a q s)"
proof -
  let ?s = "set_str a q s"
  have m: "map_option refless (atom ?s i) = map_option refless (atom s i)" for i
    using p q by (cases "atom_ptr s i") (auto simp: atom_def)
  have bwd: "\<exists>p'. atom s i = Some p' \<and> refless p' = refless q'" if "atom ?s i = Some q'" for i q'
    using m [of i] that by (cases "atom s i") auto
  have forth: "\<exists>q'. atom ?s i = Some q' \<and> refless q' = refless p'" if "atom s i = Some p'" for i p'
    using m [of i] that by (cases "atom ?s i") auto
  have nx: "map_option str_hash_next (atom ?s i) = map_option str_hash_next (atom s i)" for i
    using m [of i] by (cases "atom ?s i"; cases "atom s i") (auto dest: refless_eqD(4))
  have bucket: "{i. \<exists>p. atom ?s i = Some p \<and> in_bucket n h p} = {i. \<exists>p. atom s i = Some p \<and> in_bucket n h p}" for n h
  proof (intro Collect_cong iffI)
    fix i assume "\<exists>p. atom ?s i = Some p \<and> in_bucket n h p"
    then obtain q' where q': "atom ?s i = Some q'" "in_bucket n h q'" by blast
    obtain p' where p': "atom s i = Some p'" "refless p' = refless q'" using bwd [OF q'(1)] by blast
    then show "\<exists>p. atom s i = Some p \<and> in_bucket n h p"
      using q'(2) refless_eqD [OF p'(2)] by (auto simp: in_bucket_def)
  next
    fix i assume "\<exists>p. atom s i = Some p \<and> in_bucket n h p"
    then obtain p' where p': "atom s i = Some p'" "in_bucket n h p'" by blast
    obtain q' where q': "atom ?s i = Some q'" "refless q' = refless p'" using forth [OF p'(1)] by blast
    then show "\<exists>p. atom ?s i = Some p \<and> in_bucket n h p"
      using p'(2) refless_eqD [OF q'(2)] by (auto simp: in_bucket_def)
  qed
  have "entries_ok ?s" unfolding entries_ok_def
  proof (intro allI impI)
    fix i q' assume "atom ?s i = Some q'"
    then obtain p' where p': "atom s i = Some p'" "refless p' = refless q'" using bwd by blast
    then have "entry_ok i p'" using atoms_invD(2) [OF inv] by (auto simp: entries_ok_def)
    then show "entry_ok i q'" using refless_eqD [OF p'(2)] by (simp add: entry_ok_def split: if_splits)
  qed
  moreover have ch: "chain (atom ?s) k js" if "chain (atom s) k js" for k js
    by (rule chain_cong [OF _ that]) (rule nx)
  have "buckets_ok ?s"
    unfolding buckets_ok_def bucket set_str_simps
    using atoms_invD(3) [OF inv] ch unfolding buckets_ok_def by blast
  moreover have "unique_atoms ?s" unfolding unique_atoms_def
  proof (intro allI impI)
    fix i j p1 q1
    assume *: "atom ?s i = Some p1" "atom ?s j = Some q1" "str_atom_type p1 = str_atom_type q1" "str_atom_type p1 \<noteq> TYPE_SYMBOL"
      "js_chars (str_chars p1) = js_chars (str_chars q1)"
    obtain p2 where p2: "atom s i = Some p2" "refless p2 = refless p1" using bwd *(1) by blast
    obtain q2 where q2: "atom s j = Some q2" "refless q2 = refless q1" using bwd *(2) by blast
    show "i = j"
      using atoms_invD(5) [OF inv] p2(1) q2(1) *(3-5) refless_eqD [OF p2(2)] refless_eqD [OF q2(2)]
      unfolding unique_atoms_def by metis
  qed
  moreover have "typed_ok ?s"
    using atoms_invD(6) [OF inv] p refless_eqD [OF q] by (auto simp: typed_ok_def)
  ultimately show ?thesis
    using atoms_invD [OF inv] by (simp add: atoms_inv_def free_ok_def hash_size_ok_def sizes_ok_def)
qed

section \<open>Freeing an atom\<close>

lemma load_update: "i < length xs \<Longrightarrow> load (xs[i := v]) j = (if j = i then Some v else load xs j)"
  by (auto simp: load_def nth_list_update)

lemma free_path_cong: "(\<And>j. j \<in> set js \<Longrightarrow> load array' j = load array j) \<Longrightarrow> free_path array i js \<Longrightarrow> free_path array' i js"
  by (induction js arbitrary: i) auto

lemma count_filter_update:
  "i < length xs \<Longrightarrow> length (filter P (xs[i := v])) + of_bool (P (xs ! i)) = length (filter P xs) + of_bool (P v)"
proof (induction xs arbitrary: i)
  case (Cons x xs)
  then show ?case by (cases i) auto
qed simp

text \<open>The entry is put on the free list.\<close>

definition free_entry :: "nat \<Rightarrow> nat \<Rightarrow> atom_rt \<Rightarrow> atom_rt" where
  "free_entry i a s = s\<lparr>rt_atom_array := (rt_atom_array s)[i := AtomFree (rt_atom_free_index s)], rt_atom_free_index := i,
     rt_strings := (rt_strings s)(a := None), rt_atom_count := rt_atom_count s - 1\<rparr>"

lemma atom_ptr_free:
  "atom_ptr s i = Some a \<Longrightarrow> atom_ptr (free_entry i a s) = (atom_ptr s)(i := None)"
  using atom_ptr_bound [of s i a] by (auto simp: fun_eq_iff atom_ptr_def free_entry_def load_update)

lemma atom_free:
  assumes "ptrs_ok s" "atom_ptr s i = Some a"
  shows "atom (free_entry i a s) = (atom s)(i := None)"
proof
  fix j
  have "atom_ptr (free_entry i a s) j = (if j = i then None else atom_ptr s j)" using atom_ptr_free [OF assms(2)] by simp
  moreover have "rt_strings (free_entry i a s) b = rt_strings s b" if "atom_ptr s j = Some b" "j \<noteq> i" for b
    using ptrs_okD [OF assms(1,2), of j] that by (auto simp: free_entry_def)
  ultimately show "atom (free_entry i a s) j = ((atom s)(i := None)) j"
    by (cases "atom_ptr s j") (auto simp: atom_def)
qed

text \<open>Once its chain no longer has the entry, freeing it keeps the invariant.\<close>

lemma free_entry_inv:
  assumes ptrs: "ptrs_ok s" and entries: "entries_ok s" and free: "free_ok s" and unique: "unique_atoms s" and typed: "typed_ok s"
    and hash: "hash_size_ok s" and sizes: "sizes_ok s" and i: "atom_ptr s i = Some a" "0 < i"
    and chains: "\<And>h. h < length (rt_atom_hash s) \<Longrightarrow> \<exists>js. chain (atom s) (rt_atom_hash s ! h) js
      \<and> set js = {j. j \<noteq> i \<and> (\<exists>p. atom s j = Some p \<and> in_bucket (rt_atom_hash_size s) h p)}"
  shows "atoms_inv (free_entry i a s)"
proof -
  let ?s = "free_entry i a s"
  note ptr = atom_ptr_free [OF i(1)] and at = atom_free [OF ptrs i(1)]
  have ib: "i < length (rt_atom_array s)" using atom_ptr_bound [OF i(1)] .
  have fields: "rt_atom_hash ?s = rt_atom_hash s" "rt_atom_hash_size ?s = rt_atom_hash_size s"
    "rt_atom_array ?s = (rt_atom_array s)[i := AtomFree (rt_atom_free_index s)]" "rt_atom_free_index ?s = i"
    "rt_atom_count ?s = rt_atom_count s - 1" "rt_atom_size ?s = rt_atom_size s" "rt_atom_count_resize ?s = rt_atom_count_resize s"
    "rt_strings ?s = (rt_strings s)(a := None)"
    by (simp_all add: free_entry_def)
  have e: "load (rt_atom_array s) i = Some (AtomPtr a)" using i(1) by (auto simp: atom_ptr_def split: option.splits atom_entry.splits)
  have "ptrs_ok ?s" using ptrs ptrs_okD [OF ptrs i(1)] unfolding ptrs_ok_def ptr fields by auto
  moreover have "entries_ok ?s" using entries by (simp add: entries_ok_def at)
  moreover have "buckets_ok ?s" unfolding buckets_ok_def fields at
  proof (intro allI impI)
    fix h assume "h < length (rt_atom_hash s)"
    then obtain js where js: "chain (atom s) (rt_atom_hash s ! h) js"
      "set js = {j. j \<noteq> i \<and> (\<exists>p. atom s j = Some p \<and> in_bucket (rt_atom_hash_size s) h p)}" using chains by blast
    have "chain ((atom s)(i := None)) (rt_atom_hash s ! h) js" by (rule chain_cong [OF _ js(1)]) (use js(2) in auto)
    then show "\<exists>js. chain ((atom s)(i := None)) (rt_atom_hash s ! h) js
      \<and> set js = {j. \<exists>p. ((atom s)(i := None)) j = Some p \<and> in_bucket (rt_atom_hash_size s) h p}"
      using js(2) by (intro exI [of _ js]) auto
  qed
  moreover have "free_ok ?s"
  proof -
    obtain js where js: "free_path (rt_atom_array s) (rt_atom_free_index s) js" "distinct js"
      "set js = {j. \<exists>n. load (rt_atom_array s) j = Some (AtomFree n)}" using free by (auto simp: free_ok_def)
    have "i \<notin> set js" using js(3) e by simp
    moreover from this have "free_path (rt_atom_array ?s) (rt_atom_free_index s) js"
      unfolding fields by (intro free_path_cong [OF _ js(1)]) (auto simp: load_update ib)
    ultimately show ?thesis unfolding free_ok_def fields using js(2,3) i(2) e
      by (intro exI [of _ "i # js"]) (auto simp: load_update ib fields)
  qed
  moreover have "unique_atoms ?s" using unique by (simp add: unique_atoms_def at)
  moreover have "typed_ok ?s" unfolding typed_ok_def fields ptr
  proof (intro allI impI)
    fix b p assume b: "((rt_strings s)(a := None)) b = Some p"
    then have "b \<noteq> a" "rt_strings s b = Some p" by (auto split: if_splits)
    moreover from \<open>b \<noteq> a\<close> have "((atom_ptr s)(i := None)) j = Some b \<longleftrightarrow> atom_ptr s j = Some b" for j using i(1) by auto
    ultimately show "(str_atom_type p \<noteq> TYPE_NONE) = (\<exists>j. ((atom_ptr s)(i := None)) j = Some b)"
      using typed unfolding typed_ok_def by blast
  qed
  moreover have "hash_size_ok ?s" using hash by (simp add: hash_size_ok_def fields)
  moreover have "sizes_ok ?s"
    using sizes count_filter_update [OF ib, of is_ptr "AtomFree (rt_atom_free_index s)"] e
    by (auto simp: sizes_ok_def fields is_ptr_def load_Some_iff)
  ultimately show ?thesis by (simp add: atoms_inv_def)
qed

text \<open>A chain without one of its elements.\<close>

lemma buckets_of:
  assumes "buckets_ok s" "hash_size_ok s" "h < length (rt_atom_hash s)"
  obtains js where "chain (atom s) (rt_atom_hash s ! h) js"
    "set js = {i. \<exists>p. atom s i = Some p \<and> in_bucket (rt_atom_hash_size s) h p}"
  using assms by (auto simp: buckets_ok_def)

text \<open>What freeing an atom does: the entry becomes free, and nothing else changes but links of chains.\<close>

lemma JS_FreeAtomStruct_spec:
  assumes inv: "atoms_inv s" and i: "atom_ptr s i = Some a" "0 < i"
  shows "\<exists>s'. JS_FreeAtomStruct s a = Some s' \<and> atoms_inv s' \<and> cores s' = (cores s)(a := None)
    \<and> atom_ptr s' = (atom_ptr s)(i := None) \<and> rt_atom_array s' \<noteq> [] \<and> rt_atom_size s' = rt_atom_size s
    \<and> rt_atom_hash_size s' = rt_atom_hash_size s"
proof -
  note I = atoms_invD [OF inv]
  have e: "load (rt_atom_array s) i = Some (AtomPtr a)" using i(1) by (auto simp: atom_ptr_def split: option.splits atom_entry.splits)
  have ib: "i < length (rt_atom_array s)" using atom_ptr_bound [OF i(1)] .
  obtain p where p: "rt_strings s a = Some p" using ptrs_ok_str [OF I(1) i(1)] by blast
  have at_i: "atom s i = Some p" using atom_at [OF i(1) p] .
  then have entry: "entry_ok i p" using I(2) by (auto simp: entries_ok_def)
  have positive: "0 < length (filter is_ptr (rt_atom_array s))"
    using ib e by (auto simp: load_Some_iff filter_empty_conv is_ptr_def) (metis atom_entry.simps(6) nth_mem)
  have finish: "\<exists>s'. JS_FreeAtomStruct s a = Some s' \<and> atoms_inv s' \<and> cores s' = (cores s)(a := None)
      \<and> atom_ptr s' = (atom_ptr s)(i := None) \<and> rt_atom_array s' \<noteq> [] \<and> rt_atom_size s' = rt_atom_size s
      \<and> rt_atom_hash_size s' = rt_atom_hash_size s"
    if run: "JS_FreeAtomStruct s a = (if rt_atom_count (free_entry i a t) < 0 then None else Some (free_entry i a t))"
      and t: "rt_atom_count t = rt_atom_count s" "atoms_inv (free_entry i a t)" "cores t = cores s" "atom_ptr t = atom_ptr s"
        "rt_atom_size t = rt_atom_size s" "rt_atom_hash_size t = rt_atom_hash_size s" "rt_atom_array t = rt_atom_array s" for t
  proof (intro exI conjI)
    have "0 \<le> rt_atom_count (free_entry i a t)" using I(8) positive t(1) by (simp add: sizes_ok_def free_entry_def)
    then show "JS_FreeAtomStruct s a = Some (free_entry i a t)" using run by simp
    show "atoms_inv (free_entry i a t)" by (rule t(2))
    show "cores (free_entry i a t) = (cores s)(a := None)" unfolding t(3) [symmetric] by (auto simp: cores_def free_entry_def)
    show "atom_ptr (free_entry i a t) = (atom_ptr s)(i := None)" using atom_ptr_free [of t i a] i(1) t(4) by simp
  qed (use t ib in \<open>auto simp: free_entry_def\<close>)
  show ?thesis
  proof (cases "str_atom_type p = TYPE_SYMBOL")
    case True
    then have next_p: "str_hash_next p = i" using entry by (simp add: entry_ok_def)
    have "JS_FreeAtomStruct s a = (if rt_atom_count (free_entry i a s) < 0 then None else Some (free_entry i a s))"
      using ib by (simp add: JS_FreeAtomStruct_def p True next_p store_in Let_def free_entry_def)
    moreover have "atoms_inv (free_entry i a s)"
    proof (rule free_entry_inv [OF I(1,2,4-8) i])
      fix h assume "h < length (rt_atom_hash s)"
      then obtain js where js: "chain (atom s) (rt_atom_hash s ! h) js"
        "set js = {i. \<exists>p. atom s i = Some p \<and> in_bucket (rt_atom_hash_size s) h p}" using buckets_of [OF I(3,7)] by blast
      then show "\<exists>js. chain (atom s) (rt_atom_hash s ! h) js
        \<and> set js = {j. j \<noteq> i \<and> (\<exists>p. atom s j = Some p \<and> in_bucket (rt_atom_hash_size s) h p)}"
        using at_i True by (intro exI [of _ js]) (auto simp: in_bucket_def)
    qed
    ultimately show ?thesis using finish [of s] by simp
  next
    case False
    define h0 where "h0 = hash_slot (str_hash p) (rt_atom_hash_size s)"
    obtain js where js: "load (rt_atom_hash s) h0 = Some (rt_atom_hash s ! h0)" "chain (atom s) (rt_atom_hash s ! h0) js"
      "set js = {i. \<exists>p. atom s i = Some p \<and> in_bucket (rt_atom_hash_size s) h0 p}"
      unfolding h0_def by (rule bucket_chain [OF I(3,7)])
    have h0: "h0 < length (rt_atom_hash s)" using js(1) by (auto simp: load_def split: if_splits)
    have "i \<in> set js" using js(3) at_i False by (auto simp: in_bucket_def h0_def)
    then obtain xs ys where split: "js = xs @ i # ys" by (metis split_list)
    have d: "distinct js" using chain_distinct [OF js(2)] .
    show ?thesis
    proof (cases xs rule: rev_cases)
      case Nil
      define t where "t = s\<lparr>rt_atom_hash := (rt_atom_hash s)[h0 := str_hash_next p]\<rparr>"
      have t_simps: "atom t = atom s" "atom_ptr t = atom_ptr s" "rt_strings t = rt_strings s" "rt_atom_array t = rt_atom_array s"
        "rt_atom_free_index t = rt_atom_free_index s" "rt_atom_hash t = (rt_atom_hash s)[h0 := str_hash_next p]"
        "rt_atom_hash_size t = rt_atom_hash_size s" "rt_atom_count t = rt_atom_count s" "rt_atom_size t = rt_atom_size s"
        "rt_atom_count_resize t = rt_atom_count_resize s"
        by (auto simp: t_def atom_def atom_ptr_def fun_eq_iff intro!: Option.bind_cong)
      have head: "rt_atom_hash s ! h0 = i" "chain (atom s) (str_hash_next p) ys" using js(2) split Nil at_i by auto
      have "JS_FreeAtomStruct s a = (if rt_atom_count (free_entry i a t) < 0 then None else Some (free_entry i a t))"
        using ib by (simp add: JS_FreeAtomStruct_def p False Let_def h0_def [symmetric] js(1) head(1) i(1) store_in free_entry_def t_def)
      moreover have "atoms_inv (free_entry i a t)"
      proof (rule free_entry_inv)
        fix h assume h: "h < length (rt_atom_hash t)"
        show "\<exists>js. chain (atom t) (rt_atom_hash t ! h) js
          \<and> set js = {j. j \<noteq> i \<and> (\<exists>p. atom t j = Some p \<and> in_bucket (rt_atom_hash_size t) h p)}"
        proof (cases "h = h0")
          case True
          then show ?thesis using head(2) d js(3) split Nil h0 unfolding t_simps by (intro exI [of _ ys]) auto
        next
          case False
          obtain ks where "chain (atom s) (rt_atom_hash s ! h) ks"
            "set ks = {i. \<exists>p. atom s i = Some p \<and> in_bucket (rt_atom_hash_size s) h p}"
            using buckets_of [OF I(3,7)] h unfolding t_simps by auto
          then show ?thesis using False at_i unfolding t_simps by (intro exI [of _ ks]) (auto simp: in_bucket_def h0_def)
        qed
      qed (use I i in \<open>simp_all add: ptrs_ok_def entries_ok_def free_ok_def unique_atoms_def typed_ok_def hash_size_ok_def sizes_ok_def t_simps\<close>)
      ultimately show ?thesis using finish [of t] by (simp add: t_simps cores_def fun_eq_iff)
    next
      case (snoc xs' j)
      have chain_j: "chain (atom s) (rt_atom_hash s ! h0) (xs' @ j # i # ys)" using js(2) split snoc by simp
      obtain q where q: "atom s j = Some q" "in_bucket (rt_atom_hash_size s) h0 q" using js(3) split snoc by auto
      obtain b where b: "atom_ptr s j = Some b" "rt_strings s b = Some q" using atom_SomeD [OF q(1)] by blast
      have ji: "j \<noteq> i" using d split snoc by auto
      then have ba: "b \<noteq> a" using ptrs_okD [OF I(1) b(1)] i(1) by blast
      define q' where "q' = q\<lparr>str_hash_next := str_hash_next p\<rparr>"
      define t where "t = set_str b q' s"
      have t_at: "atom t = (atom s)(j \<mapsto> q')" unfolding t_def by (rule atom_set_str [OF I(1) b(1)])
      have t_simps: "atom_ptr t = atom_ptr s" "rt_atom_array t = rt_atom_array s"
        "rt_atom_free_index t = rt_atom_free_index s" "rt_atom_hash t = rt_atom_hash s"
        "rt_atom_hash_size t = rt_atom_hash_size s" "rt_atom_count t = rt_atom_count s" "rt_atom_size t = rt_atom_size s"
        "rt_atom_count_resize t = rt_atom_count_resize s"
        by (simp_all add: t_def)
      have type_q: "str_atom_type q \<noteq> TYPE_SYMBOL" using q(2) by (simp add: in_bucket_def)
      obtain i0 js' where hd: "xs' @ [j] = i0 # js'" by (cases xs') auto
      have head: "rt_atom_hash s ! h0 = i0" using chain_j hd by (cases xs') auto
      have i0: "i0 \<noteq> i" "i0 \<in> set js" using hd d split snoc by (metis append_Cons distinct.simps(2) in_set_conv_decomp, metis append_Cons list.set_intros(1))
      obtain a0 where a0: "atom_ptr s i0 = Some a0" using chain_mem [OF js(2) i0(2)] atom_SomeD by fastforce
      have a0_a: "a0 \<noteq> a" using ptrs_okD [OF I(1) a0] i(1) i0(1) by blast
      have "length xs' < length (rt_atom_array s) + 1" using chain_length [OF js(2)] split snoc by simp
      then have unlink: "unlink_loop a (length (rt_atom_array s) + 1) i0 s = Some (i, t)"
        unfolding t_def q'_def by (rule unlink_loop_spec [OF chain_j [unfolded head] _ I(1) b i(1) p])
      then have unlink: "unlink_loop a (Suc (length (rt_atom_array s))) i0 s = Some (i, t)" by (simp del: unlink_loop.simps)
      have run: "JS_FreeAtomStruct s a = (if rt_atom_count (free_entry i a t) < 0 then None else Some (free_entry i a t))"
        using ib a0_a by (simp add: JS_FreeAtomStruct_def p False Let_def h0_def [symmetric] js(1) head a0 unlink store_in free_entry_def t_simps del: unlink_loop.simps)
      have "atoms_inv (free_entry i a t)"
      proof (rule free_entry_inv)
        show "ptrs_ok t" using I(1) by (simp add: t_def)
        have "entry_ok j q" using I(2) q(1) by (auto simp: entries_ok_def)
        then have "entry_ok j q'" using type_q by (simp add: entry_ok_def q'_def)
        then show "entries_ok t" using I(2) by (simp add: entries_ok_def t_at)
        show "unique_atoms t" using I(5) q(1) by (simp add: unique_atoms_def t_at q'_def) metis
        show "typed_ok t" using I(6) b(2) by (auto simp: typed_ok_def t_def q'_def)
        fix h assume h: "h < length (rt_atom_hash t)"
        show "\<exists>js. chain (atom t) (rt_atom_hash t ! h) js
          \<and> set js = {j. j \<noteq> i \<and> (\<exists>p. atom t j = Some p \<and> in_bucket (rt_atom_hash_size t) h p)}"
        proof (cases "h = h0")
          case True
          have "chain (atom t) (rt_atom_hash s ! h0) (xs' @ j # ys)"
            unfolding t_at q'_def by (rule chain_delete [OF chain_j q(1) at_i])
          moreover have "set (xs' @ j # ys) = {k. k \<noteq> i \<and> (\<exists>p. atom s k = Some p \<and> in_bucket (rt_atom_hash_size s) h0 p)}"
            using js(3) split snoc d by auto
          ultimately show ?thesis using True q unfolding t_simps t_at
            by (intro exI [of _ "xs' @ j # ys"]) (auto simp: q'_def in_bucket_def)
        next
          case False
          obtain ks where ks: "chain (atom s) (rt_atom_hash s ! h) ks"
            "set ks = {i. \<exists>p. atom s i = Some p \<and> in_bucket (rt_atom_hash_size s) h p}"
            using buckets_of [OF I(3,7)] h unfolding t_simps by auto
          have "j \<notin> set ks" "i \<notin> set ks" using ks(2) q at_i False by (auto simp: in_bucket_def h0_def)
          then have "chain (atom t) (rt_atom_hash s ! h) ks" unfolding t_at by (intro chain_cong [OF _ ks(1)]) auto
          then show ?thesis using False ks(2) at_i q unfolding t_simps t_at
            by (intro exI [of _ ks]) (auto simp: in_bucket_def h0_def q'_def)
        qed
      qed (use I i in \<open>simp_all add: free_ok_def hash_size_ok_def sizes_ok_def t_simps\<close>)
      moreover have "cores t = cores s" using b(2) by (auto simp: cores_def t_def q'_def fun_eq_iff)
      ultimately show ?thesis using finish [OF run] by (simp add: t_simps)
    qed
  qed
qed

section \<open>Owners\<close>

text \<open>
  \<open>own a\<close> is the number of references to the string at \<open>a\<close> that the callers hold: values, and atoms that are
  not constant. The constant atoms have one more reference, which is never given back.
\<close>

definition const_ref :: "atom_rt \<Rightarrow> nat \<Rightarrow> bool" where
  "const_ref s a = (\<exists>i<JS_ATOM_END. atom_ptr s i = Some a)"

fun ref_ok :: "nat \<Rightarrow> bool \<Rightarrow> jstr option \<Rightarrow> bool" where
  "ref_ok n c None = (n = 0)"
| "ref_ok n c (Some p) = (str_ref_count p = int n + of_bool c \<and> 1 \<le> str_ref_count p)"

definition refs_ok :: "atom_rt \<Rightarrow> (nat \<Rightarrow> nat) \<Rightarrow> bool" where
  "refs_ok s own = (\<forall>a. ref_ok (own a) (const_ref s a) (rt_strings s a))"

definition owned_atoms :: "atom_rt \<Rightarrow> (nat \<Rightarrow> nat) \<Rightarrow> bool" where
  "owned_atoms s own = (atoms_inv s \<and> refs_ok s own \<and> (rt_atom_array s \<noteq> [] \<longrightarrow> atom_ptr s 0 \<noteq> None))"

text \<open>What stays: the text and the type of every string in \<open>P\<close>, and the atoms that it is.\<close>

definition kept :: "atom_rt \<Rightarrow> atom_rt \<Rightarrow> (nat \<Rightarrow> bool) \<Rightarrow> bool" where
  "kept s s' P = ((\<forall>b p. rt_strings s b = Some p \<longrightarrow> P b \<longrightarrow> (\<exists>p'. rt_strings s' b = Some p' \<and> str_chars p' = str_chars p
       \<and> (str_atom_type p \<noteq> TYPE_NONE \<longrightarrow> str_atom_type p' = str_atom_type p)))
     \<and> (\<forall>i b. atom_ptr s i = Some b \<longrightarrow> P b \<longrightarrow> atom_ptr s' i = Some b))"

lemma kept_refl: "kept s s P"
  by (auto simp: kept_def)

lemma kept_mono: "kept s s' P \<Longrightarrow> (\<And>b. Q b \<Longrightarrow> P b) \<Longrightarrow> kept s s' Q"
  unfolding kept_def by blast

lemma kept_trans:
  assumes k: "kept s s' P" "kept s' s'' P"
  shows "kept s s'' P"
proof (unfold kept_def, intro conjI allI impI)
  fix b p assume b: "rt_strings s b = Some p" "P b"
  obtain p1 where p1: "rt_strings s' b = Some p1" "str_chars p1 = str_chars p" "str_atom_type p \<noteq> TYPE_NONE \<longrightarrow> str_atom_type p1 = str_atom_type p"
    using k(1) b unfolding kept_def by blast
  obtain p2 where p2: "rt_strings s'' b = Some p2" "str_chars p2 = str_chars p1" "str_atom_type p1 \<noteq> TYPE_NONE \<longrightarrow> str_atom_type p2 = str_atom_type p1"
    using k(2) p1(1) b(2) unfolding kept_def by blast
  show "\<exists>p'. rt_strings s'' b = Some p' \<and> str_chars p' = str_chars p \<and> (str_atom_type p \<noteq> TYPE_NONE \<longrightarrow> str_atom_type p' = str_atom_type p)"
    using p1 p2 by auto
next
  fix i b assume "atom_ptr s i = Some b" "P b"
  then show "atom_ptr s'' i = Some b" using k unfolding kept_def by blast
qed

lemma kept_cores:
  assumes "\<And>b p. rt_strings s b = Some p \<Longrightarrow> P b \<Longrightarrow> \<exists>q. cores s' b = Some q \<and> str_chars q = str_chars p
      \<and> (str_atom_type p \<noteq> TYPE_NONE \<longrightarrow> str_atom_type q = str_atom_type p)"
    and "\<And>i b. atom_ptr s i = Some b \<Longrightarrow> P b \<Longrightarrow> atom_ptr s' i = Some b"
  shows "kept s s' P"
  unfolding kept_def
proof (intro conjI allI impI)
  fix b p assume "rt_strings s b = Some p" "P b"
  then obtain q where q: "cores s' b = Some q" "str_chars q = str_chars p" "str_atom_type p \<noteq> TYPE_NONE \<longrightarrow> str_atom_type q = str_atom_type p"
    using assms(1) by blast
  then show "\<exists>p'. rt_strings s' b = Some p' \<and> str_chars p' = str_chars p \<and> (str_atom_type p \<noteq> TYPE_NONE \<longrightarrow> str_atom_type p' = str_atom_type p)"
    by (auto simp: cores_def)
qed (use assms(2) in blast)

lemma ref_ok_core [simp]: "ref_ok n c (map_option core po) = ref_ok n c po"
  by (cases po) auto

lemma refs_okI: "(\<And>a. ref_ok (own a) (const_ref s a) (cores s a)) \<Longrightarrow> refs_ok s own"
  by (simp add: refs_ok_def cores_def)

lemma refs_ok_at: "refs_ok s own \<Longrightarrow> ref_ok (own a) (const_ref s a) (cores s a)"
  by (simp add: refs_ok_def cores_def)

lemma ref_count_at:
  assumes "refs_ok s own" "rt_strings s a = Some p"
  shows "str_ref_count p = int (own a) + of_bool (const_ref s a)" "1 \<le> str_ref_count p"
  using refs_ok_at [OF assms(1), of a] assms(2) by (simp_all add: cores_def)

lemma refs_ok_None: "refs_ok s own \<Longrightarrow> rt_strings s a = None \<Longrightarrow> own a = 0"
  using refs_ok_at [of s own a] by (simp add: cores_def)

lemma refs_ok_cores:
  assumes "refs_ok s own" "cores s' = cores s" "\<And>a. const_ref s' a = const_ref s a"
  shows "refs_ok s' own"
  by (rule refs_okI) (use refs_ok_at [OF assms(1)] assms(2,3) in simp)

lemma refs_ok_set:
  assumes "refs_ok s own" "rt_strings s a = Some p" "str_ref_count q = str_ref_count p + int m - int n" "n \<le> own a + m"
    "1 \<le> str_ref_count q"
  shows "refs_ok (set_str a q s) (own(a := own a + m - n))"
  unfolding refs_ok_def
proof
  fix b
  have c: "const_ref (set_str a q s) b = const_ref s b" by (simp add: const_ref_def)
  show "ref_ok ((own(a := own a + m - n)) b) (const_ref (set_str a q s) b) (rt_strings (set_str a q s) b)"
    unfolding c using assms(1,3-5) ref_count_at [OF assms(1,2)]
    by (cases "b = a") (auto simp: refs_ok_def of_nat_diff)
qed

lemma remove_string_inv:
  assumes inv: "atoms_inv s" and a: "\<forall>i. atom_ptr s i \<noteq> Some a"
  shows "atoms_inv (s\<lparr>rt_strings := (rt_strings s)(a := None)\<rparr>)"
proof -
  let ?s = "s\<lparr>rt_strings := (rt_strings s)(a := None)\<rparr>"
  have ptr: "atom_ptr ?s = atom_ptr s" by (auto simp: atom_ptr_def fun_eq_iff)
  have at: "atom ?s = atom s"
  proof
    fix i show "atom ?s i = atom s i" using a by (cases "atom_ptr s i") (auto simp: atom_def ptr)
  qed
  have "ptrs_ok ?s" using atoms_invD(1) [OF inv] a unfolding ptrs_ok_def ptr by auto
  moreover have "typed_ok ?s" using atoms_invD(6) [OF inv] by (simp add: typed_ok_def ptr)
  ultimately show ?thesis
    using atoms_invD [OF inv]
    by (simp add: atoms_inv_def entries_ok_def buckets_ok_def free_ok_def unique_atoms_def hash_size_ok_def sizes_ok_def at)
qed

text \<open>Nothing new: every atom and every string was there, with its text and type.\<close>

definition shrunk :: "atom_rt \<Rightarrow> atom_rt \<Rightarrow> bool" where
  "shrunk s s' = ((\<forall>i c. atom_ptr s' i = Some c \<longrightarrow> atom_ptr s i = Some c)
     \<and> (\<forall>c q. rt_strings s' c = Some q \<longrightarrow> (\<exists>p. rt_strings s c = Some p \<and> str_chars q = str_chars p \<and> str_atom_type q = str_atom_type p)))"

lemma shrunk_core:
  assumes "\<And>i c. atom_ptr s' i = Some c \<Longrightarrow> atom_ptr s i = Some c"
    and "\<And>c q. cores s' c = Some q \<Longrightarrow> \<exists>p. rt_strings s c = Some p \<and> str_chars q = str_chars p \<and> str_atom_type q = str_atom_type p"
  shows "shrunk s s'"
  unfolding shrunk_def
proof (intro conjI allI impI)
  fix c q assume "rt_strings s' c = Some q"
  then have "cores s' c = Some (core q)" by (simp add: cores_def)
  then show "\<exists>p. rt_strings s c = Some p \<and> str_chars q = str_chars p \<and> str_atom_type q = str_atom_type p" using assms(2) by fastforce
qed (use assms(1) in blast)

text \<open>Giving back a reference.\<close>

lemma js_free_string_spec:
  assumes ok: "owned_atoms s own" and own: "0 < own a"
  shows "\<exists>s'. js_free_string s a = Some s' \<and> owned_atoms s' (own(a := own a - 1))
    \<and> kept s s' (\<lambda>b. b \<noteq> a \<or> 1 < own a \<or> const_ref s a) \<and> (\<forall>b. const_ref s' b = const_ref s b) \<and> shrunk s s'
    \<and> rt_atom_size s' = rt_atom_size s \<and> rt_atom_hash_size s' = rt_atom_hash_size s \<and> (rt_atom_array s \<noteq> [] \<longrightarrow> rt_atom_array s' \<noteq> [])"
proof -
  have inv: "atoms_inv s" and refs: "refs_ok s own" and null: "rt_atom_array s \<noteq> [] \<longrightarrow> atom_ptr s 0 \<noteq> None"
    using ok by (auto simp: owned_atoms_def)
  obtain p where p: "rt_strings s a = Some p" using refs_ok_None [OF refs, of a] own by (cases "rt_strings s a") auto
  note r = ref_count_at [OF refs p]
  define q where "q = p\<lparr>str_ref_count := str_ref_count p - 1\<rparr>"
  define s1 where "s1 = set_str a q s"
  have inv1: "atoms_inv s1" unfolding s1_def by (rule atoms_inv_refless [OF inv p]) (simp add: q_def refless_def)
  have other: "rt_strings s1 b = rt_strings s b" if "b \<noteq> a" for b using that by (simp add: s1_def)
  show ?thesis
  proof (cases "0 < str_ref_count q")
    case True
    have "owned_atoms s1 (own(a := own a - 1))"
      using inv1 null refs_ok_set [OF refs p, of q 0 1] own True unfolding owned_atoms_def s1_def by (simp add: q_def)
    moreover have "kept s s1 (\<lambda>b. b \<noteq> a \<or> 1 < own a \<or> const_ref s a)" using p by (auto simp: kept_def s1_def q_def)
    moreover have "js_free_string s a = Some s1" using True by (simp add: js_free_string_def p Let_def q_def s1_def)
    moreover have "shrunk s s1" using p by (auto simp: shrunk_def s1_def q_def)
    ultimately show ?thesis using p by (auto simp: s1_def const_ref_def)
  next
    case False
    then have last: "own a = 1" "\<not> const_ref s a" using r own by (auto simp: q_def of_bool_def split: if_splits)
    have typed: "str_atom_type p \<noteq> TYPE_NONE \<longleftrightarrow> (\<exists>i. atom_ptr s i = Some a)"
      using atoms_invD(6) [OF inv] p by (simp add: typed_ok_def)
    have result: ?thesis
      if run: "js_free_string s a = Some s'" and inv': "atoms_inv s'" and cores': "cores s' = (cores s1)(a := None)"
        and ptr': "\<And>i. atom_ptr s' i = (if atom_ptr s i = Some a then None else atom_ptr s i)"
        and sizes: "rt_atom_size s' = rt_atom_size s" "rt_atom_hash_size s' = rt_atom_hash_size s"
          "rt_atom_array s \<noteq> [] \<longleftrightarrow> rt_atom_array s' \<noteq> []" for s'
    proof -
      have const: "const_ref s' b = const_ref s b" for b using last(2) by (auto simp: const_ref_def ptr')
      have cores_at: "cores s' b = (if b = a then None else cores s b)" for b
        using other [of b] by (simp add: cores' cores_def)
      have "refs_ok s' (own(a := own a - 1))"
        by (rule refs_okI) (use refs_ok_at [OF refs] last(1) in \<open>auto simp: cores_at const\<close>)
      moreover have "atom_ptr s 0 \<noteq> Some a" using last(2) by (auto simp: const_ref_def JS_ATOM_END_def)
      moreover have "kept s s' (\<lambda>b. b \<noteq> a \<or> 1 < own a \<or> const_ref s a)"
      proof (rule kept_cores)
        fix b p assume "rt_strings s b = Some p" "b \<noteq> a \<or> 1 < own a \<or> const_ref s a"
        then show "\<exists>q. cores s' b = Some q \<and> str_chars q = str_chars p \<and> (str_atom_type p \<noteq> TYPE_NONE \<longrightarrow> str_atom_type q = str_atom_type p)"
          using last cores_at [of b] by (auto simp: cores_def)
      next
        fix i b assume "atom_ptr s i = Some b" "b \<noteq> a \<or> 1 < own a \<or> const_ref s a"
        then show "atom_ptr s' i = Some b" using last ptr' [of i] by auto
      qed
      moreover have "shrunk s s'"
      proof (rule shrunk_core)
        fix c q assume "cores s' c = Some q"
        then have "cores s c = Some q" using cores_at [of c] by (simp split: if_splits)
        then show "\<exists>p. rt_strings s c = Some p \<and> str_chars q = str_chars p \<and> str_atom_type q = str_atom_type p"
          by (auto simp: cores_def)
      qed (simp add: ptr' split: if_splits)
      ultimately show ?thesis using run inv' null const sizes by (auto simp: owned_atoms_def ptr')
    qed
    show ?thesis
    proof (cases "str_atom_type p = TYPE_NONE")
      case True
      have no_ptr: "\<forall>i. atom_ptr s1 i \<noteq> Some a" using typed True by (simp add: s1_def)
      have "js_free_string s a = Some (s1\<lparr>rt_strings := (rt_strings s1)(a := None)\<rparr>)"
        using True False by (simp add: js_free_string_def p Let_def q_def s1_def)
      then show ?thesis
      proof (rule result)
        show "atoms_inv (s1\<lparr>rt_strings := (rt_strings s1)(a := None)\<rparr>)" by (rule remove_string_inv [OF inv1 no_ptr])
        show "cores (s1\<lparr>rt_strings := (rt_strings s1)(a := None)\<rparr>) = (cores s1)(a := None)" by (auto simp: cores_def)
        show "atom_ptr (s1\<lparr>rt_strings := (rt_strings s1)(a := None)\<rparr>) i = (if atom_ptr s i = Some a then None else atom_ptr s i)" for i
          using no_ptr by (simp add: s1_def atom_ptr_def set_str_def)
      qed (simp_all add: s1_def)
    next
      case typed_p: False
      then obtain i where i: "atom_ptr s i = Some a" using typed by blast
      have "0 < i" using last(2) i by (cases i) (auto simp: const_ref_def JS_ATOM_END_def)
      have i1: "atom_ptr s1 i = Some a" using i by (simp add: s1_def)
      obtain s' where s': "JS_FreeAtomStruct s1 a = Some s'" "atoms_inv s'" "cores s' = (cores s1)(a := None)"
        "atom_ptr s' = (atom_ptr s1)(i := None)" "rt_atom_array s' \<noteq> []" "rt_atom_size s' = rt_atom_size s1"
        "rt_atom_hash_size s' = rt_atom_hash_size s1"
        using JS_FreeAtomStruct_spec [OF inv1 i1 \<open>0 < i\<close>] by blast
      have "js_free_string s a = Some s'" using s'(1) typed_p False by (simp add: js_free_string_def p Let_def q_def s1_def)
      then show ?thesis
      proof (rule result [OF _ s'(2,3)])
        have "atom_ptr s j = Some a \<longleftrightarrow> j = i" for j
          using ptrs_okD [OF atoms_invD(1) [OF inv] i, of j] i by blast
        then show "atom_ptr s' j = (if atom_ptr s j = Some a then None else atom_ptr s j)" for j
          unfolding s'(4) by (simp add: s1_def)
        show "rt_atom_array s \<noteq> [] \<longleftrightarrow> rt_atom_array s' \<noteq> []" using s'(5) atom_ptr_bound [OF i] by auto
      qed (use s' in \<open>simp_all add: s1_def\<close>)
    qed
  qed
qed

end
