(* ===== verification/AtomResize.thy ===== *)
theory AtomResize
  imports AtomInv
begin

text \<open>
  Growing the atom table: the hash table moves its entries into new chains.
\<close>

section \<open>Resizing the hash table\<close>

text \<open>During the move: the entries in \<open>D\<close> are in the new chains, the others as they were.\<close>

definition moved :: "atom_rt \<Rightarrow> nat \<Rightarrow> nat set \<Rightarrow> nat list \<Rightarrow> atom_rt \<Rightarrow> bool" where
  "moved s n D new t = ((\<exists>m. t = s\<lparr>rt_strings := m\<rparr>) \<and> cores t = cores s \<and> (\<forall>i. i \<notin> D \<longrightarrow> atom t i = atom s i) \<and> length new = n
     \<and> (\<forall>h<n. \<exists>js. chain (atom t) (new ! h) js \<and> set js = {i \<in> D. \<exists>p. atom s i = Some p \<and> hash_slot (str_hash p) n = h}))"

lemma movedD:
  assumes "moved s n D new t"
  shows "cores t = cores s" "i \<notin> D \<Longrightarrow> atom t i = atom s i" "length new = n" "atom_ptr t = atom_ptr s"
    "rt_atom_array t = rt_atom_array s" "rt_atom_hash t = rt_atom_hash s"
    "h < n \<Longrightarrow> \<exists>js. chain (atom t) (new ! h) js \<and> set js = {i \<in> D. \<exists>p. atom s i = Some p \<and> hash_slot (str_hash p) n = h}"
  using assms by (auto simp: moved_def atom_ptr_def fun_eq_iff)

lemma ptrs_ok_cores: "ptrs_ok s \<Longrightarrow> cores t = cores s \<Longrightarrow> atom_ptr t = atom_ptr s \<Longrightarrow> ptrs_ok t"
  unfolding ptrs_ok_def cores_def fun_eq_iff by (metis option.map_disc_iff)

lemma move_one:
  assumes m: "moved s n D new t" and ptrs: "ptrs_ok s" and i: "i \<notin> D" "i \<noteq> 0" "atom_ptr s i = Some a" "rt_strings t a = Some p"
    and h: "hash_slot (str_hash p) n < n"
  shows "moved s n (insert i D) (new[hash_slot (str_hash p) n := i]) (set_str a (p\<lparr>str_hash_next := new ! hash_slot (str_hash p) n\<rparr>) t)"
proof -
  define j where "j = hash_slot (str_hash p) n"
  define p' where "p' = p\<lparr>str_hash_next := new ! j\<rparr>"
  note D = movedD [OF m]
  have ptr: "atom_ptr t i = Some a" using i(3) D(4) by simp
  have ti: "atom t i = Some p" using atom_at [OF ptr i(4)] .
  then have si: "atom s i = Some p" using D(2) [OF i(1)] by simp
  have at: "atom (set_str a p' t) = (atom t)(i \<mapsto> p')"
    by (rule atom_set_str [OF ptrs_ok_cores [OF ptrs D(1,4)] ptr])
  show ?thesis
    unfolding moved_def j_def [symmetric] p'_def [symmetric]
  proof (intro conjI allI impI)
    show "\<exists>m. set_str a p' t = s\<lparr>rt_strings := m\<rparr>" using m by (auto simp: moved_def set_str_def)
    show "cores (set_str a p' t) = cores s" using D(1) fun_cong [OF D(1), of a] i(4) by (auto simp: cores_def p'_def set_str_def fun_eq_iff)
    show "length (new[j := i]) = n" using D(3) by simp
    show "atom (set_str a p' t) k = atom s k" if "k \<notin> insert i D" for k using that D(2) at by simp
    fix h' assume h': "h' < n"
    obtain js where js: "chain (atom t) (new ! h') js" "set js = {i \<in> D. \<exists>p. atom s i = Some p \<and> hash_slot (str_hash p) n = h'}"
      using D(7) [OF h'] by blast
    have "i \<notin> set js" using js(2) i(1) by simp
    then have ch: "chain (atom (set_str a p' t)) (new ! h') js" unfolding at by (intro chain_cong [OF _ js(1)]) auto
    show "\<exists>js. chain (atom (set_str a p' t)) (new[j := i] ! h') js
      \<and> set js = {k \<in> insert i D. \<exists>p. atom s k = Some p \<and> hash_slot (str_hash p) n = h'}"
    proof (cases "h' = j")
      case True
      have "chain (atom (set_str a p' t)) i (i # js)" using ch True i(2) unfolding at by (simp add: p'_def)
      then show ?thesis using True js(2) si h D(3) by (intro exI [of _ "i # js"]) (auto simp: j_def)
    next
      case False
      then show ?thesis using ch js(2) si by (intro exI [of _ js]) (auto simp: j_def)
    qed
  qed
qed

lemma rehash_chain_spec:
  assumes ptrs: "ptrs_ok s" and n: "n = 2 ^ k" "k \<le> 30"
  shows "chain (atom s) h js \<Longrightarrow> set js \<inter> D = {} \<Longrightarrow> length js \<le> f \<Longrightarrow> moved s n D new t \<Longrightarrow>
    \<exists>new' t'. rehash_chain (of_nat n - 1) f h new t = Some (new', t') \<and> moved s n (D \<union> set js) new' t'"
proof (induction js arbitrary: h D f new t)
  case Nil
  then show ?case by (cases f) auto
next
  case (Cons j js)
  obtain p where p: "atom s j = Some p" "chain (atom s) (str_hash_next p) js" "h = j" "j \<noteq> 0" using Cons.prems(1) by auto
  obtain f' where f: "f = Suc f'" "length js \<le> f'" using Cons.prems(3) by (cases f) auto
  have d: "j \<notin> set js" using chain_distinct [OF Cons.prems(1)] by simp
  note M = movedD [OF Cons.prems(4)]
  have tj: "atom t j = Some p" using M(2) [of j] Cons.prems(2) p(1) by auto
  then obtain a where a: "atom_ptr t j = Some a" "rt_strings t a = Some p" using atom_SomeD by blast
  have slot: "hash_slot (str_hash p) n < n" using slot_less [OF n(2)] n(1) by simp
  define new1 where "new1 = new[hash_slot (str_hash p) n := j]"
  define t1 where "t1 = set_str a (p\<lparr>str_hash_next := new ! hash_slot (str_hash p) n\<rparr>) t"
  have m: "moved s n (insert j D) new1 t1" unfolding new1_def t1_def
    by (rule move_one [OF Cons.prems(4) ptrs _ p(4) _ a(2) slot]) (use Cons.prems(2) a(1) M(4) in auto)
  have "rehash_chain (of_nat n - 1) f h new t = rehash_chain (of_nat n - 1) f' (str_hash_next p) new1 t1"
    using p(3,4) a slot M(3) by (simp add: f(1) Let_def hash_slot_def [symmetric] load_def new1_def t1_def)
  moreover have "set js \<inter> insert j D = {}" using Cons.prems(2) d by auto
  ultimately show ?case using Cons.IH [OF p(2) _ f(2) m] by simp
qed

lemma rehash_all_spec:
  assumes inv: "atoms_inv s" and n: "n = 2 ^ k" "k \<le> 30"
    and j: "j \<le> length (rt_atom_hash s)"
    and m: "moved s n {i. \<exists>p h. atom s i = Some p \<and> in_bucket (rt_atom_hash_size s) h p \<and> h < j} new t"
  shows "\<exists>new' t'. rehash_all (of_nat n - 1) (length (rt_atom_array s)) (drop j (rt_atom_hash s)) new t = Some (new', t')
    \<and> moved s n {i. \<exists>p h. atom s i = Some p \<and> in_bucket (rt_atom_hash_size s) h p \<and> h < length (rt_atom_hash s)} new' t'"
  using j m
proof (induction j arbitrary: new t rule: inc_induct)
  case base
  then show ?case by simp
next
  case (step j)
  note I = atoms_invD [OF inv]
  obtain js where js: "chain (atom s) (rt_atom_hash s ! j) js" "set js = {i. \<exists>p. atom s i = Some p \<and> in_bucket (rt_atom_hash_size s) j p}"
    using buckets_of [OF I(3,7) step.hyps(2)] .
  have "set js \<inter> {i. \<exists>p h. atom s i = Some p \<and> in_bucket (rt_atom_hash_size s) h p \<and> h < j} = {}"
    using js(2) by (auto simp: in_bucket_def)
  then obtain new' t' where run: "rehash_chain (of_nat n - 1) (length (rt_atom_array s)) (rt_atom_hash s ! j) new t = Some (new', t')"
    and m': "moved s n ({i. \<exists>p h. atom s i = Some p \<and> in_bucket (rt_atom_hash_size s) h p \<and> h < j} \<union> set js) new' t'"
    using rehash_chain_spec [OF I(1) n js(1) _ chain_length [OF js(1)] step.prems] by blast
  have "{i. \<exists>p h. atom s i = Some p \<and> in_bucket (rt_atom_hash_size s) h p \<and> h < j} \<union> set js
      = {i. \<exists>p h. atom s i = Some p \<and> in_bucket (rt_atom_hash_size s) h p \<and> h < Suc j}"
    unfolding js(2) by (auto simp: less_Suc_eq)
  then obtain new'' t'' where "rehash_all (of_nat n - 1) (length (rt_atom_array s)) (drop (Suc j) (rt_atom_hash s)) new' t' = Some (new'', t'')"
    "moved s n {i. \<exists>p h. atom s i = Some p \<and> in_bucket (rt_atom_hash_size s) h p \<and> h < length (rt_atom_hash s)} new'' t''"
    using step.IH [of new' t'] m' by auto
  then show ?case using run step.hyps(2) by (simp add: Cons_nth_drop_Suc [symmetric])
qed

lemma pow_and: "(2 ^ k :: nat) AND (2 ^ k - 1) = 0"
  unfolding mask_eq_exp_minus_1 [symmetric] take_bit_eq_mask [symmetric] by simp

lemma JS_ResizeAtomHash_spec:
  assumes inv: "atoms_inv s" and k: "k \<le> 30"
  shows "\<exists>ok s'. JS_ResizeAtomHash s (2 ^ k) mem = Some (ok, s') \<and> atoms_inv s' \<and> cores s' = cores s \<and> atom_ptr s' = atom_ptr s
    \<and> rt_atom_size s' = rt_atom_size s \<and> rt_atom_array s' = rt_atom_array s \<and> (mem \<longrightarrow> rt_atom_hash_size s' = 2 ^ k) \<and> (\<not> mem \<longrightarrow> s' = s)
    \<and> rt_atom_count s' = rt_atom_count s \<and> rt_atom_free_index s' = rt_atom_free_index s"
proof (cases mem)
  case False
  then show ?thesis using pow_and [of k] inv by (intro exI [of _ False] exI [of _ s]) (simp add: JS_ResizeAtomHash_def del: One_nat_def)
next
  case True
  note I = atoms_invD [OF inv]
  define n :: nat where "n = 2 ^ k"
  have pow: "n AND (n - 1) = 0" unfolding n_def by (rule pow_and)
  have msk: "(of_nat (n - 1) :: u32) = of_nat n - 1" by (simp add: n_def of_nat_diff)
  have "moved s n {i. \<exists>p h. atom s i = Some p \<and> in_bucket (rt_atom_hash_size s) h p \<and> h < 0} (replicate n 0) s"
    unfolding moved_def by (auto intro!: exI [of _ "[]"] exI [of _ "rt_strings s"])
  then obtain new t where run: "rehash_all (of_nat n - 1) (length (rt_atom_array s)) (rt_atom_hash s) (replicate n 0) s = Some (new, t)"
    and m: "moved s n {i. \<exists>p h. atom s i = Some p \<and> in_bucket (rt_atom_hash_size s) h p \<and> h < length (rt_atom_hash s)} new t"
    using rehash_all_spec [OF inv n_def k, of 0 "replicate n 0" s] by auto
  note M = movedD [OF m]
  define s' where "s' = t\<lparr>rt_atom_hash := new, rt_atom_hash_size := n, rt_atom_count_resize := JS_ATOM_COUNT_RESIZE n\<rparr>"
  have all: "{i. \<exists>p h. atom s i = Some p \<and> in_bucket (rt_atom_hash_size s) h p \<and> h < length (rt_atom_hash s)}
      = {i. \<exists>p. atom s i = Some p \<and> str_atom_type p \<noteq> TYPE_SYMBOL}"
    using slot_in [OF I(7)] by (auto simp: in_bucket_def)
  obtain mm where t: "t = s\<lparr>rt_strings := mm\<rparr>" using m by (auto simp: moved_def)
  have fields: "rt_atom_array s' = rt_atom_array s" "rt_atom_hash s' = new" "rt_atom_hash_size s' = n" "rt_atom_size s' = rt_atom_size s"
    "rt_atom_count s' = rt_atom_count s" "rt_atom_free_index s' = rt_atom_free_index s" "rt_strings s' = rt_strings t"
    "rt_atom_count_resize s' = JS_ATOM_COUNT_RESIZE n"
    by (simp_all add: s'_def t)
  have ptr: "atom_ptr s' = atom_ptr s" by (auto simp: atom_ptr_def fields fun_eq_iff)
  have at: "atom s' = atom t" by (auto simp: atom_def ptr M(4) fields fun_eq_iff)
  have cores': "cores s' = cores s" using M(1) by (simp add: cores_def fields fun_eq_iff)
  have core_at: "map_option core (atom s' i) = map_option core (atom s i)" for i
    using fun_cong [OF cores'] by (cases "atom_ptr s i") (auto simp: atom_def ptr cores_def)
  have bwd: "\<exists>p. atom s i = Some p \<and> core p = core q" if "atom s' i = Some q" for i q using core_at [of i] that by (cases "atom s i") auto
  have fwd: "\<exists>q. atom s' i = Some q \<and> core q = core p" if "atom s i = Some p" for i p using core_at [of i] that by (cases "atom s' i") auto
  have "entries_ok s'" unfolding entries_ok_def
  proof (intro allI impI)
    fix i q assume q: "atom s' i = Some q"
    obtain p where p: "atom s i = Some p" "core p = core q" using bwd [OF q] by blast
    have e: "entry_ok i p" using I(2) p(1) by (auto simp: entries_ok_def)
    show "entry_ok i q"
    proof (cases "str_atom_type q = TYPE_SYMBOL")
      case True
      then have "atom t i = atom s i" using p core_eqD(4) [OF p(2)] by (intro M(2)) (auto simp: in_bucket_def)
      then have "q = p" using p(1) q at by simp
      then show ?thesis using e by simp
    next
      case False
      then show ?thesis using e core_eqD [OF p(2)] by (simp add: entry_ok_def split: if_splits)
    qed
  qed
  moreover have "buckets_ok s'" unfolding buckets_ok_def
  proof (intro allI impI)
    fix h assume "h < length (rt_atom_hash s')"
    then have "h < n" using M(3) by (simp add: fields)
    then obtain js where js: "chain (atom t) (new ! h) js"
      "set js = {i. \<exists>p. atom s i = Some p \<and> str_atom_type p \<noteq> TYPE_SYMBOL \<and> hash_slot (str_hash p) n = h}"
      using M(7) [of h] unfolding all by fastforce
    have "(\<exists>p. atom s i = Some p \<and> in_bucket n h p) = (\<exists>p. atom s' i = Some p \<and> in_bucket n h p)" for i
    proof
      assume "\<exists>p. atom s i = Some p \<and> in_bucket n h p"
      then obtain p where p: "atom s i = Some p" "in_bucket n h p" by blast
      obtain q where q: "atom s' i = Some q" "core q = core p" using fwd [OF p(1)] by blast
      then show "\<exists>p. atom s' i = Some p \<and> in_bucket n h p" using p(2) core_eqD [OF q(2)] by (auto simp: in_bucket_def)
    next
      assume "\<exists>p. atom s' i = Some p \<and> in_bucket n h p"
      then obtain q where q: "atom s' i = Some q" "in_bucket n h q" by blast
      obtain p where p: "atom s i = Some p" "core p = core q" using bwd [OF q(1)] by blast
      then show "\<exists>p. atom s i = Some p \<and> in_bucket n h p" using q(2) core_eqD [OF p(2)] by (auto simp: in_bucket_def)
    qed
    then have "{i. \<exists>p. atom s i = Some p \<and> str_atom_type p \<noteq> TYPE_SYMBOL \<and> hash_slot (str_hash p) n = h}
        = {i. \<exists>p. atom s' i = Some p \<and> in_bucket (rt_atom_hash_size s') h p}"
      by (simp add: in_bucket_def fields)
    then show "\<exists>js. chain (atom s') (rt_atom_hash s' ! h) js \<and> set js = {i. \<exists>p. atom s' i = Some p \<and> in_bucket (rt_atom_hash_size s') h p}"
      using js by (auto simp: fields at)
  qed
  moreover have "unique_atoms s'" unfolding unique_atoms_def
  proof (intro allI impI)
    fix i j p q assume *: "atom s' i = Some p" "atom s' j = Some q" "str_atom_type p = str_atom_type q" "str_atom_type p \<noteq> TYPE_SYMBOL"
      "js_chars (str_chars p) = js_chars (str_chars q)"
    obtain p1 where p1: "atom s i = Some p1" "core p1 = core p" using bwd [OF *(1)] by blast
    obtain q1 where q1: "atom s j = Some q1" "core q1 = core q" using bwd [OF *(2)] by blast
    show "i = j" using I(5) p1(1) q1(1) *(3-5) core_eqD [OF p1(2)] core_eqD [OF q1(2)] unfolding unique_atoms_def by metis
  qed
  moreover have "typed_ok s'" unfolding typed_ok_def ptr
  proof (intro allI impI)
    fix a q assume q: "rt_strings s' a = Some q"
    then have "map_option core (rt_strings s a) = Some (core q)" using fun_cong [OF cores', of a] by (simp add: cores_def)
    then obtain p where p: "rt_strings s a = Some p" "core p = core q" by auto
    then show "(str_atom_type q \<noteq> TYPE_NONE) = (\<exists>i. atom_ptr s i = Some a)"
      using I(6) [unfolded typed_ok_def, rule_format, OF p(1)] core_eqD(4) [OF p(2)] by simp
  qed
  moreover have "hash_size_ok s'" using M(3) k by (auto simp: hash_size_ok_def fields n_def)
  ultimately have inv': "atoms_inv s'"
    using I ptrs_ok_cores [OF I(1) cores' ptr] by (simp add: atoms_inv_def free_ok_def sizes_ok_def fields)
  have "JS_ResizeAtomHash s n mem = Some (True, s')"
    using pow run True unfolding JS_ResizeAtomHash_def msk s'_def by simp
  then show ?thesis using inv' cores' ptr True unfolding n_def [symmetric] by (auto simp: fields)
qed

end
