(* ===== verification/AtomNew.thy ===== *)
theory AtomNew
  imports AtomResize
begin

text \<open>
  Making an atom: growing the array, finding or making its string and linking the entry.
\<close>

section \<open>Linking an entry\<close>

definition use_entry :: "nat \<Rightarrow> nat \<Rightarrow> nat \<Rightarrow> jstr \<Rightarrow> atom_rt \<Rightarrow> atom_rt" where
  "use_entry i n a q s = s\<lparr>rt_atom_array := (rt_atom_array s)[i := AtomPtr a], rt_atom_free_index := n,
     rt_strings := (rt_strings s)(a \<mapsto> q), rt_atom_count := rt_atom_count s + 1\<rparr>"

lemma use_entry_simps [simp]:
  "rt_atom_hash (use_entry i n a q s) = rt_atom_hash s" "rt_atom_hash_size (use_entry i n a q s) = rt_atom_hash_size s"
  "rt_atom_count_resize (use_entry i n a q s) = rt_atom_count_resize s" "rt_atom_array (use_entry i n a q s) = (rt_atom_array s)[i := AtomPtr a]"
  "rt_atom_free_index (use_entry i n a q s) = n" "rt_strings (use_entry i n a q s) = (rt_strings s)(a \<mapsto> q)"
  "rt_atom_count (use_entry i n a q s) = rt_atom_count s + 1" "rt_atom_size (use_entry i n a q s) = rt_atom_size s"
  by (simp_all add: use_entry_def)

lemma atom_ptr_use:
  "i < length (rt_atom_array s) \<Longrightarrow> atom_ptr (use_entry i n a q s) = (atom_ptr s)(i \<mapsto> a)"
  by (auto simp: fun_eq_iff atom_ptr_def load_update)

lemma atom_use:
  assumes "i < length (rt_atom_array s)" "\<forall>j. atom_ptr s j \<noteq> Some a"
  shows "atom (use_entry i n a q s) = (atom s)(i \<mapsto> q)"
proof
  fix j show "atom (use_entry i n a q s) j = ((atom s)(i \<mapsto> q)) j"
    using assms(2) by (cases "atom_ptr s j") (auto simp: atom_def atom_ptr_use [OF assms(1)])
qed

lemma free_no_ptr: "load (rt_atom_array s) i = Some (AtomFree n) \<Longrightarrow> atom_ptr s i = None"
  by (simp add: atom_ptr_def)

lemma use_entry_inv:
  assumes ptrs: "ptrs_ok s" and entries: "entries_ok s" and free: "free_ok s" and unique: "unique_atoms s" and typed: "typed_ok s"
    and hash: "hash_size_ok s" and sizes: "sizes_ok s"
    and i: "load (rt_atom_array s) i = Some (AtomFree n)" "rt_atom_free_index s = i"
    and a: "\<forall>j. atom_ptr s j \<noteq> Some a" and q: "entry_ok i q" "str_atom_type q \<noteq> TYPE_NONE"
    and new: "\<And>j p. str_atom_type q \<noteq> TYPE_SYMBOL \<Longrightarrow> atom s j = Some p \<Longrightarrow> str_atom_type p = str_atom_type q
      \<Longrightarrow> js_chars (str_chars p) \<noteq> js_chars (str_chars q)"
    and chains: "\<And>h. h < length (rt_atom_hash s) \<Longrightarrow> \<exists>js. chain ((atom s)(i \<mapsto> q)) (rt_atom_hash s ! h) js
      \<and> set js = {j. \<exists>p. ((atom s)(i \<mapsto> q)) j = Some p \<and> in_bucket (rt_atom_hash_size s) h p}"
  shows "atoms_inv (use_entry i n a q s)"
proof -
  let ?s = "use_entry i n a q s"
  have ib: "i < length (rt_atom_array s)" using i(1) by (auto simp: load_def split: if_splits)
  note ptr = atom_ptr_use [OF ib] and at = atom_use [OF ib a]
  have none: "atom_ptr s i = None" using free_no_ptr [OF i(1)] .
  have "ptrs_ok ?s" using ptrs a unfolding ptrs_ok_def ptr by (auto split: if_splits)
  moreover have "entries_ok ?s" using entries q(1) by (simp add: entries_ok_def at)
  moreover have "buckets_ok ?s" unfolding buckets_ok_def at using chains by simp
  moreover have "free_ok ?s"
  proof -
    obtain js where js: "free_path (rt_atom_array s) i js" "distinct js"
      "set js = {j. \<exists>n. load (rt_atom_array s) j = Some (AtomFree n)}" using free i(2) by (auto simp: free_ok_def)
    have "i \<in> set js" using js(3) i(1) by simp
    then obtain js' where js': "js = i # js'" using js(1) by (cases js) auto
    have "free_path (rt_atom_array s) n js'" using js(1) js' i(1) by simp
    then have "free_path (rt_atom_array ?s) n js'"
      using js(2) js' by (elim free_path_cong [rotated]) (auto simp: load_update ib)
    moreover have "set js' = {j. \<exists>n. load (rt_atom_array ?s) j = Some (AtomFree n)}"
      using js(2,3) js' by (auto simp: load_update ib)
    ultimately show ?thesis unfolding free_ok_def using js(2) js' by (intro exI [of _ js']) simp
  qed
  moreover have "unique_atoms ?s" unfolding unique_atoms_def at
  proof (intro allI impI)
    fix j k p1 p2
    assume *: "((atom s)(i \<mapsto> q)) j = Some p1" "((atom s)(i \<mapsto> q)) k = Some p2" "str_atom_type p1 = str_atom_type p2"
      "str_atom_type p1 \<noteq> TYPE_SYMBOL" "js_chars (str_chars p1) = js_chars (str_chars p2)"
    show "j = k"
    proof (cases "j = i \<or> k = i")
      case True
      then show ?thesis using * new by (auto split: if_splits)
    next
      case False
      then show ?thesis using * unique unfolding unique_atoms_def by auto
    qed
  qed
  moreover have "typed_ok ?s" unfolding typed_ok_def ptr use_entry_simps
  proof (intro allI impI)
    fix b p assume b: "((rt_strings s)(a \<mapsto> q)) b = Some p"
    show "(str_atom_type p \<noteq> TYPE_NONE) = (\<exists>j. ((atom_ptr s)(i \<mapsto> a)) j = Some b)"
    proof (cases "b = a")
      case True
      then show ?thesis using b q(2) by auto
    next
      case False
      then have "((atom_ptr s)(i \<mapsto> a)) j = Some b \<longleftrightarrow> atom_ptr s j = Some b" for j using none by auto
      then show ?thesis using typed b False by (simp add: typed_ok_def)
    qed
  qed
  moreover have "hash_size_ok ?s" using hash by (simp add: hash_size_ok_def)
  moreover have "sizes_ok ?s"
    using sizes count_filter_update [OF ib, of is_ptr "AtomPtr a"] i(1)
    by (auto simp: sizes_ok_def is_ptr_def load_Some_iff)
  ultimately show ?thesis by (simp add: atoms_inv_def)
qed


text \<open>The chain of a bucket, with the new entry when it belongs there.\<close>

lemma chain_with:
  assumes b: "buckets_ok s" "hash_size_ok s" "h < length (rt_atom_hash s)" and none: "atom s i = None" and i: "i \<noteq> 0"
    and q: "in_bucket (rt_atom_hash_size s) h q \<Longrightarrow> str_hash_next q = rt_atom_hash s ! h"
  shows "\<exists>js. chain ((atom s)(i \<mapsto> q)) (if in_bucket (rt_atom_hash_size s) h q then i else rt_atom_hash s ! h) js
    \<and> set js = {j. \<exists>p. ((atom s)(i \<mapsto> q)) j = Some p \<and> in_bucket (rt_atom_hash_size s) h p}"
proof -
  obtain js where js: "chain (atom s) (rt_atom_hash s ! h) js" "set js = {j. \<exists>p. atom s j = Some p \<and> in_bucket (rt_atom_hash_size s) h p}"
    using buckets_of [OF b] .
  have not_in: "i \<notin> set js" using js(2) none by simp
  show ?thesis
  proof (cases "in_bucket (rt_atom_hash_size s) h q")
    case True
    have "chain ((atom s)(i \<mapsto> q)) i (i # js)" by (rule chain_insert [OF js(1) i not_in q [OF True]])
    then show ?thesis using True js(2) none by (intro exI [of _ "i # js"]) auto
  next
    case False
    have "chain ((atom s)(i \<mapsto> q)) (rt_atom_hash s ! h) js" by (rule chain_cong [OF _ js(1)]) (use not_in in auto)
    then show ?thesis using False js(2) none by (intro exI [of _ js]) auto
  qed
qed

lemma count_bound: "sizes_ok s \<Longrightarrow> rt_atom_count s \<le> int JS_ATOM_MAX"
  unfolding sizes_ok_def using length_filter_le [of is_ptr "rt_atom_array s"] by linarith

lemma JS_ResizeAtomHash_double:
  assumes inv: "atoms_inv s" and full: "int (rt_atom_count_resize s) \<le> rt_atom_count s"
  shows "\<exists>ok s'. JS_ResizeAtomHash s (rt_atom_hash_size s * 2) mem = Some (ok, s') \<and> atoms_inv s' \<and> cores s' = cores s \<and> atom_ptr s' = atom_ptr s
    \<and> rt_atom_size s' = rt_atom_size s \<and> rt_atom_array s' = rt_atom_array s \<and> rt_atom_free_index s' = rt_atom_free_index s"
proof -
  note I = atoms_invD [OF inv]
  obtain k where k: "rt_atom_hash_size s = 2 ^ k" "rt_atom_count_resize s = 2 ^ k * 2"
    using I(7) by (auto simp: hash_size_ok_def JS_ATOM_COUNT_RESIZE_def)
  have "int (2 ^ k * 2) \<le> int JS_ATOM_MAX" using full count_bound [OF I(8)] k(2) by linarith
  then have "2 ^ Suc k \<le> JS_ATOM_MAX" unfolding of_nat_le_iff power_Suc2 .
  moreover have "JS_ATOM_MAX < 2 ^ 30" by (simp add: JS_ATOM_MAX_def)
  ultimately have "(2::nat) ^ Suc k < 2 ^ 30" by (rule le_less_trans)
  then have "Suc k < 30" by (rule power_less_imp_less_exp [rotated]) simp
  then have "Suc k \<le> 30" by simp
  then show ?thesis using JS_ResizeAtomHash_spec [OF inv, of "Suc k" mem] unfolding k(1) power_Suc2 by blast
qed

lemma link_atom_spec:
  assumes ok: "owned_atoms s own" and a: "rt_strings s a = Some p" "str_atom_type p = TYPE_NONE" "0 < own a"
    and i: "rt_atom_free_index s = i" "i \<noteq> 0" and t: "t \<in> {TYPE_STRING, TYPE_GLOBAL_SYMBOL, TYPE_SYMBOL}"
    and h: "t \<noteq> TYPE_SYMBOL \<Longrightarrow> h = atom_hash t (str_chars p) \<and> h1 = hash_slot h (rt_atom_hash_size s)"
    and new: "\<And>j q. t \<noteq> TYPE_SYMBOL \<Longrightarrow> atom s j = Some q \<Longrightarrow> str_atom_type q = t \<Longrightarrow> js_chars (str_chars q) \<noteq> js_chars (str_chars p)"
  shows "\<exists>n s'. load (rt_atom_array s) i = Some (AtomFree n) \<and> link_atom s a h h1 t mem = Some (i, s')
    \<and> owned_atoms s' (own(a := own a - of_bool (i < JS_ATOM_END)))
    \<and> atom_ptr s' = (atom_ptr s)(i \<mapsto> a) \<and> cores s' = (cores s)(a \<mapsto> core (p\<lparr>str_hash := h, str_atom_type := t\<rparr>))
    \<and> rt_atom_array s' = (rt_atom_array s)[i := AtomPtr a] \<and> rt_atom_free_index s' = n \<and> rt_atom_size s' = rt_atom_size s"
proof -
  have inv: "atoms_inv s" and refs: "refs_ok s own" and null: "rt_atom_array s \<noteq> [] \<longrightarrow> atom_ptr s 0 \<noteq> None"
    using ok by (auto simp: owned_atoms_def)
  note I = atoms_invD [OF inv]
  obtain js where js: "free_path (rt_atom_array s) i js" using I(4) i(1) by (auto simp: free_ok_def)
  then obtain n where n: "load (rt_atom_array s) i = Some (AtomFree n)" using i(2) by (cases js) auto
  have ib: "i < length (rt_atom_array s)" using n by (auto simp: load_def split: if_splits)
  have ptr_none: "atom_ptr s i = None" using free_no_ptr [OF n] .
  then have none: "atom s i = None" by (simp add: atom_def)
  have no_a: "\<forall>j. atom_ptr s j \<noteq> Some a" using I(6) a(1,2) by (auto simp: typed_ok_def)
  define nx where "nx = (if t = TYPE_SYMBOL then i else rt_atom_hash s ! h1)"
  define q where "q = p\<lparr>str_hash := h, str_atom_type := t, str_hash_next := nx\<rparr>"
  define hs where "hs = (if t = TYPE_SYMBOL then rt_atom_hash s else (rt_atom_hash s)[h1 := i])"
  define s1 where "s1 = s\<lparr>rt_atom_hash := hs\<rparr>"
  define u where "u = use_entry i n a q s1"
  have s1: "atom_ptr s1 = atom_ptr s" "atom s1 = atom s" "rt_strings s1 = rt_strings s" "rt_atom_array s1 = rt_atom_array s"
    "rt_atom_free_index s1 = rt_atom_free_index s" "rt_atom_hash s1 = hs" "rt_atom_hash_size s1 = rt_atom_hash_size s"
    "rt_atom_count s1 = rt_atom_count s" "rt_atom_size s1 = rt_atom_size s" "rt_atom_count_resize s1 = rt_atom_count_resize s"
    by (auto simp: s1_def atom_def atom_ptr_def fun_eq_iff intro!: Option.bind_cong)
  have h1: "h1 < length (rt_atom_hash s)" if "t \<noteq> TYPE_SYMBOL" using h [OF that] slot_in [OF I(7)] by simp
  have len: "length hs = length (rt_atom_hash s)" by (simp add: hs_def)
  have bucket: "in_bucket (rt_atom_hash_size s) k q \<longleftrightarrow> t \<noteq> TYPE_SYMBOL \<and> k = h1" for k
    using h by (auto simp: in_bucket_def q_def)
  have "atoms_inv u" unfolding u_def
  proof (rule use_entry_inv)
    show "entry_ok i q" using t h i(2) by (auto simp: entry_ok_def q_def nx_def)
    show "str_atom_type q \<noteq> TYPE_NONE" using t by (auto simp: q_def)
    show "js_chars (str_chars r) \<noteq> js_chars (str_chars q)"
      if "str_atom_type q \<noteq> TYPE_SYMBOL" "atom s1 j = Some r" "str_atom_type r = str_atom_type q" for j r
      using new [of j r] that by (simp add: s1 q_def)
    fix k assume "k < length (rt_atom_hash s1)"
    then have k: "k < length (rt_atom_hash s)" by (simp add: s1 len)
    have hsk: "rt_atom_hash s1 ! k = (if in_bucket (rt_atom_hash_size s1) k q then i else rt_atom_hash s ! k)"
      using k by (auto simp: s1 hs_def bucket)
    have "in_bucket (rt_atom_hash_size s) k q \<Longrightarrow> str_hash_next q = rt_atom_hash s ! k" unfolding bucket by (simp add: q_def nx_def)
    from chain_with [OF I(3,7) k none i(2) this]
    show "\<exists>js. chain ((atom s1)(i \<mapsto> q)) (rt_atom_hash s1 ! k) js
        \<and> set js = {j. \<exists>p. ((atom s1)(i \<mapsto> q)) j = Some p \<and> in_bucket (rt_atom_hash_size s1) k p}"
      unfolding hsk unfolding s1 .
  qed (use I n i(1) no_a len in \<open>simp_all add: s1 ptrs_ok_def entries_ok_def free_ok_def unique_atoms_def typed_ok_def hash_size_ok_def sizes_ok_def\<close>)
  have u: "cores u = (cores s)(a \<mapsto> core (p\<lparr>str_hash := h, str_atom_type := t\<rparr>))" "atom_ptr u = (atom_ptr s)(i \<mapsto> a)"
    "rt_atom_array u = (rt_atom_array s)[i := AtomPtr a]" "rt_atom_free_index u = n" "rt_atom_size u = rt_atom_size s"
    using atom_ptr_use [of i s1 n a q] ib by (auto simp: u_def s1 cores_def q_def core_def fun_eq_iff)
  have final: "owned_atoms s' (own(a := own a - of_bool (i < JS_ATOM_END)))"
    if s': "atoms_inv s'" "cores s' = cores u" "atom_ptr s' = atom_ptr u" for s'
  proof -
    have c: "const_ref s' b = (if b = a then i < JS_ATOM_END else const_ref s b)" for b
    proof (cases "b = a")
      case False
      then have "((atom_ptr s)(i \<mapsto> a)) j = Some b \<longleftrightarrow> atom_ptr s j = Some b" for j using ptr_none by auto
      then show ?thesis using False by (simp add: const_ref_def s'(3) u(2))
    qed (use no_a in \<open>auto simp: const_ref_def s'(3) u(2)\<close>)
    have "refs_ok s' (own(a := own a - of_bool (i < JS_ATOM_END)))"
    proof (rule refs_okI)
      fix b show "ref_ok ((own(a := own a - of_bool (i < JS_ATOM_END))) b) (const_ref s' b) (cores s' b)"
        using refs_ok_at [OF refs, of b] a(1,3) no_a unfolding c s'(2) u(1)
        by (cases "b = a") (auto simp: cores_def const_ref_def of_nat_diff)
    qed
    moreover have "atom_ptr s' 0 = atom_ptr s 0" using i(2) by (simp add: s'(3) u(2))
    moreover have "rt_atom_array s \<noteq> []" using ib by auto
    ultimately show ?thesis using s'(1) null by (simp add: owned_atoms_def)
  qed
  have run: "link_atom s a h h1 t mem = (if t \<noteq> TYPE_SYMBOL \<and> int (rt_atom_count_resize u) \<le> rt_atom_count u
      then do { (ok, s) \<leftarrow> JS_ResizeAtomHash u (rt_atom_hash_size u * 2) mem; Some (i, s) } else Some (i, u))"
  proof (cases "t = TYPE_SYMBOL")
    case True
    have "q = p\<lparr>str_hash := h, str_hash_next := i, str_atom_type := t\<rparr>" using True by (cases p) (simp add: q_def nx_def)
    moreover have "u = s\<lparr>rt_atom_free_index := n, rt_atom_array := (rt_atom_array s)[i := AtomPtr a], rt_atom_count := rt_atom_count s + 1,
        rt_strings := (rt_strings s)(a \<mapsto> q)\<rparr>" using True by (cases s) (simp add: u_def use_entry_def s1_def hs_def)
    ultimately show ?thesis using True n a(1) i(1) by (simp add: link_atom_def Let_def set_str_def)
  next
    case False
    have "u = s\<lparr>rt_atom_free_index := n, rt_atom_array := (rt_atom_array s)[i := AtomPtr a], rt_atom_count := rt_atom_count s + 1,
        rt_atom_hash := (rt_atom_hash s)[h1 := i], rt_strings := (rt_strings s)(a \<mapsto> q)\<rparr>"
      using False by (cases s) (simp add: u_def use_entry_def s1_def hs_def)
    moreover have "load (rt_atom_hash s) h1 = Some nx" using h1 [OF False] False by (simp add: load_def nx_def)
    ultimately show ?thesis using False n a(1) i(1) by (simp add: link_atom_def Let_def set_str_def q_def)
  qed
  show ?thesis
  proof (cases "t \<noteq> TYPE_SYMBOL \<and> int (rt_atom_count_resize u) \<le> rt_atom_count u")
    case True
    obtain ok s' where s': "JS_ResizeAtomHash u (rt_atom_hash_size u * 2) mem = Some (ok, s')" "atoms_inv s'" "cores s' = cores u" "atom_ptr s' = atom_ptr u"
      "rt_atom_size s' = rt_atom_size u" "rt_atom_array s' = rt_atom_array u" "rt_atom_free_index s' = rt_atom_free_index u"
      using JS_ResizeAtomHash_double [OF \<open>atoms_inv u\<close>] True by blast
    then show ?thesis using run True final [OF s'(2-4)] n by (simp add: u)
  next
    case False
    then show ?thesis using run final [OF \<open>atoms_inv u\<close>] n by (auto simp: u)
  qed
qed

section \<open>Growing the array\<close>

lemma free_path_upt:
  "i < m \<Longrightarrow> 0 < i \<Longrightarrow> (\<And>j. i \<le> j \<Longrightarrow> j < m \<Longrightarrow> load array j = Some (AtomFree (if j = m - 1 then 0 else j + 1))) \<Longrightarrow>
    free_path array i [i..<m]"
proof (induction "m - i" arbitrary: i)
  case (Suc d)
  have step: "[i..<m] = i # [Suc i..<m]" using Suc.prems(1) by (rule upt_conv_Cons)
  show ?case
  proof (cases "Suc i = m")
    case True
    then show ?thesis using Suc.prems(2) Suc.prems(3) [of i] by (simp add: step)
  next
    case False
    then have "free_path array (Suc i) [Suc i..<m]" using Suc by (intro Suc.hyps(1)) auto
    then show ?thesis using Suc.prems(1,2) Suc.prems(3) [of i] False by (simp add: step)
  qed
qed simp

lemma no_free_entry: "free_ok s \<Longrightarrow> rt_atom_free_index s = 0 \<Longrightarrow> load (rt_atom_array s) i \<noteq> Some (AtomFree n)"
proof
  assume ok: "free_ok s" "rt_atom_free_index s = 0" "load (rt_atom_array s) i = Some (AtomFree n)"
  obtain js where js: "free_path (rt_atom_array s) 0 js" "set js = {i. \<exists>n. load (rt_atom_array s) i = Some (AtomFree n)}"
    using ok(1,2) by (auto simp: free_ok_def)
  then have "js = []" by (cases js) auto
  then show False using js(2) ok(3) by auto
qed

lemma free_index_pos: "atoms_inv s \<Longrightarrow> i < length (rt_atom_array s) \<Longrightarrow> atom_ptr s i = None \<Longrightarrow> rt_atom_free_index s \<noteq> 0"
proof
  assume s: "atoms_inv s" "i < length (rt_atom_array s)" "atom_ptr s i = None" "rt_atom_free_index s = 0"
  then obtain n where "load (rt_atom_array s) i = Some (AtomFree n)" by (auto simp: atom_ptr_def load_def split: atom_entry.splits)
  then show False using no_free_entry [OF atoms_invD(4) [OF s(1)] s(4)] by blast
qed

text \<open>More free entries.\<close>

definition extend_array :: "nat \<Rightarrow> atom_rt \<Rightarrow> atom_rt" where
  "extend_array m s = s\<lparr>rt_atom_size := m, rt_atom_free_index := length (rt_atom_array s),
     rt_atom_array := rt_atom_array s @ map (\<lambda>i. AtomFree (if i = m - 1 then 0 else i + 1)) [length (rt_atom_array s)..<m]\<rparr>"

lemma extend_array_spec:
  assumes ok: "owned_atoms s own" and m: "rt_atom_array s \<noteq> []" "length (rt_atom_array s) < m" "m \<le> JS_ATOM_MAX" and full: "rt_atom_free_index s = 0"
  shows "owned_atoms (extend_array m s) own" "atom_ptr (extend_array m s) = atom_ptr s"
proof -
  define u where "u = extend_array m s"
  define len where "len = length (rt_atom_array s)"
  have inv: "atoms_inv s" using ok by (simp add: owned_atoms_def)
  note I = atoms_invD [OF inv]
  have fields: "rt_strings u = rt_strings s" "rt_atom_hash u = rt_atom_hash s" "rt_atom_hash_size u = rt_atom_hash_size s"
    "rt_atom_count u = rt_atom_count s" "rt_atom_count_resize u = rt_atom_count_resize s" "rt_atom_size u = m" "rt_atom_free_index u = len"
    "rt_atom_array u = rt_atom_array s @ map (\<lambda>i. AtomFree (if i = m - 1 then 0 else i + 1)) [len..<m]"
    by (simp_all add: u_def extend_array_def len_def)
  have load_u: "load (rt_atom_array u) i = (if i < len then load (rt_atom_array s) i
      else if i < m then Some (AtomFree (if i = m - 1 then 0 else i + 1)) else None)" for i
    using m(2) by (auto simp: fields load_def nth_append len_def)
  have ptr: "atom_ptr u i = atom_ptr s i" for i
    unfolding atom_ptr_def load_u by (simp add: len_def load_def)
  then have ptr: "atom_ptr u = atom_ptr s" by (simp add: fun_eq_iff)
  have at: "atom u = atom s" by (simp add: atom_def fun_eq_iff ptr fields)
  have "free_ok u"
    unfolding free_ok_def fields(7)
  proof (intro exI conjI)
    show "free_path (rt_atom_array u) len [len..<m]" using m by (intro free_path_upt) (auto simp: load_u len_def)
    show "set [len..<m] = {i. \<exists>n. load (rt_atom_array u) i = Some (AtomFree n)}"
      using no_free_entry [OF I(4) full] by (auto simp: load_u split: if_splits)
  qed simp
  moreover have "sizes_ok u" using I(8) m(2,3) by (auto simp: sizes_ok_def fields len_def is_ptr_def filter_empty_conv)
  ultimately have "atoms_inv u"
    using I by (simp add: atoms_inv_def ptrs_ok_def entries_ok_def buckets_ok_def unique_atoms_def typed_ok_def hash_size_ok_def ptr at fields)
  moreover have "refs_ok u own" using ok by (simp add: owned_atoms_def refs_ok_def const_ref_def ptr fields)
  ultimately show "owned_atoms (extend_array m s) own" "atom_ptr (extend_array m s) = atom_ptr s"
    using ok m(1) ptr by (simp_all add: owned_atoms_def u_def)
qed

text \<open>Entry 0, which stands for no atom.\<close>

definition null_str :: jstr where
  "null_str = \<lparr>str_ref_count = 1, str_chars = Str8 [], str_hash = 0, str_atom_type = TYPE_SYMBOL, str_hash_next = 0\<rparr>"

definition null_entry :: "nat \<Rightarrow> atom_rt \<Rightarrow> atom_rt" where
  "null_entry b s = set_str b null_str (s\<lparr>rt_atom_count := rt_atom_count s + 1, rt_atom_array := [AtomPtr b], rt_atom_size := 1\<rparr>)"

lemma null_entry_spec:
  assumes ok: "owned_atoms s own" and empty: "rt_atom_array s = []" and b: "rt_strings s b = None" and full: "rt_atom_free_index s = 0"
  shows "owned_atoms (null_entry b s) own" "atom_ptr (null_entry b s) = [0 \<mapsto> b]"
proof -
  define u where "u = null_entry b s"
  have inv: "atoms_inv s" using ok by (simp add: owned_atoms_def)
  note I = atoms_invD [OF inv]
  have fields: "rt_strings u = (rt_strings s)(b \<mapsto> null_str)" "rt_atom_hash u = rt_atom_hash s" "rt_atom_hash_size u = rt_atom_hash_size s"
    "rt_atom_count u = rt_atom_count s + 1" "rt_atom_count_resize u = rt_atom_count_resize s" "rt_atom_size u = 1" "rt_atom_free_index u = 0"
    "rt_atom_array u = [AtomPtr b]"
    using full by (simp_all add: u_def null_entry_def)
  have none: "atom_ptr s i = None" "atom s i = None" for i by (simp_all add: atom_ptr_def atom_def empty load_def)
  have ptr: "atom_ptr u = [0 \<mapsto> b]" by (auto simp: atom_ptr_def fun_eq_iff fields load_def)
  have at: "atom u = [0 \<mapsto> null_str]" by (auto simp: atom_def fun_eq_iff ptr fields)
  have "ptrs_ok u" by (simp add: ptrs_ok_def ptr fields)
  moreover have "entries_ok u" by (simp add: entries_ok_def at entry_ok_def null_str_def)
  moreover have "buckets_ok u" unfolding buckets_ok_def
  proof (intro allI impI)
    fix h assume "h < length (rt_atom_hash u)"
    then obtain js where "chain (atom s) (rt_atom_hash s ! h) js" "set js = {i. \<exists>p. atom s i = Some p \<and> in_bucket (rt_atom_hash_size s) h p}"
      using buckets_of [OF I(3,7)] by (auto simp: fields)
    then have "rt_atom_hash s ! h = 0" by (cases js) (auto simp: none)
    then show "\<exists>js. chain (atom u) (rt_atom_hash u ! h) js \<and> set js = {i. \<exists>p. atom u i = Some p \<and> in_bucket (rt_atom_hash_size u) h p}"
      by (intro exI [of _ "[]"]) (auto simp: fields at in_bucket_def null_str_def)
  qed
  moreover have "free_ok u" by (auto simp: free_ok_def fields load_def intro!: exI [of _ "[]"])
  moreover have "unique_atoms u" by (auto simp: unique_atoms_def at)
  moreover have "typed_ok u" using I(6) by (auto simp: typed_ok_def ptr fields none null_str_def)
  moreover have "hash_size_ok u" using I(7) by (simp add: hash_size_ok_def fields)
  moreover have "sizes_ok u" using I(8) empty by (simp add: sizes_ok_def fields is_ptr_def JS_ATOM_MAX_def)
  moreover have "refs_ok u own" unfolding refs_ok_def
  proof
    fix a
    have "const_ref u a = (a = b)" by (auto simp: const_ref_def ptr JS_ATOM_END_def)
    moreover have "\<not> const_ref s a" by (simp add: const_ref_def none)
    moreover have refs: "refs_ok s own" using ok by (simp add: owned_atoms_def)
    then have "ref_ok (own a) (const_ref s a) (rt_strings s a)" by (simp add: refs_ok_def)
    ultimately show "ref_ok (own a) (const_ref u a) (rt_strings u a)"
      using refs_ok_None [OF refs b] by (cases "a = b") (simp_all add: fields null_str_def)
  qed
  ultimately show "owned_atoms (null_entry b s) own" "atom_ptr (null_entry b s) = [0 \<mapsto> b]"
    using ptr by (simp_all add: owned_atoms_def atoms_inv_def u_def)
qed

lemma grow_atom_array_spec:
  assumes ok: "owned_atoms s own" and full: "rt_atom_free_index s = 0" and small: "rt_atom_size s * 3 < 2 ^ 31"
    and fresh: "\<And>b. mem_null mem = Some b \<Longrightarrow> rt_strings s b = None"
  shows "grow_atom_array s mem = Some None \<or> (\<exists>u m. grow_atom_array s mem = Some (Some (extend_array m u)) \<and> m \<le> JS_ATOM_MAX
    \<and> length (rt_atom_array u) < m \<and> rt_atom_array u \<noteq> [] \<and> rt_atom_free_index u = 0 \<and> owned_atoms u own
    \<and> (u = s \<and> rt_atom_array s \<noteq> [] \<or> (\<exists>b. rt_atom_array s = [] \<and> mem_null mem = Some b \<and> u = null_entry b s)))"
proof -
  have len: "length (rt_atom_array s) = rt_atom_size s" using ok by (simp add: owned_atoms_def atoms_inv_def sizes_ok_def)
  define m where "m = max 211 (rt_atom_size s * 3 div 2)"
  have bounds: "rt_atom_size s < m" "1 < m" by (auto simp: m_def)
  show ?thesis
  proof (cases "JS_ATOM_MAX < m \<or> \<not> mem_array mem")
    case True
    then show ?thesis using small by (simp add: grow_atom_array_def Let_def m_def [symmetric])
  next
    case max: False
    show ?thesis
    proof (cases "rt_atom_size s = 0")
      case True
      then have empty: "rt_atom_array s = []" using len by simp
      show ?thesis
      proof (cases "mem_null mem")
        case None
        then show ?thesis using small max True by (simp add: grow_atom_array_def Let_def m_def [symmetric])
      next
        case (Some b)
        have m: "m = 211" using True by (simp add: m_def)
        have "grow_atom_array s mem = Some (Some (extend_array m (null_entry b s)))"
          using max True Some by (simp add: grow_atom_array_def Let_def m extend_array_def null_entry_def null_str_def set_str_def)
        moreover have "owned_atoms (null_entry b s) own" using null_entry_spec(1) [OF ok empty fresh [OF Some] full] .
        moreover have "rt_atom_array (null_entry b s) = [AtomPtr b]" "rt_atom_free_index (null_entry b s) = 0" using full by (simp_all add: null_entry_def)
        ultimately show ?thesis using max bounds(2) empty Some
          by (intro disjI2 exI [of _ "null_entry b s"] exI [of _ m]) simp
      qed
    next
      case False
      then have "rt_atom_array s \<noteq> []" using len by auto
      moreover have "grow_atom_array s mem = Some (Some (extend_array m s))"
        using small max False by (simp add: grow_atom_array_def Let_def m_def [symmetric] extend_array_def len)
      ultimately show ?thesis using max bounds(1) full ok len by (intro disjI2 exI [of _ s] exI [of _ m]) simp
    qed
  qed
qed

section \<open>The string of a new atom\<close>

lemma owned_atomsD:
  assumes "owned_atoms s own"
  shows "atoms_inv s" "refs_ok s own" "rt_atom_array s \<noteq> [] \<Longrightarrow> atom_ptr s 0 \<noteq> None"
  using assms by (auto simp: owned_atoms_def)

definition fresh_str :: "js_string \<Rightarrow> jstr" where
  "fresh_str cs = \<lparr>str_ref_count = 1, str_chars = cs, str_hash = 0, str_atom_type = TYPE_NONE, str_hash_next = 0\<rparr>"

lemma fresh_no_ptr: "owned_atoms s own \<Longrightarrow> rt_strings s c = None \<Longrightarrow> \<forall>i. atom_ptr s i \<noteq> Some c"
  using ptrs_ok_str [OF atoms_invD(1) [OF owned_atomsD(1)]] by fastforce

lemma fresh_string:
  assumes ok: "owned_atoms s own" and c: "rt_strings s c = None"
  shows "owned_atoms (set_str c (fresh_str cs) s) (own(c := 1))"
proof -
  define u where "u = set_str c (fresh_str cs) s"
  note I = atoms_invD [OF owned_atomsD(1) [OF ok]]
  note no_ptr = fresh_no_ptr [OF ok c]
  have at: "atom u = atom s" unfolding u_def by (rule atom_set_other [OF no_ptr])
  have fields: "rt_strings u = (rt_strings s)(c \<mapsto> fresh_str cs)" "atom_ptr u = atom_ptr s" "rt_atom_array u = rt_atom_array s"
    "rt_atom_hash u = rt_atom_hash s" "rt_atom_hash_size u = rt_atom_hash_size s" "rt_atom_count u = rt_atom_count s"
    "rt_atom_size u = rt_atom_size s" "rt_atom_count_resize u = rt_atom_count_resize s" "rt_atom_free_index u = rt_atom_free_index s"
    by (simp_all add: u_def)
  have "ptrs_ok u" using I(1) by (simp add: u_def)
  moreover have "typed_ok u" using I(6) no_ptr by (auto simp: typed_ok_def fields fresh_str_def)
  ultimately have "atoms_inv u"
    using I by (simp add: atoms_inv_def entries_ok_def buckets_ok_def free_ok_def unique_atoms_def hash_size_ok_def sizes_ok_def at fields)
  moreover have "refs_ok u (own(c := 1))" unfolding refs_ok_def
  proof
    fix a
    have "const_ref u a = const_ref s a" "\<not> const_ref s c" using no_ptr by (auto simp: const_ref_def fields)
    moreover have "ref_ok (own a) (const_ref s a) (rt_strings s a)" using owned_atomsD(2) [OF ok] by (simp add: refs_ok_def)
    ultimately show "ref_ok ((own(c := 1)) a) (const_ref u a) (rt_strings u a)" by (simp add: fields fresh_str_def)
  qed
  ultimately show ?thesis using owned_atomsD(3) [OF ok] by (simp add: owned_atoms_def fields u_def [symmetric])
qed

text \<open>The reference that the caller gives up, and the strings that outlive it.\<close>

definition release :: "nat option \<Rightarrow> (nat \<Rightarrow> nat) \<Rightarrow> nat \<Rightarrow> nat" where
  "release str own = (case str of None \<Rightarrow> own | Some a \<Rightarrow> own(a := own a - 1))"

definition survives :: "atom_rt \<Rightarrow> (nat \<Rightarrow> nat) \<Rightarrow> nat option \<Rightarrow> nat \<Rightarrow> bool" where
  "survives s own str b = (case str of None \<Rightarrow> True | Some a \<Rightarrow> b \<noteq> a \<or> 1 < own a \<or> const_ref s a)"

definition str_ok :: "atom_rt \<Rightarrow> (nat \<Rightarrow> nat) \<Rightarrow> nat option \<Rightarrow> js_string \<Rightarrow> bool" where
  "str_ok s own str cs = (case str of None \<Rightarrow> cs = Str16 [] | Some a \<Rightarrow> 0 < own a \<and> map_option str_chars (rt_strings s a) = Some cs)"

lemma survives_simps [simp]:
  "survives s own None = (\<lambda>b. True)"
  "survives s own (Some a) = (\<lambda>b. b \<noteq> a \<or> 1 < own a \<or> const_ref s a)"
  by (simp_all add: survives_def fun_eq_iff)

lemma keptD:
  assumes "kept s s' P"
  shows "rt_strings s b = Some p \<Longrightarrow> P b \<Longrightarrow> \<exists>p'. rt_strings s' b = Some p' \<and> str_chars p' = str_chars p
      \<and> (str_atom_type p \<noteq> TYPE_NONE \<longrightarrow> str_atom_type p' = str_atom_type p)"
    "atom_ptr s i = Some b \<Longrightarrow> P b \<Longrightarrow> atom_ptr s' i = Some b"
  using assms unfolding kept_def by blast+

lemma fail_atom_spec:
  assumes ok: "owned_atoms s own" and str: "str_ok s own str cs"
  shows "\<exists>s'. fail_atom s str = Some (0, s') \<and> owned_atoms s' (release str own) \<and> kept s s' (survives s own str)"
proof (cases str)
  case None
  then show ?thesis using ok by (simp add: fail_atom_def release_def kept_refl)
next
  case (Some a)
  then have "0 < own a" using str by (simp add: str_ok_def)
  then obtain s' where "js_free_string s a = Some s'" "owned_atoms s' (own(a := own a - 1))"
    "kept s s' (\<lambda>b. b \<noteq> a \<or> 1 < own a \<or> const_ref s a)" using js_free_string_spec [OF ok] by blast
  then show ?thesis by (simp add: fail_atom_def Some release_def)
qed

text \<open>Every atom of the second state is one of the first.\<close>

definition atoms_from :: "atom_rt \<Rightarrow> atom_rt \<Rightarrow> bool" where
  "atoms_from s s' = (\<forall>i q. atom s' i = Some q \<longrightarrow> str_atom_type q \<noteq> TYPE_SYMBOL
     \<longrightarrow> (\<exists>p. atom s i = Some p \<and> str_atom_type p = str_atom_type q \<and> str_chars p = str_chars q))"

lemma atoms_from_refl: "atoms_from s s"
  by (auto simp: atoms_from_def)

lemma atoms_from_trans: "atoms_from s s' \<Longrightarrow> atoms_from s' s'' \<Longrightarrow> atoms_from s s''"
  unfolding atoms_from_def by metis

lemma shrunk_atoms: "shrunk s s' \<Longrightarrow> atoms_from s s'"
  unfolding shrunk_def atoms_from_def by (metis atom_SomeD atom_at)

lemma shrunk_free:
  assumes "atoms_inv s" "atoms_inv s'" "shrunk s s'" "rt_atom_size s' = rt_atom_size s" "rt_atom_free_index s \<noteq> 0"
  shows "rt_atom_free_index s' \<noteq> 0"
proof -
  obtain js where js: "free_path (rt_atom_array s) (rt_atom_free_index s) js" using atoms_invD(4) [OF assms(1)] by (auto simp: free_ok_def)
  then obtain i n where i: "load (rt_atom_array s) i = Some (AtomFree n)" using assms(5) by (cases js) auto
  then have "i < length (rt_atom_array s')"
    using atoms_invD(8) [OF assms(1)] atoms_invD(8) [OF assms(2)] assms(4) by (auto simp: load_Some_iff sizes_ok_def)
  moreover have "atom_ptr s' i = None" using free_no_ptr [OF i] assms(3) by (cases "atom_ptr s' i") (auto simp: shrunk_def)
  ultimately show ?thesis using free_index_pos [OF assms(2)] by blast
qed

lemma link_atom_retype:
  "rt_strings s a = Some p \<Longrightarrow> link_atom (set_str a (p\<lparr>str_atom_type := t\<rparr>) s) a h h1 t mem = link_atom s a h h1 t mem"
  by (cases s; cases p; cases "t = TYPE_SYMBOL") (simp_all add: link_atom_def Let_def set_str_def cong: if_cong)

text \<open>What the allocator may answer: addresses that are not in use.\<close>

definition mem_ok :: "atom_rt \<Rightarrow> atom_mem \<Rightarrow> bool" where
  "mem_ok s mem = ((\<forall>b. mem_null mem = Some b \<longrightarrow> rt_strings s b = None)
     \<and> (\<forall>c. mem_str mem = Some c \<longrightarrow> rt_strings s c = None \<and> mem_null mem \<noteq> Some c))"

definition room_ok :: "atom_rt \<Rightarrow> bool" where
  "room_ok s = (rt_atom_free_index s = 0 \<longrightarrow> rt_atom_size s * 3 < 2 ^ 31)"

definition ready :: "atom_rt \<Rightarrow> (nat \<Rightarrow> nat) \<Rightarrow> atom_mem \<Rightarrow> atom_rt \<Rightarrow> bool" where
  "ready s own mem g = (owned_atoms g own \<and> rt_atom_free_index g \<noteq> 0 \<and> kept s g (\<lambda>b. True) \<and> atoms_from s g
     \<and> rt_atom_hash_size g = rt_atom_hash_size s \<and> (\<forall>c. mem_str mem = Some c \<longrightarrow> rt_strings g c = None)
     \<and> (\<forall>a. rt_strings s a \<noteq> None \<longrightarrow> rt_strings g a = rt_strings s a \<and> const_ref g a = const_ref s a))"

lemma extend_ready:
  assumes u: "owned_atoms u own" "rt_atom_array u \<noteq> []" "length (rt_atom_array u) < m" "m \<le> JS_ATOM_MAX" "rt_atom_free_index u = 0"
    and k: "kept s u (\<lambda>b. True)" "atoms_from s u" "rt_atom_hash_size u = rt_atom_hash_size s" "\<And>c. mem_str mem = Some c \<Longrightarrow> rt_strings u c = None"
      "\<And>a. rt_strings s a \<noteq> None \<Longrightarrow> rt_strings u a = rt_strings s a \<and> const_ref u a = const_ref s a"
  shows "ready s own mem (extend_array m u)"
proof -
  define g where "g = extend_array m u"
  have ptr: "atom_ptr g = atom_ptr u" and ok: "owned_atoms g own" unfolding g_def using extend_array_spec [OF u] by auto
  have strs: "rt_strings g = rt_strings u" "rt_atom_hash_size g = rt_atom_hash_size u" "rt_atom_free_index g \<noteq> 0"
    using u(2) by (simp_all add: g_def extend_array_def)
  have at: "atom g = atom u" by (simp add: atom_def fun_eq_iff ptr strs)
  have "const_ref g = const_ref u" by (simp add: const_ref_def fun_eq_iff ptr)
  then show ?thesis using k ok unfolding g_def [symmetric] by (simp add: ready_def kept_def atoms_from_def at ptr strs)
qed

lemma grown_spec:
  assumes ok: "owned_atoms s own" and mem: "mem_ok s mem" and room: "room_ok s"
  shows "\<exists>r. (if rt_atom_free_index s = 0 then grow_atom_array s mem else Some (Some s)) = Some r
    \<and> (\<forall>g. r = Some g \<longrightarrow> ready s own mem g)"
proof (cases "rt_atom_free_index s = 0")
  case False
  then show ?thesis using ok mem by (simp add: ready_def kept_refl atoms_from_refl mem_ok_def)
next
  case True
  have small: "rt_atom_size s * 3 < 2 ^ 31" and fresh: "\<And>b. mem_null mem = Some b \<Longrightarrow> rt_strings s b = None"
    using True room mem by (auto simp: room_ok_def mem_ok_def)
  from grow_atom_array_spec [OF ok True small fresh]
  show ?thesis
  proof
    assume "grow_atom_array s mem = Some None"
    then show ?thesis using True by simp
  next
    assume "\<exists>u m. grow_atom_array s mem = Some (Some (extend_array m u)) \<and> m \<le> JS_ATOM_MAX
      \<and> length (rt_atom_array u) < m \<and> rt_atom_array u \<noteq> [] \<and> rt_atom_free_index u = 0 \<and> owned_atoms u own
      \<and> (u = s \<and> rt_atom_array s \<noteq> [] \<or> (\<exists>b. rt_atom_array s = [] \<and> mem_null mem = Some b \<and> u = null_entry b s))"
    then obtain u m where u: "grow_atom_array s mem = Some (Some (extend_array m u))" "m \<le> JS_ATOM_MAX" "length (rt_atom_array u) < m"
      "rt_atom_array u \<noteq> []" "rt_atom_free_index u = 0" "owned_atoms u own"
      "u = s \<or> (\<exists>b. rt_atom_array s = [] \<and> mem_null mem = Some b \<and> u = null_entry b s)" by blast
    from u(7) have "ready s own mem (extend_array m u)"
    proof
      assume [simp]: "u = s"
      show ?thesis using mem by (intro extend_ready [OF u(6,4,3,2,5)]) (auto simp: kept_refl atoms_from_refl mem_ok_def)
    next
      assume "\<exists>b. rt_atom_array s = [] \<and> mem_null mem = Some b \<and> u = null_entry b s"
      then obtain b where b: "rt_atom_array s = []" "mem_null mem = Some b" "u = null_entry b s" by blast
      have none: "rt_strings s b = None" by (rule fresh [OF b(2)])
      have ptr: "atom_ptr u = [0 \<mapsto> b]" unfolding b(3) by (rule null_entry_spec(2) [OF ok b(1) none True])
      have strs: "rt_strings u = (rt_strings s)(b \<mapsto> null_str)" "rt_atom_hash_size u = rt_atom_hash_size s" by (simp_all add: b(3) null_entry_def)
      have no_ptr: "atom_ptr s i = None" for i by (simp add: atom_ptr_def b(1) load_def)
      have at: "atom u = [0 \<mapsto> null_str]" by (auto simp: atom_def fun_eq_iff ptr strs)
      show ?thesis
      proof (rule extend_ready [OF u(6,4,3,2,5)])
        show "kept s u (\<lambda>b. True)" using none by (auto simp: kept_def strs no_ptr)
        show "atoms_from s u" by (auto simp: atoms_from_def at null_str_def)
        show "rt_strings u c = None" if "mem_str mem = Some c" for c using mem that b(2) by (auto simp: mem_ok_def strs)
        show "rt_strings u a = rt_strings s a \<and> const_ref u a = const_ref s a" if "rt_strings s a \<noteq> None" for a
          using that none by (auto simp: strs const_ref_def ptr no_ptr)
      qed (simp add: strs)
    qed
    then show ?thesis using u(1) True by simp
  qed
qed

text \<open>The string that is linked: the given one, or a new one for which the reference is given back.\<close>

lemma atom_string_spec:
  assumes ok: "owned_atoms g own" and free: "rt_atom_free_index g \<noteq> 0" and str: "str_ok g own str cs"
    and fresh: "\<And>c. mem_str mem = Some c \<Longrightarrow> rt_strings g c = None"
  shows "atom_string g str t mem = Some (None, g) \<or> (\<exists>b g2 g3 p. atom_string g str t mem = Some (Some b, g3)
    \<and> (\<forall>h h1 m. link_atom g3 b h h1 t m = link_atom g2 b h h1 t m) \<and> owned_atoms g2 ((release str own)(b := release str own b + 1))
    \<and> rt_strings g2 b = Some p \<and> str_atom_type p = TYPE_NONE \<and> str_chars p = cs \<and> kept g g2 (survives g own str)
    \<and> rt_atom_free_index g2 \<noteq> 0 \<and> rt_atom_hash_size g2 = rt_atom_hash_size g \<and> atoms_from g g2)"
proof (cases str)
  case None
  have cs: "cs = Str16 []" using str by (simp add: str_ok_def None)
  show ?thesis
  proof (cases "mem_str mem")
    case (Some c)
    have c: "rt_strings g c = None" by (rule fresh [OF Some])
    have "own c = 0" by (rule refs_ok_None [OF owned_atomsD(2) [OF ok] c])
    moreover have "kept g (set_str c (fresh_str cs) g) (survives g own str)" using c by (auto simp: kept_def None)
    moreover have "atoms_from g (set_str c (fresh_str cs) g)"
      by (simp add: atoms_from_def atom_set_other [OF fresh_no_ptr [OF ok c]])
    ultimately show ?thesis using fresh_string [OF ok c, of cs] free
      by (intro disjI2 exI [of _ c] exI [of _ "set_str c (fresh_str cs) g"] exI [of _ "fresh_str cs"])
        (simp add: atom_string_def None Some cs fresh_str_def release_def)
  qed (simp add: atom_string_def None)
next
  case (Some a)
  then obtain p where p: "rt_strings g a = Some p" "str_chars p = cs" "0 < own a" using str by (auto simp: str_ok_def)
  show ?thesis
  proof (cases "str_atom_type p = TYPE_NONE")
    case True
    have "(release str own)(a := release str own a + 1) = own" using p(3) by (auto simp: release_def Some fun_eq_iff)
    moreover have "atom_string g str t mem = Some (Some a, set_str a (p\<lparr>str_atom_type := t\<rparr>) g)"
      using True p(1) by (simp add: atom_string_def Some)
    ultimately show ?thesis using ok free p True link_atom_retype [OF p(1)]
      by (intro disjI2 exI [of _ a] exI [of _ g] exI [of _ "set_str a (p\<lparr>str_atom_type := t\<rparr>) g"] exI [of _ p])
        (simp add: kept_refl atoms_from_refl)
  next
    case False
    show ?thesis
    proof (cases "mem_str mem")
      case None
      then show ?thesis using False p(1) by (simp add: atom_string_def Some)
    next
      case mem_c: (Some c)
      have c: "rt_strings g c = None" by (rule fresh [OF mem_c])
      define g1 where "g1 = set_str c (fresh_str cs) g"
      have ca: "c \<noteq> a" using c p(1) by auto
      have own_c: "own c = 0" by (rule refs_ok_None [OF owned_atomsD(2) [OF ok] c])
      have ok1: "owned_atoms g1 (own(c := 1))" unfolding g1_def by (rule fresh_string [OF ok c])
      have own_a: "0 < (own(c := 1)) a" using p(3) ca by simp
      obtain g2 where g2: "js_free_string g1 a = Some g2" "owned_atoms g2 ((own(c := 1))(a := (own(c := 1)) a - 1))"
        "kept g1 g2 (\<lambda>b. b \<noteq> a \<or> 1 < (own(c := 1)) a \<or> const_ref g1 a)" "shrunk g1 g2" "rt_atom_size g2 = rt_atom_size g1"
        "rt_atom_hash_size g2 = rt_atom_hash_size g1"
        using js_free_string_spec [OF ok1 own_a] by blast
      have const: "const_ref g1 a = const_ref g a" by (simp add: const_ref_def g1_def)
      have no_c: "\<forall>i. atom_ptr g i \<noteq> Some c" by (rule fresh_no_ptr [OF ok c])
      obtain q where q: "rt_strings g2 c = Some q" "str_chars q = cs"
        using keptD(1) [OF g2(3), of c "fresh_str cs"] ca by (auto simp: g1_def fresh_str_def)
      obtain q1 where "rt_strings g1 c = Some q1" "str_atom_type q = str_atom_type q1" using g2(4) q(1) unfolding shrunk_def by blast
      then have "str_atom_type q = TYPE_NONE" by (auto simp: g1_def fresh_str_def)
      moreover have "rt_atom_free_index g2 \<noteq> 0"
        using shrunk_free [OF owned_atomsD(1) [OF ok1] owned_atomsD(1) [OF g2(2)] g2(4,5)] free by (simp add: g1_def)
      moreover have "kept g g1 (survives g own str)" using c by (auto simp: kept_def g1_def)
      then have "kept g g2 (survives g own str)"
        using kept_trans kept_mono [OF g2(3)] ca const by (fastforce simp: Some)
      moreover have "atoms_from g g2"
        using shrunk_atoms [OF g2(4)] by (simp add: atoms_from_def g1_def atom_set_other [OF no_c])
      moreover have "(own(c := 1))(a := (own(c := 1)) a - 1) = (release str own)(c := release str own c + 1)"
        using ca own_c by (auto simp: release_def Some fun_eq_iff)
      then have "owned_atoms g2 ((release str own)(c := release str own c + 1))" using g2(2) by simp
      moreover have "atom_string g str t mem = Some (Some c, g2)"
        using g2(1) False p by (simp add: atom_string_def Some mem_c g1_def fresh_str_def)
      ultimately show ?thesis using q g2(6)
        by (intro disjI2 exI [of _ c] exI [of _ g2] exI [of _ g2] exI [of _ q]) (simp add: g1_def)
    qed
  qed
qed

section \<open>Making an atom\<close>

lemma const_index: "i \<le> JS_ATOM_MAX \<Longrightarrow> JS_AtomIsConst (of_nat i) \<longleftrightarrow> i < JS_ATOM_END"
proof -
  assume "i \<le> JS_ATOM_MAX"
  then have "sint (of_nat i :: u32) = int i"
    by (simp add: signed_of_nat signed_take_bit_int_eq_self JS_ATOM_MAX_def)
  then show ?thesis by (simp add: JS_AtomIsConst_def)
qed

text \<open>An atom of type \<open>t\<close> and text \<open>cs\<close>, for which the caller has one more reference unless it is constant.\<close>

definition made :: "atom_rt \<Rightarrow> (nat \<Rightarrow> nat) \<Rightarrow> atom_type \<Rightarrow> js_string \<Rightarrow> nat \<Rightarrow> bool" where
  "made s own t cs i = (i \<noteq> 0 \<and> (\<exists>b p. atom_ptr s i = Some b \<and> rt_strings s b = Some p \<and> str_atom_type p = t
     \<and> js_chars (str_chars p) = js_chars cs \<and> owned_atoms s (own(b := own b + of_bool (JS_ATOM_END \<le> i)))))"

lemma new_atom_entry_spec:
  assumes ok: "owned_atoms s own" and str: "str_ok s own str cs" and mem: "mem_ok s mem" and room: "room_ok s"
    and t: "t \<in> {TYPE_STRING, TYPE_GLOBAL_SYMBOL, TYPE_SYMBOL}"
    and h: "t \<noteq> TYPE_SYMBOL \<Longrightarrow> h = atom_hash t cs \<and> h1 = hash_slot h (rt_atom_hash_size s)"
    and new: "\<And>j q. t \<noteq> TYPE_SYMBOL \<Longrightarrow> atom s j = Some q \<Longrightarrow> str_atom_type q = t \<Longrightarrow> js_chars (str_chars q) \<noteq> js_chars cs"
  shows "\<exists>i s'. new_atom_entry s str h h1 t mem = Some (i, s') \<and> kept s s' (survives s own str)
    \<and> (i = 0 \<and> owned_atoms s' (release str own) \<or> made s' (release str own) t cs i)"
proof -
  obtain r where r: "(if rt_atom_free_index s = 0 then grow_atom_array s mem else Some (Some s)) = Some r"
    "\<And>g. r = Some g \<Longrightarrow> ready s own mem g" using grown_spec [OF ok mem room] by blast
  have failed: ?thesis if "new_atom_entry s str h h1 t mem = fail_atom g str" "owned_atoms g own" "str_ok g own str cs"
      "kept s g (survives s own str)" "survives g own str = survives s own str" for g
    using fail_atom_spec [OF that(2,3)] that(1,5) kept_trans [OF that(4)] by fastforce
  show ?thesis
  proof (cases r)
    case None
    then have "new_atom_entry s str h h1 t mem = fail_atom s str" using r(1) by (simp add: new_atom_entry_def)
    then show ?thesis by (rule failed [OF _ ok str kept_refl refl])
  next
    case (Some g)
    have g: "ready s own mem g" by (rule r(2) [OF Some])
    then have okg: "owned_atoms g own" and free: "rt_atom_free_index g \<noteq> 0" and keptg: "kept s g (\<lambda>b. True)"
      and size: "rt_atom_hash_size g = rt_atom_hash_size s" and src: "atoms_from s g"
      and freshg: "\<And>c. mem_str mem = Some c \<Longrightarrow> rt_strings g c = None"
      and same: "\<And>a. rt_strings s a \<noteq> None \<Longrightarrow> rt_strings g a = rt_strings s a \<and> const_ref g a = const_ref s a"
      by (simp_all add: ready_def)
    have strg: "str_ok g own str cs" using str same by (cases str) (auto simp: str_ok_def)
    have surv: "survives g own str = survives s own str" using str same by (cases str) (auto simp: str_ok_def)
    have keptg': "kept s g (survives s own str)" by (rule kept_mono [OF keptg]) simp
    from atom_string_spec [OF okg free strg freshg, where t = t]
    show ?thesis
    proof
      assume "atom_string g str t mem = Some (None, g)"
      then have "new_atom_entry s str h h1 t mem = fail_atom g str" using r(1) Some by (simp add: new_atom_entry_def)
      then show ?thesis by (rule failed [OF _ okg strg keptg' surv])
    next
      assume "\<exists>b g2 g3 p. atom_string g str t mem = Some (Some b, g3)
        \<and> (\<forall>h h1 m. link_atom g3 b h h1 t m = link_atom g2 b h h1 t m) \<and> owned_atoms g2 ((release str own)(b := release str own b + 1))
        \<and> rt_strings g2 b = Some p \<and> str_atom_type p = TYPE_NONE \<and> str_chars p = cs \<and> kept g g2 (survives g own str)
        \<and> rt_atom_free_index g2 \<noteq> 0 \<and> rt_atom_hash_size g2 = rt_atom_hash_size g \<and> atoms_from g g2"
      then obtain b g2 g3 p where b: "atom_string g str t mem = Some (Some b, g3)"
        "\<And>h h1 m. link_atom g3 b h h1 t m = link_atom g2 b h h1 t m" "owned_atoms g2 ((release str own)(b := release str own b + 1))"
        "rt_strings g2 b = Some p" "str_atom_type p = TYPE_NONE" "str_chars p = cs" "kept g g2 (survives g own str)"
        "rt_atom_free_index g2 \<noteq> 0" "rt_atom_hash_size g2 = rt_atom_hash_size g" "atoms_from g g2" by blast
      define own2 where "own2 = (release str own)(b := release str own b + 1)"
      define i where "i = rt_atom_free_index g2"
      have pos: "0 < own2 b" by (simp add: own2_def)
      have from2: "atoms_from s g2" by (rule atoms_from_trans [OF src b(10)])
      have new2: "js_chars (str_chars q) \<noteq> js_chars (str_chars p)" if "t \<noteq> TYPE_SYMBOL" "atom g2 j = Some q" "str_atom_type q = t" for j q
        using from2 new that unfolding atoms_from_def b(6) by metis
      have h2: "h = atom_hash t (str_chars p) \<and> h1 = hash_slot h (rt_atom_hash_size g2)" if "t \<noteq> TYPE_SYMBOL"
        using h that b(6,9) size by simp
      have "i \<noteq> 0" using b(8) by (simp add: i_def)
      have link: "\<exists>n s'. load (rt_atom_array g2) i = Some (AtomFree n) \<and> link_atom g2 b h h1 t (mem_hash mem) = Some (i, s')
          \<and> owned_atoms s' (own2(b := own2 b - of_bool (i < JS_ATOM_END)))
          \<and> atom_ptr s' = (atom_ptr g2)(i \<mapsto> b) \<and> cores s' = (cores g2)(b \<mapsto> core (p\<lparr>str_hash := h, str_atom_type := t\<rparr>))
          \<and> rt_atom_array s' = (rt_atom_array g2)[i := AtomPtr b] \<and> rt_atom_free_index s' = n \<and> rt_atom_size s' = rt_atom_size g2"
        by (rule link_atom_spec [OF b(3) [folded own2_def] b(4,5) pos i_def [symmetric] \<open>i \<noteq> 0\<close> t]) (use h2 new2 in blast)+
      obtain s' where s': "link_atom g2 b h h1 t (mem_hash mem) = Some (i, s')" "owned_atoms s' (own2(b := own2 b - of_bool (i < JS_ATOM_END)))"
        "atom_ptr s' = (atom_ptr g2)(i \<mapsto> b)" "cores s' = (cores g2)(b \<mapsto> core (p\<lparr>str_hash := h, str_atom_type := t\<rparr>))"
        "rt_atom_array s' = (rt_atom_array g2)[i := AtomPtr b]"
        and n: "\<exists>n. load (rt_atom_array g2) i = Some (AtomFree n)"
        using link by blast
      have none: "atom_ptr g2 i = None" using n free_no_ptr by blast
      have "new_atom_entry s str h h1 t mem = Some (i, s')" using r(1) Some b(1,2) s'(1) by (simp add: new_atom_entry_def)
      moreover have "kept g2 s' (survives s own str)"
      proof (rule kept_cores)
        fix c q assume "rt_strings g2 c = Some q"
        then show "\<exists>q'. cores s' c = Some q' \<and> str_chars q' = str_chars q \<and> (str_atom_type q \<noteq> TYPE_NONE \<longrightarrow> str_atom_type q' = str_atom_type q)"
          using b(4,5) by (cases "c = b") (auto simp: s'(4) cores_def)
      qed (use none in \<open>auto simp: s'(3)\<close>)
      then have "kept s s' (survives s own str)" using kept_trans [OF kept_trans [OF keptg'] ] b(7) surv by simp
      moreover have "made s' (release str own) t cs i"
      proof -
        obtain q where q: "rt_strings s' b = Some q" "core q = core (p\<lparr>str_hash := h, str_atom_type := t\<rparr>)"
          using fun_cong [OF s'(4), of b] by (auto simp: cores_def)
        have "own2(b := own2 b - of_bool (i < JS_ATOM_END)) = (release str own)(b := release str own b + of_bool (JS_ATOM_END \<le> i))"
          by (auto simp: own2_def fun_eq_iff)
        then show ?thesis
          unfolding made_def using s'(2,3) q core_eqD [OF q(2)] b(6,8) by (auto simp: i_def)
      qed
      ultimately show ?thesis by blast
    qed
  qed
qed

end
