(* ===== verification/AtomNum.thy ===== *)
theory AtomNum
  imports Atoms Ntoa
begin

text \<open>
  Array indices as atoms: which strings are numbers, and the integers that an atom holds in its tag.
\<close>

section \<open>Units\<close>

lemma string_units_chars: "map uint (string_units p) = js_chars p"
  by (cases p) (simp_all add: uint_up_ucast is_up)

lemma length_string_units [simp]: "length (string_units p) = js_string_len p"
  by (cases p) auto

section \<open>The loop\<close>

fun num_acc :: "nat \<Rightarrow> u32 list \<Rightarrow> nat option" where
  "num_acc n [] = Some n"
| "num_acc n (c # cs) = (if is_num c \<and> n * 10 + (unat c - 48) < 2 ^ 32 then num_acc (n * 10 + (unat c - 48)) cs else None)"

lemma is_num_bounds: "is_num c \<longleftrightarrow> 48 \<le> unat c \<and> unat c \<le> 57"
  by (simp add: is_num_def word_le_nat_alt)

lemma next_num:
  fixes n :: u32
  assumes "is_num c"
  shows "unat ((ucast n :: u64) * 10 + (ucast c - 48)) = unat n * 10 + (unat c - 48)"
proof -
  have c: "48 \<le> unat c" "unat c \<le> 57" using assms by (simp_all add: is_num_bounds)
  have n: "unat n < 2 ^ 32" using unat_lt2p [of n] by simp
  have uc: "unat (ucast c :: u64) = unat c" and un: "unat (ucast n :: u64) = unat n"
    using unat_lt2p [of c] unat_lt2p [of n] by (simp_all add: unsigned_ucast_eq take_bit_nat_eq_self)
  have "(48 :: u64) \<le> ucast c" using c(1) uc by (simp add: word_le_nat_alt)
  then have d: "unat ((ucast c :: u64) - 48) = unat c - 48" using uc by (simp add: unat_sub)
  have m: "unat ((ucast n :: u64) * 10) = unat n * 10" using n un by (simp add: unat_mult_lem [THEN iffD1])
  show ?thesis using m d n c(2) by (simp add: unat_add_lem [THEN iffD1])
qed

lemma num_string_loop_spec:
  "i + k = js_string_len p \<Longrightarrow> num_string_loop p k i n = Some (map_option of_nat (num_acc (unat n) (drop i (string_units p))))"
proof (induction k arbitrary: i n)
  case (Suc k)
  define c where "c = string_units p ! i"
  have get: "string_get p i = Some c" using Suc.prems by (simp add: string_get_def load_def c_def)
  have step: "drop i (string_units p) = c # drop (Suc i) (string_units p)"
    using Suc.prems by (simp add: c_def Cons_nth_drop_Suc)
  show ?case
  proof (cases "is_num c")
    case True
    define m :: u64 where "m = ucast n * 10 + (ucast c - 48)"
    have m: "unat m = unat n * 10 + (unat c - 48)" unfolding m_def by (rule next_num [OF True])
    have over: "drop_bit 32 m \<noteq> 0 \<longleftrightarrow> \<not> unat m < 2 ^ 32"
      by (simp add: word_unat_eq_iff unat_div drop_bit_eq_div div_eq_0_iff)
    have low: "unat (ucast m :: u32) = unat m" if "unat m < 2 ^ 32"
      using unat_ucast_u64_u32 [OF that] .
    show ?thesis using get True Suc.IH [of "Suc i" "ucast m"] Suc.prems low over unfolding step
      by (simp add: m_def [symmetric] m)
  qed (use get in \<open>simp add: step\<close>)
qed simp

section \<open>Numbers and their digits\<close>

definition horner :: "nat \<Rightarrow> nat list \<Rightarrow> nat" where
  "horner = foldl (\<lambda>v d. v * 10 + d)"

lemma horner_simps [simp]: "horner m [] = m" "horner m (d # ds) = horner (m * 10 + d) ds" "horner m (ds @ [d]) = horner m ds * 10 + d"
  by (simp_all add: horner_def)

lemma horner_ge: "m \<le> horner m ds"
proof (induction ds arbitrary: m)
  case (Cons d ds)
  have "m \<le> m * 10 + d" by simp
  then show ?case using Cons.IH [of "m * 10 + d"] by simp
qed simp

definition digit_of :: "u32 \<Rightarrow> nat" where
  "digit_of c = unat c - 48"

lemma num_acc_step: "num_acc n (c # cs) = (if is_num c \<and> n * 10 + digit_of c < 2 ^ 32 then num_acc (n * 10 + digit_of c) cs else None)"
  by (simp add: digit_of_def)

lemma num_acc_spec:
  "m < 2 ^ 32 \<Longrightarrow> num_acc m cs = Some v \<longleftrightarrow> (\<forall>c\<in>set cs. is_num c) \<and> v = horner m (map digit_of cs) \<and> v < 2 ^ 32"
proof (induction cs arbitrary: m)
  case (Cons c cs)
  show ?case
  proof (cases "m * 10 + digit_of c < 2 ^ 32")
    case True
    then show ?thesis using Cons.IH [OF True] by (auto simp: num_acc_step simp del: num_acc.simps)
  next
    case False
    then have "\<not> horner (m * 10 + digit_of c) (map digit_of cs) < 2 ^ 32" using horner_ge [of "m * 10 + digit_of c" "map digit_of cs"] by linarith
    then show ?thesis using False by (auto simp: num_acc_step simp del: num_acc.simps)
  qed
qed auto

lemma num_digits_horner: "horner 0 (num_digits 10 n) = n"
  using num_digits_value [of 10 n] by (simp add: horner_def)

lemma num_digits_less: "d \<in> set (num_digits 10 n) \<Longrightarrow> d < 10"
proof (induction n rule: less_induct)
  case (less n)
  show ?case
  proof (cases "n < 10")
    case False
    then show ?thesis using less.IH [of "n div 10"] less.prems by (auto simp: num_digits_step)
  qed (use less.prems in \<open>simp add: num_digits_small\<close>)
qed

lemma num_digits_hd: "0 < n \<Longrightarrow> num_digits 10 n \<noteq> [] \<and> 0 < hd (num_digits 10 n)"
proof (induction n rule: less_induct)
  case (less n)
  then show ?case by (cases "n < 10") (auto simp: num_digits_small num_digits_step hd_append)
qed

lemma digits_unique: "ds \<noteq> [] \<Longrightarrow> (\<forall>d\<in>set ds. d < 10) \<Longrightarrow> 0 < hd ds \<Longrightarrow> num_digits 10 (horner 0 ds) = ds \<and> 0 < horner 0 ds"
proof (induction ds rule: rev_induct)
  case (snoc d ds)
  show ?case
  proof (cases "ds = []")
    case False
    then have IH: "num_digits 10 (horner 0 ds) = ds" "0 < horner 0 ds" using snoc by auto
    have "(horner 0 ds * 10 + d) div 10 = horner 0 ds" "(horner 0 ds * 10 + d) mod 10 = d" using snoc.prems(2) by auto
    then show ?thesis using IH by (simp add: num_digits_step)
  qed (use snoc.prems in \<open>simp add: num_digits_small\<close>)
qed simp

definition digit_text :: "nat list \<Rightarrow> int list" where
  "digit_text = map (\<lambda>d. 48 + int d)"

lemma numeral_chars: "map uint (numeral_text 10 n) = digit_text (num_digits 10 n)"
proof -
  have "uint (digits36 ! d) = 48 + int d" if "d \<in> set (num_digits 10 n)" for d
    using num_digits_less [OF that] by (simp add: digits36_10 uint_nat unat_of_nat del: of_nat_add)
  then show ?thesis by (simp add: numeral_text_def digit_text_def)
qed

lemma units_digits: "map uint us = digit_text ds \<Longrightarrow> (\<forall>d\<in>set ds. d < 10) \<Longrightarrow> (\<forall>c\<in>set us. is_num c) \<and> map digit_of us = ds"
  for us :: "u32 list"
proof (induction us arbitrary: ds)
  case (Cons u us)
  then obtain d ds' where ds: "ds = d # ds'" by (cases ds) (auto simp: digit_text_def)
  then have "uint u = 48 + int d" "d < 10" using Cons.prems by (auto simp: digit_text_def)
  then have "unat u = 48 + d" by (simp add: unat_eq_nat_uint)
  then show ?case using Cons ds \<open>d < 10\<close> by (auto simp: digit_text_def is_num_bounds digit_of_def)
qed (simp add: digit_text_def)

lemma digits_units: "(\<forall>c\<in>set us. is_num c) \<Longrightarrow> map uint us = digit_text (map digit_of us) \<and> (\<forall>d\<in>set (map digit_of us). d < 10)"
  for us :: "u32 list"
proof (induction us)
  case (Cons u us)
  then have u: "48 \<le> unat u" "unat u \<le> 57" by (simp_all add: is_num_bounds)
  then have "int (unat u) = 48 + int (digit_of u)" unfolding digit_of_def by linarith
  then have "uint u = 48 + int (digit_of u)" by simp
  then show ?case using Cons u by (auto simp: digit_text_def digit_of_def)
qed (simp add: digit_text_def)

section \<open>Strings that are numbers\<close>

lemma is_num_string_run:
  "is_num_string p = Some (if string_units p = [] \<or> 10 < length (string_units p) \<or> \<not> is_num (hd (string_units p)) then None
     else if hd (string_units p) = 48 then (if length (string_units p) = 1 then Some 0 else None)
     else map_option of_nat (num_acc (digit_of (hd (string_units p))) (tl (string_units p))))"
proof (cases "string_units p")
  case Nil
  then have "js_string_len p = 0" using length_string_units [of p] by simp
  then show ?thesis using Nil by (simp add: is_num_string_def)
next
  case (Cons c cs)
  then have len: "js_string_len p = Suc (length cs)" using length_string_units [of p] by simp
  have get: "string_get p 0 = Some c" using Cons by (simp add: string_get_def load_def)
  have "num_string_loop p (length cs) 1 (c - 48) = Some (map_option of_nat (num_acc (unat (c - 48)) cs))"
    using num_string_loop_spec [of 1 "length cs" p "c - 48"] len Cons by simp
  moreover have "unat (c - 48) = digit_of c" if "is_num c" using that by (simp add: is_num_bounds digit_of_def unat_sub word_le_nat_alt)
  ultimately show ?thesis using get len Cons by (auto simp: is_num_string_def Let_def)
qed

lemma is_num_string_spec:
  "is_num_string p \<noteq> None" "is_num_string p = Some (Some n) \<longleftrightarrow> js_chars p = map uint (numeral_text 10 (unat n))"
proof -
  show "is_num_string p \<noteq> None" by (simp add: is_num_string_run)
  define us where "us = string_units p"
  have chars: "js_chars p = map uint us" by (simp add: us_def string_units_chars)
  show "is_num_string p = Some (Some n) \<longleftrightarrow> js_chars p = map uint (numeral_text 10 (unat n))"
  proof
    assume num: "is_num_string p = Some (Some n)"
    then obtain c cs where us: "us = c # cs" "is_num c"
      by (cases us) (auto simp: is_num_string_run us_def [symmetric] split: if_splits)
    show "js_chars p = map uint (numeral_text 10 (unat n))"
    proof (cases "c = 48")
      case True
      then show ?thesis using num us by (auto simp: is_num_string_run us_def [symmetric] chars numeral_chars num_digits_small digit_text_def split: if_splits)
    next
      case False
      obtain v where v: "num_acc (digit_of c) cs = Some v" "n = of_nat v"
        using num us False by (auto simp: is_num_string_run us_def [symmetric] split: if_splits)
      have d: "digit_of c < 2 ^ 32" "0 < digit_of c" using us(2) False by (auto simp: is_num_bounds digit_of_def word_unat_eq_iff)
      have v': "\<forall>c\<in>set cs. is_num c" "v = horner 0 (map digit_of us)" "v < 2 ^ 32" using num_acc_spec [OF d(1)] v(1) us(1) by auto
      have n: "unat n = v" using v(2) v'(3) by (simp add: unat_of_nat)
      have all: "\<forall>c\<in>set us. is_num c" using v'(1) us by simp
      have "num_digits 10 (unat n) = map digit_of us"
        unfolding n v'(2) using digits_unique [of "map digit_of us"] digits_units [OF all] us(1) d(2) by simp
      then show ?thesis using digits_units [OF all] by (simp add: chars numeral_chars)
    qed
  next
    assume "js_chars p = map uint (numeral_text 10 (unat n))"
    then have us: "\<forall>c\<in>set us. is_num c" "map digit_of us = num_digits 10 (unat n)"
      using units_digits [of us "num_digits 10 (unat n)"] num_digits_less by (auto simp: chars numeral_chars)
    show "is_num_string p = Some (Some n)"
    proof (cases "n = 0")
      case True
      then obtain c where c: "us = [c]" "digit_of c = 0" using us(2) by (auto simp: num_digits_small)
      then have "unat c = 48" using us(1) by (simp add: is_num_bounds digit_of_def)
      then have "c = 48" by (simp add: word_unat_eq_iff)
      then show ?thesis using c True by (simp add: is_num_string_run us_def [symmetric] is_num_def)
    next
      case False
      then have pos: "0 < unat n" by (simp add: unat_gt_0)
      obtain c cs where c: "us = c # cs" using num_digits_hd [OF pos] us(2) by (cases us) auto
      then have hd: "hd (num_digits 10 (unat n)) = digit_of c" using us(2) by (metis list.map(2) list.sel(1))
      then have d: "0 < digit_of c" "is_num c" using num_digits_hd [OF pos] us(1) c by auto
      then have c48: "c \<noteq> 48" by (auto simp: digit_of_def)
      have "length us = length (num_digits 10 (unat n))" using arg_cong [OF us(2), of length] by simp
      moreover have "10 ^ (length (num_digits 10 (unat n)) - 1) \<le> unat n" using num_digits_length_bounds [OF _ pos, of 10] by simp
      moreover have "unat n < 10 ^ 10" using unat_lt2p [of n] by simp
      ultimately have "(10::nat) ^ (length us - 1) < 10 ^ 10" by simp
      then have "length us - 1 < 10" by (rule power_less_imp_less_exp [rotated]) simp
      then have len: "length us \<le> 10" by simp
      have "unat c \<le> 57" using d(2) by (simp add: is_num_bounds)
      then have small: "digit_of c < 2 ^ 32" by (simp add: digit_of_def)
      have "unat n = horner 0 (map digit_of us)" by (simp add: us(2) num_digits_horner)
      then have "num_acc (digit_of c) cs = Some (unat n)" using num_acc_spec [OF small, of cs "unat n"] us(1) c unat_lt2p [of n] by simp
      then show ?thesis using c d c48 len by (simp add: is_num_string_run us_def [symmetric])
    qed
  qed
qed

lemma tag_bit: "bit JS_ATOM_TAG_INT k \<longleftrightarrow> k = 31"
proof -
  have "JS_ATOM_TAG_INT = push_bit 31 1" by (simp add: JS_ATOM_TAG_INT_def push_bit_eq_mult)
  then show ?thesis unfolding \<open>JS_ATOM_TAG_INT = push_bit 31 1\<close> bit_push_bit_iff bit_1_iff by auto
qed

lemma tagged_roundtrip:
  assumes "n \<le> JS_ATOM_MAX_INT"
  shows "JS_AtomToUInt32 (JS_AtomFromUInt32 n) = n" "JS_AtomIsTaggedInt (JS_AtomFromUInt32 n)" "JS_AtomIsConst (JS_AtomFromUInt32 n)"
proof -
  have "unat n < 2 ^ 31" using assms by (simp add: JS_ATOM_MAX_INT_def JS_ATOM_TAG_INT_def word_le_nat_alt)
  then have "take_bit 31 n = n" by (simp add: word_unat_eq_iff unsigned_take_bit_eq take_bit_nat_eq_self)
  then have low: "\<not> bit n 31" by (metis bit_take_bit_iff less_irrefl)
  show "JS_AtomToUInt32 (JS_AtomFromUInt32 n) = n"
  proof (rule bit_eqI)
    fix k show "bit (JS_AtomToUInt32 (JS_AtomFromUInt32 n)) k \<longleftrightarrow> bit n k"
      using low bit_imp_le_length [of n k] by (cases "k = 31") (auto simp: JS_AtomToUInt32_def JS_AtomFromUInt32_def bit_and_iff bit_or_iff bit_not_iff tag_bit)
  qed
  have tag: "bit (JS_AtomFromUInt32 n) 31" by (simp add: JS_AtomFromUInt32_def bit_or_iff tag_bit)
  then have "bit (JS_AtomFromUInt32 n AND JS_ATOM_TAG_INT) 31" by (simp add: bit_and_iff tag_bit)
  then show "JS_AtomIsTaggedInt (JS_AtomFromUInt32 n)" unfolding JS_AtomIsTaggedInt_def by (metis bit_0_eq bot_apply bot_bool_def)
  have "sint (JS_AtomFromUInt32 n) < 0" using tag bit_last_iff [of "JS_AtomFromUInt32 n"] by simp
  then show "JS_AtomIsConst (JS_AtomFromUInt32 n)" by (simp add: JS_AtomIsConst_def)
qed

end
