(* ===== verification/AtomProps.thy ===== *)
theory AtomProps
  imports AtomNew AtomNum
begin

text \<open>
  Interning: what the operations on atoms guarantee to their callers.
\<close>

section \<open>References\<close>

lemma owned_set_ref:
  assumes ok: "owned_atoms s own" and p: "rt_strings s a = Some p" and q: "q = p\<lparr>str_ref_count := str_ref_count p + int m - int n\<rparr>"
    and n: "n \<le> own a + m" "1 \<le> str_ref_count q"
  shows "owned_atoms (set_str a q s) (own(a := own a + m - n))"
proof -
  have "refless q = refless p" by (simp add: q refless_def)
  then have "atoms_inv (set_str a q s)" by (rule atoms_inv_refless [OF owned_atomsD(1) [OF ok] p])
  moreover have "refs_ok (set_str a q s) (own(a := own a + m - n))"
    using refs_ok_set [OF owned_atomsD(2) [OF ok] p _ n] by (simp add: q)
  ultimately show ?thesis using owned_atomsD(3) [OF ok] by (simp add: owned_atoms_def)
qed

lemma kept_set_str:
  assumes "rt_strings s a = Some p" "str_chars q = str_chars p" "str_atom_type q = str_atom_type p"
  shows "kept s (set_str a q s) P"
  using assms by (auto simp: kept_def)

lemma inc_ref_spec:
  assumes ok: "owned_atoms s own" and p: "rt_strings s a = Some p"
  shows "\<exists>s'. inc_ref s a = Some s' \<and> owned_atoms s' (own(a := own a + 1)) \<and> kept s s' (\<lambda>b. True)
    \<and> (\<forall>b. const_ref s' b = const_ref s b) \<and> atom_ptr s' = atom_ptr s"
proof -
  define q where "q = p\<lparr>str_ref_count := str_ref_count p + 1\<rparr>"
  have "owned_atoms (set_str a q s) (own(a := own a + 1 - 0))"
    by (rule owned_set_ref [OF ok p]) (use ref_count_at(2) [OF owned_atomsD(2) [OF ok] p] in \<open>simp_all add: q_def\<close>)
  moreover have "kept s (set_str a q s) (\<lambda>b. True)" by (rule kept_set_str [OF p]) (simp_all add: q_def)
  ultimately show ?thesis by (simp add: inc_ref_def p q_def const_ref_def)
qed

lemma get_index_spec:
  assumes inv: "atoms_inv s" and p: "rt_strings s a = Some p" and typed: "str_atom_type p \<noteq> TYPE_NONE"
  shows "\<exists>i. js_get_atom_index s a = Some i \<and> atom_ptr s i = Some a"
proof -
  note I = atoms_invD [OF inv]
  obtain i where i: "atom_ptr s i = Some a" using I(6) p typed by (auto simp: typed_ok_def)
  have at: "atom s i = Some p" using atom_at [OF i p] .
  then have e: "entry_ok i p" using I(2) by (auto simp: entries_ok_def)
  show ?thesis
  proof (cases "str_atom_type p = TYPE_SYMBOL")
    case True
    then show ?thesis using i e p by (simp add: js_get_atom_index_def entry_ok_def)
  next
    case False
    obtain js where js: "load (rt_atom_hash s) (hash_slot (str_hash p) (rt_atom_hash_size s)) = Some (rt_atom_hash s ! hash_slot (str_hash p) (rt_atom_hash_size s))"
      "chain (atom s) (rt_atom_hash s ! hash_slot (str_hash p) (rt_atom_hash_size s)) js"
      "set js = {i. \<exists>q. atom s i = Some q \<and> in_bucket (rt_atom_hash_size s) (hash_slot (str_hash p) (rt_atom_hash_size s)) q}"
      by (rule bucket_chain [OF I(3,7)])
    have "i \<in> set js" using js(3) at False by (auto simp: in_bucket_def)
    moreover have "length js < length (rt_atom_array s) + 1" using chain_length [OF js(2)] by simp
    ultimately have "atom_index_loop s a (length (rt_atom_array s) + 1) (rt_atom_hash s ! hash_slot (str_hash p) (rt_atom_hash_size s)) = Some i"
      using atom_index_loop_spec [OF js(2) _ _ I(1) i] by blast
    then show ?thesis using False i p js(1) by (simp add: js_get_atom_index_def del: atom_index_loop.simps)
  qed
qed

lemma atom_index_bound:
  assumes "atoms_inv s" "atom_ptr s i = Some a"
  shows "i \<le> JS_ATOM_MAX"
  using atom_ptr_bound [OF assms(2)] atoms_invD(8) [OF assms(1)] by (simp add: sizes_ok_def)

lemma index_pos:
  assumes "atoms_inv s" "atom s i = Some p" "str_atom_type p \<noteq> TYPE_SYMBOL"
  shows "i \<noteq> 0"
  using atoms_invD(2) [OF assms(1)] assms(2,3) by (auto simp: entries_ok_def entry_ok_def)

section \<open>Interning\<close>

definition same_atom :: "atom_type \<Rightarrow> js_string \<Rightarrow> jstr \<Rightarrow> bool" where
  "same_atom t cs p = (str_atom_type p = t \<and> js_chars (str_chars p) = js_chars cs)"

lemma atom_hash_chars: "js_chars cs = js_chars cs' \<Longrightarrow> atom_hash t cs = atom_hash t cs'"
  by (simp add: atom_hash_def hash_string_chars)

lemma find_atom_same:
  assumes inv: "atoms_inv s" and t: "t \<in> {TYPE_STRING, TYPE_GLOBAL_SYMBOL}"
    and h: "h = atom_hash t cs" and i: "i = rt_atom_hash s ! hash_slot h (rt_atom_hash_size s)"
  shows "load (rt_atom_hash s) (hash_slot h (rt_atom_hash_size s)) = Some i"
    and "\<exists>r. find_atom s h t cs (length (rt_atom_array s)) i = Some r
      \<and> (case r of None \<Rightarrow> \<forall>j q. atom s j = Some q \<longrightarrow> \<not> same_atom t cs q | Some j \<Rightarrow> \<exists>q. atom s j = Some q \<and> same_atom t cs q)"
proof -
  note I = atoms_invD [OF inv]
  define P where "P j = (\<exists>p. atom s j = Some p \<and> str_hash p = h \<and> str_atom_type p = t \<and> js_chars (str_chars p) = js_chars cs)" for j
  obtain js where js: "load (rt_atom_hash s) (hash_slot h (rt_atom_hash_size s)) = Some i" "chain (atom s) i js"
    "set js = {j. \<exists>p. atom s j = Some p \<and> in_bucket (rt_atom_hash_size s) (hash_slot h (rt_atom_hash_size s)) p}"
    unfolding i by (rule bucket_chain [OF I(3,7)])
  show "load (rt_atom_hash s) (hash_slot h (rt_atom_hash_size s)) = Some i" by (rule js(1))
  have find: "find_atom s h t cs (length (rt_atom_array s)) i = Some (find P js)"
    using find_atom_spec [OF js(2) chain_length [OF js(2)]] by (simp add: P_def [abs_def])
  have all: "P j \<and> j \<in> set js" if "atom s j = Some q" "same_atom t cs q" for j q
  proof -
    have "entry_ok j q" using I(2) that(1) by (auto simp: entries_ok_def)
    then have "str_hash q = h" using that(2) t atom_hash_chars [of "str_chars q" cs t] by (auto simp: entry_ok_def same_atom_def h)
    then show ?thesis using that t js(3) by (auto simp: P_def same_atom_def in_bucket_def)
  qed
  have "case find P js of None \<Rightarrow> \<forall>j q. atom s j = Some q \<longrightarrow> \<not> same_atom t cs q | Some j \<Rightarrow> \<exists>q. atom s j = Some q \<and> same_atom t cs q"
  proof (cases "find P js")
    case None
    then have "\<not> (P j \<and> j \<in> set js)" for j by (auto simp: find_None_iff)
    then show ?thesis using None all by auto
  next
    case (Some j)
    then have "P j" by (auto simp: find_Some_iff)
    then show ?thesis using Some by (auto simp: P_def same_atom_def)
  qed
  then show "\<exists>r. find_atom s h t cs (length (rt_atom_array s)) i = Some r
      \<and> (case r of None \<Rightarrow> \<forall>j q. atom s j = Some q \<longrightarrow> \<not> same_atom t cs q | Some j \<Rightarrow> \<exists>q. atom s j = Some q \<and> same_atom t cs q)"
    using find by blast
qed

definition new_type :: "atom_type \<Rightarrow> atom_type" where
  "new_type t = (if t = TYPE_PRIVATE then TYPE_SYMBOL else t)"

definition interned :: "atom_rt \<Rightarrow> atom_type \<Rightarrow> js_string \<Rightarrow> bool" where
  "interned s t cs = (t \<noteq> TYPE_SYMBOL \<and> (\<exists>j q. atom s j = Some q \<and> same_atom t cs q))"

text \<open>Outcomes of \<open>__JS_NewAtom\<close>: failure, which takes nothing that is interned, or the atom.\<close>

definition new_atom_ok :: "atom_rt \<Rightarrow> (nat \<Rightarrow> nat) \<Rightarrow> nat option \<Rightarrow> atom_type \<Rightarrow> js_string \<Rightarrow> nat \<Rightarrow> atom_rt \<Rightarrow> bool" where
  "new_atom_ok s own str t cs i s' = (kept s s' (survives s own str)
     \<and> (i = 0 \<and> owned_atoms s' (release str own) \<and> \<not> interned s t cs \<or> made s' (release str own) t cs i))"

lemma reuse_own_atom:
  assumes ok: "owned_atoms s own" and p: "rt_strings s a = Some p" and own: "0 < own a" and t: "str_atom_type p = t" "t \<in> {TYPE_STRING, TYPE_GLOBAL_SYMBOL}"
  shows "\<exists>i. js_get_atom_index s a = Some i \<and> new_atom_ok s own (Some a) t (str_chars p) i
    (if JS_AtomIsConst (of_nat i) then set_str a (p\<lparr>str_ref_count := str_ref_count p - 1\<rparr>) s else s)"
proof -
  note inv = owned_atomsD(1) [OF ok]
  obtain i where i: "js_get_atom_index s a = Some i" "atom_ptr s i = Some a" using get_index_spec [OF inv p] t by auto
  have "i \<noteq> 0" using index_pos [OF inv atom_at [OF i(2) p]] t by auto
  define q where "q = p\<lparr>str_ref_count := str_ref_count p - 1\<rparr>"
  have const: "JS_AtomIsConst (of_nat i) \<longleftrightarrow> i < JS_ATOM_END" by (rule const_index [OF atom_index_bound [OF inv i(2)]])
  define s' where "s' = (if JS_AtomIsConst (of_nat i) then set_str a q s else s)"
  have "kept s s' (survives s own (Some a))"
    unfolding s'_def using kept_set_str [OF p, of q] kept_refl by (auto simp: q_def)
  moreover have "made s' (release (Some a) own) t (str_chars p) i"
  proof (cases "i < JS_ATOM_END")
    case True
    then have "const_ref s a" using i(2) by (auto simp: const_ref_def)
    then have "1 \<le> str_ref_count q" using ref_count_at(1) [OF owned_atomsD(2) [OF ok] p] own by (simp add: q_def)
    then have "owned_atoms (set_str a q s) (own(a := own a + 0 - 1))"
      using own by (intro owned_set_ref [OF ok p]) (simp_all add: q_def)
    then show ?thesis using True const i(2) \<open>i \<noteq> 0\<close> t(1) by (simp add: made_def s'_def release_def q_def)
  next
    case False
    have "own(a := own a - 1, a := own a - 1 + 1) = own" using own by (simp add: fun_eq_iff)
    then show ?thesis using False const i(2) \<open>i \<noteq> 0\<close> t(1) ok p own by (simp add: made_def s'_def release_def)
  qed
  ultimately have "new_atom_ok s own (Some a) t (str_chars p) i s'" by (simp add: new_atom_ok_def)
  then show ?thesis using i(1) by (auto simp: s'_def q_def)
qed

lemma reuse_found_atom:
  assumes ok: "owned_atoms s own" and p: "rt_strings s a = Some p" "str_atom_type p \<noteq> t" and own: "0 < own a"
    and i: "atom s i = Some q" "same_atom t (str_chars p) q" and t: "t \<in> {TYPE_STRING, TYPE_GLOBAL_SYMBOL}"
  shows "\<exists>s' s''. (if \<not> JS_AtomIsConst (of_nat i) then do { b \<leftarrow> atom_ptr s i; inc_ref s b } else Some s) = Some s'
    \<and> js_free_string s' a = Some s'' \<and> new_atom_ok s own (Some a) t (str_chars p) i s''"
proof -
  note inv = owned_atomsD(1) [OF ok]
  obtain b where b: "atom_ptr s i = Some b" "rt_strings s b = Some q" using atom_SomeD [OF i(1)] by blast
  have ba: "b \<noteq> a" using b(2) p i(2) by (auto simp: same_atom_def)
  have "i \<noteq> 0" using index_pos [OF inv i(1)] i(2) t by (auto simp: same_atom_def)
  have const: "JS_AtomIsConst (of_nat i) \<longleftrightarrow> i < JS_ATOM_END" by (rule const_index [OF atom_index_bound [OF inv b(1)]])
  define own1 where "own1 = own(b := own b + of_bool (JS_ATOM_END \<le> i))"
  obtain s' where s': "(if \<not> JS_AtomIsConst (of_nat i) then do { b \<leftarrow> atom_ptr s i; inc_ref s b } else Some s) = Some s'"
    "owned_atoms s' own1" "kept s s' (\<lambda>b. True)" "\<And>c. const_ref s' c = const_ref s c"
  proof (cases "i < JS_ATOM_END")
    case True
    then show thesis using that [of s] ok const by (simp add: own1_def kept_refl)
  next
    case False
    then show thesis using inc_ref_spec [OF ok b(2)] that const b(1) by (auto simp: own1_def)
  qed
  have own_a: "own1 a = own a" using ba by (simp add: own1_def)
  obtain s'' where s'': "js_free_string s' a = Some s''" "owned_atoms s'' (own1(a := own1 a - 1))"
    "kept s' s'' (\<lambda>b. b \<noteq> a \<or> 1 < own1 a \<or> const_ref s' a)" using js_free_string_spec [OF s'(2), of a] own own_a by auto
  have kept: "kept s s'' (survives s own (Some a))"
    using kept_trans [OF kept_mono [OF s'(3)] s''(3)] s'(4) own_a by simp
  then obtain q' where q': "atom_ptr s'' i = Some b" "rt_strings s'' b = Some q'" "str_chars q' = str_chars q" "str_atom_type q' = str_atom_type q"
    using keptD(1) [OF kept b(2)] keptD(2) [OF kept b(1)] ba i(2) t by (auto simp: same_atom_def)
  have "own1(a := own1 a - 1) = (release (Some a) own)(b := release (Some a) own b + of_bool (JS_ATOM_END \<le> i))"
    using ba by (auto simp: own1_def release_def fun_eq_iff)
  then have "made s'' (release (Some a) own) t (str_chars p) i"
    using q' i(2) s''(2) \<open>i \<noteq> 0\<close> by (auto simp: made_def same_atom_def)
  then show ?thesis using s'(1) s''(1) kept unfolding new_atom_ok_def by blast
qed

lemma JS_NewAtom0_spec:
  assumes ok: "owned_atoms s own" and str: "str_ok s own str cs" and mem: "mem_ok s mem" and room: "room_ok s"
    and t: "t \<noteq> TYPE_NONE" "str = None \<Longrightarrow> new_type t = TYPE_SYMBOL"
  shows "\<exists>i s'. JS_NewAtom0 s str t mem = Some (i, s') \<and> new_atom_ok s own str (new_type t) cs i s'"
proof (cases "new_type t = TYPE_SYMBOL")
  case True
  have run: "JS_NewAtom0 s str t mem = new_atom_entry s str (if t = TYPE_SYMBOL then JS_ATOM_HASH_SYMBOL else JS_ATOM_HASH_PRIVATE) 0 TYPE_SYMBOL mem"
    using True by (cases t) (simp_all add: JS_NewAtom0_def new_type_def)
  show ?thesis unfolding run True new_atom_ok_def interned_def
    using new_atom_entry_spec [OF ok str mem room, of TYPE_SYMBOL] by blast
next
  case False
  then have t': "t \<in> {TYPE_STRING, TYPE_GLOBAL_SYMBOL}" "new_type t = t" using t(1) by (cases t; simp add: new_type_def)+
  obtain a where str_a: "str = Some a" using t(2) False by (cases str) auto
  then obtain p where p: "rt_strings s a = Some p" "str_chars p = cs" "0 < own a" using str by (auto simp: str_ok_def)
  note inv = owned_atomsD(1) [OF ok]
  have num: "type_num t < type_num TYPE_SYMBOL" using t'(1) by auto
  show ?thesis
  proof (cases "str_atom_type p = t")
    case True
    then show ?thesis using reuse_own_atom [OF ok p(1,3) True t'(1)] num p(2) by (auto simp: JS_NewAtom0_def str_a p(1) t'(2))
  next
    case other: False
    define h where "h = atom_hash t cs"
    define h1 where "h1 = hash_slot h (rt_atom_hash_size s)"
    define i where "i = rt_atom_hash s ! h1"
    have head: "load (rt_atom_hash s) h1 = Some i" using find_atom_same(1) [OF inv t'(1) h_def] by (simp add: h1_def i_def)
    obtain r where r: "find_atom s h t cs (length (rt_atom_array s)) i = Some r"
      "case r of None \<Rightarrow> \<forall>j q. atom s j = Some q \<longrightarrow> \<not> same_atom t cs q | Some j \<Rightarrow> \<exists>q. atom s j = Some q \<and> same_atom t cs q"
      using find_atom_same(2) [OF inv t'(1) h_def] by (auto simp: h1_def i_def)
    have run: "JS_NewAtom0 s str t mem = (case r of
        Some i \<Rightarrow> do { s \<leftarrow> (if \<not> JS_AtomIsConst (of_nat i) then do { b \<leftarrow> atom_ptr s i; inc_ref s b } else Some s);
                       s \<leftarrow> js_free_string s a; Some (i, s) }
      | None \<Rightarrow> new_atom_entry s str h h1 t mem)"
      using num other head r(1) p(1,2)
      unfolding str_a h1_def unfolding h_def by (simp add: JS_NewAtom0_def Let_def atom_hash_def [symmetric])
    show ?thesis
    proof (cases r)
      case None
      then have new: "\<forall>j q. atom s j = Some q \<longrightarrow> \<not> same_atom t cs q" using r(2) by simp
      obtain i s' where "new_atom_entry s str h h1 t mem = Some (i, s')" "kept s s' (survives s own str)"
        "i = 0 \<and> owned_atoms s' (release str own) \<or> made s' (release str own) t cs i"
        using new_atom_entry_spec [OF ok str mem room, of t h h1] t'(1) new unfolding h1_def h_def same_atom_def by blast
      then show ?thesis using run None new t'(2) unfolding new_atom_ok_def interned_def by auto
    next
      case (Some j)
      then obtain q where "atom s j = Some q" "same_atom t (str_chars p) q" using r(2) p(2) by auto
      then show ?thesis using reuse_found_atom [OF ok p(1) other p(3) _ _ t'(1)] run Some p(2) str_a t'(2) by fastforce
    qed
  qed
qed

section \<open>Duplicating and freeing\<close>

lemma JS_DupAtom_spec:
  assumes ok: "owned_atoms s own" and i: "atom_ptr s i = Some a"
  shows "\<exists>s'. JS_DupAtom s (of_nat i) = Some s' \<and> owned_atoms s' (own(a := own a + of_bool (JS_ATOM_END \<le> i))) \<and> kept s s' (\<lambda>b. True)"
proof -
  note inv = owned_atomsD(1) [OF ok]
  have bound: "i \<le> JS_ATOM_MAX" by (rule atom_index_bound [OF inv i])
  then have unat_i: "unat (of_nat i :: u32) = i" by (simp add: unat_of_nat JS_ATOM_MAX_def)
  obtain p where p: "rt_strings s a = Some p" using ptrs_ok_str [OF atoms_invD(1) [OF inv] i] by blast
  show ?thesis
  proof (cases "i < JS_ATOM_END")
    case True
    then show ?thesis using ok const_index [OF bound] by (simp add: JS_DupAtom_def kept_refl)
  next
    case False
    then show ?thesis using inc_ref_spec [OF ok p] const_index [OF bound] i unat_i by (auto simp: JS_DupAtom_def)
  qed
qed

lemma JS_FreeAtom0_string:
  assumes inv: "atoms_inv s" and i: "atom_ptr s (unat v) = Some a"
  shows "JS_FreeAtom0 s v = js_free_string s a"
proof -
  obtain p where p: "rt_strings s a = Some p" using ptrs_ok_str [OF atoms_invD(1) [OF inv] i] by blast
  then have "str_atom_type p \<noteq> TYPE_NONE" using atoms_invD(6) [OF inv] i by (auto simp: typed_ok_def)
  then show ?thesis by (simp add: JS_FreeAtom0_def js_free_string_def i p Let_def)
qed

lemma freed_when_last:
  assumes "owned_atoms s own" "own a = 0" "\<not> const_ref s a"
  shows "rt_strings s a = None" "atom_ptr s i \<noteq> Some a"
proof -
  show none: "rt_strings s a = None"
    using ref_count_at [OF owned_atomsD(2) [OF assms(1)], of a] assms(2,3) by (cases "rt_strings s a") auto
  show "atom_ptr s i \<noteq> Some a" using fresh_no_ptr [OF assms(1) none] by blast
qed

lemma JS_FreeAtom_spec:
  assumes ok: "owned_atoms s own" and i: "atom_ptr s i = Some a" and own: "JS_ATOM_END \<le> i \<Longrightarrow> 0 < own a"
  shows "\<exists>s'. JS_FreeAtom s (of_nat i) = Some s' \<and> owned_atoms s' (own(a := own a - of_bool (JS_ATOM_END \<le> i)))
    \<and> kept s s' (\<lambda>b. b \<noteq> a \<or> 1 < own a \<or> i < JS_ATOM_END) \<and> (JS_ATOM_END \<le> i \<longrightarrow> own a = 1 \<longrightarrow> atom_ptr s' i = None \<and> rt_strings s' a = None)"
proof -
  note inv = owned_atomsD(1) [OF ok]
  have bound: "i \<le> JS_ATOM_MAX" by (rule atom_index_bound [OF inv i])
  then have unat_i: "unat (of_nat i :: u32) = i" by (simp add: unat_of_nat JS_ATOM_MAX_def)
  show ?thesis
  proof (cases "i < JS_ATOM_END")
    case True
    then show ?thesis using ok const_index [OF bound] by (simp add: JS_FreeAtom_def kept_refl)
  next
    case False
    then have own_a: "0 < own a" using own by simp
    have "atom_ptr s j = Some a \<Longrightarrow> j = i" for j using ptrs_okD [OF atoms_invD(1) [OF inv] i] by blast
    then have const: "\<not> const_ref s a" using False by (auto simp: const_ref_def)
    obtain s' where s': "js_free_string s a = Some s'" "owned_atoms s' (own(a := own a - 1))"
      "kept s s' (\<lambda>b. b \<noteq> a \<or> 1 < own a \<or> const_ref s a)" "\<And>b. const_ref s' b = const_ref s b" "shrunk s s'"
      using js_free_string_spec [OF ok own_a] by blast
    have run: "JS_FreeAtom s (of_nat i) = Some s'"
      using False const_index [OF bound] JS_FreeAtom0_string [OF inv, of "of_nat i" a] i unat_i s'(1) by (simp add: JS_FreeAtom_def)
    have "atom_ptr s' i = None \<and> rt_strings s' a = None" if "own a = 1"
    proof -
      have gone: "rt_strings s' a = None" "atom_ptr s' i \<noteq> Some a"
        using freed_when_last(1) [OF s'(2), of a] freed_when_last(2) [OF s'(2), of a i] that const s'(4) by simp_all
      moreover have "atom_ptr s' i \<noteq> Some b" if "b \<noteq> a" for b using s'(5) i that unfolding shrunk_def by force
      ultimately show ?thesis by (cases "atom_ptr s' i") auto
    qed
    then show ?thesis using run s'(2,3) const False by auto
  qed
qed

section \<open>Looking up without making\<close>

lemma find_atom8_spec:
  "chain (atom s) i js \<Longrightarrow> length js \<le> n \<Longrightarrow>
    find_atom8 s h str n i = Some (find (\<lambda>j. \<exists>p. atom s j = Some p \<and> str_hash p = h \<and> str_atom_type p = TYPE_STRING \<and> str_chars p = Str8 str) js)"
proof (induction js arbitrary: i n)
  case Nil
  then show ?case by (cases n) auto
next
  case (Cons j js)
  obtain p where p: "atom s j = Some p" "chain (atom s) (str_hash_next p) js" "i = j" "j \<noteq> 0" using Cons.prems(1) by auto
  obtain a where a: "atom_ptr s j = Some a" "rt_strings s a = Some p" using atom_SomeD [OF p(1)] by blast
  obtain n' where n: "n = Suc n'" "length js \<le> n'" using Cons.prems(2) by (cases n) auto
  show ?case using Cons.IH [OF p(2) n(2)] p a n(1) by auto
qed

lemma JS_FindAtom_spec:
  assumes ok: "owned_atoms s own"
  shows "\<exists>i s'. JS_FindAtom s str = Some (i, s') \<and> kept s s' (\<lambda>b. True)
    \<and> (i = 0 \<and> s' = s \<and> (\<forall>j q. atom s j = Some q \<longrightarrow> str_atom_type q = TYPE_STRING \<longrightarrow> str_chars q \<noteq> Str8 str) \<or> made s' own TYPE_STRING (Str8 str) i)"
proof -
  note inv = owned_atomsD(1) [OF ok]
  note I = atoms_invD [OF inv]
  define h where "h = atom_hash TYPE_STRING (Str8 str)"
  define P where "P j = (\<exists>p. atom s j = Some p \<and> str_hash p = h \<and> str_atom_type p = TYPE_STRING \<and> str_chars p = Str8 str)" for j
  obtain js where js: "load (rt_atom_hash s) (hash_slot h (rt_atom_hash_size s)) = Some (rt_atom_hash s ! hash_slot h (rt_atom_hash_size s))"
    "chain (atom s) (rt_atom_hash s ! hash_slot h (rt_atom_hash_size s)) js"
    "set js = {j. \<exists>p. atom s j = Some p \<and> in_bucket (rt_atom_hash_size s) (hash_slot h (rt_atom_hash_size s)) p}"
    by (rule bucket_chain [OF I(3,7)])
  have run: "JS_FindAtom s str = (case find P js of None \<Rightarrow> Some (0, s)
      | Some i \<Rightarrow> do { s \<leftarrow> (if \<not> JS_AtomIsConst (of_nat i) then do { b \<leftarrow> atom_ptr s i; inc_ref s b } else Some s); Some (i, s) })"
    using js(1) find_atom8_spec [OF js(2) chain_length [OF js(2)], of h str]
    by (simp add: JS_FindAtom_def Let_def h_def atom_hash_def P_def [abs_def])
  show ?thesis
  proof (cases "find P js")
    case None
    have "str_chars q \<noteq> Str8 str" if "atom s j = Some q" "str_atom_type q = TYPE_STRING" for j q
    proof
      assume q: "str_chars q = Str8 str"
      have "entry_ok j q" using I(2) that(1) by (auto simp: entries_ok_def)
      then have "P j \<and> j \<in> set js" using q that js(3) by (auto simp: P_def entry_ok_def in_bucket_def h_def)
      then show False using None by (auto simp: find_None_iff)
    qed
    then show ?thesis using run None by (simp add: kept_refl)
  next
    case (Some i)
    then have "P i" by (auto simp: find_Some_iff)
    then obtain q where q: "atom s i = Some q" "str_atom_type q = TYPE_STRING" "str_chars q = Str8 str" by (auto simp: P_def)
    obtain b where b: "atom_ptr s i = Some b" "rt_strings s b = Some q" using atom_SomeD [OF q(1)] by blast
    have "i \<noteq> 0" using index_pos [OF inv q(1)] q(2) by simp
    have const: "JS_AtomIsConst (of_nat i) \<longleftrightarrow> i < JS_ATOM_END" by (rule const_index [OF atom_index_bound [OF inv b(1)]])
    show ?thesis
    proof (cases "i < JS_ATOM_END")
      case True
      then show ?thesis using run Some const ok b q \<open>i \<noteq> 0\<close> by (simp add: kept_refl made_def)
    next
      case False
      obtain s' where s': "inc_ref s b = Some s'" "owned_atoms s' (own(b := own b + 1))" "kept s s' (\<lambda>b. True)" "atom_ptr s' = atom_ptr s"
        using inc_ref_spec [OF ok b(2)] by blast
      obtain q' where "rt_strings s' b = Some q'" "str_chars q' = str_chars q" "str_atom_type q' = str_atom_type q"
        using keptD(1) [OF s'(3) b(2)] q(2) by auto
      then have "made s' own TYPE_STRING (Str8 str) i" using s' b q False \<open>i \<noteq> 0\<close> by (simp add: made_def)
      then show ?thesis using run Some const False b(1) s'(1,3) by simp
    qed
  qed
qed

section \<open>Runs\<close>

text \<open>
  What the engine can do with atoms and strings, with the references that it owns. \<open>hold s i own\<close> adds the
  reference that comes with atom \<open>i\<close>.
\<close>

definition hold :: "atom_rt \<Rightarrow> nat \<Rightarrow> (nat \<Rightarrow> nat) \<Rightarrow> nat \<Rightarrow> nat" where
  "hold s i own = (case atom_ptr s i of None \<Rightarrow> own | Some b \<Rightarrow> own(b := own b + of_bool (JS_ATOM_END \<le> i)))"

inductive atom_run :: "atom_rt \<Rightarrow> (nat \<Rightarrow> nat) \<Rightarrow> bool" where
  start: "JS_ResizeAtomHash empty_rt 256 True = Some (True, s) \<Longrightarrow> atom_run s (\<lambda>a. 0)"
| alloc: "atom_run s own \<Longrightarrow> rt_strings s a = None \<Longrightarrow> js_alloc_string_rt s cs (Some a) = (Some a, s') \<Longrightarrow> atom_run s' (own(a := 1))"
| dup_string: "atom_run s own \<Longrightarrow> 0 < own a \<Longrightarrow> inc_ref s a = Some s' \<Longrightarrow> atom_run s' (own(a := own a + 1))"
| free_string: "atom_run s own \<Longrightarrow> 0 < own a \<Longrightarrow> js_free_string s a = Some s' \<Longrightarrow> atom_run s' (own(a := own a - 1))"
| new: "atom_run s own \<Longrightarrow> str_ok s own str cs \<Longrightarrow> mem_ok s mem \<Longrightarrow> room_ok s \<Longrightarrow> t \<noteq> TYPE_NONE \<Longrightarrow>
    (str = None \<Longrightarrow> new_type t = TYPE_SYMBOL) \<Longrightarrow> JS_NewAtom0 s str t mem = Some (i, s') \<Longrightarrow>
    atom_run s' (if i = 0 then release str own else hold s' i (release str own))"
| find: "atom_run s own \<Longrightarrow> JS_FindAtom s str = Some (i, s') \<Longrightarrow> atom_run s' (if i = 0 then own else hold s' i own)"
| dup: "atom_run s own \<Longrightarrow> atom_ptr s i = Some a \<Longrightarrow> JS_DupAtom s (of_nat i) = Some s' \<Longrightarrow> atom_run s' (hold s i own)"
| free: "atom_run s own \<Longrightarrow> atom_ptr s i = Some a \<Longrightarrow> (JS_ATOM_END \<le> i \<Longrightarrow> 0 < own a) \<Longrightarrow> JS_FreeAtom s (of_nat i) = Some s' \<Longrightarrow>
    atom_run s' (own(a := own a - of_bool (JS_ATOM_END \<le> i)))"

definition start_rt :: atom_rt where
  "start_rt = empty_rt\<lparr>rt_atom_hash := replicate 256 0, rt_atom_hash_size := 256, rt_atom_count_resize := 512\<rparr>"

lemma start_eq: "JS_ResizeAtomHash empty_rt 256 True = Some (True, start_rt)"
proof -
  have "(256 :: nat) AND (256 - 1) = 0" using pow_and [of 8] by simp
  then show ?thesis by (simp add: JS_ResizeAtomHash_def empty_rt_def start_rt_def JS_ATOM_COUNT_RESIZE_def)
qed

lemma start_owned: "owned_atoms start_rt (\<lambda>a. 0)"
proof -
  have none: "atom_ptr start_rt = Map.empty" "rt_strings start_rt = Map.empty" "atom start_rt = Map.empty"
    by (auto simp: start_rt_def empty_rt_def atom_ptr_def atom_def load_def fun_eq_iff)
  have fields: "rt_atom_array start_rt = []" "rt_atom_hash start_rt = replicate 256 0" "rt_atom_hash_size start_rt = 2 ^ 8"
    "rt_atom_count_resize start_rt = 512" "rt_atom_free_index start_rt = 0" "rt_atom_size start_rt = 0" "rt_atom_count start_rt = 0"
    by (simp_all add: start_rt_def empty_rt_def)
  have "buckets_ok start_rt" unfolding buckets_ok_def none fields by (auto intro!: exI [of _ "[]"])
  moreover have "free_ok start_rt" unfolding free_ok_def fields by (auto simp: load_def intro!: exI [of _ "[]"])
  moreover have "hash_size_ok start_rt" unfolding hash_size_ok_def fields by (auto simp: JS_ATOM_COUNT_RESIZE_def intro!: exI [of _ 8])
  ultimately show ?thesis
    by (simp add: owned_atoms_def atoms_inv_def ptrs_ok_def entries_ok_def unique_atoms_def typed_ok_def sizes_ok_def refs_ok_def const_ref_def none fields)
qed

lemma made_hold: "made s own t cs i \<Longrightarrow> owned_atoms s (hold s i own)"
  by (auto simp: made_def hold_def)

lemma made_pos: "\<not> made s own t cs 0"
  by (simp add: made_def)

lemma run_owned: "atom_run s own \<Longrightarrow> owned_atoms s own"
proof (induction rule: atom_run.induct)
  case (start s)
  then show ?case using start_eq start_owned by simp
next
  case (alloc s own a cs s')
  then show ?case using fresh_string [of s own a cs] by (auto simp: js_alloc_string_rt_def fresh_str_def fun_upd_def)
next
  case (dup_string s own a s')
  obtain p where p: "rt_strings s a = Some p"
    using refs_ok_None [OF owned_atomsD(2) [OF dup_string(4)], of a] dup_string(2) by (cases "rt_strings s a") auto
  then show ?case using inc_ref_spec [OF dup_string(4) p] dup_string(3) by (auto simp: fun_upd_def)
next
  case (free_string s own a s')
  then show ?case using js_free_string_spec [OF free_string(4,2)] by (auto simp: fun_upd_def)
next
  case (new s own str cs mem t i s')
  then have "new_atom_ok s own str (new_type t) cs i s'"
    using JS_NewAtom0_spec [of s own str cs mem t] by auto
  then show ?case by (cases "i = 0") (auto simp: new_atom_ok_def made_pos dest: made_hold)
next
  case (find s own str i s')
  then show ?case using JS_FindAtom_spec [OF find(3), of str] by (cases "i = 0") (auto simp: made_pos dest: made_hold)
next
  case (dup s own i a s')
  obtain s1 where "JS_DupAtom s (of_nat i) = Some s1" "owned_atoms s1 (own(a := own a + of_bool (JS_ATOM_END \<le> i)))"
    using JS_DupAtom_spec [OF dup(4,2)] by blast
  moreover have "hold s i own = own(a := own a + of_bool (JS_ATOM_END \<le> i))" by (simp only: hold_def dup(2) option.case)
  ultimately show ?case using dup(3) by (metis option.inject)
next
  case (free s own i a s')
  then show ?case using JS_FreeAtom_spec [OF free(5,2,3)] free(4) by (auto simp: fun_upd_def)
qed

section \<open>A run\<close>

definition text_a :: js_string where "text_a = Str8 [97]"

definition run_rt :: "js_string \<Rightarrow> atom_rt" where "run_rt cs = set_str 5 (fresh_str cs) start_rt"

definition run_mem :: atom_mem where
  "run_mem = \<lparr>mem_array = True, mem_null = Some 0, mem_str = None, mem_hash = True\<rparr>"

lemma run_start: "atom_run (run_rt cs) ((\<lambda>a. 0)(5 := 1))"
  by (rule atom_run.alloc [OF atom_run.start [OF start_eq], where cs = cs])
    (simp_all add: start_rt_def empty_rt_def run_rt_def js_alloc_string_rt_def fresh_str_def)

lemma run_str: "str_ok (run_rt cs) ((\<lambda>a. 0)(5 := 1)) (Some 5) cs"
  by (simp add: str_ok_def run_rt_def fresh_str_def)

lemma run_mem_ok: "mem_ok (run_rt cs) run_mem" "room_ok (run_rt cs)"
  by (simp_all add: mem_ok_def room_ok_def run_mem_def run_rt_def start_rt_def empty_rt_def)

lemma run_made: "\<exists>s'. JS_NewAtom0 (run_rt text_a) (Some 5) TYPE_STRING run_mem = Some (1, s')"
proof -
  have "hash_string text_a 1 AND JS_ATOM_HASH_MASK = 360"
    by (simp add: text_a_def hash_string8_def JS_ATOM_HASH_MASK_def)
  moreover have "hash_slot 360 256 = 104" by (simp add: hash_slot_def)
  ultimately show ?thesis
    by (simp add: JS_NewAtom0_def run_rt_def start_rt_def empty_rt_def fresh_str_def load_def new_atom_entry_def grow_atom_array_def Let_def run_mem_def
      JS_ATOM_MAX_def atom_string_def link_atom_def)
qed

lemma run_atom:
  obtains s' where "JS_NewAtom0 (run_rt text_a) (Some 5) TYPE_STRING run_mem = Some (1, s')"
    "atom_run s' (hold s' 1 (release (Some 5) ((\<lambda>a. 0)(5 := 1))))" "\<exists>b. atom_ptr s' 1 = Some b"
proof -
  obtain s' where s': "JS_NewAtom0 (run_rt text_a) (Some 5) TYPE_STRING run_mem = Some (1, s')" using run_made by blast
  have "atom_run s' (if (1::nat) = 0 then release (Some 5) ((\<lambda>a. 0)(5 := 1)) else hold s' 1 (release (Some 5) ((\<lambda>a. 0)(5 := 1))))"
    by (rule atom_run.new [OF run_start run_str run_mem_ok _ _ s']) simp_all
  moreover have "\<exists>b. atom_ptr s' 1 = Some b"
    using JS_NewAtom0_spec [OF run_owned [OF run_start] run_str run_mem_ok, of TYPE_STRING text_a] s' by (auto simp: new_atom_ok_def made_def)
  ultimately show thesis using that s' by simp
qed

section \<open>The properties\<close>

text \<open>
  C5: The table stays consistent in every run: the chains of the hash table hold exactly the
  string atoms of their bucket, the free list exactly the free entries, no two string atoms have the same type
  and text, and the count of every string is the number of its owners.
\<close>

theorem atoms_invariant:
  assumes "atom_run s own"
  shows "atoms_inv s \<and> (\<forall>a. case rt_strings s a of None \<Rightarrow> own a = 0
    | Some p \<Rightarrow> str_ref_count p = int (own a) + of_bool (const_ref s a) \<and> 1 \<le> str_ref_count p)"
proof -
  have ok: "owned_atoms s own" by (rule run_owned [OF assms])
  have "case rt_strings s a of None \<Rightarrow> own a = 0
    | Some p \<Rightarrow> str_ref_count p = int (own a) + of_bool (const_ref s a) \<and> 1 \<le> str_ref_count p" for a
    using refs_ok_None [OF owned_atomsD(2) [OF ok], of a] ref_count_at [OF owned_atomsD(2) [OF ok], of a] by (cases "rt_strings s a") auto
  then show ?thesis using owned_atomsD(1) [OF ok] by blast
qed

theorem atoms_invariant_witness:
  "\<exists>s'. JS_NewAtom0 (run_rt text_a) (Some 5) TYPE_STRING run_mem = Some (1, s') \<and> atoms_inv s'"
proof -
  obtain s' where s': "JS_NewAtom0 (run_rt text_a) (Some 5) TYPE_STRING run_mem = Some (1, s')"
    "atom_run s' (hold s' 1 (release (Some 5) ((\<lambda>a. 0)(5 := 1))))" using run_atom by metis
  then show ?thesis using atoms_invariant [OF s'(2)] by blast
qed

text \<open>
  C3: Interning. In every run, making an atom returns without a fault. It fails only when the
  text is not interned yet, and otherwise gives an atom with the type and the text that were asked for, of which a string atom is the
  only one: two strings get the same atom exactly when they have the same characters, whatever their widths.
\<close>

theorem new_atom_interns:
  assumes run: "atom_run s own" and str: "str_ok s own str cs" and mem: "mem_ok s mem" "room_ok s"
    and t: "t \<noteq> TYPE_NONE" "str = None \<Longrightarrow> new_type t = TYPE_SYMBOL"
  shows "\<exists>i s'. JS_NewAtom0 s str t mem = Some (i, s') \<and> (i = 0 \<longrightarrow> \<not> interned s (new_type t) cs)
    \<and> (i \<noteq> 0 \<longrightarrow> (\<exists>p. atom s' i = Some p \<and> same_atom (new_type t) cs p)
      \<and> (\<forall>j q. new_type t \<noteq> TYPE_SYMBOL \<longrightarrow> atom s' j = Some q \<longrightarrow> same_atom (new_type t) cs q \<longrightarrow> j = i))"
proof -
  obtain i s' where i: "JS_NewAtom0 s str t mem = Some (i, s')" "new_atom_ok s own str (new_type t) cs i s'"
    using JS_NewAtom0_spec [OF run_owned [OF run] str mem t] by blast
  show ?thesis
  proof (cases "i = 0")
    case False
    then obtain b p where p: "atom_ptr s' i = Some b" "rt_strings s' b = Some p" "same_atom (new_type t) cs p" "\<exists>own'. owned_atoms s' own'"
      using i(2) by (auto simp: new_atom_ok_def made_def same_atom_def)
    have "unique_atoms s'" using p(4) owned_atomsD(1) atoms_invD(5) by blast
    then show ?thesis using i(1) False atom_at [OF p(1,2)] p(3) unfolding unique_atoms_def same_atom_def by auto
  qed (use i in \<open>auto simp: new_atom_ok_def made_def\<close>)
qed

theorem new_atom_interns_witness:
  "\<exists>s' p. JS_NewAtom0 (run_rt text_a) (Some 5) TYPE_STRING run_mem = Some (1, s') \<and> atom s' 1 = Some p \<and> same_atom TYPE_STRING text_a p"
proof -
  obtain s' where s': "JS_NewAtom0 (run_rt text_a) (Some 5) TYPE_STRING run_mem = Some (1, s')" using run_made by blast
  obtain i t where t: "JS_NewAtom0 (run_rt text_a) (Some 5) TYPE_STRING run_mem = Some (i, t)"
    "i \<noteq> 0 \<longrightarrow> (\<exists>p. atom t i = Some p \<and> same_atom (new_type TYPE_STRING) text_a p)"
    using new_atom_interns [OF run_start run_str run_mem_ok, of TYPE_STRING text_a] by auto
  then have "i = 1" "t = s'" using s' by simp_all
  then show ?thesis using t by (auto simp: new_type_def)
qed

text \<open>
  C14: Freeing an atom that a caller holds is never a fault, and no other atom
  notices: all that have owners, and the constant ones, keep index, type and text. The last reference frees the
  string and makes the entry free.
\<close>

theorem free_atom_keeps_others:
  assumes run: "atom_run s own" and j: "atom_ptr s j = Some b" "JS_ATOM_END \<le> j \<Longrightarrow> 0 < own b"
  shows "\<exists>s'. JS_FreeAtom s (of_nat j) = Some s'
    \<and> (\<forall>i p. atom s i = Some p \<longrightarrow> i \<noteq> j \<or> 1 < own b \<or> j < JS_ATOM_END \<longrightarrow>
        (\<exists>q. atom s' i = Some q \<and> same_atom (str_atom_type p) (str_chars p) q))
    \<and> (JS_ATOM_END \<le> j \<and> own b = 1 \<longrightarrow> atom_ptr s' j = None \<and> rt_strings s' b = None)"
proof -
  have ok: "owned_atoms s own" by (rule run_owned [OF run])
  obtain s' where s': "JS_FreeAtom s (of_nat j) = Some s'" "kept s s' (\<lambda>c. c \<noteq> b \<or> 1 < own b \<or> j < JS_ATOM_END)"
    "JS_ATOM_END \<le> j \<longrightarrow> own b = 1 \<longrightarrow> atom_ptr s' j = None \<and> rt_strings s' b = None" using JS_FreeAtom_spec [OF ok j] by blast
  have "\<exists>q. atom s' i = Some q \<and> same_atom (str_atom_type p) (str_chars p) q"
    if p: "atom s i = Some p" "i \<noteq> j \<or> 1 < own b \<or> j < JS_ATOM_END" for i p
  proof -
    obtain a where a: "atom_ptr s i = Some a" "rt_strings s a = Some p" using atom_SomeD [OF p(1)] by blast
    have "str_atom_type p \<noteq> TYPE_NONE" using atoms_invD(6) [OF owned_atomsD(1) [OF ok]] a by (auto simp: typed_ok_def)
    moreover have "a \<noteq> b \<or> 1 < own b \<or> j < JS_ATOM_END"
      using p(2) ptrs_okD [OF atoms_invD(1) [OF owned_atomsD(1) [OF ok]] a(1), of j] j(1) by auto
    ultimately show ?thesis
      using keptD(1) [OF s'(2) a(2)] keptD(2) [OF s'(2) a(1)] by (auto simp: same_atom_def intro: atom_at)
  qed
  then show ?thesis using s' by blast
qed

theorem free_atom_keeps_others_witness:
  "\<exists>s' s''. JS_NewAtom0 (run_rt text_a) (Some 5) TYPE_STRING run_mem = Some (1, s') \<and> JS_FreeAtom s' 1 = Some s''"
proof -
  obtain s' b where s': "JS_NewAtom0 (run_rt text_a) (Some 5) TYPE_STRING run_mem = Some (1, s')"
    "atom_run s' (hold s' 1 (release (Some 5) ((\<lambda>a. 0)(5 := 1))))" "atom_ptr s' 1 = Some b" using run_atom by metis
  show ?thesis using free_atom_keeps_others [OF s'(2,3)] s'(1) by (auto simp: JS_ATOM_END_def)
qed

text \<open>
  C19: Array indices. A string that is the decimal numeral of some \<open>n\<close> up to \<open>2 ^ 31 - 1\<close> gives the
  atom that holds \<open>n\<close> itself, from which \<open>n\<close> is read back, and the string is released; every other string is interned.
\<close>

theorem new_atom_str_index:
  assumes run: "atom_run s own" and a: "str_ok s own (Some a) cs" and mem: "mem_ok s mem" "room_ok s"
  shows "\<exists>v s'. JS_NewAtomStr s a mem = Some (v, s')
    \<and> (\<forall>n\<le>JS_ATOM_MAX_INT. js_chars cs = map uint (numeral_text 10 (unat n)) \<longrightarrow>
         JS_AtomIsTaggedInt v \<and> JS_AtomToUInt32 v = n \<and> owned_atoms s' (own(a := own a - 1)))
    \<and> ((\<forall>n\<le>JS_ATOM_MAX_INT. js_chars cs \<noteq> map uint (numeral_text 10 (unat n))) \<longrightarrow>
         (\<exists>i. v = of_nat i \<and> new_atom_ok s own (Some a) TYPE_STRING cs i s'))"
proof -
  have ok: "owned_atoms s own" by (rule run_owned [OF run])
  obtain p where p: "rt_strings s a = Some p" "str_chars p = cs" "0 < own a" using a by (auto simp: str_ok_def)
  obtain i s' where i: "JS_NewAtom0 s (Some a) TYPE_STRING mem = Some (i, s')" "new_atom_ok s own (Some a) TYPE_STRING cs i s'"
    using JS_NewAtom0_spec [OF ok a mem, of TYPE_STRING] by (auto simp: new_type_def)
  obtain s1 where s1: "js_free_string s a = Some s1" "owned_atoms s1 (own(a := own a - 1))" using js_free_string_spec [OF ok p(3)] by blast
  obtain num where num: "is_num_string cs = Some num" using is_num_string_spec(1) by blast
  have number: "num = Some n \<longleftrightarrow> js_chars cs = map uint (numeral_text 10 (unat n))" for n
    using is_num_string_spec(2) [of cs n] num by simp
  show ?thesis
  proof (cases "\<exists>n\<le>JS_ATOM_MAX_INT. num = Some n")
    case True
    then obtain n where n: "n \<le> JS_ATOM_MAX_INT" "num = Some n" by blast
    then have "JS_NewAtomStr s a mem = Some (JS_AtomFromUInt32 n, s1)" using num s1(1) p by (simp add: JS_NewAtomStr_def)
    moreover have text_n: "js_chars cs = map uint (numeral_text 10 (unat m)) \<longleftrightarrow> m = n" for m using number [of m] n(2) by auto
    ultimately show ?thesis using tagged_roundtrip [OF n(1)] s1(2) n(1) unfolding text_n by blast
  next
    case False
    then have "JS_NewAtomStr s a mem = Some (of_nat i, s')" using num i(1) p by (cases num) (auto simp: JS_NewAtomStr_def)
    moreover have "js_chars cs \<noteq> map uint (numeral_text 10 (unat n))" if "n \<le> JS_ATOM_MAX_INT" for n using False number that by blast
    ultimately show ?thesis using i(2) by blast
  qed
qed

theorem new_atom_str_index_witness:
  "\<exists>v s'. JS_NewAtomStr (run_rt (Str8 [52, 50])) 5 run_mem = Some (v, s') \<and> JS_AtomToUInt32 v = 42"
proof -
  have "js_chars (Str8 [52, 50]) = map uint (numeral_text 10 (unat (42 :: u32)))"
    by (simp add: numeral_text_def num_digits.simps [of 10] digits36_10)
  moreover have "(42 :: u32) \<le> JS_ATOM_MAX_INT" by (simp add: JS_ATOM_MAX_INT_def JS_ATOM_TAG_INT_def)
  ultimately show ?thesis using new_atom_str_index [OF run_start run_str run_mem_ok, of "Str8 [52, 50]"] by blast
qed

end
