(* ===== verification/AtomInit.thy ===== *)
theory AtomInit
  imports AtomProps
begin

text \<open>
  The predefined atoms: \<^verbatim>\<open>JS_InitAtoms\<close> gives every string of the table the number that the engine's
  constants have for it.
\<close>

section \<open>The names\<close>

lemma names_length: "length js_atom_strings = 209" "length js_atom_init = 223"
proof -
  show strings: "length js_atom_strings = 209" unfolding js_atom_strings_def length_append by simp
  show "length js_atom_init = 223" unfolding js_atom_init_def length_append strings by simp
qed

text \<open>The names differ because their fingerprints do.\<close>

definition fingerprint :: "string \<Rightarrow> int" where
  "fingerprint = foldl (\<lambda>k c. k * 32 + of_char c) 0"

lemma names_distinct: "distinct js_atom_strings"
proof -
  have "distinct (map fingerprint js_atom_strings)" unfolding js_atom_strings_def map_append fingerprint_def by simp
  then show ?thesis by (simp add: distinct_map)
qed

text \<open>The text of predefined atom \<open>i\<close>.\<close>

definition name_text :: "nat \<Rightarrow> js_string" where
  "name_text i = Str8 (map of_char (js_atom_init ! (i - 1)))"

lemma unat_of_char: "unat (of_char c :: u8) = of_char c"
proof -
  have "(of_char c :: u8) = of_nat (of_char c)" by (rule of_nat_of_char [symmetric])
  then show ?thesis by (simp add: unat_of_nat del: of_nat_of_char)
qed

lemma of_char_u8_inj: "inj (of_char :: char \<Rightarrow> u8)"
  by (rule injI) (metis unat_of_char char_of_char)

lemma name_text_inj:
  assumes ij: "0 < i" "i < 210" "0 < j" "j < 210" and eq: "js_chars (name_text i) = js_chars (name_text j)"
  shows "i = j"
proof -
  have "map uint (map of_char (js_atom_init ! (i - 1)) :: u8 list) = map uint (map of_char (js_atom_init ! (j - 1)) :: u8 list)"
    using eq by (simp add: name_text_def)
  then have "(map of_char (js_atom_init ! (i - 1)) :: u8 list) = map of_char (js_atom_init ! (j - 1))"
    by (rule map_injective) (simp add: inj_def word_uint_eq_iff)
  then have "js_atom_init ! (i - 1) = js_atom_init ! (j - 1)" by (rule map_injective) (rule of_char_u8_inj)
  moreover have "i - 1 < length js_atom_strings" "j - 1 < length js_atom_strings" using ij by (simp_all add: names_length)
  ultimately have "js_atom_strings ! (i - 1) = js_atom_strings ! (j - 1)" unfolding js_atom_init_def by (simp add: nth_append)
  then have "i - 1 = j - 1" using ij by (subst (asm) nth_eq_iff_index_eq [OF names_distinct]) (simp_all add: names_length)
  then show ?thesis using ij by simp
qed

section \<open>A table in order\<close>

text \<open>The atoms below \<open>i\<close> are made, and the free entries follow in order.\<close>

definition in_order :: "nat \<Rightarrow> atom_rt \<Rightarrow> bool" where
  "in_order i s = ((rt_atom_array s = [] \<longrightarrow> i = 1) \<and> (rt_atom_array s \<noteq> [] \<longrightarrow> i \<le> length (rt_atom_array s))
     \<and> length (rt_atom_array s) \<le> 211 + 2 * i \<and> rt_atom_free_index s = (if i < length (rt_atom_array s) then i else 0)
     \<and> (\<forall>j. i \<le> j \<longrightarrow> j < length (rt_atom_array s) \<longrightarrow>
          load (rt_atom_array s) j = Some (AtomFree (if j = length (rt_atom_array s) - 1 then 0 else j + 1))))"

definition named_below :: "nat \<Rightarrow> atom_rt \<Rightarrow> bool" where
  "named_below i s = (\<forall>j. 0 < j \<longrightarrow> j < i \<longrightarrow> (\<exists>p. atom s j = Some p \<and> same_atom (new_type (init_type j)) (name_text j) p))"

definition init_inv :: "nat \<Rightarrow> atom_rt \<Rightarrow> bool" where
  "init_inv i s = (owned_atoms s (\<lambda>a. 0) \<and> in_order i s \<and> named_below i s)"

lemma in_order_none: "in_order i s \<Longrightarrow> i \<le> j \<Longrightarrow> atom_ptr s j = None"
  using free_no_ptr [of s j] by (cases "j < length (rt_atom_array s)") (auto simp: in_order_def atom_ptr_def load_def)

text \<open>What is not yet made is not interned.\<close>

lemma not_interned:
  assumes s: "init_inv i s" and i: "0 < i" "i < 210" and q: "atom s j = Some q" "same_atom TYPE_STRING (name_text i) q"
  shows False
proof -
  have inv: "atoms_inv s" using s by (simp add: init_inv_def owned_atoms_def)
  have "j \<noteq> 0" using index_pos [OF inv q(1)] q(2) by (auto simp: same_atom_def)
  moreover have "j < i"
  proof (rule ccontr)
    assume "\<not> j < i"
    then have "atom_ptr s j = None" using s in_order_none [of i s j] by (simp add: init_inv_def)
    then show False using q(1) by (simp add: atom_def)
  qed
  ultimately obtain p where "atom s j = Some p" "same_atom (new_type (init_type j)) (name_text j) p"
    using s unfolding init_inv_def named_below_def by blast
  then have "same_atom (new_type (init_type j)) (name_text j) q" using q(1) by simp
  then have "js_chars (name_text i) = js_chars (name_text j)" using q(2) by (simp add: same_atom_def)
  then show False using name_text_inj [of i j] i \<open>j \<noteq> 0\<close> \<open>j < i\<close> by simp
qed

section \<open>One step\<close>

lemma const_of_small: "owned_atoms s own \<Longrightarrow> atom_ptr s i = Some b \<Longrightarrow> i < JS_ATOM_END \<Longrightarrow> const_ref s b"
  by (auto simp: const_ref_def)

lemma grown_size: "grow_atom_array s mem = Some (Some g) \<Longrightarrow> rt_atom_size g = max 211 (rt_atom_size s * 3 div 2)"
  by (auto simp: grow_atom_array_def Let_def split: if_splits option.splits)

text \<open>Growing keeps the order.\<close>

lemma grown_in_order:
  assumes ok: "owned_atoms s own" and order: "in_order i s" and i: "0 < i" and mem: "mem_ok s mem" and small: "rt_atom_size s * 3 < 2 ^ 31"
  shows "(if rt_atom_free_index s = 0 then grow_atom_array s mem else Some (Some s)) = Some None
    \<or> (\<exists>g. (if rt_atom_free_index s = 0 then grow_atom_array s mem else Some (Some s)) = Some (Some g)
      \<and> ready s own mem g \<and> in_order i g \<and> rt_atom_free_index g = i \<and> (\<forall>j. 0 < j \<longrightarrow> atom_ptr g j = atom_ptr s j)
      \<and> (\<forall>b. rt_strings g b \<noteq> None \<longrightarrow> rt_strings s b \<noteq> None \<or> mem_null mem = Some b))"
proof (cases "rt_atom_free_index s = 0")
  case False
  then have "rt_atom_free_index s = i" using order by (auto simp: in_order_def split: if_splits)
  then show ?thesis using False order ok mem by (simp add: ready_def kept_refl atoms_from_refl mem_ok_def)
next
  case True
  have room: "room_ok s" using small by (simp add: room_ok_def)
  have fresh: "\<And>b. mem_null mem = Some b \<Longrightarrow> rt_strings s b = None" using mem by (simp add: mem_ok_def)
  obtain r where r: "grow_atom_array s mem = Some r" "\<And>g. r = Some g \<Longrightarrow> ready s own mem g" using grown_spec [OF ok mem room] True by auto
  show ?thesis
  proof (cases r)
    case None
    then show ?thesis using True r(1) by simp
  next
    case (Some g)
    obtain u m where u: "g = extend_array m u" "length (rt_atom_array u) < m" "rt_atom_array u \<noteq> []" "owned_atoms u own" "m \<le> JS_ATOM_MAX"
      "rt_atom_free_index u = 0" "u = s \<and> rt_atom_array s \<noteq> [] \<or> (\<exists>b. rt_atom_array s = [] \<and> mem_null mem = Some b \<and> u = null_entry b s)"
      using grow_atom_array_spec [OF ok True small, of mem, OF fresh] r(1) Some by auto
    have len: "length (rt_atom_array u) = i" using u(7) True order i by (auto simp: in_order_def null_entry_def split: if_splits)
    have array: "rt_atom_array g = rt_atom_array u @ map (\<lambda>i. AtomFree (if i = m - 1 then 0 else i + 1)) [i..<m]" "rt_atom_free_index g = i"
      by (simp_all add: u(1) extend_array_def len)
    have sizes: "sizes_ok s" "sizes_ok g" using ok r(2) [OF Some] by (auto simp: ready_def owned_atoms_def atoms_inv_def)
    then have "length (rt_atom_array g) = max 211 (length (rt_atom_array s) * 3 div 2)"
      using grown_size [of s mem g] r(1) Some by (simp add: sizes_ok_def)
    moreover have "length (rt_atom_array s) \<le> i" using u(7) len by auto
    ultimately have small: "length (rt_atom_array g) \<le> 211 + 2 * i" by simp
    have strs: "rt_strings s b \<noteq> None \<or> mem_null mem = Some b" if "rt_strings g b \<noteq> None" for b
      using u(7) that by (auto simp: u(1) extend_array_def null_entry_def split: if_splits)
    have "in_order i g" using u(2) len small by (auto simp: in_order_def array load_def nth_append)
    moreover have "atom_ptr g j = atom_ptr s j" if "0 < j" for j
    proof -
      have "atom_ptr g = atom_ptr u" unfolding u(1) by (rule extend_array_spec(2) [OF u(4,3,2,5,6)])
      moreover have "atom_ptr u j = atom_ptr s j" using u(7) that by (auto simp: atom_ptr_def null_entry_def load_def)
      ultimately show ?thesis by simp
    qed
    ultimately show ?thesis using True r Some array(2) strs by auto
  qed
qed

text \<open>Atom \<open>i\<close> is made from the string, and the atoms before it are as they were.\<close>

definition step_done :: "nat \<Rightarrow> atom_rt \<Rightarrow> (nat \<Rightarrow> nat) \<Rightarrow> atom_mem \<Rightarrow> atom_type \<Rightarrow> js_string \<Rightarrow> atom_rt \<Rightarrow> bool" where
  "step_done i s own mem t cs s' = (owned_atoms s' own \<and> in_order (i + 1) s' \<and> (\<exists>p. atom s' i = Some p \<and> same_atom t cs p)
     \<and> (\<forall>j p. 0 < j \<longrightarrow> j \<noteq> i \<longrightarrow> atom s j = Some p \<longrightarrow> (\<exists>q. atom s' j = Some q \<and> str_atom_type q = str_atom_type p \<and> str_chars q = str_chars p))
     \<and> (\<forall>b. rt_strings s' b \<noteq> None \<longrightarrow> rt_strings s b \<noteq> None \<or> mem_null mem = Some b))"

text \<open>The string is new, so it becomes the atom itself.\<close>

lemma new_entry_in_order:
  assumes ok: "owned_atoms s (own(a := 1))" and a: "rt_strings s a = Some (fresh_str cs)" and order: "in_order i s" and i: "0 < i" "i < JS_ATOM_END"
    and mem: "mem_ok s mem" and small: "rt_atom_size s * 3 < 2 ^ 31" and t: "t \<in> {TYPE_STRING, TYPE_GLOBAL_SYMBOL, TYPE_SYMBOL}"
    and h: "t \<noteq> TYPE_SYMBOL \<Longrightarrow> h = atom_hash t cs \<and> h1 = hash_slot h (rt_atom_hash_size s)"
    and new: "\<And>j q. t \<noteq> TYPE_SYMBOL \<Longrightarrow> atom s j = Some q \<Longrightarrow> \<not> same_atom t cs q"
  shows "\<exists>k s'. new_atom_entry s (Some a) h h1 t mem = Some (k, s')
    \<and> (k = 0 \<or> k = i \<and> step_done i s (own(a := 0)) mem t cs s')"
proof -
  have str: "str_ok s (own(a := 1)) (Some a) cs" by (simp add: str_ok_def a fresh_str_def)
  from grown_in_order [OF ok order i(1) mem small]
  show ?thesis
  proof
    assume "(if rt_atom_free_index s = 0 then grow_atom_array s mem else Some (Some s)) = Some None"
    then have "new_atom_entry s (Some a) h h1 t mem = fail_atom s (Some a)" by (simp add: new_atom_entry_def)
    then show ?thesis using fail_atom_spec [OF ok str] by auto
  next
    assume "\<exists>g. (if rt_atom_free_index s = 0 then grow_atom_array s mem else Some (Some s)) = Some (Some g)
      \<and> ready s (own(a := 1)) mem g \<and> in_order i g \<and> rt_atom_free_index g = i \<and> (\<forall>j. 0 < j \<longrightarrow> atom_ptr g j = atom_ptr s j)
      \<and> (\<forall>b. rt_strings g b \<noteq> None \<longrightarrow> rt_strings s b \<noteq> None \<or> mem_null mem = Some b)"
    then obtain g where g: "(if rt_atom_free_index s = 0 then grow_atom_array s mem else Some (Some s)) = Some (Some g)"
      "ready s (own(a := 1)) mem g" "in_order i g" "rt_atom_free_index g = i" "\<And>j. 0 < j \<Longrightarrow> atom_ptr g j = atom_ptr s j"
      "\<And>b. rt_strings g b \<noteq> None \<Longrightarrow> rt_strings s b \<noteq> None \<or> mem_null mem = Some b" by blast
    define p where "p = fresh_str cs"
    have p: "rt_strings g a = Some p" "str_atom_type p = TYPE_NONE" "str_chars p = cs"
      using g(2) a by (auto simp: ready_def p_def fresh_str_def)
    have okg: "owned_atoms g (own(a := 1))" using g(2) by (simp add: ready_def)
    have run: "new_atom_entry s (Some a) h h1 t mem = link_atom g a h h1 t (mem_hash mem)"
      using g(1) p link_atom_retype [OF p(1), of t h h1 "mem_hash mem"] by (simp add: new_atom_entry_def atom_string_def)
    have hg: "h = atom_hash t (str_chars p) \<and> h1 = hash_slot h (rt_atom_hash_size g)" if "t \<noteq> TYPE_SYMBOL"
      using h [OF that] g(2) p(3) by (simp add: ready_def)
    have newg: "js_chars (str_chars q) \<noteq> js_chars (str_chars p)" if "t \<noteq> TYPE_SYMBOL" "atom g j = Some q" "str_atom_type q = t" for j q
      using g(2) new that unfolding ready_def atoms_from_def p(3) same_atom_def by metis
    have own1: "0 < (own(a := 1)) a" by simp
    have link: "\<exists>n s'. load (rt_atom_array g) i = Some (AtomFree n) \<and> link_atom g a h h1 t (mem_hash mem) = Some (i, s')
        \<and> owned_atoms s' ((own(a := 1))(a := (own(a := 1)) a - of_bool (i < JS_ATOM_END)))
        \<and> atom_ptr s' = (atom_ptr g)(i \<mapsto> a) \<and> cores s' = (cores g)(a \<mapsto> core (p\<lparr>str_hash := h, str_atom_type := t\<rparr>))
        \<and> rt_atom_array s' = (rt_atom_array g)[i := AtomPtr a] \<and> rt_atom_free_index s' = n \<and> rt_atom_size s' = rt_atom_size g"
      by (rule link_atom_spec [OF okg p(1,2) own1 g(4) _ t]) (use hg newg i(1) in blast)+
    then obtain n s' where s': "load (rt_atom_array g) i = Some (AtomFree n)" "link_atom g a h h1 t (mem_hash mem) = Some (i, s')"
      "owned_atoms s' ((own(a := 1))(a := (own(a := 1)) a - of_bool (i < JS_ATOM_END)))"
      "atom_ptr s' = (atom_ptr g)(i \<mapsto> a)" "cores s' = (cores g)(a \<mapsto> core (p\<lparr>str_hash := h, str_atom_type := t\<rparr>))"
      "rt_atom_array s' = (rt_atom_array g)[i := AtomPtr a]" "rt_atom_free_index s' = n" by blast
    have ib: "i < length (rt_atom_array g)" using s'(1) by (auto simp: load_def split: if_splits)
    have "n = (if i = length (rt_atom_array g) - 1 then 0 else i + 1)" using g(3) ib s'(1) by (auto simp: in_order_def)
    then have order': "in_order (i + 1) s'" using g(3) ib by (auto simp: in_order_def s'(6,7) load_update)
    have owned': "owned_atoms s' (own(a := 0))" using s'(3) i(2) by simp
    have atom_i: "\<exists>p. atom s' i = Some p \<and> same_atom t cs p"
    proof -
      obtain q where q: "rt_strings s' a = Some q" "core q = core (p\<lparr>str_hash := h, str_atom_type := t\<rparr>)"
        using fun_cong [OF s'(5), of a] by (auto simp: cores_def)
      then show ?thesis using core_eqD [OF q(2)] p(3) by (auto simp: atom_def s'(4) same_atom_def)
    qed
    have others: "\<exists>q. atom s' j = Some q \<and> str_atom_type q = str_atom_type r \<and> str_chars q = str_chars r"
      if j: "0 < j" "j \<noteq> i" "atom s j = Some r" for j r
    proof -
      obtain b where b: "atom_ptr s j = Some b" "rt_strings s b = Some r" using atom_SomeD [OF j(3)] by blast
      have "str_atom_type r \<noteq> TYPE_NONE" using atoms_invD(6) [OF owned_atomsD(1) [OF ok]] b by (auto simp: typed_ok_def)
      then have ba: "b \<noteq> a" using b(2) a by (auto simp: fresh_str_def)
      have "rt_strings g b = Some r" using g(2) b(2) by (auto simp: ready_def)
      then have "cores s' b = Some (core r)" using ba by (simp add: s'(5) cores_def)
      then obtain q where q: "rt_strings s' b = Some q" "core q = core r" by (auto simp: cores_def)
      have "atom_ptr s' j = Some b" using b(1) g(5) [OF j(1)] j(2) by (simp add: s'(4))
      then show ?thesis using q core_eqD [OF q(2)] by (intro exI [of _ q]) (simp add: atom_def)
    qed
    have strs: "rt_strings s b \<noteq> None \<or> mem_null mem = Some b" if b: "rt_strings s' b \<noteq> None" for b
    proof (cases "b = a")
      case False
      then have "rt_strings g b \<noteq> None" using fun_cong [OF s'(5), of b] b by (cases "rt_strings g b") (auto simp: cores_def)
      then show ?thesis by (rule g(6))
    qed (simp add: a)
    show ?thesis unfolding run s'(2)
      by (rule exI [of _ i], rule exI [of _ s']) (use order' owned' atom_i others strs in \<open>simp add: step_done_def\<close>)
  qed
qed

text \<open>The addresses that one round of the loop may get from the allocator.\<close>

fun round_addrs :: "nat option \<times> atom_mem \<Rightarrow> nat list" where
  "round_addrs (mem_p, mem) = (case mem_p of None \<Rightarrow> [] | Some a \<Rightarrow> [a]) @ (case mem_null mem of None \<Rightarrow> [] | Some a \<Rightarrow> [a])
     @ (case mem_str mem of None \<Rightarrow> [] | Some a \<Rightarrow> [a])"

definition addrs_free :: "(nat option \<times> atom_mem) list \<Rightarrow> atom_rt \<Rightarrow> bool" where
  "addrs_free ms s = (distinct (concat (map round_addrs ms)) \<and> (\<forall>a\<in>set (concat (map round_addrs ms)). rt_strings s a = None))"

lemma addrs_freeD:
  assumes "addrs_free ((mem_p, mem) # ms) s"
  shows "mem_p = Some a \<Longrightarrow> rt_strings s a = None" "addrs_free ms s"
    "mem_p = Some a \<Longrightarrow> mem_ok (set_str a p s) mem"
    "mem_p = Some a \<Longrightarrow> (\<And>b. rt_strings s' b \<noteq> None \<Longrightarrow> rt_strings (set_str a p s) b \<noteq> None \<or> mem_null mem = Some b) \<Longrightarrow> addrs_free ms s'"
proof -
  show "mem_p = Some a \<Longrightarrow> rt_strings s a = None" "addrs_free ms s" using assms by (auto simp: addrs_free_def)
  show "mem_p = Some a \<Longrightarrow> mem_ok (set_str a p s) mem"
    using assms by (auto simp: addrs_free_def mem_ok_def split: option.splits)
  assume a: "mem_p = Some a" and s': "\<And>b. rt_strings s' b \<noteq> None \<Longrightarrow> rt_strings (set_str a p s) b \<noteq> None \<or> mem_null mem = Some b"
  have "rt_strings s' c = None" if "c \<in> set (concat (map round_addrs ms))" for c
  proof (rule ccontr)
    assume "rt_strings s' c \<noteq> None"
    then have "c = a \<or> rt_strings s c \<noteq> None \<or> mem_null mem = Some c" using s' [of c] by (auto split: if_splits)
    then show False using assms that a by (auto simp: addrs_free_def split: option.splits)
  qed
  then show "addrs_free ms s'" using assms unfolding addrs_free_def by simp
qed

lemma init_step:
  assumes inv: "init_inv i s" and i: "0 < i" "i < JS_ATOM_END" and addrs: "addrs_free ((mem_p, mem) # ms) s"
  shows "\<exists>k s'. JS_NewAtomInit s (map of_char (js_atom_init ! (i - 1))) (init_type i) mem_p mem = Some (k, s')
    \<and> (k = 0 \<or> init_inv (i + 1) s' \<and> addrs_free ms s')"
proof (cases mem_p)
  case None
  then show ?thesis by (simp add: JS_NewAtomInit_def js_alloc_string_rt_def)
next
  case (Some a)
  have ok: "owned_atoms s (\<lambda>a. 0)" and order: "in_order i s" and names: "named_below i s" using inv by (simp_all add: init_inv_def)
  define cs where "cs = name_text i"
  define s1 where "s1 = set_str a (fresh_str cs) s"
  have a: "rt_strings s a = None" by (rule addrs_freeD(1) [OF addrs Some])
  have ok1: "owned_atoms s1 ((\<lambda>a. 0)(a := 1))" unfolding s1_def by (rule fresh_string [OF ok a])
  have at: "atom s1 = atom s" unfolding s1_def by (rule atom_set_other [OF fresh_no_ptr [OF ok a]])
  have order1: "in_order i s1" using order by (simp add: in_order_def s1_def)
  have mem1: "mem_ok s1 mem" unfolding s1_def by (rule addrs_freeD(3) [OF addrs Some])
  have "sizes_ok s" using ok by (simp add: owned_atoms_def atoms_inv_def)
  then have small: "rt_atom_size s1 * 3 < 2 ^ 31"
    using order i(2) by (auto simp: in_order_def sizes_ok_def s1_def JS_ATOM_END_def)
  have a1: "rt_strings s1 a = Some (fresh_str cs)" by (simp add: s1_def)
  have alloc: "JS_NewAtomInit s (map of_char (js_atom_init ! (i - 1))) (init_type i) mem_p mem = JS_NewAtom0 s1 (Some a) (init_type i) mem"
    by (simp add: JS_NewAtomInit_def js_alloc_string_rt_def Some s1_def cs_def name_text_def fresh_str_def)
  have finish: ?thesis
    if run: "JS_NewAtom0 s1 (Some a) (init_type i) mem = new_atom_entry s1 (Some a) h h1 (new_type (init_type i)) mem"
      and t: "new_type (init_type i) \<in> {TYPE_STRING, TYPE_GLOBAL_SYMBOL, TYPE_SYMBOL}"
      and h: "new_type (init_type i) \<noteq> TYPE_SYMBOL \<Longrightarrow> h = atom_hash (new_type (init_type i)) cs \<and> h1 = hash_slot h (rt_atom_hash_size s1)"
      and new: "\<And>j q. new_type (init_type i) \<noteq> TYPE_SYMBOL \<Longrightarrow> atom s1 j = Some q \<Longrightarrow> \<not> same_atom (new_type (init_type i)) cs q" for h h1
  proof -
    have "\<exists>k s'. new_atom_entry s1 (Some a) h h1 (new_type (init_type i)) mem = Some (k, s')
        \<and> (k = 0 \<or> k = i \<and> step_done i s1 ((\<lambda>a. 0)(a := 0)) mem (new_type (init_type i)) cs s')"
      by (rule new_entry_in_order [OF ok1 a1 order1 i mem1 small t]) (use h new in blast)+
    then obtain k s' where k: "new_atom_entry s1 (Some a) h h1 (new_type (init_type i)) mem = Some (k, s')"
      "k = 0 \<or> k = i \<and> step_done i s1 ((\<lambda>a. 0)(a := 0)) mem (new_type (init_type i)) cs s'" by blast
    have "init_inv (i + 1) s' \<and> addrs_free ms s'" if "k \<noteq> 0"
    proof -
      from k(2) that have s': "owned_atoms s' ((\<lambda>a. 0)(a := 0))" "in_order (i + 1) s'" "\<exists>p. atom s' i = Some p \<and> same_atom (new_type (init_type i)) cs p"
        "\<And>j p. 0 < j \<Longrightarrow> j \<noteq> i \<Longrightarrow> atom s1 j = Some p \<Longrightarrow> \<exists>q. atom s' j = Some q \<and> str_atom_type q = str_atom_type p \<and> str_chars q = str_chars p"
        "\<And>b. rt_strings s' b \<noteq> None \<Longrightarrow> rt_strings s1 b \<noteq> None \<or> mem_null mem = Some b" unfolding step_done_def by blast+
      have "\<exists>p. atom s' j = Some p \<and> same_atom (new_type (init_type j)) (name_text j) p" if j: "0 < j" "j < i + 1" for j
      proof (cases "j = i")
        case False
        then have ji: "j < i" using j(2) by simp
        obtain p where p: "atom s j = Some p" "same_atom (new_type (init_type j)) (name_text j) p"
          using names [unfolded named_below_def, rule_format, OF j(1) ji] by (elim exE conjE)
        obtain q where "atom s' j = Some q" "str_atom_type q = str_atom_type p" "str_chars q = str_chars p"
          using s'(4) [OF j(1) False] p(1) unfolding at by blast
        then show ?thesis using p(2) by (intro exI [of _ q]) (simp add: same_atom_def)
      qed (use s'(3) in \<open>simp add: cs_def\<close>)
      moreover have "addrs_free ms s'" using addrs_freeD(4) [OF addrs Some, of s'] s'(5) unfolding s1_def by blast
      moreover have "owned_atoms s' (\<lambda>a. 0)" using s'(1) by (simp add: fun_upd_def)
      ultimately show ?thesis using s'(2) by (simp add: init_inv_def named_below_def)
    qed
    then show ?thesis using alloc run k(1) by auto
  qed
  show ?thesis
  proof (cases "new_type (init_type i) = TYPE_SYMBOL")
    case True
    have "JS_NewAtom0 s1 (Some a) (init_type i) mem
        = new_atom_entry s1 (Some a) (if init_type i = TYPE_SYMBOL then JS_ATOM_HASH_SYMBOL else JS_ATOM_HASH_PRIVATE) 0 TYPE_SYMBOL mem"
      using True by (cases "init_type i") (simp_all add: JS_NewAtom0_def new_type_def)
    then show ?thesis using finish True by simp
  next
    case False
    then have string: "init_type i = TYPE_STRING" "i < 210"
      by (auto simp: init_type_def new_type_def JS_ATOM_Private_brand_def JS_ATOM_Symbol_toPrimitive_def split: if_splits)
    then have ty: "new_type (init_type i) = TYPE_STRING" by (simp add: new_type_def)
    have new: "\<not> same_atom TYPE_STRING cs q" if "atom s1 j = Some q" for j q
      using not_interned [OF inv i(1) string(2)] that by (auto simp: at cs_def)
    define h where "h = atom_hash TYPE_STRING cs"
    define h1 where "h1 = hash_slot h (rt_atom_hash_size s1)"
    define k where "k = rt_atom_hash s1 ! h1"
    note inv1 = owned_atomsD(1) [OF ok1]
    have "load (rt_atom_hash s1) h1 = Some k" using find_atom_same(1) [OF inv1 _ h_def] by (simp add: h1_def k_def)
    moreover have "find_atom s1 h TYPE_STRING cs (length (rt_atom_array s1)) k = Some None"
    proof -
      obtain r where r: "find_atom s1 h TYPE_STRING cs (length (rt_atom_array s1)) k = Some r"
        "case r of None \<Rightarrow> \<forall>j q. atom s1 j = Some q \<longrightarrow> \<not> same_atom TYPE_STRING cs q | Some j \<Rightarrow> \<exists>q. atom s1 j = Some q \<and> same_atom TYPE_STRING cs q"
        using find_atom_same(2) [OF inv1 _ h_def] by (auto simp: h1_def k_def)
      then show ?thesis using new by (cases r) auto
    qed
    ultimately have "JS_NewAtom0 s1 (Some a) (init_type i) mem = new_atom_entry s1 (Some a) h h1 TYPE_STRING mem"
      using a1 unfolding h1_def unfolding h_def atom_hash_def by (simp add: JS_NewAtom0_def string(1) fresh_str_def Let_def)
    then show ?thesis using finish [of h h1] new unfolding ty by (simp add: h_def h1_def)
  qed
qed

section \<open>The loop\<close>

lemma init_loop_spec:
  assumes "init_inv i s" "0 < i" "i + length ms = JS_ATOM_END" "addrs_free ms s"
  shows "\<exists>ok s'. init_loop (zip (drop (i - 1) (map (map of_char) js_atom_init)) ms) i s = Some (ok, s') \<and> (ok \<longrightarrow> init_inv JS_ATOM_END s')"
  using assms
proof (induction ms arbitrary: i s)
  case Nil
  then show ?case by (intro exI [of _ True]) simp
next
  case (Cons m ms)
  obtain mem_p mem where m: "m = (mem_p, mem)" by (cases m)
  have i: "i - 1 < length js_atom_init" "i < JS_ATOM_END" using Cons.prems(2,3) by (simp_all add: JS_ATOM_END_def names_length)
  obtain k s' where k: "JS_NewAtomInit s (map of_char (js_atom_init ! (i - 1))) (init_type i) mem_p mem = Some (k, s')"
    "k = 0 \<or> init_inv (i + 1) s' \<and> addrs_free ms s'"
    using init_step [OF Cons.prems(1,2) i(2) Cons.prems(4) [unfolded m]] by blast
  have names: "drop (i - 1) (map (map of_char) js_atom_init) = map of_char (js_atom_init ! (i - 1)) # drop i (map (map of_char) js_atom_init)"
    using i(1) Cons.prems(2) Cons_nth_drop_Suc [of "i - 1" "map (map of_char) js_atom_init", symmetric] by simp
  show ?case
  proof (cases "k = 0")
    case True
    then show ?thesis using k(1) unfolding names m by (intro exI [of _ False]) simp
  next
    case False
    then have "\<exists>ok t. init_loop (zip (drop i (map (map of_char) js_atom_init)) ms) (i + 1) s' = Some (ok, t) \<and> (ok \<longrightarrow> init_inv JS_ATOM_END t)"
      using Cons.IH [of "i + 1" s'] k(2) Cons.prems(2,3) by simp
    then show ?thesis using k(1) False unfolding names m by simp
  qed
qed

lemma init_inv_start: "init_inv 1 start_rt"
  using start_owned by (auto simp: init_inv_def in_order_def named_below_def start_rt_def empty_rt_def)

text \<open>
  C20: Initialisation. Whatever the allocator answers, \<^verbatim>\<open>JS_InitAtoms\<close> returns without a
  fault, and when it succeeds the atom with the number of a constant \<^verbatim>\<open>JS_ATOM_x\<close> has the text and the type that
  the table gives for \<^verbatim>\<open>x\<close>; nobody owes a reference for it.
\<close>

theorem predefined_atoms:
  assumes ms: "length ms = 223" "distinct (concat (map round_addrs ms))"
  shows "\<exists>ok s. JS_InitAtoms hash_ok ms = Some (ok, s) \<and> (ok \<longrightarrow> owned_atoms s (\<lambda>a. 0)
    \<and> (\<forall>i. 0 < i \<longrightarrow> i < JS_ATOM_END \<longrightarrow>
        (\<exists>p. atom s i = Some p \<and> same_atom (if i < 210 then TYPE_STRING else TYPE_SYMBOL) (Str8 (map of_char (js_atom_init ! (i - 1)))) p)))"
proof (cases hash_ok)
  case False
  have "(256 :: nat) AND (256 - 1) = 0" using pow_and [of 8] by simp
  then show ?thesis using False by (intro exI [of _ False]) (simp add: JS_InitAtoms_def JS_ResizeAtomHash_def)
next
  case True
  have "addrs_free ms start_rt" using ms(2) by (simp add: addrs_free_def start_rt_def empty_rt_def)
  then obtain ok s where "init_loop (zip (map (map of_char) js_atom_init) ms) 1 start_rt = Some (ok, s)" "ok \<longrightarrow> init_inv JS_ATOM_END s"
    using init_loop_spec [OF init_inv_start, of ms] ms(1) by (auto simp: JS_ATOM_END_def)
  moreover have "new_type (init_type i) = (if i < 210 then TYPE_STRING else TYPE_SYMBOL)" for i
    by (simp add: init_type_def new_type_def JS_ATOM_Private_brand_def JS_ATOM_Symbol_toPrimitive_def)
  ultimately show ?thesis using True start_eq by (simp add: JS_InitAtoms_def init_inv_def named_below_def name_text_def)
qed

text \<open>An allocator that never fails.\<close>

definition plenty :: "(nat option \<times> atom_mem) list" where
  "plenty = map (\<lambda>i. (Some i, \<lparr>mem_array = True, mem_null = (if i = 1 then Some 0 else None), mem_str = None, mem_hash = True\<rparr>)) [1..<224]"

theorem predefined_atoms_witness: "\<exists>ok s. JS_InitAtoms True plenty = Some (ok, s)"
proof -
  have "map round_addrs plenty = map (\<lambda>i. if i = 1 then [1, 0] else [i]) [1..<224]" by (simp add: plenty_def)
  moreover have "[1..<224] = 1 # [2..<224]" by (simp add: upt_conv_Cons numeral_2_eq_2)
  moreover have "map (\<lambda>i. if i = 1 then [1, 0] else [i]) [2..<224] = map (\<lambda>i. [i :: nat]) [2..<224]" by simp
  ultimately have "concat (map round_addrs plenty) = 1 # 0 # [2..<224]" by simp
  then have "distinct (concat (map round_addrs plenty))" by simp
  moreover have "length plenty = 223" by (simp add: plenty_def)
  ultimately show ?thesis using predefined_atoms [of plenty True] by blast
qed

end
