(* ===== verification/Spec2Isabelle.thy ===== *)
theory Spec2Isabelle
  imports ListH Gc LimbDiv CStrings Endian DynBuf UtfBuf Ntoa Exchange CharRange CaseConv BlockTable MapProps RegexpProps AtomProps AtomInit
begin

text \<open>
  Verification of the C engine of substrata-swift.

  The package is a Swift interface to the JavaScript engine QuickJS-NG, whose C sources stand in
  \<^verbatim>\<open>src/Sources/SubstrataQuickJS\<close>. From bottom to top these are \<^verbatim>\<open>cutils.c\<close>, \<^verbatim>\<open>cutils.h\<close> and \<^verbatim>\<open>list.h\<close>
  (strings, buffers, sorting, lists), \<^verbatim>\<open>libunicode.c\<close> (character sets and case conversion over compressed
  tables), \<^verbatim>\<open>libregexp.c\<close> (regular expressions), \<^verbatim>\<open>libbf.c\<close> (numbers of any precision), \<^verbatim>\<open>quickjs.c\<close> (the
  engine, which calls all of them) and \<^verbatim>\<open>quickjs-libc.c\<close> (a library for command line programs).
  Every definition that models code keeps the name of its C function; a loop inside a function is a
  definition of its own.

  \<^bold>\<open>Conventions.\<close> Theory \<open>Prelude\<close> holds the machine types (\<open>u8\<close> to \<open>u64\<close> are words, so arithmetic
  wraps as it does in C; an \<open>int\<close> whose range matters is kept in range by a premise or a check) and the
  checked accesses \<open>load\<close> and \<open>store\<close>. An object behind a pointer is the list of its elements and an
  index. \<^term>\<open>None\<close> is a fault: an access outside an object, to freed memory or to an unset cell, a failed
  assertion, a signed overflow. A theorem that the result is \<^term>\<open>Some\<close> thus says that the code makes
  no such step and that it returns. Allocators, comparison functions and callbacks are arguments; where the code
  relies on what they promise, that is a locale (\<open>realloc_func\<close>, \<open>points_realloc\<close>, \<open>comparator\<close>,
  \<open>block_table\<close>, \<open>hashed_keys\<close>), interpreted on the model's own definitions.

  \<^bold>\<open>Loops.\<close> A loop is a \<open>fun\<close> when its recursion is structural and a \<open>function\<close> with a measure when a
  counter bounds it. \<open>partial_function (option)\<close> is used where only an invariant bounds it
  (\<open>partition_loop\<close>, \<open>rqsort_loop\<close>, \<open>put_shift\<close>, \<open>put_div\<close>, \<open>radix_len\<close>, \<open>add_back\<close>); the properties
  show that these return. Fuel is used in five places. A walk over a linked list has the number of its nodes.
  The collector's loops have the number of the objects. A walk along a hash chain of atoms has the length of the
  atom array, which is enough because an entry is on one chain at most (\<open>chain_length\<close>). A search in the regular expression
  code has the length of the code, the character class or the capture. The interpreter of regular
  expressions uses one unit per instruction, and \<open>lre_exec_backtracks\<close> quantifies over it: some amount
  of fuel gives a result exactly when the backtracking search has that result.

  \<^bold>\<open>Theories, from the bottom.\<close>
  \<^item> \<open>CStrings\<close>: \<^verbatim>\<open>js__pstrcpy\<close>, \<^verbatim>\<open>js__pstrcat\<close>, \<^verbatim>\<open>js__strstart\<close>, \<^verbatim>\<open>js__has_suffix\<close> (\<^verbatim>\<open>cutils.c\<close>). Copies are
    truncated to the buffer and terminated.
  \<^item> \<open>Endian\<close>: the unaligned accessors and byte swaps of \<^verbatim>\<open>cutils.h\<close>; round trips.
  \<^item> \<open>DynBuf\<close>: the dynamic buffer \<^verbatim>\<open>dbuf_*\<close>; sizes are 64-bit words that wrap. A sequence of appends that
    is checked once, at its end, is right.
  \<^item> \<open>Utf\<close>, \<open>UtfBuf\<close>: \<^verbatim>\<open>utf8_*\<close>, \<^verbatim>\<open>is_surrogate\<close> and its relatives. Decoders and encoders stay in bounds,
    report the full length, and invert each other.
  \<^item> \<open>Ntoa\<close>: \<^verbatim>\<open>u32toa\<close> to \<^verbatim>\<open>i64toa_radix\<close>. The text is the numeral of the integer.
  \<^item> \<open>Sort\<close>, \<open>Exchange\<close>: \<^verbatim>\<open>rqsort\<close> with its stack of 50 frames, and the byte exchange routines that it
    selects by alignment. It is safe for any comparison function and sorts for a consistent one.
  \<^item> \<open>ListH\<close>: \<^verbatim>\<open>list.h\<close> on explicit pointers, refined to lists of nodes. The collector and the maps below use lists.
  \<^item> \<open>CharRange\<close>: \<^verbatim>\<open>CharRange\<close> and \<^verbatim>\<open>cr_*\<close> (\<^verbatim>\<open>libunicode.c\<close>). The abstract view of a point list is a set of
    code points; every operation computes on it, with allocation that may fail.
  \<^item> \<open>UniTables\<close>, \<open>CaseConv\<close>, \<open>BlockTable\<close>: the tables of \<^verbatim>\<open>libunicode-table.h\<close> and the functions that search them.
    The indexed search agrees with a scan of the table. What the search needs of a table is checked by evaluation of the table.
  \<^item> \<open>RegexpVM\<close>, \<open>RegexpStep\<close>, \<open>RegexpSem\<close>, \<open>RegexpRun\<close>, \<open>RegexpProps\<close>: the matcher \<^verbatim>\<open>lre_exec\<close> and
    \<^verbatim>\<open>lre_exec_backtrack\<close>, whose saved states are an explicit stack. It computes the big-step backtracking
    relation of \<open>RegexpSem\<close>, in which an alternative is tried when the first one fails; a
    recursive call for a greedy quantifier on a simple body is the longest run first. Captures stay inside the subject.
  \<^item> \<open>Limbs\<close>, \<open>LimbDiv\<close>: the arrays of 64-bit limbs of \<^verbatim>\<open>libbf.c\<close> in one memory, so that arrays may overlap;
    addition, multiplication and division are exact.
  \<^item> \<open>GcMark\<close>, \<open>Gc\<close>: what each kind of object hands to a mark function, and the phases \<^verbatim>\<open>gc_decref\<close> and
    \<^verbatim>\<open>gc_scan\<close> (\<^verbatim>\<open>quickjs.c\<close>). Kept are the objects that are reachable from references from outside, and all counts
    are restored.
  \<^item> \<open>Atoms\<close>, \<open>AtomInv\<close>, \<open>AtomResize\<close>, \<open>AtomNew\<close>, \<open>AtomNum\<close>, \<open>AtomProps\<close>, \<open>AtomInit\<close>: the table of interned strings and symbols
    (\<^verbatim>\<open>__JS_NewAtom\<close>, \<^verbatim>\<open>JS_FreeAtomStruct\<close>, \<^verbatim>\<open>JS_ResizeAtomHash\<close>, \<^verbatim>\<open>JS_InitAtoms\<close>, \<^verbatim>\<open>is_num_string\<close> and their callers). A run is a
    sequence of these operations by callers that own references; in every run the chains, the free list
    and the reference counts are right, equal texts are one atom, and an atom that is owned
    stays; after initialisation the constants \<^verbatim>\<open>JS_ATOM_x\<close> of the engine are the indices of their strings. The text of a string is its list of characters, so an 8-bit and a 16-bit string can be equal.
  \<^item> \<open>JsValue\<close>, \<open>MapSet\<close>, \<open>MapInv\<close>, \<open>MapFree\<close>, \<open>MapSpec\<close>, \<open>MapProps\<close>: keys, their comparison and hash, and the hash
    table of \<^verbatim>\<open>Map\<close> and \<^verbatim>\<open>Set\<close> with iterators and \<^verbatim>\<open>forEach\<close> calls that hold records while the map
    changes. Allocations may fail, and freeing a value may kill iterators. The specification is the list with holes
    of ECMAScript; runs of any operations are simulated by it, and exceptions change no entry. The C code can
    read a freed record: \<open>map_faults_exactly\<close> says when, \<open>clear_reads_freed_record\<close> and
    \<open>forEach_reads_freed_record\<close> are runs that get there.

  \<^bold>\<open>Bounds.\<close> Reference counts of the collector, of maps and of atoms are integers without a bound. Tables
  of the maps have fewer than \<open>2 ^ 32\<close> buckets and records, the bound of the fields. The atom array grows while three times its
  size fits an \<^verbatim>\<open>int\<close> (\<open>room_ok\<close>), after which the C code overflows. Positions in the subject of the matcher, limb counts,
  the sizes of point lists and indices of arrays are natural numbers, so that an overflow of the \<^verbatim>\<open>int\<close> that counts them in C,
  from \<open>2 ^ 31\<close> elements on, is outside the model. A comparison function given to \<^verbatim>\<open>rqsort\<close> is a function of the two elements; one
  that keeps a state behind its opaque argument is outside the model.

  \<^bold>\<open>Not modelled.\<close> The rest of \<^verbatim>\<open>libbf.c\<close>: the floating point layer, decimal numbers and the product by
  number theoretic transform. \<^verbatim>\<open>quickjs-libc.c\<close>: nearly all of it calls the operating system. In \<^verbatim>\<open>quickjs.c\<close>: parser,
  bytecode compiler and interpreter, property tables and shapes, the object classes apart from \<^verbatim>\<open>Map\<close> and \<^verbatim>\<open>Set\<close>, weak maps
  and weak references, modules, and the phase of the collector that runs finalizers, which would
  need the state of every class. Weak references to symbols and the conversions between atoms and values belong to them. The compiler of regular expressions (\<^verbatim>\<open>re_parse_*\<close>, \<^verbatim>\<open>lre_compile\<close>) and
  \<^verbatim>\<open>lre_byte_swap\<close>: the matcher is proved for any bytecode, or for bytecode that passes a static test. In
  \<^verbatim>\<open>libunicode.c\<close>: normalisation, scripts and general categories, with their generated tables. In \<^verbatim>\<open>cutils.c\<close>: half
  precision floats, and time and threads, which call the platform. The Swift sources hold
  no algorithm of the engine.
\<close>

end
